(* ===== verification/CloakPrelude.thy ===== *)
theory CloakPrelude
  imports Main "HOL-Library.Word"
begin

text \<open>
  Shared vocabulary of the development: the machine types of the C sources, the memory
  primitives (\<open>memcpy\<close> into a buffer, \<open>malloc\<close>), the big-endian byte loads and stores that
  several source files repeat as \<open>static\<close> helpers, and the generic lemmas on lists, words and
  modular indices that the component theories use.

  Conventions used throughout:
  \<^item> \<open>uint8_t\<close>, \<open>uint16_t\<close>, \<open>uint32_t\<close>, \<open>uint64_t\<close> are words of that width; a \<open>size_t\<close>
    is a \<^typ>\<open>nat\<close> wherever the code establishes that it cannot wrap, and a word otherwise;
    \<open>int64_t\<close> token counts are \<^typ>\<open>int\<close> with the bounds proved.
  \<^item> a pointer and a length are one list; a buffer a function writes through is returned.
  \<^item> \<open>malloc\<close> is a parameter \<open>nat \<Rightarrow> 'a list option\<close>: \<^const>\<open>None\<close> is the NULL return, and
    \<^const>\<open>Some\<close> carries the block with its indeterminate initial contents.
  \<^item> C \<open>int\<close> return codes are kept as \<^typ>\<open>int\<close> values.
\<close>

unbundle bit_operations_syntax

type_synonym byte = "8 word"
type_synonym u16 = "16 word"
type_synonym u32 = "32 word"
type_synonym u64 = "64 word"
type_synonym bytes = "byte list"

named_theorems wire_simps "lengths and round trips of the byte-level encoders"
named_theorems inv_intros "operations that keep a component's invariant"

section \<open>Memory primitives\<close>

definition INT64_MIN :: int where "INT64_MIN = - (2 ^ 63)"
definition INT64_MAX :: int where "INT64_MAX = 2 ^ 63 - 1"

definition blit :: "'a list \<Rightarrow> nat \<Rightarrow> 'a list \<Rightarrow> 'a list" where
  \<comment> \<open>\<open>memcpy(dst + off, src, n)\<close> with \<open>n = length src\<close>\<close>
  "blit dst off src = take off dst @ src @ drop (off + length src) dst"

definition malloc_sound :: "(nat \<Rightarrow> 'a list option) \<Rightarrow> bool" where
  \<comment> \<open>a block that \<open>malloc\<close> returns has the size that was asked for\<close>
  "malloc_sound malloc \<longleftrightarrow> (\<forall>n blk. malloc n = Some blk \<longrightarrow> length blk = n)"

section \<open>Big-endian loads and stores\<close>

text \<open>The loop \<open>v = (v << 8) | p[i]\<close> over a byte run, most significant byte first.\<close>

fun be_load :: "bytes \<Rightarrow> 'a::len word \<Rightarrow> 'a word" where
  "be_load [] v = v"
| "be_load (b # bs) v = be_load bs (push_bit 8 v OR ucast b)"

text \<open>The loop \<open>p[i] = (uint8_t)v; v >>= 8\<close> for \<open>i\<close> from \<open>n - 1\<close> down to \<open>0\<close>.\<close>

fun be_store :: "nat \<Rightarrow> 'a::len word \<Rightarrow> bytes" where
  "be_store 0 v = []"
| "be_store (Suc n) v = be_store n (drop_bit 8 v) @ [ucast v]"

text \<open>
  The same for the two- and four-byte fields, which the sources write out byte by byte. The
  result type is the C type the bytes are cast to before shifting.
\<close>

definition be16_load :: "bytes \<Rightarrow> 'a::len word" where
  "be16_load p = push_bit 8 (ucast (p ! 0)) OR ucast (p ! 1)"

definition be16_store :: "'a::len word \<Rightarrow> bytes" where
  "be16_store v = [ucast (drop_bit 8 v), ucast v]"

definition be32_load :: "bytes \<Rightarrow> 'a::len word" where
  "be32_load p = push_bit 24 (ucast (p ! 0)) OR push_bit 16 (ucast (p ! 1))
     OR push_bit 8 (ucast (p ! 2)) OR ucast (p ! 3)"

definition be32_store :: "'a::len word \<Rightarrow> bytes" where
  "be32_store v = [ucast (drop_bit 24 v), ucast (drop_bit 16 v), ucast (drop_bit 8 v), ucast v]"

section \<open>Generic lemmas\<close>

lemma length_blit [simp]:
  "off + length src \<le> length dst \<Longrightarrow> length (blit dst off src) = length dst"
  by (simp add: blit_def)

lemma blit_nth_inside:
  "off + length src \<le> length dst \<Longrightarrow> k < length src \<Longrightarrow> blit dst off src ! (off + k) = src ! k"
  by (simp add: blit_def nth_append min_def)

lemma blit_nth_outside:
  assumes "off + length src \<le> length dst" "j < length dst" "j < off \<or> off + length src \<le> j"
  shows "blit dst off src ! j = dst ! j"
  using assms by (auto simp: blit_def nth_append min_def add.commute)

lemma malloc_soundD: "malloc_sound malloc \<Longrightarrow> malloc n = Some blk \<Longrightarrow> length blk = n"
  by (simp add: malloc_sound_def)

lemma mod_wrap: "(x::nat) < 2 * c \<Longrightarrow> x mod c = (if x < c then x else x - c)"
  by (auto simp: le_mod_geq not_less)

lemma and_pow2: "(x :: nat) AND (2 ^ k - 1) = x mod 2 ^ k"
  by (simp add: take_bit_eq_mod[symmetric] take_bit_eq_mask mask_eq_exp_minus_1)

lemma take_map_upt: "n \<le> m \<Longrightarrow> take n (map f [0..<m]) = map f [0..<n]"
  by (simp add: take_map)

lemma be_load_append: "be_load (xs @ ys) v = be_load ys (be_load xs v)"
  by (induct xs arbitrary: v) auto

lemma length_be_store [simp, wire_simps]: "length (be_store n v) = n"
  by (induct n arbitrary: v) auto

lemma be_load_store: "be_load (be_store n v) 0 = take_bit (8 * n) v"
proof (induct n arbitrary: v)
  case (Suc n)
  have "push_bit 8 (take_bit (8 * n) (drop_bit 8 v)) OR ucast (ucast v :: byte)
      = take_bit (8 * Suc n) v"
    by (rule bit_word_eqI) (auto simp: bit_simps)
  with Suc show ?case by (simp add: be_load_append)
qed simp

lemma be16_store_eq: "be16_store v = be_store 2 v"
  by (simp add: be16_store_def numeral_2_eq_2)

lemma be32_store_eq: "be32_store v = be_store 4 v"
  by (simp add: be32_store_def eval_nat_numeral)

lemma be16_load_eq: "be16_load [a, b] = be_load [a, b] 0"
  by (simp add: be16_load_def)

lemma be32_load_eq: "be32_load [a, b, c, d] = be_load [a, b, c, d] 0"
  by (simp add: be32_load_def push_bit_or or.assoc)

lemma length_be16_store [simp, wire_simps]: "length (be16_store v) = 2"
  by (simp add: be16_store_def)

lemma length_be32_store [simp, wire_simps]: "length (be32_store v) = 4"
  by (simp add: be32_store_def)

lemma be16_load_store [wire_simps]: "be16_load (be16_store v) = take_bit 16 v"
  using be_load_store[of 2 v] unfolding be16_store_eq[symmetric]
  by (simp add: be16_store_def be16_load_eq del: be_load.simps)

lemma be32_load_store [wire_simps]: "be32_load (be32_store v) = take_bit 32 v"
  using be_load_store[of 4 v] unfolding be32_store_eq[symmetric]
  by (simp add: be32_store_def be32_load_eq del: be_load.simps)

lemma be16_load_append [simp]: "2 \<le> length p \<Longrightarrow> be16_load (p @ q) = be16_load p"
  by (auto simp: be16_load_def nth_append)

lemma be32_load_append [simp]: "4 \<le> length p \<Longrightarrow> be32_load (p @ q) = be32_load p"
  by (auto simp: be32_load_def nth_append)

lemma unat_take_bit_of_nat:
  assumes "n < 2 ^ k" "k \<le> LENGTH('a)"
  shows "unat (take_bit k (of_nat n :: 'a::len word)) = n"
proof -
  have "n < 2 ^ LENGTH('a)"
    using assms by (meson less_le_trans one_le_numeral power_increasing)
  then show ?thesis using assms by (simp add: unsigned_take_bit_eq take_bit_nat_eq_self unat_of_nat)
qed

lemma take_bit_word_full: "LENGTH('a) \<le> n \<Longrightarrow> take_bit n (w :: 'a::len word) = w"
  by (rule bit_word_eqI) (auto simp: bit_simps dest: bit_imp_le_length)

lemma be_load_bound: "take_bit (8 * length p) (be_load p 0) = (be_load p 0 :: 'a::len word)"
proof (induct p rule: rev_induct)
  case (snoc b p)
  show ?case
  proof (rule bit_word_eqI)
    fix n assume "n < LENGTH('a)"
    have "bit (be_load p 0 :: 'a word) (n - 8) \<Longrightarrow> n - 8 < 8 * length p"
      by (metis snoc bit_take_bit_iff)
    then show "bit (take_bit (8 * length (p @ [b])) (be_load (p @ [b]) 0 :: 'a word)) n
        = bit (be_load (p @ [b]) 0 :: 'a word) n"
      by (auto simp: be_load_append bit_simps dest: bit_imp_le_length)
  qed
qed simp

lemma be_store_load:
  assumes "length p = n" "8 * n \<le> LENGTH('a)"
  shows "be_store n (be_load p 0 :: 'a::len word) = p"
  using assms
proof (induct p arbitrary: n rule: rev_induct)
  case (snoc b p)
  then obtain k where n: "n = Suc k" "length p = k" by (cases n) auto
  let ?v = "be_load p 0 :: 'a word"
  have small: "bit ?v i \<Longrightarrow> i < 8 * k" for i
    using be_load_bound[of p, where 'a = 'a] n by (metis bit_take_bit_iff)
  have "drop_bit 8 (push_bit 8 ?v OR ucast b) = ?v"
    using snoc.prems n by (intro bit_word_eqI) (auto simp: bit_simps dest: small bit_imp_le_length)
  moreover have "ucast (push_bit 8 ?v OR ucast b) = b"
    using snoc.prems n by (intro bit_word_eqI) (auto simp: bit_simps)
  ultimately show ?case using snoc n by (simp add: be_load_append)
qed simp

lemma be32_store_load:
  assumes "4 \<le> length p" "32 \<le> LENGTH('a)"
  shows "be32_store (be32_load p :: 'a::len word) = take 4 p"
proof -
  obtain a b c d q where p: "p = [a, b, c, d] @ q"
    using assms(1) by (auto simp: numeral_eq_Suc Suc_le_length_iff)
  then have "be32_load p = (be_load (take 4 p) 0 :: 'a word)"
    by (simp add: be32_load_eq[symmetric] del: be_load.simps append_Cons)
  then show ?thesis using be_store_load[of "take 4 p" 4, where 'a = 'a] assms
    by (simp add: be32_store_eq)
qed

lemma takeWhile_stop: "c \<notin> set xs \<Longrightarrow> takeWhile (\<lambda>b. b \<noteq> c) (xs @ c # ys) = xs"
  by (induct xs) auto

end
