(* ===== verification/RingBuffer.thy ===== *)
theory RingBuffer
  imports CloakPrelude
begin

text \<open>
  The wrap-around copy both receive queues are built on: \<open>ring_peek\<close> and \<open>ring_put\<close> of
  \<open>libcloak-mux/src/msgqueue.c\<close>, which \<open>libcloak-common/src/bytequeue.c\<close> writes out inline. A ring
  is a byte array \<open>data\<close> of \<open>cap\<close> bytes; \<open>ring_list data off n\<close> is the specification: the \<open>n\<close> bytes
  found by walking from \<open>off\<close> with the index reduced modulo the capacity.
\<close>

definition ring_peek :: "bytes \<Rightarrow> nat \<Rightarrow> nat \<Rightarrow> nat \<Rightarrow> bytes" where
  "ring_peek data cap off n =
     (let first = cap - off in
      if first \<ge> n then take n (drop off data)
      else take first (drop off data) @ take (n - first) data)"

definition ring_put :: "bytes \<Rightarrow> nat \<Rightarrow> nat \<Rightarrow> bytes \<Rightarrow> bytes" where
  "ring_put data cap off src =
     (let first = cap - off; n = length src in
      if first \<ge> n then blit data off src
      else blit (blit data off (take first src)) 0 (drop first src))"

definition ring_list :: "bytes \<Rightarrow> nat \<Rightarrow> nat \<Rightarrow> bytes" where
  "ring_list data off n = map (\<lambda>i. data ! ((off + i) mod length data)) [0..<n]"

section \<open>The copies meet the specification\<close>

lemma length_ring_list [simp]: "length (ring_list data off n) = n"
  by (simp add: ring_list_def)

lemma ring_list_0 [simp]: "ring_list data off 0 = []"
  by (simp add: ring_list_def)

lemma ring_list_nth [simp]:
  "i < n \<Longrightarrow> ring_list data off n ! i = data ! ((off + i) mod length data)"
  by (simp add: ring_list_def)

lemma ring_list_append:
  "ring_list data off (n + m) =
     ring_list data off n @ ring_list data ((off + n) mod length data) m"
  by (rule nth_equalityI)
     (auto simp: nth_append mod_simps add.assoc not_less dest!: le_Suc_ex)

lemma ring_list_take: "n \<le> m \<Longrightarrow> take n (ring_list data off m) = ring_list data off n"
  by (simp add: ring_list_def take_map)

lemma ring_list_drop:
  assumes "n \<le> m"
  shows "drop n (ring_list data off m) = ring_list data ((off + n) mod length data) (m - n)"
proof -
  have "ring_list data off m
      = ring_list data off n @ ring_list data ((off + n) mod length data) (m - n)"
    using ring_list_append[of data off n "m - n"] assms by simp
  then show ?thesis by simp
qed

lemma ring_peek_eq:
  assumes "length data = cap" "off < cap" "n \<le> cap"
  shows "ring_peek data cap off n = ring_list data off n"
proof (rule nth_equalityI)
  show "length (ring_peek data cap off n) = length (ring_list data off n)"
    using assms by (auto simp: ring_peek_def Let_def)
  fix i assume "i < length (ring_peek data cap off n)"
  then have "i < n" using assms by (auto simp: ring_peek_def Let_def split: if_splits)
  then show "ring_peek data cap off n ! i = ring_list data off n ! i"
    using assms by (auto simp: ring_peek_def Let_def nth_append mod_wrap add.commute)
qed

lemma length_ring_put [simp]:
  assumes "length data = cap" "off < cap" "length src \<le> cap"
  shows "length (ring_put data cap off src) = cap"
  using assms by (simp add: ring_put_def Let_def)

lemma ring_put_inside:
  assumes "length data = cap" "off < cap" "length src \<le> cap" "k < length src"
  shows "ring_put data cap off src ! ((off + k) mod cap) = src ! k"
proof (cases "length src \<le> cap - off")
  case True
  with assms show ?thesis
    by (simp add: ring_put_def Let_def blit_nth_inside mod_wrap)
next
  case False
  let ?d = "blit data off (take (cap - off) src)"
  have d: "length ?d = cap" using assms False by simp
  show ?thesis
  proof (cases "off + k < cap")
    case True
    have "blit ?d 0 (drop (cap - off) src) ! (off + k) = ?d ! (off + k)"
      using assms False True d by (intro blit_nth_outside) auto
    also have "\<dots> = src ! k"
      using assms False True by (subst blit_nth_inside) auto
    finally show ?thesis using False True assms by (simp add: ring_put_def Let_def)
  next
    case b: False
    have "blit ?d 0 (drop (cap - off) src) ! (0 + (off + k - cap)) = drop (cap - off) src ! (off + k - cap)"
      using assms False b d by (intro blit_nth_inside) auto
    then show ?thesis using False b assms
      by (simp add: ring_put_def Let_def mod_wrap)
  qed
qed

lemma ring_put_outside:
  assumes "length data = cap" "off < cap" "length src + m \<le> cap" "k < m"
  shows "ring_put data cap off src ! ((off + length src + k) mod cap)
       = data ! ((off + length src + k) mod cap)"
proof (cases "length src \<le> cap - off")
  case True
  have "(off + length src + k) mod cap < off \<or> off + length src \<le> (off + length src + k) mod cap"
    using assms True by (auto simp: mod_wrap)
  with True assms show ?thesis
    by (simp add: ring_put_def Let_def blit_nth_outside)
next
  case False
  let ?d = "blit data off (take (cap - off) src)" and ?j = "(off + length src + k) mod cap"
  have d: "length ?d = cap" using assms False by simp
  have j: "?j = off + length src + k - cap" "?j < off" "length src - (cap - off) \<le> ?j"
    using assms False by (auto simp: mod_wrap)
  have "blit ?d 0 (drop (cap - off) src) ! ?j = ?d ! ?j"
    using assms False d j by (intro blit_nth_outside) auto
  also have "\<dots> = data ! ?j"
    using assms False j by (intro blit_nth_outside) auto
  finally show ?thesis using False by (simp add: ring_put_def Let_def)
qed

text \<open>Appending at the tail position extends the stored run and disturbs nothing before it.\<close>

lemma ring_put_append:
  assumes "length data = cap" "0 < cap" "head < cap" "len + length src \<le> cap"
  shows "ring_list (ring_put data cap ((head + len) mod cap) src) head (len + length src)
       = ring_list data head len @ src"
proof (rule nth_equalityI)
  let ?t = "(head + len) mod cap"
  let ?d = "ring_put data cap ?t src"
  have t: "?t < cap" using assms by simp
  have d: "length ?d = cap" using assms t by simp
  show "length (ring_list ?d head (len + length src)) = length (ring_list data head len @ src)"
    by simp
  fix i assume "i < length (ring_list ?d head (len + length src))"
  then have i: "i < len + length src" by simp
  show "ring_list ?d head (len + length src) ! i = (ring_list data head len @ src) ! i"
  proof (cases "i < len")
    case True
    have "(head + i) mod cap = (?t + length src + (cap - len - length src + i)) mod cap"
    proof -
      have "(?t + length src + (cap - len - length src + i)) mod cap
          = (head + len + length src + (cap - len - length src + i)) mod cap"
        by (simp add: mod_simps add.assoc)
      also have "head + len + length src + (cap - len - length src + i) = head + i + cap"
        using assms True by simp
      finally show ?thesis by simp
    qed
    moreover have "?d ! ((?t + length src + (cap - len - length src + i)) mod cap)
        = data ! ((?t + length src + (cap - len - length src + i)) mod cap)"
      using assms True t by (intro ring_put_outside[where m = "cap - length src"]) auto
    ultimately show ?thesis using True i d assms by (simp add: nth_append)
  next
    case False
    then obtain k where k: "i = len + k" "k < length src" using i le_Suc_ex by fastforce
    have "(head + i) mod cap = (?t + k) mod cap" using k by (simp add: mod_simps add.assoc)
    then show ?thesis using k i d assms t
      by (simp add: nth_append ring_put_inside)
  qed
qed

end
