(* ===== verification/Bytequeue.thy ===== *)
theory Bytequeue
  imports RingBuffer
begin

text \<open>
  \<open>libcloak-common/src/bytequeue.c\<close>: the bounded byte FIFO behind every ordered stream's receive
  side and both directions of a connection. The record is \<open>cloak_bytequeue_t\<close>; a NULL \<open>data\<close>
  pointer is the empty block. The contract clients rely on is the locale \<open>byte_fifo\<close>, which the
  ring implementation interprets at the end of the theory.
\<close>

record bytequeue =
  bq_data :: bytes
  bq_cap :: nat
  bq_head :: nat
  bq_len :: nat
  bq_closed :: bool

section \<open>Operations\<close>

definition cloak_bytequeue_init :: "(nat \<Rightarrow> bytes option) \<Rightarrow> bytequeue \<Rightarrow> nat \<Rightarrow> int \<times> bytequeue" where
  "cloak_bytequeue_init malloc q cap =
     (if cap = 0 then (-1, q)
      else case malloc cap of
        None \<Rightarrow> (-1, q\<lparr>bq_data := []\<rparr>)
      | Some blk \<Rightarrow>
          (0, q\<lparr>bq_data := blk, bq_cap := cap, bq_head := 0, bq_len := 0, bq_closed := False\<rparr>))"

definition cloak_bytequeue_destroy :: "bytequeue \<Rightarrow> bytequeue" where
  "cloak_bytequeue_destroy q =
     q\<lparr>bq_data := [], bq_cap := 0, bq_head := 0, bq_len := 0, bq_closed := False\<rparr>"

definition cloak_bytequeue_write :: "bytequeue \<Rightarrow> bytes \<Rightarrow> nat \<times> bytequeue" where
  "cloak_bytequeue_write q data =
     (let len = length data in
      if len = 0 then (0, q)
      else if bq_closed q \<or> len > bq_cap q - bq_len q then (0, q)
      else let tail = (bq_head q + bq_len q) mod bq_cap q in
        (len, q\<lparr>bq_data := ring_put (bq_data q) (bq_cap q) tail data, bq_len := bq_len q + len\<rparr>))"

text \<open>The byte count a read or a peek returns is the length of the bytes it copied out.\<close>

definition cloak_bytequeue_peek :: "bytequeue \<Rightarrow> nat \<Rightarrow> bytes" where
  "cloak_bytequeue_peek q len =
     (let n = (if len < bq_len q then len else bq_len q) in
      if n = 0 then [] else ring_peek (bq_data q) (bq_cap q) (bq_head q) n)"

definition cloak_bytequeue_read :: "bytequeue \<Rightarrow> nat \<Rightarrow> bytes \<times> bytequeue" where
  "cloak_bytequeue_read q len =
     (let n = (if len < bq_len q then len else bq_len q) in
      if n = 0 then ([], q)
      else (ring_peek (bq_data q) (bq_cap q) (bq_head q) n,
            q\<lparr>bq_head := (bq_head q + n) mod bq_cap q, bq_len := bq_len q - n\<rparr>))"

definition cloak_bytequeue_close :: "bytequeue \<Rightarrow> bytequeue" where
  "cloak_bytequeue_close q = q\<lparr>bq_closed := True\<rparr>"

definition cloak_bytequeue_len :: "bytequeue \<Rightarrow> nat" where
  "cloak_bytequeue_len q = bq_len q"

definition cloak_bytequeue_free_space :: "bytequeue \<Rightarrow> nat" where
  "cloak_bytequeue_free_space q = bq_cap q - bq_len q"

definition cloak_bytequeue_is_eof :: "bytequeue \<Rightarrow> bool" where
  "cloak_bytequeue_is_eof q \<longleftrightarrow> bq_closed q \<and> bq_len q = 0"

section \<open>Representation invariant and abstraction\<close>

definition bytequeue_ok :: "bytequeue \<Rightarrow> bool" where
  "bytequeue_ok q \<longleftrightarrow> 0 < bq_cap q \<and> length (bq_data q) = bq_cap q
     \<and> bq_head q < bq_cap q \<and> bq_len q \<le> bq_cap q"

definition bytequeue_list :: "bytequeue \<Rightarrow> bytes" where
  "bytequeue_list q = ring_list (bq_data q) (bq_head q) (bq_len q)"

section \<open>The contract of a byte FIFO\<close>

datatype fifo_op = Put bytes | Get nat

text \<open>A run of writes and reads: the bytes accepted, the bytes delivered, the final queue.\<close>

fun fifo_run :: "('q \<Rightarrow> bytes \<Rightarrow> nat \<times> 'q) \<Rightarrow> ('q \<Rightarrow> nat \<Rightarrow> bytes \<times> 'q) \<Rightarrow> 'q \<Rightarrow> fifo_op list
    \<Rightarrow> bytes \<times> bytes \<times> 'q" where
  "fifo_run wr rd q [] = ([], [], q)"
| "fifo_run wr rd q (Put xs # ops) =
     (case wr q xs of (n, q') \<Rightarrow>
        case fifo_run wr rd q' ops of (acc, del, q'') \<Rightarrow> (take n xs @ acc, del, q''))"
| "fifo_run wr rd q (Get n # ops) =
     (case rd q n of (out, q') \<Rightarrow>
        case fifo_run wr rd q' ops of (acc, del, q'') \<Rightarrow> (acc, out @ del, q''))"

locale byte_fifo =
  fixes ok :: "'q \<Rightarrow> bool"
    and content :: "'q \<Rightarrow> bytes"
    and cap :: "'q \<Rightarrow> nat"
    and shut :: "'q \<Rightarrow> bool"
    and wr :: "'q \<Rightarrow> bytes \<Rightarrow> nat \<times> 'q"
    and rd :: "'q \<Rightarrow> nat \<Rightarrow> bytes \<times> 'q"
    and pk :: "'q \<Rightarrow> nat \<Rightarrow> bytes"
    and cl :: "'q \<Rightarrow> 'q"
    and used :: "'q \<Rightarrow> nat"
    and room :: "'q \<Rightarrow> nat"
  assumes used_content: "ok q \<Longrightarrow> used q = length (content q)"
    and room_content: "ok q \<Longrightarrow> length (content q) + room q = cap q"
    and wr_fits: "ok q \<Longrightarrow> \<not> shut q \<Longrightarrow> length xs \<le> room q \<Longrightarrow>
          fst (wr q xs) = length xs \<and> ok (snd (wr q xs))
          \<and> content (snd (wr q xs)) = content q @ xs"
    and wr_refused: "ok q \<Longrightarrow> shut q \<or> room q < length xs \<Longrightarrow> wr q xs = (0, q)"
    and wr_frame: "cap (snd (wr q xs)) = cap q \<and> shut (snd (wr q xs)) = shut q"
    and rd_takes: "ok q \<Longrightarrow> rd q n = (take n (content q), snd (rd q n))
          \<and> ok (snd (rd q n)) \<and> content (snd (rd q n)) = drop n (content q)"
    and rd_nothing: "ok q \<Longrightarrow> take n (content q) = [] \<Longrightarrow> rd q n = ([], q)"
    and rd_frame: "cap (snd (rd q n)) = cap q \<and> shut (snd (rd q n)) = shut q"
    and pk_takes: "ok q \<Longrightarrow> pk q n = take n (content q)"
    and cl_shuts: "ok q \<Longrightarrow> ok (cl q) \<and> content (cl q) = content q \<and> cap (cl q) = cap q \<and> shut (cl q)"
begin

lemma peek_is_read: "ok q \<Longrightarrow> pk q n = fst (rd q n)"
  by (metis fst_conv pk_takes rd_takes)

text \<open>Peeking a chunk and then discarding what a sink accepted loses nothing.\<close>

lemma peek_then_discard:
  assumes "ok q" "m \<le> length (pk q n)"
  shows "take m (pk q n) @ content (snd (rd q m)) = content q"
proof -
  have "take m (pk q n) = take m (content q)"
    using assms by (auto simp: pk_takes min_def split: if_splits)
  then show ?thesis using rd_takes[OF assms(1), of m] by simp
qed

text \<open>Two writes that fit one after the other store the same bytes as one write of both.\<close>

lemma write_write:
  assumes "ok q" "\<not> shut q" "length xs + length ys \<le> room q"
  shows "content (snd (wr (snd (wr q xs)) ys)) = content q @ xs @ ys
       \<and> ok (snd (wr (snd (wr q xs)) ys))"
proof -
  let ?q = "snd (wr q xs)"
  have q: "ok ?q" "content ?q = content q @ xs" "cap ?q = cap q" "\<not> shut ?q"
    using assms wr_fits[of q xs] wr_frame[of q xs] by auto
  have "length ys \<le> room ?q"
    using q assms room_content[of q] room_content[of ?q] by simp
  with q show ?thesis using wr_fits[of ?q ys] by simp
qed

text \<open>FIFO order over any interleaving of writes and reads.\<close>

lemma run_is_fifo:
  "ok q \<Longrightarrow> fifo_run wr rd q ops = (acc, del, q') \<Longrightarrow>
     content q @ acc = del @ content q' \<and> ok q' \<and> cap q' = cap q"
proof (induction ops arbitrary: q acc del)
  case Nil
  then show ?case by simp
next
  case (Cons op ops)
  show ?case
  proof (cases op)
    case (Put xs)
    obtain n q1 where w: "wr q xs = (n, q1)" by fastforce
    obtain acc1 where r: "fifo_run wr rd q1 ops = (acc1, del, q')" "acc = take n xs @ acc1"
      using Cons.prems(2) w Put by (auto split: prod.splits)
    have "ok q1 \<and> content q1 = content q @ take n xs \<and> cap q1 = cap q"
    proof (cases "shut q \<or> room q < length xs")
      case True
      then show ?thesis using w wr_refused[of q xs] Cons.prems(1) by simp
    next
      case False
      then show ?thesis
        using w wr_fits[of q xs] wr_frame[of q xs] Cons.prems(1) by auto
    qed
    with Cons.IH[of q1 acc1 del] r show ?thesis by simp
  next
    case (Get n)
    obtain q1 where w: "rd q n = (take n (content q), q1)" "ok q1" "content q1 = drop n (content q)"
      using rd_takes[OF Cons.prems(1), of n] by metis
    obtain del1 where r: "fifo_run wr rd q1 ops = (acc, del1, q')" "del = take n (content q) @ del1"
      using Cons.prems(2) w(1) Get by (auto split: prod.splits)
    have "cap q1 = cap q" using w(1) rd_frame[of q n] by simp
    moreover have "content q = take n (content q) @ content q1" using w(3) by simp
    ultimately show ?thesis using Cons.IH[of q1 acc del1] r w by (metis append.assoc)
  qed
qed

end

section \<open>The ring implements the contract\<close>

lemma bytequeue_write_ok:
  assumes "bytequeue_ok q" "\<not> bq_closed q" "length xs \<le> cloak_bytequeue_free_space q"
  shows "fst (cloak_bytequeue_write q xs) = length xs
       \<and> bytequeue_ok (snd (cloak_bytequeue_write q xs))
       \<and> bytequeue_list (snd (cloak_bytequeue_write q xs)) = bytequeue_list q @ xs"
proof (cases "xs = []")
  case True
  then show ?thesis using assms by (simp add: cloak_bytequeue_write_def)
next
  case False
  have "ring_list (ring_put (bq_data q) (bq_cap q) ((bq_head q + bq_len q) mod bq_cap q) xs)
          (bq_head q) (bq_len q + length xs) = ring_list (bq_data q) (bq_head q) (bq_len q) @ xs"
    using assms by (intro ring_put_append) (auto simp: bytequeue_ok_def cloak_bytequeue_free_space_def)
  then show ?thesis using assms False
    by (auto simp: cloak_bytequeue_write_def Let_def bytequeue_ok_def bytequeue_list_def
        cloak_bytequeue_free_space_def)
qed

lemma bytequeue_peek_eq: "bytequeue_ok q \<Longrightarrow> cloak_bytequeue_peek q n = take n (bytequeue_list q)"
  by (auto simp: cloak_bytequeue_peek_def Let_def bytequeue_ok_def bytequeue_list_def ring_peek_eq
      ring_list_take)

lemma bytequeue_read_ok:
  assumes "bytequeue_ok q"
  shows "cloak_bytequeue_read q n = (take n (bytequeue_list q), snd (cloak_bytequeue_read q n))
       \<and> bytequeue_ok (snd (cloak_bytequeue_read q n))
       \<and> bytequeue_list (snd (cloak_bytequeue_read q n)) = drop n (bytequeue_list q)"
  using assms
  by (auto simp: cloak_bytequeue_read_def Let_def bytequeue_ok_def bytequeue_list_def ring_peek_eq
      ring_list_take ring_list_drop)

interpretation bq: byte_fifo bytequeue_ok bytequeue_list bq_cap bq_closed
  cloak_bytequeue_write cloak_bytequeue_read cloak_bytequeue_peek cloak_bytequeue_close
  cloak_bytequeue_len cloak_bytequeue_free_space
proof unfold_locales
  fix q n and xs :: bytes
  show "bytequeue_ok q \<Longrightarrow> cloak_bytequeue_len q = length (bytequeue_list q)"
    by (simp add: cloak_bytequeue_len_def bytequeue_list_def)
  show "bytequeue_ok q \<Longrightarrow> length (bytequeue_list q) + cloak_bytequeue_free_space q = bq_cap q"
    by (simp add: cloak_bytequeue_free_space_def bytequeue_list_def bytequeue_ok_def)
  show "bytequeue_ok q \<Longrightarrow> bq_closed q \<or> cloak_bytequeue_free_space q < length xs \<Longrightarrow>
      cloak_bytequeue_write q xs = (0, q)"
    by (auto simp: cloak_bytequeue_write_def cloak_bytequeue_free_space_def Let_def)
  show "bq_cap (snd (cloak_bytequeue_write q xs)) = bq_cap q
      \<and> bq_closed (snd (cloak_bytequeue_write q xs)) = bq_closed q"
    by (auto simp: cloak_bytequeue_write_def Let_def)
  show "bq_cap (snd (cloak_bytequeue_read q n)) = bq_cap q
      \<and> bq_closed (snd (cloak_bytequeue_read q n)) = bq_closed q"
    by (auto simp: cloak_bytequeue_read_def Let_def)
  show "bytequeue_ok q \<Longrightarrow> bytequeue_ok (cloak_bytequeue_close q)
      \<and> bytequeue_list (cloak_bytequeue_close q) = bytequeue_list q
      \<and> bq_cap (cloak_bytequeue_close q) = bq_cap q \<and> bq_closed (cloak_bytequeue_close q)"
    by (auto simp: cloak_bytequeue_close_def bytequeue_ok_def bytequeue_list_def)
  show "bytequeue_ok q \<Longrightarrow> take n (bytequeue_list q) = [] \<Longrightarrow> cloak_bytequeue_read q n = ([], q)"
    by (auto simp: cloak_bytequeue_read_def bytequeue_list_def ring_list_def Let_def)
qed (use bytequeue_write_ok bytequeue_read_ok bytequeue_peek_eq in auto)

lemma cloak_bytequeue_init_ok:
  assumes "malloc_sound malloc" "cloak_bytequeue_init malloc q cap = (0, q')"
  shows "bytequeue_ok q' \<and> bytequeue_list q' = [] \<and> bq_cap q' = cap \<and> \<not> bq_closed q'"
  using assms
  by (auto simp: cloak_bytequeue_init_def bytequeue_ok_def bytequeue_list_def malloc_soundD
      split: if_splits option.splits)

lemma bytequeue_eof_iff: "cloak_bytequeue_is_eof q \<longleftrightarrow> bq_closed q \<and> bytequeue_list q = []"
  by (auto simp: cloak_bytequeue_is_eof_def bytequeue_list_def ring_list_def)

section \<open>Properties\<close>

text \<open>
  C33: from any well-formed queue, over any interleaving of \<open>cloak_bytequeue_write\<close> (all or
  nothing) and \<open>cloak_bytequeue_read\<close>, the bytes already queued followed by the bytes accepted are
  exactly the bytes delivered followed by the bytes still queued; the capacity never changes and
  the queue stays well-formed.
\<close>

theorem bytequeue_fifo:
  assumes "bytequeue_ok q"
    and "fifo_run cloak_bytequeue_write cloak_bytequeue_read q ops = (accepted, delivered, q')"
  shows "bytequeue_list q @ accepted = delivered @ bytequeue_list q'
       \<and> bytequeue_ok q' \<and> bq_cap q' = bq_cap q"
  using assms by (rule bq.run_is_fifo)

definition fifo_example :: bytequeue where
  "fifo_example = \<lparr>bq_data = [9, 9, 9, 9], bq_cap = 4, bq_head = 3, bq_len = 0, bq_closed = False\<rparr>"

definition fifo_example_end :: bytequeue where
  "fifo_example_end = \<lparr>bq_data = [6, 3, 4, 5], bq_cap = 4, bq_head = 1, bq_len = 0, bq_closed = False\<rparr>"

theorem bytequeue_fifo_witness:
  "bytequeue_ok fifo_example
   \<and> fifo_run cloak_bytequeue_write cloak_bytequeue_read fifo_example
       [Put [1, 2, 3], Get 2, Put [4, 5, 6], Put [7], Get 9]
       = ([1, 2, 3, 4, 5, 6], [1, 2, 3, 4, 5, 6], fifo_example_end)
   \<and> bytequeue_list fifo_example @ [1, 2, 3, 4, 5, 6] = [1, 2, 3, 4, 5, 6] @ bytequeue_list fifo_example_end"
proof -
  have ok: "bytequeue_ok fifo_example" by (simp add: fifo_example_def bytequeue_ok_def)
  have run: "fifo_run cloak_bytequeue_write cloak_bytequeue_read fifo_example
       [Put [1, 2, 3], Get 2, Put [4, 5, 6], Put [7], Get 9]
       = ([1, 2, 3, 4, 5, 6], [1, 2, 3, 4, 5, 6], fifo_example_end)"
    by code_simp
  show ?thesis using ok run bytequeue_fifo [OF ok run] by simp
qed

end
