(* ===== verification/Msgqueue.thy ===== *)
theory Msgqueue
  imports RingBuffer
begin

text \<open>
  \<open>libcloak-mux/src/msgqueue.c\<close>: the bounded queue of whole datagrams behind an unordered stream's
  receive side. Datagrams share one ring, each preceded by a four-byte big-endian length. The
  abstraction is the list of queued datagrams; the contract is the locale \<open>datagram_queue\<close>.
\<close>

definition CLOAK_MSGQUEUE_LEN_PREFIX :: nat where "CLOAK_MSGQUEUE_LEN_PREFIX = 4"

record msgqueue =
  mq_data :: bytes
  mq_cap :: nat
  mq_head :: nat
  mq_len :: nat
  mq_count :: nat
  mq_payload_bytes :: nat
  mq_closed :: bool

text \<open>The return codes: \<open>CLOAK_MSGQUEUE_ERR_*\<close> of a write and the two non-length reads.\<close>

datatype mq_write_rc = MqWritten | MqFull | MqTooLarge | MqClosed

datatype mq_read_rc = MqEmpty | MqShortBuffer | MqRead bytes

section \<open>Operations\<close>

definition msgqueue_zero :: msgqueue where
  "msgqueue_zero = \<lparr>mq_data = [], mq_cap = 0, mq_head = 0, mq_len = 0, mq_count = 0,
     mq_payload_bytes = 0, mq_closed = False\<rparr>"

definition cloak_msgqueue_init :: "(nat \<Rightarrow> bytes option) \<Rightarrow> msgqueue \<Rightarrow> nat \<Rightarrow> int \<times> msgqueue" where
  "cloak_msgqueue_init malloc q cap =
     (if cap \<le> CLOAK_MSGQUEUE_LEN_PREFIX then (-1, q)
      else case malloc cap of
        None \<Rightarrow> (-1, msgqueue_zero)
      | Some blk \<Rightarrow> (0, msgqueue_zero\<lparr>mq_data := blk, mq_cap := cap\<rparr>))"

definition cloak_msgqueue_destroy :: "msgqueue \<Rightarrow> msgqueue" where
  "cloak_msgqueue_destroy q = msgqueue_zero"

definition msg_prefix :: "nat \<Rightarrow> bytes" where
  \<comment> \<open>\<open>prefix[0..4)\<close> from a \<open>size_t\<close> length\<close>
  "msg_prefix len = be32_store (of_nat len :: u64)"

definition cloak_msgqueue_write :: "msgqueue \<Rightarrow> bytes \<Rightarrow> mq_write_rc \<times> msgqueue" where
  "cloak_msgqueue_write q msg =
     (let len = length msg in
      if mq_closed q then (MqClosed, q)
      else if len > mq_cap q - CLOAK_MSGQUEUE_LEN_PREFIX \<or> len > 0xffffffff then (MqTooLarge, q)
      else if len + CLOAK_MSGQUEUE_LEN_PREFIX > mq_cap q - mq_len q then (MqFull, q)
      else
        let tail = (mq_head q + mq_len q) mod mq_cap q;
            d1 = ring_put (mq_data q) (mq_cap q) tail (msg_prefix len);
            d2 = (if len > 0
                  then ring_put d1 (mq_cap q) ((tail + CLOAK_MSGQUEUE_LEN_PREFIX) mod mq_cap q) msg
                  else d1)
        in (MqWritten,
            q\<lparr>mq_data := d2,
              mq_len := mq_len q + (CLOAK_MSGQUEUE_LEN_PREFIX + len),
              mq_payload_bytes := mq_payload_bytes q + len,
              mq_count := mq_count q + 1\<rparr>))"

definition cloak_msgqueue_peek_len :: "msgqueue \<Rightarrow> nat option" where
  \<comment> \<open>\<^const>\<open>None\<close> is the 0 return, \<^const>\<open>Some\<close> the 1 return with \<open>*out_len\<close>\<close>
  "cloak_msgqueue_peek_len q =
     (if mq_count q = 0 then None
      else Some (unat (be32_load (ring_peek (mq_data q) (mq_cap q) (mq_head q)
                                  CLOAK_MSGQUEUE_LEN_PREFIX) :: u64)))"

definition cloak_msgqueue_read :: "msgqueue \<Rightarrow> nat \<Rightarrow> mq_read_rc \<times> msgqueue" where
  "cloak_msgqueue_read q out_cap =
     (case cloak_msgqueue_peek_len q of
        None \<Rightarrow> (MqEmpty, q)
      | Some data_len \<Rightarrow>
          if out_cap < data_len then (MqShortBuffer, q)
          else
            (MqRead (if data_len > 0
                     then ring_peek (mq_data q) (mq_cap q)
                            ((mq_head q + CLOAK_MSGQUEUE_LEN_PREFIX) mod mq_cap q) data_len
                     else []),
             q\<lparr>mq_head := (mq_head q + CLOAK_MSGQUEUE_LEN_PREFIX + data_len) mod mq_cap q,
               mq_len := mq_len q - (CLOAK_MSGQUEUE_LEN_PREFIX + data_len),
               mq_payload_bytes := mq_payload_bytes q - data_len,
               mq_count := mq_count q - 1\<rparr>))"

definition cloak_msgqueue_count :: "msgqueue \<Rightarrow> nat" where
  "cloak_msgqueue_count q = mq_count q"

definition cloak_msgqueue_payload_bytes :: "msgqueue \<Rightarrow> nat" where
  "cloak_msgqueue_payload_bytes q = mq_payload_bytes q"

definition cloak_msgqueue_close :: "msgqueue \<Rightarrow> msgqueue" where
  "cloak_msgqueue_close q = q\<lparr>mq_closed := True\<rparr>"

definition cloak_msgqueue_is_eof :: "msgqueue \<Rightarrow> bool" where
  "cloak_msgqueue_is_eof q \<longleftrightarrow> mq_closed q \<and> mq_count q = 0"

section \<open>Representation: a run of length-prefixed records\<close>

definition encode_msg :: "bytes \<Rightarrow> bytes" where
  "encode_msg m = msg_prefix (length m) @ m"

fun decode_msgs :: "nat \<Rightarrow> bytes \<Rightarrow> bytes list" where
  "decode_msgs 0 bs = []"
| "decode_msgs (Suc n) bs =
     (let len = unat (be32_load bs :: u64); rest = drop 4 bs
      in take len rest # decode_msgs n (drop len rest))"

definition msgqueue_list :: "msgqueue \<Rightarrow> bytes list" where
  "msgqueue_list q = decode_msgs (mq_count q) (ring_list (mq_data q) (mq_head q) (mq_len q))"

definition msgs_ok :: "bytes list \<Rightarrow> bool" where
  "msgs_ok ms \<longleftrightarrow> (\<forall>m \<in> set ms. length m < 2 ^ 32)"

definition msgqueue_ok :: "msgqueue \<Rightarrow> bool" where
  "msgqueue_ok q \<longleftrightarrow> CLOAK_MSGQUEUE_LEN_PREFIX < mq_cap q \<and> length (mq_data q) = mq_cap q
     \<and> mq_head q < mq_cap q \<and> mq_len q \<le> mq_cap q
     \<and> msgs_ok (msgqueue_list q)
     \<and> ring_list (mq_data q) (mq_head q) (mq_len q) = concat (map encode_msg (msgqueue_list q))
     \<and> mq_payload_bytes q = sum_list (map length (msgqueue_list q))"

section \<open>The contract of a datagram queue\<close>

datatype dgram_op = Send bytes | Recv nat

text \<open>A run of sends and receives: datagrams accepted, datagrams delivered, the final queue.\<close>

fun dgram_run :: "('q \<Rightarrow> bytes \<Rightarrow> mq_write_rc \<times> 'q) \<Rightarrow> ('q \<Rightarrow> nat \<Rightarrow> mq_read_rc \<times> 'q) \<Rightarrow> 'q
    \<Rightarrow> dgram_op list \<Rightarrow> bytes list \<times> bytes list \<times> 'q" where
  "dgram_run wr rd q [] = ([], [], q)"
| "dgram_run wr rd q (Send m # ops) =
     (case wr q m of (rc, q') \<Rightarrow>
        case dgram_run wr rd q' ops of (acc, del, q'') \<Rightarrow>
          ((if rc = MqWritten then [m] else []) @ acc, del, q''))"
| "dgram_run wr rd q (Recv n # ops) =
     (case rd q n of (rc, q') \<Rightarrow>
        case dgram_run wr rd q' ops of (acc, del, q'') \<Rightarrow>
          (acc, (case rc of MqRead m \<Rightarrow> [m] | _ \<Rightarrow> []) @ del, q''))"

locale datagram_queue =
  fixes ok :: "'q \<Rightarrow> bool"
    and msgs :: "'q \<Rightarrow> bytes list"
    and shut :: "'q \<Rightarrow> bool"
    and wr :: "'q \<Rightarrow> bytes \<Rightarrow> mq_write_rc \<times> 'q"
    and rd :: "'q \<Rightarrow> nat \<Rightarrow> mq_read_rc \<times> 'q"
  assumes wr_done: "ok q \<Longrightarrow> wr q m = (MqWritten, q') \<Longrightarrow> ok q' \<and> msgs q' = msgs q @ [m]"
    and wr_failed: "wr q m = (rc, q') \<Longrightarrow> rc \<noteq> MqWritten \<Longrightarrow> q' = q"
    and rd_empty: "ok q \<Longrightarrow> msgs q = [] \<Longrightarrow> rd q n = (MqEmpty, q)"
    and rd_short: "ok q \<Longrightarrow> msgs q = m # ms \<Longrightarrow> n < length m \<Longrightarrow> rd q n = (MqShortBuffer, q)"
    and rd_head: "ok q \<Longrightarrow> msgs q = m # ms \<Longrightarrow> length m \<le> n \<Longrightarrow>
          fst (rd q n) = MqRead m \<and> ok (snd (rd q n)) \<and> msgs (snd (rd q n)) = ms"
begin

lemma run_keeps_boundaries:
  "ok q \<Longrightarrow> dgram_run wr rd q ops = (acc, del, q') \<Longrightarrow> msgs q @ acc = del @ msgs q' \<and> ok q'"
proof (induction ops arbitrary: q acc del)
  case Nil
  then show ?case by simp
next
  case (Cons op ops)
  show ?case
  proof (cases op)
    case (Send m)
    obtain rc q1 where w: "wr q m = (rc, q1)" by fastforce
    obtain acc1 where r: "dgram_run wr rd q1 ops = (acc1, del, q')"
        "acc = (if rc = MqWritten then [m] else []) @ acc1"
      using Cons.prems(2) w Send by (auto split: prod.splits)
    have "ok q1 \<and> msgs q1 = msgs q @ (if rc = MqWritten then [m] else [])"
      using w wr_done[of q m q1] wr_failed[of q m rc q1] Cons.prems(1) by auto
    then show ?thesis using Cons.IH[of q1 acc1 del] r by simp
  next
    case (Recv n)
    obtain rc q1 where w: "rd q n = (rc, q1)" by fastforce
    obtain del1 where r: "dgram_run wr rd q1 ops = (acc, del1, q')"
        "del = (case rc of MqRead m \<Rightarrow> [m] | _ \<Rightarrow> []) @ del1"
      using Cons.prems(2) w Recv by (auto split: prod.splits)
    have "ok q1 \<and> msgs q = (case rc of MqRead m \<Rightarrow> [m] | _ \<Rightarrow> []) @ msgs q1"
    proof (cases "msgs q")
      case Nil
      then show ?thesis using rd_empty[of q n] w Cons.prems(1) by simp
    next
      case (Cons m ms)
      then show ?thesis
        using rd_short[of q m ms n] rd_head[of q m ms n] w Cons.prems(1) \<open>ok q\<close>
        by (cases "n < length m") auto
    qed
    then show ?thesis using Cons.IH[of q1 acc del1] r by auto
  qed
qed

end

section \<open>The ring implements the contract\<close>

lemma length_msg_prefix [simp]: "length (msg_prefix n) = 4"
  by (simp add: msg_prefix_def)

lemma load_msg_prefix [simp]: "n < 2 ^ 32 \<Longrightarrow> unat (be32_load (msg_prefix n) :: u64) = n"
  by (simp add: msg_prefix_def be32_load_store unat_take_bit_of_nat)

lemma length_encode_msg [simp]: "length (encode_msg m) = 4 + length m"
  by (simp add: encode_msg_def)

lemma length_decode_msgs [simp]: "length (decode_msgs n bs) = n"
  by (induct n arbitrary: bs) (simp_all add: Let_def)

lemma decode_encode_msgs:
  "msgs_ok ms \<Longrightarrow> decode_msgs (length ms) (concat (map encode_msg ms)) = ms"
  by (induct ms) (simp_all add: msgs_ok_def encode_msg_def)

lemma msgqueue_list_eqI:
  assumes "ring_list (mq_data q) (mq_head q) (mq_len q) = concat (map encode_msg ms)"
    and "msgs_ok ms" "mq_count q = length ms"
  shows "msgqueue_list q = ms"
  using assms decode_encode_msgs[of ms] by (simp add: msgqueue_list_def)

lemma mq_count_eq: "mq_count q = length (msgqueue_list q)"
  by (simp add: msgqueue_list_def)

lemma msgqueue_okI:
  assumes "4 < mq_cap q" "length (mq_data q) = mq_cap q" "mq_head q < mq_cap q" "mq_len q \<le> mq_cap q"
    and "ring_list (mq_data q) (mq_head q) (mq_len q) = concat (map encode_msg ms)"
    and "msgs_ok ms" "mq_count q = length ms" "mq_payload_bytes q = sum_list (map length ms)"
  shows "msgqueue_ok q \<and> msgqueue_list q = ms"
  using assms msgqueue_list_eqI[of q ms] by (simp add: msgqueue_ok_def CLOAK_MSGQUEUE_LEN_PREFIX_def)

text \<open>Writing the prefix and then the payload stores one encoded record at the tail.\<close>

lemma ring_put_record:
  assumes "length data = cap" "0 < cap" "head < cap" "len + (4 + length m) \<le> cap"
  defines "tail \<equiv> (head + len) mod cap"
  defines "d1 \<equiv> ring_put data cap tail (msg_prefix (length m))"
  defines "d2 \<equiv> (if length m > 0 then ring_put d1 cap ((tail + 4) mod cap) m else d1)"
  shows "ring_list d2 head (len + (4 + length m)) = ring_list data head len @ encode_msg m"
    and "length d2 = cap"
proof -
  have t: "tail < cap" using assms by simp
  have d1: "length d1 = cap" "ring_list d1 head (len + 4) = ring_list data head len @ msg_prefix (length m)"
    using assms t ring_put_append[of data cap head len "msg_prefix (length m)"] by auto
  have t2: "(tail + 4) mod cap = (head + (len + 4)) mod cap"
    by (simp add: tail_def mod_simps add.assoc)
  have "ring_list (ring_put d1 cap ((head + (len + 4)) mod cap) m) head (len + 4 + length m)
      = ring_list d1 head (len + 4) @ m"
    using assms d1 by (intro ring_put_append) auto
  with d1 t2 show "ring_list d2 head (len + (4 + length m)) = ring_list data head len @ encode_msg m"
    by (auto simp: d2_def encode_msg_def add.assoc)
  show "length d2 = cap" using d1 assms by (auto simp: d2_def)
qed

lemma msgqueue_write_ok:
  assumes ok: "msgqueue_ok q" and w: "cloak_msgqueue_write q m = (MqWritten, q')"
  shows "msgqueue_ok q' \<and> msgqueue_list q' = msgqueue_list q @ [m]"
proof -
  let ?t = "(mq_head q + mq_len q) mod mq_cap q"
  let ?d1 = "ring_put (mq_data q) (mq_cap q) ?t (msg_prefix (length m))"
  let ?d2 = "if length m > 0 then ring_put ?d1 (mq_cap q) ((?t + 4) mod mq_cap q) m else ?d1"
  have q': "q' = q\<lparr>mq_data := ?d2, mq_len := mq_len q + (4 + length m),
        mq_payload_bytes := mq_payload_bytes q + length m, mq_count := mq_count q + 1\<rparr>"
    and len: "length m < 2 ^ 32" "length m + 4 \<le> mq_cap q - mq_len q"
    using w by (auto simp: cloak_msgqueue_write_def Let_def CLOAK_MSGQUEUE_LEN_PREFIX_def split: if_splits)
  note okd = ok[unfolded msgqueue_ok_def CLOAK_MSGQUEUE_LEN_PREFIX_def]
  have b: "mq_len q + (4 + length m) \<le> mq_cap q" using len okd by linarith
  have r: "ring_list ?d2 (mq_head q) (mq_len q + (4 + length m))
        = ring_list (mq_data q) (mq_head q) (mq_len q) @ encode_msg m" "length ?d2 = mq_cap q"
    using okd b by (intro ring_put_record; simp)+
  show ?thesis
  proof (rule msgqueue_okI)
    show "ring_list (mq_data q') (mq_head q') (mq_len q')
        = concat (map encode_msg (msgqueue_list q @ [m]))"
      using r(1) okd by (simp add: q')
    show "length (mq_data q') = mq_cap q'" using r(2) by (simp add: q')
  qed (use okd b len mq_count_eq[of q] in \<open>auto simp: q' msgs_ok_def\<close>)
qed

lemma msgqueue_peek_len_eq:
  assumes "msgqueue_ok q"
  shows "cloak_msgqueue_peek_len q
       = (case msgqueue_list q of [] \<Rightarrow> None | m # ms \<Rightarrow> Some (length m))"
proof (cases "msgqueue_list q")
  case Nil
  then show ?thesis by (simp add: cloak_msgqueue_peek_len_def mq_count_eq)
next
  case (Cons m ms)
  note okd = assms[unfolded msgqueue_ok_def CLOAK_MSGQUEUE_LEN_PREFIX_def]
  have all: "ring_list (mq_data q) (mq_head q) (mq_len q)
      = msg_prefix (length m) @ m @ concat (map encode_msg ms)"
    using okd Cons by (simp add: encode_msg_def)
  have "4 \<le> mq_len q" using arg_cong[OF all, of length] by simp
  then have "ring_list (mq_data q) (mq_head q) 4 = msg_prefix (length m)"
    using ring_list_take[of 4 "mq_len q" "mq_data q" "mq_head q"] all by simp
  then show ?thesis using Cons okd
    by (simp add: cloak_msgqueue_peek_len_def mq_count_eq CLOAK_MSGQUEUE_LEN_PREFIX_def ring_peek_eq
        msgs_ok_def)
qed

lemma msgqueue_read_ok:
  assumes ok: "msgqueue_ok q" and hd: "msgqueue_list q = m # ms" and n: "length m \<le> n"
  shows "fst (cloak_msgqueue_read q n) = MqRead m \<and> msgqueue_ok (snd (cloak_msgqueue_read q n))
       \<and> msgqueue_list (snd (cloak_msgqueue_read q n)) = ms"
proof -
  note okd = ok[unfolded msgqueue_ok_def CLOAK_MSGQUEUE_LEN_PREFIX_def]
  let ?h = "mq_head q" and ?d = "mq_data q" and ?c = "mq_cap q"
  have all: "ring_list ?d ?h (mq_len q) = msg_prefix (length m) @ m @ concat (map encode_msg ms)"
    using okd hd by (simp add: encode_msg_def)
  have len: "4 + length m \<le> mq_len q" using arg_cong[OF all, of length] by simp
  have rest: "ring_list ?d ((?h + (4 + length m)) mod ?c) (mq_len q - (4 + length m))
      = concat (map encode_msg ms)"
    using ring_list_drop[OF len, of ?d ?h] all okd by simp
  have "ring_list ?d ?h (4 + length m) = msg_prefix (length m) @ m"
    using ring_list_take[OF len, of ?d ?h] all by simp
  then have "ring_list ?d ((?h + 4) mod ?c) (length m) = m"
    using okd ring_list_drop[of 4 "4 + length m" ?d ?h] by simp
  then have out: "(if length m > 0 then ring_peek ?d ?c ((?h + 4) mod ?c) (length m) else []) = m"
    using okd len by (auto simp: ring_peek_eq)
  let ?q' = "q\<lparr>mq_head := (?h + 4 + length m) mod ?c, mq_len := mq_len q - (4 + length m),
      mq_payload_bytes := mq_payload_bytes q - length m, mq_count := mq_count q - 1\<rparr>"
  have rd: "cloak_msgqueue_read q n = (MqRead m, ?q')"
    using hd n out msgqueue_peek_len_eq[OF ok]
    by (auto simp: cloak_msgqueue_read_def CLOAK_MSGQUEUE_LEN_PREFIX_def add.assoc)
  have "msgqueue_ok ?q' \<and> msgqueue_list ?q' = ms"
    by (rule msgqueue_okI) (use okd rest hd mq_count_eq[of q] in \<open>auto simp: msgs_ok_def add.assoc\<close>)
  then show ?thesis using rd by simp
qed

interpretation mq: datagram_queue msgqueue_ok msgqueue_list mq_closed
  cloak_msgqueue_write cloak_msgqueue_read
proof unfold_locales
  fix q q' n m ms rc
  show "msgqueue_ok q \<Longrightarrow> cloak_msgqueue_write q m = (MqWritten, q') \<Longrightarrow>
      msgqueue_ok q' \<and> msgqueue_list q' = msgqueue_list q @ [m]"
    by (rule msgqueue_write_ok)
  show "cloak_msgqueue_write q m = (rc, q') \<Longrightarrow> rc \<noteq> MqWritten \<Longrightarrow> q' = q"
    by (auto simp: cloak_msgqueue_write_def Let_def split: if_splits)
  show "msgqueue_ok q \<Longrightarrow> msgqueue_list q = [] \<Longrightarrow> cloak_msgqueue_read q n = (MqEmpty, q)"
    by (simp add: cloak_msgqueue_read_def msgqueue_peek_len_eq)
  show "msgqueue_ok q \<Longrightarrow> msgqueue_list q = m # ms \<Longrightarrow> n < length m \<Longrightarrow>
      cloak_msgqueue_read q n = (MqShortBuffer, q)"
    by (simp add: cloak_msgqueue_read_def msgqueue_peek_len_eq)
  show "msgqueue_ok q \<Longrightarrow> msgqueue_list q = m # ms \<Longrightarrow> length m \<le> n \<Longrightarrow>
      fst (cloak_msgqueue_read q n) = MqRead m \<and> msgqueue_ok (snd (cloak_msgqueue_read q n))
      \<and> msgqueue_list (snd (cloak_msgqueue_read q n)) = ms"
    by (rule msgqueue_read_ok)
qed

lemma cloak_msgqueue_init_ok:
  assumes "malloc_sound malloc" "cloak_msgqueue_init malloc q cap = (0, q')"
  shows "msgqueue_ok q' \<and> msgqueue_list q' = [] \<and> mq_cap q' = cap \<and> \<not> mq_closed q'"
  using assms
  by (auto simp: cloak_msgqueue_init_def msgqueue_ok_def msgqueue_list_def malloc_soundD
      msgqueue_zero_def msgs_ok_def split: if_splits option.splits)

lemma msgqueue_accounting:
  "msgqueue_ok q \<Longrightarrow> cloak_msgqueue_count q = length (msgqueue_list q)
     \<and> cloak_msgqueue_payload_bytes q = sum_list (map length (msgqueue_list q))
     \<and> (cloak_msgqueue_is_eof q \<longleftrightarrow> mq_closed q \<and> msgqueue_list q = [])"
  by (auto simp: cloak_msgqueue_count_def cloak_msgqueue_payload_bytes_def cloak_msgqueue_is_eof_def
      mq_count_eq msgqueue_ok_def)

section \<open>Properties\<close>

text \<open>
  C32: over any interleaving of \<open>cloak_msgqueue_write\<close> and \<open>cloak_msgqueue_read\<close> with arbitrary buffer
  sizes, datagrams come out whole and in the order they were accepted: what was queued followed by
  what was accepted is what was delivered followed by what is still queued. In particular a read
  with too small a buffer consumes nothing.
\<close>

theorem msgqueue_boundaries:
  assumes "msgqueue_ok q"
    and "dgram_run cloak_msgqueue_write cloak_msgqueue_read q ops = (accepted, delivered, q')"
  shows "msgqueue_list q @ accepted = delivered @ msgqueue_list q' \<and> msgqueue_ok q'"
  using assms by (rule mq.run_keeps_boundaries)

definition dgram_example :: msgqueue where
  "dgram_example = msgqueue_zero\<lparr>mq_data := [0, 0, 0, 0, 0, 0, 0, 0, 0, 0, 0, 0], mq_cap := 12, mq_head := 9\<rparr>"

definition dgram_example_end :: msgqueue where
  "dgram_example_end = msgqueue_zero\<lparr>mq_data := [2, 7, 8, 0, 0, 0, 1, 9, 0, 0, 0, 0], mq_cap := 12,
     mq_head := 8\<rparr>"

lemmas msgqueue_eval = dgram_example_def dgram_example_end_def msgqueue_zero_def
  cloak_msgqueue_write_def cloak_msgqueue_read_def cloak_msgqueue_peek_len_def
  CLOAK_MSGQUEUE_LEN_PREFIX_def Let_def ring_put_def ring_peek_def blit_def msg_prefix_def
  be32_store_def be32_load_def

theorem msgqueue_boundaries_witness:
  "msgqueue_ok dgram_example
   \<and> fst (dgram_run cloak_msgqueue_write cloak_msgqueue_read dgram_example
       [Send [1, 2, 3, 4, 5, 6, 7, 8, 9], Send [7, 8], Send [9], Send [4, 4], Recv 1, Recv 2, Recv 5, Recv 5])
       = [[7, 8], [9]]
   \<and> fst (snd (dgram_run cloak_msgqueue_write cloak_msgqueue_read dgram_example
       [Send [1, 2, 3, 4, 5, 6, 7, 8, 9], Send [7, 8], Send [9], Send [4, 4], Recv 1, Recv 2, Recv 5, Recv 5]))
       = [[7, 8], [9]]
   \<and> msgqueue_list dgram_example @ [[7, 8], [9]] = [[7, 8], [9]] @ msgqueue_list dgram_example_end"
proof -
  have ok: "msgqueue_ok dgram_example"
    by (simp add: dgram_example_def msgqueue_zero_def msgqueue_ok_def msgqueue_list_def msgs_ok_def
        CLOAK_MSGQUEUE_LEN_PREFIX_def)
  have run: "dgram_run cloak_msgqueue_write cloak_msgqueue_read dgram_example
       [Send [1, 2, 3, 4, 5, 6, 7, 8, 9], Send [7, 8], Send [9], Send [4, 4], Recv 1, Recv 2, Recv 5, Recv 5]
     = ([[7, 8], [9]], [[7, 8], [9]], dgram_example_end)"
    by (simp add: msgqueue_eval)
  show ?thesis using ok run msgqueue_boundaries [OF ok run] by simp
qed

text \<open>The abstract queue: a capacity, a closed flag and the datagrams, each costing its prefix.\<close>

definition dgram_send_spec :: "nat \<Rightarrow> bool \<Rightarrow> bytes list \<Rightarrow> bytes \<Rightarrow> mq_write_rc \<times> bytes list" where
  "dgram_send_spec cap shut ms m =
     (if shut then (MqClosed, ms)
      else if cap < 4 + length m \<or> 2 ^ 32 \<le> length m then (MqTooLarge, ms)
      else if cap < sum_list (map (\<lambda>x. 4 + length x) ms) + (4 + length m) then (MqFull, ms)
      else (MqWritten, ms @ [m]))"

lemma mq_len_eq: "msgqueue_ok q \<Longrightarrow> mq_len q = sum_list (map (\<lambda>x. 4 + length x) (msgqueue_list q))"
proof -
  assume "msgqueue_ok q"
  then have "length (ring_list (mq_data q) (mq_head q) (mq_len q))
      = length (concat (map encode_msg (msgqueue_list q)))"
    by (simp add: msgqueue_ok_def)
  then show ?thesis by (simp add: length_concat o_def)
qed

text \<open>
  \<open>cloak_msgqueue_write\<close> refines the abstract bounded queue on every branch: closed, a datagram
  that can never fit (longer than the whole capacity allows, or than the prefix can express), one
  that does not fit now, and success; a refusal leaves the queued datagrams as they were.
\<close>

theorem msgqueue_write_refines:
  assumes "msgqueue_ok q"
  shows "(case cloak_msgqueue_write q m of (rc, q') \<Rightarrow> (rc, msgqueue_list q'))
       = dgram_send_spec (mq_cap q) (mq_closed q) (msgqueue_list q) m"
proof -
  obtain rc q' where w: "cloak_msgqueue_write q m = (rc, q')" by fastforce
  have "rc = fst (dgram_send_spec (mq_cap q) (mq_closed q) (msgqueue_list q) m)"
    using w assms mq_len_eq[OF assms]
    by (auto simp: cloak_msgqueue_write_def dgram_send_spec_def Let_def msgqueue_ok_def
        CLOAK_MSGQUEUE_LEN_PREFIX_def split: if_splits)
  moreover have "msgqueue_list q' = (if rc = MqWritten then msgqueue_list q @ [m] else msgqueue_list q)"
    using mq.wr_done[OF assms, of m q'] mq.wr_failed[of q m rc q'] w by auto
  ultimately show ?thesis using w by (auto simp: dgram_send_spec_def)
qed

theorem msgqueue_write_refines_witness:
  "msgqueue_ok dgram_example
   \<and> (case cloak_msgqueue_write dgram_example [1, 2] of (rc, q') \<Rightarrow> (rc, msgqueue_list q')) = (MqWritten, [[1, 2]])
   \<and> dgram_send_spec (mq_cap dgram_example) (mq_closed dgram_example) (msgqueue_list dgram_example) (replicate 9 0)
       = (MqTooLarge, [])"
proof -
  have ok: "msgqueue_ok dgram_example"
    by (simp add: dgram_example_def msgqueue_zero_def msgqueue_ok_def msgqueue_list_def msgs_ok_def
        CLOAK_MSGQUEUE_LEN_PREFIX_def)
  have "dgram_send_spec (mq_cap dgram_example) (mq_closed dgram_example) (msgqueue_list dgram_example) [1, 2]
      = (MqWritten, [[1, 2]])"
    by (simp add: dgram_example_def msgqueue_zero_def msgqueue_list_def dgram_send_spec_def)
  then show ?thesis using ok msgqueue_write_refines [OF ok, of "[1, 2]"]
    by (simp add: dgram_example_def msgqueue_zero_def msgqueue_list_def dgram_send_spec_def)
qed

end
