(* ===== verification/Base64.thy ===== *)
theory Base64
  imports CloakPrelude
begin

text \<open>
  \<open>libcloak-common/src/base64.c\<close>: the standard and the URL-safe base64 encoders and decoders that the
  configuration files and the admin API use. The two alphabets share one quantum codec in the
  sources by repetition; here the shared steps are written once over an alphabet and a vf
  function, the interface between them is the locale \<open>b64_codec\<close>, and it is interpreted for both
  alphabets. A C string argument is the characters before its NUL; an encoder's result is the
  string it writes before the NUL; NULL-pointer arguments have no counterpart.
\<close>

definition B64_COMMON62 :: string where
  "B64_COMMON62 = ''ABCDEFGHIJKLMNOPQRSTUVWXYZabcdefghijklmnopqrstuvwxyz0123456789''"

definition b64_alphabet :: string where
  "b64_alphabet = B64_COMMON62 @ ''+/''"

definition b64url_alphabet :: string where
  "b64url_alphabet = B64_COMMON62 @ ''-_''"

definition b64_common62_value :: "char \<Rightarrow> int" where
  "b64_common62_value ch =
     (let c = of_char ch in
      if c \<ge> of_char (CHR ''A'') \<and> c \<le> of_char (CHR ''Z'') then c - of_char (CHR ''A'')
      else if c \<ge> of_char (CHR ''a'') \<and> c \<le> of_char (CHR ''z'') then c - of_char (CHR ''a'') + 26
      else if c \<ge> of_char (CHR ''0'') \<and> c \<le> of_char (CHR ''9'') then c - of_char (CHR ''0'') + 52
      else -1)"

definition b64_value :: "char \<Rightarrow> int" where
  "b64_value c =
     (let v = b64_common62_value c in
      if v \<ge> 0 then v else if c = CHR ''+'' then 62 else if c = CHR ''/'' then 63 else -1)"

definition b64url_value :: "char \<Rightarrow> int" where
  "b64url_value c =
     (let v = b64_common62_value c in
      if v \<ge> 0 then v else if c = CHR ''-'' then 62 else if c = CHR ''_'' then 63 else -1)"

section \<open>Encoding\<close>

definition cloak_base64_encoded_size :: "nat \<Rightarrow> nat" where
  "cloak_base64_encoded_size in_len = ((in_len + 2) div 3) * 4 + 1"

definition b64_sextet :: "string \<Rightarrow> u32 \<Rightarrow> nat \<Rightarrow> char" where
  \<comment> \<open>\<open>alphabet[(v >> k) & 0x3f]\<close>\<close>
  "b64_sextet alphabet v k = alphabet ! unat (drop_bit k v AND 0x3f)"

fun b64_encode_loop :: "string \<Rightarrow> bytes \<Rightarrow> string" where
  "b64_encode_loop alphabet (a # b # c # rest) =
     (let v = push_bit 16 (ucast a) OR push_bit 8 (ucast b) OR ucast c in
      b64_sextet alphabet v 18 # b64_sextet alphabet v 12 # b64_sextet alphabet v 6
      # b64_sextet alphabet v 0 # b64_encode_loop alphabet rest)"
| "b64_encode_loop alphabet [a] =
     (let v = push_bit 16 (ucast a) in
      [b64_sextet alphabet v 18, b64_sextet alphabet v 12, CHR ''='', CHR ''=''])"
| "b64_encode_loop alphabet [a, b] =
     (let v = push_bit 16 (ucast a) OR push_bit 8 (ucast b) in
      [b64_sextet alphabet v 18, b64_sextet alphabet v 12, b64_sextet alphabet v 6, CHR ''=''])"
| "b64_encode_loop alphabet [] = []"

definition cloak_base64_encode :: "bytes \<Rightarrow> nat \<Rightarrow> string option" where
  "cloak_base64_encode inp out_cap =
     (if out_cap < cloak_base64_encoded_size (length inp) then None
      else Some (b64_encode_loop b64_alphabet inp))"

definition cloak_base64url_encode :: "bytes \<Rightarrow> nat \<Rightarrow> string option" where
  "cloak_base64url_encode inp out_cap =
     (if out_cap < cloak_base64_encoded_size (length inp) then None
      else Some (b64_encode_loop b64url_alphabet inp))"

section \<open>Decoding\<close>

text \<open>
  The inner loop over the four characters of a quantum: \<open>lst\<close> says whether padding is allowed at
  all (the last quantum of a padded input), \<open>c3\<close> is the quantum's fourth character, \<open>j\<close> the
  position and \<open>pad\<close> the number of \<open>=\<close> seen. The result is the four values and the pad count.
\<close>

fun b64_vals :: "(char \<Rightarrow> int) \<Rightarrow> bool \<Rightarrow> char \<Rightarrow> nat \<Rightarrow> string \<Rightarrow> nat \<Rightarrow> (int list \<times> nat) option" where
  "b64_vals vf lst c3 j [] pad = Some ([], pad)"
| "b64_vals vf lst c3 j (c # cs) pad =
     (if c = CHR ''='' then
        if \<not> lst then None
        else if j < 2 then None
        else if j = 2 \<and> c3 \<noteq> CHR ''='' then None
        else map_option (\<lambda>(vs, p). (0 # vs, p)) (b64_vals vf lst c3 (Suc j) cs (Suc pad))
      else if pad > 0 then None
      else if vf c < 0 then None
      else map_option (\<lambda>(vs, p). (vf c # vs, p)) (b64_vals vf lst c3 (Suc j) cs pad))"

definition b64_join :: "int list \<Rightarrow> u32" where
  "b64_join vals = push_bit 18 (of_int (vals ! 0)) OR push_bit 12 (of_int (vals ! 1))
     OR push_bit 6 (of_int (vals ! 2)) OR of_int (vals ! 3)"

definition b64_octets :: "u32 \<Rightarrow> nat \<Rightarrow> bytes" where
  \<comment> \<open>the first \<open>n\<close> of the three bytes of a 24-bit vf\<close>
  "b64_octets v n = take n [ucast (drop_bit 16 v AND 0xff), ucast (drop_bit 8 v AND 0xff), ucast (v AND 0xff)]"

fun b64_decode_loop :: "(char \<Rightarrow> int) \<Rightarrow> bool \<Rightarrow> string \<Rightarrow> nat \<Rightarrow> nat \<Rightarrow> bytes option" where
  "b64_decode_loop vf padded (c0 # c1 # c2 # c3 # rest) out_cap produced =
     (case b64_vals vf (padded \<and> rest = []) c3 0 [c0, c1, c2, c3] 0 of
        None \<Rightarrow> None
      | Some (vals, pad) \<Rightarrow>
          let n = 3 - pad in
          if n > out_cap - produced then None
          else map_option (\<lambda>out. b64_octets (b64_join vals) n @ out)
                 (b64_decode_loop vf padded rest out_cap (produced + n)))"
| "b64_decode_loop vf padded _ out_cap produced = Some []"

definition cloak_base64_decode :: "string \<Rightarrow> nat \<Rightarrow> bytes option" where
  "cloak_base64_decode inp out_cap =
     (if length inp mod 4 \<noteq> 0 then None else b64_decode_loop b64_value True inp out_cap 0)"

text \<open>The unpadded final group of two or three characters.\<close>

definition b64url_tail :: "string \<Rightarrow> nat \<Rightarrow> nat \<Rightarrow> bytes option" where
  "b64url_tail cs out_cap produced =
     (let vs = map b64url_value cs; n = length cs - 1 in
      if \<exists>v \<in> set vs. v < 0 then None
      else if n > out_cap - produced then None
      else Some (b64_octets (b64_join (take 4 (vs @ [0, 0, 0, 0]))) n))"

definition cloak_base64url_decode :: "string \<Rightarrow> nat \<Rightarrow> bytes option" where
  "cloak_base64url_decode inp out_cap =
     (let r = length inp mod 4; full_len = length inp - r in
      if r = 1 then None
      else case b64_decode_loop b64url_value (r = 0) (take full_len inp) out_cap 0 of
        None \<Rightarrow> None
      | Some out \<Rightarrow>
          if r \<noteq> 0
          then map_option (\<lambda>tl. out @ tl) (b64url_tail (drop full_len inp) out_cap (length out))
          else Some out)"

section \<open>The quantum codec over an alphabet\<close>

lemma b64_octets_bits:
  fixes a b c :: byte
  defines "v \<equiv> push_bit 16 (ucast a) OR push_bit 8 (ucast b) OR ucast c :: u32"
  shows "ucast (drop_bit 16 v AND 0xff) = a" "ucast (drop_bit 8 v AND 0xff) = b" "ucast (v AND 0xff) = c"
proof -
  have m: "(0xff :: u32) = mask 8" by (simp add: mask_eq_exp_minus_1)
  show "ucast (drop_bit 16 v AND 0xff) = a" "ucast (drop_bit 8 v AND 0xff) = b" "ucast (v AND 0xff) = c"
    unfolding v_def m
    by (rule bit_word_eqI, auto simp: bit_simps dest: bit_imp_le_length)+
qed

lemma b64_sextets_join:
  assumes "drop_bit 24 (v :: u32) = 0"
  shows "push_bit 18 (drop_bit 18 v AND 0x3f) OR push_bit 12 (drop_bit 12 v AND 0x3f)
     OR push_bit 6 (drop_bit 6 v AND 0x3f) OR (v AND 0x3f) = v"
proof (rule bit_word_eqI)
  have m: "(0x3f :: u32) = mask 6" by (simp add: mask_eq_exp_minus_1)
  fix n assume "n < LENGTH(32)"
  have hi: "n < 24" if "bit v n"
  proof (rule ccontr)
    assume "\<not> n < 24"
    with that have "bit (drop_bit 24 v) (n - 24)" by (simp add: bit_drop_bit_eq)
    with assms show False by simp
  qed
  consider "n < 6" | "6 \<le> n" "n < 12" | "12 \<le> n" "n < 18" | "18 \<le> n" "n < 24" | "24 \<le> n"
    by linarith
  then show "bit (push_bit 18 (drop_bit 18 v AND 0x3f) OR push_bit 12 (drop_bit 12 v AND 0x3f)
      OR push_bit 6 (drop_bit 6 v AND 0x3f) OR (v AND 0x3f)) n = bit v n"
    using hi \<open>n < LENGTH(32)\<close> unfolding m by cases (auto simp: bit_simps)
qed

definition b64_word :: "byte \<Rightarrow> byte \<Rightarrow> byte \<Rightarrow> u32" where
  "b64_word a b c = push_bit 16 (ucast a) OR push_bit 8 (ucast b) OR ucast c"

lemma b64_word_24: "drop_bit 24 (b64_word a b c) = 0"
  unfolding b64_word_def
  by (rule bit_word_eqI) (auto simp: bit_simps dest: bit_imp_le_length)

lemma b64_word_sextets_zero:
  "drop_bit 6 (b64_word a 0 0) AND 0x3f = 0" "b64_word a b 0 AND 0x3f = 0"
proof -
  have m: "(0x3f :: u32) = mask 6" by (simp add: mask_eq_exp_minus_1)
  show "drop_bit 6 (b64_word a 0 0) AND 0x3f = 0" "b64_word a b 0 AND 0x3f = 0"
    unfolding b64_word_def m by (rule bit_word_eqI, auto simp: bit_simps)+
qed

lemma b64_octets_word:
  "b64_octets (b64_word a b c) n = take n [a, b, c]"
  using b64_octets_bits[of a b c] by (simp add: b64_octets_def b64_word_def)

lemma b64_encode_loop_word:
  "b64_encode_loop al (a # b # c # rest) =
     b64_sextet al (b64_word a b c) 18 # b64_sextet al (b64_word a b c) 12
     # b64_sextet al (b64_word a b c) 6 # b64_sextet al (b64_word a b c) 0 # b64_encode_loop al rest"
  "b64_encode_loop al [a] =
     [b64_sextet al (b64_word a 0 0) 18, b64_sextet al (b64_word a 0 0) 12, CHR ''='', CHR ''='']"
  "b64_encode_loop al [a, b] =
     [b64_sextet al (b64_word a b 0) 18, b64_sextet al (b64_word a b 0) 12,
      b64_sextet al (b64_word a b 0) 6, CHR ''='']"
  by (simp_all add: b64_word_def Let_def)

lemma list_induct_by3 [case_names nil one two step]:
  assumes "P []" "\<And>a. P [a]" "\<And>a b. P [a, b]" "\<And>a b c xs. P xs \<Longrightarrow> P (a # b # c # xs)"
  shows "P xs"
proof (induction xs rule: length_induct)
  case (1 xs)
  consider "xs = []" | a where "xs = [a]" | a b where "xs = [a, b]" | a b c ys where "xs = a # b # c # ys"
    by (metis list.exhaust)
  then show ?case using 1 assms by cases auto
qed

text \<open>Every character a decoder accepts has a vf or is the padding character.\<close>

lemma b64_vals_chars:
  "b64_vals vf lst c3 j cs pad = Some r \<Longrightarrow> c \<in> set cs \<Longrightarrow> c = CHR ''='' \<or> 0 \<le> vf c"
  by (induction cs arbitrary: j pad r) (auto split: if_splits)

lemma b64_decode_loop_step:
  assumes "b64_decode_loop vf pd (c0 # c1 # c2 # c3 # rest) out_cap produced = Some out"
  obtains vals pad out' where
    "b64_vals vf (pd \<and> rest = []) c3 0 [c0, c1, c2, c3] 0 = Some (vals, pad)"
    "3 - pad \<le> out_cap - produced"
    "b64_decode_loop vf pd rest out_cap (produced + (3 - pad)) = Some out'"
    "out = b64_octets (b64_join vals) (3 - pad) @ out'"
  using assms by (auto simp: Let_def not_less split: option.splits if_splits simp del: b64_vals.simps)

lemma length_4_Suc:
  "length cs = 4 * Suc n \<Longrightarrow> \<exists>c0 c1 c2 c3 rest. cs = c0 # c1 # c2 # c3 # rest \<and> length rest = 4 * n"
  by (auto simp: length_Suc_conv eval_nat_numeral)

lemma b64_decode_chars:
  "b64_decode_loop vf pd cs out_cap produced = Some out \<Longrightarrow> length cs = 4 * n \<Longrightarrow>
     c \<in> set cs \<Longrightarrow> c = CHR ''='' \<or> 0 \<le> vf c"
proof (induction n arbitrary: cs produced out)
  case 0
  then show ?case by simp
next
  case (Suc n)
  obtain c0 c1 c2 c3 rest where cs: "cs = c0 # c1 # c2 # c3 # rest" "length rest = 4 * n"
    using length_4_Suc[OF Suc.prems(2)] by blast
  obtain vals pad out' where
    v: "b64_vals vf (pd \<and> rest = []) c3 0 [c0, c1, c2, c3] 0 = Some (vals, pad)"
    and r: "b64_decode_loop vf pd rest out_cap (produced + (3 - pad)) = Some out'"
    using Suc.prems(1) unfolding cs by (rule b64_decode_loop_step)
  have "c \<in> set [c0, c1, c2, c3] \<or> c \<in> set rest" using Suc.prems(3) cs by simp
  then show ?case using b64_vals_chars[OF v] Suc.IH[OF r cs(2)] by blast
qed

lemma length_b64_octets: "length (b64_octets v n) = min n 3"
  by (simp add: b64_octets_def)

lemma b64_decode_bound:
  "b64_decode_loop vf pd cs out_cap produced = Some out \<Longrightarrow> produced \<le> out_cap \<Longrightarrow>
     produced + length out \<le> out_cap"
proof (induction vf pd cs out_cap produced arbitrary: out rule: b64_decode_loop.induct)
  case (1 vf pd c0 c1 c2 c3 rest out_cap produced)
  obtain vals pad out' where
    v: "b64_vals vf (pd \<and> rest = []) c3 0 [c0, c1, c2, c3] 0 = Some (vals, pad)"
    and room: "3 - pad \<le> out_cap - produced"
    and r: "b64_decode_loop vf pd rest out_cap (produced + (3 - pad)) = Some out'"
    and out: "out = b64_octets (b64_join vals) (3 - pad) @ out'"
    using "1.prems"(1) by (rule b64_decode_loop_step)
  have "produced + (3 - pad) \<le> out_cap" using room "1.prems"(2) by linarith
  then have "produced + (3 - pad) + length out' \<le> out_cap"
    using "1.IH"[OF v refl refl] room r by simp
  then show ?case using out by (simp add: length_b64_octets)
qed simp_all

locale b64_codec =
  fixes alphabet :: string and val :: "char \<Rightarrow> int"
  assumes val_nth: "k < 64 \<Longrightarrow> val (alphabet ! k) = int k"
    and val_pad: "val (CHR ''='') < 0"
begin

lemma val_sextet: "val (b64_sextet alphabet v k) = int (unat (drop_bit k v AND 0x3f))"
proof -
  have "unat (drop_bit k v AND 0x3f) \<le> unat (0x3f :: u32)"
    by (rule word_and_le1 [THEN word_le_nat_alt [THEN iffD1]])
  then show ?thesis unfolding b64_sextet_def by (intro val_nth) simp
qed

lemma sextet_not_pad: "b64_sextet alphabet v k \<noteq> CHR ''=''"
  using val_sextet[of v k] val_pad by force

lemma join_word:
  "b64_join [val (b64_sextet alphabet (b64_word a b c) 18), val (b64_sextet alphabet (b64_word a b c) 12),
     val (b64_sextet alphabet (b64_word a b c) 6), val (b64_sextet alphabet (b64_word a b c) 0)]
   = b64_word a b c"
  using b64_sextets_join[OF b64_word_24, of a b c] by (simp add: b64_join_def val_sextet)

lemma join_word_pad1:
  "b64_join [val (b64_sextet alphabet (b64_word a b 0) 18), val (b64_sextet alphabet (b64_word a b 0) 12),
     val (b64_sextet alphabet (b64_word a b 0) 6), 0] = b64_word a b 0"
  using join_word[of a b 0] b64_word_sextets_zero(2)[of a b] by (simp add: val_sextet)

lemma join_word_pad2:
  "b64_join [val (b64_sextet alphabet (b64_word a 0 0) 18), val (b64_sextet alphabet (b64_word a 0 0) 12), 0, 0]
   = b64_word a 0 0"
  using join_word_pad1[of a 0] b64_word_sextets_zero(1)[of a] by (simp add: val_sextet)

lemma val_sextet_pos: "\<not> val (b64_sextet alphabet v k) < 0"
  by (simp add: val_sextet)

text \<open>Decoding what the encoder wrote gives the input back, whatever was produced before it.\<close>

lemma decode_encode:
  "length xs + produced \<le> out_cap \<Longrightarrow>
     b64_decode_loop val True (b64_encode_loop alphabet xs) out_cap produced = Some xs"
proof (induction xs arbitrary: produced rule: list_induct_by3)
  case (step a b c rest)
  then show ?case
    by (simp add: b64_encode_loop_word sextet_not_pad val_sextet_pos join_word b64_octets_word
        del: b64_encode_loop.simps(1))
qed (simp_all add: b64_encode_loop_word sextet_not_pad val_sextet_pos join_word_pad1 join_word_pad2
    b64_octets_word del: b64_encode_loop.simps(2,3))

text \<open>Whole quanta decode whether or not padding would be allowed after them.\<close>

lemma decode_encode_whole:
  "3 dvd length xs \<Longrightarrow> length xs + produced \<le> out_cap \<Longrightarrow>
     b64_decode_loop val pd (b64_encode_loop alphabet xs) out_cap produced = Some xs"
proof (induction xs arbitrary: produced rule: list_induct_by3)
  case (step a b c rest)
  have "3 dvd length rest" using step.prems(1) by (simp; presburger)
  then have "b64_decode_loop val pd (b64_encode_loop alphabet rest) out_cap (produced + 3) = Some rest"
    using step.prems(2) by (intro step.IH) simp_all
  then show ?case using step.prems(2)
    by (simp add: b64_encode_loop_word sextet_not_pad val_sextet_pos join_word b64_octets_word
        del: b64_encode_loop.simps(1))
qed (auto simp: nat_dvd_not_less)

text \<open>The encoder's output is a whole number of quanta, of the size the caller was told.\<close>

lemma encode_length: "length (b64_encode_loop alphabet xs) = ((length xs + 2) div 3) * 4"
proof (induction xs rule: list_induct_by3)
  case (step a b c xs)
  have "(length (a # b # c # xs) + 2) div 3 = (length xs + 2) div 3 + 1"
    using div_add_self2[of 3 "length xs + 2"] by (simp add: add.commute)
  with step show ?case by (simp add: Let_def)
qed (simp_all add: Let_def)

lemma encode_append:
  "3 dvd length xs \<Longrightarrow> b64_encode_loop alphabet (xs @ ys) = b64_encode_loop alphabet xs @ b64_encode_loop alphabet ys"
proof (induction xs rule: list_induct_by3)
  case (step a b c xs)
  have "3 dvd length xs" using step.prems by (simp; presburger)
  with step.IH show ?case by (simp add: Let_def)
qed (auto simp: nat_dvd_not_less)

lemma whole_no_pad: "3 dvd length xs \<Longrightarrow> CHR ''='' \<notin> set (b64_encode_loop alphabet xs)"
proof (induction xs rule: list_induct_by3)
  case (step a b c xs)
  have "3 dvd length xs" using step.prems by (simp; presburger)
  with step.IH show ?case by (simp add: Let_def sextet_not_pad[symmetric])
qed (auto simp: nat_dvd_not_less)

lemma whole_length: "3 dvd length xs \<Longrightarrow> 4 dvd length (b64_encode_loop alphabet xs)"
  by (simp add: encode_length)

end

section \<open>The two alphabets\<close>

lemma map_b64_value: "map b64_value b64_alphabet = map int [0..<64]"
  by code_simp

lemma map_b64url_value: "map b64url_value b64url_alphabet = map int [0..<64]"
  by code_simp

lemma nth_via_map: "map f xs = map g [0..<n] \<Longrightarrow> k < n \<Longrightarrow> f (xs ! k) = g k"
  by (metis add.left_neutral diff_zero length_map length_upt nth_map nth_upt)

interpretation b64std: b64_codec b64_alphabet b64_value
proof
  show "k < 64 \<Longrightarrow> b64_value (b64_alphabet ! k) = int k" for k
    by (rule nth_via_map[OF map_b64_value])
  show "b64_value (CHR ''='') < 0" by code_simp
qed

interpretation b64url: b64_codec b64url_alphabet b64url_value
proof
  show "k < 64 \<Longrightarrow> b64url_value (b64url_alphabet ! k) = int k" for k
    by (rule nth_via_map[OF map_b64url_value])
  show "b64url_value (CHR ''='') < 0" by code_simp
qed

lemma b64_value_in_alphabet: "0 \<le> b64_value c \<Longrightarrow> c \<in> set b64_alphabet"
proof -
  have "\<forall>c. 0 \<le> b64_value c \<longrightarrow> c \<in> set b64_alphabet" by code_simp
  then show "0 \<le> b64_value c \<Longrightarrow> c \<in> set b64_alphabet" by blast
qed

lemma b64url_value_in_alphabet: "0 \<le> b64url_value c \<Longrightarrow> c \<in> set b64url_alphabet"
proof -
  have "\<forall>c. 0 \<le> b64url_value c \<longrightarrow> c \<in> set b64url_alphabet" by code_simp
  then show "0 \<le> b64url_value c \<Longrightarrow> c \<in> set b64url_alphabet" by blast
qed

section \<open>Properties\<close>

text \<open>
  Base64 round trip. Encoding succeeds exactly when the output buffer holds the advertised
  size, and both decoders return the encoded bytes whenever they fit the destination.
\<close>

theorem base64_round_trip:
  assumes "cloak_base64_encoded_size (length xs) \<le> enc_cap" "length xs \<le> dec_cap"
  shows "(\<exists>s. cloak_base64_encode xs enc_cap = Some s
             \<and> length s + 1 = cloak_base64_encoded_size (length xs)
             \<and> cloak_base64_decode s dec_cap = Some xs)
       \<and> (\<exists>s. cloak_base64url_encode xs enc_cap = Some s
             \<and> length s + 1 = cloak_base64_encoded_size (length xs)
             \<and> cloak_base64url_decode s dec_cap = Some xs)"
  using assms b64std.decode_encode[of xs 0 dec_cap] b64url.decode_encode[of xs 0 dec_cap]
  by (auto simp: cloak_base64_encode_def cloak_base64url_encode_def cloak_base64_decode_def
      cloak_base64url_decode_def cloak_base64_encoded_size_def b64std.encode_length b64url.encode_length)

theorem base64_round_trip_witness:
  "cloak_base64_encode [104, 101, 108, 108, 111] 9 = Some ''aGVsbG8=''
   \<and> cloak_base64_decode ''aGVsbG8='' 5 = Some [104, 101, 108, 108, 111]"
proof -
  have "\<exists>s. cloak_base64_encode [104, 101, 108, 108, 111] 9 = Some s
      \<and> cloak_base64_decode s 5 = Some [104, 101, 108, 108, 111]"
    using base64_round_trip [of "[104, 101, 108, 108, 111]" 9 5]
    by (auto simp: cloak_base64_encoded_size_def)
  moreover have "cloak_base64_encode [104, 101, 108, 108, 111] 9 = Some ''aGVsbG8=''" by code_simp
  ultimately show ?thesis by simp
qed

text \<open>Splitting an input into its whole quanta and a remainder of at most two bytes.\<close>

lemma split_quanta:
  obtains ys t where "xs = ys @ t" "3 dvd length ys" "length t < 3"
proof
  let ?n = "length xs - length xs mod 3"
  show "xs = take ?n xs @ drop ?n xs" by simp
  show "3 dvd length (take ?n xs)" by (simp add: dvd_minus_mod)
  show "length (drop ?n xs) < 3" by simp
qed

lemma b64url_tail_encode:
  assumes "length t < 3" "t \<noteq> []" "length t + produced \<le> out_cap"
  shows "b64url_tail (takeWhile (\<lambda>c. c \<noteq> CHR ''='') (b64_encode_loop b64url_alphabet t)) out_cap produced
       = Some t"
proof -
  consider a where "t = [a]" | a b where "t = [a, b]"
    using assms(1,2) by (cases t; cases "tl t"; cases "tl (tl t)") auto
  then show ?thesis
    using assms(3) b64url.join_word_pad1 b64url.join_word_pad2
    by cases
       (simp_all add: b64url_tail_def Let_def b64_encode_loop_word b64url.sextet_not_pad
         b64url.val_sextet_pos b64_octets_word del: b64_encode_loop.simps)
qed

text \<open>
  The URL-safe decoder also accepts the unpadded form. Dropping the \<open>=\<close> characters the encoder
  appended leaves a text that still decodes to the same bytes.
\<close>

theorem base64url_unpadded_round_trip:
  assumes "length xs \<le> out_cap"
  shows "cloak_base64url_decode
           (takeWhile (\<lambda>c. c \<noteq> CHR ''='') (b64_encode_loop b64url_alphabet xs)) out_cap = Some xs"
proof -
  obtain ys t where xs: "xs = ys @ t" "3 dvd length ys" "length t < 3" by (rule split_quanta)
  let ?e = "b64_encode_loop b64url_alphabet ys"
  let ?u = "takeWhile (\<lambda>c. c \<noteq> CHR ''='') (b64_encode_loop b64url_alphabet t)"
  have u: "takeWhile (\<lambda>c. c \<noteq> CHR ''='') (b64_encode_loop b64url_alphabet xs) = ?e @ ?u"
    using xs b64url.encode_append[of ys t] b64url.whole_no_pad[of ys] by (auto intro: takeWhile_append2)
  have e4: "4 dvd length ?e" using xs by (simp add: b64url.whole_length)
  have dec: "b64_decode_loop b64url_value pd ?e out_cap 0 = Some ys" for pd
    using assms xs by (intro b64url.decode_encode_whole) auto
  show ?thesis
  proof (cases "t = []")
    case True
    then show ?thesis unfolding u using dec e4 xs by (simp add: cloak_base64url_decode_def Let_def)
  next
    case False
    have "length ?u = length t + 1"
      using xs(3) False by (cases t; cases "tl t"; cases "tl (tl t)")
        (auto simp: b64_encode_loop_word b64url.sextet_not_pad simp del: b64_encode_loop.simps)
    then have "length (?e @ ?u) mod 4 = length t + 1"
      using e4 xs(3) by auto
    moreover have "b64url_tail ?u out_cap (length ys) = Some t"
      using xs False assms by (intro b64url_tail_encode) auto
    ultimately show ?thesis unfolding u using dec xs False \<open>length ?u = length t + 1\<close>
      by (simp add: cloak_base64url_decode_def Let_def)
  qed
qed

theorem base64url_unpadded_round_trip_witness:
  "cloak_base64url_decode ''-_8'' 2 = Some [251, 255]"
proof -
  have "takeWhile (\<lambda>c. c \<noteq> CHR ''='') (b64_encode_loop b64url_alphabet [251, 255]) = ''-_8''"
    by code_simp
  then show ?thesis using base64url_unpadded_round_trip [of "[251, 255]" 2] by simp
qed

text \<open>
  Both decoders are memory-safe and strict: a successful decode never writes more than the
  destination holds, and accepts only characters of its own alphabet and \<open>=\<close>, so the URL-safe
  decoder rejects \<open>+\<close> and \<open>/\<close> and the standard one rejects \<open>-\<close> and \<open>_\<close>.
\<close>

theorem base64_decode_safe_and_strict:
  "(\<forall>out. cloak_base64_decode s out_cap = Some out \<longrightarrow>
       length out \<le> out_cap \<and> set s \<subseteq> insert (CHR ''='') (set b64_alphabet))
   \<and> (\<forall>out. cloak_base64url_decode s out_cap = Some out \<longrightarrow>
       length out \<le> out_cap \<and> set s \<subseteq> insert (CHR ''='') (set b64url_alphabet))"
proof (intro conjI allI impI)
  fix out assume "cloak_base64_decode s out_cap = Some out"
  then have l: "length s mod 4 = 0" and d: "b64_decode_loop b64_value True s out_cap 0 = Some out"
    by (auto simp: cloak_base64_decode_def split: if_splits)
  show "length out \<le> out_cap" using b64_decode_bound[OF d] by simp
  from l have "length s = 4 * (length s div 4)" using mult_div_mod_eq[of 4 "length s"] by simp
  then show "set s \<subseteq> insert (CHR ''='') (set b64_alphabet)"
    using b64_decode_chars[OF d] b64_value_in_alphabet by blast
next
  fix out assume a: "cloak_base64url_decode s out_cap = Some out"
  define r where "r = length s mod 4"
  define n where "n = length s - r"
  obtain out1 out2 where d: "b64_decode_loop b64url_value (r = 0) (take n s) out_cap 0 = Some out1"
    and t: "r \<noteq> 0 \<Longrightarrow> b64url_tail (drop n s) out_cap (length out1) = Some out2"
    and out: "out = (if r = 0 then out1 else out1 @ out2)"
    using a by (auto simp: cloak_base64url_decode_def Let_def r_def n_def split: if_splits option.splits)
  have b1: "length out1 \<le> out_cap" using b64_decode_bound[OF d] by simp
  have t': "length out2 \<le> out_cap - length out1 \<and> set (drop n s) \<subseteq> set b64url_alphabet" if "r \<noteq> 0"
    using t[OF that] b64url_value_in_alphabet
    by (auto simp: b64url_tail_def Let_def length_b64_octets not_less split: if_splits)
  show "length out \<le> out_cap" using out b1 t' by (cases "r = 0") auto
  have "length (take n s) = 4 * (length s div 4)" by (simp add: n_def r_def minus_mod_eq_mult_div)
  then have "set (take n s) \<subseteq> insert (CHR ''='') (set b64url_alphabet)"
    using b64_decode_chars[OF d] b64url_value_in_alphabet by blast
  moreover have "set (drop n s) \<subseteq> set b64url_alphabet"
    using t' by (cases "r = 0") (auto simp: n_def)
  moreover have "set s = set (take n s) \<union> set (drop n s)" by (metis append_take_drop_id set_append)
  ultimately show "set s \<subseteq> insert (CHR ''='') (set b64url_alphabet)" by blast
qed

theorem base64_decode_safe_and_strict_witness:
  "cloak_base64_decode ''+/8='' 2 = Some [251, 255]
   \<and> length [251, 255 :: byte] \<le> 2 \<and> cloak_base64url_decode ''+/8='' 2 = None"
proof -
  have d: "cloak_base64_decode ''+/8='' 2 = Some [251, 255]" by code_simp
  moreover have "cloak_base64url_decode ''+/8='' 2 = None" by code_simp
  moreover have "length [251, 255 :: byte] \<le> 2"
    using base64_decode_safe_and_strict [of "''+/8=''" 2] d by blast
  ultimately show ?thesis by blast
qed

end
