(* ===== verification/Salsa20.thy ===== *)
theory Salsa20
  imports CloakPrelude
begin

text \<open>
  \<open>libcloak-common/src/salsa20.c\<close>: the Salsa20/20 stream cipher that hides every frame header. The
  16-word state is a list updated by index, one definition per C function, with the \<open>QR\<close> macro as
  a function of its four indices. A destination that aliases the source, as the frame code uses
  it, is the same computation: byte \<open>i\<close> of the output depends on byte \<open>i\<close> of the input only.
\<close>

definition rotl32 :: "u32 \<Rightarrow> nat \<Rightarrow> u32" where
  "rotl32 x n = push_bit n x OR drop_bit (32 - n) x"

definition load_le32 :: "bytes \<Rightarrow> u32" where
  "load_le32 p = ucast (p ! 0) OR push_bit 8 (ucast (p ! 1)) OR push_bit 16 (ucast (p ! 2))
     OR push_bit 24 (ucast (p ! 3))"

definition store_le32 :: "u32 \<Rightarrow> bytes" where
  "store_le32 v = [ucast v, ucast (drop_bit 8 v), ucast (drop_bit 16 v), ucast (drop_bit 24 v)]"

definition QR :: "nat \<Rightarrow> nat \<Rightarrow> nat \<Rightarrow> nat \<Rightarrow> u32 list \<Rightarrow> u32 list" where
  "QR a b c d w0 =
     (let w1 = w0[b := w0 ! b XOR rotl32 (w0 ! a + w0 ! d) 7];
          w2 = w1[c := w1 ! c XOR rotl32 (w1 ! b + w1 ! a) 9];
          w3 = w2[d := w2 ! d XOR rotl32 (w2 ! c + w2 ! b) 13]
      in w3[a := w3 ! a XOR rotl32 (w3 ! d + w3 ! c) 18])"

definition salsa20_doubleround :: "u32 list \<Rightarrow> u32 list" where
  \<comment> \<open>one iteration of the round loop: columnround, then rowround\<close>
  "salsa20_doubleround w =
     (QR 15 12 13 14 (QR 10 11 8 9 (QR 5 6 7 4 (QR 0 1 2 3
     (QR 15 3 7 11 (QR 10 14 2 6 (QR 5 9 13 1 (QR 0 4 8 12 w))))))))"

definition salsa20_state :: "bytes \<Rightarrow> bytes \<Rightarrow> u64 \<Rightarrow> u32 list" where
  \<comment> \<open>the initial \<open>x[16]\<close>\<close>
  "salsa20_state key nonce counter =
     [0x61707865, load_le32 key, load_le32 (drop 4 key), load_le32 (drop 8 key),
      load_le32 (drop 12 key), 0x3320646e, load_le32 nonce, load_le32 (drop 4 nonce),
      ucast (counter AND 0xffffffff), ucast (drop_bit 32 counter), 0x79622d32,
      load_le32 (drop 16 key), load_le32 (drop 20 key), load_le32 (drop 24 key),
      load_le32 (drop 28 key), 0x6b206574]"

definition salsa20_block :: "bytes \<Rightarrow> bytes \<Rightarrow> u64 \<Rightarrow> bytes" where
  "salsa20_block key nonce counter =
     (let x = salsa20_state key nonce counter;
          w = (salsa20_doubleround ^^ 10) x
      in concat (map (\<lambda>i. store_le32 (w ! i + x ! i)) [0..<16]))"

function salsa20_xor_loop :: "bytes \<Rightarrow> bytes \<Rightarrow> u64 \<Rightarrow> bytes \<Rightarrow> bytes" where
  "salsa20_xor_loop nonce key counter src =
     (if src = [] then []
      else let block = salsa20_block key nonce counter in
        map2 (XOR) (take 64 src) block
        @ salsa20_xor_loop nonce key (counter + 1) (drop 64 src))"
  by pat_completeness auto
termination by (relation "measure (\<lambda>(nonce, key, counter, src). length src)") auto

definition cloak_salsa20_xor :: "bytes \<Rightarrow> bytes \<Rightarrow> bytes \<Rightarrow> bytes" where
  "cloak_salsa20_xor src nonce key = salsa20_xor_loop nonce key 0 src"

declare salsa20_xor_loop.simps [simp del]

section \<open>The keystream\<close>

text \<open>Specification: the first \<open>n\<close> bytes of the concatenated blocks from a given counter on.\<close>

fun salsa20_keystream :: "bytes \<Rightarrow> bytes \<Rightarrow> u64 \<Rightarrow> nat \<Rightarrow> bytes" where
  "salsa20_keystream nonce key counter 0 = []"
| "salsa20_keystream nonce key counter (Suc k) =
     salsa20_block key nonce counter @ salsa20_keystream nonce key (counter + 1) k"

lemma length_salsa20_block [simp]: "length (salsa20_block key nonce counter) = 64"
  by (simp add: salsa20_block_def Let_def length_concat store_le32_def o_def sum_list_triv)

lemma length_salsa20_keystream [simp]: "length (salsa20_keystream nonce key counter k) = 64 * k"
  by (induct k arbitrary: counter) auto

text \<open>Any whole number of blocks that covers the input gives the same result.\<close>

lemma salsa20_xor_loop_eq:
  "length src \<le> 64 * k \<Longrightarrow>
     salsa20_xor_loop nonce key counter src = map2 (XOR) src (salsa20_keystream nonce key counter k)"
proof (induction k arbitrary: counter src)
  case 0
  then show ?case by (simp add: salsa20_xor_loop.simps)
next
  case (Suc k)
  then have "salsa20_xor_loop nonce key (counter + 1) (drop 64 src)
      = map2 (XOR) (drop 64 src) (salsa20_keystream nonce key (counter + 1) k)"
    by (intro Suc.IH) simp
  then show ?case
    by (simp add: salsa20_xor_loop.simps[of nonce key counter src] zip_append2 Let_def)
qed

definition salsa20_blocks :: "nat \<Rightarrow> nat" where
  "salsa20_blocks n = (n + 63) div 64"

lemma cloak_salsa20_xor_eq:
  "cloak_salsa20_xor src nonce key
     = map2 (XOR) src (salsa20_keystream nonce key 0 (salsa20_blocks (length src)))"
  unfolding cloak_salsa20_xor_def by (rule salsa20_xor_loop_eq) (simp add: salsa20_blocks_def)

lemma length_cloak_salsa20_xor [simp, wire_simps]:
  "length (cloak_salsa20_xor src nonce key) = length src"
  unfolding cloak_salsa20_xor_eq by (simp add: salsa20_blocks_def)

lemma map2_xor_self:
  fixes xs ks :: "'a::len word list"
  assumes "length xs \<le> length ks"
  shows "map2 (XOR) (map2 (XOR) xs ks) ks = xs"
  using assms by (intro nth_equalityI) (auto simp: xor.assoc)

lemma salsa20_xor_twice [simp]:
  "cloak_salsa20_xor (cloak_salsa20_xor src nonce key) nonce key = src"
  using map2_xor_self[of src "salsa20_keystream nonce key 0 (salsa20_blocks (length src))"]
  by (simp add: cloak_salsa20_xor_eq salsa20_blocks_def)

text \<open>The cipher is bitwise: a difference in the input is the same difference in the output.\<close>

lemma salsa20_xor_update:
  "cloak_salsa20_xor (src[i := src ! i XOR m]) nonce key
     = (cloak_salsa20_xor src nonce key)[i := cloak_salsa20_xor src nonce key ! i XOR m]"
proof (cases "i < length src")
  case True
  then show ?thesis
    by (intro nth_equalityI)
      (auto simp: cloak_salsa20_xor_eq salsa20_blocks_def nth_list_update ac_simps)
qed (simp add: list_update_beyond)

text \<open>
  The cipher is the XOR of the input with the concatenated Salsa20 blocks, and applying it a
  second time with the same nonce and key restores the input.
\<close>

theorem salsa20_xor_involution:
  "cloak_salsa20_xor src nonce key
     = map2 (XOR) src (salsa20_keystream nonce key 0 (salsa20_blocks (length src)))
   \<and> cloak_salsa20_xor (cloak_salsa20_xor src nonce key) nonce key = src"
  by (simp add: salsa20_xor_twice) (rule cloak_salsa20_xor_eq)

end
