(* ===== verification/CloakRandom.thy ===== *)
theory CloakRandom
  imports CloakPrelude
begin

text \<open>
  \<open>libcloak-common/src/random.c\<close>. OpenSSL's \<open>RAND_bytes\<close> is a parameter: an infinite tape of bytes
  read from the front (a failing generator aborts the process, so there is no error value). The
  rejection loop of \<open>cloak_random_below\<close> has no bound in the code, so it is a partial function whose
  \<^const>\<open>None\<close> is a run that never returns; it is proved to return as soon as one draw is accepted.

  The components above consume draws one call at a time; \<open>entropy\<close> collects what one call may ask
  for, and \<open>entropy_ok\<close> is the contract this theory establishes for it.
\<close>

type_synonym tape = "nat \<Rightarrow> byte"

definition cloak_random_bytes :: "nat \<Rightarrow> tape \<Rightarrow> bytes \<times> tape" where
  "cloak_random_bytes len t = (map t [0..<len], \<lambda>i. t (i + len))"

definition random_limit :: "nat \<Rightarrow> nat" where
  \<comment> \<open>the largest multiple of \<open>n\<close> that is at most \<open>2^32\<close>\<close>
  "random_limit n = 0x100000000 - 0x100000000 mod n"

partial_function (option) cloak_random_below :: "nat \<Rightarrow> tape \<Rightarrow> (nat \<times> tape) option" where
  "cloak_random_below n t =
     (if n \<le> 1 then Some (0, t)
      else case cloak_random_bytes 4 t of (b, t') \<Rightarrow>
        let v = unat (be32_load b :: u32) in
        if v < random_limit n then Some (v mod n, t') else cloak_random_below n t')"

section \<open>The draws\<close>

definition draw :: "tape \<Rightarrow> nat \<Rightarrow> nat" where
  \<comment> \<open>the \<open>k\<close>-th 32-bit draw of a tape\<close>
  "draw t k = unat (be32_load (map (\<lambda>i. t (4 * k + i)) [0..<4]) :: u32)"

lemma draw_shift: "draw (\<lambda>i. t (i + 4)) k = draw t (Suc k)"
  by (simp add: draw_def algebra_simps)

lemma random_below_step:
  assumes "1 < n"
  shows "cloak_random_below n t =
     (if draw t 0 < random_limit n then Some (draw t 0 mod n, \<lambda>i. t (i + 4))
      else cloak_random_below n (\<lambda>i. t (i + 4)))"
  using assms by (subst cloak_random_below.simps)
    (simp add: cloak_random_bytes_def draw_def Let_def add.commute)

lemma random_below_skips:
  assumes "1 < n"
  shows "\<forall>j < k. random_limit n \<le> draw t j \<Longrightarrow> draw t k < random_limit n \<Longrightarrow>
     cloak_random_below n t = Some (draw t k mod n, \<lambda>i. t (i + 4 * Suc k))"
proof (induction k arbitrary: t)
  case 0
  then show ?case using random_below_step[OF assms, of t] by simp
next
  case (Suc k)
  have "cloak_random_below n t = cloak_random_below n (\<lambda>i. t (i + 4))"
    using Suc.prems(1)[rule_format, of 0] random_below_step[OF assms, of t] by simp
  also have "\<dots> = Some (draw (\<lambda>i. t (i + 4)) k mod n, \<lambda>i. t (i + 4 * Suc k + 4))"
    using Suc.IH[of "\<lambda>i. t (i + 4)"] Suc.prems by (simp add: draw_shift)
  finally show ?case by (simp add: draw_shift algebra_simps)
qed

lemma random_below_lt:
  assumes ret: "cloak_random_below n t = Some (r, t')" and n: "0 < n"
  shows "r < n"
proof -
  have "0 < m \<longrightarrow> fst x < m" if "cloak_random_below m s = Some x" for m s x
  proof (rule cloak_random_below.raw_induct [where P = "\<lambda>m s x. 0 < m \<longrightarrow> fst x < m", OF _ that])
    fix f :: "nat \<Rightarrow> tape \<Rightarrow> (nat \<times> tape) option" and m s x
    assume IH: "\<And>m s x. f m s = Some x \<Longrightarrow> 0 < m \<longrightarrow> fst x < m"
      and eq: "(if m \<le> 1 then Some (0, s)
        else case cloak_random_bytes 4 s of (b, t') \<Rightarrow>
          let v = unat (be32_load b :: u32) in
          if v < random_limit m then Some (v mod m, t') else f m t') = Some x"
    then show "0 < m \<longrightarrow> fst x < m" by (auto simp: Let_def split: if_splits prod.splits)
  qed
  from this[OF ret] n show ?thesis by simp
qed

section \<open>Uniformity\<close>

lemma random_limit_multiple: "random_limit n = n * (0x100000000 div n)"
  unfolding random_limit_def by (simp add: minus_mod_eq_mult_div)

lemma card_residues:
  fixes n q r :: nat
  assumes "r < n"
  shows "card {v. v < n * q \<and> v mod n = r} = q"
proof -
  have "{v. v < n * q \<and> v mod n = r} = (\<lambda>i. i * n + r) ` {..<q}" (is "?L = ?R")
  proof
    show "?L \<subseteq> ?R"
    proof
      fix v assume v: "v \<in> ?L"
      then have "v = v div n * n + r" using div_mult_mod_eq[of v n] by simp
      moreover have "v div n < q" using v assms by (simp add: less_mult_imp_div_less mult.commute)
      ultimately show "v \<in> ?R" by blast
    qed
    show "?R \<subseteq> ?L"
    proof
      fix v assume "v \<in> ?R"
      then obtain i where i: "i < q" "v = i * n + r" by blast
      have "i * n + r < Suc i * n" using assms by simp
      also have "\<dots> \<le> q * n" using i by (intro mult_right_mono) auto
      finally show "v \<in> ?L" using i assms by (simp add: mult.commute)
    qed
  qed
  moreover have "inj_on (\<lambda>i. i * n + r) {..<q}" using assms by (auto simp: inj_on_def)
  ultimately show ?thesis by (simp add: card_image)
qed

section \<open>Draws as components see them\<close>

record entropy =
  rnd_below :: "nat \<Rightarrow> nat"
  rnd_bytes :: "nat \<Rightarrow> bytes"

definition entropy_ok :: "entropy \<Rightarrow> bool" where
  "entropy_ok r \<longleftrightarrow> (\<forall>n > 0. rnd_below r n < n) \<and> (\<forall>n. length (rnd_bytes r n) = n)"

lemma entropy_ok_below: "entropy_ok r \<Longrightarrow> 0 < n \<Longrightarrow> rnd_below r n < n"
  by (simp add: entropy_ok_def)

lemma entropy_ok_bytes [simp]: "entropy_ok r \<Longrightarrow> length (rnd_bytes r n) = n"
  by (simp add: entropy_ok_def)

text \<open>A concrete tape for the witnesses.\<close>

definition toy_entropy :: "nat \<Rightarrow> byte \<Rightarrow> entropy" where
  "toy_entropy k b = \<lparr>rnd_below = (\<lambda>n. if k < n then k else 0), rnd_bytes = (\<lambda>n. replicate n b)\<rparr>"

lemma toy_entropy_ok: "entropy_ok (toy_entropy k b)"
  by (simp add: entropy_ok_def toy_entropy_def)

section \<open>Properties\<close>

text \<open>
  \<open>cloak_random_below\<close> is a correct rejection sampler. If some draw of the tape is accepted, the
  function returns; what it returns is below \<open>n\<close> and is the first accepted draw reduced modulo
  \<open>n\<close>; and every residue below \<open>n\<close> is hit by the same number of accepted 32-bit values, at least one,
  so the reduction introduces no bias.
\<close>

theorem random_below_uniform:
  assumes "1 < n" "n < 2 ^ 32" "draw t k < random_limit n" "\<forall>j < k. random_limit n \<le> draw t j"
  shows "cloak_random_below n t = Some (draw t k mod n, \<lambda>i. t (i + 4 * Suc k))
       \<and> draw t k mod n < n \<and> random_limit n \<le> 2 ^ 32
       \<and> (\<forall>r < n. card {v. v < random_limit n \<and> v mod n = r} = 2 ^ 32 div n) \<and> 0 < 2 ^ 32 div n"
proof (intro conjI allI impI)
  show "cloak_random_below n t = Some (draw t k mod n, \<lambda>i. t (i + 4 * Suc k))"
    using random_below_skips[OF assms(1) assms(4,3)] .
  show "random_limit n \<le> 2 ^ 32" by (simp add: random_limit_def)
  show "card {v. v < random_limit n \<and> v mod n = r} = 2 ^ 32 div n" if "r < n" for r
    unfolding random_limit_multiple using card_residues[OF that] by simp
  show "0 < 2 ^ 32 div n" using assms by (simp add: div_greater_zero_iff)
qed (use assms in auto)

theorem random_below_uniform_witness:
  "cloak_random_below 240 (\<lambda>i. if i < 4 then 255 else 1) = Some (16843009 mod 240, \<lambda>i. 1)
   \<and> card {v. v < random_limit 240 \<and> v mod 240 = 239} = 2 ^ 32 div 240"
proof -
  let ?t = "\<lambda>i :: nat. if i < 4 then 255 else 1 :: byte"
  have d: "draw ?t 1 = 16843009" "draw ?t 0 = 4294967295" "random_limit 240 = 4294967280"
    by (simp_all add: draw_def random_limit_def be32_load_def upt_rec)
  have "(\<lambda>i. ?t (i + 4 * Suc 1)) = (\<lambda>i. 1)" by auto
  with d show ?thesis using random_below_uniform [of 240 ?t 1] by simp
qed

end
