(* ===== verification/Aead.thy ===== *)
theory Aead
  imports CloakPrelude
begin

text \<open>
  \<open>libcloak-common/src/aead.c\<close>: the wrapper around OpenSSL's EVP interface. OpenSSL itself is the
  parameter \<open>evp\<close>, one function per direction: \<^const>\<open>None\<close> is any EVP call of the sequence failing
  (the \<open>goto done\<close> exits), and the tag is the second component. \<open>evp_sound\<close> is what the OpenSSL
  documentation promises of a GCM or ChaCha20-Poly1305 context: the ciphertext has the length of the
  plaintext, the tag has 16 bytes, and decrypting what was encrypted under the same key, nonce and
  associated data authenticates and returns the plaintext.
\<close>

definition CLOAK_AEAD_KEY_LEN :: nat where "CLOAK_AEAD_KEY_LEN = 32"
definition CLOAK_AEAD_NONCE_LEN :: nat where "CLOAK_AEAD_NONCE_LEN = 12"
definition CLOAK_AEAD_TAG_LEN :: nat where "CLOAK_AEAD_TAG_LEN = 16"

text \<open>A method number outside the enumeration, which a wire byte can produce, is \<open>AEAD_OTHER\<close>.\<close>

datatype aead_method =
    CLOAK_AEAD_NONE
  | CLOAK_AEAD_AES_256_GCM
  | CLOAK_AEAD_CHACHA20_POLY1305
  | CLOAK_AEAD_AES_128_GCM
  | AEAD_OTHER nat

definition aead_method_of_nat :: "nat \<Rightarrow> aead_method" where
  "aead_method_of_nat n =
     (if n = 0 then CLOAK_AEAD_NONE
      else if n = 1 then CLOAK_AEAD_AES_256_GCM
      else if n = 2 then CLOAK_AEAD_CHACHA20_POLY1305
      else if n = 3 then CLOAK_AEAD_AES_128_GCM
      else AEAD_OTHER n)"

record evp =
  evp_encrypt :: "aead_method \<Rightarrow> bytes \<Rightarrow> bytes \<Rightarrow> bytes \<Rightarrow> bytes \<Rightarrow> (bytes \<times> bytes) option"
  evp_decrypt :: "aead_method \<Rightarrow> bytes \<Rightarrow> bytes \<Rightarrow> bytes \<Rightarrow> bytes \<Rightarrow> bytes \<Rightarrow> bytes option"

section \<open>Operations\<close>

fun pick_cipher :: "aead_method \<Rightarrow> aead_method option" where
  \<comment> \<open>the EVP cipher of a method; \<^const>\<open>None\<close> is the NULL return\<close>
  "pick_cipher CLOAK_AEAD_AES_256_GCM = Some CLOAK_AEAD_AES_256_GCM"
| "pick_cipher CLOAK_AEAD_AES_128_GCM = Some CLOAK_AEAD_AES_128_GCM"
| "pick_cipher CLOAK_AEAD_CHACHA20_POLY1305 = Some CLOAK_AEAD_CHACHA20_POLY1305"
| "pick_cipher _ = None"

definition cloak_aead_overhead :: "aead_method \<Rightarrow> nat" where
  "cloak_aead_overhead m = (if m = CLOAK_AEAD_NONE then 0 else CLOAK_AEAD_TAG_LEN)"

fun cloak_aead_key_len :: "aead_method \<Rightarrow> nat" where
  "cloak_aead_key_len CLOAK_AEAD_AES_128_GCM = 16"
| "cloak_aead_key_len CLOAK_AEAD_NONE = 0"
| "cloak_aead_key_len _ = CLOAK_AEAD_KEY_LEN"

fun cloak_aead_method_is_valid :: "aead_method \<Rightarrow> bool" where
  "cloak_aead_method_is_valid (AEAD_OTHER n) = False"
| "cloak_aead_method_is_valid _ = True"

definition cloak_aead_seal :: "evp \<Rightarrow> aead_method \<Rightarrow> bytes \<Rightarrow> bytes \<Rightarrow> bytes \<Rightarrow> bytes \<Rightarrow> bytes option" where
  "cloak_aead_seal e m key nonce aad plaintext =
     (if m = CLOAK_AEAD_NONE then Some plaintext
      else case pick_cipher m of
        None \<Rightarrow> None
      | Some c \<Rightarrow>
          (case evp_encrypt e c key (take CLOAK_AEAD_NONCE_LEN nonce) aad plaintext of
             None \<Rightarrow> None
           | Some (ciphertext, tag) \<Rightarrow> Some (ciphertext @ tag)))"

definition cloak_aead_open :: "evp \<Rightarrow> aead_method \<Rightarrow> bytes \<Rightarrow> bytes \<Rightarrow> bytes \<Rightarrow> bytes \<Rightarrow> bytes option" where
  "cloak_aead_open e m key nonce aad inp =
     (if m = CLOAK_AEAD_NONE then Some inp
      else if length inp < CLOAK_AEAD_TAG_LEN then None
      else case pick_cipher m of
        None \<Rightarrow> None
      | Some c \<Rightarrow>
          let ciphertext_len = length inp - CLOAK_AEAD_TAG_LEN in
          evp_decrypt e c key (take CLOAK_AEAD_NONCE_LEN nonce) aad
            (take ciphertext_len inp) (drop ciphertext_len inp))"

section \<open>What OpenSSL promises, and what the wrapper makes of it\<close>

definition evp_sound :: "evp \<Rightarrow> bool" where
  "evp_sound e \<longleftrightarrow>
     (\<forall>m k n a p c t. evp_encrypt e m k n a p = Some (c, t) \<longrightarrow>
        length c = length p \<and> length t = 16 \<and> evp_decrypt e m k n a c t = Some p)
   \<and> (\<forall>m k n a c t p. evp_decrypt e m k n a c t = Some p \<longrightarrow> length p = length c)"

lemma aead_seal_length:
  "evp_sound e \<Longrightarrow> cloak_aead_seal e m k n a p = Some s \<Longrightarrow>
     length s = length p + cloak_aead_overhead m"
  by (auto simp: cloak_aead_seal_def evp_sound_def cloak_aead_overhead_def CLOAK_AEAD_TAG_LEN_def
      split: if_splits option.splits prod.splits)

lemma aead_open_length:
  "evp_sound e \<Longrightarrow> cloak_aead_open e m k n a s = Some p \<Longrightarrow>
     length p + cloak_aead_overhead m = length s"
  by (auto simp: cloak_aead_open_def evp_sound_def cloak_aead_overhead_def CLOAK_AEAD_TAG_LEN_def
      Let_def not_less split: if_splits option.splits)

lemma aead_open_seal:
  "evp_sound e \<Longrightarrow> cloak_aead_seal e m k n a p = Some s \<Longrightarrow> cloak_aead_open e m k n a s = Some p"
  by (auto simp: cloak_aead_seal_def cloak_aead_open_def evp_sound_def CLOAK_AEAD_TAG_LEN_def Let_def
      split: if_splits option.splits prod.splits)

text \<open>
  A concrete instance, so that a hypothesis \<open>evp_sound\<close> can be discharged: a keyed byte shift whose
  tag is a 16-byte checksum of the key, the nonce and the ciphertext. It stands in for OpenSSL in
  witnesses only.
\<close>

definition toy_tag :: "bytes \<Rightarrow> bytes \<Rightarrow> bytes \<Rightarrow> bytes \<Rightarrow> bytes" where
  "toy_tag k n a c = replicate 16 (sum_list k + 3 * sum_list n + 5 * sum_list a + 7 * sum_list c)"

definition toy_evp :: evp where
  "toy_evp = \<lparr>
     evp_encrypt = (\<lambda>m k n a p. let c = map (\<lambda>b. b + sum_list k) p in Some (c, toy_tag k n a c)),
     evp_decrypt = (\<lambda>m k n a c t. if t = toy_tag k n a c then Some (map (\<lambda>b. b - sum_list k) c) else None)\<rparr>"

lemma toy_evp_sound: "evp_sound toy_evp"
  by (auto simp: evp_sound_def toy_evp_def toy_tag_def Let_def o_def split: if_splits)

end
