(* ===== verification/Frame.thy ===== *)
theory Frame
  imports CloakRandom Aead Salsa20
begin

text \<open>
  \<open>libcloak-mux/src/frame.c\<close>: the multiplexer's wire frame. A 14-byte header (stream id, sequence
  number, closing flag, extra length) is hidden with Salsa20 under a nonce taken from the frame's
  own last eight bytes; payload and padding are sealed with the session's AEAD, or left in the
  clear with eight random trailing bytes in the \<open>NONE\<close> mode. The model covers both directions with
  every early return; the random draws of one call are an argument of type \<open>entropy\<close>.

  The payload argument is what stands in the payload region when the header is written: the
  \<open>payload_offset_in_buf\<close> parameter only tells the code whether it still has to copy it there.
\<close>

definition CLOAK_FRAME_HEADER_LEN :: nat where "CLOAK_FRAME_HEADER_LEN = 14"
definition CLOAK_FRAME_MAX_EXTRA_LEN :: nat where "CLOAK_FRAME_MAX_EXTRA_LEN = 255"
definition CLOAK_FRAME_PAD_FIRST_N_FRAMES :: u64 where "CLOAK_FRAME_PAD_FIRST_N_FRAMES = 5"
definition CLOAK_FRAME_CLOSING_NOTHING :: byte where "CLOAK_FRAME_CLOSING_NOTHING = 0"
definition CLOAK_FRAME_CLOSING_STREAM :: byte where "CLOAK_FRAME_CLOSING_STREAM = 1"
definition CLOAK_FRAME_CLOSING_SESSION :: byte where "CLOAK_FRAME_CLOSING_SESSION = 2"
definition CLOAK_SALSA20_NONCE_LEN :: nat where "CLOAK_SALSA20_NONCE_LEN = 8"

lemmas frame_consts = CLOAK_FRAME_HEADER_LEN_def CLOAK_FRAME_MAX_EXTRA_LEN_def
  CLOAK_FRAME_PAD_FIRST_N_FRAMES_def CLOAK_FRAME_CLOSING_NOTHING_def CLOAK_FRAME_CLOSING_STREAM_def
  CLOAK_FRAME_CLOSING_SESSION_def CLOAK_SALSA20_NONCE_LEN_def

record frame =
  fr_stream_id :: u32
  fr_seq :: u64
  fr_closing :: byte
  fr_payload :: bytes

record obfuscator =
  ob_method :: aead_method
  ob_session_key :: bytes

section \<open>Operations\<close>

definition load_be32 :: "bytes \<Rightarrow> u32" where "load_be32 p = be32_load p"
definition store_be32 :: "u32 \<Rightarrow> bytes" where "store_be32 v = be32_store v"
definition load_be64 :: "bytes \<Rightarrow> u64" where "load_be64 p = be_load (take 8 p) 0"
definition store_be64 :: "u64 \<Rightarrow> bytes" where "store_be64 v = be_store 8 v"

definition tag_len_for_method :: "aead_method \<Rightarrow> nat" where
  "tag_len_for_method m =
     (if m = CLOAK_AEAD_NONE then CLOAK_SALSA20_NONCE_LEN else cloak_aead_overhead m)"

definition random_pad_len :: "entropy \<Rightarrow> nat \<Rightarrow> byte" where
  "random_pad_len r max_inclusive = of_nat (rnd_below r (max_inclusive + 1))"

definition frame_header :: "frame \<Rightarrow> byte \<Rightarrow> bytes" where
  \<comment> \<open>\<open>buf[0..14)\<close> before it is encrypted\<close>
  "frame_header f extra_len =
     store_be32 (fr_stream_id f) @ store_be64 (fr_seq f) @ [fr_closing f, extra_len]"

definition cloak_frame_obfuscate :: "evp \<Rightarrow> entropy \<Rightarrow> obfuscator \<Rightarrow> frame \<Rightarrow> nat \<Rightarrow> bytes option" where
  "cloak_frame_obfuscate e r ob f buf_cap =
     (let payload_len = length (fr_payload f) in
      if payload_len = 0 then None
      else if payload_len > buf_cap then None
      else
        let tag_len = tag_len_for_method (ob_method ob);
            pad_len = (if fr_seq f < CLOAK_FRAME_PAD_FIRST_N_FRAMES
                       then unat (random_pad_len r (CLOAK_FRAME_MAX_EXTRA_LEN - tag_len)) else 0);
            useful_len = CLOAK_FRAME_HEADER_LEN + payload_len + pad_len + tag_len
        in
        if buf_cap < useful_len then None
        else
          let header = frame_header f (of_nat (pad_len + tag_len));
              filler = rnd_bytes r (pad_len + tag_len);
              region = fr_payload f @ filler;
              sealed = (if ob_method ob \<noteq> CLOAK_AEAD_NONE
                        then map_option (blit region 0)
                               (cloak_aead_seal e (ob_method ob) (ob_session_key ob)
                                  (take CLOAK_AEAD_NONCE_LEN header) []
                                  (take (payload_len + pad_len) region))
                        else Some region)
          in case sealed of
               None \<Rightarrow> None
             | Some body \<Rightarrow>
                 let buf = header @ body;
                     header_nonce = take CLOAK_SALSA20_NONCE_LEN (drop (useful_len - CLOAK_SALSA20_NONCE_LEN) buf)
                 in Some (cloak_salsa20_xor header header_nonce (ob_session_key ob) @ body))"

definition cloak_frame_deobfuscate :: "evp \<Rightarrow> obfuscator \<Rightarrow> bytes \<Rightarrow> frame option" where
  "cloak_frame_deobfuscate e ob buf =
     (let buf_len = length buf in
      if buf_len < CLOAK_FRAME_HEADER_LEN + CLOAK_SALSA20_NONCE_LEN then None
      else
        let header_nonce = drop (buf_len - CLOAK_SALSA20_NONCE_LEN) buf;
            header = cloak_salsa20_xor (take CLOAK_FRAME_HEADER_LEN buf) header_nonce (ob_session_key ob);
            stream_id = load_be32 header;
            seq = load_be64 (drop 4 header);
            closing = header ! 12;
            extra_len = unat (header ! 13);
            pld_with_overhead = drop CLOAK_FRAME_HEADER_LEN buf;
            pld_with_overhead_len = buf_len - CLOAK_FRAME_HEADER_LEN
        in
        if extra_len < tag_len_for_method (ob_method ob) then None
        else if extra_len > pld_with_overhead_len then None
        else
          let useful_payload_len = pld_with_overhead_len - extra_len;
              opened = (if ob_method ob \<noteq> CLOAK_AEAD_NONE
                        then case cloak_aead_open e (ob_method ob) (ob_session_key ob)
                                    (take CLOAK_AEAD_NONCE_LEN header) [] pld_with_overhead of
                               None \<Rightarrow> None
                             | Some p \<Rightarrow> if useful_payload_len > length p then None else Some p
                        else Some pld_with_overhead)
          in map_option (\<lambda>p. \<lparr>fr_stream_id = stream_id, fr_seq = seq, fr_closing = closing,
                              fr_payload = take useful_payload_len p\<rparr>) opened)"

section \<open>Header encoding\<close>

lemma length_store_be32 [simp]: "length (store_be32 v) = 4"
  by (simp add: store_be32_def)

lemma length_store_be64 [simp]: "length (store_be64 v) = 8"
  by (simp add: store_be64_def)

lemma load_store_be32 [simp]: "load_be32 (store_be32 v @ rest) = v"
  by (simp add: load_be32_def store_be32_def be32_load_store take_bit_word_full)

lemma load_store_be64 [simp]: "load_be64 (store_be64 v @ rest) = v"
  using be_load_store[of 8 v] by (simp add: load_be64_def store_be64_def take_bit_word_full)

lemma length_frame_header [simp]: "length (frame_header f x) = 14"
  by (simp add: frame_header_def)

lemma frame_header_fields [simp]:
  "load_be32 (frame_header f x) = fr_stream_id f"
  "load_be64 (drop 4 (frame_header f x)) = fr_seq f"
  "frame_header f x ! 12 = fr_closing f"
  "frame_header f x ! 13 = x"
  by (simp_all add: frame_header_def nth_append)

lemma frame_header_nonce [simp]:
  "take 12 (frame_header f x) = store_be32 (fr_stream_id f) @ store_be64 (fr_seq f)"
  by (simp add: frame_header_def)

lemma store_load_be64: "length p = 8 \<Longrightarrow> store_be64 (load_be64 p) = p"
  unfolding store_be64_def load_be64_def by (subst be_store_load) auto

lemma store_load_be32: "4 \<le> length p \<Longrightarrow> store_be32 (load_be32 p) = take 4 p"
  unfolding store_be32_def load_be32_def by (rule be32_store_load) auto

lemma header_nonce_load:
  assumes "length h = 14"
  shows "take 12 h = store_be32 (load_be32 h) @ store_be64 (load_be64 (drop 4 h))"
proof -
  have "take 12 h = take 4 h @ take 8 (drop 4 h)" using assms by (simp add: take_add[of 4 8, simplified])
  moreover have "load_be64 (drop 4 h) = load_be64 (take 8 (drop 4 h))" by (simp add: load_be64_def)
  ultimately show ?thesis using assms by (simp add: store_load_be64 store_load_be32)
qed

section \<open>The two directions meet\<close>

text \<open>
  The layout of a well-formed wire frame: an encrypted header over a sealed body of
  \<open>payload_len + extra_len\<close> bytes. \<open>wire_frame\<close> is what the obfuscator produces and all the
  deobfuscator needs.
\<close>

definition body_opens :: "evp \<Rightarrow> obfuscator \<Rightarrow> bytes \<Rightarrow> bytes \<Rightarrow> bytes \<Rightarrow> bool" where
  \<comment> \<open>the body decrypts to a plaintext that starts with the payload\<close>
  "body_opens e ob nonce body payload \<longleftrightarrow>
     (if ob_method ob = CLOAK_AEAD_NONE then take (length payload) body = payload
      else \<exists>p. cloak_aead_open e (ob_method ob) (ob_session_key ob) nonce [] body = Some p
             \<and> length payload \<le> length p \<and> take (length payload) p = payload)"

lemma deobfuscate_wire:
  assumes body: "body_opens e ob (take 12 header) body payload"
    and len: "length header = 14" "length body = length payload + unat (header ! 13)" "8 \<le> length body"
    and min: "tag_len_for_method (ob_method ob) \<le> unat (header ! 13)"
  shows "cloak_frame_deobfuscate e ob
      (cloak_salsa20_xor header (drop (length body - 8) body) (ob_session_key ob) @ body)
    = Some \<lparr>fr_stream_id = load_be32 header, fr_seq = load_be64 (drop 4 header),
            fr_closing = header ! 12, fr_payload = payload\<rparr>"
  using assms
  by (auto simp: cloak_frame_deobfuscate_def frame_consts Let_def body_opens_def
      CLOAK_AEAD_NONCE_LEN_def)

lemma random_pad_len_le:
  assumes "entropy_ok r" "k < 256"
  shows "unat (random_pad_len r k) \<le> k"
proof -
  have "rnd_below r (k + 1) \<le> k" using entropy_ok_below[OF assms(1), of "k + 1"] by simp
  with assms(2) show ?thesis by (simp add: random_pad_len_def unat_of_nat)
qed

lemma tag_len_bounds: "8 \<le> tag_len_for_method m \<and> tag_len_for_method m \<le> 16"
  by (simp add: tag_len_for_method_def frame_consts cloak_aead_overhead_def CLOAK_AEAD_TAG_LEN_def)

lemma obfuscate_extra:
  \<comment> \<open>padding and tag fit the one-byte field\<close>
  assumes "entropy_ok r"
  shows "(if fr_seq f < CLOAK_FRAME_PAD_FIRST_N_FRAMES
          then unat (random_pad_len r (CLOAK_FRAME_MAX_EXTRA_LEN - tag_len_for_method m)) else 0)
         + tag_len_for_method m \<le> 255"
proof -
  have "unat (random_pad_len r (255 - tag_len_for_method m)) \<le> 255 - tag_len_for_method m"
    by (rule random_pad_len_le[OF assms]) simp
  with tag_len_bounds[of m] show ?thesis
    by (auto simp: CLOAK_FRAME_MAX_EXTRA_LEN_def le_diff_conv2)
qed

lemma obfuscate_wire:
  assumes e: "evp_sound e" and r: "entropy_ok r"
    and ob: "cloak_frame_obfuscate e r ob f cap = Some buf"
  obtains extra body where
    "buf = cloak_salsa20_xor (frame_header f (of_nat extra)) (drop (length body - 8) body) (ob_session_key ob) @ body"
    "body_opens e ob (store_be32 (fr_stream_id f) @ store_be64 (fr_seq f)) body (fr_payload f)"
    "length body = length (fr_payload f) + extra" "extra \<le> 255" "tag_len_for_method (ob_method ob) \<le> extra"
    "14 + length body \<le> cap"
proof -
  let ?tag = "tag_len_for_method (ob_method ob)"
  define pad where "pad = (if fr_seq f < CLOAK_FRAME_PAD_FIRST_N_FRAMES
      then unat (random_pad_len r (CLOAK_FRAME_MAX_EXTRA_LEN - ?tag)) else 0)"
  define region where "region = fr_payload f @ rnd_bytes r (pad + ?tag)"
  define sealed where "sealed = (if ob_method ob \<noteq> CLOAK_AEAD_NONE
      then map_option (blit region 0)
             (cloak_aead_seal e (ob_method ob) (ob_session_key ob)
                (store_be32 (fr_stream_id f) @ store_be64 (fr_seq f)) []
                (take (length (fr_payload f) + pad) region))
      else Some region)"
  have le: "pad + ?tag \<le> 255" unfolding pad_def by (rule obfuscate_extra[OF r])
  have len: "length region = length (fr_payload f) + (pad + ?tag)" using r by (simp add: region_def)
  from ob obtain body where body: "sealed = Some body"
    and buf: "buf = cloak_salsa20_xor (frame_header f (of_nat (pad + ?tag)))
          (take 8 (drop (14 + length (fr_payload f) + pad + ?tag - 8) (frame_header f (of_nat (pad + ?tag)) @ body)))
          (ob_session_key ob) @ body"
    and cap: "14 + length (fr_payload f) + pad + ?tag \<le> cap"
    unfolding cloak_frame_obfuscate_def Let_def sealed_def region_def pad_def
    by (auto simp: CLOAK_FRAME_HEADER_LEN_def CLOAK_SALSA20_NONCE_LEN_def CLOAK_AEAD_NONCE_LEN_def
        split: if_splits option.splits)
  have "length body = length region \<and> body_opens e ob (store_be32 (fr_stream_id f) @ store_be64 (fr_seq f)) body (fr_payload f)"
  proof (cases "ob_method ob = CLOAK_AEAD_NONE")
    case True
    then show ?thesis using body by (auto simp: sealed_def body_opens_def region_def)
  next
    case False
    then obtain s where s: "cloak_aead_seal e (ob_method ob) (ob_session_key ob)
        (store_be32 (fr_stream_id f) @ store_be64 (fr_seq f)) []
        (take (length (fr_payload f) + pad) region) = Some s" "body = blit region 0 s"
      using body by (auto simp: sealed_def)
    have "length s = length region"
      using aead_seal_length[OF e s(1)] False len by (simp add: tag_len_for_method_def)
    then have "body = s" using s(2) by (simp add: blit_def)
    then show ?thesis using aead_open_seal[OF e s(1)] False \<open>length s = length region\<close> len
      by (simp add: body_opens_def region_def min_def)
  qed
  then show ?thesis using that[of "pad + ?tag" body] buf cap le len tag_len_bounds[of "ob_method ob"]
    by simp
qed

lemma obfuscate_deobfuscate:
  assumes "evp_sound e" "entropy_ok r" "cloak_frame_obfuscate e r ob f cap = Some buf"
  shows "cloak_frame_deobfuscate e ob buf = Some f"
proof -
  obtain extra body where w:
    "buf = cloak_salsa20_xor (frame_header f (of_nat extra)) (drop (length body - 8) body) (ob_session_key ob) @ body"
    "body_opens e ob (store_be32 (fr_stream_id f) @ store_be64 (fr_seq f)) body (fr_payload f)"
    "length body = length (fr_payload f) + extra" "extra \<le> 255" "tag_len_for_method (ob_method ob) \<le> extra"
    using obfuscate_wire[OF assms] by metis
  have x: "unat (of_nat extra :: byte) = extra" using w(4) by (simp add: unat_of_nat)
  show ?thesis unfolding w(1)
    using deobfuscate_wire[of e ob "frame_header f (of_nat extra)" body "fr_payload f"] w(2-) x
      tag_len_bounds[of "ob_method ob"] by simp
qed

text \<open>
  C30: a frame survives the wire. Whatever \<open>cloak_frame_obfuscate\<close> produces, with any method, key, padding
  draw and buffer, \<open>cloak_frame_deobfuscate\<close> under the same obfuscator turns back into the same
  stream id, sequence number, closing flag and payload.
\<close>

theorem frame_round_trip:
  assumes "evp_sound e" "entropy_ok r" "cloak_frame_obfuscate e r ob f cap = Some buf"
  shows "cloak_frame_deobfuscate e ob buf = Some f"
  by (rule obfuscate_deobfuscate[OF assms])

definition sample_frame :: frame where
  "sample_frame = \<lparr>fr_stream_id = 7, fr_seq = 2, fr_closing = 0, fr_payload = [1, 2, 3]\<rparr>"

definition sample_obfuscator :: "aead_method \<Rightarrow> obfuscator" where
  "sample_obfuscator m = \<lparr>ob_method = m, ob_session_key = replicate 32 9\<rparr>"

lemma sample_obfuscate:
  "\<exists>buf. cloak_frame_obfuscate toy_evp (toy_entropy 5 1) (sample_obfuscator CLOAK_AEAD_AES_256_GCM)
           sample_frame 100 = Some buf"
  by (simp add: cloak_frame_obfuscate_def sample_frame_def sample_obfuscator_def toy_entropy_def
      toy_evp_def tag_len_for_method_def random_pad_len_def frame_consts cloak_aead_overhead_def
      CLOAK_AEAD_TAG_LEN_def cloak_aead_seal_def Let_def unat_of_nat)

theorem frame_round_trip_witness:
  "\<exists>buf. cloak_frame_obfuscate toy_evp (toy_entropy 5 1) (sample_obfuscator CLOAK_AEAD_AES_256_GCM)
           sample_frame 100 = Some buf
       \<and> cloak_frame_deobfuscate toy_evp (sample_obfuscator CLOAK_AEAD_AES_256_GCM) buf = Some sample_frame"
  using sample_obfuscate frame_round_trip[OF toy_evp_sound toy_entropy_ok] by blast

lemma frame_obfuscate_some:
  assumes "evp_sound e" "entropy_ok r" "fr_payload f \<noteq> []" "length (fr_payload f) + 269 \<le> cap"
    and "\<forall>n p. cloak_aead_seal e (ob_method ob) (ob_session_key ob) n [] p \<noteq> None"
  shows "\<exists>buf. cloak_frame_obfuscate e r ob f cap = Some buf
           \<and> length (fr_payload f) + 22 \<le> length buf \<and> length buf \<le> length (fr_payload f) + 269
           \<and> (5 \<le> fr_seq f \<longrightarrow> length buf = 14 + length (fr_payload f) + tag_len_for_method (ob_method ob))"
proof -
  let ?tag = "tag_len_for_method (ob_method ob)"
  define g where "g n p = the (cloak_aead_seal e (ob_method ob) (ob_session_key ob) n [] p)" for n p
  have g: "cloak_aead_seal e (ob_method ob) (ob_session_key ob) n [] p = Some (g n p)" for n p
    using assms(5) by (simp add: g_def)
  define pad where "pad = (if fr_seq f < CLOAK_FRAME_PAD_FIRST_N_FRAMES
      then unat (random_pad_len r (CLOAK_FRAME_MAX_EXTRA_LEN - ?tag)) else 0)"
  have pad: "pad + ?tag \<le> 255" unfolding pad_def by (rule obfuscate_extra[OF assms(2)])
  then have "\<not> cap < 14 + length (fr_payload f) + pad + ?tag" using assms(4) by simp
  then have "cloak_frame_obfuscate e r ob f cap \<noteq> None"
    using assms(3,4) unfolding cloak_frame_obfuscate_def Let_def CLOAK_FRAME_HEADER_LEN_def pad_def[symmetric]
    by (simp add: g)
  then obtain buf where buf: "cloak_frame_obfuscate e r ob f cap = Some buf" by blast
  moreover have "length buf = 14 + length (fr_payload f) + ?tag" if "5 \<le> fr_seq f"
  proof -
    have 0: "pad = 0" using that by (simp add: pad_def CLOAK_FRAME_PAD_FIRST_N_FRAMES_def not_less[symmetric])
    have gl: "length (g n p) = length p + cloak_aead_overhead (ob_method ob)" for n p
      using aead_seal_length[OF assms(1) g] .
    show ?thesis using buf assms(2)
      unfolding cloak_frame_obfuscate_def Let_def pad_def[symmetric] 0
      by (auto simp: g gl CLOAK_FRAME_HEADER_LEN_def tag_len_for_method_def blit_def split: if_splits)
  qed
  moreover obtain extra body where
    "buf = cloak_salsa20_xor (frame_header f (of_nat extra)) (drop (length body - 8) body) (ob_session_key ob) @ body"
    "length body = length (fr_payload f) + extra" "extra \<le> 255" "?tag \<le> extra"
    using obfuscate_wire[OF assms(1,2) buf] by metis
  ultimately show ?thesis using buf tag_len_bounds[of "ob_method ob"] by simp
qed

text \<open>
  \<open>cloak_frame_obfuscate\<close> succeeds on every non-empty payload as soon as the buffer holds the payload
  and the largest overhead (header and 255 bytes) and the cipher does not fail; the wire frame
  is longer than the payload by at least 22 and at most 269 bytes, and by exactly the header and
  the tag from the sixth frame of a stream on.
\<close>

theorem frame_obfuscate_total:
  assumes "evp_sound e" "entropy_ok r" "fr_payload f \<noteq> []" "length (fr_payload f) + 269 \<le> cap"
    and "\<forall>n p. cloak_aead_seal e (ob_method ob) (ob_session_key ob) n [] p \<noteq> None"
  shows "\<exists>buf. cloak_frame_obfuscate e r ob f cap = Some buf
           \<and> length (fr_payload f) + 22 \<le> length buf \<and> length buf \<le> length (fr_payload f) + 269
           \<and> (5 \<le> fr_seq f \<longrightarrow> length buf = 14 + length (fr_payload f) + tag_len_for_method (ob_method ob))"
  by (rule frame_obfuscate_some[OF assms])

theorem frame_obfuscate_total_witness:
  "\<exists>buf. cloak_frame_obfuscate toy_evp (toy_entropy 5 1) (sample_obfuscator CLOAK_AEAD_AES_256_GCM)
           sample_frame 272 = Some buf \<and> length buf \<le> 272"
  using frame_obfuscate_total[OF toy_evp_sound toy_entropy_ok, of sample_frame 272
      "sample_obfuscator CLOAK_AEAD_AES_256_GCM" 5 1]
  by (auto simp: sample_frame_def sample_obfuscator_def cloak_aead_seal_def toy_evp_def Let_def)

text \<open>
  C31: an accepted frame was authenticated. Under an AEAD method the body opened with the frame's own
  stream id and sequence number as the nonce, and the delivered payload is a prefix of the opened
  plaintext, so neither those two fields nor the payload bytes can be altered on the wire without
  the cipher accepting the alteration.
\<close>

theorem frame_deobfuscate_authenticated:
  assumes "cloak_frame_deobfuscate e ob buf = Some f" "ob_method ob \<noteq> CLOAK_AEAD_NONE"
  shows "\<exists>p. cloak_aead_open e (ob_method ob) (ob_session_key ob)
               (store_be32 (fr_stream_id f) @ store_be64 (fr_seq f)) [] (drop 14 buf) = Some p
           \<and> fr_payload f = take (length (fr_payload f)) p
           \<and> 22 \<le> length buf \<and> length (fr_payload f) + 14 + tag_len_for_method (ob_method ob) \<le> length buf"
proof -
  let ?h = "cloak_salsa20_xor (take 14 buf) (drop (length buf - 8) buf) (ob_session_key ob)"
  have len: "length ?h = 14"
    using assms(1) by (auto simp: cloak_frame_deobfuscate_def frame_consts Let_def split: if_splits)
  then have "take 12 ?h = store_be32 (load_be32 ?h) @ store_be64 (load_be64 (drop 4 ?h))"
    by (simp add: header_nonce_load)
  then show ?thesis using assms
    by (auto simp: cloak_frame_deobfuscate_def frame_consts Let_def CLOAK_AEAD_NONCE_LEN_def not_less
        split: if_splits option.splits)
qed

theorem frame_deobfuscate_authenticated_witness:
  "\<exists>buf. cloak_frame_deobfuscate toy_evp (sample_obfuscator CLOAK_AEAD_AES_256_GCM) buf = Some sample_frame
       \<and> cloak_aead_open toy_evp CLOAK_AEAD_AES_256_GCM (replicate 32 9)
               (store_be32 7 @ store_be64 2) [] (drop 14 buf) \<noteq> None"
proof -
  obtain buf where buf: "cloak_frame_deobfuscate toy_evp (sample_obfuscator CLOAK_AEAD_AES_256_GCM) buf = Some sample_frame"
    using sample_obfuscate obfuscate_deobfuscate[OF toy_evp_sound toy_entropy_ok] by blast
  moreover have "cloak_aead_open toy_evp CLOAK_AEAD_AES_256_GCM (replicate 32 9)
               (store_be32 7 @ store_be64 2) [] (drop 14 buf) \<noteq> None"
    using frame_deobfuscate_authenticated[OF buf]
    by (auto simp: sample_obfuscator_def sample_frame_def)
  ultimately show ?thesis by blast
qed

text \<open>The deobfuscator reads the header bytes through the Salsa20 layer only.\<close>

definition deobfuscate_body :: "evp \<Rightarrow> obfuscator \<Rightarrow> bytes \<Rightarrow> bytes \<Rightarrow> frame option" where
  "deobfuscate_body e ob h body =
     (let x = unat (h ! 13) in
      if x < tag_len_for_method (ob_method ob) \<or> x > length body then None
      else map_option (\<lambda>p. \<lparr>fr_stream_id = load_be32 h, fr_seq = load_be64 (drop 4 h), fr_closing = h ! 12,
                            fr_payload = take (length body - x) p\<rparr>)
             (if ob_method ob \<noteq> CLOAK_AEAD_NONE
              then case cloak_aead_open e (ob_method ob) (ob_session_key ob) (take 12 h) [] body of
                     None \<Rightarrow> None
                   | Some p \<Rightarrow> if length body - x > length p then None else Some p
              else Some body))"

lemma deobfuscate_via_body:
  "cloak_frame_deobfuscate e ob buf =
     (if length buf < 22 then None
      else deobfuscate_body e ob
             (cloak_salsa20_xor (take 14 buf) (drop (length buf - 8) buf) (ob_session_key ob)) (drop 14 buf))"
  unfolding cloak_frame_deobfuscate_def deobfuscate_body_def Let_def frame_consts CLOAK_AEAD_NONCE_LEN_def
  by (simp split: option.split)

lemma deobfuscate_flip:
  assumes "22 \<le> length buf" "i < 14"
    and h: "h = cloak_salsa20_xor (take 14 buf) (drop (length buf - 8) buf) (ob_session_key ob)"
  shows "cloak_frame_deobfuscate e ob (buf[i := buf ! i XOR m])
       = deobfuscate_body e ob (h[i := h ! i XOR m]) (drop 14 buf)"
proof -
  have "take 14 (buf[i := buf ! i XOR m]) = (take 14 buf)[i := take 14 buf ! i XOR m]"
    using assms(2) by (simp add: take_update_swap)
  then have "cloak_salsa20_xor (take 14 (buf[i := buf ! i XOR m])) (drop (length buf - 8) buf) (ob_session_key ob)
      = h[i := h ! i XOR m]"
    by (simp only: salsa20_xor_update h)
  then show ?thesis using assms(1,2) by (simp add: deobfuscate_via_body)
qed

lemma header_fields_update:
  assumes "12 \<le> i"
  shows "load_be32 (h[i := x]) = load_be32 h" "load_be64 (drop 4 (h[i := x])) = load_be64 (drop 4 h)"
    "take 12 (h[i := x]) = take 12 h"
  using assms by (auto simp: load_be32_def load_be64_def be32_load_def nth_list_update drop_update_swap)

lemma deobfuscate_body_closing:
  assumes "length h = 14"
  shows "deobfuscate_body e ob (h[12 := h ! 12 XOR m]) body
     = map_option (fr_closing_update (\<lambda>c. c XOR m)) (deobfuscate_body e ob h body)"
proof -
  have "h[12 := h ! 12 XOR m] ! 12 = h ! 12 XOR m" "h[12 := h ! 12 XOR m] ! 13 = h ! 13"
    using assms by simp_all
  then show ?thesis
    by (simp add: deobfuscate_body_def Let_def header_fields_update option.map_comp o_def)
qed

lemma deobfuscate_body_extra:
  assumes "deobfuscate_body e ob h body = Some f" "deobfuscate_body e ob (h[13 := x]) body = Some f'"
  shows "fr_stream_id f' = fr_stream_id f \<and> fr_seq f' = fr_seq f \<and> fr_closing f' = fr_closing f
     \<and> (\<exists>p j k. fr_payload f = take j p \<and> fr_payload f' = take k p)"
proof -
  have "h[13 := x] ! 12 = h ! 12" by simp
  then show ?thesis using assms
    by (auto simp: deobfuscate_body_def Let_def header_fields_update split: if_splits option.splits) blast+
qed

lemma takes_of_same:
  "u = take j p \<Longrightarrow> v = take k p \<Longrightarrow> v = take (length v) u \<or> u = take (length u) v"
  by (cases "j \<le> k") (auto simp: min_def)

text \<open>
  The last two header bytes are malleable, as the comment in \<open>cloak_frame_obfuscate\<close> says. Flipping
  bits of wire byte 12 flips the same bits of the delivered closing flag and changes nothing else;
  flipping bits of wire byte 13 can only lengthen or shorten the delivered payload by a suffix.
\<close>

theorem frame_header_malleable:
  "cloak_frame_deobfuscate e ob (buf[12 := buf ! 12 XOR m])
     = map_option (fr_closing_update (\<lambda>c. c XOR m)) (cloak_frame_deobfuscate e ob buf)
   \<and> (\<forall>f f'. cloak_frame_deobfuscate e ob buf = Some f \<longrightarrow>
        cloak_frame_deobfuscate e ob (buf[13 := buf ! 13 XOR m]) = Some f' \<longrightarrow>
        fr_stream_id f' = fr_stream_id f \<and> fr_seq f' = fr_seq f \<and> fr_closing f' = fr_closing f
        \<and> (fr_payload f' = take (length (fr_payload f')) (fr_payload f)
           \<or> fr_payload f = take (length (fr_payload f)) (fr_payload f')))"
proof (cases "length buf < 22")
  case True
  then show ?thesis by (simp add: deobfuscate_via_body)
next
  case False
  define h where "h = cloak_salsa20_xor (take 14 buf) (drop (length buf - 8) buf) (ob_session_key ob)"
  have len: "length h = 14" using False by (simp add: h_def)
  have eq: "cloak_frame_deobfuscate e ob buf = deobfuscate_body e ob h (drop 14 buf)"
    using False by (simp add: deobfuscate_via_body h_def)
  have flip: "cloak_frame_deobfuscate e ob (buf[i := buf ! i XOR m])
       = deobfuscate_body e ob (h[i := h ! i XOR m]) (drop 14 buf)" if "i < 14" for i
    using False that by (intro deobfuscate_flip) (auto simp: h_def)
  show ?thesis
    unfolding eq flip[of 12, simplified] flip[of 13, simplified] deobfuscate_body_closing[OF len]
    using deobfuscate_body_extra takes_of_same by blast
qed

theorem frame_header_malleable_witness:
  "\<exists>buf. cloak_frame_deobfuscate toy_evp (sample_obfuscator CLOAK_AEAD_AES_256_GCM) buf = Some sample_frame
       \<and> cloak_frame_deobfuscate toy_evp (sample_obfuscator CLOAK_AEAD_AES_256_GCM) (buf[12 := buf ! 12 XOR 2])
         = Some (sample_frame\<lparr>fr_closing := CLOAK_FRAME_CLOSING_SESSION\<rparr>)"
proof -
  obtain buf where buf: "cloak_frame_deobfuscate toy_evp (sample_obfuscator CLOAK_AEAD_AES_256_GCM) buf = Some sample_frame"
    using sample_obfuscate obfuscate_deobfuscate[OF toy_evp_sound toy_entropy_ok] by blast
  then show ?thesis
    using frame_header_malleable[of toy_evp "sample_obfuscator CLOAK_AEAD_AES_256_GCM" buf 2]
    by (intro exI[of _ buf]) (simp add: sample_frame_def CLOAK_FRAME_CLOSING_SESSION_def)
qed

end
