(* ===== verification/BinHeap.thy ===== *)
theory BinHeap
  imports CloakPrelude "HOL-Library.Multiset"
begin

text \<open>
  The implicit binary min-heap that two source files write out by hand: the pending-frame heap of
  \<open>libcloak-mux/src/stream.c\<close> and the timer heap of \<open>libcloak-common/src/reactor.c\<close>. The two sift loops
  are modelled once, over a key; the component theories instantiate the key and add what is
  particular to them. The interface they rely on is the locale \<open>min_queue\<close>.
\<close>

section \<open>Operations\<close>

definition swap_at :: "'a list \<Rightarrow> nat \<Rightarrow> nat \<Rightarrow> 'a list" where
  "swap_at xs i j = xs[i := xs ! j, j := xs ! i]"

definition parent :: "nat \<Rightarrow> nat" where
  "parent i = (i - 1) div 2"

function sift_up :: "('a \<Rightarrow> 'k::linorder) \<Rightarrow> 'a list \<Rightarrow> nat \<Rightarrow> 'a list" where
  "sift_up key xs i =
     (if i = 0 then xs
      else if key (xs ! parent i) \<le> key (xs ! i) then xs
      else sift_up key (swap_at xs (parent i) i) (parent i))"
  by pat_completeness auto

termination by (relation "measure (\<lambda>(_, _, i). i)") (auto simp: parent_def)

definition smallest_child :: "('a \<Rightarrow> 'k::linorder) \<Rightarrow> 'a list \<Rightarrow> nat \<Rightarrow> nat" where
  "smallest_child key xs i =
     (let left = 2 * i + 1; right = 2 * i + 2;
          s = (if left < length xs \<and> key (xs ! left) < key (xs ! i) then left else i)
      in if right < length xs \<and> key (xs ! right) < key (xs ! s) then right else s)"

lemma smallest_child_cases:
  "smallest_child key xs i = i \<or>
   (i < smallest_child key xs i \<and> smallest_child key xs i < length xs \<and> 0 < smallest_child key xs i
    \<and> parent (smallest_child key xs i) = i)"
  by (auto simp: smallest_child_def Let_def parent_def)

lemma length_swap_at [simp]: "length (swap_at xs i j) = length xs"
  by (simp add: swap_at_def)

function sift_down :: "('a \<Rightarrow> 'k::linorder) \<Rightarrow> 'a list \<Rightarrow> nat \<Rightarrow> 'a list" where
  "sift_down key xs i =
     (let s = smallest_child key xs i in
      if s = i then xs else sift_down key (swap_at xs i s) s)"
  by pat_completeness auto

termination
proof (relation "measure (\<lambda>(_, xs, i). length xs - i)")
  fix key :: "'a \<Rightarrow> 'k::linorder" and xs and i s :: nat
  assume "s = smallest_child key xs i" "s \<noteq> i"
  then show "((key, swap_at xs i s, s), key, xs, i) \<in> measure (\<lambda>(_, xs, i). length xs - i)"
    using smallest_child_cases[of key xs i] by auto
qed simp

declare sift_up.simps [simp del] sift_down.simps [simp del]

definition bin_push :: "('a \<Rightarrow> 'k::linorder) \<Rightarrow> 'a \<Rightarrow> 'a list \<Rightarrow> 'a list" where
  "bin_push key x xs = sift_up key (xs @ [x]) (length xs)"

definition bin_pop :: "('a \<Rightarrow> 'k::linorder) \<Rightarrow> 'a list \<Rightarrow> 'a \<times> 'a list" where
  "bin_pop key xs =
     (xs ! 0,
      let ys = butlast xs in
      if ys = [] then ys else sift_down key (ys[0 := last xs]) 0)"

section \<open>Heap order\<close>

definition heap_ok :: "('a \<Rightarrow> 'k::linorder) \<Rightarrow> 'a list \<Rightarrow> bool" where
  "heap_ok key xs \<longleftrightarrow> (\<forall>j. 0 < j \<longrightarrow> j < length xs \<longrightarrow> key (xs ! parent j) \<le> key (xs ! j))"

text \<open>Heap order except between \<open>i\<close> and its parent, and except between \<open>i\<close> and its children.\<close>

definition heap_up :: "('a \<Rightarrow> 'k::linorder) \<Rightarrow> 'a list \<Rightarrow> nat \<Rightarrow> bool" where
  "heap_up key xs i \<longleftrightarrow> (\<forall>j. 0 < j \<longrightarrow> j < length xs \<longrightarrow>
     (j \<noteq> i \<longrightarrow> key (xs ! parent j) \<le> key (xs ! j)) \<and>
     (parent j = i \<longrightarrow> 0 < i \<longrightarrow> key (xs ! parent i) \<le> key (xs ! j)))"

definition heap_down :: "('a \<Rightarrow> 'k::linorder) \<Rightarrow> 'a list \<Rightarrow> nat \<Rightarrow> bool" where
  "heap_down key xs i \<longleftrightarrow> (\<forall>j. 0 < j \<longrightarrow> j < length xs \<longrightarrow>
     (parent j \<noteq> i \<longrightarrow> key (xs ! parent j) \<le> key (xs ! j)) \<and>
     (parent j = i \<longrightarrow> 0 < i \<longrightarrow> key (xs ! parent i) \<le> key (xs ! j)))"

lemma parent_less: "0 < i \<Longrightarrow> parent i < i"
  by (simp add: parent_def)

lemma swap_at_nth:
  "i < length xs \<Longrightarrow> j < length xs \<Longrightarrow> k < length xs \<Longrightarrow>
     swap_at xs i j ! k = (if k = j then xs ! i else if k = i then xs ! j else xs ! k)"
  by (simp add: swap_at_def nth_list_update)

lemma mset_swap_at [simp]: "i < length xs \<Longrightarrow> j < length xs \<Longrightarrow> mset (swap_at xs i j) = mset xs"
  unfolding swap_at_def by (rule mset_swap)

lemma mset_sift_up: "i < length xs \<Longrightarrow> mset (sift_up key xs i) = mset xs"
proof (induction key xs i rule: sift_up.induct)
  case (1 key xs i)
  show ?case
  proof (cases "i = 0 \<or> key (xs ! parent i) \<le> key (xs ! i)")
    case True
    then show ?thesis by (auto simp: sift_up.simps[of key xs i])
  next
    case False
    then have "parent i < i" by (simp add: parent_less)
    with 1 False show ?thesis by (simp add: sift_up.simps[of key xs i])
  qed
qed

lemma heap_up_swap:
  assumes "heap_up key xs i" "0 < i" "i < length xs" "\<not> key (xs ! parent i) \<le> key (xs ! i)"
  shows "heap_up key (swap_at xs (parent i) i) (parent i)"
  unfolding heap_up_def
proof (intro allI impI)
  fix j assume j: "0 < j" "j < length (swap_at xs (parent i) i)"
  have pi: "parent i < i" and pj: "parent j < j" using assms(2) j by (simp_all add: parent_less)
  have H: "j \<noteq> i \<longrightarrow> key (xs ! parent j) \<le> key (xs ! j)"
    "parent j = i \<longrightarrow> key (xs ! parent i) \<le> key (xs ! j)"
    using assms(1,2) j by (auto simp: heap_up_def)
  have P: "0 < parent i \<longrightarrow> key (xs ! parent (parent i)) \<le> key (xs ! parent i)"
    using assms(1,3) pi by (auto simp: heap_up_def)
  have nth: "swap_at xs (parent i) i ! k = (if k = i then xs ! parent i else if k = parent i then xs ! i else xs ! k)"
    if "k < length xs" for k
    using that assms(3) pi by (simp add: swap_at_nth)
  have lt: "parent j < length xs" "j < length xs" "parent (parent i) < length xs" "parent i < length xs"
    using j pj pi assms(3) parent_less[of "parent i"] by (auto simp: parent_def)
  show "(j \<noteq> parent i \<longrightarrow> key (swap_at xs (parent i) i ! parent j) \<le> key (swap_at xs (parent i) i ! j)) \<and>
        (parent j = parent i \<longrightarrow> 0 < parent i \<longrightarrow>
           key (swap_at xs (parent i) i ! parent (parent i)) \<le> key (swap_at xs (parent i) i ! j))"
    using H P assms(4) pi pj parent_less[of "parent i"] lt
    by (auto simp: nth intro: order_trans less_imp_le)
qed

lemma heap_up_stop:
  "heap_up key xs i \<Longrightarrow> i = 0 \<or> key (xs ! parent i) \<le> key (xs ! i) \<Longrightarrow> heap_ok key xs"
  unfolding heap_up_def heap_ok_def by (metis less_numeral_extra(3))

lemma heap_ok_sift_up:
  "heap_up key xs i \<Longrightarrow> i < length xs \<Longrightarrow> heap_ok key (sift_up key xs i)"
proof (induction key xs i rule: sift_up.induct)
  case (1 key xs i)
  show ?case
  proof (cases "i = 0 \<or> key (xs ! parent i) \<le> key (xs ! i)")
    case True
    then show ?thesis using heap_up_stop[OF 1(2) True] by (auto simp: sift_up.simps[of key xs i])
  next
    case False
    then have "parent i < i" by (simp add: parent_less)
    then show ?thesis using 1 False heap_up_swap[OF 1(2)]
      by (simp add: sift_up.simps[of key xs i])
  qed
qed

lemma mset_sift_down: "mset (sift_down key xs i) = mset xs"
proof (induction key xs i rule: sift_down.induct)
  case (1 key xs i)
  show ?case
  proof (cases "smallest_child key xs i = i")
    case False
    with smallest_child_cases[of key xs i] have "i < length xs" "smallest_child key xs i < length xs" by auto
    with 1 False show ?thesis by (simp add: sift_down.simps[of key xs i] Let_def)
  qed (simp add: sift_down.simps Let_def)
qed

lemma length_sift_down [simp]: "length (sift_down key xs i) = length xs"
  using mset_sift_down by (metis size_mset)

lemma child_cases: "0 < j \<Longrightarrow> parent j = i \<Longrightarrow> j = 2 * i + 1 \<or> j = 2 * i + 2"
  by (auto simp: parent_def)

lemma smallest_child_le:
  assumes "0 < j" "j < length xs" "parent j = i"
  shows "key (xs ! smallest_child key xs i) \<le> key (xs ! j)"
    "smallest_child key xs i \<noteq> i \<Longrightarrow> key (xs ! smallest_child key xs i) < key (xs ! i)"
  using child_cases[OF assms(1,3)] assms(2)
  by (auto simp: smallest_child_def Let_def split: if_splits)

lemma heap_down_stop: "heap_down key xs i \<Longrightarrow> smallest_child key xs i = i \<Longrightarrow> heap_ok key xs"
  unfolding heap_down_def heap_ok_def by (metis smallest_child_le(1))

lemma heap_down_swap:
  assumes "heap_down key xs i" "smallest_child key xs i = s" "s \<noteq> i"
  shows "heap_down key (swap_at xs i s) s"
  unfolding heap_down_def
proof (intro allI impI)
  have s: "i < s" "s < length xs" "parent s = i" "0 < s" using smallest_child_cases[of key xs i] assms by auto
  have lt: "key (xs ! s) < key (xs ! i)"
    using smallest_child_le(2)[OF s(4,2,3), of key] assms(2,3) by simp
  fix j assume j: "0 < j" "j < length (swap_at xs i s)"
  have pj: "parent j < j" using j by (simp add: parent_less)
  have nth: "swap_at xs i s ! k = (if k = s then xs ! i else if k = i then xs ! s else xs ! k)"
    if "k < length xs" for k
    using that s by (simp add: swap_at_nth)
  have lts: "parent j < length xs" "j < length xs" using j pj by auto
  have H: "parent j \<noteq> i \<longrightarrow> key (xs ! parent j) \<le> key (xs ! j)"
    "parent j = i \<longrightarrow> 0 < i \<longrightarrow> key (xs ! parent i) \<le> key (xs ! j)"
    using assms(1) j by (auto simp: heap_down_def)
  have up: "0 < i \<longrightarrow> key (xs ! parent i) \<le> key (xs ! s)"
    using assms(1) s by (auto simp: heap_down_def)
  have c: "parent j = i \<longrightarrow> key (xs ! s) \<le> key (xs ! j)"
    using smallest_child_le(1)[of j xs i key] j assms(2) by auto
  show "(parent j \<noteq> s \<longrightarrow> key (swap_at xs i s ! parent j) \<le> key (swap_at xs i s ! j)) \<and>
        (parent j = s \<longrightarrow> 0 < s \<longrightarrow> key (swap_at xs i s ! parent s) \<le> key (swap_at xs i s ! j))"
    using H up c lt s pj lts by (auto simp: nth intro: order_trans less_imp_le)
qed

lemma heap_ok_sift_down: "heap_down key xs i \<Longrightarrow> heap_ok key (sift_down key xs i)"
proof (induction key xs i rule: sift_down.induct)
  case (1 key xs i)
  show ?case
  proof (cases "smallest_child key xs i = i")
    case True
    then show ?thesis using heap_down_stop[OF 1(2)] by (simp add: sift_down.simps[of key xs i] Let_def)
  next
    case False
    then show ?thesis using 1(1)[OF refl False] heap_down_swap[OF 1(2) refl False]
      by (simp add: sift_down.simps[of key xs i] Let_def)
  qed
qed

lemma heap_ok_root: "heap_ok key xs \<Longrightarrow> j < length xs \<Longrightarrow> key (xs ! 0) \<le> key (xs ! j)"
proof (induction j rule: less_induct)
  case (less j)
  show ?case
  proof (cases "j = 0")
    case False
    then have "key (xs ! 0) \<le> key (xs ! parent j)" "key (xs ! parent j) \<le> key (xs ! j)"
      using less parent_less[of j] by (auto simp: heap_ok_def)
    then show ?thesis by (rule order_trans)
  qed simp
qed

section \<open>The interface\<close>

text \<open>
  What a client of a min-queue relies on: the abstraction is a multiset, pushing adds one element,
  and popping removes the element it returns, which has the least key.
\<close>

locale min_queue =
  fixes key :: "'a \<Rightarrow> 'k::linorder"
    and push :: "'a \<Rightarrow> 'q \<Rightarrow> 'q"
    and pop :: "'q \<Rightarrow> 'a \<times> 'q"
    and top :: "'q \<Rightarrow> 'a"
    and elems :: "'q \<Rightarrow> 'a multiset"
    and ok :: "'q \<Rightarrow> bool"
  assumes push_ok: "ok q \<Longrightarrow> ok (push x q)"
    and push_elems: "ok q \<Longrightarrow> elems (push x q) = add_mset x (elems q)"
    and pop_ok: "ok q \<Longrightarrow> elems q \<noteq> {#} \<Longrightarrow> ok (snd (pop q))"
    and pop_elems: "ok q \<Longrightarrow> elems q \<noteq> {#} \<Longrightarrow> elems q = add_mset (top q) (elems (snd (pop q)))"
    and pop_top: "fst (pop q) = top q"
    and top_least: "ok q \<Longrightarrow> x \<in># elems q \<Longrightarrow> key (top q) \<le> key x"
begin

lemma top_mem: "ok q \<Longrightarrow> elems q \<noteq> {#} \<Longrightarrow> top q \<in># elems q"
  using pop_elems by fastforce

lemma top_unique:
  \<comment> \<open>with distinct keys the top is determined by the contents alone\<close>
  assumes "ok q" "x \<in># elems q" "inj_on key (set_mset (elems q))" "\<And>y. y \<in># elems q \<Longrightarrow> key x \<le> key y"
  shows "top q = x"
proof -
  have "top q \<in># elems q" using assms(1,2) top_mem by force
  with assms top_least[OF assms(1,2)] show ?thesis by (meson inj_onD order_antisym)
qed

fun drain :: "nat \<Rightarrow> 'q \<Rightarrow> 'a list" where
  "drain 0 q = []"
| "drain (Suc n) q = (let (x, q') = pop q in x # drain n q')"

lemma drain_sorts:
  "ok q \<Longrightarrow> size (elems q) = n \<Longrightarrow> sorted (map key (drain n q)) \<and> mset (drain n q) = elems q"
proof (induct n arbitrary: q)
  case (Suc n)
  then have ne: "elems q \<noteq> {#}" by auto
  obtain x q' where p: "pop q = (x, q')" by (cases "pop q")
  have x: "x = top q" using pop_top[of q] p by simp
  have e: "elems q = add_mset x (elems q')" and ok: "ok q'"
    using pop_elems[OF Suc.prems(1) ne] pop_ok[OF Suc.prems(1) ne] p x by auto
  have IH: "sorted (map key (drain n q')) \<and> mset (drain n q') = elems q'"
    using Suc.prems(2) e by (intro Suc.hyps[OF ok]) simp
  have "key x \<le> key y" if "y \<in> set (drain n q')" for y
    using that IH e x top_least[OF Suc.prems(1), of y] by (metis insert_iff set_mset_add_mset_insert set_mset_mset)
  then show ?case using IH e p by auto
qed simp

end

lemma bin_push_mset [simp]: "mset (bin_push key x xs) = add_mset x (mset xs)"
  unfolding bin_push_def by (subst mset_sift_up) auto

lemma bin_push_ok: "heap_ok key xs \<Longrightarrow> heap_ok key (bin_push key x xs)"
  unfolding bin_push_def
proof (rule heap_ok_sift_up)
  assume "heap_ok key xs"
  then show "heap_up key (xs @ [x]) (length xs)"
    using parent_less by (auto simp: heap_ok_def heap_up_def nth_append parent_def)
qed simp

lemma bin_pop_elems:
  assumes "xs \<noteq> []"
  shows "mset xs = add_mset (xs ! 0) (mset (snd (bin_pop key xs)))"
proof (cases "butlast xs = []")
  case True
  with assms obtain x where "xs = [x]" by (metis append_butlast_last_id append_Nil)
  then show ?thesis by (simp add: bin_pop_def)
next
  case False
  then obtain a ys where b: "butlast xs = a # ys" by (cases "butlast xs") auto
  have xs: "xs = a # ys @ [last xs]" using append_butlast_last_id[OF assms] b by simp
  have "xs ! 0 = a" by (subst xs) simp
  then show ?thesis using b by (subst xs) (simp add: bin_pop_def Let_def mset_sift_down)
qed

lemma bin_pop_ok:
  assumes "heap_ok key xs" "xs \<noteq> []"
  shows "heap_ok key (snd (bin_pop key xs))"
proof (cases "butlast xs = []")
  case False
  have "heap_down key ((butlast xs)[0 := last xs]) 0"
    unfolding heap_down_def
  proof (intro allI impI conjI)
    fix j assume j: "0 < j" "j < length ((butlast xs)[0 := last xs])" "parent j \<noteq> 0"
    then have "parent j < length (butlast xs)" "j < length (butlast xs)" using parent_less[of j] by auto
    then show "key ((butlast xs)[0 := last xs] ! parent j) \<le> key ((butlast xs)[0 := last xs] ! j)"
      using assms(1) j by (simp add: heap_ok_def nth_butlast)
  qed simp
  then show ?thesis using False heap_ok_sift_down by (simp add: bin_pop_def Let_def)
qed (simp add: bin_pop_def heap_ok_def)

interpretation heapq: min_queue key "bin_push key" "bin_pop key" "\<lambda>xs. xs ! 0" mset "heap_ok key"
  for key :: "'a \<Rightarrow> 'k::linorder"
proof unfold_locales
  show "heap_ok key q \<Longrightarrow> x \<in># mset q \<Longrightarrow> key (q ! 0) \<le> key x" for q x
    by (metis heap_ok_root in_set_conv_nth set_mset_mset)
  show "fst (bin_pop key q) = q ! 0" for q by (simp add: bin_pop_def)
qed (auto simp: bin_push_ok bin_pop_ok bin_pop_elems)

end
