(* ===== verification/MuxStream.thy ===== *)
theory MuxStream
  imports BinHeap Bytequeue Msgqueue Frame
begin

text \<open>
  \<open>libcloak-mux/src/stream.c\<close>: one multiplexed stream. The send side cuts application bytes into
  frames and passes them to a sink; the receive side either reassembles frames by sequence number
  through a bounded min-heap (ordered mode) or queues whole datagrams (unordered mode).

  The live part of the \<open>heap\<close> array is a list; \<open>heap_cap\<close> is kept because it decides when the code
  reallocates. \<open>malloc\<close> and the success of \<open>realloc\<close> are the record \<open>heap_mem\<close>. The sink is a function
  on the sink's own state, and the entropy of one obfuscation is indexed by the
  sequence number of the frame it belongs to, so that every sequence of draws is covered.
\<close>

datatype ordering =
    CLOAK_SESSION_ORDERING_INVALID
  | CLOAK_SESSION_ORDERING_ORDERED
  | CLOAK_SESSION_ORDERING_UNORDERED
  | ORDERING_OTHER nat

definition CLOAK_SESSION_ERR_INVALID_ORDERING :: int where "CLOAK_SESSION_ERR_INVALID_ORDERING = -2"
definition CLOAK_STREAM_ERR_SHORT_BUFFER :: int where "CLOAK_STREAM_ERR_SHORT_BUFFER = -2"

record pending_frame =
  pf_seq :: u64
  pf_closing :: byte
  pf_payload :: bytes

record stream =
  st_id :: u32
  st_ordering :: ordering
  st_obfuscator :: obfuscator
  st_max_payload :: nat
  st_write_buf_cap :: nat
  st_next_write_seq :: u64
  st_write_closed :: bool
  st_recv_bytes :: bytequeue
  st_next_recv_seq :: u64
  st_heap :: "pending_frame list"
  st_heap_cap :: nat
  st_max_pending :: nat
  st_recv_msgs :: msgqueue
  st_dropped :: u64
  st_closing_seen :: bool

record heap_mem =
  mem_malloc :: "nat \<Rightarrow> bytes option"
  mem_realloc :: "nat \<Rightarrow> bool"

section \<open>The pending-frame heap\<close>

definition heap_grow :: "heap_mem \<Rightarrow> stream \<Rightarrow> int \<times> stream" where
  "heap_grow mem s =
     (let new_cap0 = (if st_heap_cap s = 0 then 8 else st_heap_cap s * 2);
          new_cap = (if new_cap0 > st_max_pending s then st_max_pending s else new_cap0)
      in if \<not> mem_realloc mem new_cap then (-1, s) else (0, s\<lparr>st_heap_cap := new_cap\<rparr>))"

definition heap_push :: "heap_mem \<Rightarrow> stream \<Rightarrow> pending_frame \<Rightarrow> int \<times> stream" where
  "heap_push mem s pf =
     (if length (st_heap s) \<ge> st_max_pending s then (-1, s)
      else case (if length (st_heap s) = st_heap_cap s then heap_grow mem s else (0, s)) of
        (rc, s1) \<Rightarrow>
          if rc \<noteq> 0 then (-1, s1)
          else (0, s1\<lparr>st_heap := bin_push pf_seq pf (st_heap s1)\<rparr>))"

definition heap_pop :: "stream \<Rightarrow> pending_frame \<times> stream" where
  "heap_pop s = (case bin_pop pf_seq (st_heap s) of (pf, h) \<Rightarrow> (pf, s\<lparr>st_heap := h\<rparr>))"

definition heap_contains_seq :: "stream \<Rightarrow> u64 \<Rightarrow> bool" where
  "heap_contains_seq s seq = list_ex (\<lambda>pf. pf_seq pf = seq) (st_heap s)"

section \<open>Receiving\<close>

lemma bin_pop_length: "xs \<noteq> [] \<Longrightarrow> length (snd (bin_pop key xs)) < length xs"
  using bin_pop_elems[of xs key] by (metis lessI size_add_mset size_mset)

function try_drain :: "stream \<Rightarrow> int \<times> stream" where
  "try_drain s =
     (if st_heap s \<noteq> [] \<and> pf_seq (st_heap s ! 0) = st_next_recv_seq s then
        if pf_closing (st_heap s ! 0) \<noteq> CLOAK_FRAME_CLOSING_NOTHING then
          (let s1 = snd (heap_pop s) in
           (1, s1\<lparr>st_closing_seen := True, st_recv_bytes := cloak_bytequeue_close (st_recv_bytes s1)\<rparr>))
        else
          let payload_len = length (pf_payload (st_heap s ! 0)) in
          if cloak_bytequeue_free_space (st_recv_bytes s) < payload_len then (0, s)
          else
            let (pf, s1) = heap_pop s;
                q = (if length (pf_payload pf) > 0
                     then snd (cloak_bytequeue_write (st_recv_bytes s1) (pf_payload pf))
                     else st_recv_bytes s1)
            in try_drain (s1\<lparr>st_recv_bytes := q, st_next_recv_seq := st_next_recv_seq s1 + 1\<rparr>)
      else (0, s))"
  by pat_completeness auto

termination
  by (relation "measure (\<lambda>s. length (st_heap s))")
    (auto simp: heap_pop_def split: prod.splits dest!: bin_pop_length[where key = pf_seq])

declare try_drain.simps [simp del]

definition feed_frame_unordered :: "stream \<Rightarrow> frame \<Rightarrow> int \<times> stream" where
  "feed_frame_unordered s frame =
     (if st_closing_seen s then (1, s)
      else if fr_closing frame \<noteq> CLOAK_FRAME_CLOSING_NOTHING then
        (1, s\<lparr>st_closing_seen := True, st_recv_msgs := cloak_msgqueue_close (st_recv_msgs s)\<rparr>)
      else case cloak_msgqueue_write (st_recv_msgs s) (fr_payload frame) of (rc, q) \<Rightarrow>
        let s1 = s\<lparr>st_recv_msgs := q\<rparr> in
        if rc = MqTooLarge then (-1, s1)
        else if rc \<noteq> MqWritten then (0, s1\<lparr>st_dropped := st_dropped s1 + 1\<rparr>)
        else (0, s1))"

definition cloak_stream_feed_frame :: "heap_mem \<Rightarrow> stream \<Rightarrow> frame \<Rightarrow> int \<times> stream" where
  "cloak_stream_feed_frame mem s frame =
     (if st_ordering s = CLOAK_SESSION_ORDERING_UNORDERED then feed_frame_unordered s frame
      else if st_closing_seen s then (-1, s)
      else if fr_seq frame < st_next_recv_seq s \<or> heap_contains_seq s (fr_seq frame) then (-1, s)
      else
        let recv_total_capacity = cloak_bytequeue_len (st_recv_bytes s) + cloak_bytequeue_free_space (st_recv_bytes s)
        in
        if length (fr_payload frame) > recv_total_capacity then (-1, s)
        else if length (fr_payload frame) > 0 \<and> mem_malloc mem (length (fr_payload frame)) = None then (-1, s)
        else
          case heap_push mem s \<lparr>pf_seq = fr_seq frame, pf_closing = fr_closing frame, pf_payload = fr_payload frame\<rparr>
          of (rc, s1) \<Rightarrow> if rc \<noteq> 0 then (-1, s1) else try_drain s1)"

definition cloak_stream_read :: "stream \<Rightarrow> nat \<Rightarrow> int \<times> bytes \<times> stream" where
  \<comment> \<open>the return code, the bytes copied to \<open>out\<close>, the stream\<close>
  "cloak_stream_read s out_cap =
     (if st_ordering s = CLOAK_SESSION_ORDERING_UNORDERED then
        case cloak_msgqueue_read (st_recv_msgs s) out_cap of (rc, q) \<Rightarrow>
          let s1 = s\<lparr>st_recv_msgs := q\<rparr> in
          (case rc of
             MqShortBuffer \<Rightarrow> (CLOAK_STREAM_ERR_SHORT_BUFFER, [], s1)
           | MqEmpty \<Rightarrow> (if cloak_msgqueue_is_eof (st_recv_msgs s1) then -1 else 0, [], s1)
           | MqRead m \<Rightarrow> (int (length m), m, s1))
      else
        case cloak_bytequeue_read (st_recv_bytes s) out_cap of (out, q) \<Rightarrow>
          let s1 = s\<lparr>st_recv_bytes := q\<rparr> in
          if length out > 0 then (int (length out), out, snd (try_drain s1))
          else if cloak_bytequeue_is_eof (st_recv_bytes s1) then (-1, [], s1)
          else (0, [], s1))"

definition cloak_stream_recv_available :: "stream \<Rightarrow> nat" where
  "cloak_stream_recv_available s =
     (if st_ordering s = CLOAK_SESSION_ORDERING_UNORDERED
      then cloak_msgqueue_payload_bytes (st_recv_msgs s)
      else cloak_bytequeue_len (st_recv_bytes s))"

section \<open>Construction and destruction\<close>

definition bytequeue_zero :: bytequeue where
  "bytequeue_zero = \<lparr>bq_data = [], bq_cap = 0, bq_head = 0, bq_len = 0, bq_closed = False\<rparr>"

definition stream_zero :: stream where
  \<comment> \<open>\<open>memset(s, 0, sizeof(*s))\<close>\<close>
  "stream_zero = \<lparr>st_id = 0, st_ordering = CLOAK_SESSION_ORDERING_INVALID,
     st_obfuscator = \<lparr>ob_method = CLOAK_AEAD_NONE, ob_session_key = []\<rparr>,
     st_max_payload = 0, st_write_buf_cap = 0, st_next_write_seq = 0, st_write_closed = False,
     st_recv_bytes = bytequeue_zero, st_next_recv_seq = 0, st_heap = [], st_heap_cap = 0,
     st_max_pending = 0, st_recv_msgs = msgqueue_zero, st_dropped = 0, st_closing_seen = False\<rparr>"

definition cloak_stream_init ::
  "heap_mem \<Rightarrow> u32 \<Rightarrow> obfuscator \<Rightarrow> nat \<Rightarrow> nat \<Rightarrow> nat \<Rightarrow> ordering \<Rightarrow> int \<times> stream" where
  "cloak_stream_init mem sid ob max_on_wire_size recv_capacity max_pending_frames mode =
     (if mode \<noteq> CLOAK_SESSION_ORDERING_ORDERED \<and> mode \<noteq> CLOAK_SESSION_ORDERING_UNORDERED
      then (CLOAK_SESSION_ERR_INVALID_ORDERING, stream_zero)
      else if max_on_wire_size \<le> CLOAK_FRAME_HEADER_LEN + CLOAK_FRAME_MAX_EXTRA_LEN
              \<or> recv_capacity = 0 \<or> recv_capacity < max_on_wire_size - CLOAK_FRAME_HEADER_LEN
      then (-1, stream_zero)
      else
        let s = stream_zero\<lparr>st_id := sid, st_ordering := mode, st_obfuscator := ob,
                  st_max_payload := max_on_wire_size - CLOAK_FRAME_HEADER_LEN - CLOAK_FRAME_MAX_EXTRA_LEN\<rparr>
        in
        if mem_malloc mem max_on_wire_size = None then (-1, s)
        else
          let s1 = s\<lparr>st_write_buf_cap := max_on_wire_size\<rparr>;
              (rc, s2) =
                (if mode = CLOAK_SESSION_ORDERING_UNORDERED
                 then case cloak_msgqueue_init (mem_malloc mem) (st_recv_msgs s1) recv_capacity of
                        (rc, q) \<Rightarrow> (rc, s1\<lparr>st_recv_msgs := q\<rparr>)
                 else case cloak_bytequeue_init (mem_malloc mem) (st_recv_bytes s1) recv_capacity of
                        (rc, q) \<Rightarrow> (rc, s1\<lparr>st_recv_bytes := q\<rparr>))
          in if rc \<noteq> 0 then (-1, s2)
             else (0, s2\<lparr>st_max_pending := (if max_pending_frames > 0 then max_pending_frames else 1)\<rparr>))"

definition cloak_stream_destroy :: "stream \<Rightarrow> stream" where
  "cloak_stream_destroy s = stream_zero"

section \<open>Sending\<close>

type_synonym 'w sink = "'w \<Rightarrow> bytes \<Rightarrow> bool \<times> 'w"

text \<open>The \<open>while (n < in_len)\<close> loop, on the bytes that remain; the flag is success.\<close>

definition data_frame :: "stream \<Rightarrow> bytes \<Rightarrow> frame" where
  "data_frame s p = \<lparr>fr_stream_id = st_id s, fr_seq = st_next_write_seq s,
     fr_closing = CLOAK_FRAME_CLOSING_NOTHING, fr_payload = p\<rparr>"

function stream_write_loop ::
  "evp \<Rightarrow> (u64 \<Rightarrow> entropy) \<Rightarrow> 'w sink \<Rightarrow> stream \<Rightarrow> 'w \<Rightarrow> bytes \<Rightarrow> bool \<times> stream \<times> 'w" where
  "stream_write_loop e r sink s w rest =
     (if rest = [] \<or> st_max_payload s = 0 then (rest = [], s, w)
      else
        let chunk = (if length rest \<le> st_max_payload s then length rest else st_max_payload s) in
        case cloak_frame_obfuscate e (r (st_next_write_seq s)) (st_obfuscator s)
               (data_frame s (take chunk rest)) (st_write_buf_cap s) of
          None \<Rightarrow> (False, s\<lparr>st_write_closed := True\<rparr>, w)
        | Some wire \<Rightarrow>
            let s1 = s\<lparr>st_next_write_seq := st_next_write_seq s + 1\<rparr> in
            (case sink w wire of
               (False, w1) \<Rightarrow> (False, s1\<lparr>st_write_closed := True\<rparr>, w1)
             | (True, w1) \<Rightarrow> stream_write_loop e r sink s1 w1 (drop chunk rest)))"
  by pat_completeness auto

termination
  by (relation "measure (\<lambda>(_, _, _, _, _, rest). length rest)") (auto split: if_splits)

declare stream_write_loop.simps [simp del]

definition cloak_stream_write ::
  "evp \<Rightarrow> (u64 \<Rightarrow> entropy) \<Rightarrow> 'w sink \<Rightarrow> stream \<Rightarrow> 'w \<Rightarrow> bytes \<Rightarrow> int \<times> stream \<times> 'w" where
  "cloak_stream_write e r sink s w inp =
     (if st_write_closed s then (-1, s, w)
      else if st_ordering s = CLOAK_SESSION_ORDERING_UNORDERED \<and> length inp > st_max_payload s
      then (CLOAK_STREAM_ERR_SHORT_BUFFER, s, w)
      else case stream_write_loop e r sink s w inp of
             (ok, s1, w1) \<Rightarrow> (if ok then int (length inp) else -1, s1, w1))"

definition cloak_stream_send_closing ::
  "evp \<Rightarrow> (u64 \<Rightarrow> entropy) \<Rightarrow> entropy \<Rightarrow> 'w sink \<Rightarrow> stream \<Rightarrow> 'w \<Rightarrow> byte \<Rightarrow> int \<times> stream \<times> 'w" where
  \<comment> \<open>\<open>r0\<close> are the two draws of this function itself, \<open>r\<close> those of the obfuscation\<close>
  "cloak_stream_send_closing e r r0 sink s w closing_type =
     (if st_write_closed s then (-1, s, w)
      else
        let len_byte = rnd_bytes r0 1 ! 0;
            max_pad = (if st_max_payload s < 256 then st_max_payload s else 256);
            pad_len0 = unat len_byte + 1;
            pad_len = (if pad_len0 > max_pad then max_pad else pad_len0);
            frame = \<lparr>fr_stream_id = st_id s, fr_seq = st_next_write_seq s,
                     fr_closing = closing_type, fr_payload = rnd_bytes r0 pad_len\<rparr>;
            written = cloak_frame_obfuscate e (r (st_next_write_seq s)) (st_obfuscator s) frame (st_write_buf_cap s);
            s1 = s\<lparr>st_write_closed := True\<rparr>
        in case written of
             None \<Rightarrow> (-1, s1, w)
           | Some wire \<Rightarrow>
               let s2 = s1\<lparr>st_next_write_seq := st_next_write_seq s1 + 1\<rparr> in
               (case sink w wire of (ok, w1) \<Rightarrow> (if ok then 0 else -1, s2, w1)))"

section \<open>The reassembly invariant\<close>

text \<open>
  The peer's frames are a script: payload and closing flag by sequence number. \<open>del\<close> are the bytes
  the application has read so far, \<open>acc\<close> the sequence numbers accepted, \<open>n\<close> a bound on the number of
  frames fed, which keeps the 64-bit counter from wrapping.
\<close>

definition script_prefix :: "(u64 \<Rightarrow> bytes) \<Rightarrow> nat \<Rightarrow> bytes" where
  "script_prefix pay k = concat (map (\<lambda>i. pay (of_nat i)) [0..<k])"

definition accepted_seqs :: "stream \<Rightarrow> u64 set" where
  "accepted_seqs s = {q. q < st_next_recv_seq s} \<union> pf_seq ` set (st_heap s)
     \<union> (if st_closing_seen s then {st_next_recv_seq s} else {})"

definition pending_ok :: "(u64 \<Rightarrow> bytes) \<Rightarrow> (u64 \<Rightarrow> byte) \<Rightarrow> stream \<Rightarrow> pending_frame \<Rightarrow> bool" where
  "pending_ok pay clo s pf \<longleftrightarrow>
     pf_payload pf = pay (pf_seq pf) \<and> pf_closing pf = clo (pf_seq pf)
   \<and> length (pf_payload pf) \<le> bq_cap (st_recv_bytes s)
   \<and> st_next_recv_seq s \<le> pf_seq pf \<and> (st_closing_seen s \<longrightarrow> pf_seq pf \<noteq> st_next_recv_seq s)"

definition reasm :: "(u64 \<Rightarrow> bytes) \<Rightarrow> (u64 \<Rightarrow> byte) \<Rightarrow> nat \<Rightarrow> bytes \<Rightarrow> stream \<Rightarrow> bool" where
  "reasm pay clo n del s \<longleftrightarrow>
     st_ordering s = CLOAK_SESSION_ORDERING_ORDERED
   \<and> bytequeue_ok (st_recv_bytes s) \<and> bq_closed (st_recv_bytes s) = st_closing_seen s
   \<and> heap_ok pf_seq (st_heap s) \<and> distinct (map pf_seq (st_heap s))
   \<and> (\<forall>pf \<in> set (st_heap s). pending_ok pay clo s pf)
   \<and> unat (st_next_recv_seq s) + length (st_heap s) \<le> n
   \<and> del @ bytequeue_list (st_recv_bytes s) = script_prefix pay (unat (st_next_recv_seq s))
   \<and> (\<forall>q < st_next_recv_seq s. clo q = CLOAK_FRAME_CLOSING_NOTHING)
   \<and> (st_closing_seen s \<longrightarrow> clo (st_next_recv_seq s) \<noteq> CLOAK_FRAME_CLOSING_NOTHING)"

definition settled :: "stream \<Rightarrow> bool" where
  \<comment> \<open>nothing more can be drained\<close>
  "settled s \<longleftrightarrow> st_closing_seen s \<or> st_heap s = [] \<or> pf_seq (st_heap s ! 0) \<noteq> st_next_recv_seq s
     \<or> cloak_bytequeue_free_space (st_recv_bytes s) < length (pf_payload (st_heap s ! 0))"

lemma script_prefix_Suc [simp]: "script_prefix pay (Suc k) = script_prefix pay k @ pay (of_nat k)"
  by (simp add: script_prefix_def)

lemma distinct_map_mset: "mset xs = mset ys \<Longrightarrow> distinct (map f xs) = distinct (map f ys)"
  by (metis mset_eq_imp_distinct_iff mset_map)

lemma heap_pop_split:
  assumes "heap_ok pf_seq (st_heap s)" "distinct (map pf_seq (st_heap s))" "st_heap s \<noteq> []"
  obtains h where "heap_pop s = (st_heap s ! 0, s\<lparr>st_heap := h\<rparr>)" "heap_ok pf_seq h"
    "distinct (map pf_seq h)" "set (st_heap s) = insert (st_heap s ! 0) (set h)"
    "\<forall>x \<in> set h. pf_seq x \<noteq> pf_seq (st_heap s ! 0)" "length (st_heap s) = Suc (length h)"
proof -
  let ?t = "st_heap s ! 0" and ?h = "snd (bin_pop pf_seq (st_heap s))"
  have m: "mset (st_heap s) = mset (?t # ?h)" using bin_pop_elems[OF assms(3)] by simp
  have "distinct (map pf_seq (?t # ?h))" using distinct_map_mset[OF m] assms(2) by metis
  moreover have "set (st_heap s) = set (?t # ?h)" using m by (metis set_mset_mset)
  moreover have "length (st_heap s) = length (?t # ?h)" using m by (metis size_mset)
  moreover have "heap_pop s = (?t, s\<lparr>st_heap := ?h\<rparr>)"
    by (simp add: heap_pop_def heapq.pop_top split: prod.split) (metis fst_conv heapq.pop_top)
  moreover have "\<forall>x \<in> set ?h. pf_seq x \<noteq> pf_seq ?t"
    using \<open>distinct (map pf_seq (?t # ?h))\<close> by (metis distinct.simps(2) image_eqI list.set_map list.simps(9))
  ultimately show ?thesis using that[of ?h] bin_pop_ok[OF assms(1,3)] by simp
qed

lemma u64_succ:
  assumes "unat (x :: u64) + 1 < 2 ^ 64"
  shows "unat (x + 1) = Suc (unat x)" "q < x + 1 \<longleftrightarrow> q < x \<or> q = x" "x < x + 1"
    "x < q \<Longrightarrow> x + 1 \<le> q"
proof -
  show *: "unat (x + 1) = Suc (unat x)"
    using assms by (simp add: unat_word_ariths)
  show "q < x + 1 \<longleftrightarrow> q < x \<or> q = x" "x < x + 1" "x < q \<Longrightarrow> x + 1 \<le> q"
    using * by (auto simp: word_less_nat_alt word_le_nat_alt word_unat_eq_iff less_Suc_eq)
qed

lemma reasm_drain_closing:
  assumes "reasm pay clo n del s" "st_heap s \<noteq> []" "pf_seq (st_heap s ! 0) = st_next_recv_seq s"
    "pf_closing (st_heap s ! 0) \<noteq> CLOAK_FRAME_CLOSING_NOTHING"
  defines "s1 \<equiv> snd (heap_pop s)"
  defines "s2 \<equiv> s1\<lparr>st_closing_seen := True, st_recv_bytes := cloak_bytequeue_close (st_recv_bytes s1)\<rparr>"
  shows "reasm pay clo n del s2 \<and> settled s2 \<and> accepted_seqs s2 = accepted_seqs s
       \<and> \<not> st_closing_seen s \<and> st_closing_seen s2"
proof -
  obtain h where h: "heap_pop s = (st_heap s ! 0, s\<lparr>st_heap := h\<rparr>)" "heap_ok pf_seq h"
    "distinct (map pf_seq h)" "set (st_heap s) = insert (st_heap s ! 0) (set h)"
    "\<forall>x \<in> set h. pf_seq x \<noteq> pf_seq (st_heap s ! 0)" "length (st_heap s) = Suc (length h)"
    using heap_pop_split[of s] assms(1,2) by (auto simp: reasm_def)
  have top: "pending_ok pay clo s (st_heap s ! 0)" using assms(1,2) by (simp add: reasm_def)
  have s2: "s2 = s\<lparr>st_heap := h, st_closing_seen := True, st_recv_bytes := cloak_bytequeue_close (st_recv_bytes s)\<rparr>"
    by (simp add: s2_def s1_def h(1))
  have q: "bytequeue_ok (cloak_bytequeue_close (st_recv_bytes s))"
    "bytequeue_list (cloak_bytequeue_close (st_recv_bytes s)) = bytequeue_list (st_recv_bytes s)"
    "bq_cap (cloak_bytequeue_close (st_recv_bytes s)) = bq_cap (st_recv_bytes s)"
    "bq_closed (cloak_bytequeue_close (st_recv_bytes s))"
    using bq.cl_shuts[of "st_recv_bytes s"] assms(1) by (auto simp: reasm_def)
  have "pending_ok pay clo s2 pf" if "pf \<in> set h" for pf
    using that assms(1,3) h(4,5) q by (auto simp: reasm_def pending_ok_def s2)
  moreover have "\<not> st_closing_seen s" using top assms(3) by (simp add: pending_ok_def)
  moreover have "accepted_seqs s2 = accepted_seqs s"
    using \<open>\<not> st_closing_seen s\<close> assms(3) h(4) by (auto simp: accepted_seqs_def s2)
  ultimately show ?thesis using assms(1,3,4) top h q
    by (auto simp: reasm_def s2 settled_def pending_ok_def)
qed

lemma reasm_drain_data:
  assumes inv: "reasm pay clo n del s" and ne: "st_heap s \<noteq> []" "pf_seq (st_heap s ! 0) = st_next_recv_seq s"
    "pf_closing (st_heap s ! 0) = CLOAK_FRAME_CLOSING_NOTHING"
    "length (pf_payload (st_heap s ! 0)) \<le> cloak_bytequeue_free_space (st_recv_bytes s)"
    and n: "n < 2 ^ 64"
    and pop: "heap_pop s = (pf, s1)"
  defines "s2 \<equiv> s1\<lparr>st_recv_bytes := (if length (pf_payload pf) > 0
                     then snd (cloak_bytequeue_write (st_recv_bytes s1) (pf_payload pf))
                     else st_recv_bytes s1), st_next_recv_seq := st_next_recv_seq s1 + 1\<rparr>"
  shows "reasm pay clo n del s2 \<and> accepted_seqs s2 = accepted_seqs s
       \<and> st_closing_seen s2 = st_closing_seen s \<and> \<not> st_closing_seen s"
proof -
  obtain h where h: "heap_pop s = (st_heap s ! 0, s\<lparr>st_heap := h\<rparr>)" "heap_ok pf_seq h"
    "distinct (map pf_seq h)" "set (st_heap s) = insert (st_heap s ! 0) (set h)"
    "\<forall>x \<in> set h. pf_seq x \<noteq> pf_seq (st_heap s ! 0)" "length (st_heap s) = Suc (length h)"
    using heap_pop_split[of s] inv ne(1) by (auto simp: reasm_def)
  have pf: "pf = st_heap s ! 0" "s1 = s\<lparr>st_heap := h\<rparr>" using h(1) pop by auto
  have top: "pending_ok pay clo s pf" using inv ne(1) by (simp add: reasm_def pf)
  have open_q: "\<not> st_closing_seen s" "\<not> bq_closed (st_recv_bytes s)" "bytequeue_ok (st_recv_bytes s)"
    using top inv ne by (auto simp: pending_ok_def reasm_def pf)
  define q where "q = (if length (pf_payload pf) > 0
      then snd (cloak_bytequeue_write (st_recv_bytes s) (pf_payload pf)) else st_recv_bytes s)"
  have q: "bytequeue_ok q" "bytequeue_list q = bytequeue_list (st_recv_bytes s) @ pf_payload pf"
    "bq_cap q = bq_cap (st_recv_bytes s)" "\<not> bq_closed q"
    using bq.wr_fits[OF open_q(3,2), of "pf_payload pf"] bq.wr_frame[of "st_recv_bytes s" "pf_payload pf"]
      open_q ne(4) by (auto simp: q_def pf)
  have s2: "s2 = s\<lparr>st_heap := h, st_recv_bytes := q, st_next_recv_seq := st_next_recv_seq s + 1\<rparr>"
    by (simp add: s2_def pf q_def)
  have "unat (st_next_recv_seq s) + 1 < 2 ^ 64" using inv h(6) n by (auto simp: reasm_def)
  note succ = u64_succ[OF this]
  have "pending_ok pay clo s2 x" if "x \<in> set h" for x
  proof -
    have "pf_seq x \<noteq> st_next_recv_seq s" using that h(5) ne(2) by auto
    moreover have "pending_ok pay clo s x" using that inv h(4) by (auto simp: reasm_def)
    ultimately show ?thesis using q open_q succ(4)[of "pf_seq x"] by (auto simp: pending_ok_def s2)
  qed
  moreover have "accepted_seqs s2 = accepted_seqs s"
    using open_q ne(2) h(4) succ(2) by (auto simp: accepted_seqs_def s2)
  ultimately show ?thesis using inv top h q open_q succ ne
    by (auto simp: reasm_def s2 pf pending_ok_def)
qed

lemma try_drain_reasm:
  assumes "reasm pay clo n del s" "n < 2 ^ 64"
  shows "reasm pay clo n del (snd (try_drain s)) \<and> settled (snd (try_drain s))
       \<and> accepted_seqs (snd (try_drain s)) = accepted_seqs s
       \<and> fst (try_drain s) = (if st_closing_seen (snd (try_drain s)) \<and> \<not> st_closing_seen s then 1 else 0)"
  using assms
proof (induction s rule: try_drain.induct)
  case (1 s)
  show ?case
  proof (cases "st_heap s \<noteq> [] \<and> pf_seq (st_heap s ! 0) = st_next_recv_seq s")
    case False
    then show ?thesis using 1 by (auto simp: try_drain.simps[of s] settled_def)
  next
    case ne: True
    show ?thesis
    proof (cases "pf_closing (st_heap s ! 0) = CLOAK_FRAME_CLOSING_NOTHING")
      case False
      then show ?thesis using ne reasm_drain_closing[OF 1(2)]
        by (simp add: try_drain.simps[of s] Let_def)
    next
      case data: True
      show ?thesis
      proof (cases "cloak_bytequeue_free_space (st_recv_bytes s) < length (pf_payload (st_heap s ! 0))")
        case True
        then show ?thesis using ne data 1(2) by (simp add: try_drain.simps[of s] Let_def settled_def)
      next
        case False
        obtain pf s1 where pop: "heap_pop s = (pf, s1)" by fastforce
        let ?q = "if length (pf_payload pf) > 0 then snd (cloak_bytequeue_write (st_recv_bytes s1) (pf_payload pf))
                  else st_recv_bytes s1"
        let ?s2 = "s1\<lparr>st_recv_bytes := ?q, st_next_recv_seq := st_next_recv_seq s1 + 1\<rparr>"
        have step: "reasm pay clo n del ?s2 \<and> accepted_seqs ?s2 = accepted_seqs s
            \<and> st_closing_seen ?s2 = st_closing_seen s \<and> \<not> st_closing_seen s"
          using ne data False by (intro reasm_drain_data[OF 1(2) _ _ _ _ 1(3) pop]) auto
        have td: "try_drain s = try_drain ?s2"
          using ne data False pop by (simp add: try_drain.simps[of s] Let_def)
        show ?thesis unfolding td
          using 1(1)[OF ne _ refl _ refl pop[symmetric] refl] data False step 1(3) pop by auto
      qed
    qed
  qed
qed

section \<open>Every operation keeps the invariant\<close>

lemma heap_push_cases:
  "heap_push mem s pf = (rc, s1) \<Longrightarrow>
     (rc = -1 \<and> (\<exists>c. s1 = s\<lparr>st_heap_cap := c\<rparr>))
   \<or> (rc = 0 \<and> length (st_heap s) < st_max_pending s
      \<and> (\<exists>c. s1 = s\<lparr>st_heap_cap := c, st_heap := bin_push pf_seq pf (st_heap s)\<rparr>))"
  by (auto simp: heap_push_def heap_grow_def Let_def split: if_splits prod.splits)
    (metis stream.surjective stream.update_convs(11))+

lemma reasm_heap_cap: "reasm pay clo n del (s\<lparr>st_heap_cap := c\<rparr>) = reasm pay clo n del s"
  by (simp add: reasm_def pending_ok_def)

lemma settled_heap_cap: "settled (s\<lparr>st_heap_cap := c\<rparr>) = settled s"
  "accepted_seqs (s\<lparr>st_heap_cap := c\<rparr>) = accepted_seqs s"
  by (simp_all add: settled_def accepted_seqs_def)

lemma reasm_mono: "reasm pay clo n del s \<Longrightarrow> n \<le> m \<Longrightarrow> reasm pay clo m del s"
  by (auto simp: reasm_def)

lemma reasm_push:
  fixes c :: nat
  assumes inv: "reasm pay clo n del s" and nc: "\<not> st_closing_seen s"
    and pf: "pf_payload pf = pay (pf_seq pf)" "pf_closing pf = clo (pf_seq pf)"
      "length (pf_payload pf) \<le> bq_cap (st_recv_bytes s)" "st_next_recv_seq s \<le> pf_seq pf"
    and new: "\<not> heap_contains_seq s (pf_seq pf)"
  defines "s1 \<equiv> s\<lparr>st_heap_cap := c, st_heap := bin_push pf_seq pf (st_heap s)\<rparr>"
  shows "reasm pay clo (Suc n) del s1 \<and> accepted_seqs s1 = insert (pf_seq pf) (accepted_seqs s)"
proof -
  let ?h = "bin_push pf_seq pf (st_heap s)"
  have m: "mset ?h = mset (pf # st_heap s)" by simp
  have "set ?h = insert pf (set (st_heap s))" "length ?h = Suc (length (st_heap s))"
    using m by (metis list.set(2) set_mset_mset, metis length_Cons size_mset)
  moreover have "distinct (map pf_seq ?h)"
    using distinct_map_mset[OF m, of pf_seq] inv new
    by (auto simp: reasm_def heap_contains_seq_def list_ex_iff)
  ultimately show ?thesis using inv nc pf
    by (auto simp: reasm_def s1_def pending_ok_def accepted_seqs_def bin_push_ok)
qed

lemma feed_frame_reasm:
  assumes inv: "reasm pay clo n del s" "settled s" and n: "Suc n < 2 ^ 64"
    and f: "fr_payload f = pay (fr_seq f)" "fr_closing f = clo (fr_seq f)"
    and feed: "cloak_stream_feed_frame mem s f = (rc, s')"
  shows "reasm pay clo (Suc n) del s' \<and> settled s'
       \<and> accepted_seqs s' = (if rc = -1 then accepted_seqs s else insert (fr_seq f) (accepted_seqs s))"
proof -
  let ?pf = "\<lparr>pf_seq = fr_seq f, pf_closing = fr_closing f, pf_payload = fr_payload f\<rparr>"
  have ord: "st_ordering s \<noteq> CLOAK_SESSION_ORDERING_UNORDERED" using inv by (simp add: reasm_def)
  have cap: "cloak_bytequeue_len (st_recv_bytes s) + cloak_bytequeue_free_space (st_recv_bytes s)
      = bq_cap (st_recv_bytes s)"
    using inv bq.used_content[of "st_recv_bytes s"] bq.room_content[of "st_recv_bytes s"] by (simp add: reasm_def)
  have keep: ?thesis if "rc = -1" "\<exists>c. s' = s\<lparr>st_heap_cap := c\<rparr> \<or> s' = s"
    using that inv reasm_mono[OF inv(1), of "Suc n"] by (auto simp: reasm_heap_cap settled_heap_cap)
  show ?thesis
  proof (cases "st_closing_seen s \<or> fr_seq f < st_next_recv_seq s \<or> heap_contains_seq s (fr_seq f)
      \<or> length (fr_payload f) > bq_cap (st_recv_bytes s)
      \<or> (length (fr_payload f) > 0 \<and> mem_malloc mem (length (fr_payload f)) = None)")
    case True
    then have "rc = -1 \<and> s' = s" using feed ord cap
      by (auto simp: cloak_stream_feed_frame_def Let_def split: if_splits)
    then show ?thesis by (intro keep) auto
  next
    case False
    obtain r1 s1 where p: "heap_push mem s ?pf = (r1, s1)" by fastforce
    have r: "(rc, s') = (if r1 \<noteq> 0 then (-1, s1) else try_drain s1)"
      using feed ord cap False p by (auto simp: cloak_stream_feed_frame_def Let_def)
    from heap_push_cases[OF p] show ?thesis
    proof (elim disjE conjE exE)
      fix c assume "r1 = -1" "s1 = s\<lparr>st_heap_cap := c\<rparr>"
      then show ?thesis using r by (intro keep) auto
    next
      fix c assume s1: "r1 = 0" "s1 = s\<lparr>st_heap_cap := c, st_heap := bin_push pf_seq ?pf (st_heap s)\<rparr>"
      have "reasm pay clo (Suc n) del s1 \<and> accepted_seqs s1 = insert (fr_seq f) (accepted_seqs s)"
        unfolding s1(2) using reasm_push[OF inv(1), of ?pf c] False f by auto
      moreover from this have td: "reasm pay clo (Suc n) del (snd (try_drain s1)) \<and> settled (snd (try_drain s1))
          \<and> accepted_seqs (snd (try_drain s1)) = accepted_seqs s1 \<and> fst (try_drain s1) \<noteq> -1"
        using try_drain_reasm[of pay clo "Suc n" del s1] n by simp
      moreover have "rc = fst (try_drain s1)" "s' = snd (try_drain s1)"
        using r s1(1) by (metis (full_types) fst_conv, metis (full_types) snd_conv)
      ultimately show ?thesis by simp
    qed
  qed
qed

lemma read_reasm:
  assumes inv: "reasm pay clo n del s" "settled s" and n: "n < 2 ^ 64"
    and rd: "cloak_stream_read s k = (rc, out, s')"
  shows "reasm pay clo n (del @ out) s' \<and> settled s' \<and> accepted_seqs s' = accepted_seqs s"
proof -
  let ?q = "snd (cloak_bytequeue_read (st_recv_bytes s) k)" and ?o = "take k (bytequeue_list (st_recv_bytes s))"
  have ord: "st_ordering s \<noteq> CLOAK_SESSION_ORDERING_UNORDERED" using inv by (simp add: reasm_def)
  have q: "fst (cloak_bytequeue_read (st_recv_bytes s) k) = ?o" "bytequeue_ok ?q"
      "bytequeue_list ?q = drop k (bytequeue_list (st_recv_bytes s))"
      "bq_cap ?q = bq_cap (st_recv_bytes s)" "bq_closed ?q = bq_closed (st_recv_bytes s)"
    using inv(1) bq.rd_takes[of "st_recv_bytes s" k] bq.rd_frame[of "st_recv_bytes s" k]
    by (auto simp: reasm_def dest: arg_cong[of _ _ fst])
  let ?s1 = "s\<lparr>st_recv_bytes := ?q\<rparr>"
  have s1: "reasm pay clo n (del @ ?o) ?s1" "accepted_seqs ?s1 = accepted_seqs s"
    using inv(1) q by (auto simp: reasm_def pending_ok_def accepted_seqs_def)
  show ?thesis
  proof (cases "?o = []")
    case True
    then have "?q = st_recv_bytes s"
      using bq.rd_nothing[of "st_recv_bytes s" k] inv(1) by (simp add: reasm_def)
    then have "s' = s" "out = []" using rd ord q(1) True by (auto simp: cloak_stream_read_def Let_def case_prod_unfold split: if_splits)
    then show ?thesis using inv by simp
  next
    case False
    then have "s' = snd (try_drain ?s1)" "out = ?o"
      using rd ord q(1) by (auto simp: cloak_stream_read_def Let_def case_prod_unfold split: if_splits)
    then show ?thesis using try_drain_reasm[OF s1(1) n] s1(2) by simp
  qed
qed

section \<open>Runs\<close>

datatype stream_op = Feed frame | Read nat

text \<open>A run of arrivals and reads: the bytes delivered, the sequence numbers accepted, the stream.\<close>

fun stream_run :: "heap_mem \<Rightarrow> stream \<Rightarrow> stream_op list \<Rightarrow> bytes \<times> u64 set \<times> stream" where
  "stream_run mem s [] = ([], {}, s)"
| "stream_run mem s (Feed f # ops) =
     (case cloak_stream_feed_frame mem s f of (rc, s1) \<Rightarrow>
        case stream_run mem s1 ops of (del, acc, s2) \<Rightarrow>
          (del, (if rc = -1 then acc else insert (fr_seq f) acc), s2))"
| "stream_run mem s (Read k # ops) =
     (case cloak_stream_read s k of (rc, out, s1) \<Rightarrow>
        case stream_run mem s1 ops of (del, acc, s2) \<Rightarrow> (out @ del, acc, s2))"

definition follows :: "(u64 \<Rightarrow> bytes) \<Rightarrow> (u64 \<Rightarrow> byte) \<Rightarrow> stream_op list \<Rightarrow> bool" where
  \<comment> \<open>every frame that arrives, in whatever order and however often, is one of the peer's\<close>
  "follows pay clo ops \<longleftrightarrow>
     (\<forall>f. Feed f \<in> set ops \<longrightarrow> fr_payload f = pay (fr_seq f) \<and> fr_closing f = clo (fr_seq f))"

lemma stream_run_reasm:
  "reasm pay clo n del s \<Longrightarrow> settled s \<Longrightarrow> follows pay clo ops \<Longrightarrow> n + length ops < 2 ^ 64 \<Longrightarrow>
   stream_run mem s ops = (del', acc, s') \<Longrightarrow>
     (\<exists>m. reasm pay clo m (del @ del') s') \<and> settled s' \<and> accepted_seqs s' = accepted_seqs s \<union> acc"
proof (induction ops arbitrary: n del s del' acc)
  case Nil
  then show ?case by auto
next
  case (Cons op ops)
  have fo: "follows pay clo ops" using Cons.prems(3) by (simp add: follows_def)
  show ?case
  proof (cases op)
    case (Feed f)
    obtain rc s1 where w: "cloak_stream_feed_frame mem s f = (rc, s1)" by fastforce
    obtain del1 acc1 s2 where r: "stream_run mem s1 ops = (del1, acc1, s2)" by (metis prod_cases3)
    have eqs: "del1 = del'" "s2 = s'" "acc = (if rc = -1 then acc1 else insert (fr_seq f) acc1)"
      using Cons.prems(5) by (simp_all add: Feed w r)
    have ff: "fr_payload f = pay (fr_seq f)" "fr_closing f = clo (fr_seq f)"
      using Cons.prems(3) Feed unfolding follows_def by (metis list.set_intros(1))+
    have "reasm pay clo (Suc n) del s1 \<and> settled s1
       \<and> accepted_seqs s1 = (if rc = -1 then accepted_seqs s else insert (fr_seq f) (accepted_seqs s))"
      using feed_frame_reasm[OF Cons.prems(1,2) _ _ _ w] ff Cons.prems(4) by simp
    moreover from this have "(\<exists>m. reasm pay clo m (del @ del') s') \<and> settled s'
        \<and> accepted_seqs s' = accepted_seqs s1 \<union> acc1"
      using Cons.prems(4) r eqs by (intro Cons.IH[of "Suc n" del s1 del' acc1] fo) simp_all
    ultimately show ?thesis using eqs(3) by simp
  next
    case (Read k)
    obtain rc out s1 where w: "cloak_stream_read s k = (rc, out, s1)" by (metis prod_cases3)
    obtain del1 acc1 s2 where r: "stream_run mem s1 ops = (del1, acc1, s2)" by (metis prod_cases3)
    have eqs: "del' = out @ del1" "s2 = s'" "acc1 = acc"
      using Cons.prems(5) by (simp_all add: Read w r)
    have "reasm pay clo n (del @ out) s1 \<and> settled s1 \<and> accepted_seqs s1 = accepted_seqs s"
      using Cons.prems(4) by (intro read_reasm[OF Cons.prems(1,2) _ w]) simp
    moreover from this have "(\<exists>m. reasm pay clo m ((del @ out) @ del1) s') \<and> settled s'
        \<and> accepted_seqs s' = accepted_seqs s1 \<union> acc"
      using Cons.prems(4) r eqs by (intro Cons.IH[of n "del @ out" s1 del1 acc] fo) simp_all
    ultimately show ?thesis using eqs(1) by simp
  qed
qed

lemma init_reasm:
  assumes "malloc_sound (mem_malloc mem)"
    and "cloak_stream_init mem sid ob wire recv pend CLOAK_SESSION_ORDERING_ORDERED = (0, s)"
  shows "reasm pay clo 0 [] s \<and> settled s \<and> accepted_seqs s = {}"
proof -
  obtain q where "cloak_bytequeue_init (mem_malloc mem) bytequeue_zero recv = (0, q)" "st_recv_bytes s = q"
    "st_heap s = []" "st_next_recv_seq s = 0" "\<not> st_closing_seen s" "st_ordering s = CLOAK_SESSION_ORDERING_ORDERED"
    using assms(2) by (auto simp: cloak_stream_init_def Let_def stream_zero_def
        CLOAK_SESSION_ERR_INVALID_ORDERING_def split: if_splits prod.splits)
  then show ?thesis using cloak_bytequeue_init_ok[OF assms(1), of bytequeue_zero recv q]
    by (auto simp: reasm_def settled_def accepted_seqs_def script_prefix_def heap_ok_def)
qed

lemma reasm_complete:
  assumes inv: "reasm pay clo n del s" "settled s" and empty: "bytequeue_list (st_recv_bytes s) = []"
    and all: "\<forall>i < m. of_nat i \<in> accepted_seqs s \<and> clo (of_nat i) = CLOAK_FRAME_CLOSING_NOTHING"
    and m: "m \<le> 2 ^ 64"
  shows "m \<le> unat (st_next_recv_seq s)"
proof (rule ccontr)
  assume "\<not> m \<le> unat (st_next_recv_seq s)"
  then have "of_nat (unat (st_next_recv_seq s)) \<in> accepted_seqs s \<and>
      clo (of_nat (unat (st_next_recv_seq s))) = CLOAK_FRAME_CLOSING_NOTHING"
    using all by (metis not_le)
  then have a: "st_next_recv_seq s \<in> accepted_seqs s" "clo (st_next_recv_seq s) = CLOAK_FRAME_CLOSING_NOTHING"
    by simp_all
  then have nc: "\<not> st_closing_seen s" using inv by (auto simp: reasm_def)
  then obtain pf where pf: "pf \<in> set (st_heap s)" "pf_seq pf = st_next_recv_seq s"
    using a by (auto simp: accepted_seqs_def)
  have "pf_seq (st_heap s ! 0) = st_next_recv_seq s"
  proof (rule antisym)
    show "pf_seq (st_heap s ! 0) \<le> st_next_recv_seq s"
      using heapq.top_least[of pf_seq "st_heap s" pf] inv(1) pf by (simp add: reasm_def)
    have "st_heap s ! 0 \<in> set (st_heap s)" using pf(1) by (cases "st_heap s") auto
    then show "st_next_recv_seq s \<le> pf_seq (st_heap s ! 0)" using inv(1) by (auto simp: reasm_def pending_ok_def)
  qed
  moreover have "length (pf_payload (st_heap s ! 0)) \<le> cloak_bytequeue_free_space (st_recv_bytes s)"
  proof -
    have "st_heap s ! 0 \<in> set (st_heap s)" using pf(1) by (cases "st_heap s") auto
    then show ?thesis using inv(1) empty bq.room_content[of "st_recv_bytes s"]
      by (auto simp: reasm_def pending_ok_def)
  qed
  ultimately show False using inv(2) nc pf(1) by (auto simp: settled_def)
qed

section \<open>What the sender puts on the wire\<close>

text \<open>Specification: the chunks of a write, and the frames that carry them.\<close>

function chunks :: "nat \<Rightarrow> bytes \<Rightarrow> bytes list" where
  "chunks m xs = (if xs = [] \<or> m = 0 then [] else take m xs # chunks m (drop m xs))"
  by pat_completeness auto

termination by (relation "measure (\<lambda>(_, xs). length xs)") auto

declare chunks.simps [simp del]

fun frames_from :: "stream \<Rightarrow> bytes list \<Rightarrow> frame list" where
  "frames_from s [] = []"
| "frames_from s (c # cs) =
     data_frame s c # frames_from (s\<lparr>st_next_write_seq := st_next_write_seq s + 1\<rparr>) cs"

fun sink_accepts :: "'w sink \<Rightarrow> 'w \<Rightarrow> bytes list \<Rightarrow> 'w \<Rightarrow> bool" where
  "sink_accepts sink w [] w' = (w' = w)"
| "sink_accepts sink w (x # xs) w' =
     (case sink w x of (ok, w1) \<Rightarrow> ok \<and> sink_accepts sink w1 xs w')"

lemma concat_chunks: "0 < m \<Longrightarrow> concat (chunks m xs) = xs"
proof (induction m xs rule: chunks.induct)
  case (1 m xs)
  then show ?case by (simp add: chunks.simps[of m xs])
qed

lemma chunks_bounds: "c \<in> set (chunks m xs) \<Longrightarrow> c \<noteq> [] \<and> length c \<le> m"
proof (induction m xs rule: chunks.induct)
  case (1 m xs)
  then show ?case by (auto simp: chunks.simps[of m xs] split: if_splits)
qed

lemma length_frames_from [simp]: "length (frames_from s cs) = length cs"
  by (induct cs arbitrary: s) auto

lemma frames_from_nth:
  "i < length cs \<Longrightarrow> frames_from s cs ! i =
     \<lparr>fr_stream_id = st_id s, fr_seq = st_next_write_seq s + of_nat i,
      fr_closing = CLOAK_FRAME_CLOSING_NOTHING, fr_payload = cs ! i\<rparr>"
proof (induct cs arbitrary: s i)
  case (Cons c cs)
  then show ?case by (cases i) (auto simp: data_frame_def ac_simps)
qed simp

lemma write_loop_frames:
  assumes "evp_sound e" "\<And>q. entropy_ok (r q)" "0 < st_max_payload s"
    and "stream_write_loop e r sink s w xs = (True, s', w')"
  shows "\<exists>wires. sink_accepts sink w wires w'
     \<and> map (cloak_frame_deobfuscate e (st_obfuscator s)) wires = map Some (frames_from s (chunks (st_max_payload s) xs))
     \<and> s' = s\<lparr>st_next_write_seq := st_next_write_seq s + of_nat (length wires)\<rparr>"
  using assms(3,4)
proof (induction "length xs" arbitrary: xs s w rule: less_induct)
  case less
  show ?case
  proof (cases "xs = []")
    case True
    then show ?thesis using less.prems
      by (intro exI[of _ "[]"]) (auto simp: stream_write_loop.simps[of e r sink s w "[]"] chunks.simps[of _ "[]"])
  next
    case False
    let ?m = "st_max_payload s"
    let ?c = "if length xs \<le> ?m then length xs else ?m"
    let ?s1 = "s\<lparr>st_next_write_seq := st_next_write_seq s + 1\<rparr>"
    have c: "take ?c xs = take ?m xs" "drop ?c xs = drop ?m xs" by auto
    obtain wire w1 where
      ob: "cloak_frame_obfuscate e (r (st_next_write_seq s)) (st_obfuscator s)
             (data_frame s (take ?m xs)) (st_write_buf_cap s) = Some wire"
      and sk: "sink w wire = (True, w1)"
      and rest: "stream_write_loop e r sink ?s1 w1 (drop ?m xs) = (True, s', w')"
      using less.prems False
      unfolding stream_write_loop.simps[of e r sink s w xs] Let_def c
      by (auto split: option.splits prod.splits bool.splits if_splits)
    have "length (drop ?m xs) < length xs" using less.prems(1) False by simp
    then obtain wires where ws: "sink_accepts sink w1 wires w'"
      "map (cloak_frame_deobfuscate e (st_obfuscator s)) wires = map Some (frames_from ?s1 (chunks ?m (drop ?m xs)))"
      "s' = ?s1\<lparr>st_next_write_seq := st_next_write_seq ?s1 + of_nat (length wires)\<rparr>"
      using less.hyps[of "drop ?m xs" ?s1 w1] less.prems(1) rest by auto
    have "cloak_frame_deobfuscate e (st_obfuscator s) wire = Some (data_frame s (take ?m xs))"
      using obfuscate_deobfuscate[OF assms(1,2) ob] .
    then show ?thesis using ws sk less.prems(1) False
      by (intro exI[of _ "wire # wires"]) (simp add: chunks.simps[of ?m xs] ac_simps)
  qed
qed

text \<open>
  C22: what \<open>cloak_stream_write\<close> puts on the wire. A write that succeeds hands the sink, in order, one wire
  frame per chunk; each deobfuscates to a data frame of this stream with consecutive sequence
  numbers; the payloads concatenate to exactly the bytes written; no chunk is empty or exceeds the limit;
  and in unordered mode there is at most one frame.
\<close>

theorem stream_write_frames:
  assumes "evp_sound e" "\<forall>q. entropy_ok (r q)" "0 < st_max_payload s"
    and "cloak_stream_write e r sink s w inp = (rc, s', w')" "0 \<le> rc"
  shows "\<exists>wires cs. sink_accepts sink w wires w' \<and> rc = int (length inp)
     \<and> map (cloak_frame_deobfuscate e (st_obfuscator s)) wires = map Some (frames_from s cs)
     \<and> s' = s\<lparr>st_next_write_seq := st_next_write_seq s + of_nat (length cs)\<rparr>
     \<and> concat cs = inp \<and> (\<forall>c \<in> set cs. c \<noteq> [] \<and> length c \<le> st_max_payload s)
     \<and> (st_ordering s = CLOAK_SESSION_ORDERING_UNORDERED \<longrightarrow> length cs \<le> 1)"
proof -
  have loop: "stream_write_loop e r sink s w inp = (True, s', w')" and rc: "rc = int (length inp)"
    and un: "st_ordering s = CLOAK_SESSION_ORDERING_UNORDERED \<longrightarrow> length inp \<le> st_max_payload s"
    using assms(4,5) by (auto simp: cloak_stream_write_def CLOAK_STREAM_ERR_SHORT_BUFFER_def split: if_splits prod.splits)
  let ?cs = "chunks (st_max_payload s) inp"
  obtain wires where ws: "sink_accepts sink w wires w'"
     "map (cloak_frame_deobfuscate e (st_obfuscator s)) wires = map Some (frames_from s ?cs)"
     "s' = s\<lparr>st_next_write_seq := st_next_write_seq s + of_nat (length wires)\<rparr>"
    using write_loop_frames[OF assms(1) _ assms(3) loop] assms(2) by blast
  have "length wires = length ?cs" using arg_cong[OF ws(2), of length] by simp
  moreover have "length inp \<le> st_max_payload s \<Longrightarrow> length ?cs \<le> 1"
    by (simp add: chunks.simps[of _ inp] chunks.simps[of _ "[]"])
  ultimately show ?thesis
    using ws rc un concat_chunks[OF assms(3), of inp] chunks_bounds[of _ "st_max_payload s" inp]
    by (intro exI[of _ wires] exI[of _ ?cs]) auto
qed

text \<open>
  C21: in-order reassembly. Take any construction-fresh ordered stream and any sequence of arrivals and
  reads, where the arriving frames are the peer's frames in any order, with any duplicates and losses
  and however much back pressure. Then the bytes delivered to the application, followed by the bytes
  still queued, are exactly the payloads of frames \<open>0, 1, \<dots>\<close> up to the next expected one, none of
  which is a closing frame; and once the queue is drained, every frame of a contiguous run of accepted
  data frames from 0 has been delivered, so back pressure loses nothing.
\<close>

theorem stream_reassembly:
  assumes "malloc_sound (mem_malloc mem)"
    and "cloak_stream_init mem sid ob wire recv pend CLOAK_SESSION_ORDERING_ORDERED = (0, s0)"
    and "follows pay clo ops" "length ops < 2 ^ 64"
    and "stream_run mem s0 ops = (del, acc, s)"
  shows "del @ bytequeue_list (st_recv_bytes s) = script_prefix pay (unat (st_next_recv_seq s))
       \<and> (\<forall>q < st_next_recv_seq s. q \<in> acc \<and> clo q = CLOAK_FRAME_CLOSING_NOTHING)
       \<and> (\<forall>m \<le> 2 ^ 64. bytequeue_list (st_recv_bytes s) = [] \<longrightarrow>
            (\<forall>i < m. of_nat i \<in> acc \<and> clo (of_nat i) = CLOAK_FRAME_CLOSING_NOTHING) \<longrightarrow>
            m \<le> unat (st_next_recv_seq s))"
proof -
  have "reasm pay clo 0 [] s0 \<and> settled s0 \<and> accepted_seqs s0 = {}"
    by (rule init_reasm[OF assms(1,2)])
  then obtain n where inv: "reasm pay clo n del s" "settled s" "accepted_seqs s = acc"
    using stream_run_reasm[of pay clo 0 "[]" s0 ops mem del acc s] assms(3-5) by auto
  have "q \<in> acc" if "q < st_next_recv_seq s" for q
    using that inv(3) by (auto simp: accepted_seqs_def)
  then show ?thesis using inv reasm_complete[OF inv(1,2)] by (auto simp: reasm_def)
qed

definition sample_mem :: heap_mem where
  "sample_mem = \<lparr>mem_malloc = (\<lambda>n. Some (replicate n 0)), mem_realloc = (\<lambda>_. True)\<rparr>"

lemma sample_mem_sound: "malloc_sound (mem_malloc sample_mem)"
  by (auto simp: malloc_sound_def sample_mem_def)

definition sample_stream :: "ordering \<Rightarrow> stream" where
  "sample_stream mode = snd (cloak_stream_init sample_mem 7 (sample_obfuscator CLOAK_AEAD_AES_256_GCM) 300 400 8 mode)"

lemma sample_stream_init:
  "mode = CLOAK_SESSION_ORDERING_ORDERED \<or> mode = CLOAK_SESSION_ORDERING_UNORDERED \<Longrightarrow>
   cloak_stream_init sample_mem 7 (sample_obfuscator CLOAK_AEAD_AES_256_GCM) 300 400 8 mode = (0, sample_stream mode)
   \<and> st_max_payload (sample_stream mode) = 31 \<and> st_write_buf_cap (sample_stream mode) = 300
   \<and> st_ordering (sample_stream mode) = mode \<and> \<not> st_write_closed (sample_stream mode)
   \<and> st_next_write_seq (sample_stream mode) = 0
   \<and> st_obfuscator (sample_stream mode) = sample_obfuscator CLOAK_AEAD_AES_256_GCM"
  by (auto simp: sample_stream_def cloak_stream_init_def frame_consts sample_mem_def stream_zero_def Let_def
      cloak_bytequeue_init_def cloak_msgqueue_init_def CLOAK_MSGQUEUE_LEN_PREFIX_def)

definition sample_data :: "u64 \<Rightarrow> byte list \<Rightarrow> frame" where
  "sample_data q p = \<lparr>fr_stream_id = 7, fr_seq = q, fr_closing = 0, fr_payload = p\<rparr>"

theorem stream_reassembly_witness:
  "let pay = (\<lambda>q. if q = 0 then [1, 2] else [3]);
       ops = [Feed (sample_data 1 [3]), Feed (sample_data 0 [1, 2]), Feed (sample_data 1 [3]), Read 2, Read 5];
       (del, acc, s) = stream_run sample_mem (sample_stream CLOAK_SESSION_ORDERING_ORDERED) ops
   in del @ bytequeue_list (st_recv_bytes s) = script_prefix pay (unat (st_next_recv_seq s))"
proof -
  let ?pay = "\<lambda>q :: u64. if q = 0 then [1, 2] else [3] :: bytes"
  let ?ops = "[Feed (sample_data 1 [3]), Feed (sample_data 0 [1, 2]), Feed (sample_data 1 [3]), Read 2, Read 5]"
  obtain del acc s where r: "stream_run sample_mem (sample_stream CLOAK_SESSION_ORDERING_ORDERED) ?ops = (del, acc, s)"
    by (metis prod_cases3)
  have f: "follows ?pay (\<lambda>_. CLOAK_FRAME_CLOSING_NOTHING) ?ops"
    by (auto simp: follows_def sample_data_def CLOAK_FRAME_CLOSING_NOTHING_def)
  have "cloak_stream_init sample_mem 7 (sample_obfuscator CLOAK_AEAD_AES_256_GCM) 300 400 8
      CLOAK_SESSION_ORDERING_ORDERED = (0, sample_stream CLOAK_SESSION_ORDERING_ORDERED)"
    using sample_stream_init by blast
  from stream_reassembly[OF sample_mem_sound this f _ r] show ?thesis
    unfolding Let_def r by simp
qed

lemma sample_write:
  assumes "mode = CLOAK_SESSION_ORDERING_ORDERED \<or> mode = CLOAK_SESSION_ORDERING_UNORDERED"
  shows "\<exists>wire. cloak_stream_write toy_evp (\<lambda>_. toy_entropy 5 1) (\<lambda>w x. (True, w @ [x])) (sample_stream mode) [] [1, 2, 3]
       = (3, (sample_stream mode)\<lparr>st_next_write_seq := 1\<rparr>, [wire])"
proof -
  let ?s = "sample_stream mode"
  note i = sample_stream_init[OF assms]
  obtain wire where "cloak_frame_obfuscate toy_evp (toy_entropy 5 1) (st_obfuscator ?s)
      (data_frame ?s [1, 2, 3]) (st_write_buf_cap ?s) = Some wire"
    using frame_obfuscate_some[OF toy_evp_sound toy_entropy_ok, of "data_frame ?s [1, 2, 3]" "st_write_buf_cap ?s" "st_obfuscator ?s" 5 1] i
    by (auto simp: data_frame_def sample_obfuscator_def cloak_aead_seal_def toy_evp_def Let_def)
  then show ?thesis using i
    by (intro exI[of _ wire])
      (simp add: cloak_stream_write_def stream_write_loop.simps[of _ _ _ ?s] stream_write_loop.simps[of _ _ _ _ _ "[]"] Let_def)
qed

theorem stream_write_frames_witness:
  "\<exists>wires cs. sink_accepts (\<lambda>w x. (True, w @ [x])) [] wires
       (snd (snd (cloak_stream_write toy_evp (\<lambda>_. toy_entropy 5 1) (\<lambda>w x. (True, w @ [x]))
                    (sample_stream CLOAK_SESSION_ORDERING_UNORDERED) [] [1, 2, 3])))
     \<and> concat cs = ([1, 2, 3] :: bytes) \<and> length cs \<le> 1"
proof -
  let ?s = "sample_stream CLOAK_SESSION_ORDERING_UNORDERED"
  have i: "0 < st_max_payload ?s" "st_ordering ?s = CLOAK_SESSION_ORDERING_UNORDERED"
    using sample_stream_init[of CLOAK_SESSION_ORDERING_UNORDERED] by auto
  obtain wire where w: "cloak_stream_write toy_evp (\<lambda>_. toy_entropy 5 1) (\<lambda>w x. (True, w @ [x])) ?s [] [1, 2, 3]
       = (3, ?s\<lparr>st_next_write_seq := 1\<rparr>, [wire])"
    using sample_write by blast
  obtain wires cs where "sink_accepts (\<lambda>w x. (True, w @ [x])) [] wires [wire]" "concat cs = ([1, 2, 3] :: bytes)" "length cs \<le> 1"
    using stream_write_frames[OF toy_evp_sound _ i(1) w] toy_entropy_ok i(2) by auto
  then show ?thesis unfolding w by auto
qed

text \<open>
  The unordered receive side. A frame never reorders, splits or merges datagrams: on an open unordered
  stream a data frame is appended whole to the queue, or dropped with the drop counter advanced and the
  stream untouched otherwise when the queue is full, or refused when it could never fit; a closing frame
  shuts the queue at once and keeps what is queued; and after that every frame is ignored.
\<close>

theorem stream_unordered_feed:
  assumes "st_ordering s = CLOAK_SESSION_ORDERING_UNORDERED" "msgqueue_ok (st_recv_msgs s)"
    and "mq_closed (st_recv_msgs s) = st_closing_seen s"
    and "cloak_stream_feed_frame mem s f = (rc, s')"
  shows "msgqueue_ok (st_recv_msgs s') \<and> mq_closed (st_recv_msgs s') = st_closing_seen s'
     \<and> (if st_closing_seen s then rc = 1 \<and> s' = s
        else if fr_closing f \<noteq> CLOAK_FRAME_CLOSING_NOTHING
        then rc = 1 \<and> st_closing_seen s' \<and> msgqueue_list (st_recv_msgs s') = msgqueue_list (st_recv_msgs s)
        else if rc = -1
        then s' = s \<and> (mq_cap (st_recv_msgs s) < length (fr_payload f) + 4 \<or> 2 ^ 32 \<le> length (fr_payload f))
        else rc = 0 \<and> (msgqueue_list (st_recv_msgs s') = msgqueue_list (st_recv_msgs s) @ [fr_payload f]
                          \<and> st_dropped s' = st_dropped s
                        \<or> s' = s\<lparr>st_dropped := st_dropped s + 1\<rparr>))"
proof (cases "st_closing_seen s \<or> fr_closing f \<noteq> CLOAK_FRAME_CLOSING_NOTHING")
  case True
  have "(rc, s') = (if st_closing_seen s then (1, s)
      else (1, s\<lparr>st_closing_seen := True, st_recv_msgs := cloak_msgqueue_close (st_recv_msgs s)\<rparr>))"
    using assms(1,4) True by (simp add: cloak_stream_feed_frame_def feed_frame_unordered_def split: if_splits)
  then show ?thesis using assms(2,3) True
    by (simp add: cloak_msgqueue_close_def msgqueue_ok_def msgqueue_list_def split: if_splits)
next
  case False
  obtain mrc q where w: "cloak_msgqueue_write (st_recv_msgs s) (fr_payload f) = (mrc, q)" by fastforce
  have nc: "\<not> mq_closed (st_recv_msgs s)" using False assms(3) by simp
  have sh: "mq_closed q = mq_closed (st_recv_msgs s)" "mrc \<noteq> MqClosed"
    using w nc by (auto simp: cloak_msgqueue_write_def Let_def split: if_splits)
  have same: "mrc \<noteq> MqWritten \<Longrightarrow> q = st_recv_msgs s" by (rule mq.wr_failed[OF w])
  have good: "mrc = MqWritten \<Longrightarrow> msgqueue_ok q \<and> msgqueue_list q = msgqueue_list (st_recv_msgs s) @ [fr_payload f]"
    using mq.wr_done[OF assms(2)] w by blast
  have large: "mrc = MqTooLarge \<Longrightarrow>
      mq_cap (st_recv_msgs s) < length (fr_payload f) + 4 \<or> 2 ^ 32 \<le> length (fr_payload f)"
    using w by (auto simp: cloak_msgqueue_write_def Let_def CLOAK_MSGQUEUE_LEN_PREFIX_def split: if_splits)
  have r: "(rc, s') = (if mrc = MqTooLarge then (-1, s\<lparr>st_recv_msgs := q\<rparr>)
      else if mrc \<noteq> MqWritten then (0, s\<lparr>st_recv_msgs := q, st_dropped := st_dropped s + 1\<rparr>)
      else (0, s\<lparr>st_recv_msgs := q\<rparr>))"
    using assms(1,4) False w
    by (auto simp: cloak_stream_feed_frame_def feed_frame_unordered_def Let_def split: if_splits)
  show ?thesis
  proof (cases mrc)
    case MqWritten
    then show ?thesis using r good False sh assms(3) by simp
  next
    case MqFull
    then show ?thesis using r same False sh assms(2,3) by simp
  next
    case MqTooLarge
    then show ?thesis using r same large False sh assms(2,3) by simp
  qed (use sh in simp)
qed

theorem stream_unordered_feed_witness:
  "let s = sample_stream CLOAK_SESSION_ORDERING_UNORDERED;
       (rc, s') = cloak_stream_feed_frame sample_mem s (sample_data 5 [1, 2])
   in msgqueue_ok (st_recv_msgs s) \<and> msgqueue_ok (st_recv_msgs s') \<and> (rc = 0 \<or> rc = -1)"
proof -
  let ?s = "sample_stream CLOAK_SESSION_ORDERING_UNORDERED"
  have i: "st_ordering ?s = CLOAK_SESSION_ORDERING_UNORDERED"
    using sample_stream_init[of CLOAK_SESSION_ORDERING_UNORDERED] by simp
  have q: "st_recv_msgs ?s = msgqueue_zero\<lparr>mq_data := replicate 400 0, mq_cap := 400\<rparr>" "\<not> st_closing_seen ?s"
    by (simp_all add: sample_stream_def cloak_stream_init_def frame_consts sample_mem_def stream_zero_def Let_def
        cloak_msgqueue_init_def CLOAK_MSGQUEUE_LEN_PREFIX_def)
  have ok: "msgqueue_ok (st_recv_msgs ?s)" "mq_closed (st_recv_msgs ?s) = st_closing_seen ?s"
    using q by (simp_all add: msgqueue_ok_def msgqueue_zero_def msgqueue_list_def ring_list_def msgs_ok_def
        CLOAK_MSGQUEUE_LEN_PREFIX_def)
  obtain rc s' where f: "cloak_stream_feed_frame sample_mem ?s (sample_data 5 [1, 2]) = (rc, s')" by fastforce
  from stream_unordered_feed[OF i ok f] q ok show ?thesis
    unfolding Let_def f by (auto simp: sample_data_def CLOAK_FRAME_CLOSING_NOTHING_def split: if_splits)
qed

section \<open>What a stream's owner relies on\<close>

lemma heap_pop_id [simp]: "st_id (snd (heap_pop s)) = st_id s"
  by (simp add: heap_pop_def split: prod.splits)

lemma try_drain_id [simp]: "st_id (snd (try_drain s)) = st_id s"
proof (induction s rule: try_drain.induct)
  case (1 s)
  obtain pf s1 where p: "heap_pop s = (pf, s1)" by fastforce
  then have "st_id s1 = st_id s" using heap_pop_id[of s] by simp
  then show ?case using 1 p by (subst try_drain.simps) (simp add: Let_def)
qed

lemma heap_push_id [simp]: "st_id (snd (heap_push mem s pf)) = st_id s"
  by (auto simp: heap_push_def heap_grow_def Let_def split: prod.splits)

lemma feed_frame_id [simp]: "st_id (snd (cloak_stream_feed_frame mem s f)) = st_id s"
proof -
  obtain rc s1 where "heap_push mem s \<lparr>pf_seq = fr_seq f, pf_closing = fr_closing f, pf_payload = fr_payload f\<rparr> = (rc, s1)"
    by fastforce
  then show ?thesis
    using heap_push_id[of mem s "\<lparr>pf_seq = fr_seq f, pf_closing = fr_closing f, pf_payload = fr_payload f\<rparr>"]
    by (auto simp: cloak_stream_feed_frame_def feed_frame_unordered_def Let_def split: prod.splits)
qed

lemma stream_read_id [simp]: "st_id (snd (snd (cloak_stream_read s n))) = st_id s"
  by (auto simp: cloak_stream_read_def Let_def split: prod.splits mq_read_rc.splits)

lemma stream_init_id: "cloak_stream_init mem sid ob w rc mp md = (0, s) \<Longrightarrow> st_id s = sid"
  by (auto simp: cloak_stream_init_def Let_def CLOAK_SESSION_ERR_INVALID_ORDERING_def split: if_splits prod.splits)

text \<open>The sink's state only changes through the sink.\<close>

lemma write_loop_world:
  assumes "\<And>w. R w w" "\<And>x y z. R x y \<Longrightarrow> R y z \<Longrightarrow> R x z" "\<And>w x. R w (snd (sink w x))"
    and "stream_write_loop e r sink s w rest = (b, s', w')"
  shows "R w w' \<and> st_id s' = st_id s"
  using assms(4)
proof (induct "length rest" arbitrary: s w rest rule: less_induct)
  case less
  note step = stream_write_loop.simps[of e r sink s w rest]
  define chunk where "chunk = (if length rest \<le> st_max_payload s then length rest else st_max_payload s)"
  show ?case
  proof (cases "rest = [] \<or> st_max_payload s = 0")
    case True
    then show ?thesis using less.prems step assms(1) by auto
  next
    case False
    then have sh: "length (drop chunk rest) < length rest" by (auto simp: chunk_def)
    show ?thesis
    proof (cases "cloak_frame_obfuscate e (r (st_next_write_seq s)) (st_obfuscator s) (data_frame s (take chunk rest)) (st_write_buf_cap s)")
      case None
      then show ?thesis using less.prems step False assms(1) by (auto simp: chunk_def[symmetric] Let_def)
    next
      case (Some wire)
      obtain fine w1 where k: "sink w wire = (fine, w1)" by fastforce
      have R1: "R w w1" using assms(3)[of w wire] k by simp
      let ?s1 = "s\<lparr>st_next_write_seq := st_next_write_seq s + 1\<rparr>"
      show ?thesis
      proof (cases fine)
        case True
        have "stream_write_loop e r sink ?s1 w1 (drop chunk rest) = (b, s', w')"
          using less.prems step False Some k True by (simp add: chunk_def[symmetric] Let_def)
        from less.hyps[OF sh this] show ?thesis using assms(2)[OF R1] by auto
      next
        case nf: False
        then show ?thesis using less.prems step False Some k R1 by (auto simp: chunk_def[symmetric] Let_def)
      qed
    qed
  qed
qed

lemma stream_write_world:
  assumes "\<And>w. R w w" "\<And>x y z. R x y \<Longrightarrow> R y z \<Longrightarrow> R x z" "\<And>w x. R w (snd (sink w x))"
    and "cloak_stream_write e r sink s w inp = (rc, s', w')"
  shows "R w w' \<and> st_id s' = st_id s"
proof -
  obtain b s1 w1 where l: "stream_write_loop e r sink s w inp = (b, s1, w1)" by (metis prod_cases3)
  have "(s', w') = (s, w) \<or> (s', w') = (s1, w1)"
    using assms(4) l by (auto simp: cloak_stream_write_def split: if_splits)
  then show ?thesis using write_loop_world[of R sink, OF assms(1) assms(2) assms(3) l] assms(1)[of w] by auto
qed

lemma send_closing_world:
  assumes "\<And>w. R w w" "\<And>w x. R w (snd (sink w x))"
    and "cloak_stream_send_closing e r r0 sink s w ct = (rc, s', w')"
  shows "R w w' \<and> st_id s' = st_id s"
proof (cases "st_write_closed s")
  case True
  then have "cloak_stream_send_closing e r r0 sink s w ct = (-1, s, w)" by (simp only: cloak_stream_send_closing_def if_True)
  then show ?thesis using assms(1)[of w] assms(3) by simp
next
  case False
  define pad where "pad = (let m = (if st_max_payload s < 256 then st_max_payload s else 256);
      p = unat (rnd_bytes r0 1 ! 0) + 1 in if p > m then m else p)"
  define fr where "fr = \<lparr>fr_stream_id = st_id s, fr_seq = st_next_write_seq s, fr_closing = ct, fr_payload = rnd_bytes r0 pad\<rparr>"
  have c: "cloak_stream_send_closing e r r0 sink s w ct =
    (case cloak_frame_obfuscate e (r (st_next_write_seq s)) (st_obfuscator s) fr (st_write_buf_cap s) of
       None \<Rightarrow> (-1, s\<lparr>st_write_closed := True\<rparr>, w)
     | Some wire \<Rightarrow> (case sink w wire of (ok, w1) \<Rightarrow>
         (if ok then 0 else -1, s\<lparr>st_write_closed := True, st_next_write_seq := st_next_write_seq (s\<lparr>st_write_closed := True\<rparr>) + 1\<rparr>, w1)))"
    unfolding cloak_stream_send_closing_def Let_def fr_def pad_def if_not_P[OF False] by (rule refl)
  show ?thesis
  proof (cases "cloak_frame_obfuscate e (r (st_next_write_seq s)) (st_obfuscator s) fr (st_write_buf_cap s)")
    case None
    then have "(rc, s', w') = (-1, s\<lparr>st_write_closed := True\<rparr>, w)" using c assms(3) by (simp only: option.case)
    then show ?thesis using assms(1)[of w] by simp
  next
    case (Some wire)
    obtain ok w1 where k: "sink w wire = (ok, w1)" by fastforce
    have "(rc, s', w') = (if ok then 0 else -1, s\<lparr>st_write_closed := True, st_next_write_seq := st_next_write_seq (s\<lparr>st_write_closed := True\<rparr>) + 1\<rparr>, w1)"
      using c Some k assms(3) by (simp only: option.case prod.case)
    then show ?thesis using assms(2)[of w wire] k by simp
  qed
qed

end
