(* ===== verification/Strmtab.thy ===== *)
theory Strmtab
  imports CloakPrelude
begin

text \<open>
  \<open>libcloak-mux/src/strmtab.c\<close>: the session's table from stream id to stream, open addressing with linear
  probing, in which the entry of a closed stream stays for ever as a tombstone. Values are of any
  type (the code stores a pointer); a NULL value is \<^const>\<open>None\<close>. \<open>calloc\<close> succeeding is the argument
  \<open>alloc\<close>. The probe loops that the code bounds by \<open>cap\<close> count down; the one it does not bound, in
  \<open>strmtab_grow\<close>, has \<^const>\<open>None\<close> for not leaving the loop, and is proved to leave it.
\<close>

datatype strmtab_state = CLOAK_STRMTAB_ABSENT | CLOAK_STRMTAB_ACTIVE | CLOAK_STRMTAB_TOMBSTONE

record 'v strmtab_slot =
  sl_key :: u32
  sl_state :: strmtab_state
  sl_value :: "'v option"

record 'v strmtab =
  tb_slots :: "'v strmtab_slot list"
  tb_cap :: nat
  tb_count :: nat

section \<open>Operations\<close>

definition hash_u32 :: "u32 \<Rightarrow> u32" where
  "hash_u32 x =
     (let x1 = x XOR drop_bit 16 x;
          x2 = x1 * 0x85ebca6b;
          x3 = x2 XOR drop_bit 13 x2;
          x4 = x3 * 0xc2b2ae35
      in x4 XOR drop_bit 16 x4)"

function next_pow2_loop :: "nat \<Rightarrow> nat \<Rightarrow> nat" where
  "next_pow2_loop p n = (if 0 < p \<and> p < n then next_pow2_loop (p * 2) n else p)"
  by pat_completeness auto

termination by (relation "measure (\<lambda>(p, n). n - p)") auto

declare next_pow2_loop.simps [simp del]

definition next_pow2 :: "nat \<Rightarrow> nat" where
  "next_pow2 n = next_pow2_loop 8 n"

definition empty_slot :: "'v strmtab_slot" where
  \<comment> \<open>a zeroed slot\<close>
  "empty_slot = \<lparr>sl_key = 0, sl_state = CLOAK_STRMTAB_ABSENT, sl_value = None\<rparr>"

definition cloak_strmtab_init :: "bool \<Rightarrow> nat \<Rightarrow> int \<times> 'v strmtab" where
  "cloak_strmtab_init alloc initial_cap_hint =
     (let zero = \<lparr>tb_slots = [], tb_cap = 0, tb_count = 0\<rparr> in
      if initial_cap_hint = 0 then (-1, zero)
      else let cap = next_pow2 initial_cap_hint in
        if \<not> alloc then (-1, zero)
        else (0, \<lparr>tb_slots = replicate cap empty_slot, tb_cap = cap, tb_count = 0\<rparr>))"

definition cloak_strmtab_destroy :: "'v strmtab \<Rightarrow> 'v strmtab" where
  "cloak_strmtab_destroy t = \<lparr>tb_slots = [], tb_cap = 0, tb_count = 0\<rparr>"

definition probe_start :: "nat \<Rightarrow> u32 \<Rightarrow> nat" where
  "probe_start cap key = unat (hash_u32 key) AND (cap - 1)"

definition probe_next :: "nat \<Rightarrow> nat \<Rightarrow> nat" where
  "probe_next cap i = (i + 1) AND (cap - 1)"

fun lookup_loop :: "'v strmtab \<Rightarrow> u32 \<Rightarrow> nat \<Rightarrow> nat \<Rightarrow> (strmtab_state \<times> 'v option) option" where
  "lookup_loop t key i 0 = None"
| "lookup_loop t key i (Suc n) =
     (let s = tb_slots t ! i in
      if sl_state s = CLOAK_STRMTAB_ABSENT then None
      else if sl_key s = key then Some (sl_state s, sl_value s)
      else lookup_loop t key (probe_next (tb_cap t) i) n)"

definition cloak_strmtab_lookup :: "'v strmtab \<Rightarrow> u32 \<Rightarrow> (strmtab_state \<times> 'v option) option" where
  "cloak_strmtab_lookup t key = lookup_loop t key (probe_start (tb_cap t) key) (tb_cap t)"

fun find_absent :: "'v strmtab_slot list \<Rightarrow> nat \<Rightarrow> nat \<Rightarrow> nat \<Rightarrow> nat option" where
  \<comment> \<open>the inner \<open>while\<close> of \<open>strmtab_grow\<close>; running out of slots is running for ever\<close>
  "find_absent slots cap j 0 = None"
| "find_absent slots cap j (Suc n) =
     (if sl_state (slots ! j) \<noteq> CLOAK_STRMTAB_ABSENT then find_absent slots cap (probe_next cap j) n
      else Some j)"

fun rehash :: "'v strmtab_slot list \<Rightarrow> 'v strmtab \<Rightarrow> 'v strmtab option" where
  "rehash [] t = Some t"
| "rehash (s # old) t =
     (if sl_state s = CLOAK_STRMTAB_ABSENT then rehash old t
      else case find_absent (tb_slots t) (tb_cap t) (probe_start (tb_cap t) (sl_key s)) (tb_cap t) of
             None \<Rightarrow> None
           | Some j \<Rightarrow> rehash old (t\<lparr>tb_slots := (tb_slots t)[j := s], tb_count := tb_count t + 1\<rparr>))"

definition strmtab_grow :: "bool \<Rightarrow> 'v strmtab \<Rightarrow> (int \<times> 'v strmtab) option" where
  "strmtab_grow alloc t =
     (let new_cap = tb_cap t * 2 in
      if \<not> alloc then Some (-1, t)
      else map_option (Pair 0)
             (rehash (tb_slots t) \<lparr>tb_slots = replicate new_cap empty_slot, tb_cap = new_cap, tb_count = 0\<rparr>))"

fun insert_loop :: "'v strmtab \<Rightarrow> u32 \<Rightarrow> 'v option \<Rightarrow> nat \<Rightarrow> nat \<Rightarrow> int \<times> 'v strmtab" where
  "insert_loop t key v i 0 = (-1, t)"
| "insert_loop t key v i (Suc n) =
     (let s = tb_slots t ! i in
      if sl_state s = CLOAK_STRMTAB_ABSENT then
        (0, t\<lparr>tb_slots := (tb_slots t)[i := \<lparr>sl_key = key, sl_state = CLOAK_STRMTAB_ACTIVE, sl_value = v\<rparr>],
              tb_count := tb_count t + 1\<rparr>)
      else if sl_key s = key then
        if sl_state s = CLOAK_STRMTAB_ACTIVE then (-1, t)
        else (0, t\<lparr>tb_slots := (tb_slots t)[i := s\<lparr>sl_state := CLOAK_STRMTAB_ACTIVE, sl_value := v\<rparr>]\<rparr>)
      else insert_loop t key v (probe_next (tb_cap t) i) n)"

definition cloak_strmtab_insert_active :: "bool \<Rightarrow> 'v strmtab \<Rightarrow> u32 \<Rightarrow> 'v option \<Rightarrow> (int \<times> 'v strmtab) option" where
  "cloak_strmtab_insert_active alloc t key v =
     (case (if tb_count t * 10 \<ge> tb_cap t * 7 then strmtab_grow alloc t else Some (0, t)) of
        None \<Rightarrow> None
      | Some (rc, t1) \<Rightarrow>
          Some (if rc \<noteq> 0 then (-1, t1)
                else insert_loop t1 key v (probe_start (tb_cap t1) key) (tb_cap t1)))"

fun tombstone_loop :: "'v strmtab \<Rightarrow> u32 \<Rightarrow> nat \<Rightarrow> nat \<Rightarrow> int \<times> 'v strmtab" where
  "tombstone_loop t key i 0 = (-1, t)"
| "tombstone_loop t key i (Suc n) =
     (let s = tb_slots t ! i in
      if sl_state s = CLOAK_STRMTAB_ABSENT then (-1, t)
      else if sl_state s = CLOAK_STRMTAB_ACTIVE \<and> sl_key s = key then
        (0, t\<lparr>tb_slots := (tb_slots t)[i := s\<lparr>sl_state := CLOAK_STRMTAB_TOMBSTONE, sl_value := None\<rparr>]\<rparr>)
      else tombstone_loop t key (probe_next (tb_cap t) i) n)"

definition cloak_strmtab_tombstone :: "'v strmtab \<Rightarrow> u32 \<Rightarrow> int \<times> 'v strmtab" where
  "cloak_strmtab_tombstone t key = tombstone_loop t key (probe_start (tb_cap t) key) (tb_cap t)"

definition cloak_strmtab_for_each_active :: "'v strmtab \<Rightarrow> (u32 \<Rightarrow> 'v option \<Rightarrow> 's \<Rightarrow> 's) \<Rightarrow> 's \<Rightarrow> 's" where
  "cloak_strmtab_for_each_active t cb =
     fold (\<lambda>s. if sl_state s = CLOAK_STRMTAB_ACTIVE then cb (sl_key s) (sl_value s) else id) (tb_slots t)"

section \<open>Representation invariant and abstraction\<close>

abbreviation occupied :: "'v strmtab_slot \<Rightarrow> bool" where
  "occupied s \<equiv> sl_state s \<noteq> CLOAK_STRMTAB_ABSENT"

definition probe :: "nat \<Rightarrow> u32 \<Rightarrow> nat \<Rightarrow> nat" where
  \<comment> \<open>the \<open>n\<close>-th slot that a search for the key looks at\<close>
  "probe cap key n = (unat (hash_u32 key) + n) mod cap"

definition reachable_slot :: "'v strmtab_slot list \<Rightarrow> nat \<Rightarrow> bool" where
  "reachable_slot slots j \<longleftrightarrow>
     (\<exists>n < length slots. j = probe (length slots) (sl_key (slots ! j)) n
        \<and> (\<forall>m < n. occupied (slots ! probe (length slots) (sl_key (slots ! j)) m)))"

definition slots_ok :: "'v strmtab_slot list \<Rightarrow> bool" where
  "slots_ok slots \<longleftrightarrow>
     (\<forall>j < length slots. occupied (slots ! j) \<longrightarrow> reachable_slot slots j)
   \<and> (\<forall>i < length slots. \<forall>j < length slots. occupied (slots ! i) \<longrightarrow> occupied (slots ! j) \<longrightarrow>
        sl_key (slots ! i) = sl_key (slots ! j) \<longrightarrow> i = j)"

definition strmtab_ok :: "'v strmtab \<Rightarrow> bool" where
  "strmtab_ok t \<longleftrightarrow> (\<exists>k. tb_cap t = 2 ^ k) \<and> 8 \<le> tb_cap t \<and> length (tb_slots t) = tb_cap t
     \<and> tb_count t = length (filter occupied (tb_slots t)) \<and> tb_count t * 10 < tb_cap t * 7 + 10
     \<and> slots_ok (tb_slots t)"

definition strmtab_abs :: "'v strmtab \<Rightarrow> u32 \<rightharpoonup> (strmtab_state \<times> 'v option)" where
  "strmtab_abs t key =
     map_option (\<lambda>s. (sl_state s, sl_value s)) (List.find (\<lambda>s. occupied s \<and> sl_key s = key) (tb_slots t))"

lemma probe_start_eq: "cap = 2 ^ k \<Longrightarrow> probe_start cap key = probe cap key 0"
  using and_pow2[of "unat (hash_u32 key)" k] by (simp add: probe_start_def probe_def)

lemma probe_next_eq: "cap = 2 ^ k \<Longrightarrow> probe_next cap (probe cap key n) = probe cap key (Suc n)"
  using and_pow2[of "probe cap key n + 1" k] by (simp add: probe_next_def probe_def mod_simps)

lemma probe_less [simp]: "0 < cap \<Longrightarrow> probe cap key n < cap"
  by (simp add: probe_def)

lemma probe_lt: "d < cap \<Longrightarrow> probe cap key n < cap"
  using probe_less[of cap key n] by linarith

lemma probe_surj: "0 < cap \<Longrightarrow> j < cap \<Longrightarrow> \<exists>n < cap. probe cap key n = j"
proof (intro exI[of _ "(j + cap - unat (hash_u32 key) mod cap) mod cap"] conjI)
  let ?h = "unat (hash_u32 key)"
  assume *: "0 < cap" "j < cap"
  then have "?h mod cap \<le> j + cap" using mod_less_divisor[of cap ?h] by linarith
  have "(?h + (j + cap - ?h mod cap) mod cap) mod cap = (?h mod cap + (j + cap - ?h mod cap)) mod cap"
    by (simp add: mod_simps)
  also have "\<dots> = j" using * \<open>?h mod cap \<le> j + cap\<close> by simp
  finally show "probe cap key ((j + cap - ?h mod cap) mod cap) = j" by (simp add: probe_def)
qed simp

section \<open>Where a search stops\<close>

definition stops_at :: "'v strmtab_slot list \<Rightarrow> u32 \<Rightarrow> nat \<Rightarrow> bool" where
  "stops_at slots key d \<longleftrightarrow> d < length slots
     \<and> (\<forall>m < d. occupied (slots ! probe (length slots) key m) \<and> sl_key (slots ! probe (length slots) key m) \<noteq> key)
     \<and> (occupied (slots ! probe (length slots) key d) \<longrightarrow> sl_key (slots ! probe (length slots) key d) = key)"

lemma stops_exists:
  assumes "j < length slots" "\<not> occupied (slots ! j)"
  obtains d where "stops_at slots key d"
proof -
  let ?P = "\<lambda>d. occupied (slots ! probe (length slots) key d) \<longrightarrow> sl_key (slots ! probe (length slots) key d) = key"
  have "0 < length slots" using assms(1) by linarith
  then obtain n where n: "n < length slots" "probe (length slots) key n = j"
    using probe_surj[OF _ assms(1)] by blast
  then have "?P n" using assms(2) by simp
  then obtain d where d: "?P d" "\<forall>m < d. \<not> ?P m" "d \<le> n"
    using ex_least_nat_le[of ?P n] by blast
  then have "stops_at slots key d" using n(1) by (simp add: stops_at_def)
  then show ?thesis by (rule that)
qed

lemma stops_index: "stops_at slots key d \<Longrightarrow> probe (length slots) key' n < length slots"
  using probe_lt unfolding stops_at_def by blast

lemma find_slot_eq:
  assumes "slots_ok slots" "j < length slots" "occupied (slots ! j)"
  shows "List.find (\<lambda>s. occupied s \<and> sl_key s = sl_key (slots ! j)) slots = Some (slots ! j)"
proof -
  obtain i where i: "i < length slots" "occupied (slots ! i)" "sl_key (slots ! i) = sl_key (slots ! j)"
    "List.find (\<lambda>s. occupied s \<and> sl_key s = sl_key (slots ! j)) slots = Some (slots ! i)"
    using assms(2,3) find_Some_iff[of "\<lambda>s. occupied s \<and> sl_key s = sl_key (slots ! j)" slots]
      find_None_iff[of "\<lambda>s. occupied s \<and> sl_key s = sl_key (slots ! j)" slots]
    by (metis (no_types, lifting) not_Some_eq nth_mem)
  then have "i = j" using assms by (auto simp: slots_ok_def)
  with i show ?thesis by simp
qed

lemma stops_absent:
  assumes "slots_ok slots" "stops_at slots key d" "\<not> occupied (slots ! probe (length slots) key d)"
  shows "List.find (\<lambda>s. occupied s \<and> sl_key s = key) slots = None"
  unfolding find_None_iff
proof (clarsimp simp: in_set_conv_nth)
  fix j assume j: "j < length slots" "occupied (slots ! j)" "key = sl_key (slots ! j)"
  then obtain n where n: "n < length slots" "j = probe (length slots) key n"
    "\<forall>m < n. occupied (slots ! probe (length slots) key m)"
    using assms(1) by (auto simp: slots_ok_def reachable_slot_def)
  then show False using assms(2,3) j by (cases n d rule: linorder_cases) (auto simp: stops_at_def)
qed

lemma strmtab_abs_stop:
  assumes "slots_ok (tb_slots t)" "stops_at (tb_slots t) key d"
  defines "s \<equiv> tb_slots t ! probe (length (tb_slots t)) key d"
  shows "strmtab_abs t key = (if occupied s then Some (sl_state s, sl_value s) else None)"
proof (cases "occupied s")
  case True
  then have "sl_key s = key" "probe (length (tb_slots t)) key d < length (tb_slots t)"
    using assms(2) by (auto simp: stops_at_def s_def intro: probe_lt)
  then show ?thesis using find_slot_eq[OF assms(1), of "probe (length (tb_slots t)) key d"] True
    by (simp add: strmtab_abs_def s_def)
next
  case False
  then show ?thesis using stops_absent[OF assms(1,2)] by (simp add: strmtab_abs_def s_def)
qed

definition searching :: "'v strmtab \<Rightarrow> u32 \<Rightarrow> nat \<Rightarrow> bool" where
  "searching t key d \<longleftrightarrow> (\<exists>k. tb_cap t = 2 ^ k) \<and> length (tb_slots t) = tb_cap t \<and> stops_at (tb_slots t) key d"

lemma searching_step:
  assumes "searching t key d" "n < d"
  shows "tb_cap t - n = Suc (tb_cap t - Suc n)" "occupied (tb_slots t ! probe (tb_cap t) key n)"
    "sl_key (tb_slots t ! probe (tb_cap t) key n) \<noteq> key"
    "probe_next (tb_cap t) (probe (tb_cap t) key n) = probe (tb_cap t) key (Suc n)"
proof -
  have "d < tb_cap t" using assms(1) by (auto simp: searching_def stops_at_def)
  then show "tb_cap t - n = Suc (tb_cap t - Suc n)" using assms(2) by linarith
  show "occupied (tb_slots t ! probe (tb_cap t) key n)" "sl_key (tb_slots t ! probe (tb_cap t) key n) \<noteq> key"
    using assms by (auto simp: searching_def stops_at_def)
  show "probe_next (tb_cap t) (probe (tb_cap t) key n) = probe (tb_cap t) key (Suc n)"
    using assms(1) probe_next_eq by (auto simp: searching_def)
qed

lemma lookup_loop_at:
  "searching t key d \<Longrightarrow> n \<le> d \<Longrightarrow> lookup_loop t key (probe (tb_cap t) key 0) (tb_cap t)
       = lookup_loop t key (probe (tb_cap t) key n) (tb_cap t - n)"
proof (induct n)
  case (Suc n)
  then show ?case using searching_step[of t key d n] by (simp add: Let_def)
qed simp

lemma insert_loop_at:
  "searching t key d \<Longrightarrow> n \<le> d \<Longrightarrow> insert_loop t key v (probe (tb_cap t) key 0) (tb_cap t)
       = insert_loop t key v (probe (tb_cap t) key n) (tb_cap t - n)"
proof (induct n)
  case (Suc n)
  then show ?case using searching_step[of t key d n] by (simp add: Let_def)
qed simp

lemma tombstone_loop_at:
  "searching t key d \<Longrightarrow> n \<le> d \<Longrightarrow> tombstone_loop t key (probe (tb_cap t) key 0) (tb_cap t)
       = tombstone_loop t key (probe (tb_cap t) key n) (tb_cap t - n)"
proof (induct n)
  case (Suc n)
  then show ?case using searching_step[of t key d n] by (simp add: Let_def)
qed simp

lemma searching_last:
  "searching t key d \<Longrightarrow> tb_cap t - d = Suc (tb_cap t - Suc d)"
  by (auto simp: searching_def stops_at_def)

lemma strmtab_ok_has_absent:
  assumes "strmtab_ok t"
  obtains j where "j < length (tb_slots t)" "\<not> occupied (tb_slots t ! j)"
proof -
  have "tb_count t * 10 < tb_cap t * 7 + 10" "8 \<le> tb_cap t" "length (tb_slots t) = tb_cap t"
      "tb_count t = length (filter occupied (tb_slots t))"
    using assms unfolding strmtab_ok_def by blast+
  then have "length (filter occupied (tb_slots t)) < length (tb_slots t)" by linarith
  then have "\<not> (\<forall>s \<in> set (tb_slots t). occupied s)" by (intro notI) simp
  then obtain s where "s \<in> set (tb_slots t)" "\<not> occupied s" by blast
  then show ?thesis using that in_set_conv_nth[of s "tb_slots t"] by blast
qed

lemma strmtab_searching:
  assumes "strmtab_ok t"
  obtains d where "searching t key d"
  using assms strmtab_ok_has_absent[OF assms] stops_exists[of _ "tb_slots t" key]
  by (metis searching_def strmtab_ok_def)

lemma searching_start: "searching t key d \<Longrightarrow> probe_start (tb_cap t) key = probe (tb_cap t) key 0"
  by (auto simp: searching_def probe_start_eq)

lemma lookup_abs: "strmtab_ok t \<Longrightarrow> cloak_strmtab_lookup t key = strmtab_abs t key"
proof -
  assume ok: "strmtab_ok t"
  then obtain d where d: "searching t key d" by (rule strmtab_searching)
  have "strmtab_abs t key = (let s = tb_slots t ! probe (tb_cap t) key d in
      if occupied s then Some (sl_state s, sl_value s) else None)"
    using strmtab_abs_stop[of t key d] d ok by (auto simp: searching_def strmtab_ok_def Let_def)
  moreover have "occupied (tb_slots t ! probe (tb_cap t) key d) \<Longrightarrow> sl_key (tb_slots t ! probe (tb_cap t) key d) = key"
    using d by (auto simp: searching_def stops_at_def)
  ultimately show ?thesis
    using lookup_loop_at[OF d order_refl] searching_start[OF d] searching_last[OF d]
    by (auto simp: cloak_strmtab_lookup_def Let_def)
qed

section \<open>Insertion, tombstones and growth\<close>

text \<open>Filling a slot, or changing the state of an occupied one, keeps every probe path intact.\<close>

lemma slots_ok_update:
  assumes ok: "slots_ok slots" and i: "i < length slots" and occ: "occupied s"
    and path: "\<exists>n < length slots. i = probe (length slots) (sl_key s) n
        \<and> (\<forall>m < n. occupied (slots ! probe (length slots) (sl_key s) m))"
    and uniq: "\<forall>j < length slots. j \<noteq> i \<longrightarrow> occupied (slots ! j) \<longrightarrow> sl_key (slots ! j) \<noteq> sl_key s"
  shows "slots_ok (slots[i := s])"
proof -
  have grow: "occupied (slots ! j) \<Longrightarrow> occupied (slots[i := s] ! j)" if "j < length slots" for j
    using that occ by (cases "j = i") simp_all
  have "reachable_slot (slots[i := s]) j" if j: "j < length slots" "occupied (slots[i := s] ! j)" for j
  proof -
    let ?k = "sl_key (slots[i := s] ! j)"
    obtain n where n: "n < length slots" "j = probe (length slots) ?k n"
      "\<forall>m < n. occupied (slots ! probe (length slots) ?k m)"
    proof (cases "j = i")
      case True
      then show ?thesis using path that i by auto
    next
      case False
      then show ?thesis using ok j that by (auto simp: slots_ok_def reachable_slot_def)
    qed
    moreover have "\<forall>m < n. occupied (slots[i := s] ! probe (length slots) ?k m)"
      using n(3) grow probe_lt[OF n(1)] by blast
    ultimately show ?thesis unfolding reachable_slot_def by auto
  qed
  moreover have "a = b" if "a < length slots" "b < length slots" "occupied (slots[i := s] ! a)"
      "occupied (slots[i := s] ! b)" "sl_key (slots[i := s] ! a) = sl_key (slots[i := s] ! b)" for a b
    using that ok uniq i unfolding slots_ok_def
    by (cases "a = i"; cases "b = i") (simp_all, metis+)
  ultimately show ?thesis unfolding slots_ok_def by (metis length_list_update)
qed

lemma slots_ok_fill:
  assumes "slots_ok slots" "stops_at slots (sl_key s) d" "occupied s"
  shows "slots_ok (slots[probe (length slots) (sl_key s) d := s])"
proof (rule slots_ok_update[OF assms(1)])
  let ?i = "probe (length slots) (sl_key s) d"
  show i: "?i < length slots" by (rule stops_index[OF assms(2)])
  show "\<exists>n < length slots. ?i = probe (length slots) (sl_key s) n
        \<and> (\<forall>m < n. occupied (slots ! probe (length slots) (sl_key s) m))"
    using assms(2) by (auto simp: stops_at_def)
  show "\<forall>j < length slots. j \<noteq> ?i \<longrightarrow> occupied (slots ! j) \<longrightarrow> sl_key (slots ! j) \<noteq> sl_key s"
  proof (intro allI impI notI)
    fix j assume j: "j < length slots" "j \<noteq> ?i" "occupied (slots ! j)" "sl_key (slots ! j) = sl_key s"
    show False
    proof (cases "occupied (slots ! ?i)")
      case True
      then have "sl_key (slots ! ?i) = sl_key (slots ! j)" using assms(2) j(4) by (simp add: stops_at_def)
      then show False using assms(1) i j True unfolding slots_ok_def by blast
    next
      case False
      then have "List.find (\<lambda>x. occupied x \<and> sl_key x = sl_key s) slots = None"
        by (rule stops_absent[OF assms(1,2)])
      then have "\<not> (occupied (slots ! j) \<and> sl_key (slots ! j) = sl_key s)"
        using nth_mem[OF j(1)] unfolding find_None_iff by blast
      then show False using j(3,4) by blast
    qed
  qed
qed (rule assms(3))

lemma find_update_other:
  assumes "i < length slots" "occupied (slots ! i) \<longrightarrow> sl_key (slots ! i) = sl_key s" "key \<noteq> sl_key s"
  shows "List.find (\<lambda>x. occupied x \<and> sl_key x = key) (slots[i := s])
       = List.find (\<lambda>x. occupied x \<and> sl_key x = key) slots"
  using assms
proof (induct slots arbitrary: i)
  case (Cons x xs)
  then show ?case by (cases i) auto
qed simp

lemma abs_fill:
  assumes "slots_ok (tb_slots t)" "stops_at (tb_slots t) (sl_key s) d" "occupied s"
  defines "i \<equiv> probe (length (tb_slots t)) (sl_key s) d"
  shows "strmtab_abs (t\<lparr>tb_slots := (tb_slots t)[i := s], tb_count := c\<rparr>)
       = (strmtab_abs t)(sl_key s \<mapsto> (sl_state s, sl_value s))"
proof
  fix key
  have i: "i < length (tb_slots t)" unfolding i_def by (rule stops_index[OF assms(2)])
  show "strmtab_abs (t\<lparr>tb_slots := (tb_slots t)[i := s], tb_count := c\<rparr>) key
      = ((strmtab_abs t)(sl_key s \<mapsto> (sl_state s, sl_value s))) key"
  proof (cases "key = sl_key s")
    case True
    have "slots_ok ((tb_slots t)[i := s])" unfolding i_def by (rule slots_ok_fill[OF assms(1-3)])
    then show ?thesis using find_slot_eq[of "(tb_slots t)[i := s]" i] i assms(3) True
      by (simp add: strmtab_abs_def)
  next
    case False
    have "occupied (tb_slots t ! i) \<longrightarrow> sl_key (tb_slots t ! i) = sl_key s"
      using assms(2) by (simp add: stops_at_def i_def)
    then show ?thesis using find_update_other[OF i _ False] False by (simp add: strmtab_abs_def)
  qed
qed

lemma count_update:
  "i < length slots \<Longrightarrow> occupied s \<Longrightarrow>
     length (filter occupied (slots[i := s]))
       = length (filter occupied slots) + (if occupied (slots ! i) then 0 else 1)"
proof (induct slots arbitrary: i)
  case (Cons x xs)
  then show ?case by (cases i) auto
qed simp

lemma strmtab_ok_fill:
  assumes ok: "strmtab_ok t" and d: "searching t (sl_key s) d" and s: "occupied s"
    and room: "occupied (tb_slots t ! probe (tb_cap t) (sl_key s) d) \<or> tb_count t * 10 < tb_cap t * 7"
  defines "i \<equiv> probe (tb_cap t) (sl_key s) d"
  defines "t' \<equiv> t\<lparr>tb_slots := (tb_slots t)[i := s],
      tb_count := tb_count t + (if occupied (tb_slots t ! i) then 0 else 1)\<rparr>"
  shows "strmtab_ok t' \<and> strmtab_abs t' = (strmtab_abs t)(sl_key s \<mapsto> (sl_state s, sl_value s))"
proof -
  have len: "length (tb_slots t) = tb_cap t" and st: "stops_at (tb_slots t) (sl_key s) d"
    and so: "slots_ok (tb_slots t)" using ok d by (auto simp: strmtab_ok_def searching_def)
  have i: "i < length (tb_slots t)" using stops_index[OF st] len by (simp add: i_def)
  have "slots_ok ((tb_slots t)[i := s])" using slots_ok_fill[OF so st s] len by (simp add: i_def)
  moreover have "strmtab_abs t' = (strmtab_abs t)(sl_key s \<mapsto> (sl_state s, sl_value s))"
    using abs_fill[OF so st s] len by (simp add: i_def t'_def)
  moreover have "tb_count t' * 10 < tb_cap t' * 7 + 10"
    using ok room by (auto simp: t'_def strmtab_ok_def i_def)
  ultimately show ?thesis using ok count_update[OF i s] by (simp add: strmtab_ok_def t'_def)
qed

lemma insert_loop_spec:
  assumes ok: "strmtab_ok t" and room: "tb_count t * 10 < tb_cap t * 7"
  shows "case insert_loop t key v (probe_start (tb_cap t) key) (tb_cap t) of (rc, t') \<Rightarrow>
     if map_option fst (strmtab_abs t key) = Some CLOAK_STRMTAB_ACTIVE then rc = -1 \<and> t' = t
     else rc = 0 \<and> strmtab_ok t' \<and> strmtab_abs t' = (strmtab_abs t)(key \<mapsto> (CLOAK_STRMTAB_ACTIVE, v))"
proof -
  obtain d where d: "searching t key d" using strmtab_searching[OF ok] .
  define s where "s = tb_slots t ! probe (tb_cap t) key d"
  have ab: "strmtab_abs t key = (if occupied s then Some (sl_state s, sl_value s) else None)"
    using strmtab_abs_stop[of t key d] ok d by (auto simp: searching_def strmtab_ok_def s_def)
  have k: "occupied s \<Longrightarrow> sl_key s = key" using d by (auto simp: searching_def stops_at_def s_def)
  have run: "insert_loop t key v (probe_start (tb_cap t) key) (tb_cap t)
      = insert_loop t key v (probe (tb_cap t) key d) (Suc (tb_cap t - Suc d))"
    using insert_loop_at[OF d order_refl, of v] searching_start[OF d] searching_last[OF d] by simp
  let ?new = "\<lparr>sl_key = key, sl_state = CLOAK_STRMTAB_ACTIVE, sl_value = v\<rparr>"
  have fill: "strmtab_ok t' \<and> strmtab_abs t' = (strmtab_abs t)(key \<mapsto> (CLOAK_STRMTAB_ACTIVE, v))"
    if "t' = t\<lparr>tb_slots := (tb_slots t)[probe (tb_cap t) key d := ?new],
        tb_count := tb_count t + (if occupied s then 0 else 1)\<rparr>" for t'
    using strmtab_ok_fill[OF ok, of ?new d] d room that by (simp add: s_def)
  show ?thesis
  proof (cases "occupied s")
    case False
    then show ?thesis using fill ab unfolding run by (simp add: s_def Let_def)
  next
    case True
    define u where "u = s\<lparr>sl_state := CLOAK_STRMTAB_ACTIVE, sl_value := v\<rparr>"
    have "u = ?new" using k[OF True] unfolding u_def by (cases s) simp
    moreover have "insert_loop t key v (probe (tb_cap t) key d) (Suc (tb_cap t - Suc d))
        = (if sl_state s = CLOAK_STRMTAB_ACTIVE then (-1, t)
           else (0, t\<lparr>tb_slots := (tb_slots t)[probe (tb_cap t) key d := u]\<rparr>))"
      using True k[OF True] by (simp add: s_def[symmetric] u_def Let_def)
    ultimately show ?thesis using fill ab True unfolding run by simp
  qed
qed

lemma tombstone_loop_none:
  assumes "slots_ok (tb_slots t)" "searching t key d" "d < n" "n \<le> tb_cap t"
    and "occupied (tb_slots t ! probe (tb_cap t) key d)"
    and "\<not> (\<exists>j < tb_cap t. sl_state (tb_slots t ! j) = CLOAK_STRMTAB_ACTIVE \<and> sl_key (tb_slots t ! j) = key)"
  shows "tombstone_loop t key (probe (tb_cap t) key n) (tb_cap t - n) = (-1, t)"
  using assms(3,4)
proof (induction "tb_cap t - n" arbitrary: n)
  case 0
  then show ?case by simp
next
  case (Suc m)
  have eq: "tb_cap t - n = Suc (tb_cap t - Suc n)" using Suc by linarith
  have next_eq: "probe_next (tb_cap t) (probe (tb_cap t) key n) = probe (tb_cap t) key (Suc n)"
    using assms(2) probe_next_eq by (auto simp: searching_def)
  have "probe (tb_cap t) key n < tb_cap t" using Suc by (intro probe_lt[of n]) simp
  moreover have "tombstone_loop t key (probe (tb_cap t) key (Suc n)) (tb_cap t - Suc n) = (-1, t)"
    by (intro Suc.hyps(1)) (use Suc in linarith)+
  ultimately show ?case using assms(6) by (auto simp: eq next_eq Let_def)
qed

lemma tombstone_spec:
  assumes ok: "strmtab_ok t"
  shows "case cloak_strmtab_tombstone t key of (rc, t') \<Rightarrow>
     if map_option fst (strmtab_abs t key) = Some CLOAK_STRMTAB_ACTIVE
     then rc = 0 \<and> strmtab_ok t' \<and> strmtab_abs t' = (strmtab_abs t)(key \<mapsto> (CLOAK_STRMTAB_TOMBSTONE, None))
     else rc = -1 \<and> t' = t"
proof -
  obtain d where d: "searching t key d" using strmtab_searching[OF ok] .
  define s where "s = tb_slots t ! probe (tb_cap t) key d"
  have len: "length (tb_slots t) = tb_cap t" and so: "slots_ok (tb_slots t)" using ok by (auto simp: strmtab_ok_def)
  have ab: "strmtab_abs t key = (if occupied s then Some (sl_state s, sl_value s) else None)"
    using strmtab_abs_stop[of t key d] ok d by (auto simp: searching_def strmtab_ok_def s_def)
  have k: "occupied s \<Longrightarrow> sl_key s = key" using d by (auto simp: searching_def stops_at_def s_def)
  have run: "cloak_strmtab_tombstone t key = tombstone_loop t key (probe (tb_cap t) key d) (Suc (tb_cap t - Suc d))"
    using tombstone_loop_at[OF d order_refl] searching_start[OF d] searching_last[OF d]
    by (simp add: cloak_strmtab_tombstone_def)
  consider "\<not> occupied s" | "sl_state s = CLOAK_STRMTAB_ACTIVE" | "sl_state s = CLOAK_STRMTAB_TOMBSTONE"
    by (cases "sl_state s") auto
  then show ?thesis
  proof cases
    case 1
    then show ?thesis using ab unfolding run by (simp add: s_def)
  next
    case 2
    let ?new = "s\<lparr>sl_state := CLOAK_STRMTAB_TOMBSTONE, sl_value := None\<rparr>"
    have "strmtab_ok t' \<and> strmtab_abs t' = (strmtab_abs t)(key \<mapsto> (CLOAK_STRMTAB_TOMBSTONE, None))"
      if "t' = t\<lparr>tb_slots := (tb_slots t)[probe (tb_cap t) key d := ?new]\<rparr>" for t'
      using strmtab_ok_fill[OF ok, of ?new d] d k 2 that by (simp add: s_def)
    then show ?thesis using ab 2 k unfolding run by (simp add: s_def Let_def)
  next
    case 3
    have i: "probe (tb_cap t) key d < tb_cap t"
      using d stops_index len by (metis searching_def)
    have none: "\<not> (\<exists>j < tb_cap t. sl_state (tb_slots t ! j) = CLOAK_STRMTAB_ACTIVE \<and> sl_key (tb_slots t ! j) = key)"
    proof (intro notI, elim exE conjE)
      fix j assume j: "j < tb_cap t" "sl_state (tb_slots t ! j) = CLOAK_STRMTAB_ACTIVE" "sl_key (tb_slots t ! j) = key"
      then have "j = probe (tb_cap t) key d"
        using so i 3 k len unfolding slots_ok_def s_def by (metis strmtab_state.distinct(1,3))
      then show False using j 3 by (simp add: s_def)
    qed
    have "d < tb_cap t" using d len by (auto simp: searching_def stops_at_def)
    then have "tombstone_loop t key (probe (tb_cap t) key (Suc d)) (tb_cap t - Suc d) = (-1, t)"
      using tombstone_loop_none[OF so d _ _ _ none, of "Suc d"] 3 by (simp add: s_def)
    moreover have "probe_next (tb_cap t) (probe (tb_cap t) key d) = probe (tb_cap t) key (Suc d)"
      using d probe_next_eq by (auto simp: searching_def)
    ultimately show ?thesis using ab 3 unfolding run by (simp add: s_def Let_def)
  qed
qed

section \<open>Growing\<close>

text \<open>The part of the invariant that a table being refilled has, and what is left to refill.\<close>

definition refilling :: "'v strmtab \<Rightarrow> 'v strmtab_slot list \<Rightarrow> bool" where
  "refilling t old \<longleftrightarrow> (\<exists>k. tb_cap t = 2 ^ k) \<and> length (tb_slots t) = tb_cap t
     \<and> tb_count t = length (filter occupied (tb_slots t)) \<and> slots_ok (tb_slots t)
     \<and> tb_count t + length (filter occupied old) < tb_cap t
     \<and> distinct (map sl_key (filter occupied old))
     \<and> (\<forall>s \<in> set old. occupied s \<longrightarrow> strmtab_abs t (sl_key s) = None)"

definition slots_abs :: "'v strmtab_slot list \<Rightarrow> u32 \<rightharpoonup> (strmtab_state \<times> 'v option)" where
  "slots_abs slots key =
     map_option (\<lambda>s. (sl_state s, sl_value s)) (List.find (\<lambda>s. occupied s \<and> sl_key s = key) slots)"

lemma strmtab_abs_slots: "strmtab_abs t = slots_abs (tb_slots t)"
  by (simp add: fun_eq_iff strmtab_abs_def slots_abs_def)

lemma find_absent_at:
  assumes "searching t key d" "n \<le> d" "\<not> occupied (tb_slots t ! probe (tb_cap t) key d)"
  shows "find_absent (tb_slots t) (tb_cap t) (probe (tb_cap t) key n) (tb_cap t - n) = Some (probe (tb_cap t) key d)"
  using assms(2)
proof (induction "d - n" arbitrary: n)
  case 0
  then show ?case using searching_last[OF assms(1)] assms(3) by simp
next
  case (Suc m)
  then have "n < d" by simp
  from searching_step[OF assms(1) this] show ?case using Suc by simp
qed

lemma refilling_fresh:
  assumes "refilling t (s # old)" "occupied s" "x \<in> set old" "occupied x"
  shows "sl_key x \<noteq> sl_key s"
proof -
  have "sl_key s \<notin> sl_key ` {x \<in> set old. occupied x}" using assms(1,2) by (simp add: refilling_def)
  then show ?thesis using assms(3,4) by (metis (mono_tags, lifting) image_eqI mem_Collect_eq)
qed

lemma refilling_step:
  assumes r: "refilling t (s # old)" and s: "occupied s"
  obtains j where "find_absent (tb_slots t) (tb_cap t) (probe_start (tb_cap t) (sl_key s)) (tb_cap t) = Some j"
    "refilling (t\<lparr>tb_slots := (tb_slots t)[j := s], tb_count := tb_count t + 1\<rparr>) old"
    "strmtab_abs (t\<lparr>tb_slots := (tb_slots t)[j := s], tb_count := tb_count t + 1\<rparr>)
       = (strmtab_abs t)(sl_key s \<mapsto> (sl_state s, sl_value s))"
proof -
  have so: "slots_ok (tb_slots t)" and len: "length (tb_slots t) = tb_cap t" using r by (auto simp: refilling_def)
  have "length (filter occupied (tb_slots t)) < length (tb_slots t)" using r by (auto simp: refilling_def)
  then have "\<not> (\<forall>x \<in> set (tb_slots t). occupied x)" by (intro notI) simp
  then obtain i where "i < length (tb_slots t)" "\<not> occupied (tb_slots t ! i)"
    by (metis in_set_conv_nth)
  then obtain d where st: "stops_at (tb_slots t) (sl_key s) d" by (rule stops_exists)
  then have d: "searching t (sl_key s) d" using r by (auto simp: searching_def refilling_def)
  have ab: "strmtab_abs t (sl_key s) = None" using r s by (simp add: refilling_def)
  let ?j = "probe (tb_cap t) (sl_key s) d"
  let ?t = "t\<lparr>tb_slots := (tb_slots t)[?j := s], tb_count := tb_count t + 1\<rparr>"
  have free: "\<not> occupied (tb_slots t ! ?j)"
    using strmtab_abs_stop[OF so st] ab len by (auto split: if_splits)
  have ab': "strmtab_abs ?t = (strmtab_abs t)(sl_key s \<mapsto> (sl_state s, sl_value s))"
    using abs_fill[OF so st s] len by simp
  have "?j < length (tb_slots t)" using stops_index[OF st] len by simp
  then have cnt: "length (filter occupied ((tb_slots t)[?j := s])) = tb_count t + 1"
    using count_update[OF _ s] free r by (simp add: refilling_def)
  note fresh = refilling_fresh[OF r s]
  have "refilling ?t old"
    using r s cnt ab' slots_ok_fill[OF so st s] len fresh by (auto simp: refilling_def)
  moreover have "find_absent (tb_slots t) (tb_cap t) (probe_start (tb_cap t) (sl_key s)) (tb_cap t) = Some ?j"
    using find_absent_at[OF d _ free, of 0] searching_start[OF d] by simp
  ultimately show ?thesis using that ab' by blast
qed

lemma rehash_refills:
  assumes "refilling t old"
  shows "\<exists>t'. rehash old t = Some t' \<and> refilling t' [] \<and> tb_cap t' = tb_cap t
     \<and> tb_count t' = tb_count t + length (filter occupied old)
     \<and> strmtab_abs t' = strmtab_abs t ++ slots_abs old"
  using assms
proof (induction old arbitrary: t)
  case Nil
  then show ?case by (auto simp: slots_abs_def map_add_def)
next
  case (Cons s old)
  show ?case
  proof (cases "occupied s")
    case False
    then have "refilling t old" using Cons.prems by (simp add: refilling_def)
    then show ?thesis using Cons.IH[of t] False by (simp add: slots_abs_def map_add_def)
  next
    case True
    obtain j where j: "find_absent (tb_slots t) (tb_cap t) (probe_start (tb_cap t) (sl_key s)) (tb_cap t) = Some j"
      "refilling (t\<lparr>tb_slots := (tb_slots t)[j := s], tb_count := tb_count t + 1\<rparr>) old"
      "strmtab_abs (t\<lparr>tb_slots := (tb_slots t)[j := s], tb_count := tb_count t + 1\<rparr>)
       = (strmtab_abs t)(sl_key s \<mapsto> (sl_state s, sl_value s))"
      using refilling_step[OF Cons.prems True] by blast
    have "slots_abs old (sl_key s) = None"
      using refilling_fresh[OF Cons.prems True] by (auto simp: slots_abs_def find_None_iff)
    then have "(strmtab_abs t)(sl_key s \<mapsto> (sl_state s, sl_value s)) ++ slots_abs old = strmtab_abs t ++ slots_abs (s # old)"
      using True by (auto simp: fun_eq_iff map_add_def slots_abs_def split: option.splits)
    moreover obtain t' where t': "rehash old (t\<lparr>tb_slots := (tb_slots t)[j := s], tb_count := tb_count t + 1\<rparr>) = Some t'"
        "refilling t' []" "tb_cap t' = tb_cap t" "tb_count t' = tb_count t + 1 + length (filter occupied old)"
        "strmtab_abs t' = (strmtab_abs t)(sl_key s \<mapsto> (sl_state s, sl_value s)) ++ slots_abs old"
      using Cons.IH[OF j(2)] unfolding j(3) by (auto simp del: fun_upd_apply)
    ultimately have "strmtab_abs t' = strmtab_abs t ++ slots_abs (s # old)" by (simp only:)
    then show ?thesis using t'(1-4) j(1) True by (intro exI[of _ t']) simp
  qed
qed

lemma filter_replicate_absent [simp]: "filter occupied (replicate n empty_slot) = []"
  by (simp add: empty_slot_def)

lemma slots_abs_empty [simp]: "slots_abs (replicate n empty_slot) = Map.empty"
  by (auto simp: fun_eq_iff slots_abs_def empty_slot_def find_None_iff)

lemma slots_ok_empty [simp]: "slots_ok (replicate n empty_slot)"
  by (simp add: slots_ok_def empty_slot_def)

lemma slots_ok_distinct:
  assumes "slots_ok slots"
  shows "distinct (map sl_key (filter occupied slots))"
proof -
  have "distinct (map sl_key (filter occupied xs))"
    if "\<forall>i < length xs. \<forall>j < length xs. occupied (xs ! i) \<longrightarrow> occupied (xs ! j) \<longrightarrow>
        sl_key (xs ! i) = sl_key (xs ! j) \<longrightarrow> i = j" for xs :: "'a strmtab_slot list"
    using that
  proof (induct xs)
    case (Cons x xs)
    have "\<forall>i < length xs. occupied x \<longrightarrow> occupied (xs ! i) \<longrightarrow> sl_key (xs ! i) \<noteq> sl_key x"
      using Cons.prems by (metis One_nat_def Suc_less_eq length_Cons less_Suc_eq_0_disj nat.distinct(1) nth_Cons_0 nth_Cons_Suc)
    then have "occupied x \<Longrightarrow> sl_key x \<notin> sl_key ` set (filter occupied xs)"
      by (auto simp: in_set_conv_nth)
    moreover have "distinct (map sl_key (filter occupied xs))"
      using Cons.prems by (intro Cons.hyps) (metis Suc_less_eq length_Cons nat.inject nth_Cons_Suc)
    ultimately show ?case by simp
  qed simp
  then show ?thesis using assms by (simp add: slots_ok_def)
qed

lemma strmtab_grow_ok:
  assumes ok: "strmtab_ok t"
  shows "\<exists>t'. strmtab_grow True t = Some (0, t') \<and> strmtab_ok t' \<and> strmtab_abs t' = strmtab_abs t
     \<and> tb_count t' * 10 < tb_cap t' * 7"
proof -
  let ?n = "\<lparr>tb_slots = replicate (tb_cap t * 2) empty_slot, tb_cap = tb_cap t * 2, tb_count = 0\<rparr> :: 'a strmtab"
  have c: "tb_count t * 10 < tb_cap t * 7 + 10" "8 \<le> tb_cap t"
      "tb_count t = length (filter occupied (tb_slots t))"
    using ok unfolding strmtab_ok_def by blast+
  obtain k where k: "tb_cap t = 2 ^ k" using ok by (auto simp: strmtab_ok_def)
  then have k2: "tb_cap t * 2 = 2 ^ Suc k" by simp
  have "refilling ?n (tb_slots t)"
    unfolding refilling_def
  proof (intro conjI)
    show "\<exists>k. tb_cap ?n = 2 ^ k" using k2 by (metis strmtab.select_convs(2))
    show "distinct (map sl_key (filter occupied (tb_slots t)))"
      using ok slots_ok_distinct by (auto simp: strmtab_ok_def)
  qed (use c in \<open>auto simp: strmtab_abs_slots\<close>)
  then obtain t' where t': "rehash (tb_slots t) ?n = Some t'" "refilling t' []" "tb_cap t' = tb_cap t * 2"
     "tb_count t' = tb_count t" "strmtab_abs t' = strmtab_abs t"
    using rehash_refills[of ?n "tb_slots t"] c(3) by (auto simp: strmtab_abs_slots)
  have "tb_count t' * 10 < tb_cap t' * 7" using t'(3,4) c by linarith
  moreover have "strmtab_ok t'"
    using t'(2) \<open>tb_count t' * 10 < tb_cap t' * 7\<close> c(2) t'(3) by (auto simp: refilling_def strmtab_ok_def)
  ultimately show ?thesis using t' by (simp add: strmtab_grow_def Let_def)
qed

lemma insert_active_spec:
  assumes ok: "strmtab_ok t"
  shows "\<exists>rc t'. cloak_strmtab_insert_active alloc t key v = Some (rc, t') \<and> strmtab_ok t' \<and>
     (rc = 0 \<and> map_option fst (strmtab_abs t key) \<noteq> Some CLOAK_STRMTAB_ACTIVE
        \<and> strmtab_abs t' = (strmtab_abs t)(key \<mapsto> (CLOAK_STRMTAB_ACTIVE, v))
      \<or> rc = -1 \<and> strmtab_abs t' = strmtab_abs t
        \<and> (map_option fst (strmtab_abs t key) = Some CLOAK_STRMTAB_ACTIVE \<or> \<not> alloc))"
proof (cases "tb_count t * 10 \<ge> tb_cap t * 7")
  case False
  then show ?thesis using insert_loop_spec[OF ok, of key v] ok
    by (auto simp: cloak_strmtab_insert_active_def split: prod.splits if_splits)
next
  case True
  show ?thesis
  proof (cases alloc)
    case False
    then show ?thesis using True ok by (simp add: cloak_strmtab_insert_active_def strmtab_grow_def Let_def)
  next
    case alloc: True
    obtain t1 where t1: "strmtab_grow True t = Some (0, t1)" "strmtab_ok t1" "strmtab_abs t1 = strmtab_abs t"
      "tb_count t1 * 10 < tb_cap t1 * 7"
      using strmtab_grow_ok[OF ok] by blast
    then show ?thesis using insert_loop_spec[OF t1(2,4), of key v] True alloc
      by (auto simp: cloak_strmtab_insert_active_def split: prod.splits if_splits)
  qed
qed

section \<open>The contract of the stream table\<close>

text \<open>
  What the session relies on: lookups see exactly the abstract map, insertion and tombstoning act on one
  key, and a failed operation changes nothing visible.
\<close>

datatype 'v table_op = Insert u32 "'v option" | Tombstone u32

locale stream_table =
  fixes ok :: "'t \<Rightarrow> bool"
    and abs :: "'t \<Rightarrow> u32 \<rightharpoonup> (strmtab_state \<times> 'v option)"
    and look :: "'t \<Rightarrow> u32 \<Rightarrow> (strmtab_state \<times> 'v option) option"
    and ins :: "'t \<Rightarrow> u32 \<Rightarrow> 'v option \<Rightarrow> (int \<times> 't) option"
    and tomb :: "'t \<Rightarrow> u32 \<Rightarrow> int \<times> 't"
  assumes look_abs: "ok t \<Longrightarrow> look t key = abs t key"
    and ins_spec: "ok t \<Longrightarrow> \<exists>rc t'. ins t key v = Some (rc, t') \<and> ok t' \<and>
          (rc = 0 \<and> map_option fst (abs t key) \<noteq> Some CLOAK_STRMTAB_ACTIVE
             \<and> abs t' = (abs t)(key \<mapsto> (CLOAK_STRMTAB_ACTIVE, v))
           \<or> rc = -1 \<and> abs t' = abs t)"
    and tomb_spec: "ok t \<Longrightarrow> ok (snd (tomb t key)) \<and>
          (fst (tomb t key) = 0 \<and> map_option fst (abs t key) = Some CLOAK_STRMTAB_ACTIVE
             \<and> abs (snd (tomb t key)) = (abs t)(key \<mapsto> (CLOAK_STRMTAB_TOMBSTONE, None))
           \<or> fst (tomb t key) = -1 \<and> map_option fst (abs t key) \<noteq> Some CLOAK_STRMTAB_ACTIVE
             \<and> abs (snd (tomb t key)) = abs t)"
begin

text \<open>Run a sequence of operations; \<^const>\<open>None\<close> only if an insertion does not return.\<close>

fun run :: "'t \<Rightarrow> 'v table_op list \<Rightarrow> 't option" where
  "run t [] = Some t"
| "run t (Insert key v # ops) = (case ins t key v of None \<Rightarrow> None | Some (rc, t') \<Rightarrow> run t' ops)"
| "run t (Tombstone key # ops) = run (snd (tomb t key)) ops"

fun touches :: "u32 \<Rightarrow> 'v table_op \<Rightarrow> bool" where
  "touches key (Insert k v) = (k = key)"
| "touches key (Tombstone k) = False"

text \<open>A key, once present, never becomes absent; a tombstone stays until its own key is inserted again.\<close>

lemma run_remembers:
  "ok t \<Longrightarrow> \<exists>t'. run t ops = Some t' \<and> ok t' \<and> dom (abs t) \<subseteq> dom (abs t')
     \<and> (map_option fst (abs t key) = Some CLOAK_STRMTAB_TOMBSTONE \<longrightarrow> (\<forall>op \<in> set ops. \<not> touches key op) \<longrightarrow>
        map_option fst (abs t' key) = Some CLOAK_STRMTAB_TOMBSTONE)"
proof (induct ops arbitrary: t)
  case (Cons op ops)
  show ?case
  proof (cases op)
    case (Insert k v)
    obtain rc t1 where i: "ins t k v = Some (rc, t1)" "ok t1"
        "abs t1 = (abs t)(k \<mapsto> (CLOAK_STRMTAB_ACTIVE, v)) \<or> abs t1 = abs t"
      using ins_spec[OF Cons.prems, of k v] by blast
    then have t1: "ins t k v = Some (rc, t1)" "ok t1" "dom (abs t) \<subseteq> dom (abs t1)"
      "k \<noteq> key \<longrightarrow> abs t1 key = abs t key" by auto
    then show ?thesis using Cons.hyps[OF t1(2)] Insert by fastforce
  next
    case (Tombstone k)
    let ?t1 = "snd (tomb t k)"
    have t1: "ok ?t1" "dom (abs t) \<subseteq> dom (abs ?t1)"
      "map_option fst (abs t key) = Some CLOAK_STRMTAB_TOMBSTONE \<longrightarrow> map_option fst (abs ?t1 key) = Some CLOAK_STRMTAB_TOMBSTONE"
      using tomb_spec[OF Cons.prems, of k] by (auto split: if_splits)
    then show ?thesis using Cons.hyps[OF t1(1)] Tombstone by fastforce
  qed
qed auto

end

interpretation st: stream_table strmtab_ok strmtab_abs cloak_strmtab_lookup
  "cloak_strmtab_insert_active alloc" cloak_strmtab_tombstone for alloc
proof unfold_locales
  fix t :: "'v strmtab" and key v
  assume ok: "strmtab_ok t"
  show "cloak_strmtab_lookup t key = strmtab_abs t key" by (rule lookup_abs[OF ok])
  show "\<exists>rc t'. cloak_strmtab_insert_active alloc t key v = Some (rc, t') \<and> strmtab_ok t' \<and>
          (rc = 0 \<and> map_option fst (strmtab_abs t key) \<noteq> Some CLOAK_STRMTAB_ACTIVE
             \<and> strmtab_abs t' = (strmtab_abs t)(key \<mapsto> (CLOAK_STRMTAB_ACTIVE, v))
           \<or> rc = -1 \<and> strmtab_abs t' = strmtab_abs t)"
    using insert_active_spec[OF ok, of alloc key v] by blast
  show "strmtab_ok (snd (cloak_strmtab_tombstone t key)) \<and>
          (fst (cloak_strmtab_tombstone t key) = 0 \<and> map_option fst (strmtab_abs t key) = Some CLOAK_STRMTAB_ACTIVE
             \<and> strmtab_abs (snd (cloak_strmtab_tombstone t key)) = (strmtab_abs t)(key \<mapsto> (CLOAK_STRMTAB_TOMBSTONE, None))
           \<or> fst (cloak_strmtab_tombstone t key) = -1 \<and> map_option fst (strmtab_abs t key) \<noteq> Some CLOAK_STRMTAB_ACTIVE
             \<and> strmtab_abs (snd (cloak_strmtab_tombstone t key)) = strmtab_abs t)"
    using tombstone_spec[OF ok, of key] ok by (auto split: prod.splits if_splits)
qed

lemma next_pow2_loop_ge: "0 < p \<Longrightarrow> p \<le> next_pow2_loop p n \<and> (\<exists>k. next_pow2_loop p n = p * 2 ^ k)"
proof (induction p n rule: next_pow2_loop.induct)
  case (1 p n)
  show ?case
  proof (cases "p < n")
    case True
    then obtain k where "p * 2 \<le> next_pow2_loop (p * 2) n" "next_pow2_loop (p * 2) n = p * 2 * 2 ^ k"
      using 1 by auto
    then show ?thesis using True 1(2) next_pow2_loop.simps[of p n]
      by (metis (no_types, lifting) le_trans mult.assoc mult_le_mono2 one_le_numeral mult.right_neutral power_Suc)
  next
    case False
    then show ?thesis by (auto simp: next_pow2_loop.simps[of p n] intro: exI[of _ 0])
  qed
qed

lemma strmtab_init_ok:
  assumes "cloak_strmtab_init True n = (rc, t)" "0 < n"
  shows "rc = 0 \<and> strmtab_ok t \<and> strmtab_abs t = Map.empty"
proof -
  obtain k where "next_pow2 n = 8 * 2 ^ k" "8 \<le> next_pow2 n"
    using next_pow2_loop_ge[of 8 n] by (auto simp: next_pow2_def)
  then have "\<exists>k. next_pow2 n = 2 ^ k" by (intro exI[of _ "k + 3"]) (simp add: power_add)
  then show ?thesis using assms \<open>8 \<le> next_pow2 n\<close>
    by (auto simp: cloak_strmtab_init_def Let_def strmtab_ok_def strmtab_abs_slots)
qed

section \<open>Properties\<close>

text \<open>
  C25: the hash table is a map. On every well-formed table a lookup returns the abstract entry; an insertion
  returns, rejects a live key without change, and otherwise (unless memory runs out while growing) makes exactly that key
  live, through any growth, keeping every other key's entry; and marking a tombstone acts on exactly a live key.
\<close>

theorem strmtab_refines_map:
  assumes "strmtab_ok t"
  shows "cloak_strmtab_lookup t key = strmtab_abs t key
     \<and> (\<exists>rc t'. cloak_strmtab_insert_active alloc t key v = Some (rc, t') \<and> strmtab_ok t' \<and>
          (rc = 0 \<and> map_option fst (strmtab_abs t key) \<noteq> Some CLOAK_STRMTAB_ACTIVE
             \<and> strmtab_abs t' = (strmtab_abs t)(key \<mapsto> (CLOAK_STRMTAB_ACTIVE, v))
           \<or> rc = -1 \<and> strmtab_abs t' = strmtab_abs t
             \<and> (map_option fst (strmtab_abs t key) = Some CLOAK_STRMTAB_ACTIVE \<or> \<not> alloc)))
     \<and> (\<exists>rc t'. cloak_strmtab_tombstone t key = (rc, t') \<and> strmtab_ok t' \<and>
          (if map_option fst (strmtab_abs t key) = Some CLOAK_STRMTAB_ACTIVE
           then rc = 0 \<and> strmtab_abs t' = (strmtab_abs t)(key \<mapsto> (CLOAK_STRMTAB_TOMBSTONE, None))
           else rc = -1 \<and> t' = t))"
  using lookup_abs[OF assms, of key] insert_active_spec[OF assms, of alloc key v] tombstone_spec[OF assms, of key] assms
  by (auto split: prod.splits if_splits)

theorem strmtab_refines_map_witness:
  "\<exists>t :: nat strmtab. cloak_strmtab_init True 5 = (0, t) \<and> cloak_strmtab_lookup t 3 = None
     \<and> (\<exists>t'. cloak_strmtab_insert_active True t 3 (Some 9) = Some (0, t') \<and> strmtab_abs t' 3 = Some (CLOAK_STRMTAB_ACTIVE, Some 9))"
proof -
  obtain t :: "nat strmtab" where t: "cloak_strmtab_init True 5 = (0, t)" "strmtab_ok t" "strmtab_abs t = Map.empty"
    using strmtab_init_ok[of 5] by (metis prod.collapse zero_less_numeral)
  then show ?thesis using strmtab_refines_map[OF t(2), of 3 True "Some 9"] by (intro exI[of _ t]) auto
qed

text \<open>
  A closed stream is remembered. Over any sequence of insertions and tombstone markings, which all return, no key
  that was present becomes absent, and a tombstone stays a tombstone until its own id is inserted again, through every growth.
\<close>

theorem strmtab_tombstones_persist:
  assumes "strmtab_ok t"
  shows "\<exists>t'. st.run alloc t ops = Some t' \<and> strmtab_ok t' \<and> dom (strmtab_abs t) \<subseteq> dom (strmtab_abs t')
     \<and> (map_option fst (strmtab_abs t key) = Some CLOAK_STRMTAB_TOMBSTONE \<longrightarrow> (\<forall>op \<in> set ops. \<not> st.touches key op) \<longrightarrow>
        map_option fst (cloak_strmtab_lookup t' key) = Some CLOAK_STRMTAB_TOMBSTONE)"
  using st.run_remembers[OF assms, of alloc ops key] lookup_abs by metis

theorem strmtab_tombstones_persist_witness:
  "\<exists>t t' :: nat strmtab. cloak_strmtab_init True 5 = (0, t) \<and> st.run True t [Insert 3 None, Tombstone 3, Insert 4 None] = Some t'
     \<and> strmtab_ok t'"
proof -
  obtain t :: "nat strmtab" where t: "cloak_strmtab_init True 5 = (0, t)" "strmtab_ok t"
    using strmtab_init_ok[of 5] by (metis prod.collapse zero_less_numeral)
  then show ?thesis using strmtab_tombstones_persist[OF t(2), of True "[Insert 3 None, Tombstone 3, Insert 4 None]" 3] by blast
qed

end
