(* ===== verification/WsFrame.thy ===== *)
theory WsFrame
  imports CloakRandom
begin

text \<open>
  \<open>libcloak-mux/src/ws_frame.c\<close>: the RFC 6455 frame header codec and the masking of payloads. A parse
  has three outcomes in the code (a length, 0 for incomplete, -1 for malformed), here the constructors of
  \<open>ws_parse\<close>. A NULL mask key is \<^const>\<open>None\<close>.
\<close>

definition CLOAK_WS_FRAME_MAX_HEADER_LEN :: nat where "CLOAK_WS_FRAME_MAX_HEADER_LEN = 14"
definition CLOAK_WS_FRAME_MAX_CONTROL_PAYLOAD :: nat where "CLOAK_WS_FRAME_MAX_CONTROL_PAYLOAD = 125"

definition CLOAK_WS_OP_CONTINUATION :: byte where "CLOAK_WS_OP_CONTINUATION = 0x0"
definition CLOAK_WS_OP_TEXT :: byte where "CLOAK_WS_OP_TEXT = 0x1"
definition CLOAK_WS_OP_BINARY :: byte where "CLOAK_WS_OP_BINARY = 0x2"
definition CLOAK_WS_OP_CLOSE :: byte where "CLOAK_WS_OP_CLOSE = 0x8"
definition CLOAK_WS_OP_PING :: byte where "CLOAK_WS_OP_PING = 0x9"
definition CLOAK_WS_OP_PONG :: byte where "CLOAK_WS_OP_PONG = 0xA"

lemmas ws_consts = CLOAK_WS_FRAME_MAX_HEADER_LEN_def CLOAK_WS_FRAME_MAX_CONTROL_PAYLOAD_def
lemmas ws_ops = CLOAK_WS_OP_CONTINUATION_def CLOAK_WS_OP_TEXT_def CLOAK_WS_OP_BINARY_def
  CLOAK_WS_OP_CLOSE_def CLOAK_WS_OP_PING_def CLOAK_WS_OP_PONG_def

record ws_frame_header =
  wh_opcode :: byte
  wh_fin :: bool
  wh_masked :: bool
  wh_mask_key :: bytes
  wh_payload_len :: u64
  wh_header_len :: nat

datatype ws_parse = WsNeedMore | WsMalformed | WsHeader ws_frame_header

section \<open>Operations\<close>

definition ws_opcode_is_known :: "byte \<Rightarrow> bool" where
  "ws_opcode_is_known op \<longleftrightarrow> op \<in> {CLOAK_WS_OP_CONTINUATION, CLOAK_WS_OP_TEXT, CLOAK_WS_OP_BINARY,
     CLOAK_WS_OP_CLOSE, CLOAK_WS_OP_PING, CLOAK_WS_OP_PONG}"

definition ws_opcode_is_control :: "byte \<Rightarrow> bool" where
  "ws_opcode_is_control op \<longleftrightarrow> op AND 0x8 \<noteq> 0"

definition ws_load_be16 :: "bytes \<Rightarrow> u16" where "ws_load_be16 p = be16_load p"
definition ws_load_be64 :: "bytes \<Rightarrow> u64" where "ws_load_be64 p = be_load (take 8 p) 0"
definition ws_store_be16 :: "u16 \<Rightarrow> bytes" where "ws_store_be16 v = be16_store v"
definition ws_store_be64 :: "u64 \<Rightarrow> bytes" where "ws_store_be64 v = be_store 8 v"

definition cloak_ws_frame_parse_header :: "bytes \<Rightarrow> ws_parse" where
  "cloak_ws_frame_parse_header buf =
     (let len = length buf in
      if len < 2 then WsNeedMore
      else
        let b0 = buf ! 0; b1 = buf ! 1; op = b0 AND 0x0f; len7 = b1 AND 0x7f in
        if b0 AND (0x40 OR 0x20 OR 0x10) \<noteq> 0 then WsMalformed
        else if \<not> ws_opcode_is_known op then WsMalformed
        else if ws_opcode_is_control op \<and> unat len7 > CLOAK_WS_FRAME_MAX_CONTROL_PAYLOAD then WsMalformed
        else if ws_opcode_is_control op \<and> b0 AND 0x80 = 0 then WsMalformed
        else
          let ext_len = (if len7 = 126 then 2 else if len7 = 127 then 8 else 0) in
          if len < 2 + ext_len then WsNeedMore
          else
            let payload_len = (if ext_len = 2 then ucast (ws_load_be16 (drop 2 buf))
                               else if ext_len = 8 then ws_load_be64 (drop 2 buf) else ucast len7)
            in
            if ext_len = 8 \<and> payload_len AND 0x8000000000000000 \<noteq> 0 then WsMalformed
            else
              let need = 2 + ext_len + (if b1 AND 0x80 \<noteq> 0 then 4 else 0) in
              if len < need then WsNeedMore
              else WsHeader \<lparr>wh_opcode = op, wh_fin = (b0 AND 0x80 \<noteq> 0), wh_masked = (b1 AND 0x80 \<noteq> 0),
                     wh_mask_key = (if b1 AND 0x80 \<noteq> 0 then take 4 (drop (2 + ext_len) buf) else replicate 4 0),
                     wh_payload_len = payload_len, wh_header_len = need\<rparr>)"

definition cloak_ws_frame_mask :: "bytes \<Rightarrow> bytes \<Rightarrow> nat \<Rightarrow> bytes \<times> nat" where
  "cloak_ws_frame_mask payload key pos =
     (if payload = [] then (payload, pos AND 3)
      else (map (\<lambda>i. payload ! i XOR key ! ((pos + i) AND 3)) [0..<length payload],
            (pos + length payload) AND 3))"

definition cloak_ws_frame_write_header :: "nat \<Rightarrow> byte \<Rightarrow> bool \<Rightarrow> bytes option \<Rightarrow> u64 \<Rightarrow> bytes option" where
  "cloak_ws_frame_write_header cap op fin mask_key payload_len =
     (if \<not> ws_opcode_is_known op then None
      else if ws_opcode_is_control op \<and> (unat payload_len > CLOAK_WS_FRAME_MAX_CONTROL_PAYLOAD \<or> \<not> fin) then None
      else if payload_len AND 0x8000000000000000 \<noteq> 0 then None
      else
        let ext_len = (if payload_len \<le> 125 then 0 else if payload_len \<le> 0xffff then 2 else 8);
            need = 2 + ext_len + (case mask_key of None \<Rightarrow> 0 | Some _ \<Rightarrow> 4)
        in
        if cap < need then None
        else
          let b0 = (if fin then 0x80 else 0) OR (op AND 0x0f);
              b1 = (if ext_len = 0 then ucast payload_len else if ext_len = 2 then 126 else (127 :: byte));
              ext = (if ext_len = 0 then []
                     else if ext_len = 2 then ws_store_be16 (ucast payload_len) else ws_store_be64 payload_len)
          in Some (case mask_key of
                     None \<Rightarrow> [b0, b1] @ ext
                   | Some key \<Rightarrow> [b0, b1 OR 0x80] @ ext @ take 4 key))"

definition cloak_ws_frame_mask_key :: "entropy \<Rightarrow> bytes" where
  "cloak_ws_frame_mask_key r = rnd_bytes r 4"

section \<open>Masking\<close>

lemma and_3: "(x :: nat) AND 3 = x mod 4"
  using and_pow2[of x 2] by simp

lemma ws_mask_eq:
  "cloak_ws_frame_mask payload key pos
     = (map (\<lambda>i. payload ! i XOR key ! ((pos + i) mod 4)) [0..<length payload], (pos + length payload) mod 4)"
  by (simp add: cloak_ws_frame_mask_def and_3)

lemma ws_mask_length [simp]: "length (fst (cloak_ws_frame_mask payload key pos)) = length payload"
  by (simp add: ws_mask_eq)

lemma ws_mask_append:
  "fst (cloak_ws_frame_mask (a @ b) key pos)
     = fst (cloak_ws_frame_mask a key pos) @ fst (cloak_ws_frame_mask b key (snd (cloak_ws_frame_mask a key pos)))"
proof -
  have "map (\<lambda>i. (a @ b) ! i XOR key ! ((pos + i) mod 4)) [length a..<length a + length b]
      = map (\<lambda>i. b ! i XOR key ! (((pos + length a) mod 4 + i) mod 4)) [0..<length b]"
    by (rule nth_equalityI) (auto simp: nth_append mod_simps add.assoc)
  moreover have "map (\<lambda>i. (a @ b) ! i XOR key ! ((pos + i) mod 4)) [0..<length a]
      = map (\<lambda>i. a ! i XOR key ! ((pos + i) mod 4)) [0..<length a]"
    by (rule map_cong) (auto simp: nth_append)
  ultimately show ?thesis by (simp add: ws_mask_eq upt_add_eq_append[of 0 "length a" "length b"])
qed

lemma ws_mask_twice:
  "fst (cloak_ws_frame_mask (fst (cloak_ws_frame_mask p key pos)) key pos) = p"
  by (rule nth_equalityI) (auto simp: ws_mask_eq xor.assoc)

text \<open>
  Masking is an involution, and masking a payload in chunks while threading the returned position
  gives the same bytes as masking it whole, wherever the cuts fall.
\<close>

theorem ws_mask_chunked_involution:
  "fst (cloak_ws_frame_mask (fst (cloak_ws_frame_mask p key pos)) key pos) = p
   \<and> cloak_ws_frame_mask (a @ b) key pos
       = (let (ma, pos1) = cloak_ws_frame_mask a key pos; (mb, pos2) = cloak_ws_frame_mask b key pos1
          in (ma @ mb, pos2))"
  using ws_mask_twice[of p key pos] ws_mask_append[of a b key pos]
  by (auto simp: ws_mask_eq mod_simps add.assoc split: prod.splits)

section \<open>Headers\<close>

lemma byte_and_7f: "(x :: byte) AND 0x7f = take_bit 7 x"
  by (simp add: take_bit_eq_mask mask_eq_exp_minus_1)

lemma byte_and_80: "(x :: byte) AND 0x80 = 0 \<longleftrightarrow> \<not> bit x 7"
  using and_exp_eq_0_iff_not_bit[of x 7] by simp

lemma byte_or_and_mask:
  fixes b :: byte
  assumes "b < 128"
  shows "(b OR 0x80) AND 0x7f = b" "(b OR 0x80) AND 0x80 \<noteq> 0" "b AND 0x7f = b" "b AND 0x80 = 0"
proof -
  have t: "take_bit 7 b = b"
    using assms by (simp add: word_unat_eq_iff unsigned_take_bit_eq take_bit_nat_eq_self word_less_nat_alt)
  then show "(b OR 0x80) AND 0x7f = b" "b AND 0x7f = b" by (simp_all add: byte_and_7f)
  have "bit (0x80 :: byte) 7" by simp
  then show "(b OR 0x80) AND 0x80 \<noteq> 0" unfolding byte_and_80 bit_or_iff by blast
  show "b AND 0x80 = 0" unfolding byte_and_80 using t by (metis bit_take_bit_iff less_irrefl)
qed

lemma ws_known_cases:
  "ws_opcode_is_known op \<Longrightarrow> op = 0 \<or> op = 1 \<or> op = 2 \<or> op = 8 \<or> op = 9 \<or> op = 10"
  by (auto simp: ws_opcode_is_known_def ws_ops)

lemma ws_b0_fields:
  assumes "ws_opcode_is_known op"
  shows "((if fin then 0x80 else 0) OR (op AND 0x0f)) AND 0x0f = op"
    "((if fin then 0x80 else 0) OR (op AND 0x0f)) AND (0x40 OR 0x20 OR 0x10) = 0"
    "((if fin then 0x80 else 0) OR (op AND 0x0f)) AND 0x70 = 0"
    "((if fin then 0x80 else 0) OR (op AND 0x0f)) AND 0x80 = 0 \<longleftrightarrow> \<not> fin"
  using ws_known_cases[OF assms] by (auto split: if_splits)

lemma ws_control_len7:
  "ws_opcode_is_control op \<Longrightarrow> unat payload_len \<le> 125 \<Longrightarrow> (payload_len :: u64) \<le> 125"
  by (simp add: word_le_nat_alt)

lemma ws_len7_small:
  assumes "(plen :: u64) \<le> 125"
  shows "(ucast plen :: byte) < 128" "unat (ucast plen :: byte) = unat plen"
    "(ucast plen :: byte) \<noteq> 126" "(ucast plen :: byte) \<noteq> 127" "ucast (ucast plen :: byte) = plen"
proof -
  have le: "unat plen \<le> 125" using assms by (simp add: word_le_nat_alt)
  then have u: "unat (ucast plen :: byte) = unat plen" by (simp add: unsigned_ucast_eq unsigned_take_bit_eq take_bit_nat_eq_self)
  then show "unat (ucast plen :: byte) = unat plen" .
  show "(ucast plen :: byte) < 128" using u le by (simp add: word_less_nat_alt)
  show "(ucast plen :: byte) \<noteq> 126" "(ucast plen :: byte) \<noteq> 127" using u le by (auto simp: word_unat_eq_iff)
  have "unat (ucast (ucast plen :: byte) :: u64) = unat plen" using u le by (simp add: unsigned_ucast_eq unsigned_take_bit_eq take_bit_nat_eq_self)
  then show "ucast (ucast plen :: byte) = plen" by (simp add: word_unat_eq_iff)
qed

lemma ws_len16:
  assumes "(plen :: u64) \<le> 0xffff"
  shows "ucast (ws_load_be16 (ws_store_be16 (ucast plen) @ rest)) = plen"
proof -
  have "ws_load_be16 (ws_store_be16 (ucast plen) @ rest) = (ucast plen :: u16)"
    by (simp add: ws_load_be16_def ws_store_be16_def be16_load_store take_bit_word_full)
  moreover have "unat plen < 2 ^ 16" using assms by (simp add: word_le_nat_alt)
  then have "ucast (ucast plen :: u16) = plen" by (simp add: word_unat_eq_iff unsigned_ucast_eq unsigned_take_bit_eq take_bit_nat_eq_self)
  ultimately show ?thesis by simp
qed

lemma ws_len64: "ws_load_be64 (ws_store_be64 v @ rest) = v"
  using be_load_store[of 8 v] by (simp add: ws_load_be64_def ws_store_be64_def take_bit_word_full)

text \<open>The shape of an emitted header, one equation for the three length forms.\<close>

definition ws_ext :: "u64 \<Rightarrow> bytes" where
  "ws_ext plen = (if plen \<le> 125 then [] else if plen \<le> 0xffff then ws_store_be16 (ucast plen) else ws_store_be64 plen)"

definition ws_b1 :: "u64 \<Rightarrow> byte" where
  "ws_b1 plen = (if plen \<le> 125 then ucast plen else if plen \<le> 0xffff then 126 else 127)"

lemma length_ws_ext: "length (ws_ext plen) = (if plen \<le> 125 then 0 else if plen \<le> 0xffff then 2 else 8)"
  by (simp add: ws_ext_def ws_store_be16_def ws_store_be64_def)

lemma ws_b1_fields:
  "ws_b1 plen < 128"
  "(if ws_b1 plen = 126 then 2 else if ws_b1 plen = 127 then 8 else 0) = length (ws_ext plen)"
  using ws_len7_small[of plen] by (auto simp: ws_b1_def length_ws_ext)

lemma ws_payload_len_back:
  "(if length (ws_ext plen) = 2 then ucast (ws_load_be16 (ws_ext plen @ rest))
    else if length (ws_ext plen) = 8 then ws_load_be64 (ws_ext plen @ rest) else ucast (ws_b1 plen)) = plen"
  using ws_len7_small[of plen] ws_len16[of plen rest] ws_len64[of plen rest]
  by (auto simp: length_ws_ext) (auto simp: ws_ext_def ws_b1_def)

lemma write_header_shape:
  assumes "cloak_ws_frame_write_header cap op fin mk plen = Some hdr"
  shows "hdr = [(if fin then 0x80 else 0) OR (op AND 0x0f), (if mk = None then ws_b1 plen else ws_b1 plen OR 0x80)]
           @ ws_ext plen @ (case mk of None \<Rightarrow> [] | Some k \<Rightarrow> take 4 k)
       \<and> ws_opcode_is_known op \<and> plen AND 0x8000000000000000 = 0
       \<and> (ws_opcode_is_control op \<longrightarrow> unat plen \<le> 125 \<and> fin)"
  using assms
  by (auto simp: cloak_ws_frame_write_header_def Let_def ws_b1_def ws_ext_def ws_consts split: if_splits option.splits)

lemma parse_shape:
  assumes known: "ws_opcode_is_known op" and high: "plen AND 0x8000000000000000 = 0"
    and ctl: "ws_opcode_is_control op \<longrightarrow> unat plen \<le> 125 \<and> fin"
    and key: "length key = (if masked then 4 else 0)"
  defines "b0 \<equiv> (if fin then 0x80 else 0) OR (op AND 0x0f)"
  defines "b1 \<equiv> (if masked then ws_b1 plen OR 0x80 else ws_b1 plen)"
  shows "cloak_ws_frame_parse_header (b0 # b1 # ws_ext plen @ key @ rest)
       = WsHeader \<lparr>wh_opcode = op, wh_fin = fin, wh_masked = masked,
           wh_mask_key = (if masked then key else replicate 4 0), wh_payload_len = plen,
           wh_header_len = 2 + length (ws_ext plen) + length key\<rparr>"
proof -
  have l7: "b1 AND 0x7f = ws_b1 plen" "(b1 AND 0x80 \<noteq> 0) = masked"
    using byte_or_and_mask[OF ws_b1_fields(1)[of plen]] by (auto simp: b1_def)
  have c: "ws_opcode_is_control op \<longrightarrow> \<not> 125 < unat (ws_b1 plen)"
    using ctl ws_len7_small[of plen] ws_control_len7[of op plen] by (auto simp: ws_b1_def)
  note b0f = ws_b0_fields[OF known, of fin, folded b0_def]
  show ?thesis
    unfolding cloak_ws_frame_parse_header_def Let_def
    using known high c ctl key
    by (simp add: b0f l7 ws_b1_fields(2) ws_consts ws_payload_len_back cong: if_cong) 
qed

lemma parse_prefix:
  assumes known: "ws_opcode_is_known op" and high: "plen AND 0x8000000000000000 = 0"
    and ctl: "ws_opcode_is_control op \<longrightarrow> unat plen \<le> 125 \<and> fin"
    and key: "length key = (if masked then 4 else 0)"
  defines "b0 \<equiv> (if fin then 0x80 else 0) OR (op AND 0x0f)"
  defines "b1 \<equiv> (if masked then ws_b1 plen OR 0x80 else ws_b1 plen)"
  assumes k: "k < 2 + length (ws_ext plen) + length key"
  shows "cloak_ws_frame_parse_header (take k (b0 # b1 # ws_ext plen @ key)) = WsNeedMore"
proof (cases "k < 2")
  case True
  then show ?thesis using k by (simp add: cloak_ws_frame_parse_header_def Let_def)
next
  case False
  then obtain m where m: "k = Suc (Suc m)" by (metis add_2_eq_Suc' le_Suc_ex not_less_eq_eq numeral_2_eq_2 not_less add.commute)
  have l7: "b1 AND 0x7f = ws_b1 plen" "(b1 AND 0x80 \<noteq> 0) = masked"
    using byte_or_and_mask[OF ws_b1_fields(1)[of plen]] by (auto simp: b1_def)
  have c: "ws_opcode_is_control op \<longrightarrow> \<not> 125 < unat (ws_b1 plen)"
    using ctl ws_len7_small[of plen] ws_control_len7[of op plen] by (auto simp: ws_b1_def)
  note b0f = ws_b0_fields[OF known, of fin, folded b0_def]
  show ?thesis
  proof (cases "m < length (ws_ext plen)")
    case True
    then show ?thesis
      unfolding cloak_ws_frame_parse_header_def Let_def m
      using known c ctl by (simp add: b0f l7 ws_b1_fields(2) ws_consts min_def cong: if_cong)
  next
    case False
    define key' where "key' = take (m - length (ws_ext plen)) key"
    have cut: "take (Suc (Suc m)) (b0 # b1 # ws_ext plen @ key) = b0 # b1 # ws_ext plen @ key'"
      using False by (simp add: key'_def)
    have short: "masked" "length key' < 4"
      using k m False key by (auto simp: key'_def split: if_splits)
    show ?thesis
      unfolding cloak_ws_frame_parse_header_def Let_def m cut
      using known high c ctl short
      by (simp add: b0f l7 ws_b1_fields(2) ws_consts ws_payload_len_back cong: if_cong)
  qed
qed

lemma ucast_and_high:
  "(ucast (x :: byte) :: u64) AND 0x8000000000000000 = 0" "(ucast (y :: u16) :: u64) AND 0x8000000000000000 = 0"
  using and_exp_eq_0_iff_not_bit[of "ucast x :: u64" 63] and_exp_eq_0_iff_not_bit[of "ucast y :: u64" 63]
  by (simp_all add: bit_ucast_iff bit_imp_le_length) (auto dest: bit_imp_le_length)

section \<open>Properties\<close>

text \<open>
  The header codec round-trips. Whatever \<open>cloak_ws_frame_write_header\<close> emits, followed by any payload bytes,
  parses back to the same opcode, flags, key and payload length with exactly the emitted length; and every
  proper prefix of it is reported as incomplete, never as malformed.
\<close>

theorem ws_header_round_trip:
  assumes "cloak_ws_frame_write_header cap op fin mk plen = Some hdr" "\<forall>k. mk = Some k \<longrightarrow> length k = 4"
  shows "cloak_ws_frame_parse_header (hdr @ rest)
       = WsHeader \<lparr>wh_opcode = op, wh_fin = fin, wh_masked = (mk \<noteq> None),
           wh_mask_key = (case mk of None \<Rightarrow> replicate 4 0 | Some k \<Rightarrow> k), wh_payload_len = plen,
           wh_header_len = length hdr\<rparr>
     \<and> (\<forall>k < length hdr. cloak_ws_frame_parse_header (take k hdr) = WsNeedMore)
     \<and> length hdr \<le> CLOAK_WS_FRAME_MAX_HEADER_LEN \<and> length hdr \<le> cap"
proof -
  let ?key = "case mk of None \<Rightarrow> [] | Some k \<Rightarrow> k"
  have key: "(case mk of None \<Rightarrow> [] | Some k \<Rightarrow> take 4 k) = ?key" "length ?key = (if mk \<noteq> None then 4 else 0)"
    using assms(2) by (auto split: option.splits)
  note sh = write_header_shape[OF assms(1)]
  have hdr: "hdr = ((if fin then 0x80 else 0) OR (op AND 0x0f)) # (if mk \<noteq> None then ws_b1 plen OR 0x80 else ws_b1 plen)
      # ws_ext plen @ ?key"
    using sh key(1) by auto
  have p: "ws_opcode_is_known op" "plen AND 0x8000000000000000 = 0" "ws_opcode_is_control op \<longrightarrow> unat plen \<le> 125 \<and> fin"
    using sh by auto
  have len: "length hdr = 2 + length (ws_ext plen) + length ?key" by (simp add: hdr)
  have "length hdr \<le> cap"
    using assms key(2) unfolding len
    by (auto simp: cloak_ws_frame_write_header_def Let_def length_ws_ext split: if_splits option.splits)
  moreover have "length hdr \<le> CLOAK_WS_FRAME_MAX_HEADER_LEN"
    using key(2) unfolding len by (simp add: length_ws_ext ws_consts)
  moreover have "\<forall>k < length hdr. cloak_ws_frame_parse_header (take k hdr) = WsNeedMore"
    unfolding len unfolding hdr using parse_prefix[OF p key(2)] by blast
  moreover have "cloak_ws_frame_parse_header (hdr @ rest)
       = WsHeader \<lparr>wh_opcode = op, wh_fin = fin, wh_masked = (mk \<noteq> None),
           wh_mask_key = (if mk \<noteq> None then ?key else replicate 4 0), wh_payload_len = plen,
           wh_header_len = length hdr\<rparr>"
    unfolding len unfolding hdr using parse_shape[OF p key(2), of rest] by simp
  ultimately show ?thesis by (cases mk) auto
qed

theorem ws_header_round_trip_witness:
  "cloak_ws_frame_write_header 14 CLOAK_WS_OP_BINARY True (Some [1, 2, 3, 4]) 300 = Some [0x82, 0xFE, 1, 44, 1, 2, 3, 4]
   \<and> cloak_ws_frame_parse_header [0x82, 0xFE, 1, 44, 1, 2, 3, 4, 9, 9]
      = WsHeader \<lparr>wh_opcode = CLOAK_WS_OP_BINARY, wh_fin = True, wh_masked = True,
           wh_mask_key = [1, 2, 3, 4], wh_payload_len = 300, wh_header_len = 8\<rparr>"
proof -
  have w: "cloak_ws_frame_write_header 14 CLOAK_WS_OP_BINARY True (Some [1, 2, 3, 4]) 300 = Some [0x82, 0xFE, 1, 44, 1, 2, 3, 4]"
    by (simp add: cloak_ws_frame_write_header_def ws_opcode_is_known_def ws_opcode_is_control_def ws_ops Let_def
        ws_store_be16_def be16_store_def)
  from ws_header_round_trip[OF w, of "[9, 9]"] w show ?thesis by simp
qed

text \<open>The parser's decisions, with the extended length's size as one parameter.\<close>

definition ws_rejects :: "byte \<Rightarrow> byte \<Rightarrow> bool" where
  "ws_rejects b0 b1 \<longleftrightarrow> b0 AND (0x40 OR 0x20 OR 0x10) \<noteq> 0 \<or> \<not> ws_opcode_is_known (b0 AND 0x0f)
     \<or> ws_opcode_is_control (b0 AND 0x0f) \<and> (unat (b1 AND 0x7f) > 125 \<or> b0 AND 0x80 = 0)"

definition ws_ext_size :: "byte \<Rightarrow> nat" where
  "ws_ext_size b1 = (if b1 AND 0x7f = 126 then 2 else if b1 AND 0x7f = 127 then 8 else 0)"

definition ws_declared :: "bytes \<Rightarrow> u64" where
  "ws_declared buf = (if ws_ext_size (buf ! 1) = 2 then ucast (ws_load_be16 (drop 2 buf))
     else if ws_ext_size (buf ! 1) = 8 then ws_load_be64 (drop 2 buf) else ucast (buf ! 1 AND 0x7f))"

definition ws_need :: "byte \<Rightarrow> nat" where
  "ws_need b1 = 2 + ws_ext_size b1 + (if b1 AND 0x80 \<noteq> 0 then 4 else 0)"

lemma parse_header_cases:
  "cloak_ws_frame_parse_header buf =
     (if length buf < 2 then WsNeedMore
      else if ws_rejects (buf ! 0) (buf ! 1) then WsMalformed
      else if length buf < 2 + ws_ext_size (buf ! 1) then WsNeedMore
      else if ws_ext_size (buf ! 1) = 8 \<and> ws_declared buf AND 0x8000000000000000 \<noteq> 0 then WsMalformed
      else if length buf < ws_need (buf ! 1) then WsNeedMore
      else WsHeader \<lparr>wh_opcode = buf ! 0 AND 0x0f, wh_fin = (buf ! 0 AND 0x80 \<noteq> 0),
             wh_masked = (buf ! 1 AND 0x80 \<noteq> 0),
             wh_mask_key = (if buf ! 1 AND 0x80 \<noteq> 0 then take 4 (drop (2 + ws_ext_size (buf ! 1)) buf) else replicate 4 0),
             wh_payload_len = ws_declared buf, wh_header_len = ws_need (buf ! 1)\<rparr>)"
  unfolding cloak_ws_frame_parse_header_def Let_def ws_rejects_def ws_ext_size_def[symmetric]
    ws_declared_def[symmetric] ws_need_def[symmetric] ws_consts
  by auto

lemma ws_ext_size_le: "ws_ext_size b1 \<le> 8" "ws_need b1 \<le> 14"
  by (simp_all add: ws_ext_size_def ws_need_def)

lemma ws_declared_append:
  assumes "2 \<le> length buf" "2 + ws_ext_size (buf ! 1) \<le> length buf"
  shows "ws_declared (buf @ later) = ws_declared buf"
  using assms by (auto simp: ws_declared_def nth_append ws_load_be16_def ws_load_be64_def)

lemma ws_declared_high:
  "ws_ext_size (buf ! 1) \<noteq> 8 \<Longrightarrow> ws_declared buf AND 0x8000000000000000 = 0"
  by (simp add: ws_declared_def ucast_and_high)

lemma ws_declared_control:
  "\<not> ws_rejects (buf ! 0) (buf ! 1) \<Longrightarrow> ws_opcode_is_control (buf ! 0 AND 0x0f) \<Longrightarrow> unat (ws_declared buf) \<le> 125"
proof -
  assume "\<not> ws_rejects (buf ! 0) (buf ! 1)" "ws_opcode_is_control (buf ! 0 AND 0x0f)"
  then have le: "unat (buf ! 1 AND 0x7f) \<le> 125" by (auto simp: ws_rejects_def)
  then have "buf ! 1 AND 0x7f \<noteq> 126" "buf ! 1 AND 0x7f \<noteq> 127" by auto
  then have "ws_declared buf = ucast (buf ! 1 AND 0x7f)" by (simp add: ws_declared_def ws_ext_size_def)
  then show ?thesis using le by (simp add: unsigned_ucast_eq take_bit_nat_eq_self)
qed

lemma parse_header_extend:
  assumes "cloak_ws_frame_parse_header buf \<noteq> WsNeedMore"
  shows "cloak_ws_frame_parse_header (buf @ later) = cloak_ws_frame_parse_header buf"
proof -
  have len: "2 \<le> length buf" using assms by (auto simp: parse_header_cases split: if_splits)
  have n: "(buf @ later) ! 0 = buf ! 0" "(buf @ later) ! 1 = buf ! 1" using len by (auto simp: nth_append)
  show ?thesis
  proof (cases "ws_rejects (buf ! 0) (buf ! 1)")
    case True
    then show ?thesis using len unfolding parse_header_cases n by simp
  next
    case False
    then have l: "2 + ws_ext_size (buf ! 1) \<le> length buf" using assms len by (simp add: parse_header_cases split: if_split_asm)
    note d = ws_declared_append[OF len l, of later]
    have "ws_ext_size (buf ! 1) = 8 \<and> ws_declared buf AND 0x8000000000000000 \<noteq> 0 \<or> ws_need (buf ! 1) \<le> length buf"
      using assms len l False by (simp add: parse_header_cases split: if_split_asm)
    moreover have "ws_need (buf ! 1) \<le> length buf \<Longrightarrow> buf ! 1 AND 0x80 \<noteq> 0 \<Longrightarrow>
        take 4 (drop (2 + ws_ext_size (buf ! 1)) (buf @ later)) = take 4 (drop (2 + ws_ext_size (buf ! 1)) buf)"
      by (simp add: ws_need_def)
    ultimately show ?thesis using len l False unfolding parse_header_cases n d
      by (auto simp: not_less)
  qed
qed

text \<open>
  What the parser accepts is bounded. A header it accepts lies within the given bytes and within fourteen, carries one
  of the six known opcodes and a payload length below \<open>2\<^sup>6\<^sup>3\<close>, and is a control frame only when final with at most
  125 payload bytes; and a verdict, once reached, does not depend on bytes that arrive later.
\<close>

theorem ws_parse_sound:
  assumes "cloak_ws_frame_parse_header buf \<noteq> WsNeedMore"
  shows "cloak_ws_frame_parse_header (buf @ later) = cloak_ws_frame_parse_header buf
     \<and> (\<forall>h. cloak_ws_frame_parse_header buf = WsHeader h \<longrightarrow>
          wh_header_len h \<le> length buf \<and> 2 \<le> wh_header_len h \<and> wh_header_len h \<le> CLOAK_WS_FRAME_MAX_HEADER_LEN
          \<and> ws_opcode_is_known (wh_opcode h) \<and> length (wh_mask_key h) = 4
          \<and> wh_payload_len h AND 0x8000000000000000 = 0
          \<and> (ws_opcode_is_control (wh_opcode h) \<longrightarrow> wh_fin h \<and> unat (wh_payload_len h) \<le> 125))"
proof (intro conjI allI impI)
  show "cloak_ws_frame_parse_header (buf @ later) = cloak_ws_frame_parse_header buf"
    by (rule parse_header_extend[OF assms])
next
  fix h assume h: "cloak_ws_frame_parse_header buf = WsHeader h"
  note e = h[unfolded parse_header_cases]
  have c1: "\<not> length buf < 2" using e by auto
  have c2: "\<not> ws_rejects (buf ! 0) (buf ! 1)" using e c1 by auto
  have c3: "\<not> length buf < 2 + ws_ext_size (buf ! 1)" using e c1 c2 by auto
  have c4: "\<not> (ws_ext_size (buf ! 1) = 8 \<and> ws_declared buf AND 0x8000000000000000 \<noteq> 0)"
    using e unfolding if_not_P[OF c1] if_not_P[OF c2] if_not_P[OF c3] by (metis ws_parse.distinct(5))
  have c5: "\<not> length buf < ws_need (buf ! 1)"
    using e unfolding if_not_P[OF c1] if_not_P[OF c2] if_not_P[OF c3] if_not_P[OF c4] by (metis ws_parse.distinct(3))
  have hh: "h = \<lparr>wh_opcode = buf ! 0 AND 0x0f, wh_fin = (buf ! 0 AND 0x80 \<noteq> 0),
             wh_masked = (buf ! 1 AND 0x80 \<noteq> 0),
             wh_mask_key = (if buf ! 1 AND 0x80 \<noteq> 0 then take 4 (drop (2 + ws_ext_size (buf ! 1)) buf) else replicate 4 0),
             wh_payload_len = ws_declared buf, wh_header_len = ws_need (buf ! 1)\<rparr>"
    using e unfolding if_not_P[OF c1] if_not_P[OF c2] if_not_P[OF c3] if_not_P[OF c4] if_not_P[OF c5] by simp
  show "wh_header_len h \<le> length buf" "2 \<le> wh_header_len h" "wh_header_len h \<le> CLOAK_WS_FRAME_MAX_HEADER_LEN"
    using c5 ws_ext_size_le(2)[of "buf ! 1"] by (simp_all add: hh ws_consts) (simp add: ws_need_def)
  show "ws_opcode_is_known (wh_opcode h)" using c2 by (simp add: hh ws_rejects_def)
  show "length (wh_mask_key h) = 4" using c5 by (auto simp: hh ws_need_def min_def split: if_splits)
  show "wh_payload_len h AND 0x8000000000000000 = 0"
    using c4 ws_declared_high[of buf] by (cases "ws_ext_size (buf ! 1) = 8") (simp_all add: hh)
  assume "ws_opcode_is_control (wh_opcode h)"
  then show "wh_fin h" "unat (wh_payload_len h) \<le> 125"
    using c2 ws_declared_control[OF c2] by (simp_all add: hh ws_rejects_def)
qed

theorem ws_parse_sound_witness:
  "cloak_ws_frame_parse_header [0x82, 0x05] = cloak_ws_frame_parse_header ([0x82, 0x05] @ [1, 2])
   \<and> cloak_ws_frame_parse_header [0x82, 0x05] \<noteq> WsNeedMore"
proof -
  have "cloak_ws_frame_parse_header [0x82, 0x05] \<noteq> WsNeedMore"
    by (simp add: cloak_ws_frame_parse_header_def Let_def ws_opcode_is_known_def ws_opcode_is_control_def ws_ops)
  from ws_parse_sound[OF this, of "[1, 2]"] this show ?thesis by simp
qed

end
