(* ===== verification/Conn.thy ===== *)
theory Conn
  imports Bytequeue Valve WsFrame
begin

text \<open>
  \<open>libcloak-mux/src/conn.c\<close>: one transport connection of a session's pool. It frames outgoing mux frames as
  TLS application-data records or as WebSocket binary messages, queues them against partial writes, and cuts the
  incoming byte stream back into frames.

  The part of the connection that a callback can reach by calling back into this file (the send side and the flags)
  is the record \<open>conn_ctl\<close>; the receive side, which only this file's read path touches, is in \<open>conn\<close>. The
  kernel, the reactor, the clock, the shared valve and the owner's callbacks are the record \<open>conn_env\<close> over a
  world of any type. \<open>recv_scratch[0..ws_msg_len)\<close> is the list \<open>cn_ws_msg\<close>.
\<close>

definition CLOAK_CONN_RECORD_HEADER_LEN :: nat where "CLOAK_CONN_RECORD_HEADER_LEN = 5"
definition CLOAK_CONN_MAX_FRAME_LEN :: nat where "CLOAK_CONN_MAX_FRAME_LEN = 16640"
definition CLOAK_CONN_ERR_INVALID_FRAMING :: int where "CLOAK_CONN_ERR_INVALID_FRAMING = -2"
definition CONN_WS_MASK_CHUNK :: nat where "CONN_WS_MASK_CHUNK = 1022"
definition DRAIN_BUF_LEN :: nat where "DRAIN_BUF_LEN = 4096"

lemmas conn_consts = CLOAK_CONN_RECORD_HEADER_LEN_def CLOAK_CONN_MAX_FRAME_LEN_def
  CLOAK_CONN_ERR_INVALID_FRAMING_def CONN_WS_MASK_CHUNK_def DRAIN_BUF_LEN_def

datatype conn_framing =
    CLOAK_CONN_FRAMING_INVALID
  | CLOAK_CONN_FRAMING_TLS_RECORD
  | CLOAK_CONN_FRAMING_WS_CLIENT
  | CLOAK_CONN_FRAMING_WS_SERVER
  | CONN_FRAMING_OTHER nat

record conn_ctl =
  cc_framing :: conn_framing
  cc_max_frame_len :: nat
  cc_max_envelope_len :: nat
  cc_max_recv_envelope_len :: nat
  cc_send_q :: bytequeue
  cc_broken :: bool
  cc_want_writable :: bool
  cc_read_paused :: bool
  cc_interest :: "bool \<times> bool"  \<comment> \<open>readable, writable\<close>

record conn =
  cn_ctl :: conn_ctl
  cn_recv_acc :: bytequeue
  cn_ws_msg :: bytes
  cn_ws_msg_active :: bool
  cn_rx_timer :: bool

datatype send_result = Sent nat | SendAgain | SendError
datatype recv_result = Received bytes | RecvAgain | RecvError

record 'w conn_env =
  ev_send :: "'w \<Rightarrow> bytes \<Rightarrow> send_result \<times> 'w"
  ev_recv :: "'w \<Rightarrow> nat \<Rightarrow> recv_result \<times> 'w"
  ev_mod_fd :: "bool \<times> bool \<Rightarrow> 'w \<Rightarrow> 'w"
  ev_remove_fd :: "'w \<Rightarrow> 'w"
  ev_add_timer :: "nat \<Rightarrow> 'w \<Rightarrow> bool \<times> 'w"
  ev_cancel_timer :: "'w \<Rightarrow> 'w"
  ev_now :: "'w \<Rightarrow> nat"
  ev_valve :: "'w \<Rightarrow> valve option"
  ev_set_valve :: "valve option \<Rightarrow> 'w \<Rightarrow> 'w"
  ev_entropy :: "'w \<Rightarrow> entropy"
  ev_envelope :: "bytes \<Rightarrow> conn_ctl \<Rightarrow> 'w \<Rightarrow> conn_ctl \<times> 'w"
  ev_drained :: "conn_ctl \<Rightarrow> 'w \<Rightarrow> conn_ctl \<times> 'w"
  ev_closed :: "'w \<Rightarrow> 'w"

section \<open>Interest mask\<close>

definition conn_desired_interest :: "conn_ctl \<Rightarrow> bool \<times> bool" where
  "conn_desired_interest c = (\<not> cc_read_paused c, cc_want_writable c)"

definition conn_sync_interest :: "'w conn_env \<Rightarrow> conn_ctl \<Rightarrow> 'w \<Rightarrow> conn_ctl \<times> 'w" where
  "conn_sync_interest env c w =
     (let events = conn_desired_interest c in
      if events = cc_interest c then (c, w) else (c\<lparr>cc_interest := events\<rparr>, ev_mod_fd env events w))"

definition conn_set_want_writable :: "'w conn_env \<Rightarrow> conn_ctl \<Rightarrow> bool \<Rightarrow> 'w \<Rightarrow> conn_ctl \<times> 'w" where
  "conn_set_want_writable env c want w =
     (if cc_want_writable c = want then (c, w) else conn_sync_interest env (c\<lparr>cc_want_writable := want\<rparr>) w)"

definition conn_mark_broken :: "'w conn_env \<Rightarrow> conn_ctl \<Rightarrow> 'w \<Rightarrow> conn_ctl \<times> 'w" where
  "conn_mark_broken env c w =
     (if cc_broken c then (c, w) else (c\<lparr>cc_broken := True\<rparr>, ev_closed env (ev_remove_fd env w)))"

section \<open>Draining the send queue\<close>

text \<open>
  The loop of \<open>conn_try_drain_send\<close>: \<open>bp\<close> is \<open>was_backpressured\<close>. Each full chunk shrinks the queue, so the loop ends.
\<close>

function drain_loop :: "'w conn_env \<Rightarrow> bool \<Rightarrow> conn_ctl \<Rightarrow> 'w \<Rightarrow> conn_ctl \<times> 'w" where
  "drain_loop env bp c w =
     (let avail = cloak_bytequeue_len (cc_send_q c) in
      if avail = 0 then
        (case conn_set_want_writable env c False w of (c1, w1) \<Rightarrow>
           if bp then ev_drained env c1 w1 else (c1, w1))
      else
        let want = (if avail < DRAIN_BUF_LEN then avail else DRAIN_BUF_LEN);
            chunk = cloak_bytequeue_peek (cc_send_q c) want
        in case ev_send env w chunk of
             (SendAgain, w1) \<Rightarrow> conn_set_want_writable env c True w1
           | (SendError, w1) \<Rightarrow> conn_mark_broken env c w1
           | (Sent n, w1) \<Rightarrow>
               let c1 = c\<lparr>cc_send_q := snd (cloak_bytequeue_read (cc_send_q c) n)\<rparr> in
               if n < want then conn_set_want_writable env c1 True w1
               else drain_loop env bp c1 w1)"
  by pat_completeness auto

termination
  by (relation "measure (\<lambda>(_, _, c, _). bq_len (cc_send_q c))")
    (auto simp: cloak_bytequeue_len_def cloak_bytequeue_read_def DRAIN_BUF_LEN_def Let_def split: if_splits)

declare drain_loop.simps [simp del]

definition conn_try_drain_send :: "'w conn_env \<Rightarrow> conn_ctl \<Rightarrow> 'w \<Rightarrow> conn_ctl \<times> 'w" where
  "conn_try_drain_send env c w = drain_loop env (cc_want_writable c) c w"

section \<open>Sending\<close>

fun mask_chunks :: "nat \<Rightarrow> bytes \<Rightarrow> nat \<Rightarrow> bytes \<Rightarrow> bytequeue \<Rightarrow> bytequeue" where
  \<comment> \<open>the masking loop; the first argument counts chunks still possible\<close>
  "mask_chunks 0 key pos rest q = q"
| "mask_chunks (Suc k) key pos rest q =
     (if rest = [] then q
      else
        let n = (if length rest > CONN_WS_MASK_CHUNK then CONN_WS_MASK_CHUNK else length rest);
            (chunk, pos1) = cloak_ws_frame_mask (take n rest) key pos
        in mask_chunks k key pos1 (drop n rest) (snd (cloak_bytequeue_write q chunk)))"

definition conn_ws_enqueue_frame :: "'w conn_env \<Rightarrow> conn_ctl \<Rightarrow> byte \<Rightarrow> bytes \<Rightarrow> 'w \<Rightarrow> bool \<times> conn_ctl \<times> 'w" where
  \<comment> \<open>the flag is the 0 return\<close>
  "conn_ws_enqueue_frame env c op payload w =
     (let keyp = (if cc_framing c = CLOAK_CONN_FRAMING_WS_CLIENT
                  then Some (cloak_ws_frame_mask_key (ev_entropy env w)) else None)
      in case cloak_ws_frame_write_header CLOAK_WS_FRAME_MAX_HEADER_LEN op True keyp (of_nat (length payload)) of
           None \<Rightarrow> (case conn_mark_broken env c w of (c1, w1) \<Rightarrow> (False, c1, w1))
         | Some header \<Rightarrow>
             if cloak_bytequeue_free_space (cc_send_q c) < length header + length payload then
               (case conn_mark_broken env c w of (c1, w1) \<Rightarrow> (False, c1, w1))
             else
               let q1 = snd (cloak_bytequeue_write (cc_send_q c) header);
                   q2 = (case keyp of
                           None \<Rightarrow> snd (cloak_bytequeue_write q1 payload)
                         | Some key \<Rightarrow> mask_chunks (length payload) key 0 payload q1)
               in (True, c\<lparr>cc_send_q := q2\<rparr>, w))"

definition record_header :: "nat \<Rightarrow> bytes" where
  "record_header frame_len =
     [0x17, 0x03, 0x03, of_nat (drop_bit 8 frame_len AND 0xff), of_nat (frame_len AND 0xff)]"

definition cloak_conn_send :: "'w conn_env \<Rightarrow> conn_ctl \<Rightarrow> bytes \<Rightarrow> 'w \<Rightarrow> int \<times> conn_ctl \<times> 'w" where
  "cloak_conn_send env c frame_bytes w =
     (let frame_len = length frame_bytes;
          fail = (\<lambda>c w. case conn_mark_broken env c w of (c1, w1) \<Rightarrow> (-1, c1, w1));
          finish = (\<lambda>c w. case conn_try_drain_send env c w of (c1, w1) \<Rightarrow> (if cc_broken c1 then -1 else 0, c1, w1))
      in
      if cc_broken c then (-1, c, w)
      else if frame_len > cc_max_frame_len c then fail c w
      else if cc_framing c \<noteq> CLOAK_CONN_FRAMING_TLS_RECORD then
        (case conn_ws_enqueue_frame env c CLOAK_WS_OP_BINARY frame_bytes w of
           (ok, c1, w1) \<Rightarrow> if \<not> ok then (-1, c1, w1) else finish c1 w1)
      else
        let total = CLOAK_CONN_RECORD_HEADER_LEN + frame_len in
        if total > cc_max_envelope_len c then fail c w
        else if cloak_bytequeue_free_space (cc_send_q c) < total then fail c w
        else
          let q1 = snd (cloak_bytequeue_write (cc_send_q c) (record_header frame_len));
              q2 = snd (cloak_bytequeue_write q1 frame_bytes)
          in finish (c\<lparr>cc_send_q := q2\<rparr>) w)"

section \<open>Receiving\<close>

text \<open>
  Both extraction loops end because every iteration that goes on consumes at least the header; the
  bound \<open>fuel\<close> is the length of the accumulator, and running out is proved impossible.
\<close>

fun tls_extract :: "'w conn_env \<Rightarrow> nat \<Rightarrow> conn \<Rightarrow> 'w \<Rightarrow> (conn \<times> 'w) option" where
  "tls_extract env fuel c w =
     (let header = cloak_bytequeue_peek (cn_recv_acc c) CLOAK_CONN_RECORD_HEADER_LEN in
      if length header < CLOAK_CONN_RECORD_HEADER_LEN then Some (c, w)
      else
        let frame_len = unat (be16_load (drop 3 header) :: u16) in
        if frame_len > cc_max_frame_len (cn_ctl c) then
          (case conn_mark_broken env (cn_ctl c) w of (k, w1) \<Rightarrow> Some (c\<lparr>cn_ctl := k\<rparr>, w1))
        else
          let envelope_len = CLOAK_CONN_RECORD_HEADER_LEN + frame_len in
          if cloak_bytequeue_len (cn_recv_acc c) < envelope_len then Some (c, w)
          else
            case cloak_bytequeue_read (cn_recv_acc c) envelope_len of (scratch, acc) \<Rightarrow>
              let c1 = c\<lparr>cn_recv_acc := acc\<rparr> in
              case ev_envelope env (drop CLOAK_CONN_RECORD_HEADER_LEN scratch) (cn_ctl c1) w of (k, w1) \<Rightarrow>
                let c2 = c1\<lparr>cn_ctl := k\<rparr> in
                if cc_broken k then Some (c2, w1)
                else (case fuel of 0 \<Rightarrow> None | Suc n \<Rightarrow> tls_extract env n c2 w1))"

declare tls_extract.simps [simp del]

definition conn_tls_extract_and_dispatch :: "'w conn_env \<Rightarrow> conn \<Rightarrow> 'w \<Rightarrow> (conn \<times> 'w) option" where
  "conn_tls_extract_and_dispatch env c w = tls_extract env (cloak_bytequeue_len (cn_recv_acc c)) c w"

definition conn_ws_take_payload :: "conn \<Rightarrow> ws_frame_header \<Rightarrow> nat \<Rightarrow> bytes \<times> conn" where
  "conn_ws_take_payload c h payload_len =
     (let acc1 = snd (cloak_bytequeue_read (cn_recv_acc c) (wh_header_len h)) in
      if payload_len > 0 then
        (case cloak_bytequeue_read acc1 payload_len of (p, acc2) \<Rightarrow>
           (if wh_masked h then fst (cloak_ws_frame_mask p (wh_mask_key h) 0) else p, c\<lparr>cn_recv_acc := acc2\<rparr>))
      else ([], c\<lparr>cn_recv_acc := acc1\<rparr>))"

text \<open>
  One iteration of the WebSocket loop: whether to go on, and the new state. Its two arms for a complete frame are
  definitions of their own: a control frame is answered, a data frame is reassembled and handed up.
\<close>

definition ws_break :: "'w conn_env \<Rightarrow> conn \<Rightarrow> 'w \<Rightarrow> bool \<times> conn \<times> 'w" where
  "ws_break env c w = (case conn_mark_broken env (cn_ctl c) w of (k, w1) \<Rightarrow> (False, c\<lparr>cn_ctl := k\<rparr>, w1))"

definition ws_on_control :: "'w conn_env \<Rightarrow> conn \<Rightarrow> ws_frame_header \<Rightarrow> nat \<Rightarrow> 'w \<Rightarrow> bool \<times> conn \<times> 'w" where
  "ws_on_control env c h payload_len w =
     (case conn_ws_take_payload c h payload_len of (ctl, c1) \<Rightarrow>
        if wh_opcode h = CLOAK_WS_OP_PING then
          (case conn_ws_enqueue_frame env (cn_ctl c1) CLOAK_WS_OP_PONG ctl w of
             (ok, k1, w1) \<Rightarrow>
               if \<not> ok then (False, c1\<lparr>cn_ctl := k1\<rparr>, w1)
               else case conn_try_drain_send env k1 w1 of
                      (k2, w2) \<Rightarrow> (\<not> cc_broken k2, c1\<lparr>cn_ctl := k2\<rparr>, w2))
        else if wh_opcode h = CLOAK_WS_OP_PONG then (True, c1, w)
        else
          (case conn_ws_enqueue_frame env (cn_ctl c1) CLOAK_WS_OP_CLOSE ctl w of
             (ok, k1, w1) \<Rightarrow>
               case (if \<not> cc_broken k1 then conn_try_drain_send env k1 w1 else (k1, w1)) of
                 (k2, w2) \<Rightarrow> ws_break env (c1\<lparr>cn_ctl := k2\<rparr>) w2))"

definition ws_on_data :: "'w conn_env \<Rightarrow> conn \<Rightarrow> ws_frame_header \<Rightarrow> nat \<Rightarrow> 'w \<Rightarrow> bool \<times> conn \<times> 'w" where
  "ws_on_data env c h payload_len w =
     (if wh_opcode h = CLOAK_WS_OP_CONTINUATION \<and> \<not> cn_ws_msg_active c then ws_break env c w
      else if wh_opcode h \<noteq> CLOAK_WS_OP_CONTINUATION \<and> cn_ws_msg_active c then ws_break env c w
      else if payload_len > cc_max_frame_len (cn_ctl c) - length (cn_ws_msg c) then ws_break env c w
      else
        (case conn_ws_take_payload c h payload_len of (p, c1) \<Rightarrow>
           let c2 = c1\<lparr>cn_ws_msg := cn_ws_msg c1 @ p\<rparr> in
           if \<not> wh_fin h then (True, c2\<lparr>cn_ws_msg_active := True\<rparr>, w)
           else
             let msg = cn_ws_msg c2; c3 = c2\<lparr>cn_ws_msg := [], cn_ws_msg_active := False\<rparr> in
             case ev_envelope env msg (cn_ctl c3) w of
               (k, w1) \<Rightarrow> (\<not> cc_broken k, c3\<lparr>cn_ctl := k\<rparr>, w1)))"

definition ws_extract_step :: "'w conn_env \<Rightarrow> conn \<Rightarrow> 'w \<Rightarrow> bool \<times> conn \<times> 'w" where
  "ws_extract_step env c w =
     (let peer_must_mask = (cc_framing (cn_ctl c) = CLOAK_CONN_FRAMING_WS_SERVER) in
      case cloak_ws_frame_parse_header (cloak_bytequeue_peek (cn_recv_acc c) CLOAK_WS_FRAME_MAX_HEADER_LEN) of
        WsNeedMore \<Rightarrow> (False, c, w)
      | WsMalformed \<Rightarrow> ws_break env c w
      | WsHeader h \<Rightarrow>
          if wh_masked h \<noteq> peer_must_mask then ws_break env c w
          else if unat (wh_payload_len h) > cc_max_frame_len (cn_ctl c) then ws_break env c w
          else
            let payload_len = unat (wh_payload_len h); total_len = wh_header_len h + payload_len in
            if cloak_bytequeue_len (cn_recv_acc c) < total_len then (False, c, w)
            else if wh_opcode h = CLOAK_WS_OP_PING \<or> wh_opcode h = CLOAK_WS_OP_PONG \<or> wh_opcode h = CLOAK_WS_OP_CLOSE
            then ws_on_control env c h payload_len w
            else ws_on_data env c h payload_len w)"

fun ws_extract :: "'w conn_env \<Rightarrow> nat \<Rightarrow> conn \<Rightarrow> 'w \<Rightarrow> (conn \<times> 'w) option" where
  "ws_extract env fuel c w =
     (case ws_extract_step env c w of
        (False, c1, w1) \<Rightarrow> Some (c1, w1)
      | (True, c1, w1) \<Rightarrow> (case fuel of 0 \<Rightarrow> None | Suc n \<Rightarrow> ws_extract env n c1 w1))"

declare ws_extract.simps [simp del]

definition conn_ws_extract_and_dispatch :: "'w conn_env \<Rightarrow> conn \<Rightarrow> 'w \<Rightarrow> (conn \<times> 'w) option" where
  "conn_ws_extract_and_dispatch env c w = ws_extract env (cloak_bytequeue_len (cn_recv_acc c)) c w"

definition conn_extract_and_dispatch :: "'w conn_env \<Rightarrow> conn \<Rightarrow> 'w \<Rightarrow> (conn \<times> 'w) option" where
  "conn_extract_and_dispatch env c w =
     (if cc_framing (cn_ctl c) = CLOAK_CONN_FRAMING_TLS_RECORD
      then conn_tls_extract_and_dispatch env c w else conn_ws_extract_and_dispatch env c w)"

section \<open>The read loop\<close>

definition conn_pause_read_for_rate :: "'w conn_env \<Rightarrow> conn \<Rightarrow> 'w \<Rightarrow> conn \<times> 'w" where
  "conn_pause_read_for_rate env c w =
     (let pause = (\<lambda>c w. case conn_sync_interest env ((cn_ctl c)\<lparr>cc_read_paused := True\<rparr>) w of
                           (k, w1) \<Rightarrow> (c\<lparr>cn_ctl := k\<rparr>, w1))
      in
      if \<not> cn_rx_timer c then
        (case cloak_valve_rx_resume_delay_ms (ev_valve env w) (ev_now env w) of
           (delay, v) \<Rightarrow>
             case ev_add_timer env (nat delay) (ev_set_valve env v w) of
               (False, w1) \<Rightarrow> (case conn_mark_broken env (cn_ctl c) w1 of (k, w2) \<Rightarrow> (c\<lparr>cn_ctl := k\<rparr>, w2))
             | (True, w1) \<Rightarrow> pause (c\<lparr>cn_rx_timer := True\<rparr>) w1)
      else pause c w)"

partial_function (option) conn_handle_readable :: "'w conn_env \<Rightarrow> conn \<Rightarrow> 'w \<Rightarrow> (conn \<times> 'w) option" where
  \<comment> \<open>\<^const>\<open>None\<close> if the kernel never stops supplying bytes\<close>
  "conn_handle_readable env c w =
     (let room = cloak_bytequeue_free_space (cn_recv_acc c) in
      if room = 0 then Some (c, w)
      else
        let want = (if room < 4096 then room else 4096) in
        case cloak_valve_take_rx (ev_valve env w) (ev_now env w) (int want) of (allowed, v) \<Rightarrow>
          let w0 = ev_set_valve env v w in
          if allowed \<le> 0 then Some (conn_pause_read_for_rate env c w0)
          else
            let want1 = (if nat allowed < want then nat allowed else want) in
            case ev_recv env w0 want1 of
              (RecvAgain, w1) \<Rightarrow> Some (c, w1)
            | (RecvError, w1) \<Rightarrow> (case conn_mark_broken env (cn_ctl c) w1 of (k, w2) \<Rightarrow> Some (c\<lparr>cn_ctl := k\<rparr>, w2))
            | (Received bs, w1) \<Rightarrow>
                if bs = [] then
                  (case conn_mark_broken env (cn_ctl c) w1 of (k, w2) \<Rightarrow> Some (c\<lparr>cn_ctl := k\<rparr>, w2))
                else
                  let w2 = ev_set_valve env (cloak_valve_add_rx (ev_valve env w1) (int (length bs))) w1;
                      c1 = c\<lparr>cn_recv_acc := snd (cloak_bytequeue_write (cn_recv_acc c) bs)\<rparr>
                  in Option.bind (conn_extract_and_dispatch env c1 w2)
                       (\<lambda>(c2, w3). if cc_broken (cn_ctl c2) then Some (c2, w3)
                                  else conn_handle_readable env c2 w3))"

definition conn_rx_resume_cb :: "'w conn_env \<Rightarrow> conn \<Rightarrow> 'w \<Rightarrow> (conn \<times> 'w) option" where
  "conn_rx_resume_cb env c w =
     (let c1 = c\<lparr>cn_rx_timer := False\<rparr> in
      if cc_broken (cn_ctl c1) then Some (c1, w)
      else case conn_sync_interest env ((cn_ctl c1)\<lparr>cc_read_paused := False\<rparr>) w of
             (k, w1) \<Rightarrow> conn_handle_readable env (c1\<lparr>cn_ctl := k\<rparr>) w1)"

definition conn_reactor_cb :: "'w conn_env \<Rightarrow> bool \<Rightarrow> bool \<Rightarrow> conn \<Rightarrow> 'w \<Rightarrow> (conn \<times> 'w) option" where
  "conn_reactor_cb env readable writable c w =
     (if cc_broken (cn_ctl c) then Some (c, w)
      else
        Option.bind (if readable then conn_handle_readable env c w else Some (c, w))
          (\<lambda>(c1, w1).
             if readable \<and> cc_broken (cn_ctl c1) then Some (c1, w1)
             else if writable then
               (case conn_try_drain_send env (cn_ctl c1) w1 of (k, w2) \<Rightarrow> Some (c1\<lparr>cn_ctl := k\<rparr>, w2))
             else Some (c1, w1)))"

section \<open>Construction and accessors\<close>

definition conn_ws_envelope_len :: "nat \<Rightarrow> bool \<Rightarrow> nat" where
  "conn_ws_envelope_len payload_len masked =
     2 + (if payload_len > CLOAK_WS_FRAME_MAX_CONTROL_PAYLOAD then 2 else 0) + (if masked then 4 else 0) + payload_len"

definition bytequeue_unused :: bytequeue where
  "bytequeue_unused = \<lparr>bq_data = [], bq_cap = 0, bq_head = 0, bq_len = 0, bq_closed = False\<rparr>"

definition cloak_conn_init_cfg ::
  "(nat \<Rightarrow> bytes option) \<Rightarrow> bool \<Rightarrow> nat \<Rightarrow> nat \<Rightarrow> conn_framing \<Rightarrow> int \<times> conn option" where
  \<comment> \<open>\<open>fd_added\<close> is whether \<open>cloak_reactor_add_fd\<close> succeeds\<close>
  "cloak_conn_init_cfg malloc fd_added max_frame_len send_queue_cap framing =
     (if framing \<noteq> CLOAK_CONN_FRAMING_TLS_RECORD \<and> framing \<noteq> CLOAK_CONN_FRAMING_WS_CLIENT
         \<and> framing \<noteq> CLOAK_CONN_FRAMING_WS_SERVER then (CLOAK_CONN_ERR_INVALID_FRAMING, None)
      else if max_frame_len = 0 \<or> max_frame_len > CLOAK_CONN_MAX_FRAME_LEN \<or> send_queue_cap = 0 then (-1, None)
      else
        let we_mask = (framing = CLOAK_CONN_FRAMING_WS_CLIENT);
            (max_env, max_recv) =
              (if framing = CLOAK_CONN_FRAMING_TLS_RECORD
               then (CLOAK_CONN_RECORD_HEADER_LEN + max_frame_len, CLOAK_CONN_RECORD_HEADER_LEN + max_frame_len)
               else (conn_ws_envelope_len max_frame_len we_mask, conn_ws_envelope_len max_frame_len (\<not> we_mask)))
        in case cloak_bytequeue_init malloc bytequeue_unused (2 * max_recv) of (rc1, acc) \<Rightarrow>
             if rc1 \<noteq> 0 then (-1, None)
             else case cloak_bytequeue_init malloc bytequeue_unused send_queue_cap of (rc2, sq) \<Rightarrow>
               if rc2 \<noteq> 0 then (-1, None)
               else if malloc max_recv = None then (-1, None)
               else if \<not> fd_added then (-1, None)
               else (0, Some \<lparr>cn_ctl = \<lparr>cc_framing = framing, cc_max_frame_len = max_frame_len,
                       cc_max_envelope_len = max_env, cc_max_recv_envelope_len = max_recv, cc_send_q = sq,
                       cc_broken = False, cc_want_writable = False, cc_read_paused = False,
                       cc_interest = (True, False)\<rparr>,
                     cn_recv_acc = acc, cn_ws_msg = [], cn_ws_msg_active = False, cn_rx_timer = False\<rparr>))"

definition cloak_conn_init :: "(nat \<Rightarrow> bytes option) \<Rightarrow> bool \<Rightarrow> nat \<Rightarrow> nat \<Rightarrow> int \<times> conn option" where
  "cloak_conn_init malloc fd_added max_frame_len send_queue_cap =
     cloak_conn_init_cfg malloc fd_added max_frame_len send_queue_cap CLOAK_CONN_FRAMING_TLS_RECORD"

definition conn_zero :: conn where
  \<comment> \<open>after \<open>memset(c, 0, sizeof( *c))\<close>\<close>
  "conn_zero = \<lparr>cn_ctl = \<lparr>cc_framing = CLOAK_CONN_FRAMING_INVALID, cc_max_frame_len = 0, cc_max_envelope_len = 0,
       cc_max_recv_envelope_len = 0, cc_send_q = bytequeue_unused, cc_broken = False, cc_want_writable = False,
       cc_read_paused = False, cc_interest = (False, False)\<rparr>,
     cn_recv_acc = bytequeue_unused, cn_ws_msg = [], cn_ws_msg_active = False, cn_rx_timer = False\<rparr>"

definition cloak_conn_destroy :: "'w conn_env \<Rightarrow> conn \<Rightarrow> 'w \<Rightarrow> conn \<times> 'w" where
  "cloak_conn_destroy env c w =
     (conn_zero, ev_remove_fd env (if cn_rx_timer c then ev_cancel_timer env w else w))"

definition cloak_conn_envelope_len :: "conn_ctl \<Rightarrow> nat \<Rightarrow> nat" where
  "cloak_conn_envelope_len c frame_len =
     (if cc_framing c = CLOAK_CONN_FRAMING_TLS_RECORD then CLOAK_CONN_RECORD_HEADER_LEN + frame_len
      else conn_ws_envelope_len frame_len (cc_framing c = CLOAK_CONN_FRAMING_WS_CLIENT))"

definition cloak_conn_send_queued :: "conn_ctl \<Rightarrow> nat" where
  "cloak_conn_send_queued c = cloak_bytequeue_len (cc_send_q c)"

definition cloak_conn_send_capacity :: "conn_ctl \<Rightarrow> nat" where
  "cloak_conn_send_capacity c = cloak_bytequeue_len (cc_send_q c) + cloak_bytequeue_free_space (cc_send_q c)"

definition cloak_conn_send_free :: "conn_ctl \<Rightarrow> nat" where
  "cloak_conn_send_free c = cloak_bytequeue_free_space (cc_send_q c)"

section \<open>The envelope of a frame\<close>

definition ctl_ok :: "conn_ctl \<Rightarrow> bool" where
  "ctl_ok c \<longleftrightarrow> bytequeue_ok (cc_send_q c) \<and> \<not> bq_closed (cc_send_q c)
     \<and> cc_max_frame_len c \<le> CLOAK_CONN_MAX_FRAME_LEN
     \<and> cc_framing c \<in> {CLOAK_CONN_FRAMING_TLS_RECORD, CLOAK_CONN_FRAMING_WS_CLIENT, CLOAK_CONN_FRAMING_WS_SERVER}
     \<and> cc_max_envelope_len c = cloak_conn_envelope_len c (cc_max_frame_len c)"

definition ws_message :: "byte \<Rightarrow> bytes option \<Rightarrow> bytes \<Rightarrow> bytes" where
  \<comment> \<open>specification: a final frame of that opcode, masked with the key if there is one\<close>
  "ws_message op key p =
     [0x80 OR (op AND 0x0f), (if key = None then ws_b1 (of_nat (length p)) else ws_b1 (of_nat (length p)) OR 0x80)]
     @ ws_ext (of_nat (length p))
     @ (case key of None \<Rightarrow> p | Some k \<Rightarrow> take 4 k @ fst (cloak_ws_frame_mask p k 0))"

definition our_mask :: "conn_ctl \<Rightarrow> entropy \<Rightarrow> bytes option" where
  "our_mask c r = (if cc_framing c = CLOAK_CONN_FRAMING_WS_CLIENT then Some (cloak_ws_frame_mask_key r) else None)"

lemma mask_chunks_writes:
  assumes "bytequeue_ok q" "\<not> bq_closed q" "length rest \<le> cloak_bytequeue_free_space q" "length rest \<le> k"
  shows "bytequeue_ok (mask_chunks k key pos rest q) \<and> \<not> bq_closed (mask_chunks k key pos rest q)
       \<and> bytequeue_list (mask_chunks k key pos rest q) = bytequeue_list q @ fst (cloak_ws_frame_mask rest key pos)"
  using assms
proof (induction k key pos rest q rule: mask_chunks.induct)
  case (1 key pos rest q)
  then show ?case by (simp add: ws_mask_eq)
next
  case (2 k key pos rest q)
  show ?case
  proof (cases "rest = []")
    case True
    then show ?thesis using 2 by (simp add: ws_mask_eq)
  next
    case False
    define n where "n = (if length rest > CONN_WS_MASK_CHUNK then CONN_WS_MASK_CHUNK else length rest)"
    have n: "0 < n" "n \<le> length rest" using False by (auto simp: n_def CONN_WS_MASK_CHUNK_def)
    obtain chunk pos1 where m: "cloak_ws_frame_mask (take n rest) key pos = (chunk, pos1)" by fastforce
    have cl: "length chunk = n" using ws_mask_length[of "take n rest" key pos] m n by simp
    let ?q1 = "snd (cloak_bytequeue_write q chunk)"
    have q1: "bytequeue_ok ?q1" "\<not> bq_closed ?q1" "bytequeue_list ?q1 = bytequeue_list q @ chunk" "bq_cap ?q1 = bq_cap q"
      using bq.wr_fits[OF "2.prems"(1,2), of chunk] bq.wr_frame[of q chunk] "2.prems"(2,3) cl n by auto
    have room: "length (drop n rest) \<le> cloak_bytequeue_free_space ?q1"
      using bq.room_content[OF q1(1)] bq.room_content[OF "2.prems"(1)] q1(3,4) cl "2.prems"(3) n by simp
    have IH: "bytequeue_ok (mask_chunks k key pos1 (drop n rest) ?q1) \<and> \<not> bq_closed (mask_chunks k key pos1 (drop n rest) ?q1)
       \<and> bytequeue_list (mask_chunks k key pos1 (drop n rest) ?q1)
         = bytequeue_list ?q1 @ fst (cloak_ws_frame_mask (drop n rest) key pos1)"
      using n "2.prems"(4) by (intro "2.IH"[OF False n_def m[symmetric] refl q1(1,2) room]) simp
    have "fst (cloak_ws_frame_mask rest key pos) = chunk @ fst (cloak_ws_frame_mask (drop n rest) key pos1)"
      using ws_mask_append[of "take n rest" "drop n rest" key pos] m by simp
    then show ?thesis using IH q1(3) False m by (simp add: n_def[symmetric] Let_def)
  qed
qed

definition conn_envelope :: "conn_ctl \<Rightarrow> entropy \<Rightarrow> bytes \<Rightarrow> bytes" where
  \<comment> \<open>specification: the bytes that carry one frame on this connection\<close>
  "conn_envelope c r f =
     (if cc_framing c = CLOAK_CONN_FRAMING_TLS_RECORD then record_header (length f) @ f
      else ws_message CLOAK_WS_OP_BINARY (our_mask c r) f)"

text \<open>
  What a caller can observe of the world a connection sends into: the bytes the kernel has taken, a running cost,
  whether the closed callback has run, and a side value that nothing here changes; the drained callback is
  charged for what it appends, at a cost per byte that depends on the side value.
\<close>

record ('w, 's) watcher =
  wt_wire :: "'w \<Rightarrow> bytes"
  wt_cost :: "'w \<Rightarrow> int"
  wt_side :: "'w \<Rightarrow> 's"
  wt_tariff :: "'s \<Rightarrow> int"
  wt_broke :: "'w \<Rightarrow> bool"

definition carried :: "('w, 's) watcher \<Rightarrow> conn_ctl \<times> 'w \<Rightarrow> bytes" where
  "carried wt s = wt_wire wt (snd s) @ bytequeue_list (cc_send_q (fst s))"

definition grows :: "('w, 's) watcher \<Rightarrow> conn_ctl \<times> 'w \<Rightarrow> bytes \<Rightarrow> int \<Rightarrow> conn_ctl \<times> 'w \<Rightarrow> bool" where
  \<comment> \<open>from \<open>s\<close> to \<open>s'\<close> the outgoing stream gains \<open>x\<close> and the cost gains \<open>b\<close>\<close>
  "grows wt s x b s' \<longleftrightarrow> ctl_ok (fst s') \<and> carried wt s' = carried wt s @ x
     \<and> wt_cost wt (snd s') = wt_cost wt (snd s) + b \<and> wt_side wt (snd s') = wt_side wt (snd s)
     \<and> cc_framing (fst s') = cc_framing (fst s) \<and> cc_max_frame_len (fst s') = cc_max_frame_len (fst s)
     \<and> (wt_broke wt (snd s) \<longrightarrow> wt_broke wt (snd s'))
     \<and> (cc_broken (fst s') \<longrightarrow> cc_broken (fst s) \<or> wt_broke wt (snd s'))"

definition unseen :: "('w, 's) watcher \<Rightarrow> 'w \<Rightarrow> 'w \<Rightarrow> bool" where
  "unseen wt w w' \<longleftrightarrow> wt_wire wt w' = wt_wire wt w \<and> wt_cost wt w' = wt_cost wt w \<and> wt_side wt w' = wt_side wt w \<and> (wt_broke wt w \<longrightarrow> wt_broke wt w')"

definition wire_ok :: "'w conn_env \<Rightarrow> ('w, 's) watcher \<Rightarrow> bool" where
  \<comment> \<open>a send takes a prefix of what it is given or nothing, nothing else touches the wire, and the drained callback only
     appends to the stream, at the tariff\<close>
  "wire_ok env wt \<longleftrightarrow>
     (\<forall>w x r w'. ev_send env w x = (r, w') \<longrightarrow>
        (case r of Sent n \<Rightarrow> n \<le> length x \<and> wt_wire wt w' = wt_wire wt w @ take n x | _ \<Rightarrow> wt_wire wt w' = wt_wire wt w)
        \<and> wt_cost wt w' = wt_cost wt w \<and> wt_side wt w' = wt_side wt w \<and> (wt_broke wt w \<longrightarrow> wt_broke wt w'))
   \<and> (\<forall>e w. unseen wt w (ev_mod_fd env e w)) \<and> (\<forall>w. unseen wt w (ev_remove_fd env w))
   \<and> (\<forall>w. unseen wt w (ev_closed env w) \<and> wt_broke wt (ev_closed env w))
   \<and> (\<forall>c w. ctl_ok c \<longrightarrow> (\<exists>x. grows wt (c, w) x (wt_tariff wt (wt_side wt w) * int (length x)) (ev_drained env c w)))"

lemma ctl_ok_flags [simp]:
  "ctl_ok (c\<lparr>cc_broken := a\<rparr>) = ctl_ok c" "ctl_ok (c\<lparr>cc_want_writable := a\<rparr>) = ctl_ok c"
  "ctl_ok (c\<lparr>cc_interest := e\<rparr>) = ctl_ok c" "ctl_ok (c\<lparr>cc_read_paused := a\<rparr>) = ctl_ok c"
  by (simp_all add: ctl_ok_def cloak_conn_envelope_len_def)

lemma grows_trans: "grows wt s x b s' \<Longrightarrow> grows wt s' y d s'' \<Longrightarrow> grows wt s (x @ y) (b + d) s''"
  by (auto simp: grows_def)

lemma wire_okD:
  assumes "wire_ok env wt"
  shows "unseen wt w (ev_mod_fd env e w)" "unseen wt w (ev_remove_fd env w)"
    "unseen wt w (ev_closed env w) \<and> wt_broke wt (ev_closed env w)"
    "ev_send env w x = (Sent n, w') \<Longrightarrow> n \<le> length x \<and> wt_wire wt w' = wt_wire wt w @ take n x"
    "ev_send env w x = (SendAgain, w') \<Longrightarrow> unseen wt w w'" "ev_send env w x = (SendError, w') \<Longrightarrow> unseen wt w w'"
    "ev_send env w x = (r, w') \<Longrightarrow> wt_cost wt w' = wt_cost wt w \<and> wt_side wt w' = wt_side wt w \<and> (wt_broke wt w \<longrightarrow> wt_broke wt w')"
proof -
  have s: "(case r of Sent n \<Rightarrow> n \<le> length x \<and> wt_wire wt w' = wt_wire wt w @ take n x | _ \<Rightarrow> wt_wire wt w' = wt_wire wt w)
      \<and> wt_cost wt w' = wt_cost wt w \<and> wt_side wt w' = wt_side wt w \<and> (wt_broke wt w \<longrightarrow> wt_broke wt w')"
    if "ev_send env w x = (r, w')" for r w w' x
    using assms that unfolding wire_ok_def by meson
  show "unseen wt w (ev_mod_fd env e w)" "unseen wt w (ev_remove_fd env w)"
    "unseen wt w (ev_closed env w) \<and> wt_broke wt (ev_closed env w)"
    using assms unfolding wire_ok_def by meson+
  show "ev_send env w x = (Sent n, w') \<Longrightarrow> n \<le> length x \<and> wt_wire wt w' = wt_wire wt w @ take n x"
    "ev_send env w x = (SendAgain, w') \<Longrightarrow> unseen wt w w'" "ev_send env w x = (SendError, w') \<Longrightarrow> unseen wt w w'"
    "ev_send env w x = (r, w') \<Longrightarrow> wt_cost wt w' = wt_cost wt w \<and> wt_side wt w' = wt_side wt w \<and> (wt_broke wt w \<longrightarrow> wt_broke wt w')"
    using s[of w x _ w'] by (auto simp: unseen_def)
qed

lemma wire_ok_drained:
  assumes "wire_ok env wt" "ctl_ok c"
  shows "\<exists>x. grows wt (c, w) x (wt_tariff wt (wt_side wt w) * int (length x)) (ev_drained env c w)"
  using assms unfolding wire_ok_def by meson

lemma grows_unseen:
  "ctl_ok c \<Longrightarrow> unseen wt w w' \<Longrightarrow> grows wt (c, w) [] 0 (c, w')"
  by (auto simp: grows_def unseen_def carried_def)

lemma set_want_writable_grows:
  assumes "wire_ok env wt" "ctl_ok c"
  shows "grows wt (c, w) [] 0 (conn_set_want_writable env c want w)"
  using assms(2) wire_okD(1)[OF assms(1), of w "conn_desired_interest (c\<lparr>cc_want_writable := want\<rparr>)"]
  by (simp add: conn_set_want_writable_def conn_sync_interest_def Let_def grows_def carried_def unseen_def)

lemma mark_broken_grows:
  assumes "wire_ok env wt" "ctl_ok c"
  shows "grows wt (c, w) [] 0 (conn_mark_broken env c w) \<and> cc_broken (fst (conn_mark_broken env c w))"
  using assms(2) wire_okD(2)[OF assms(1), of w] wire_okD(3)[OF assms(1), of "ev_remove_fd env w"]
  by (auto simp: conn_mark_broken_def grows_def carried_def unseen_def)

lemma ctl_ok_read:
  "ctl_ok c \<Longrightarrow> ctl_ok (c\<lparr>cc_send_q := snd (cloak_bytequeue_read (cc_send_q c) n)\<rparr>)"
  using bq.rd_takes[of "cc_send_q c" n] bq.rd_frame[of "cc_send_q c" n]
  by (simp add: ctl_ok_def cloak_conn_envelope_len_def)

lemma drain_loop_grows:
  assumes env: "wire_ok env wt" and ok: "ctl_ok c"
  shows "\<exists>x. grows wt (c, w) x (wt_tariff wt (wt_side wt w) * int (length x)) (drain_loop env bp c w)"
  using ok
proof (induct "bq_len (cc_send_q c)" arbitrary: c w rule: less_induct)
  case less
  note d = drain_loop.simps[of env bp c w]
  have q: "bytequeue_ok (cc_send_q c)" using less.prems by (simp add: ctl_ok_def)
  have none: ?case if "grows wt (c, w) [] 0 (drain_loop env bp c w)"
    using that by (intro exI[of _ "[]"]) simp
  show ?case
  proof (cases "bq_len (cc_send_q c) = 0")
    case True
    obtain c1 w1 where s: "conn_set_want_writable env c False w = (c1, w1)" by fastforce
    have g: "grows wt (c, w) [] 0 (c1, w1)" and sd: "wt_side wt w1 = wt_side wt w" using set_want_writable_grows[OF env less.prems, of w False] s by (simp_all add: grows_def)
    then have "ctl_ok c1" by (simp add: grows_def)
    then obtain x where x: "grows wt (c1, w1) x (wt_tariff wt (wt_side wt w1) * int (length x)) (ev_drained env c1 w1)"
      using wire_ok_drained[OF env] by blast
    show ?thesis
    proof (cases bp)
      case True
      then show ?thesis using d s grows_trans[OF g x[unfolded sd]] \<open>bq_len (cc_send_q c) = 0\<close> by (auto simp: cloak_bytequeue_len_def)
    next
      case False
      then show ?thesis using d s g \<open>bq_len (cc_send_q c) = 0\<close> by (intro none) (simp add: cloak_bytequeue_len_def)
    qed
  next
    case False
    define want where "want = (if bq_len (cc_send_q c) < DRAIN_BUF_LEN then bq_len (cc_send_q c) else DRAIN_BUF_LEN)"
    define chunk where "chunk = cloak_bytequeue_peek (cc_send_q c) want"
    have want: "0 < want" "want \<le> bq_len (cc_send_q c)" using False by (auto simp: want_def DRAIN_BUF_LEN_def)
    obtain r w1 where s: "ev_send env w chunk = (r, w1)" by fastforce
    have d2: "drain_loop env bp c w =
       (case r of SendAgain \<Rightarrow> conn_set_want_writable env c True w1
          | SendError \<Rightarrow> conn_mark_broken env c w1
          | Sent n \<Rightarrow> (let c1 = c\<lparr>cc_send_q := snd (cloak_bytequeue_read (cc_send_q c) n)\<rparr> in
               if n < want then conn_set_want_writable env c1 True w1 else drain_loop env bp c1 w1))"
      using d False s by (simp add: want_def[symmetric] chunk_def[symmetric] cloak_bytequeue_len_def Let_def
          split: send_result.splits)
    show ?thesis
    proof (cases r)
      case (Sent n)
      let ?c1 = "c\<lparr>cc_send_q := snd (cloak_bytequeue_read (cc_send_q c) n)\<rparr>"
      have ok1: "ctl_ok ?c1" using ctl_ok_read less.prems by blast
      have g1: "grows wt (c, w) [] 0 (?c1, w1)"
        using wire_okD(4,7)[OF env s[unfolded Sent]] ok1 bq.peek_then_discard[OF q, of n want]
        by (simp add: grows_def carried_def chunk_def)
      show ?thesis
      proof (cases "n < want")
        case True
        then show ?thesis using d2 Sent grows_trans[OF g1 set_want_writable_grows[OF env ok1, of w1 True]]
          by (intro none) (simp add: Let_def)
      next
        case nw: False
        have "bq_len (cc_send_q ?c1) < bq_len (cc_send_q c)"
          using nw want by (auto simp: cloak_bytequeue_read_def Let_def)
        from less.hyps[OF this ok1, of w1] obtain x where
          x: "grows wt (?c1, w1) x (wt_tariff wt (wt_side wt w1) * int (length x)) (drain_loop env bp ?c1 w1)" by blast
        have "wt_side wt w1 = wt_side wt w" using g1 by (simp add: grows_def)
        then show ?thesis using d2 Sent nw grows_trans[OF g1 x] by (auto simp: Let_def)
      qed
    next
      case SendAgain
      then show ?thesis
        using d2 grows_trans[OF grows_unseen[OF less.prems wire_okD(5)[OF env s[unfolded SendAgain]]]
            set_want_writable_grows[OF env less.prems, of w1 True]] by (intro none) simp
    next
      case SendError
      then show ?thesis
        using d2 grows_trans[OF grows_unseen[OF less.prems wire_okD(6)[OF env s[unfolded SendError]]]
            mark_broken_grows[OF env less.prems, of w1, THEN conjunct1]] by (intro none) simp
    qed
  qed
qed

lemma ctl_ok_write:
  assumes "ctl_ok c" "length x \<le> cloak_bytequeue_free_space (cc_send_q c)"
  defines "q1 \<equiv> snd (cloak_bytequeue_write (cc_send_q c) x)"
  shows "ctl_ok (c\<lparr>cc_send_q := q1\<rparr>)" "bytequeue_list q1 = bytequeue_list (cc_send_q c) @ x"
    "cloak_bytequeue_free_space q1 = cloak_bytequeue_free_space (cc_send_q c) - length x"
proof -
  have q: "bytequeue_ok (cc_send_q c)" "\<not> bq_closed (cc_send_q c)" using assms(1) by (simp_all add: ctl_ok_def)
  note wr = bq.wr_fits[OF q assms(2), folded q1_def] bq.wr_frame[of "cc_send_q c" x, folded q1_def]
  show "ctl_ok (c\<lparr>cc_send_q := q1\<rparr>)" "bytequeue_list q1 = bytequeue_list (cc_send_q c) @ x"
    using assms(1) wr by (simp_all add: ctl_ok_def cloak_conn_envelope_len_def)
  show "cloak_bytequeue_free_space q1 = cloak_bytequeue_free_space (cc_send_q c) - length x"
    using bq.room_content[of q1] bq.room_content[OF q(1)] wr by simp
qed

lemma ws_enqueue_fits:
  assumes ok: "ctl_ok c"
    and h: "cloak_ws_frame_write_header n op True mk (of_nat (length p)) = Some hdr"
    and room: "length hdr + length p \<le> cloak_bytequeue_free_space (cc_send_q c)"
  defines "c' \<equiv> c\<lparr>cc_send_q := (case mk of
      None \<Rightarrow> snd (cloak_bytequeue_write (snd (cloak_bytequeue_write (cc_send_q c) hdr)) p)
    | Some key \<Rightarrow> mask_chunks (length p) key 0 p (snd (cloak_bytequeue_write (cc_send_q c) hdr)))\<rparr>"
  shows "grows wt (c, w) (ws_message op mk p) 0 (c', w)"
proof -
  define q1 where "q1 = snd (cloak_bytequeue_write (cc_send_q c) hdr)"
  note q1 = ctl_ok_write[OF ok, of hdr, folded q1_def]
  have r1: "length p \<le> cloak_bytequeue_free_space q1" using q1(3) room by simp
  have ok1: "ctl_ok (c\<lparr>cc_send_q := q1\<rparr>)" using q1(1) room by simp
  then have q1ok: "bytequeue_ok q1" "\<not> bq_closed q1" by (simp_all add: ctl_ok_def)
  note hs = write_header_shape[OF h, THEN conjunct1]
  show ?thesis
  proof (cases mk)
    case None
    have "ctl_ok c'" "bytequeue_list (cc_send_q c') = bytequeue_list q1 @ p"
      using ctl_ok_write[OF ok1, of p] r1 None by (simp_all add: q1_def c'_def)
    then show ?thesis using None q1(2) room hs by (simp add: grows_def carried_def ws_message_def c'_def)
  next
    case (Some key)
    note m = mask_chunks_writes[OF q1ok r1 order_refl, of key 0]
    have "ctl_ok c'" using m Some ok1 by (simp add: ctl_ok_def q1_def cloak_conn_envelope_len_def c'_def)
    then show ?thesis using Some q1(2) room hs m by (simp add: grows_def carried_def ws_message_def q1_def c'_def)
  qed
qed

lemma ws_enqueue_grows:
  assumes env: "wire_ok env wt" and ok: "ctl_ok c"
    and e: "conn_ws_enqueue_frame env c op p w = (fine, c', w')"
  shows "if fine then w' = w \<and> grows wt (c, w) (ws_message op (our_mask c (ev_entropy env w)) p) 0 (c', w')
         else grows wt (c, w) [] 0 (c', w') \<and> cc_broken c'"
proof -
  let ?key = "our_mask c (ev_entropy env w)"
  let ?hdr = "cloak_ws_frame_write_header CLOAK_WS_FRAME_MAX_HEADER_LEN op True ?key (of_nat (length p))"
  have u: "conn_ws_enqueue_frame env c op p w =
    (case ?hdr of None \<Rightarrow> (case conn_mark_broken env c w of (c1, w1) \<Rightarrow> (False, c1, w1))
     | Some hdr \<Rightarrow> if cloak_bytequeue_free_space (cc_send_q c) < length hdr + length p
         then (case conn_mark_broken env c w of (c1, w1) \<Rightarrow> (False, c1, w1))
         else (True, c\<lparr>cc_send_q := (case ?key of None \<Rightarrow> snd (cloak_bytequeue_write (snd (cloak_bytequeue_write (cc_send_q c) hdr)) p)
               | Some key \<Rightarrow> mask_chunks (length p) key 0 p (snd (cloak_bytequeue_write (cc_send_q c) hdr)))\<rparr>, w))"
    unfolding conn_ws_enqueue_frame_def our_mask_def Let_def by (rule refl)
  have broken: ?thesis if "(case conn_mark_broken env c w of (c1, w1) \<Rightarrow> (False, c1, w1)) = (fine, c', w')"
    using that mark_broken_grows[OF env ok, of w] by (auto split: prod.splits)
  show ?thesis
  proof (cases "\<exists>hdr. ?hdr = Some hdr \<and> length hdr + length p \<le> cloak_bytequeue_free_space (cc_send_q c)")
    case False
    then show ?thesis using u e broken by (auto simp: not_le split: option.splits)
  next
    case True
    then obtain hdr where h: "?hdr = Some hdr"
      and room: "length hdr + length p \<le> cloak_bytequeue_free_space (cc_send_q c)" by blast
    have fw: "fine" "w' = w" and c': "c' = c\<lparr>cc_send_q := (case ?key of
          None \<Rightarrow> snd (cloak_bytequeue_write (snd (cloak_bytequeue_write (cc_send_q c) hdr)) p)
        | Some key \<Rightarrow> mask_chunks (length p) key 0 p (snd (cloak_bytequeue_write (cc_send_q c) hdr)))\<rparr>"
      using u e h room by simp_all
    show ?thesis using ws_enqueue_fits[OF ok h room] fw c' by simp
  qed
qed

lemma tls_enqueue_grows:
  assumes "ctl_ok c" "CLOAK_CONN_RECORD_HEADER_LEN + length f \<le> cloak_bytequeue_free_space (cc_send_q c)"
  defines "q2 \<equiv> snd (cloak_bytequeue_write (snd (cloak_bytequeue_write (cc_send_q c) (record_header (length f)))) f)"
  shows "grows wt (c, w) (record_header (length f) @ f) 0 (c\<lparr>cc_send_q := q2\<rparr>, w)"
proof -
  have l: "length (record_header (length f)) = 5" by (simp add: record_header_def)
  note a = ctl_ok_write[OF assms(1), of "record_header (length f)"]
  have a': "ctl_ok (c\<lparr>cc_send_q := snd (cloak_bytequeue_write (cc_send_q c) (record_header (length f)))\<rparr>)"
    using a(1) assms(2) l by (simp add: conn_consts)
  note b = ctl_ok_write[OF a', of f, simplified, folded q2_def]
  show ?thesis using b a assms(2) l by (simp add: grows_def carried_def conn_consts)
qed

lemma conn_send_grows:
  assumes "wire_ok env wt" "ctl_ok c" "cloak_conn_send env c f w = (rc, c', w')"
  shows "\<exists>e x. grows wt (c, w) (e @ x) (wt_tariff wt (wt_side wt w) * int (length x)) (c', w')
     \<and> (e = conn_envelope c (ev_entropy env w) f \<or> e = [] \<and> x = [])
     \<and> (rc = 0 \<and> e = conn_envelope c (ev_entropy env w) f \<or> rc = -1 \<and> cc_broken c')"
proof -
  let ?E = "conn_envelope c (ev_entropy env w) f"
  note mb = mark_broken_grows[OF assms(1,2), of w]
  have none: ?thesis if "grows wt (c, w) [] 0 (c', w')" "rc = -1" "cc_broken c'"
    using that by (intro exI[of _ "[]"]) simp
  have fin: ?thesis if c1: "grows wt (c, w) ?E 0 (c1, w1)"
    and d: "conn_try_drain_send env c1 w1 = (c', w')" "rc = (if cc_broken c' then -1 else 0)" for c1 w1
  proof -
    have "ctl_ok c1" "wt_side wt w1 = wt_side wt w" using c1 by (simp_all add: grows_def)
    then obtain x where "grows wt (c1, w1) x (wt_tariff wt (wt_side wt w) * int (length x)) (c', w')"
      using drain_loop_grows[OF assms(1), of c1 w1] d(1) by (metis conn_try_drain_send_def)
    then show ?thesis using grows_trans[OF c1] d(2) by (intro exI[of _ ?E] exI[of _ x]) simp
  qed
  consider "cc_broken c" "(rc, c', w') = (-1, c, w)"
    | "rc = -1" "conn_mark_broken env c w = (c', w')"
    | "\<not> cc_broken c" "cc_framing c \<noteq> CLOAK_CONN_FRAMING_TLS_RECORD" "length f \<le> cc_max_frame_len c"
    | "\<not> cc_broken c" "cc_framing c = CLOAK_CONN_FRAMING_TLS_RECORD" "length f \<le> cc_max_frame_len c"
      "CLOAK_CONN_RECORD_HEADER_LEN + length f \<le> cloak_bytequeue_free_space (cc_send_q c)"
      "\<not> CLOAK_CONN_RECORD_HEADER_LEN + length f > cc_max_envelope_len c"
    using assms(3) unfolding cloak_conn_send_def Let_def by (auto split: if_splits prod.splits simp: not_less)
  then show ?thesis
  proof cases
    case 1
    then show ?thesis using assms(2) by (intro none) (auto simp: grows_def)
  next
    case 2
    then show ?thesis using mb by (intro none) simp_all
  next
    case 3
    obtain fine c1 w1 where e: "conn_ws_enqueue_frame env c CLOAK_WS_OP_BINARY f w = (fine, c1, w1)" by (metis prod_cases3)
    note q = ws_enqueue_grows[OF assms(1,2) e]
    show ?thesis
    proof (cases "fine")
      case True
      then show ?thesis using q assms(3) 3 e
        by (intro fin[of c1 w1]) (auto simp: cloak_conn_send_def Let_def conn_envelope_def split: prod.splits)
    next
      case False
      then show ?thesis using q assms(3) 3 e by (intro none) (auto simp: cloak_conn_send_def Let_def)
    qed
  next
    case 4
    note q = tls_enqueue_grows[OF assms(2) 4(4), of wt w]
    show ?thesis using assms(3) 4 q
      by (intro fin) (auto simp: cloak_conn_send_def Let_def conn_envelope_def split: prod.splits)
  qed
qed


definition partial_env :: "(bytes \<times> bytes list) conn_env" where
  \<comment> \<open>a world of the bytes sent and the frames received; the socket takes three bytes at a time\<close>
  "partial_env = \<lparr>ev_send = (\<lambda>w x. (Sent (min 3 (length x)), (fst w @ take 3 x, snd w))),
     ev_recv = (\<lambda>w n. (RecvAgain, w)), ev_mod_fd = (\<lambda>e w. w), ev_remove_fd = (\<lambda>w. w),
     ev_add_timer = (\<lambda>d w. (True, w)), ev_cancel_timer = (\<lambda>w. w), ev_now = (\<lambda>w. 0), ev_valve = (\<lambda>w. None), ev_set_valve = (\<lambda>v w. w),
     ev_entropy = (\<lambda>w. toy_entropy 0 5), ev_envelope = (\<lambda>x c w. (c, (fst w, snd w @ [x]))),
     ev_drained = (\<lambda>c w. (c, w)), ev_closed = (\<lambda>w. w)\<rparr>"

definition sent_watcher :: "(bytes \<times> bytes list, unit) watcher" where
  "sent_watcher = \<lparr>wt_wire = fst, wt_cost = (\<lambda>w. 0), wt_side = (\<lambda>w. ()), wt_tariff = (\<lambda>s. 0), wt_broke = (\<lambda>w. True)\<rparr>"

lemma partial_env_ok: "wire_ok partial_env sent_watcher"
  by (auto simp: wire_ok_def partial_env_def sent_watcher_def unseen_def grows_def carried_def min_def)

definition sample_ctl :: conn_ctl where
  "sample_ctl = \<lparr>cc_framing = CLOAK_CONN_FRAMING_TLS_RECORD, cc_max_frame_len = 16, cc_max_envelope_len = 21,
     cc_max_recv_envelope_len = 21,
     cc_send_q = \<lparr>bq_data = replicate 64 0, bq_cap = 64, bq_head = 60, bq_len = 0, bq_closed = False\<rparr>,
     cc_broken = False, cc_want_writable = False, cc_read_paused = False, cc_interest = (True, False)\<rparr>"

lemma sample_ctl_ok: "ctl_ok sample_ctl"
  by (simp add: ctl_ok_def sample_ctl_def bytequeue_ok_def conn_consts cloak_conn_envelope_len_def)


lemma conn_envelope_length:
  assumes "ctl_ok c" "entropy_ok r" "length f \<le> cc_max_frame_len c"
  shows "length (conn_envelope c r f) = cloak_conn_envelope_len c (length f)
       \<and> cloak_conn_envelope_len c (length f) \<le> cc_max_envelope_len c"
proof -
  have l: "length f \<le> 16640" using assms by (simp add: ctl_ok_def conn_consts)
  then have "length f < 2 ^ 64" by simp
  then have le: "((of_nat (length f) :: u64) \<le> 125) = (length f \<le> 125)" "(of_nat (length f) :: u64) \<le> 0xffff"
    using l by (simp_all add: word_le_nat_alt unat_of_nat take_bit_nat_eq_self)
  have k: "length (cloak_ws_frame_mask_key r) = 4"
    using assms(2) by (simp add: cloak_ws_frame_mask_key_def entropy_ok_def)
  have "length (conn_envelope c r f) = cloak_conn_envelope_len c (length f)"
    using le k by (auto simp: conn_envelope_def record_header_def cloak_conn_envelope_len_def conn_ws_envelope_len_def
        conn_consts ws_consts ws_message_def our_mask_def length_ws_ext)
  moreover have "cloak_conn_envelope_len c (length f) \<le> cc_max_envelope_len c"
    using assms by (auto simp: ctl_ok_def cloak_conn_envelope_len_def conn_ws_envelope_len_def conn_consts)
  ultimately show ?thesis by blast
qed

lemma conn_send_fits:
  assumes "wire_ok env wt" "ctl_ok c" "cloak_conn_send env c f w = (0, c', w')"
  shows "length f \<le> cc_max_frame_len c \<and> \<not> cc_broken c"
  using assms(3) by (auto simp: cloak_conn_send_def Let_def split: if_splits prod.splits)

text \<open>
  The bytes a frame costs on the wire are exactly what \<open>cloak_conn_envelope_len\<close> reports for it (the count that
  callers bill and schedule by), for every framing and every frame a connection accepts.
\<close>

theorem conn_envelope_billed_exactly:
  assumes "ctl_ok c" "entropy_ok r" "length f \<le> cc_max_frame_len c"
  shows "length (conn_envelope c r f) = cloak_conn_envelope_len c (length f)
       \<and> cloak_conn_envelope_len c (length f) \<le> cc_max_envelope_len c"
  by (rule conn_envelope_length[OF assms])

theorem conn_envelope_billed_exactly_witness:
  "length (conn_envelope sample_ctl (toy_entropy 0 5) (replicate 3 7)) = cloak_conn_envelope_len sample_ctl 3
   \<and> cloak_conn_envelope_len sample_ctl 3 \<le> 21"
proof -
  have "cc_max_frame_len sample_ctl = 16" "cc_max_envelope_len sample_ctl = 21" by (simp_all add: sample_ctl_def)
  then show ?thesis
    using conn_envelope_billed_exactly[OF sample_ctl_ok toy_entropy_ok, of "replicate 3 7" 0 5] by simp
qed

section \<open>Cutting the incoming stream\<close>

text \<open>Specification: the frames in a byte run, the bytes left over, and whether a declared length was refused.\<close>

function tls_parse :: "nat \<Rightarrow> bytes \<Rightarrow> bytes list \<times> bytes \<times> bool" where
  "tls_parse m bs =
     (if length bs < 5 then ([], bs, False)
      else let n = unat (be16_load (drop 3 bs) :: u16) in
           if n > m then ([], bs, True)
           else if length bs < 5 + n then ([], bs, False)
           else case tls_parse m (drop (5 + n) bs) of (fs, rest, bad) \<Rightarrow> (take n (drop 5 bs) # fs, rest, bad))"
  by pat_completeness auto

termination by (relation "measure (length \<circ> snd)") auto

declare tls_parse.simps [simp del]

lemma be16_load_drop_append: "length a \<ge> 5 \<Longrightarrow> be16_load (drop 3 (a @ b)) = (be16_load (drop 3 a) :: u16)"
  by simp

lemma tls_parse_append:
  assumes "tls_parse m a = (fs, rest, False)"
  shows "tls_parse m (a @ b) = (case tls_parse m (rest @ b) of (fs', rest', bad) \<Rightarrow> (fs @ fs', rest', bad))"
  using assms
proof (induction m a arbitrary: fs rule: tls_parse.induct)
  case (1 m a)
  let ?n = "unat (be16_load (drop 3 a) :: u16)"
  show ?case
  proof (cases "length a < 5 \<or> length a < 5 + ?n")
    case True
    then have "fs = [] \<and> rest = a"
      using "1.prems" by (subst (asm) tls_parse.simps) (auto simp: Let_def split: if_splits prod.splits)
    then show ?thesis by (simp split: prod.splits)
  next
    case False
    then have n: "\<not> ?n > m" using "1.prems" by (subst (asm) tls_parse.simps) (auto simp: Let_def split: if_splits)
    obtain fs1 r1 b1 where p: "tls_parse m (drop (5 + ?n) a) = (fs1, r1, b1)" by (metis prod_cases3)
    have f: "fs = take ?n (drop 5 a) # fs1" "r1 = rest" "b1 = False"
      using "1.prems" False n p by (subst (asm) tls_parse.simps, simp add: Let_def)+
    have IH: "tls_parse m (drop (5 + ?n) a @ b) = (case tls_parse m (rest @ b) of (fs', rest', bad) \<Rightarrow> (fs1 @ fs', rest', bad))"
      using "1.IH"[OF _ refl n] False p f by simp
    show ?thesis using False n IH f
      by (subst tls_parse.simps) (simp add: be16_load_drop_append Let_def split: prod.splits)
  qed
qed

lemma tls_parse_residual:
  "tls_parse m a = (fs, rest, False) \<Longrightarrow> length rest < 5 + m \<and> (\<forall>f \<in> set fs. length f \<le> m)"
proof (induction m a arbitrary: fs rule: tls_parse.induct)
  case (1 m a)
  let ?n = "unat (be16_load (drop 3 a) :: u16)"
  have u: "tls_parse m a = (if length a < 5 then ([], a, False) else if ?n > m then ([], a, True)
      else if length a < 5 + ?n then ([], a, False)
      else case tls_parse m (drop (5 + ?n) a) of (fs, rest, bad) \<Rightarrow> (take ?n (drop 5 a) # fs, rest, bad))"
    by (subst tls_parse.simps) (simp add: Let_def)
  consider "length a < 5" | "length a \<ge> 5" "?n \<le> m" "length a < 5 + ?n" | "length a \<ge> 5" "?n \<le> m" "length a \<ge> 5 + ?n"
    using "1.prems" u by (auto split: if_splits)
  then show ?case
  proof cases
    case 3
    obtain fs1 r1 b1 where p: "tls_parse m (drop (5 + ?n) a) = (fs1, r1, b1)" by (metis prod_cases3)
    with 3 u "1.prems" have f: "fs = take ?n (drop 5 a) # fs1" "r1 = rest" "b1 = False" by simp_all
    then show ?thesis using "1.IH"[OF _ refl, of fs1] 3 p by (auto simp: not_less)
  qed (use "1.prems" u in auto)
qed

lemma tls_parse_step:
  "tls_parse m a = (let n = unat (be16_load (drop 3 a) :: u16) in
     if length a < 5 then ([], a, False) else if n > m then ([], a, True)
     else if length a < 5 + n then ([], a, False)
     else case tls_parse m (drop (5 + n) a) of (fs, rest, bad) \<Rightarrow> (take n (drop 5 a) # fs, rest, bad))"
  by (subst tls_parse.simps) (simp add: Let_def)

lemma tls_parse_mono: "\<exists>hs. fst (tls_parse m (a @ b)) = fst (tls_parse m a) @ hs"
proof (induction m a rule: tls_parse.induct)
  case (1 m a)
  let ?n = "unat (be16_load (drop 3 a) :: u16)"
  show ?case
  proof (cases "length a < 5 \<or> ?n > m \<or> length a < 5 + ?n")
    case True
    then have "fst (tls_parse m a) = []" by (subst tls_parse_step) (auto simp: Let_def)
    then show ?thesis by simp
  next
    case False
    then obtain hs where IH: "fst (tls_parse m (drop (5 + ?n) a @ b)) = fst (tls_parse m (drop (5 + ?n) a)) @ hs"
      using "1.IH"[OF _ refl] by auto
    show ?thesis using False IH
      by (subst (1 2) tls_parse_step) (auto simp: Let_def be16_load_drop_append split: prod.splits)
  qed
qed

definition quiet :: "('w \<Rightarrow> bytes) \<Rightarrow> ('w \<Rightarrow> bytes list) \<Rightarrow> ('w \<Rightarrow> nat) \<Rightarrow> ('w \<Rightarrow> 'w) \<Rightarrow> bool" where
  "quiet inp got avail f \<longleftrightarrow> (\<forall>w. inp (f w) = inp w \<and> got (f w) = got w \<and> avail (f w) \<le> avail w)"

definition recv_env_ok :: "'w conn_env \<Rightarrow> ('w \<Rightarrow> bytes) \<Rightarrow> ('w \<Rightarrow> bytes list) \<Rightarrow> ('w \<Rightarrow> nat) \<Rightarrow> bool" where
  \<comment> \<open>\<open>inp\<close>: the bytes received so far; \<open>got\<close>: the frames handed to the owner; \<open>avail\<close>: a bound on what the
     kernel still holds. The owner's callback records the frame and leaves the framing alone.\<close>
  "recv_env_ok env inp got avail \<longleftrightarrow>
     (\<forall>w n r w'. ev_recv env w n = (r, w') \<longrightarrow> got w' = got w \<and>
        (case r of Received bs \<Rightarrow> length bs \<le> n \<and> inp w' = inp w @ bs \<and> (bs \<noteq> [] \<longrightarrow> avail w' < avail w)
         | _ \<Rightarrow> inp w' = inp w))
   \<and> (\<forall>x k w k' w'. ev_envelope env x k w = (k', w') \<longrightarrow> inp w' = inp w \<and> got w' = got w @ [x] \<and> avail w' \<le> avail w
        \<and> cc_framing k' = cc_framing k \<and> cc_max_frame_len k' = cc_max_frame_len k)
   \<and> (\<forall>e. quiet inp got avail (ev_mod_fd env e)) \<and> quiet inp got avail (ev_remove_fd env)
   \<and> quiet inp got avail (ev_closed env) \<and> (\<forall>v. quiet inp got avail (ev_set_valve env v))
   \<and> (\<forall>d. quiet inp got avail (\<lambda>w. snd (ev_add_timer env d w)))"

definition tls_conn_ok :: "nat \<Rightarrow> conn \<Rightarrow> bool" where
  "tls_conn_ok m c \<longleftrightarrow> cc_framing (cn_ctl c) = CLOAK_CONN_FRAMING_TLS_RECORD \<and> cc_max_frame_len (cn_ctl c) = m
     \<and> bytequeue_ok (cn_recv_acc c) \<and> \<not> bq_closed (cn_recv_acc c) \<and> bq_cap (cn_recv_acc c) = 2 * (5 + m)"

lemma quiet_mark_broken:
  assumes "recv_env_ok env inp got avail" "conn_mark_broken env k w = (k', w')"
  shows "inp w' = inp w \<and> got w' = got w \<and> avail w' \<le> avail w \<and> cc_broken k'
     \<and> cc_framing k' = cc_framing k \<and> cc_max_frame_len k' = cc_max_frame_len k"
proof -
  have "quiet inp got avail (ev_remove_fd env)" "quiet inp got avail (ev_closed env)"
    using assms(1) unfolding recv_env_ok_def by blast+
  then show ?thesis using assms(2) unfolding quiet_def conn_mark_broken_def
    by (auto split: if_splits intro: order_trans)
qed

lemma recv_env_okD:
  assumes "recv_env_ok env inp got avail"
  shows "ev_envelope env x k w = (k', w') \<Longrightarrow> inp w' = inp w \<and> got w' = got w @ [x] \<and> avail w' \<le> avail w
        \<and> cc_framing k' = cc_framing k \<and> cc_max_frame_len k' = cc_max_frame_len k"
    and "ev_recv env w n = (r, w') \<Longrightarrow> got w' = got w"
    and "ev_recv env w n = (Received bs, w') \<Longrightarrow> length bs \<le> n \<and> inp w' = inp w @ bs \<and> (bs \<noteq> [] \<longrightarrow> avail w' < avail w)"
    and "ev_recv env w n = (RecvAgain, w') \<Longrightarrow> inp w' = inp w"
    and "ev_recv env w n = (RecvError, w') \<Longrightarrow> inp w' = inp w"
    and "quiet inp got avail (ev_set_valve env v)" and "quiet inp got avail (ev_mod_fd env e)"
    and "quiet inp got avail (\<lambda>w. snd (ev_add_timer env d w))"
proof -
  have s: "got w' = got w \<and> (case r of Received bs \<Rightarrow> length bs \<le> n \<and> inp w' = inp w @ bs \<and> (bs \<noteq> [] \<longrightarrow> avail w' < avail w)
         | _ \<Rightarrow> inp w' = inp w)" if "ev_recv env w n = (r, w')" for r w n w'
    using assms that unfolding recv_env_ok_def by meson
  show "ev_recv env w n = (r, w') \<Longrightarrow> got w' = got w" using s by blast
  show "ev_recv env w n = (Received bs, w') \<Longrightarrow> length bs \<le> n \<and> inp w' = inp w @ bs \<and> (bs \<noteq> [] \<longrightarrow> avail w' < avail w)"
    "ev_recv env w n = (RecvAgain, w') \<Longrightarrow> inp w' = inp w" "ev_recv env w n = (RecvError, w') \<Longrightarrow> inp w' = inp w"
    using s[of w n _ w'] by auto
  show "ev_envelope env x k w = (k', w') \<Longrightarrow> inp w' = inp w \<and> got w' = got w @ [x] \<and> avail w' \<le> avail w
        \<and> cc_framing k' = cc_framing k \<and> cc_max_frame_len k' = cc_max_frame_len k"
    using assms unfolding recv_env_ok_def by meson
  show "quiet inp got avail (ev_set_valve env v)" "quiet inp got avail (ev_mod_fd env e)"
    "quiet inp got avail (\<lambda>w. snd (ev_add_timer env d w))"
    using assms unfolding recv_env_ok_def by meson+
qed

lemma tls_extract_parses:
  assumes env: "recv_env_ok env inp got avail" and "tls_conn_ok m c" "length (bytequeue_list (cn_recv_acc c)) \<le> fuel"
    and "tls_parse m (bytequeue_list (cn_recv_acc c)) = (fs, rest, bad)"
  shows "\<exists>c' w' gs hs. tls_extract env fuel c w = Some (c', w') \<and> tls_conn_ok m c' \<and> inp w' = inp w \<and> avail w' \<le> avail w
     \<and> fs = gs @ hs \<and> got w' = got w @ gs
     \<and> (\<not> cc_broken (cn_ctl c') \<longrightarrow> hs = [] \<and> bytequeue_list (cn_recv_acc c') = rest \<and> \<not> bad)"
  using assms(2-)
proof (induction fuel arbitrary: c w fs rest bad)
  case 0
  have a: "bytequeue_ok (cn_recv_acc c)" using 0 by (simp add: tls_conn_ok_def)
  have "tls_extract env 0 c w = Some (c, w)"
    using 0 bq.pk_takes[OF a, of 5] by (subst tls_extract.simps) (simp add: conn_consts Let_def)
  moreover have "(fs, rest, bad) = ([], [], False)" using 0 by (subst (asm) tls_parse_step) (simp add: Let_def)
  ultimately show ?case using 0 by auto
next
  case (Suc fuel)
  let ?a = "bytequeue_list (cn_recv_acc c)"
  let ?n = "unat (be16_load (drop 3 ?a) :: u16)"
  have a: "bytequeue_ok (cn_recv_acc c)" and fr: "cc_framing (cn_ctl c) = CLOAK_CONN_FRAMING_TLS_RECORD"
    and m: "cc_max_frame_len (cn_ctl c) = m" using Suc.prems by (auto simp: tls_conn_ok_def)
  have hd: "cloak_bytequeue_peek (cn_recv_acc c) 5 = take 5 ?a" and ln: "cloak_bytequeue_len (cn_recv_acc c) = length ?a"
    using bq.pk_takes[OF a] bq.used_content[OF a] by auto
  have be: "5 \<le> length ?a \<Longrightarrow> be16_load (drop 3 (take 5 ?a)) = (be16_load (drop 3 ?a) :: u16)"
    by (simp add: be16_load_def)
  note x = tls_extract.simps[of env "Suc fuel" c w] and p = Suc.prems(3)[unfolded tls_parse_step[of m ?a] Let_def]
  consider "length ?a < 5 \<or> ?n \<le> m \<and> length ?a < 5 + ?n" | "5 \<le> length ?a" "?n > m" | "5 \<le> length ?a" "?n \<le> m" "5 + ?n \<le> length ?a"
    by linarith
  then show ?case
  proof cases
    case 1
    then have "tls_extract env (Suc fuel) c w = Some (c, w)" using x hd ln m be
      by (cases "length ?a < 5") (simp_all add: conn_consts Let_def)
    moreover have "(fs, rest, bad) = ([], ?a, False)" using p 1 by (auto split: if_splits)
    ultimately show ?thesis using Suc.prems(1) by auto
  next
    case 2
    obtain k w1 where b: "conn_mark_broken env (cn_ctl c) w = (k, w1)" by fastforce
    have "tls_extract env (Suc fuel) c w = Some (c\<lparr>cn_ctl := k\<rparr>, w1)" using x hd m be 2 b by (simp add: conn_consts Let_def)
    moreover have "fs = []" using p 2 by simp
    ultimately show ?thesis using Suc.prems(1) quiet_mark_broken[OF env b] by (auto simp: tls_conn_ok_def)
  next
    case 3
    obtain acc where r: "cloak_bytequeue_read (cn_recv_acc c) (5 + ?n) = (take (5 + ?n) ?a, acc)"
      "bytequeue_ok acc" "bytequeue_list acc = drop (5 + ?n) ?a"
      using bq.rd_takes[OF a, of "5 + ?n"] by metis
    have acc: "bq_cap acc = bq_cap (cn_recv_acc c)" "bq_closed acc = bq_closed (cn_recv_acc c)"
      using bq.rd_frame[of "cn_recv_acc c" "5 + ?n"] r by simp_all
    let ?f = "take ?n (drop 5 ?a)"
    have f: "drop 5 (take (5 + ?n) ?a) = ?f" by (simp add: drop_take)
    obtain k w1 where e: "ev_envelope env ?f (cn_ctl c) w = (k, w1)" by fastforce
    define c2 where "c2 = c\<lparr>cn_recv_acc := acc, cn_ctl := k\<rparr>"
    have x': "tls_extract env (Suc fuel) c w = (if cc_broken k then Some (c2, w1) else tls_extract env fuel c2 w1)"
      using x hd ln m be 3 r(1) e f by (simp add: conn_consts Let_def c2_def)
    note ev = recv_env_okD(1)[OF env e]
    have ok2: "tls_conn_ok m c2" using Suc.prems(1) ev r acc by (simp add: tls_conn_ok_def c2_def)
    obtain fs1 r1 b1 where p1: "tls_parse m (drop (5 + ?n) ?a) = (fs1, r1, b1)" by (metis prod_cases3)
    have fs: "fs = ?f # fs1" "rest = r1" "bad = b1" using p 3 p1 by auto
    show ?thesis
    proof (cases "cc_broken k")
      case True
      then show ?thesis using x' ok2 ev fs by (auto simp: c2_def)
    next
      case False
      have "length (bytequeue_list (cn_recv_acc c2)) \<le> fuel" using Suc.prems(2) r(3) 3 by (simp add: c2_def)
      from Suc.IH[OF ok2 this, of fs1 r1 b1 w1] p1 r(3) obtain c' w' gs hs where
        "tls_extract env fuel c2 w1 = Some (c', w')" "tls_conn_ok m c'" "inp w' = inp w1" "avail w' \<le> avail w1"
        "fs1 = gs @ hs" "got w' = got w1 @ gs"
        "\<not> cc_broken (cn_ctl c') \<longrightarrow> hs = [] \<and> bytequeue_list (cn_recv_acc c') = r1 \<and> \<not> b1"
        by (auto simp: c2_def)
      then show ?thesis using x' False ev fs
        by (intro exI[of _ c'] exI[of _ w'] exI[of _ "?f # gs"] exI[of _ hs]) auto
    qed
  qed
qed

definition tls_received :: "nat \<Rightarrow> ('w \<Rightarrow> bytes) \<Rightarrow> ('w \<Rightarrow> bytes list) \<Rightarrow> conn \<Rightarrow> 'w \<Rightarrow> bool" where
  \<comment> \<open>what has been handed up is a prefix of the frames of all bytes received, and all of them unless broken\<close>
  "tls_received m inp got c w \<longleftrightarrow> (\<exists>hs. fst (tls_parse m (inp w)) = got w @ hs)
     \<and> (\<not> cc_broken (cn_ctl c) \<longrightarrow> tls_parse m (inp w) = (got w, bytequeue_list (cn_recv_acc c), False))"

lemma tls_received_quiet:
  assumes "tls_received m inp got c w" "inp w' = inp w" "got w' = got w"
    "cn_recv_acc c' = cn_recv_acc c" "cc_broken (cn_ctl c) \<longrightarrow> cc_broken (cn_ctl c')"
  shows "tls_received m inp got c' w'"
  using assms by (auto simp: tls_received_def)

lemma tls_chunk_received:
  assumes env: "recv_env_ok env inp got avail" and ok: "tls_conn_ok m c"
    and nb: "\<not> cc_broken (cn_ctl c)" and rel: "tls_received m inp got c w"
    and bs: "length bs \<le> cloak_bytequeue_free_space (cn_recv_acc c)"
    and w1: "inp w1 = inp w @ bs" "got w1 = got w"
  defines "c1 \<equiv> c\<lparr>cn_recv_acc := snd (cloak_bytequeue_write (cn_recv_acc c) bs)\<rparr>"
  shows "\<exists>c' w'. conn_extract_and_dispatch env c1 w1 = Some (c', w') \<and> tls_conn_ok m c' \<and> tls_received m inp got c' w'
     \<and> inp w' = inp w1 \<and> avail w' \<le> avail w1"
proof -
  have q: "bytequeue_ok (cn_recv_acc c)" "\<not> bq_closed (cn_recv_acc c)" using ok by (simp_all add: tls_conn_ok_def)
  have acc: "bytequeue_list (cn_recv_acc c1) = bytequeue_list (cn_recv_acc c) @ bs" and ok1: "tls_conn_ok m c1"
    using bq.wr_fits[OF q bs] bq.wr_frame[of "cn_recv_acc c" bs] ok by (simp_all add: c1_def tls_conn_ok_def)
  have p0: "tls_parse m (inp w) = (got w, bytequeue_list (cn_recv_acc c), False)" using rel nb by (simp add: tls_received_def)
  obtain fs rest bad where p: "tls_parse m (bytequeue_list (cn_recv_acc c1)) = (fs, rest, bad)" by (metis prod_cases3)
  have p1: "tls_parse m (inp w1) = (got w @ fs, rest, bad)" using tls_parse_append[OF p0, of bs] p acc w1 by simp
  have len: "cloak_bytequeue_len (cn_recv_acc c1) = length (bytequeue_list (cn_recv_acc c1))"
    using bq.used_content ok1 by (simp add: tls_conn_ok_def)
  obtain c' w' gs hs where x: "tls_extract env (cloak_bytequeue_len (cn_recv_acc c1)) c1 w1 = Some (c', w')"
    "tls_conn_ok m c'" "inp w' = inp w1" "avail w' \<le> avail w1" "fs = gs @ hs" "got w' = got w1 @ gs"
    "\<not> cc_broken (cn_ctl c') \<longrightarrow> hs = [] \<and> bytequeue_list (cn_recv_acc c') = rest \<and> \<not> bad"
    using tls_extract_parses[OF env ok1 _ p, of "cloak_bytequeue_len (cn_recv_acc c1)" w1] len by auto
  have "tls_received m inp got c' w'" using x p1 w1 by (auto simp: tls_received_def)
  moreover have "cc_framing (cn_ctl c1) = CLOAK_CONN_FRAMING_TLS_RECORD" using ok1 by (simp add: tls_conn_ok_def)
  ultimately show ?thesis using x
    by (auto simp: conn_extract_and_dispatch_def conn_tls_extract_and_dispatch_def)
qed

lemma tls_room:
  assumes "tls_conn_ok m c" "\<not> cc_broken (cn_ctl c)" "tls_received m inp got c w"
  shows "5 + m < cloak_bytequeue_free_space (cn_recv_acc c)"
proof -
  have "length (bytequeue_list (cn_recv_acc c)) < 5 + m"
    using assms tls_parse_residual[of m "inp w" "got w" "bytequeue_list (cn_recv_acc c)"] by (simp add: tls_received_def)
  then show ?thesis using bq.room_content[of "cn_recv_acc c"] assms(1) by (simp add: tls_conn_ok_def)
qed

lemma pause_read_quiet:
  assumes env: "recv_env_ok env inp got avail" "conn_pause_read_for_rate env c w = (c', w')"
  shows "inp w' = inp w \<and> got w' = got w \<and> cn_recv_acc c' = cn_recv_acc c \<and> (cc_broken (cn_ctl c) \<longrightarrow> cc_broken (cn_ctl c'))
     \<and> cc_framing (cn_ctl c') = cc_framing (cn_ctl c) \<and> cc_max_frame_len (cn_ctl c') = cc_max_frame_len (cn_ctl c)"
proof -
  obtain delay v where d: "cloak_valve_rx_resume_delay_ms (ev_valve env w) (ev_now env w) = (delay, v)" by fastforce
  obtain added w1 where a: "ev_add_timer env (nat delay) (ev_set_valve env v w) = (added, w1)" by fastforce
  have w1: "inp w1 = inp w" "got w1 = got w"
    using recv_env_okD(6,8)[OF env(1)] a unfolding quiet_def by (metis snd_conv)+
  have sync: "inp y = inp x \<and> got y = got x \<and> cc_broken k' = cc_broken k \<and> cc_framing k' = cc_framing k
      \<and> cc_max_frame_len k' = cc_max_frame_len k" if "conn_sync_interest env k x = (k', y)" for k x k' y
    using recv_env_okD(7)[OF env(1), of "conn_desired_interest k"] that unfolding quiet_def conn_sync_interest_def Let_def by (auto split: if_splits)
  obtain k2 w2 where b: "conn_mark_broken env (cn_ctl c) w1 = (k2, w2)" by fastforce
  obtain k3 w3 where s: "conn_sync_interest env ((cn_ctl c)\<lparr>cc_read_paused := True\<rparr>) w1 = (k3, w3)" by fastforce
  obtain k4 w4 where s': "conn_sync_interest env ((cn_ctl c)\<lparr>cc_read_paused := True\<rparr>) w = (k4, w4)" by fastforce
  show ?thesis
    using env(2) d a b s s' w1 sync[OF s] sync[OF s'] quiet_mark_broken[OF env(1) b]
    by (cases "cn_rx_timer c"; cases added) (auto simp: conn_pause_read_for_rate_def)
qed

lemma handle_readable_tls:
  assumes env: "recv_env_ok env inp got avail"
    and "tls_conn_ok m c" "\<not> cc_broken (cn_ctl c)" "tls_received m inp got c w"
  shows "\<exists>c' w'. conn_handle_readable env c w = Some (c', w') \<and> tls_conn_ok m c' \<and> tls_received m inp got c' w'
     \<and> (\<exists>bs. inp w' = inp w @ bs)"
  using assms(2-)
proof (induct "avail w" arbitrary: c w rule: less_induct)
  case less
  let ?room = "cloak_bytequeue_free_space (cn_recv_acc c)"
  define want where "want = (if ?room < 4096 then ?room else 4096)"
  have room: "0 < ?room" using tls_room[OF less.prems] by simp
  obtain allowed v where v: "cloak_valve_take_rx (ev_valve env w) (ev_now env w) (int want) = (allowed, v)" by fastforce
  define w0 where "w0 = ev_set_valve env v w"
  have w0: "inp w0 = inp w" "got w0 = got w" "avail w0 \<le> avail w"
    using recv_env_okD(6)[OF env, of v] by (simp_all add: quiet_def w0_def)
  define want1 where "want1 = (if nat allowed < want then nat allowed else want)"
  have want1: "want1 \<le> ?room" by (simp add: want1_def want_def)
  obtain r w1 where r: "ev_recv env w0 want1 = (r, w1)" by fastforce
  note x = conn_handle_readable.simps[of env c w, unfolded Let_def, folded want_def, unfolded v prod.case,
      folded w0_def want1_def, unfolded r prod.case]
  have brk: ?case if b: "conn_mark_broken env (cn_ctl c) y = (k, w2)" "inp y = inp w" "got y = got w"
    and "conn_handle_readable env c w = Some (c\<lparr>cn_ctl := k\<rparr>, w2)" for y k w2
  proof -
    note q = quiet_mark_broken[OF env b(1)]
    have "tls_received m inp got (c\<lparr>cn_ctl := k\<rparr>) w2"
      by (rule tls_received_quiet[OF less.prems(3)]) (use q that in simp_all)
    then show ?thesis using that q less.prems(1) by (auto simp: tls_conn_ok_def)
  qed
  show ?case
  proof (cases "allowed \<le> 0")
    case True
    obtain c' w' where p: "conn_pause_read_for_rate env c w0 = (c', w')" by fastforce
    then have "conn_handle_readable env c w = Some (c', w')" using x True room by simp
    moreover have "tls_received m inp got c' w'"
      by (rule tls_received_quiet[OF less.prems(3)]) (use pause_read_quiet[OF env p] w0 in simp_all)
    ultimately show ?thesis using pause_read_quiet[OF env p] w0 less.prems(1) by (auto simp: tls_conn_ok_def)
  next
    case False
    show ?thesis
    proof (cases r)
      case RecvAgain
      then have "conn_handle_readable env c w = Some (c, w1)" using x False room by simp
      then show ?thesis using recv_env_okD(2,4)[OF env r[unfolded RecvAgain]] w0 less.prems
        by (auto intro!: tls_received_quiet[OF less.prems(3)])
    next
      case RecvError
      obtain k w2 where b: "conn_mark_broken env (cn_ctl c) w1 = (k, w2)" by fastforce
      show ?thesis using recv_env_okD(2,5)[OF env r[unfolded RecvError]] w0 x False room RecvError b
        by (intro brk[OF b]) simp_all
    next
      case (Received bs)
      note rb = recv_env_okD(2,3)[OF env r[unfolded Received]]
      show ?thesis
      proof (cases "bs = []")
        case True
        obtain k w2 where b: "conn_mark_broken env (cn_ctl c) w1 = (k, w2)" by fastforce
        show ?thesis using rb w0 x False room True Received b by (intro brk[OF b]) simp_all
      next
        case ne: False
        define w2 where "w2 = ev_set_valve env (cloak_valve_add_rx (ev_valve env w1) (int (length bs))) w1"
        have w2: "inp w2 = inp w @ bs" "got w2 = got w" "avail w2 < avail w"
          using recv_env_okD(6)[OF env, of "cloak_valve_add_rx (ev_valve env w1) (int (length bs))"] rb w0 ne
          unfolding quiet_def w2_def[symmetric] by (simp_all add: w2_def) (meson le_less_trans less_le_trans)
        obtain c3 w3 where e: "conn_extract_and_dispatch env
            (c\<lparr>cn_recv_acc := snd (cloak_bytequeue_write (cn_recv_acc c) bs)\<rparr>) w2 = Some (c3, w3)"
          "tls_conn_ok m c3" "tls_received m inp got c3 w3" "inp w3 = inp w2" "avail w3 \<le> avail w2"
          using tls_chunk_received[OF env less.prems(1,2,3) _ w2(1,2)] rb want1 by (meson order_trans)
        have x2: "conn_handle_readable env c w = (if cc_broken (cn_ctl c3) then Some (c3, w3) else conn_handle_readable env c3 w3)"
          using x False room Received ne e(1) by (simp add: w2_def)
        show ?thesis
        proof (cases "cc_broken (cn_ctl c3)")
          case True
          then show ?thesis using x2 e w2 by auto
        next
          case False
          then show ?thesis using x2 e w2 less.hyps[of w3 c3] by auto
        qed
      qed
    qed
  qed
qed

lemma record_header_length:
  "n < 65536 \<Longrightarrow> unat (be16_load (drop 3 (record_header n @ x)) :: u16) = n"
proof -
  assume n: "n < 65536"
  have d: "unat (drop_bit 8 (of_nat n :: u16)) = n div 256"
    using n unsigned_drop_bit_eq[of 8 "of_nat n :: u16", where ?'a = nat]
    by (simp only: unat_of_nat) (simp add: drop_bit_eq_div take_bit_nat_eq_self)
  have "ucast (drop_bit 8 (of_nat n :: u16)) = (of_nat (drop_bit 8 n AND 255) :: byte)"
    unfolding word_unat_eq_iff unsigned_ucast_eq d using and_pow2[of "n div 256" 8] n
    by (simp add: unat_of_nat take_bit_eq_mod drop_bit_eq_div)
  moreover have "ucast (of_nat n :: u16) = (of_nat (n AND 255) :: byte)"
    using and_pow2[of n 8] n by (simp add: word_unat_eq_iff unsigned_ucast_eq unat_of_nat take_bit_eq_mod)
  ultimately have "drop 3 (record_header n @ x) = be16_store (of_nat n :: u16) @ x"
    by (simp add: record_header_def be16_store_def)
  then show ?thesis using n by (simp add: be16_load_store take_bit_word_full unat_of_nat)
qed

lemma tls_parse_records:
  assumes "\<forall>f \<in> set fs. length f \<le> m" "m < 65536"
  shows "tls_parse m (concat (map (\<lambda>f. record_header (length f) @ f) fs)) = (fs, [], False)"
  using assms(1)
proof (induction fs)
  case Nil
  then show ?case by (subst tls_parse_step) (simp add: Let_def)
next
  case (Cons f fs)
  have l: "length (record_header (length f)) = 5" by (simp add: record_header_def)
  have n: "unat (be16_load (drop 3 (record_header (length f) @ x)) :: u16) = length f" for x
    using Cons.prems assms(2) by (intro record_header_length) auto
  show ?case using Cons l n by (subst tls_parse_step) (simp add: Let_def)
qed

text \<open>
  C23: one readable event on a TLS-framed connection always ends when the kernel holds finitely many bytes, and
  however the kernel cuts the bytes, however the rate limiter pauses the loop and whatever the owner's callback does,
  the frames handed to the owner are exactly the leading frames of the whole byte stream received so far, in order, each
  handed up once; all complete ones while the connection is not broken. The accumulator then holds only the
  incomplete tail, and always has room for more than a whole envelope.
\<close>

theorem conn_tls_stream_cut:
  assumes "recv_env_ok env inp got avail"
    and "tls_conn_ok m c" "\<not> cc_broken (cn_ctl c)" "tls_received m inp got c w"
  shows "\<exists>c' w'. conn_handle_readable env c w = Some (c', w') \<and> tls_conn_ok m c'
     \<and> (\<exists>hs. fst (tls_parse m (inp w')) = got w' @ hs) \<and> (\<exists>bs. inp w' = inp w @ bs)
     \<and> (cc_broken (cn_ctl c') \<or>
          tls_parse m (inp w') = (got w', bytequeue_list (cn_recv_acc c'), False)
        \<and> 5 + m < cloak_bytequeue_free_space (cn_recv_acc c')
        \<and> (\<forall>fs. m < 65536 \<and> (\<forall>f \<in> set fs. length f \<le> m)
              \<and> inp w' = concat (map (\<lambda>f. record_header (length f) @ f) fs) \<longrightarrow> got w' = fs))"
proof -
  obtain c' w' where h: "conn_handle_readable env c w = Some (c', w')" "tls_conn_ok m c'"
    "tls_received m inp got c' w'" "\<exists>bs. inp w' = inp w @ bs"
    using handle_readable_tls[OF assms] by blast
  have "got w' = fs" if "\<not> cc_broken (cn_ctl c')" "m < 65536" "\<forall>f \<in> set fs. length f \<le> m"
    "inp w' = concat (map (\<lambda>f. record_header (length f) @ f) fs)" for fs
    using tls_parse_records[OF that(3,2)] h(3) that(1,4) by (simp add: tls_received_def)
  then show ?thesis using h tls_room[OF h(2) _ h(3)] unfolding tls_received_def by blast
qed

definition trickle_env :: "(bytes \<times> bytes \<times> bytes list) conn_env" where
  \<comment> \<open>a world of pending bytes, bytes received and frames handed up; the socket gives two bytes at a time\<close>
  "trickle_env = \<lparr>ev_send = (\<lambda>w x. (SendAgain, w)),
     ev_recv = (\<lambda>(p, i, g) n. if p = [] then (RecvAgain, (p, i, g))
                 else (Received (take (min 2 n) p), (drop (min 2 n) p, i @ take (min 2 n) p, g))),
     ev_mod_fd = (\<lambda>e w. w), ev_remove_fd = (\<lambda>w. w),
     ev_add_timer = (\<lambda>d w. (True, w)), ev_cancel_timer = (\<lambda>w. w), ev_now = (\<lambda>w. 0), ev_valve = (\<lambda>w. None), ev_set_valve = (\<lambda>v w. w),
     ev_entropy = (\<lambda>w. toy_entropy 0 5), ev_envelope = (\<lambda>x c (p, i, g). (c, (p, i, g @ [x]))),
     ev_drained = (\<lambda>c w. (c, w)), ev_closed = (\<lambda>w. w)\<rparr>"

lemma trickle_env_ok: "recv_env_ok trickle_env (\<lambda>(p, i, g). i) (\<lambda>(p, i, g). g) (\<lambda>(p, i, g). length p)"
  by (auto simp: recv_env_ok_def trickle_env_def quiet_def split: if_splits)

definition sample_conn :: conn where
  "sample_conn = \<lparr>cn_ctl = sample_ctl, cn_recv_acc = \<lparr>bq_data = replicate 42 0, bq_cap = 42, bq_head = 0, bq_len = 0,
     bq_closed = False\<rparr>, cn_ws_msg = [], cn_ws_msg_active = False, cn_rx_timer = False\<rparr>"

lemma sample_conn_ok:
  "tls_conn_ok 16 sample_conn" "\<not> cc_broken (cn_ctl sample_conn)" "bytequeue_list (cn_recv_acc sample_conn) = []"
  by (simp_all add: tls_conn_ok_def sample_conn_def sample_ctl_def bytequeue_ok_def bytequeue_list_def)

lemma tls_parse_nil: "tls_parse m [] = ([], [], False)"
  by (subst tls_parse_step) (simp add: Let_def)

theorem conn_tls_stream_cut_witness:
  "\<exists>c' p' i' g'. conn_handle_readable trickle_env sample_conn ([0x17, 3, 3, 0, 1, 9, 0x17], [], []) = Some (c', (p', i', g'))
     \<and> tls_conn_ok 16 c' \<and> (\<exists>hs. fst (tls_parse 16 i') = g' @ hs)
     \<and> (cc_broken (cn_ctl c') \<or> tls_parse 16 i' = (g', bytequeue_list (cn_recv_acc c'), False))"
proof -
  let ?w = "([0x17, 3, 3, 0, 1, 9, 0x17], [], []) :: bytes \<times> bytes \<times> bytes list"
  have "tls_received 16 (\<lambda>(p, i, g). i) (\<lambda>(p, i, g). g) sample_conn ?w"
    using sample_conn_ok(3) by (simp add: tls_received_def tls_parse_nil)
  from conn_tls_stream_cut[OF trickle_env_ok sample_conn_ok(1,2) this]
  obtain c' w' where h: "conn_handle_readable trickle_env sample_conn ?w = Some (c', w')" "tls_conn_ok 16 c'"
    "\<exists>hs. fst (tls_parse 16 (case w' of (p, i, g) \<Rightarrow> i)) = (case w' of (p, i, g) \<Rightarrow> g) @ hs"
    "cc_broken (cn_ctl c') \<or> tls_parse 16 (case w' of (p, i, g) \<Rightarrow> i)
       = ((case w' of (p, i, g) \<Rightarrow> g), bytequeue_list (cn_recv_acc c'), False)"
    by blast
  obtain p' i' g' where w': "w' = (p', i', g')" by (metis prod_cases3)
  show ?thesis using h unfolding w' by (intro exI[of _ c'] exI[of _ p'] exI[of _ i'] exI[of _ g']) simp
qed

lemma cloak_conn_init_ok:
  assumes "malloc_sound malloc" "cloak_conn_init malloc fd m cap = (0, Some c)"
  shows "tls_conn_ok m c \<and> ctl_ok (cn_ctl c) \<and> \<not> cc_broken (cn_ctl c)
     \<and> bytequeue_list (cn_recv_acc c) = [] \<and> bytequeue_list (cc_send_q (cn_ctl c)) = []"
proof -
  obtain acc where a: "cloak_bytequeue_init malloc bytequeue_unused (2 * (5 + m)) = (0, acc)" and "c = c"
    using assms(2) by (auto simp: cloak_conn_init_def cloak_conn_init_cfg_def conn_consts Let_def split: if_splits prod.splits)
  obtain sq where s: "cloak_bytequeue_init malloc bytequeue_unused cap = (0, sq)"
    using assms(2) by (auto simp: cloak_conn_init_def cloak_conn_init_cfg_def conn_consts Let_def split: if_splits prod.splits)
  show ?thesis
    using assms(2) a s cloak_bytequeue_init_ok[OF assms(1) a] cloak_bytequeue_init_ok[OF assms(1) s]
    by (auto simp: cloak_conn_init_def cloak_conn_init_cfg_def conn_consts Let_def tls_conn_ok_def ctl_ok_def
        cloak_conn_envelope_len_def split: if_splits prod.splits)
qed

section \<open>WebSocket messages\<close>

definition ws_env_ok :: "'w conn_env \<Rightarrow> ('w \<Rightarrow> bytes list) \<Rightarrow> bool" where
  \<comment> \<open>\<open>got\<close> is what the owner has been handed; nothing but its envelope callback changes it, and no callback
     changes the frame limit\<close>
  "ws_env_ok env got \<longleftrightarrow>
     (\<forall>x k w k' w'. ev_envelope env x k w = (k', w') \<longrightarrow> got w' = got w @ [x] \<and> cc_max_frame_len k' = cc_max_frame_len k)
   \<and> (\<forall>k w k' w'. ev_drained env k w = (k', w') \<longrightarrow> got w' = got w \<and> cc_max_frame_len k' = cc_max_frame_len k)
   \<and> (\<forall>w x r w'. ev_send env w x = (r, w') \<longrightarrow> got w' = got w)
   \<and> (\<forall>e w. got (ev_mod_fd env e w) = got w) \<and> (\<forall>w. got (ev_remove_fd env w) = got w)
   \<and> (\<forall>w. got (ev_closed env w) = got w)"

definition same_limit :: "('w \<Rightarrow> bytes list) \<Rightarrow> conn_ctl \<times> 'w \<Rightarrow> conn_ctl \<times> 'w \<Rightarrow> bool" where
  "same_limit got s s' \<longleftrightarrow> got (snd s') = got (snd s) \<and> cc_max_frame_len (fst s') = cc_max_frame_len (fst s)"

lemma same_limit_mark_broken: "ws_env_ok env got \<Longrightarrow> same_limit got (k, w) (conn_mark_broken env k w)"
  unfolding ws_env_ok_def same_limit_def conn_mark_broken_def by simp

lemma same_limit_set_want:
  assumes "ws_env_ok env got"
  shows "same_limit got (k, w) (conn_set_want_writable env k a w)"
proof -
  have "got (ev_mod_fd env e x) = got x" for e x using assms unfolding ws_env_ok_def by meson
  then show ?thesis by (simp add: same_limit_def conn_set_want_writable_def conn_sync_interest_def Let_def)
qed

lemma same_limit_drained: "ws_env_ok env got \<Longrightarrow> same_limit got (k, w) (ev_drained env k w)"
  unfolding ws_env_ok_def same_limit_def by (metis surj_pair fst_conv snd_conv)

lemma same_limit_send: "ws_env_ok env got \<Longrightarrow> got (snd (ev_send env w x)) = got w"
  unfolding ws_env_ok_def by (metis surj_pair snd_conv)

lemma same_limit_trans: "same_limit got s t \<Longrightarrow> same_limit got t u \<Longrightarrow> same_limit got s u"
  by (simp add: same_limit_def)

lemma same_limit_drain:
  assumes "ws_env_ok env got"
  shows "same_limit got (k, w) (drain_loop env bp k w)"
proof (induct "bq_len (cc_send_q k)" arbitrary: k w rule: less_induct)
  case less
  obtain k1 w1 where s: "conn_set_want_writable env k False w = (k1, w1)" by fastforce
  have s1: "same_limit got (k, w) (k1, w1)" using same_limit_set_want[OF assms, of k w False] s by simp
  define want where "want = (if cloak_bytequeue_len (cc_send_q k) < DRAIN_BUF_LEN then cloak_bytequeue_len (cc_send_q k) else DRAIN_BUF_LEN)"
  obtain r w2 where e: "ev_send env w (cloak_bytequeue_peek (cc_send_q k) want) = (r, w2)" by fastforce
  have w2: "got w2 = got w" using same_limit_send[OF assms] e by (metis snd_conv)
  have to2: "same_limit got (k', w2) t \<Longrightarrow> cc_max_frame_len k' = cc_max_frame_len k \<Longrightarrow> same_limit got (k, w) t" for k' t
    using w2 by (simp add: same_limit_def)
  note d = drain_loop.simps[of env bp k w, unfolded Let_def, folded want_def, unfolded s e prod.case]
  show ?case
  proof (cases "cloak_bytequeue_len (cc_send_q k) = 0")
    case True
    then show ?thesis using d s1 same_limit_trans[OF s1 same_limit_drained[OF assms, of k1 w1]] by (cases bp) auto
  next
    case False
    then have want: "0 < want" "want \<le> bq_len (cc_send_q k)"
      by (auto simp: want_def cloak_bytequeue_len_def DRAIN_BUF_LEN_def)
    show ?thesis
    proof (cases r)
      case (Sent n)
      let ?k = "k\<lparr>cc_send_q := snd (cloak_bytequeue_read (cc_send_q k) n)\<rparr>"
      show ?thesis
      proof (cases "n < want")
        case True
        show ?thesis using d False Sent True to2[OF same_limit_set_want[OF assms, of ?k w2 True]] by simp
      next
        case nw: False
        have "bq_len (cc_send_q ?k) < bq_len (cc_send_q k)"
          using nw want by (auto simp: cloak_bytequeue_read_def Let_def)
        from to2[OF less[OF this, of w2]] show ?thesis using d False Sent nw by simp
      qed
    next
      case SendAgain
      then show ?thesis using d False to2[OF same_limit_set_want[OF assms, of k w2 True]] by simp
    next
      case SendError
      then show ?thesis using d False to2[OF same_limit_mark_broken[OF assms, of k w2]] by simp
    qed
  qed
qed

lemma same_limit_enqueue:
  assumes "ws_env_ok env got" "conn_ws_enqueue_frame env k op p w = (fine, k', w')"
  shows "same_limit got (k, w) (k', w')"
proof -
  obtain k1 w1 where b: "conn_mark_broken env k w = (k1, w1)" by fastforce
  have "(k', w') = (k1, w1) \<or> w' = w \<and> cc_max_frame_len k' = cc_max_frame_len k"
    using assms(2) b by (auto simp: conn_ws_enqueue_frame_def Let_def split: option.splits if_splits)
  then show ?thesis using same_limit_mark_broken[OF assms(1), of k w] b by (auto simp: same_limit_def)
qed

lemma take_payload_ok:
  assumes "bytequeue_ok (cn_recv_acc c)" "conn_ws_take_payload c h n = (p, c1)"
    and "wh_header_len h + n \<le> length (bytequeue_list (cn_recv_acc c))"
  shows "cn_ctl c1 = cn_ctl c \<and> cn_ws_msg c1 = cn_ws_msg c \<and> bytequeue_ok (cn_recv_acc c1)
     \<and> bytequeue_list (cn_recv_acc c1) = drop (wh_header_len h + n) (bytequeue_list (cn_recv_acc c))
     \<and> length p = n" (is ?state)
    and "p = (let x = take n (drop (wh_header_len h) (bytequeue_list (cn_recv_acc c))) in
            if wh_masked h then fst (cloak_ws_frame_mask x (wh_mask_key h) 0) else x)" (is ?payload)
proof -
  let ?a = "bytequeue_list (cn_recv_acc c)"
  define acc1 where "acc1 = snd (cloak_bytequeue_read (cn_recv_acc c) (wh_header_len h))"
  have a1: "bytequeue_ok acc1" "bytequeue_list acc1 = drop (wh_header_len h) ?a"
    using bq.rd_takes[OF assms(1), of "wh_header_len h"] by (auto simp: acc1_def)
  obtain acc2 where a2: "cloak_bytequeue_read acc1 n = (take n (bytequeue_list acc1), acc2)" "bytequeue_ok acc2"
    "bytequeue_list acc2 = drop n (bytequeue_list acc1)"
    using bq.rd_takes[OF a1(1), of n] by metis
  have "?state \<and> ?payload"
  proof (cases "n = 0")
    case True
    then show ?thesis using assms a1 by (auto simp: conn_ws_take_payload_def acc1_def[symmetric] ws_mask_eq Let_def)
  next
    case False
    then have "p = (if wh_masked h then fst (cloak_ws_frame_mask (take n (bytequeue_list acc1)) (wh_mask_key h) 0)
        else take n (bytequeue_list acc1))" "c1 = c\<lparr>cn_recv_acc := acc2\<rparr>"
      using assms(2) a2(1) by (auto simp: conn_ws_take_payload_def acc1_def[symmetric])
    then show ?thesis using a1 a2 assms(3) by (simp add: Let_def add.commute)
  qed
  then show ?state ?payload by blast+
qed

definition ws_conn_ok :: "nat \<Rightarrow> conn \<Rightarrow> bool" where
  "ws_conn_ok m c \<longleftrightarrow> bytequeue_ok (cn_recv_acc c) \<and> cc_max_frame_len (cn_ctl c) = m \<and> length (cn_ws_msg c) \<le> m"

definition ws_progress :: "nat \<Rightarrow> ('w \<Rightarrow> bytes list) \<Rightarrow> conn \<Rightarrow> 'w \<Rightarrow> conn \<Rightarrow> 'w \<Rightarrow> bool" where
  "ws_progress m got c w c' w' \<longleftrightarrow> ws_conn_ok m c'
     \<and> length (bytequeue_list (cn_recv_acc c')) \<le> length (bytequeue_list (cn_recv_acc c))
     \<and> (\<exists>gs. got w' = got w @ gs \<and> (\<forall>g \<in> set gs. length g \<le> m))"

lemma parse_peek:
  assumes "bytequeue_ok q" "cloak_ws_frame_parse_header (cloak_bytequeue_peek q CLOAK_WS_FRAME_MAX_HEADER_LEN) = WsHeader h"
  shows "2 \<le> wh_header_len h"
  using assms(2) by (auto simp: parse_header_cases ws_need_def split: if_splits)

lemma ws_progress_ctl:
  assumes "ws_conn_ok m c" "same_limit got (cn_ctl c, w) (k, v)" "bytequeue_ok (cn_recv_acc d)" "cn_ws_msg d = cn_ws_msg c"
    and "length (bytequeue_list (cn_recv_acc d)) \<le> length (bytequeue_list (cn_recv_acc c))"
  shows "ws_progress m got c w (d\<lparr>cn_ctl := k\<rparr>) v"
  using assms by (auto simp: ws_progress_def ws_conn_ok_def same_limit_def)

lemma ws_break_progress:
  assumes "ws_env_ok env got" "ws_conn_ok m c" "ws_break env c w = (go, c', w')"
  shows "ws_progress m got c w c' w' \<and> \<not> go"
proof -
  obtain k v where b: "conn_mark_broken env (cn_ctl c) w = (k, v)" by fastforce
  then have "c' = c\<lparr>cn_ctl := k\<rparr>" "w' = v" "\<not> go" using assms(3) by (auto simp: ws_break_def)
  then show ?thesis using ws_progress_ctl[OF assms(2), of got w k v c] same_limit_mark_broken[OF assms(1), of "cn_ctl c" w] b assms(2)
    by (simp add: ws_conn_ok_def)
qed

lemma ws_control_progress:
  assumes env: "ws_env_ok env got" and ok: "ws_conn_ok m c" and h: "2 \<le> wh_header_len h"
    and n: "wh_header_len h + n \<le> length (bytequeue_list (cn_recv_acc c))"
    and st: "ws_on_control env c h n w = (go, c', w')"
  shows "ws_progress m got c w c' w' \<and> length (bytequeue_list (cn_recv_acc c')) < length (bytequeue_list (cn_recv_acc c))"
proof -
  have a: "bytequeue_ok (cn_recv_acc c)" using ok by (simp add: ws_conn_ok_def)
  obtain p c1 where tp: "conn_ws_take_payload c h n = (p, c1)" by fastforce
  note t = take_payload_ok(1)[OF a tp n]
  have c1: "cn_ctl c1 = cn_ctl c" "cn_ws_msg c1 = cn_ws_msg c" using t by simp_all
  have len: "length (bytequeue_list (cn_recv_acc c1)) < length (bytequeue_list (cn_recv_acc c))" using t h n by auto
  define op where "op = (if wh_opcode h = CLOAK_WS_OP_PING then CLOAK_WS_OP_PONG else CLOAK_WS_OP_CLOSE)"
  obtain fine k1 w1 where e: "conn_ws_enqueue_frame env (cn_ctl c) op p w = (fine, k1, w1)" by (metis prod_cases3)
  obtain k2 w2 where d: "conn_try_drain_send env k1 w1 = (k2, w2)" by fastforce
  have s1: "same_limit got (cn_ctl c, w) (k1, w1)" using same_limit_enqueue[OF env e] .
  have s2: "same_limit got (cn_ctl c, w) (k2, w2)"
    using same_limit_trans[OF s1 same_limit_drain[OF env]] d by (metis conn_try_drain_send_def)
  obtain k3 w3 where b: "conn_mark_broken env (if \<not> cc_broken k1 then k2 else k1) (if \<not> cc_broken k1 then w2 else w1) = (k3, w3)"
    by fastforce
  have s3: "same_limit got (cn_ctl c, w) (k3, w3)"
    using same_limit_trans[OF s1 same_limit_mark_broken[OF env]] same_limit_trans[OF s2 same_limit_mark_broken[OF env]] b
    by (cases "cc_broken k1") simp_all
  have "\<exists>k v. c' = c1\<lparr>cn_ctl := k\<rparr> \<and> w' = v \<and> same_limit got (cn_ctl c, w) (k, v)"
  proof (cases "wh_opcode h = CLOAK_WS_OP_PONG")
    case True
    then have "c' = c1" "w' = w" using st tp by (auto simp: ws_on_control_def ws_ops)
    then show ?thesis using c1 by (intro exI[of _ "cn_ctl c1"]) (simp add: same_limit_def)
  next
    case False
    then show ?thesis using st tp e d b s1 s2 s3 c1
      by (cases "wh_opcode h = CLOAK_WS_OP_PING"; cases "cc_broken k1"; cases fine)
        (auto simp: ws_on_control_def op_def ws_break_def)
  qed
  then obtain k v where kv: "c' = c1\<lparr>cn_ctl := k\<rparr>" "w' = v" "same_limit got (cn_ctl c, w) (k, v)" by blast
  show ?thesis using ws_progress_ctl[OF ok kv(3), of c1] t c1 len kv(1,2) by simp
qed

lemma ws_data_progress:
  assumes env: "ws_env_ok env got" and ok: "ws_conn_ok m c" and h: "2 \<le> wh_header_len h"
    and n: "wh_header_len h + n \<le> length (bytequeue_list (cn_recv_acc c))"
    and st: "ws_on_data env c h n w = (go, c', w')"
  shows "ws_progress m got c w c' w'
     \<and> (go \<longrightarrow> length (bytequeue_list (cn_recv_acc c')) < length (bytequeue_list (cn_recv_acc c)))"
proof (cases "ws_on_data env c h n w = ws_break env c w")
  case True
  then show ?thesis using ws_break_progress[OF env ok] st by metis
next
  case False
  then have fits: "n \<le> m - length (cn_ws_msg c)" using ok by (auto simp: ws_on_data_def ws_conn_ok_def split: if_splits)
  have a: "bytequeue_ok (cn_recv_acc c)" using ok by (simp add: ws_conn_ok_def)
  obtain p c1 where tp: "conn_ws_take_payload c h n = (p, c1)" by fastforce
  note t = take_payload_ok(1)[OF a tp n]
  have c1: "cn_ctl c1 = cn_ctl c" "cn_ws_msg c1 = cn_ws_msg c" using t by simp_all
  have len: "length (bytequeue_list (cn_recv_acc c1)) < length (bytequeue_list (cn_recv_acc c))" using t h n by auto
  have ml: "length (cn_ws_msg c @ p) \<le> m" using fits t ok by (auto simp: ws_conn_ok_def)
  obtain k v where e: "ev_envelope env (cn_ws_msg c @ p) (cn_ctl c) w = (k, v)" by fastforce
  then have ev: "got v = got w @ [cn_ws_msg c @ p]" "cc_max_frame_len k = cc_max_frame_len (cn_ctl c)"
    using env unfolding ws_env_ok_def by blast+
  have "ws_on_data env c h n w = (if \<not> wh_fin h then (True, c1\<lparr>cn_ws_msg := cn_ws_msg c @ p, cn_ws_msg_active := True\<rparr>, w)
      else (\<not> cc_broken k, c1\<lparr>cn_ws_msg := [], cn_ws_msg_active := False, cn_ctl := k\<rparr>, v))"
    using False tp c1 e by (auto simp: ws_on_data_def Let_def split: if_splits)
  then show ?thesis using st len ev ml c1 t ok by (auto simp: ws_progress_def ws_conn_ok_def split: if_splits)
qed

lemma ws_step_progress:
  assumes env: "ws_env_ok env got" and ok: "ws_conn_ok m c" and st: "ws_extract_step env c w = (go, c', w')"
  shows "ws_progress m got c w c' w'
     \<and> (go \<longrightarrow> length (bytequeue_list (cn_recv_acc c')) < length (bytequeue_list (cn_recv_acc c)))"
proof -
  have a: "bytequeue_ok (cn_recv_acc c)" using ok by (simp add: ws_conn_ok_def)
  have stay: ?thesis if "(False, c, w) = (go, c', w')" using that ok by (auto simp: ws_progress_def)
  show ?thesis
  proof (cases "cloak_ws_frame_parse_header (cloak_bytequeue_peek (cn_recv_acc c) CLOAK_WS_FRAME_MAX_HEADER_LEN)")
    case WsNeedMore
    then show ?thesis using st stay by (simp add: ws_extract_step_def Let_def)
  next
    case WsMalformed
    then show ?thesis using st ws_break_progress[OF env ok] by (auto simp: ws_extract_step_def Let_def)
  next
    case (WsHeader h)
    let ?n = "unat (wh_payload_len h)"
    consider "ws_break env c w = (go, c', w')" | "(False, c, w) = (go, c', w')"
      | "wh_header_len h + ?n \<le> length (bytequeue_list (cn_recv_acc c))" "ws_on_control env c h ?n w = (go, c', w')"
      | "wh_header_len h + ?n \<le> length (bytequeue_list (cn_recv_acc c))" "ws_on_data env c h ?n w = (go, c', w')"
      using st WsHeader bq.used_content[OF a] unfolding ws_extract_step_def Let_def by (auto split: if_splits simp: not_less)
    then show ?thesis
      using ws_break_progress[OF env ok, of w go c' w'] stay ws_control_progress[OF env ok parse_peek[OF a WsHeader], of ?n w go c' w']
        ws_data_progress[OF env ok parse_peek[OF a WsHeader], of ?n w go c' w']
      by cases blast+
  qed
qed

lemma ws_extract_progress:
  assumes "ws_env_ok env got" "ws_conn_ok m c" "length (bytequeue_list (cn_recv_acc c)) \<le> fuel"
  shows "\<exists>c' w'. ws_extract env fuel c w = Some (c', w') \<and> ws_progress m got c w c' w'"
  using assms(2-)
proof (induction fuel arbitrary: c w)
  case (0 c w)
  obtain go c1 w1 where s: "ws_extract_step env c w = (go, c1, w1)" by (metis prod_cases3)
  then show ?case using ws_step_progress[OF assms(1) 0(1) s] 0(2)
    by (cases go) (auto simp: ws_extract.simps[of env 0])
next
  case (Suc fuel c w)
  obtain go c1 w1 where s: "ws_extract_step env c w = (go, c1, w1)" by (metis prod_cases3)
  note p = ws_step_progress[OF assms(1) Suc.prems(1) s]
  show ?case
  proof (cases go)
    case False
    then show ?thesis using p s by (auto simp: ws_extract.simps[of env "Suc fuel"])
  next
    case True
    then have "ws_conn_ok m c1" "length (bytequeue_list (cn_recv_acc c1)) \<le> fuel"
      using p Suc.prems(2) by (auto simp: ws_progress_def)
    from Suc.IH[OF this, of w1] obtain c' w' where r: "ws_extract env fuel c1 w1 = Some (c', w')"
      "ws_progress m got c1 w1 c' w'" by blast
    have "ws_progress m got c w c' w'" using r(2) p unfolding ws_progress_def by (auto simp: ball_Un)
    then show ?thesis using r(1) s True by (simp add: ws_extract.simps[of env "Suc fuel"])
  qed
qed

text \<open>
  Extraction from a WebSocket-framed connection always returns, whatever bytes the peer sent: the fuel is never the
  reason it stops. It never takes bytes it was not given, and neither the reassembly buffer nor any message it hands up
  exceeds \<open>max_frame_len\<close>, however the peer fragments its messages.
\<close>

theorem conn_ws_extraction_bounded:
  assumes "ws_env_ok env got" "bytequeue_ok (cn_recv_acc c)" "length (cn_ws_msg c) \<le> cc_max_frame_len (cn_ctl c)"
  shows "\<exists>c' w' gs. conn_ws_extract_and_dispatch env c w = Some (c', w') \<and> got w' = got w @ gs
     \<and> (\<forall>g \<in> set gs. length g \<le> cc_max_frame_len (cn_ctl c))
     \<and> bytequeue_ok (cn_recv_acc c') \<and> cc_max_frame_len (cn_ctl c') = cc_max_frame_len (cn_ctl c)
     \<and> length (cn_ws_msg c') \<le> cc_max_frame_len (cn_ctl c)
     \<and> length (bytequeue_list (cn_recv_acc c')) \<le> length (bytequeue_list (cn_recv_acc c))"
proof -
  have "ws_conn_ok (cc_max_frame_len (cn_ctl c)) c" using assms by (simp add: ws_conn_ok_def)
  from ws_extract_progress[OF assms(1) this, of "cloak_bytequeue_len (cn_recv_acc c)" w] show ?thesis
    using bq.used_content[OF assms(2)] unfolding conn_ws_extract_and_dispatch_def ws_progress_def ws_conn_ok_def by auto
qed

lemma trickle_ws_env_ok: "ws_env_ok trickle_env (\<lambda>(p, i, g). g)"
  by (auto simp: ws_env_ok_def trickle_env_def)

theorem conn_ws_extraction_bounded_witness:
  "\<exists>c' w' gs. conn_ws_extract_and_dispatch trickle_env sample_conn ([], [], []) = Some (c', w')
     \<and> (case w' of (p, i, g) \<Rightarrow> g) = [] @ gs \<and> (\<forall>g \<in> set gs. length g \<le> 16)"
proof -
  have "cc_max_frame_len (cn_ctl sample_conn) = 16" "cn_ws_msg sample_conn = []" "bytequeue_ok (cn_recv_acc sample_conn)"
    using sample_conn_ok(1) by (simp_all add: sample_conn_def sample_ctl_def tls_conn_ok_def)
  then show ?thesis
    using conn_ws_extraction_bounded[OF trickle_ws_env_ok, of sample_conn "([], [], [])"] by fastforce
qed

lemma ws_len_fits:
  assumes "length p \<le> 16640"
  shows "(of_nat (length p) :: u64) AND 0x8000000000000000 = 0" "unat (of_nat (length p) :: u64) = length p"
proof -
  show l: "unat (of_nat (length p) :: u64) = length p" using assms by (simp add: unat_of_nat take_bit_nat_eq_self)
  have "take_bit 63 (of_nat (length p) :: u64) = of_nat (length p)"
    using assms l by (simp add: word_unat_eq_iff unsigned_take_bit_eq take_bit_nat_eq_self)
  then have "\<not> bit (of_nat (length p) :: u64) 63" by (metis bit_take_bit_iff less_irrefl)
  then show "(of_nat (length p) :: u64) AND 0x8000000000000000 = 0" using and_exp_eq_0_iff_not_bit[of "of_nat (length p) :: u64" 63] by simp
qed

lemma ws_message_parses:
  assumes "length p \<le> 16640" "\<forall>k. key = Some k \<longrightarrow> length k = 4"
  shows "\<exists>h. cloak_ws_frame_parse_header (take CLOAK_WS_FRAME_MAX_HEADER_LEN (ws_message CLOAK_WS_OP_BINARY key p @ rest)) = WsHeader h
     \<and> wh_opcode h = CLOAK_WS_OP_BINARY \<and> wh_fin h \<and> wh_masked h = (key \<noteq> None) \<and> unat (wh_payload_len h) = length p
     \<and> wh_header_len h + length p = length (ws_message CLOAK_WS_OP_BINARY key p)
     \<and> (\<forall>k. key = Some k \<longrightarrow> wh_mask_key h = k)
     \<and> drop (wh_header_len h) (ws_message CLOAK_WS_OP_BINARY key p)
       = (case key of None \<Rightarrow> p | Some k \<Rightarrow> fst (cloak_ws_frame_mask p k 0))"
proof -
  let ?l = "of_nat (length p) :: u64" and ?op = "CLOAK_WS_OP_BINARY"
  define kk where "kk = (case key of None \<Rightarrow> [] | Some k \<Rightarrow> k)"
  define body where "body = (case key of None \<Rightarrow> p | Some k \<Rightarrow> fst (cloak_ws_frame_mask p k 0))"
  have kl: "length kk = (if key \<noteq> None then 4 else 0)" using assms(2) by (auto simp: kk_def split: option.splits)
  have m: "ws_message ?op key p = ((if True then 0x80 else 0) OR (?op AND 0x0f)) #
      (if key \<noteq> None then ws_b1 ?l OR 0x80 else ws_b1 ?l) # ws_ext ?l @ kk @ body"
    using assms(2) by (auto simp: ws_message_def kk_def body_def split: option.splits)
  have el: "length (ws_ext ?l) \<le> 8" by (simp add: length_ws_ext)
  have tk: "take 14 (ws_message ?op key p @ rest) = ((if True then 0x80 else 0) OR (?op AND 0x0f)) #
      (if key \<noteq> None then ws_b1 ?l OR 0x80 else ws_b1 ?l) # ws_ext ?l @ kk @ take (12 - length (ws_ext ?l) - length kk) (body @ rest)"
    using el kl unfolding m by (auto simp: take_Cons')
  have ctl: "ws_opcode_is_known ?op" "ws_opcode_is_control ?op \<longrightarrow> unat ?l \<le> 125 \<and> True"
    by (simp_all add: ws_opcode_is_known_def ws_opcode_is_control_def ws_ops)
  note ps = parse_shape[OF ctl(1) ws_len_fits(1)[OF assms(1)] ctl(2) kl, of "take (12 - length (ws_ext ?l) - length kk) (body @ rest)"]
  show ?thesis
    unfolding ws_consts tk ps
    using ws_len_fits(2)[OF assms(1)] kl by (auto simp: m kk_def body_def split: option.splits)
qed

definition ws_peers :: "conn_ctl \<Rightarrow> conn_ctl \<Rightarrow> bool" where
  "ws_peers s r \<longleftrightarrow> {cc_framing s, cc_framing r} = {CLOAK_CONN_FRAMING_WS_CLIENT, CLOAK_CONN_FRAMING_WS_SERVER}"

text \<open>
  C26: WebSocket framing round trips between a client end and a server end. When the receiver's accumulator starts with the
  envelope the sender's end produces for a frame, one step hands exactly that frame to the owner, whatever the mask key, and
  leaves exactly the bytes that follow the envelope.
\<close>

theorem conn_ws_round_trip:
  assumes "ws_peers s (cn_ctl c)" "entropy_ok r" "length p \<le> cc_max_frame_len (cn_ctl c)"
    and "cc_max_frame_len (cn_ctl c) \<le> CLOAK_CONN_MAX_FRAME_LEN" "bytequeue_ok (cn_recv_acc c)"
    and "cn_ws_msg c = []" "\<not> cn_ws_msg_active c"
    and "bytequeue_list (cn_recv_acc c) = conn_envelope s r p @ rest"
    and "ev_envelope env p (cn_ctl c) w = (k, w1)"
  shows "\<exists>c'. ws_extract_step env c w = (\<not> cc_broken k, c', w1) \<and> cn_ctl c' = k
     \<and> bytequeue_list (cn_recv_acc c') = rest \<and> cn_ws_msg c' = [] \<and> \<not> cn_ws_msg_active c'"
proof -
  define key where "key = our_mask s r"
  have kl: "\<forall>k. key = Some k \<longrightarrow> length k = 4"
    using assms(2) by (auto simp: key_def our_mask_def cloak_ws_frame_mask_key_def split: if_splits)
  have fr: "(key \<noteq> None) = (cc_framing (cn_ctl c) = CLOAK_CONN_FRAMING_WS_SERVER)"
    using assms(1) by (auto simp: ws_peers_def key_def our_mask_def doubleton_eq_iff)
  have acc: "bytequeue_list (cn_recv_acc c) = ws_message CLOAK_WS_OP_BINARY key p @ rest"
    using assms(1,8) by (auto simp: conn_envelope_def key_def ws_peers_def doubleton_eq_iff)
  have len: "length p \<le> 16640" using assms(3,4) by (simp add: conn_consts)
  obtain h where h: "cloak_ws_frame_parse_header (take CLOAK_WS_FRAME_MAX_HEADER_LEN (ws_message CLOAK_WS_OP_BINARY key p @ rest)) = WsHeader h"
    "wh_opcode h = CLOAK_WS_OP_BINARY" "wh_fin h" "wh_masked h = (key \<noteq> None)" "unat (wh_payload_len h) = length p"
    "wh_header_len h + length p = length (ws_message CLOAK_WS_OP_BINARY key p)" "\<forall>k. key = Some k \<longrightarrow> wh_mask_key h = k"
    "drop (wh_header_len h) (ws_message CLOAK_WS_OP_BINARY key p) = (case key of None \<Rightarrow> p | Some k \<Rightarrow> fst (cloak_ws_frame_mask p k 0))"
    using ws_message_parses[OF len kl, of rest] by blast
  obtain q c1 where tp: "conn_ws_take_payload c h (length p) = (q, c1)" by fastforce
  have fits: "wh_header_len h + length p \<le> length (bytequeue_list (cn_recv_acc c))" using acc h(6) by simp
  note t = take_payload_ok[OF assms(5) tp fits]
  have "take (length p) (drop (wh_header_len h) (bytequeue_list (cn_recv_acc c))) = (case key of None \<Rightarrow> p | Some k \<Rightarrow> fst (cloak_ws_frame_mask p k 0))"
    using h(6,8) unfolding acc by (auto split: option.splits)
  then have q: "q = p" using t(2) h(4,7) by (auto simp: Let_def ws_mask_twice split: option.splits)
  have rest: "bytequeue_list (cn_recv_acc c1) = rest" using t(1) h(6) unfolding acc by simp
  have pk: "cloak_bytequeue_peek (cn_recv_acc c) CLOAK_WS_FRAME_MAX_HEADER_LEN = take CLOAK_WS_FRAME_MAX_HEADER_LEN (ws_message CLOAK_WS_OP_BINARY key p @ rest)"
    using bq.pk_takes[OF assms(5)] acc by simp
  have "ws_extract_step env c w = ws_on_data env c h (length p) w"
    using h(1-5) fr pk assms(3) fits bq.used_content[OF assms(5)] by (simp add: ws_extract_step_def ws_ops)
  moreover have "ws_on_data env c h (length p) w = (\<not> cc_broken k, c1\<lparr>cn_ws_msg := [], cn_ws_msg_active := False, cn_ctl := k\<rparr>, w1)"
    using h(2,3) assms(3,6,7,9) tp q t(1) by (simp add: ws_on_data_def ws_ops Let_def)
  ultimately show ?thesis using rest by simp
qed

definition full_queue :: "bytes \<Rightarrow> bytequeue" where
  "full_queue x = \<lparr>bq_data = x, bq_cap = length x, bq_head = 0, bq_len = length x, bq_closed = False\<rparr>"

lemma full_queue_list: "x \<noteq> [] \<Longrightarrow> bytequeue_ok (full_queue x) \<and> bytequeue_list (full_queue x) = x"
  by (auto simp: full_queue_def bytequeue_ok_def bytequeue_list_def ring_list_def intro!: nth_equalityI)

definition sample_ws :: "conn_framing \<Rightarrow> conn_ctl" where
  "sample_ws f = sample_ctl\<lparr>cc_framing := f\<rparr>"

theorem conn_ws_round_trip_witness:
  "\<exists>c'. ws_extract_step trickle_env
       (sample_conn\<lparr>cn_ctl := sample_ws CLOAK_CONN_FRAMING_WS_SERVER,
          cn_recv_acc := full_queue (conn_envelope (sample_ws CLOAK_CONN_FRAMING_WS_CLIENT) (toy_entropy 0 5) [7, 8] @ [1])\<rparr>)
       ([], [], []) = (True, c', ([], [], [[7, 8]]))
     \<and> bytequeue_list (cn_recv_acc c') = [1]"
proof -
  let ?s = "sample_ws CLOAK_CONN_FRAMING_WS_CLIENT" and ?x = "conn_envelope (sample_ws CLOAK_CONN_FRAMING_WS_CLIENT) (toy_entropy 0 5) [7, 8] @ [1]"
  let ?c = "sample_conn\<lparr>cn_ctl := sample_ws CLOAK_CONN_FRAMING_WS_SERVER, cn_recv_acc := full_queue ?x\<rparr>"
  have p: "ws_peers ?s (cn_ctl ?c)" by (auto simp: ws_peers_def sample_ws_def)
  have q: "bytequeue_ok (cn_recv_acc ?c)" "bytequeue_list (cn_recv_acc ?c) = ?x" using full_queue_list[of ?x] by simp_all
  have e: "ev_envelope trickle_env [7, 8] (cn_ctl ?c) ([], [], []) = (cn_ctl ?c, ([], [], [[7, 8]]))"
    by (simp add: trickle_env_def)
  have s: "length [7, 8 :: byte] \<le> cc_max_frame_len (cn_ctl ?c)" "cc_max_frame_len (cn_ctl ?c) \<le> CLOAK_CONN_MAX_FRAME_LEN"
    "cn_ws_msg ?c = []" "\<not> cn_ws_msg_active ?c" "\<not> cc_broken (cn_ctl ?c)"
    by (simp_all add: sample_conn_def sample_ws_def sample_ctl_def conn_consts)
  show ?thesis using conn_ws_round_trip[OF p toy_entropy_ok s(1,2) q(1) s(3,4) q(2) e] s(5) by auto
qed

end
