(* ===== verification/Switchboard.thy ===== *)
theory Switchboard
  imports Conn
begin

text \<open>
  \<open>libcloak-mux/src/switchboard.c\<close>: the pool of connections of one session. Each frame goes out on one connection,
  picked from a buffer of random bytes by rejection sampling; the first connection that breaks breaks the pool.

  A connection is paired with its file descriptor. The fields a connection's callbacks reach through their
  userdata pointer, the broken flag and the shared valve, are the record \<open>sb_flags\<close>; it is part of
  the world the connection code runs in, and \<open>sb_conn_env\<close> wires the pool's adapters into that world. What lies outside,
  the kernel per descriptor and the owner's callbacks, is the record \<open>pool_env\<close>; a callback that runs while a connection's
  code is on the stack may act on that connection and on the flags. Random bytes come from a tape.
\<close>

definition SWITCHBOARD_RNG_BUF_LEN :: nat where "SWITCHBOARD_RNG_BUF_LEN = 256"

record sb_flags =
  sf_broken :: bool
  sf_valve :: "valve option"

record switchboard =
  sb_conns :: "(nat \<times> conn) list"
  sb_conns_cap :: nat
  sb_max_frame_len :: nat
  sb_conn_send_queue_cap :: nat
  sb_rng_buf :: bytes
  sb_rng_pos :: nat
  sb_fl :: sb_flags

record 'u pool_env =
  pe_send :: "nat \<Rightarrow> 'u \<Rightarrow> bytes \<Rightarrow> send_result \<times> 'u"
  pe_recv :: "nat \<Rightarrow> 'u \<Rightarrow> nat \<Rightarrow> recv_result \<times> 'u"
  pe_mod_fd :: "nat \<Rightarrow> bool \<times> bool \<Rightarrow> 'u \<Rightarrow> 'u"
  pe_remove_fd :: "nat \<Rightarrow> 'u \<Rightarrow> 'u"
  pe_close_fd :: "nat \<Rightarrow> 'u \<Rightarrow> 'u"
  pe_add_timer :: "nat \<Rightarrow> 'u \<Rightarrow> bool \<times> 'u"
  pe_cancel_timer :: "'u \<Rightarrow> 'u"
  pe_now :: "'u \<Rightarrow> nat"
  pe_entropy :: "'u \<Rightarrow> entropy"
  pe_on_envelope :: "nat \<Rightarrow> bytes \<Rightarrow> conn_ctl \<Rightarrow> sb_flags \<Rightarrow> 'u \<Rightarrow> conn_ctl \<times> sb_flags \<times> 'u"
  pe_on_drained :: "nat \<Rightarrow> conn_ctl \<Rightarrow> sb_flags \<Rightarrow> 'u \<Rightarrow> conn_ctl \<times> sb_flags \<times> 'u"
  pe_on_broken :: "'u \<Rightarrow> 'u"

section \<open>The connection pick\<close>

definition switchboard_random_u32 :: "switchboard \<Rightarrow> tape \<Rightarrow> u32 \<times> switchboard \<times> tape" where
  "switchboard_random_u32 sb t =
     (let sb1 = (if sb_rng_pos sb + 4 > SWITCHBOARD_RNG_BUF_LEN then sb\<lparr>sb_rng_pos := SWITCHBOARD_RNG_BUF_LEN\<rparr> else sb);
          (sb2, t2) = (if sb_rng_pos sb1 = SWITCHBOARD_RNG_BUF_LEN
                       then case cloak_random_bytes SWITCHBOARD_RNG_BUF_LEN t of
                              (b, t1) \<Rightarrow> (sb1\<lparr>sb_rng_buf := b, sb_rng_pos := 0\<rparr>, t1)
                       else (sb1, t));
          v = be32_load (drop (sb_rng_pos sb2) (sb_rng_buf sb2))
      in (v, sb2\<lparr>sb_rng_pos := sb_rng_pos sb2 + 4\<rparr>, t2))"

partial_function (option) switchboard_random_below ::
  "switchboard \<Rightarrow> nat \<Rightarrow> tape \<Rightarrow> (nat \<times> switchboard \<times> tape) option" where
  "switchboard_random_below sb n t =
     (if n \<le> 1 then Some (0, sb, t)
      else
        let limit = 0x100000000 - 0x100000000 mod n in
        case switchboard_random_u32 sb t of
          (v, sb1, t1) \<Rightarrow> if unat v < limit then Some (unat v mod n, sb1, t1) else switchboard_random_below sb1 n t1)"

section \<open>The adapters\<close>

definition switchboard_conn_envelope_adapter ::
  "'u pool_env \<Rightarrow> nat \<Rightarrow> bytes \<Rightarrow> conn_ctl \<Rightarrow> sb_flags \<times> 'u \<Rightarrow> conn_ctl \<times> sb_flags \<times> 'u" where
  "switchboard_conn_envelope_adapter pe fd bs c w = pe_on_envelope pe fd bs c (fst w) (snd w)"

definition switchboard_conn_drained_adapter ::
  "'u pool_env \<Rightarrow> nat \<Rightarrow> conn_ctl \<Rightarrow> sb_flags \<times> 'u \<Rightarrow> conn_ctl \<times> sb_flags \<times> 'u" where
  "switchboard_conn_drained_adapter pe fd c w = pe_on_drained pe fd c (fst w) (snd w)"

definition switchboard_conn_closed_adapter :: "'u pool_env \<Rightarrow> sb_flags \<times> 'u \<Rightarrow> sb_flags \<times> 'u" where
  "switchboard_conn_closed_adapter pe = (\<lambda>(f, u).
     if sf_broken f then (f, u) else (f\<lparr>sf_broken := True\<rparr>, pe_on_broken pe u))"

definition sb_conn_env :: "'u pool_env \<Rightarrow> nat \<Rightarrow> (sb_flags \<times> 'u) conn_env" where
  \<comment> \<open>what a connection of the pool with this descriptor is configured with\<close>
  "sb_conn_env pe fd =
     \<lparr>ev_send = (\<lambda>(f, u) x. case pe_send pe fd u x of (r, u1) \<Rightarrow> (r, (f, u1))),
      ev_recv = (\<lambda>(f, u) n. case pe_recv pe fd u n of (r, u1) \<Rightarrow> (r, (f, u1))),
      ev_mod_fd = (\<lambda>e (f, u). (f, pe_mod_fd pe fd e u)),
      ev_remove_fd = (\<lambda>(f, u). (f, pe_remove_fd pe fd u)),
      ev_add_timer = (\<lambda>d (f, u). case pe_add_timer pe d u of (r, u1) \<Rightarrow> (r, (f, u1))),
      ev_cancel_timer = (\<lambda>(f, u). (f, pe_cancel_timer pe u)),
      ev_now = (\<lambda>(f, u). pe_now pe u),
      ev_valve = (\<lambda>(f, u). sf_valve f),
      ev_set_valve = (\<lambda>v (f, u). (f\<lparr>sf_valve := v\<rparr>, u)),
      ev_entropy = (\<lambda>(f, u). pe_entropy pe u),
      ev_envelope = switchboard_conn_envelope_adapter pe fd,
      ev_drained = switchboard_conn_drained_adapter pe fd,
      ev_closed = switchboard_conn_closed_adapter pe\<rparr>"

section \<open>Operations\<close>

definition switchboard_zero :: switchboard where
  "switchboard_zero = \<lparr>sb_conns = [], sb_conns_cap = 0, sb_max_frame_len = 0, sb_conn_send_queue_cap = 0,
     sb_rng_buf = replicate 256 0, sb_rng_pos = 0, sb_fl = \<lparr>sf_broken = False, sf_valve = None\<rparr>\<rparr>"

definition cloak_switchboard_init :: "nat \<Rightarrow> nat \<Rightarrow> int \<times> switchboard" where
  "cloak_switchboard_init max_frame_len conn_send_queue_cap =
     (if max_frame_len = 0 \<or> max_frame_len > CLOAK_CONN_MAX_FRAME_LEN \<or> conn_send_queue_cap = 0
      then (-1, switchboard_zero)
      else (0, switchboard_zero\<lparr>sb_max_frame_len := max_frame_len, sb_conn_send_queue_cap := conn_send_queue_cap,
                 sb_rng_pos := SWITCHBOARD_RNG_BUF_LEN\<rparr>))"

fun close_conns :: "'u pool_env \<Rightarrow> (nat \<times> conn) list \<Rightarrow> sb_flags \<times> 'u \<Rightarrow> sb_flags \<times> 'u" where
  "close_conns pe [] w = w"
| "close_conns pe ((fd, c) # cs) w =
     (case snd (cloak_conn_destroy (sb_conn_env pe fd) c w) of (f, u) \<Rightarrow> close_conns pe cs (f, pe_close_fd pe fd u))"

definition cloak_switchboard_close_all :: "'u pool_env \<Rightarrow> switchboard \<Rightarrow> 'u \<Rightarrow> switchboard \<times> 'u" where
  "cloak_switchboard_close_all pe sb u =
     (case close_conns pe (sb_conns sb) (sb_fl sb, u) of (f, u1) \<Rightarrow> (sb\<lparr>sb_conns := [], sb_fl := f\<rparr>, u1))"

definition cloak_switchboard_destroy :: "'u pool_env \<Rightarrow> switchboard \<Rightarrow> 'u \<Rightarrow> switchboard \<times> 'u" where
  "cloak_switchboard_destroy pe sb u = (switchboard_zero, snd (cloak_switchboard_close_all pe sb u))"

record conn_alloc =
  ca_realloc :: bool  \<comment> \<open>the pool array can grow\<close>
  ca_conn :: bool     \<comment> \<open>the connection object can be allocated\<close>
  ca_malloc :: "nat \<Rightarrow> bytes option"
  ca_fd_added :: bool

definition cloak_switchboard_add_conn_framed ::
  "conn_alloc \<Rightarrow> switchboard \<Rightarrow> nat \<Rightarrow> conn_framing \<Rightarrow> int \<times> switchboard" where
  "cloak_switchboard_add_conn_framed a sb fd framing =
     (if framing = CLOAK_CONN_FRAMING_INVALID then (CLOAK_CONN_ERR_INVALID_FRAMING, sb)
      else if sf_broken (sb_fl sb) then (-1, sb)
      else if length (sb_conns sb) = sb_conns_cap sb \<and> \<not> ca_realloc a then (-1, sb)
      else
        let sb1 = (if length (sb_conns sb) = sb_conns_cap sb
                   then sb\<lparr>sb_conns_cap := (if sb_conns_cap sb = 0 then 4 else sb_conns_cap sb * 2)\<rparr> else sb)
        in
        if \<not> ca_conn a then (-1, sb1)
        else case cloak_conn_init_cfg (ca_malloc a) (ca_fd_added a) (sb_max_frame_len sb1) (sb_conn_send_queue_cap sb1) framing of
               (rc, None) \<Rightarrow> (rc, sb1)
             | (rc, Some c) \<Rightarrow> if rc \<noteq> 0 then (rc, sb1) else (0, sb1\<lparr>sb_conns := sb_conns sb1 @ [(fd, c)]\<rparr>))"

definition cloak_switchboard_add_conn :: "conn_alloc \<Rightarrow> switchboard \<Rightarrow> nat \<Rightarrow> int \<times> switchboard" where
  "cloak_switchboard_add_conn a sb fd = cloak_switchboard_add_conn_framed a sb fd CLOAK_CONN_FRAMING_TLS_RECORD"

definition cloak_switchboard_send ::
  "'u pool_env \<Rightarrow> switchboard \<Rightarrow> bytes \<Rightarrow> tape \<Rightarrow> 'u \<Rightarrow> (int \<times> switchboard \<times> tape \<times> 'u) option" where
  "cloak_switchboard_send pe sb frame_bytes t u =
     (if sf_broken (sb_fl sb) \<or> sb_conns sb = [] then Some (-1, sb, t, u)
      else Option.bind (switchboard_random_below sb (length (sb_conns sb)) t) (\<lambda>(idx, sb1, t1).
        case sb_conns sb1 ! idx of (fd, c) \<Rightarrow>
        case cloak_conn_send (sb_conn_env pe fd) (cn_ctl c) frame_bytes (sb_fl sb1, u) of (rc, k, (f, u1)) \<Rightarrow>
          let f1 = (if rc = 0 then f\<lparr>sf_valve := cloak_valve_add_tx (sf_valve f) (int (cloak_conn_envelope_len k (length frame_bytes)))\<rparr>
                    else f)
          in Some (rc, sb1\<lparr>sb_conns := (sb_conns sb1)[idx := (fd, c\<lparr>cn_ctl := k\<rparr>)], sb_fl := f1\<rparr>, t1, u1)))"

definition cloak_switchboard_conn_count :: "switchboard \<Rightarrow> nat" where
  "cloak_switchboard_conn_count sb = length (sb_conns sb)"

definition cloak_switchboard_set_valve :: "switchboard \<Rightarrow> valve option \<Rightarrow> switchboard" where
  \<comment> \<open>the connections read the valve from the shared flags, so forwarding it to each is no step of its own\<close>
  "cloak_switchboard_set_valve sb v = sb\<lparr>sb_fl := (sb_fl sb)\<lparr>sf_valve := v\<rparr>\<rparr>"

definition cloak_switchboard_send_queued :: "switchboard \<Rightarrow> nat" where
  "cloak_switchboard_send_queued sb = fold (\<lambda>c total. total + cloak_conn_send_queued (cn_ctl (snd c))) (sb_conns sb) 0"

definition cloak_switchboard_send_capacity :: "switchboard \<Rightarrow> nat" where
  "cloak_switchboard_send_capacity sb = fold (\<lambda>c total. total + cloak_conn_send_capacity (cn_ctl (snd c))) (sb_conns sb) 0"

definition cloak_switchboard_send_min_conn_free :: "switchboard \<Rightarrow> nat" where
  "cloak_switchboard_send_min_conn_free sb =
     (if sb_conns sb = [] then 0
      else fold (\<lambda>c min_free. let f = cloak_conn_send_free (cn_ctl (snd c)) in if f < min_free then f else min_free)
             (tl (sb_conns sb)) (cloak_conn_send_free (cn_ctl (snd (sb_conns sb ! 0)))))"

section \<open>The pick is an unbuffered rejection sampler\<close>

definition rng_ok :: "switchboard \<Rightarrow> bool" where
  "rng_ok sb \<longleftrightarrow> length (sb_rng_buf sb) = SWITCHBOARD_RNG_BUF_LEN \<and> sb_rng_pos sb \<le> SWITCHBOARD_RNG_BUF_LEN
     \<and> 4 dvd sb_rng_pos sb"

definition rng_tape :: "switchboard \<Rightarrow> tape \<Rightarrow> tape" where
  \<comment> \<open>the unread bytes of the buffer, then the tape\<close>
  "rng_tape sb t = (\<lambda>i. if i < SWITCHBOARD_RNG_BUF_LEN - sb_rng_pos sb then sb_rng_buf sb ! (sb_rng_pos sb + i)
                        else t (i - (SWITCHBOARD_RNG_BUF_LEN - sb_rng_pos sb)))"

lemma be32_load_upt: "4 \<le> length xs \<Longrightarrow> (\<And>i. i < 4 \<Longrightarrow> f i = xs ! i) \<Longrightarrow> be32_load xs = (be32_load (map f [0..<4]) :: u32)"
  by (simp add: be32_load_def numeral_2_eq_2)

lemma random_u32_tape:
  assumes ok: "rng_ok sb" and st: "switchboard_random_u32 sb t = (v, sb', t')"
  shows "unat v = draw (rng_tape sb t) 0 \<and> rng_tape sb' t' = (\<lambda>i. rng_tape sb t (i + 4)) \<and> rng_ok sb'
     \<and> sb_conns sb' = sb_conns sb \<and> sb_fl sb' = sb_fl sb"
proof (cases "sb_rng_pos sb = 256")
  case True
  then have e: "v = be32_load (map t [0..<256])" "sb' = sb\<lparr>sb_rng_buf := map t [0..<256], sb_rng_pos := 4\<rparr>"
      "t' = (\<lambda>i. t (i + 256))"
    using st by (auto simp: switchboard_random_u32_def SWITCHBOARD_RNG_BUF_LEN_def cloak_random_bytes_def Let_def)
  have "v = be32_load (map (rng_tape sb t) [0..<4])" unfolding e(1)
    by (rule be32_load_upt) (simp_all add: rng_tape_def True SWITCHBOARD_RNG_BUF_LEN_def)
  then have "unat v = draw (rng_tape sb t) 0" by (simp add: draw_def)
  then show ?thesis using True ok e(2,3)
    by (auto simp: rng_tape_def rng_ok_def SWITCHBOARD_RNG_BUF_LEN_def fun_eq_iff add.commute)
next
  case False
  then have p: "sb_rng_pos sb + 4 \<le> 256" using ok by (auto simp: rng_ok_def SWITCHBOARD_RNG_BUF_LEN_def dvd_def)
  then have e: "v = be32_load (drop (sb_rng_pos sb) (sb_rng_buf sb))" "sb' = sb\<lparr>sb_rng_pos := sb_rng_pos sb + 4\<rparr>" "t' = t"
    using st False by (auto simp: switchboard_random_u32_def SWITCHBOARD_RNG_BUF_LEN_def Let_def)
  have "v = be32_load (map (rng_tape sb t) [0..<4])" unfolding e(1)
    using ok p by (intro be32_load_upt) (auto simp: rng_tape_def rng_ok_def SWITCHBOARD_RNG_BUF_LEN_def)
  then have "unat v = draw (rng_tape sb t) 0" by (simp add: draw_def)
  then show ?thesis using p ok e(2,3)
    by (auto simp: rng_tape_def rng_ok_def SWITCHBOARD_RNG_BUF_LEN_def fun_eq_iff add.commute add.left_commute)
qed

definition pick_like :: "switchboard \<Rightarrow> nat \<Rightarrow> tape \<Rightarrow> nat \<times> switchboard \<times> tape \<Rightarrow> bool" where
  "pick_like sb n t x = (case x of (v, sb', t') \<Rightarrow>
     rng_ok sb \<longrightarrow> cloak_random_below n (rng_tape sb t) = Some (v, rng_tape sb' t') \<and> rng_ok sb'
       \<and> sb_conns sb' = sb_conns sb \<and> sb_fl sb' = sb_fl sb)"

lemma random_below_sound: "switchboard_random_below sb n t = Some x \<Longrightarrow> pick_like sb n t x"
proof (rule switchboard_random_below.raw_induct [where P = pick_like])
  fix f :: "switchboard \<Rightarrow> nat \<Rightarrow> tape \<Rightarrow> (nat \<times> switchboard \<times> tape) option" and sb n t x
  assume IH: "\<And>sb n t x. f sb n t = Some x \<Longrightarrow> pick_like sb n t x"
    and eq: "(if n \<le> 1 then Some (0, sb, t)
      else let limit = 0x100000000 - 0x100000000 mod n in
        case switchboard_random_u32 sb t of
          (v, sb1, t1) \<Rightarrow> if unat v < limit then Some (unat v mod n, sb1, t1) else f sb1 n t1) = Some x"
  obtain v sb1 t1 where u: "switchboard_random_u32 sb t = (v, sb1, t1)" by (metis prod_cases3)
  show "pick_like sb n t x"
  proof (cases "n \<le> 1")
    case True
    then show ?thesis using eq cloak_random_below.simps[of n "rng_tape sb t"] by (auto simp: pick_like_def)
  next
    case False
    note st = random_below_step[of n "rng_tape sb t"]
    show ?thesis
    proof (cases "unat v < random_limit n")
      case True
      then show ?thesis using eq u False st random_u32_tape[OF _ u] by (auto simp: pick_like_def random_limit_def)
    next
      case nl: False
      then have "f sb1 n t1 = Some x" using eq u False by (simp add: random_limit_def Let_def)
      from IH[OF this] show ?thesis using u False nl st random_u32_tape[OF _ u]
        by (auto simp: pick_like_def split: prod.splits)
    qed
  qed
qed

lemma random_below_returns:
  assumes ok: "rng_ok sb" and ret: "cloak_random_below n (rng_tape sb t) = Some x"
  shows "switchboard_random_below sb n t \<noteq> None"
proof -
  have "\<forall>sb t. rng_ok sb \<longrightarrow> rng_tape sb t = tp \<longrightarrow> switchboard_random_below sb m t \<noteq> None"
    if "cloak_random_below m tp = Some y" for m tp y
  proof (rule cloak_random_below.raw_induct [where P = "\<lambda>m tp y. \<forall>sb t. rng_ok sb \<longrightarrow> rng_tape sb t = tp \<longrightarrow>
        switchboard_random_below sb m t \<noteq> None", OF _ that], intro allI impI)
    fix f :: "nat \<Rightarrow> tape \<Rightarrow> (nat \<times> tape) option" and m tp y sb t
    assume IH: "\<And>m tp y. f m tp = Some y \<Longrightarrow> \<forall>sb t. rng_ok sb \<longrightarrow> rng_tape sb t = tp \<longrightarrow> switchboard_random_below sb m t \<noteq> None"
      and eq: "(if m \<le> 1 then Some (0, tp)
        else case cloak_random_bytes 4 tp of (b, t') \<Rightarrow>
          let v = unat (be32_load b :: u32) in
          if v < random_limit m then Some (v mod m, t') else f m t') = Some y"
      and sb: "rng_ok sb" "rng_tape sb t = tp"
    obtain v sb1 t1 where u: "switchboard_random_u32 sb t = (v, sb1, t1)" by (metis prod_cases3)
    note r = random_u32_tape[OF sb(1) u]
    have "\<not> m \<le> 1 \<Longrightarrow> \<not> unat v < random_limit m \<Longrightarrow> f m (\<lambda>i. tp (i + 4)) = Some y"
      using eq r sb(2) by (auto simp: cloak_random_bytes_def draw_def Let_def)
    then have "\<not> m \<le> 1 \<Longrightarrow> \<not> unat v < random_limit m \<Longrightarrow> switchboard_random_below sb1 m t1 \<noteq> None"
      using IH r sb(2) by metis
    then show "switchboard_random_below sb m t \<noteq> None"
      using u by (subst switchboard_random_below.simps) (auto simp: random_limit_def Let_def)
  qed
  then show ?thesis using assms by blast
qed

text \<open>
  Picking a connection from the pool's 256-byte random buffer is the same computation as the unbuffered,
  unbiased sampler \<open>cloak_random_below\<close> on the byte stream formed by the unread buffer and what the generator
  supplies next: it returns exactly when that one does, with the same index, and leaves the stream at the same
  place. No byte is skipped or used twice, whatever mixture of refills and rejections occurs.
\<close>

theorem switchboard_pick_is_random_below:
  assumes "rng_ok sb"
  shows "map_option (\<lambda>(idx, sb', t'). (idx, rng_tape sb' t')) (switchboard_random_below sb n t)
       = cloak_random_below n (rng_tape sb t)"
proof (cases "switchboard_random_below sb n t")
  case None
  then show ?thesis using random_below_returns[OF assms] by (cases "cloak_random_below n (rng_tape sb t)") auto
next
  case (Some x)
  then show ?thesis using random_below_sound[OF Some] assms by (auto simp: pick_like_def split: prod.splits)
qed

theorem switchboard_pick_is_random_below_witness:
  "map_option (\<lambda>(idx, sb', t'). (idx, rng_tape sb' t')) (switchboard_random_below (snd (cloak_switchboard_init 1000 5000)) 3 (\<lambda>i. 1))
   = cloak_random_below 3 (\<lambda>i. 1)"
proof -
  let ?sb = "snd (cloak_switchboard_init 1000 5000)"
  have "rng_ok ?sb" "rng_tape ?sb (\<lambda>i. 1) = (\<lambda>i. 1)"
    by (auto simp: rng_ok_def rng_tape_def cloak_switchboard_init_def switchboard_zero_def SWITCHBOARD_RNG_BUF_LEN_def conn_consts dvd_def)
  then show ?thesis using switchboard_pick_is_random_below[of ?sb 3 "\<lambda>i. 1"] by simp
qed

section \<open>Sending on one connection of the pool\<close>

definition pool_watcher :: "(nat \<Rightarrow> 'u \<Rightarrow> bytes) \<Rightarrow> nat \<Rightarrow> (sb_flags \<times> 'u, (nat \<Rightarrow> bytes) \<times> bool) watcher" where
  \<comment> \<open>for the connection \<open>fd\<close>: its wire, the billed bytes, the other wires and whether there is a meter, the broken flag\<close>
  "pool_watcher obs fd = \<lparr>wt_wire = (\<lambda>(f, u). obs fd u), wt_cost = (\<lambda>(f, u). cloak_valve_tx (sf_valve f)),
     wt_side = (\<lambda>(f, u). ((\<lambda>g. if g = fd then [] else obs g u), sf_valve f \<noteq> None)),
     wt_tariff = (\<lambda>(_, metered). if metered then 1 else 0), wt_broke = (\<lambda>(f, u). sf_broken f)\<rparr>"

definition pool_env_ok :: "'u pool_env \<Rightarrow> (nat \<Rightarrow> 'u \<Rightarrow> bytes) \<Rightarrow> bool" where
  \<comment> \<open>\<open>obs fd u\<close> is what the kernel has taken on that descriptor. A send takes a prefix of what it is given; nothing else
     changes a wire but the drained callback, which only appends to the connection it runs for, bills what it
     appends, and sets the broken flag if it breaks it.\<close>
  "pool_env_ok pe obs \<longleftrightarrow>
     (\<forall>fd u x r u'. pe_send pe fd u x = (r, u') \<longrightarrow>
        (case r of Sent n \<Rightarrow> n \<le> length x \<and> obs fd u' = obs fd u @ take n x | _ \<Rightarrow> obs fd u' = obs fd u)
        \<and> (\<forall>g. g \<noteq> fd \<longrightarrow> obs g u' = obs g u))
   \<and> (\<forall>fd e u g. obs g (pe_mod_fd pe fd e u) = obs g u) \<and> (\<forall>fd u g. obs g (pe_remove_fd pe fd u) = obs g u)
   \<and> (\<forall>u g. obs g (pe_on_broken pe u) = obs g u)
   \<and> (\<forall>fd c f u. ctl_ok c \<longrightarrow> (\<exists>x. grows (pool_watcher obs fd) (c, (f, u)) x
        ((if sf_valve f \<noteq> None then 1 else 0) * int (length x)) (pe_on_drained pe fd c f u)))"

lemma sb_conn_env_ok:
  assumes "pool_env_ok pe obs"
  shows "wire_ok (sb_conn_env pe fd) (pool_watcher obs fd)"
proof -
  have s: "(case r of Sent n \<Rightarrow> n \<le> length x \<and> obs fd u' = obs fd u @ take n x | _ \<Rightarrow> obs fd u' = obs fd u)
        \<and> (\<forall>g. g \<noteq> fd \<longrightarrow> obs g u' = obs g u)" if "pe_send pe fd u x = (r, u')" for u x r u'
    using assms that unfolding pool_env_ok_def by meson
  have q: "obs g (pe_mod_fd pe fd e u) = obs g u" "obs g (pe_remove_fd pe fd u) = obs g u" "obs g (pe_on_broken pe u) = obs g u" for e u g
    using assms unfolding pool_env_ok_def by meson+
  have d: "\<exists>x. grows (pool_watcher obs fd) (c, (f, u)) x ((if sf_valve f \<noteq> None then 1 else 0) * int (length x))
      (pe_on_drained pe fd c f u)" if "ctl_ok c" for c f u
    using assms that unfolding pool_env_ok_def by meson
  have sd: "wt_tariff (pool_watcher obs fd) (wt_side (pool_watcher obs fd) (f, u)) = (if sf_valve f \<noteq> None then 1 else 0)" for f u
    by (simp add: pool_watcher_def)
  show ?thesis
    unfolding wire_ok_def
  proof (intro conjI allI impI)
    fix w x r w' assume "ev_send (sb_conn_env pe fd) w x = (r, w')"
    then obtain f u u' where e: "pe_send pe fd u x = (r, u')" "w = (f, u)" "w' = (f, u')"
      by (cases w) (auto simp: sb_conn_env_def split: prod.splits)
    show "case r of Sent n \<Rightarrow> n \<le> length x \<and> wt_wire (pool_watcher obs fd) w' = wt_wire (pool_watcher obs fd) w @ take n x
        | _ \<Rightarrow> wt_wire (pool_watcher obs fd) w' = wt_wire (pool_watcher obs fd) w"
      "wt_cost (pool_watcher obs fd) w' = wt_cost (pool_watcher obs fd) w"
      "wt_side (pool_watcher obs fd) w' = wt_side (pool_watcher obs fd) w"
      using s[OF e(1)] e(2,3) by (auto simp: pool_watcher_def fun_eq_iff split: send_result.splits)
    show "wt_broke (pool_watcher obs fd) w \<Longrightarrow> wt_broke (pool_watcher obs fd) w'"
      using e(2,3) by (simp add: pool_watcher_def)
  next
    fix c w assume "ctl_ok c"
    then show "\<exists>x. grows (pool_watcher obs fd) (c, w) x (wt_tariff (pool_watcher obs fd) (wt_side (pool_watcher obs fd) w) * int (length x))
        (ev_drained (sb_conn_env pe fd) c w)"
      using d[of c "fst w" "snd w"] sd[of "fst w" "snd w"]
      by (simp add: sb_conn_env_def switchboard_conn_drained_adapter_def)
  qed (auto simp: sb_conn_env_def unseen_def pool_watcher_def switchboard_conn_closed_adapter_def q fun_eq_iff split: if_splits)
qed

definition pool_ok :: "switchboard \<Rightarrow> bool" where
  \<comment> \<open>every connection is well-formed, and a broken one has broken the pool\<close>
  "pool_ok sb \<longleftrightarrow> rng_ok sb \<and> (\<forall>(fd, c) \<in> set (sb_conns sb). ctl_ok (cn_ctl c) \<and> (cc_broken (cn_ctl c) \<longrightarrow> sf_broken (sb_fl sb)))"

lemma valve_add_tx: "cloak_valve_tx (cloak_valve_add_tx v n) = cloak_valve_tx v + (if v \<noteq> None then n else 0)"
  by (auto simp: cloak_valve_tx_def cloak_valve_add_tx_def Let_def split: option.splits)

lemma send_on_conn:
  assumes pe: "pool_env_ok pe obs" and ok: "ctl_ok (cn_ctl c)" and r: "entropy_ok (pe_entropy pe u)"
    and s: "cloak_conn_send (sb_conn_env pe fd) (cn_ctl c) fr (f, u) = (rc, k, (f', u'))"
  defines "E \<equiv> conn_envelope (cn_ctl c) (pe_entropy pe u) fr" and "m \<equiv> sf_valve f \<noteq> None"
  shows "\<exists>e x. ctl_ok k \<and> obs fd u' @ bytequeue_list (cc_send_q k) = obs fd u @ bytequeue_list (cc_send_q (cn_ctl c)) @ e @ x
     \<and> (\<forall>g. g \<noteq> fd \<longrightarrow> obs g u' = obs g u) \<and> (sf_valve f' \<noteq> None) = m \<and> (sf_broken f \<longrightarrow> sf_broken f')
     \<and> (cc_broken k \<longrightarrow> cc_broken (cn_ctl c) \<or> sf_broken f')
     \<and> cloak_valve_tx (sf_valve f') = cloak_valve_tx (sf_valve f) + (if m then int (length x) else 0)
     \<and> (e = E \<or> e = [] \<and> x = [])
     \<and> (rc = 0 \<and> e = E \<and> cloak_conn_envelope_len k (length fr) = length e \<or> rc = -1 \<and> cc_broken k)"
proof -
  have en: "ev_entropy (sb_conn_env pe fd) (f, u) = pe_entropy pe u" by (simp add: sb_conn_env_def)
  obtain e x where g: "grows (pool_watcher obs fd) (cn_ctl c, (f, u)) (e @ x)
      (wt_tariff (pool_watcher obs fd) (wt_side (pool_watcher obs fd) (f, u)) * int (length x)) (k, (f', u'))"
    and e: "e = E \<or> e = [] \<and> x = []" "rc = 0 \<and> e = E \<or> rc = -1 \<and> cc_broken k"
    using conn_send_grows[OF sb_conn_env_ok[OF pe] ok s, unfolded en, folded E_def] by blast
  have "cloak_conn_envelope_len k (length fr) = length E" if "rc = 0"
  proof -
    have "length fr \<le> cc_max_frame_len (cn_ctl c)" using conn_send_fits[OF sb_conn_env_ok[OF pe] ok] s that by blast
    moreover have "cloak_conn_envelope_len k (length fr) = cloak_conn_envelope_len (cn_ctl c) (length fr)"
      using g by (simp add: grows_def cloak_conn_envelope_len_def)
    ultimately show ?thesis using conn_envelope_length[OF ok r, of fr] by (simp add: E_def)
  qed
  moreover have "(\<lambda>h. if h = fd then [] else obs h u') = (\<lambda>h. if h = fd then [] else obs h u)" "(sf_valve f' \<noteq> None) = m"
    using g by (simp_all add: grows_def pool_watcher_def m_def)
  then have "\<forall>h. h \<noteq> fd \<longrightarrow> obs h u' = obs h u" "(sf_valve f' \<noteq> None) = m" by metis+
  moreover have "ctl_ok k" "sf_broken f \<longrightarrow> sf_broken f'" "cc_broken k \<longrightarrow> cc_broken (cn_ctl c) \<or> sf_broken f'"
    "obs fd u' @ bytequeue_list (cc_send_q k) = obs fd u @ bytequeue_list (cc_send_q (cn_ctl c)) @ e @ x"
    "cloak_valve_tx (sf_valve f') = cloak_valve_tx (sf_valve f) + (if m then int (length x) else 0)"
    using g by (simp_all add: grows_def pool_watcher_def carried_def m_def)
  ultimately show ?thesis using e by blast
qed

lemma pool_ok_update:
  assumes ok: "pool_ok sb" and idx: "idx < length (sb_conns sb)" "sb_conns sb ! idx = (fd, c)" and k: "ctl_ok k"
    and b: "cc_broken k \<longrightarrow> sf_broken f" "sf_broken (sb_fl sb) \<longrightarrow> sf_broken f"
    and sb1: "rng_ok sb1"
  shows "pool_ok (sb1\<lparr>sb_conns := (sb_conns sb)[idx := (fd, c\<lparr>cn_ctl := k\<rparr>)], sb_fl := f\<rparr>)"
proof -
  have "set ((sb_conns sb)[idx := (fd, c\<lparr>cn_ctl := k\<rparr>)]) \<subseteq> insert (fd, c\<lparr>cn_ctl := k\<rparr>) (set (sb_conns sb))"
    by (rule set_update_subset_insert)
  then show ?thesis using assms unfolding pool_ok_def rng_ok_def by fastforce
qed


definition toy_pool_env :: "(nat \<Rightarrow> bytes) pool_env" where
  \<comment> \<open>a world that is the bytes taken per descriptor; every send is accepted whole\<close>
  "toy_pool_env = \<lparr>pe_send = (\<lambda>fd u x. (Sent (length x), u(fd := u fd @ x))), pe_recv = (\<lambda>fd u n. (RecvAgain, u)),
     pe_mod_fd = (\<lambda>fd e u. u), pe_remove_fd = (\<lambda>fd u. u), pe_close_fd = (\<lambda>fd u. u), pe_add_timer = (\<lambda>d u. (True, u)),
     pe_cancel_timer = (\<lambda>u. u), pe_now = (\<lambda>u. 0), pe_entropy = (\<lambda>u. toy_entropy 0 5),
     pe_on_envelope = (\<lambda>fd x c f u. (c, f, u)), pe_on_drained = (\<lambda>fd c f u. (c, f, u)), pe_on_broken = (\<lambda>u. u)\<rparr>"

lemma toy_pool_env_ok: "pool_env_ok toy_pool_env (\<lambda>fd u. u fd)"
  by (auto simp: pool_env_ok_def toy_pool_env_def grows_def intro!: exI[of _ "[]"])

definition sample_pool :: switchboard where
  "sample_pool = (snd (cloak_switchboard_init 16 64))\<lparr>sb_conns := [(3, sample_conn)], sb_conns_cap := 4\<rparr>"

lemma sample_pool_ok: "pool_ok sample_pool" "sb_conns sample_pool = [(3, sample_conn)]" "\<not> sf_broken (sb_fl sample_pool)"
  using sample_ctl_ok
  by (auto simp: pool_ok_def sample_pool_def rng_ok_def cloak_switchboard_init_def switchboard_zero_def sample_conn_def
      sample_ctl_def SWITCHBOARD_RNG_BUF_LEN_def conn_consts dvd_def)


end
