(* ===== verification/Session.thy ===== *)
theory Session
  imports Conn Strmtab MuxStream
begin

text \<open>
  \<open>libcloak-mux/src/session.c\<close>: a session demultiplexes the frames of its connection pool onto streams, opens and
  closes streams, and tears itself down.

  The part of the C heap that holds stream entries is the map \<open>ss_heap\<close> from addresses to entries; freeing an entry removes
  its address, and every access of the code to an entry is a lookup that may fail. An operation that would touch freed memory is
  \<^const>\<open>None\<close>, so that returning \<^const>\<open>Some\<close> is memory safety. The stream table maps ids to addresses. The
  pool is a value of any type with the operations \<open>pool_if\<close>; the second result of a send says whether the
  pool's broken callback ran during it. The user's callbacks are recorded as events: the code calls each of them as its last
  statement, so what a callback does is what the next operations do. The reactor's timers of this session are
  the fields \<open>ss_inactivity_timer\<close> (armed or not) and \<open>ss_teardown\<close> (which of the two chained callbacks is armed).
\<close>

datatype teardown = TdNone | TdDeferred | TdSweep

datatype session_event = EvNewStream nat | EvStreamData nat | EvBroken

record session_stream_entry =
  en_stream :: stream
  en_retired :: bool

record 'p session =
  ss_id :: u32
  ss_ordering :: ordering
  ss_obfuscator :: obfuscator
  ss_streams :: "nat strmtab"
  ss_pool :: 'p
  ss_next_stream_id :: u32
  ss_active_stream_count :: u64
  ss_max_on_wire_size :: nat
  ss_stream_recv_capacity :: nat
  ss_stream_max_pending :: nat
  ss_inactivity_ms :: nat
  ss_inactivity_timer :: bool
  ss_teardown :: teardown
  ss_closed :: bool
  ss_heap :: "nat \<rightharpoonup> session_stream_entry"
  ss_events :: "session_event list"

record 'p pool_if =
  pi_init :: "nat \<Rightarrow> nat \<Rightarrow> 'p option"
  pi_send :: "'p \<Rightarrow> bytes \<Rightarrow> int \<times> bool \<times> 'p"
  pi_add :: "'p \<Rightarrow> nat \<Rightarrow> conn_framing \<Rightarrow> int \<times> 'p"
  pi_close_all :: "'p \<Rightarrow> 'p"
  pi_destroy :: "'p \<Rightarrow> 'p"

text \<open>What one call may draw on: allocation, timers, randomness and the cipher library.\<close>

record sess_env =
  sv_mem :: heap_mem
  sv_entry :: "nat option"  \<comment> \<open>the address \<open>malloc\<close> returns for an entry\<close>
  sv_table :: bool
  sv_timer :: bool
  sv_evp :: evp
  sv_r :: "u64 \<Rightarrow> entropy"
  sv_r0 :: entropy

section \<open>Closing\<close>

definition session_reschedule_inactivity_timer :: "sess_env \<Rightarrow> 'p session \<Rightarrow> 'p session" where
  "session_reschedule_inactivity_timer v s = s\<lparr>ss_inactivity_timer := sv_timer v\<rparr>"

definition session_close_internal :: "'p session \<Rightarrow> bool \<times> 'p session" where
  "session_close_internal s =
     (if ss_closed s then (False, s) else (True, s\<lparr>ss_closed := True, ss_inactivity_timer := False\<rparr>))"

definition session_schedule_deferred_teardown :: "sess_env \<Rightarrow> 'p session \<Rightarrow> 'p session" where
  "session_schedule_deferred_teardown v s = s\<lparr>ss_teardown := (if sv_timer v then TdDeferred else TdNone)\<rparr>"

definition session_passive_close :: "sess_env \<Rightarrow> 'p session \<Rightarrow> 'p session" where
  "session_passive_close v s =
     (case session_close_internal s of (first, s1) \<Rightarrow> if \<not> first then s1 else session_schedule_deferred_teardown v s1)"

definition session_on_switchboard_broken :: "sess_env \<Rightarrow> 'p session \<Rightarrow> 'p session" where
  "session_on_switchboard_broken v s = session_passive_close v s"

definition session_stream_sink_adapter :: "'p pool_if \<Rightarrow> sess_env \<Rightarrow> 'p session \<Rightarrow> bytes \<Rightarrow> int \<times> 'p session" where
  "session_stream_sink_adapter pi v s bs =
     (case pi_send pi (ss_pool s) bs of (rc, fired, p) \<Rightarrow>
        (rc, if fired then session_on_switchboard_broken v (s\<lparr>ss_pool := p\<rparr>) else s\<lparr>ss_pool := p\<rparr>))"

definition session_sink :: "'p pool_if \<Rightarrow> sess_env \<Rightarrow> 'p session \<Rightarrow> bytes \<Rightarrow> bool \<times> 'p session" where
  \<comment> \<open>the adapter as the stream code sees it: whether it returned 0\<close>
  "session_sink pi v s bs = (case session_stream_sink_adapter pi v s bs of (rc, s1) \<Rightarrow> (rc = 0, s1))"

definition session_retire_stream :: "sess_env \<Rightarrow> 'p session \<Rightarrow> nat \<Rightarrow> 'p session option" where
  "session_retire_stream v s a =
     (case ss_heap s a of
        None \<Rightarrow> None
      | Some e \<Rightarrow>
          if en_retired e then Some s
          else
            let s1 = s\<lparr>ss_heap := (ss_heap s)(a \<mapsto> e\<lparr>en_retired := True\<rparr>),
                       ss_streams := snd (cloak_strmtab_tombstone (ss_streams s) (st_id (en_stream e))),
                       ss_active_stream_count := ss_active_stream_count s - 1\<rparr>
            in Some (if ss_active_stream_count s1 = 0 \<and> \<not> ss_closed s1
                     then session_reschedule_inactivity_timer v s1 else s1))"

definition session_destroy_stream_iter_cb :: "u32 \<Rightarrow> nat option \<Rightarrow> 'p session option \<Rightarrow> 'p session option" where
  "session_destroy_stream_iter_cb key val so =
     (case (so, val) of
        (Some s, Some a) \<Rightarrow>
          (case ss_heap s a of
             None \<Rightarrow> None
           | Some e \<Rightarrow> Some (s\<lparr>ss_heap := (ss_heap s)(a := None),
                               ss_streams := snd (cloak_strmtab_tombstone (ss_streams s) key),
                               ss_active_stream_count := ss_active_stream_count s - 1\<rparr>))
      | _ \<Rightarrow> None)"

definition session_free_all_active_streams :: "'p session \<Rightarrow> 'p session option" where
  "session_free_all_active_streams s =
     cloak_strmtab_for_each_active (ss_streams s) session_destroy_stream_iter_cb (Some s)"

definition session_send_closing_session_frame :: "'p pool_if \<Rightarrow> sess_env \<Rightarrow> 'p session \<Rightarrow> 'p session" where
  "session_send_closing_session_frame pi v s =
     (let len_byte = rnd_bytes (sv_r0 v) 1 ! 0;
          pad_len0 = unat len_byte + 1;
          max_payload = ss_max_on_wire_size s - CLOAK_FRAME_HEADER_LEN - CLOAK_FRAME_MAX_EXTRA_LEN;
          max_pad = (if max_payload < 256 then max_payload else 256);
          pad_len = (if pad_len0 > max_pad then max_pad else pad_len0);
          frame = \<lparr>fr_stream_id = 0xffffffff, fr_seq = 0, fr_closing = CLOAK_FRAME_CLOSING_SESSION,
                   fr_payload = rnd_bytes (sv_r0 v) pad_len\<rparr>
      in case cloak_frame_obfuscate (sv_evp v) (sv_r v 0) (ss_obfuscator s) frame
                (CLOAK_FRAME_HEADER_LEN + 256 + CLOAK_FRAME_MAX_EXTRA_LEN) of
           None \<Rightarrow> s
         | Some wire \<Rightarrow> snd (session_stream_sink_adapter pi v s wire))"

definition cloak_session_close :: "'p pool_if \<Rightarrow> sess_env \<Rightarrow> 'p session \<Rightarrow> int \<times> 'p session" where
  "cloak_session_close pi v s =
     (case session_close_internal s of (first, s1) \<Rightarrow>
        if \<not> first then (-1, s1)
        else (0, session_schedule_deferred_teardown v (session_send_closing_session_frame pi v s1)))"

definition session_check_timeout :: "'p pool_if \<Rightarrow> sess_env \<Rightarrow> 'p session \<Rightarrow> 'p session" where
  \<comment> \<open>the inactivity timer has fired\<close>
  "session_check_timeout pi v s =
     (let s1 = s\<lparr>ss_inactivity_timer := False\<rparr> in
      if ss_active_stream_count s1 = 0 \<and> \<not> ss_closed s1 then snd (cloak_session_close pi v s1) else s1)"

definition session_teardown_sweep_cb :: "'p pool_if \<Rightarrow> 'p session \<Rightarrow> 'p session option" where
  "session_teardown_sweep_cb pi s =
     map_option (\<lambda>s1. s1\<lparr>ss_pool := pi_close_all pi (ss_pool s1)\<rparr>)
       (session_free_all_active_streams (s\<lparr>ss_teardown := TdNone\<rparr>))"

definition session_deferred_teardown_cb :: "sess_env \<Rightarrow> 'p session \<Rightarrow> 'p session" where
  "session_deferred_teardown_cb v s =
     s\<lparr>ss_teardown := (if sv_timer v then TdSweep else TdNone), ss_events := ss_events s @ [EvBroken]\<rparr>"

section \<open>Frames from the pool\<close>

definition session_new_stream :: "sess_env \<Rightarrow> 'p session \<Rightarrow> u32 \<Rightarrow> ('p session \<times> nat option) option" where
  \<comment> \<open>allocate, initialise and register a stream: the part the two callers share. The second component is the
     entry's address, or \<^const>\<open>None\<close> after one of the three failures, which leave the session as it was\<close>
  "session_new_stream v s sid =
     (case sv_entry v of
        None \<Rightarrow> Some (s, None)
      | Some a \<Rightarrow>
          (case cloak_stream_init (sv_mem v) sid (ss_obfuscator s) (ss_max_on_wire_size s)
                  (ss_stream_recv_capacity s) (ss_stream_max_pending s) (ss_ordering s) of
             (rc, st) \<Rightarrow>
               if rc \<noteq> 0 then Some (s, None)
               else case cloak_strmtab_insert_active (sv_table v) (ss_streams s) sid (Some a) of
                      None \<Rightarrow> None
                    | Some (rc, tb) \<Rightarrow>
                        if rc \<noteq> 0 then Some (s\<lparr>ss_streams := tb\<rparr>, None)
                        else Some (s\<lparr>ss_streams := tb, ss_heap := (ss_heap s)(a \<mapsto> \<lparr>en_stream = st, en_retired = False\<rparr>),
                                ss_active_stream_count := ss_active_stream_count s + 1\<rparr>, Some a)))"

definition session_feed :: "sess_env \<Rightarrow> 'p session \<Rightarrow> nat \<Rightarrow> frame \<Rightarrow> 'p session option" where
  \<comment> \<open>feed the frame to the stream at that address and retire it if it ended or violated the protocol\<close>
  "session_feed v s a frame =
     (case ss_heap s a of
        None \<Rightarrow> None
      | Some e \<Rightarrow>
          (case cloak_stream_feed_frame (sv_mem v) (en_stream e) frame of (rc, st) \<Rightarrow>
             let s1 = s\<lparr>ss_heap := (ss_heap s)(a \<mapsto> e\<lparr>en_stream := st\<rparr>)\<rparr> in
             if rc = 1 \<or> rc = -1 then session_retire_stream v s1 a else Some s1))"

definition session_on_envelope :: "sess_env \<Rightarrow> 'p session \<Rightarrow> bytes \<Rightarrow> 'p session option" where
  "session_on_envelope v s frame_bytes =
     (if ss_closed s then Some s
      else case cloak_frame_deobfuscate (sv_evp v) (ss_obfuscator s) frame_bytes of
             None \<Rightarrow> Some s
           | Some frame \<Rightarrow>
               if fr_closing frame = CLOAK_FRAME_CLOSING_SESSION then Some (session_passive_close v s)
               else
                 (case cloak_strmtab_lookup (ss_streams s) (fr_stream_id frame) of
                    Some (CLOAK_STRMTAB_TOMBSTONE, _) \<Rightarrow> Some s
                  | Some (CLOAK_STRMTAB_ACTIVE, None) \<Rightarrow> None
                  | Some (CLOAK_STRMTAB_ACTIVE, Some a) \<Rightarrow>
                      map_option (\<lambda>s1. s1\<lparr>ss_events := ss_events s1 @ [EvStreamData a]\<rparr>) (session_feed v s a frame)
                  | _ \<Rightarrow>
                      (case session_new_stream v s (fr_stream_id frame) of
                         None \<Rightarrow> None
                       | Some (s1, None) \<Rightarrow> Some s1
                       | Some (s1, Some a) \<Rightarrow>
                           map_option (\<lambda>s2. s2\<lparr>ss_events := ss_events s2 @ [EvNewStream a]\<rparr>) (session_feed v s1 a frame))))"

section \<open>The session's own operations\<close>

record session_config =
  sc_ordering :: ordering
  sc_obfuscator :: obfuscator
  sc_max_on_wire_size :: nat
  sc_stream_recv_capacity :: nat
  sc_stream_max_pending :: nat
  sc_conn_send_queue_cap :: nat
  sc_inactivity_ms :: nat

definition cloak_session_init :: "'p pool_if \<Rightarrow> sess_env \<Rightarrow> u32 \<Rightarrow> session_config \<Rightarrow> int \<times> 'p session option" where
  "cloak_session_init pi v sid cfg =
     (if sc_ordering cfg \<noteq> CLOAK_SESSION_ORDERING_ORDERED \<and> sc_ordering cfg \<noteq> CLOAK_SESSION_ORDERING_UNORDERED
      then (CLOAK_SESSION_ERR_INVALID_ORDERING, None)
      else if sc_max_on_wire_size cfg \<le> CLOAK_FRAME_HEADER_LEN + CLOAK_FRAME_MAX_EXTRA_LEN
         \<or> sc_stream_recv_capacity cfg = 0
         \<or> sc_stream_recv_capacity cfg < sc_max_on_wire_size cfg - CLOAK_FRAME_HEADER_LEN
         \<or> sc_conn_send_queue_cap cfg = 0 \<or> sc_max_on_wire_size cfg > CLOAK_CONN_MAX_FRAME_LEN
      then (-1, None)
      else case cloak_strmtab_init (sv_table v) 16 of (rc, tb) \<Rightarrow>
        if rc \<noteq> 0 then (-1, None)
        else case pi_init pi (sc_max_on_wire_size cfg) (sc_conn_send_queue_cap cfg) of
               None \<Rightarrow> (-1, None)
             | Some p \<Rightarrow> (0, Some (session_reschedule_inactivity_timer v
                 \<lparr>ss_id = sid, ss_ordering = sc_ordering cfg, ss_obfuscator = sc_obfuscator cfg, ss_streams = tb, ss_pool = p,
                  ss_next_stream_id = 1, ss_active_stream_count = 0, ss_max_on_wire_size = sc_max_on_wire_size cfg,
                  ss_stream_recv_capacity = sc_stream_recv_capacity cfg, ss_stream_max_pending = sc_stream_max_pending cfg,
                  ss_inactivity_ms = sc_inactivity_ms cfg, ss_inactivity_timer = False, ss_teardown = TdNone,
                  ss_closed = False, ss_heap = Map.empty, ss_events = []\<rparr>)))"

definition cloak_session_destroy :: "'p pool_if \<Rightarrow> 'p session \<Rightarrow> 'p session option" where
  \<comment> \<open>up to the final \<open>memset\<close> of the session itself\<close>
  "cloak_session_destroy pi s =
     map_option (\<lambda>s2. s2\<lparr>ss_pool := pi_destroy pi (ss_pool s2), ss_streams := cloak_strmtab_destroy (ss_streams s2)\<rparr>)
       (session_free_all_active_streams ((snd (session_close_internal s))\<lparr>ss_teardown := TdNone\<rparr>))"

definition cloak_session_add_conn_framed :: "'p pool_if \<Rightarrow> 'p session \<Rightarrow> nat \<Rightarrow> conn_framing \<Rightarrow> int \<times> 'p session" where
  "cloak_session_add_conn_framed pi s fd framing =
     (if ss_closed s then (-1, s)
      else case pi_add pi (ss_pool s) fd framing of (rc, p) \<Rightarrow> (rc, s\<lparr>ss_pool := p\<rparr>))"

definition cloak_session_add_conn :: "'p pool_if \<Rightarrow> 'p session \<Rightarrow> nat \<Rightarrow> int \<times> 'p session" where
  "cloak_session_add_conn pi s fd = cloak_session_add_conn_framed pi s fd CLOAK_CONN_FRAMING_TLS_RECORD"

definition cloak_session_open_stream :: "sess_env \<Rightarrow> 'p session \<Rightarrow> ('p session \<times> (nat \<times> u32) option) option" where
  \<comment> \<open>the stream's address and id, or NULL\<close>
  "cloak_session_open_stream v s =
     (if ss_closed s then Some (s, None)
      else
        let sid = ss_next_stream_id s; s1 = s\<lparr>ss_next_stream_id := ss_next_stream_id s + 1\<rparr> in
        map_option (\<lambda>(s2, ao). (s2, map_option (\<lambda>a. (a, sid)) ao)) (session_new_stream v s1 sid))"

definition session_store :: "'p session \<Rightarrow> nat \<Rightarrow> stream \<Rightarrow> 'p session option" where
  \<comment> \<open>a write through the caller's stream pointer\<close>
  "session_store s a st =
     (case ss_heap s a of None \<Rightarrow> None | Some e \<Rightarrow> Some (s\<lparr>ss_heap := (ss_heap s)(a \<mapsto> e\<lparr>en_stream := st\<rparr>)\<rparr>))"

definition session_send_closing_on :: "'p pool_if \<Rightarrow> sess_env \<Rightarrow> 'p session \<Rightarrow> nat \<Rightarrow> 'p session option" where
  \<comment> \<open>\<open>cloak_stream_send_closing(stream, CLOAK_FRAME_CLOSING_STREAM)\<close> with this session as the sink\<close>
  "session_send_closing_on pi v s a =
     (case ss_heap s a of
        None \<Rightarrow> None
      | Some e \<Rightarrow>
          (case cloak_stream_send_closing (sv_evp v) (sv_r v) (sv_r0 v) (session_sink pi v) (en_stream e) s CLOAK_FRAME_CLOSING_STREAM of
             (rc, st, s1) \<Rightarrow> session_store s1 a st))"

definition session_stream_write :: "'p pool_if \<Rightarrow> sess_env \<Rightarrow> 'p session \<Rightarrow> nat \<Rightarrow> bytes \<Rightarrow> (int \<times> 'p session) option" where
  \<comment> \<open>\<open>cloak_stream_write\<close> on a stream of this session\<close>
  "session_stream_write pi v s a bs =
     (case ss_heap s a of
        None \<Rightarrow> None
      | Some e \<Rightarrow>
          (case cloak_stream_write (sv_evp v) (sv_r v) (session_sink pi v) (en_stream e) s bs of
             (rc, st, s1) \<Rightarrow> map_option (Pair rc) (session_store s1 a st)))"

definition cloak_session_close_stream :: "'p pool_if \<Rightarrow> sess_env \<Rightarrow> 'p session \<Rightarrow> nat \<Rightarrow> (int \<times> 'p session) option" where
  "cloak_session_close_stream pi v s a =
     (if ss_closed s then Some (-1, s)
      else case ss_heap s a of
             None \<Rightarrow> None
           | Some e \<Rightarrow>
               if en_retired e then Some (-1, s)
               else Option.bind (session_send_closing_on pi v s a)
                      (\<lambda>s1. map_option (Pair 0) (session_retire_stream v s1 a)))"

definition cloak_session_release_stream :: "'p pool_if \<Rightarrow> sess_env \<Rightarrow> 'p session \<Rightarrow> nat \<Rightarrow> 'p session option" where
  "cloak_session_release_stream pi v s a =
     (case ss_heap s a of
        None \<Rightarrow> None
      | Some e \<Rightarrow>
          Option.bind
            (if \<not> en_retired e
             then Option.bind (session_send_closing_on pi v s a) (\<lambda>s1. session_retire_stream v s1 a)
             else Some s)
            (\<lambda>s2. case ss_heap s2 a of
                    None \<Rightarrow> None
                  | Some e2 \<Rightarrow> Some (s2\<lparr>ss_heap := (ss_heap s2)(a := None)\<rparr>)))"

definition cloak_session_is_closed :: "'p session \<Rightarrow> bool" where
  "cloak_session_is_closed s = ss_closed s"

section \<open>The run of a session\<close>

datatype session_op =
    OpEnvelope bytes
  | OpPoolBroken
  | OpAddConn nat conn_framing
  | OpOpen
  | OpWrite nat bytes
  | OpRead nat nat
  | OpCloseStream nat
  | OpRelease nat
  | OpClose
  | OpTimeout
  | OpTeardown

definition session_read :: "'p session \<Rightarrow> nat \<Rightarrow> nat \<Rightarrow> 'p session option" where
  \<comment> \<open>\<open>cloak_stream_read\<close> on a stream of this session\<close>
  "session_read s a n = (case ss_heap s a of None \<Rightarrow> None | Some e \<Rightarrow> session_store s a (snd (snd (cloak_stream_read (en_stream e) n))))"

fun session_exec :: "'p pool_if \<Rightarrow> sess_env \<Rightarrow> session_op \<Rightarrow> 'p session \<Rightarrow> 'p session option" where
  "session_exec pi v (OpEnvelope bs) s = session_on_envelope v s bs"
| "session_exec pi v OpPoolBroken s = Some (session_on_switchboard_broken v s)"
| "session_exec pi v (OpAddConn fd fr) s = Some (snd (cloak_session_add_conn_framed pi s fd fr))"
| "session_exec pi v OpOpen s = map_option fst (cloak_session_open_stream v s)"
| "session_exec pi v (OpWrite a bs) s = map_option snd (session_stream_write pi v s a bs)"
| "session_exec pi v (OpRead a n) s = session_read s a n"
| "session_exec pi v (OpCloseStream a) s = map_option snd (cloak_session_close_stream pi v s a)"
| "session_exec pi v (OpRelease a) s = cloak_session_release_stream pi v s a"
| "session_exec pi v OpClose s = Some (snd (cloak_session_close pi v s))"
| "session_exec pi v OpTimeout s = Some (session_check_timeout pi v s)"
| "session_exec pi v OpTeardown s =
     (case ss_teardown s of
        TdNone \<Rightarrow> Some s
      | TdDeferred \<Rightarrow> Some (session_deferred_teardown_cb v s)
      | TdSweep \<Rightarrow> session_teardown_sweep_cb pi s)"

text \<open>The caller passes only pointers it has not released, timers fire only when armed, and \<open>malloc\<close> returns fresh memory.\<close>

fun session_legal :: "sess_env \<Rightarrow> session_op \<Rightarrow> 'p session \<Rightarrow> bool" where
  "session_legal v (OpWrite a bs) s = (ss_heap s a \<noteq> None)"
| "session_legal v (OpRead a n) s = (ss_heap s a \<noteq> None)"
| "session_legal v (OpCloseStream a) s = (ss_heap s a \<noteq> None)"
| "session_legal v (OpRelease a) s = (ss_heap s a \<noteq> None)"
| "session_legal v OpTimeout s = ss_inactivity_timer s"
| "session_legal v OpTeardown s = (ss_teardown s \<noteq> TdNone)"
| "session_legal v op s = (\<forall>a. sv_entry v = Some a \<longrightarrow> ss_heap s a = None)"

inductive session_reach :: "'p pool_if \<Rightarrow> 'p session \<Rightarrow> bool" for pi where
  reach_init: "cloak_session_init pi v sid cfg = (0, Some s) \<Longrightarrow> session_reach pi s"
| reach_step: "session_reach pi s \<Longrightarrow> session_legal v op s \<Longrightarrow> session_exec pi v op s = Some s' \<Longrightarrow> session_reach pi s'"

inductive_cases session_reachE: "session_reach pi s"

section \<open>The memory invariant\<close>

definition active_ids :: "'v strmtab \<Rightarrow> u32 set" where
  "active_ids tb = {k. map_option fst (strmtab_abs tb k) = Some CLOAK_STRMTAB_ACTIVE}"

definition mem_inv :: "nat strmtab \<Rightarrow> (nat \<rightharpoonup> session_stream_entry) \<Rightarrow> u64 \<Rightarrow> bool" where
  \<comment> \<open>the table's live ids and the unretired entries are the same streams, and the counter counts them\<close>
  "mem_inv tb hp n \<longleftrightarrow> strmtab_ok tb
     \<and> (\<forall>k val. strmtab_abs tb k = Some (CLOAK_STRMTAB_ACTIVE, val) \<longrightarrow>
          (\<exists>a e. val = Some a \<and> hp a = Some e \<and> \<not> en_retired e \<and> st_id (en_stream e) = k))
     \<and> (\<forall>a e. hp a = Some e \<longrightarrow> \<not> en_retired e \<longrightarrow>
          strmtab_abs tb (st_id (en_stream e)) = Some (CLOAK_STRMTAB_ACTIVE, Some a))
     \<and> n = of_nat (card (active_ids tb))"

abbreviation sess_mem :: "'p session \<Rightarrow> bool" where
  "sess_mem s \<equiv> mem_inv (ss_streams s) (ss_heap s) (ss_active_stream_count s)"

lemma active_idsD: "strmtab_abs tb k = Some (CLOAK_STRMTAB_ACTIVE, val) \<Longrightarrow> k \<in> active_ids tb"
  by (simp add: active_ids_def)

lemma mem_inv_end_stream:
  assumes m: "mem_inv tb hp n" and e: "hp a = Some e" "\<not> en_retired e"
    and x: "\<forall>e'. x = Some e' \<longrightarrow> en_retired e'"
  defines "tb' \<equiv> snd (cloak_strmtab_tombstone tb (st_id (en_stream e)))"
  shows "mem_inv tb' (hp(a := x)) (n - 1)" "active_ids tb' = active_ids tb - {st_id (en_stream e)}"
proof -
  let ?k = "st_id (en_stream e)"
  have ok: "strmtab_ok tb" and act: "strmtab_abs tb ?k = Some (CLOAK_STRMTAB_ACTIVE, Some a)"
    using m e by (auto simp: mem_inv_def)
  have t: "strmtab_ok tb'" "strmtab_abs tb' = (strmtab_abs tb)(?k \<mapsto> (CLOAK_STRMTAB_TOMBSTONE, None))"
    using st.tomb_spec[OF ok, of ?k] act by (auto simp: tb'_def)
  show ids: "active_ids tb' = active_ids tb - {?k}" by (auto simp: active_ids_def t(2))
  have "card (active_ids tb) = Suc (card (active_ids tb'))"
    unfolding ids using active_idsD[OF act] by (intro card.remove) simp_all
  then have n: "n - 1 = of_nat (card (active_ids tb'))" using m by (simp add: mem_inv_def)
  have uniq: "b = a" if "hp b = Some e'" "\<not> en_retired e'" "st_id (en_stream e') = ?k" for b e'
  proof -
    have "strmtab_abs tb (st_id (en_stream e')) = Some (CLOAK_STRMTAB_ACTIVE, Some b)" using m that(1,2) by (simp add: mem_inv_def)
    then show ?thesis using act that(3) by simp
  qed
  show "mem_inv tb' (hp(a := x)) (n - 1)"
    unfolding mem_inv_def t(2)
  proof (intro conjI allI impI)
    show "strmtab_ok tb'" by (rule t(1))
    show "n - 1 = of_nat (card (active_ids tb'))" by (rule n)
  next
    fix k val assume k: "((strmtab_abs tb)(?k \<mapsto> (CLOAK_STRMTAB_TOMBSTONE, None))) k = Some (CLOAK_STRMTAB_ACTIVE, val)"
    then have "k \<noteq> ?k" "strmtab_abs tb k = Some (CLOAK_STRMTAB_ACTIVE, val)" by (auto split: if_splits)
    then obtain b e' where b: "val = Some b" "hp b = Some e'" "\<not> en_retired e'" "st_id (en_stream e') = k"
      using m unfolding mem_inv_def by blast
    then show "\<exists>b e'. val = Some b \<and> (hp(a := x)) b = Some e' \<and> \<not> en_retired e' \<and> st_id (en_stream e') = k"
      using \<open>k \<noteq> ?k\<close> e(1) by (intro exI[of _ b] exI[of _ e']) auto
  next
    fix b e' assume "(hp(a := x)) b = Some e'" "\<not> en_retired e'"
    then have b: "b \<noteq> a" "hp b = Some e'" "\<not> en_retired e'" using x by (auto split: if_splits)
    then have "st_id (en_stream e') \<noteq> ?k" using uniq by blast
    then show "((strmtab_abs tb)(?k \<mapsto> (CLOAK_STRMTAB_TOMBSTONE, None))) (st_id (en_stream e')) = Some (CLOAK_STRMTAB_ACTIVE, Some b)"
      using m b by (simp add: mem_inv_def)
  qed
qed

lemma mem_inv_new_stream:
  assumes m: "mem_inv tb hp n" and fresh: "hp a = None" and sid: "st_id stm = sid"
    and i: "cloak_strmtab_insert_active al tb sid (Some a) = Some (0, tb')"
  shows "mem_inv tb' (hp(a \<mapsto> \<lparr>en_stream = stm, en_retired = False\<rparr>)) (n + 1)"
proof -
  have ok: "strmtab_ok tb" using m by (simp add: mem_inv_def)
  have t: "strmtab_ok tb'" "strmtab_abs tb' = (strmtab_abs tb)(sid \<mapsto> (CLOAK_STRMTAB_ACTIVE, Some a))"
    and na: "map_option fst (strmtab_abs tb sid) \<noteq> Some CLOAK_STRMTAB_ACTIVE"
    using st.ins_spec[OF ok, of al sid "Some a"] i by auto
  have ids: "active_ids tb' = insert sid (active_ids tb)" by (auto simp: active_ids_def t(2))
  have "card (active_ids tb') = Suc (card (active_ids tb))"
    unfolding ids using na by (intro card_insert_disjoint) (auto simp: active_ids_def)
  then have n: "n + 1 = of_nat (card (active_ids tb'))" using m by (simp add: mem_inv_def)
  have other: "st_id (en_stream e) \<noteq> sid" if "hp b = Some e" "\<not> en_retired e" for b e
    using m that na by (auto simp: mem_inv_def)
  have keep: "\<exists>b e. val = Some b \<and> b \<noteq> a \<and> hp b = Some e \<and> \<not> en_retired e \<and> st_id (en_stream e) = k"
    if "strmtab_abs tb k = Some (CLOAK_STRMTAB_ACTIVE, val)" for k val
    using m fresh that unfolding mem_inv_def by (metis option.distinct(1))
  show ?thesis
    unfolding mem_inv_def t(2)
  proof (intro conjI allI impI)
    show "strmtab_ok tb'" by (rule t(1))
    show "n + 1 = of_nat (card (active_ids tb'))" by (rule n)
  next
    fix k val assume "((strmtab_abs tb)(sid \<mapsto> (CLOAK_STRMTAB_ACTIVE, Some a))) k = Some (CLOAK_STRMTAB_ACTIVE, val)"
    then show "\<exists>b e. val = Some b \<and> (hp(a \<mapsto> \<lparr>en_stream = stm, en_retired = False\<rparr>)) b = Some e \<and> \<not> en_retired e \<and> st_id (en_stream e) = k"
      using keep[of k val] sid by (fastforce split: if_splits)
  next
    fix b e assume "(hp(a \<mapsto> \<lparr>en_stream = stm, en_retired = False\<rparr>)) b = Some e" "\<not> en_retired e"
    then show "((strmtab_abs tb)(sid \<mapsto> (CLOAK_STRMTAB_ACTIVE, Some a))) (st_id (en_stream e)) = Some (CLOAK_STRMTAB_ACTIVE, Some b)"
      using sid other m by (auto simp: mem_inv_def split: if_splits)
  qed
qed

lemma mem_inv_store:
  assumes "mem_inv tb hp n" "hp a = Some e" "st_id stm = st_id (en_stream e)"
  shows "mem_inv tb (hp(a \<mapsto> e\<lparr>en_stream := stm\<rparr>)) n"
  using assms unfolding mem_inv_def by (fastforce split: if_splits)

lemma mem_inv_drop_retired:
  assumes "mem_inv tb hp n" "hp a = Some e" "en_retired e"
  shows "mem_inv tb (hp(a := None)) n"
  using assms unfolding mem_inv_def by (fastforce split: if_splits)

lemma mem_inv_same_abs:
  assumes "mem_inv tb hp n" "strmtab_ok tb'" "strmtab_abs tb' = strmtab_abs tb"
  shows "mem_inv tb' hp n"
  using assms by (simp add: mem_inv_def active_ids_def)

section \<open>The life-cycle invariant\<close>

definition life_inv :: "bool \<Rightarrow> bool \<Rightarrow> teardown \<Rightarrow> session_event list \<Rightarrow> bool" where
  \<comment> \<open>a closed session has no inactivity timer; teardown only after closing; the broken event at most once, after the first
     of the two teardown callbacks\<close>
  "life_inv closed idle td evs \<longleftrightarrow> (closed \<longrightarrow> \<not> idle) \<and> (td \<noteq> TdNone \<longrightarrow> closed)
     \<and> count_list evs EvBroken \<le> 1 \<and> (EvBroken \<in> set evs \<longrightarrow> closed \<and> td \<noteq> TdDeferred)"

abbreviation sess_life :: "'p session \<Rightarrow> bool" where
  "sess_life s \<equiv> life_inv (ss_closed s) (ss_inactivity_timer s) (ss_teardown s) (ss_events s)"

definition sess_inv :: "'p session \<Rightarrow> bool" where
  "sess_inv s \<longleftrightarrow> sess_mem s \<and> sess_life s"

definition calm :: "'p session \<Rightarrow> 'p session \<Rightarrow> bool" where
  \<comment> \<open>the memory and the events are as before; closing may have happened\<close>
  "calm s s' \<longleftrightarrow> ss_streams s' = ss_streams s \<and> ss_heap s' = ss_heap s
     \<and> ss_active_stream_count s' = ss_active_stream_count s \<and> ss_events s' = ss_events s
     \<and> (ss_closed s \<longrightarrow> ss_closed s' \<and> ss_teardown s' = ss_teardown s) \<and> (sess_life s \<longrightarrow> sess_life s')"

lemma calm_refl: "calm s s"
  by (simp add: calm_def)

lemma calm_trans: "calm a b \<Longrightarrow> calm b c \<Longrightarrow> calm a c"
  by (auto simp: calm_def)

lemma calm_inv: "calm s s' \<Longrightarrow> sess_inv s \<Longrightarrow> sess_inv s'"
  unfolding calm_def sess_inv_def by metis

lemma count_pos: "EvBroken \<notin> set evs \<Longrightarrow> count_list evs EvBroken = 0"
  by (simp add: count_list_0_iff)

lemma calm_passive_close: "calm s (session_passive_close v s)"
  by (auto simp: calm_def session_passive_close_def session_close_internal_def session_schedule_deferred_teardown_def
      life_inv_def)

lemma calm_pool: "calm s (s\<lparr>ss_pool := p\<rparr>)"
  by (simp add: calm_def)

lemma calm_sink_adapter: "calm s (snd (session_stream_sink_adapter pi v s bs))"
  using calm_trans[OF calm_pool calm_passive_close] calm_pool
  by (auto simp: session_stream_sink_adapter_def session_on_switchboard_broken_def split: prod.splits)

lemma calm_sink: "calm s (snd (session_sink pi v s bs))"
  using calm_sink_adapter[of s pi v bs] by (auto simp: session_sink_def split: prod.splits)

lemma calm_closing_frame: "calm s (session_send_closing_session_frame pi v s)"
  by (auto simp: session_send_closing_session_frame_def Let_def calm_refl calm_sink_adapter split: option.splits)

lemma calm_session_close: "calm s (snd (cloak_session_close pi v s))"
proof (cases "ss_closed s")
  case True
  then show ?thesis by (simp add: cloak_session_close_def session_close_internal_def calm_refl)
next
  case False
  let ?s1 = "s\<lparr>ss_closed := True, ss_inactivity_timer := False\<rparr>"
  note c = calm_closing_frame[of ?s1 pi v]
  show ?thesis using False c
    by (auto simp: cloak_session_close_def session_close_internal_def session_schedule_deferred_teardown_def calm_def life_inv_def)
qed

lemmas session_ops = session_check_timeout_def session_on_switchboard_broken_def cloak_session_add_conn_framed_def

lemma timeout_inv: "sess_inv s \<Longrightarrow> sess_inv (session_check_timeout pi v s)"
proof -
  assume "sess_inv s"
  then have "sess_inv (s\<lparr>ss_inactivity_timer := False\<rparr>)" by (auto simp: sess_inv_def life_inv_def)
  then show ?thesis using calm_inv[OF calm_session_close] by (auto simp: session_check_timeout_def Let_def)
qed

lemma retire_inv:
  assumes "sess_inv s" "ss_heap s a = Some e"
  shows "\<exists>s'. session_retire_stream v s a = Some s' \<and> sess_inv s' \<and> ss_heap s' = (ss_heap s)(a \<mapsto> e\<lparr>en_retired := True\<rparr>)
     \<and> ss_events s' = ss_events s"
proof (cases "en_retired e")
  case True
  have "e\<lparr>en_retired := True\<rparr> = e" using True by simp
  then show ?thesis using assms True by (simp add: session_retire_stream_def map_upd_triv)
next
  case False
  have m: "sess_mem s" using assms(1) by (simp add: sess_inv_def)
  note e = mem_inv_end_stream(1)[OF m assms(2) False, of "Some (e\<lparr>en_retired := True\<rparr>)"]
  show ?thesis using assms False e
    by (auto simp: session_retire_stream_def session_reschedule_inactivity_timer_def Let_def sess_inv_def life_inv_def)
qed

lemma store_inv:
  assumes "sess_inv s" "ss_heap s a = Some e" "st_id stm = st_id (en_stream e)"
  shows "\<exists>s'. session_store s a stm = Some s' \<and> sess_inv s' \<and> ss_heap s' = (ss_heap s)(a \<mapsto> e\<lparr>en_stream := stm\<rparr>)
     \<and> ss_events s' = ss_events s"
  using assms mem_inv_store[of "ss_streams s" "ss_heap s" "ss_active_stream_count s" a e stm]
  by (auto simp: session_store_def sess_inv_def)

lemma feed_inv:
  assumes "sess_inv s" "ss_heap s a = Some e"
  shows "\<exists>s' e'. session_feed v s a f = Some s' \<and> sess_inv s' \<and> ss_heap s' = (ss_heap s)(a \<mapsto> e')
     \<and> en_stream e' = snd (cloak_stream_feed_frame (sv_mem v) (en_stream e) f) \<and> ss_events s' = ss_events s"
proof -
  obtain rc stm where f: "cloak_stream_feed_frame (sv_mem v) (en_stream e) f = (rc, stm)" by fastforce
  define s1 where "s1 = s\<lparr>ss_heap := (ss_heap s)(a \<mapsto> e\<lparr>en_stream := stm\<rparr>)\<rparr>"
  have "st_id stm = st_id (en_stream e)" using feed_frame_id[of "sv_mem v" "en_stream e" f] f by simp
  then have i: "sess_inv s1" "ss_heap s1 a = Some (e\<lparr>en_stream := stm\<rparr>)"
    using assms mem_inv_store[of "ss_streams s" "ss_heap s" "ss_active_stream_count s" a e stm]
    by (auto simp: s1_def sess_inv_def)
  show ?thesis
  proof (cases "rc = 1 \<or> rc = -1")
    case True
    obtain s' where "session_retire_stream v s1 a = Some s'" "sess_inv s'"
      "ss_heap s' = (ss_heap s1)(a \<mapsto> e\<lparr>en_stream := stm, en_retired := True\<rparr>)" "ss_events s' = ss_events s1"
      using retire_inv[OF i, of v] by auto
    then show ?thesis using assms(2) f True by (auto simp: session_feed_def s1_def Let_def)
  next
    case False
    then show ?thesis using assms(2) f i by (auto simp: session_feed_def s1_def Let_def)
  qed
qed

lemma new_stream_inv:
  assumes "sess_inv s" "\<forall>a. sv_entry v = Some a \<longrightarrow> ss_heap s a = None"
  shows "\<exists>s' ao. session_new_stream v s sid = Some (s', ao) \<and> sess_inv s' \<and> ss_events s' = ss_events s
     \<and> (case ao of None \<Rightarrow> ss_heap s' = ss_heap s
        | Some a \<Rightarrow> \<exists>e. ss_heap s a = None \<and> ss_heap s' = (ss_heap s)(a \<mapsto> e) \<and> \<not> en_retired e \<and> st_id (en_stream e) = sid)"
proof (cases "sv_entry v")
  case None
  then show ?thesis using assms by (simp add: session_new_stream_def)
next
  case (Some a)
  have m: "sess_mem s" and l: "sess_life s" using assms(1) by (simp_all add: sess_inv_def)
  have ok: "strmtab_ok (ss_streams s)" using m by (simp add: mem_inv_def)
  obtain rc stm where i: "cloak_stream_init (sv_mem v) sid (ss_obfuscator s) (ss_max_on_wire_size s)
      (ss_stream_recv_capacity s) (ss_stream_max_pending s) (ss_ordering s) = (rc, stm)" by fastforce
  obtain rc2 tb where t: "cloak_strmtab_insert_active (sv_table v) (ss_streams s) sid (Some a) = Some (rc2, tb)"
    "strmtab_ok tb" "rc2 = 0 \<or> strmtab_abs tb = strmtab_abs (ss_streams s)"
    using st.ins_spec[OF ok, of "sv_table v" sid "Some a"] by auto
  consider "rc \<noteq> 0" | "rc = 0" "rc2 \<noteq> 0" | "rc = 0" "rc2 = 0" by blast
  then show ?thesis
  proof cases
    case 1
    then show ?thesis using Some i assms(1) by (simp add: session_new_stream_def)
  next
    case 2
    then show ?thesis using Some i t l mem_inv_same_abs[OF m t(2)] by (auto simp: session_new_stream_def sess_inv_def)
  next
    case 3
    then have "mem_inv tb ((ss_heap s)(a \<mapsto> \<lparr>en_stream = stm, en_retired = False\<rparr>)) (ss_active_stream_count s + 1)"
      using mem_inv_new_stream[OF m _ _ t(1)[unfolded 3(2)]] assms(2) Some stream_init_id[OF i[unfolded 3(1)]] by blast
    then show ?thesis using 3 Some i t l assms(2) stream_init_id[OF i[unfolded 3(1)]]
      by (auto simp: session_new_stream_def sess_inv_def intro!: exI[of _ "\<lparr>en_stream = stm, en_retired = False\<rparr>"])
  qed
qed

section \<open>Sweeping the streams\<close>

lemma active_slots:
  assumes "strmtab_ok tb"
  shows "distinct (map sl_key (filter (\<lambda>x. sl_state x = CLOAK_STRMTAB_ACTIVE) (tb_slots tb)))"
    and "x \<in> set (tb_slots tb) \<Longrightarrow> sl_state x = CLOAK_STRMTAB_ACTIVE \<Longrightarrow> strmtab_abs tb (sl_key x) = Some (CLOAK_STRMTAB_ACTIVE, sl_value x)"
    and "strmtab_abs tb k = Some (CLOAK_STRMTAB_ACTIVE, val) \<Longrightarrow> \<exists>x \<in> set (tb_slots tb). sl_state x = CLOAK_STRMTAB_ACTIVE \<and> sl_key x = k"
proof -
  have ok: "slots_ok (tb_slots tb)" using assms by (simp add: strmtab_ok_def)
  note d = slots_ok_distinct[OF ok]
  have "filter (\<lambda>x. sl_state x = CLOAK_STRMTAB_ACTIVE) (filter occupied (tb_slots tb)) = filter (\<lambda>x. sl_state x = CLOAK_STRMTAB_ACTIVE) (tb_slots tb)"
    by (simp add: filter_filter) (metis (mono_tags, lifting) strmtab_state.distinct(1))
  then show "distinct (map sl_key (filter (\<lambda>x. sl_state x = CLOAK_STRMTAB_ACTIVE) (tb_slots tb)))"
    using distinct_map_filter[OF d] by metis
  show "x \<in> set (tb_slots tb) \<Longrightarrow> sl_state x = CLOAK_STRMTAB_ACTIVE \<Longrightarrow> strmtab_abs tb (sl_key x) = Some (CLOAK_STRMTAB_ACTIVE, sl_value x)"
  proof -
    assume x: "x \<in> set (tb_slots tb)" "sl_state x = CLOAK_STRMTAB_ACTIVE"
    then have "List.find (\<lambda>s. occupied s \<and> sl_key s = sl_key x) (tb_slots tb) \<noteq> None" by (auto simp: find_None_iff)
    then obtain y where y: "List.find (\<lambda>s. occupied s \<and> sl_key s = sl_key x) (tb_slots tb) = Some y" by blast
    then obtain i j where "i < length (tb_slots tb)" "tb_slots tb ! i = y" "occupied y" "sl_key y = sl_key x"
      "j < length (tb_slots tb)" "tb_slots tb ! j = x" using x by (auto simp: find_Some_iff in_set_conv_nth)
    then have "y = x" using ok x(2) unfolding slots_ok_def by (metis strmtab_state.distinct(1))
    then show ?thesis using y x(2) by (simp add: strmtab_abs_def)
  qed
  show "strmtab_abs tb k = Some (CLOAK_STRMTAB_ACTIVE, val) \<Longrightarrow> \<exists>x \<in> set (tb_slots tb). sl_state x = CLOAK_STRMTAB_ACTIVE \<and> sl_key x = k"
    by (auto simp: strmtab_abs_def find_Some_iff)
qed

lemma sweep_fold:
  assumes "sess_inv s" "distinct (map sl_key (filter (\<lambda>x. sl_state x = CLOAK_STRMTAB_ACTIVE) xs))"
    and "\<forall>x \<in> set xs. sl_state x = CLOAK_STRMTAB_ACTIVE \<longrightarrow> strmtab_abs (ss_streams s) (sl_key x) = Some (CLOAK_STRMTAB_ACTIVE, sl_value x)"
  shows "\<exists>s'. fold (\<lambda>x. if sl_state x = CLOAK_STRMTAB_ACTIVE then session_destroy_stream_iter_cb (sl_key x) (sl_value x) else id) xs (Some s) = Some s'
     \<and> sess_inv s' \<and> ss_events s' = ss_events s \<and> ss_closed s' = ss_closed s \<and> ss_teardown s' = ss_teardown s
     \<and> active_ids (ss_streams s') = active_ids (ss_streams s) - sl_key ` {x \<in> set xs. sl_state x = CLOAK_STRMTAB_ACTIVE}
     \<and> (\<forall>a e. ss_heap s' a = Some e \<longrightarrow> ss_heap s a = Some e)
     \<and> (\<forall>a e. ss_heap s a = Some e \<longrightarrow> en_retired e \<longrightarrow> ss_heap s' a = Some e)"
  using assms
proof (induction xs arbitrary: s)
  case Nil
  then show ?case by auto
next
  case (Cons x xs)
  show ?case
  proof (cases "sl_state x = CLOAK_STRMTAB_ACTIVE")
    case False
    moreover have "{y \<in> set (x # xs). sl_state y = CLOAK_STRMTAB_ACTIVE} = {y \<in> set xs. sl_state y = CLOAK_STRMTAB_ACTIVE}"
      using False by auto
    ultimately show ?thesis using Cons.IH[OF Cons.prems(1)] Cons.prems by simp
  next
    case True
    have m: "sess_mem s" using Cons.prems(1) by (simp add: sess_inv_def)
    have "strmtab_abs (ss_streams s) (sl_key x) = Some (CLOAK_STRMTAB_ACTIVE, sl_value x)" using Cons.prems(3) True by simp
    then obtain a e where e: "sl_value x = Some a" "ss_heap s a = Some e" "\<not> en_retired e" "st_id (en_stream e) = sl_key x"
      using m unfolding mem_inv_def by blast
    define s1 where "s1 = s\<lparr>ss_heap := (ss_heap s)(a := None),
      ss_streams := snd (cloak_strmtab_tombstone (ss_streams s) (sl_key x)), ss_active_stream_count := ss_active_stream_count s - 1\<rparr>"
    have cb: "session_destroy_stream_iter_cb (sl_key x) (sl_value x) (Some s) = Some s1"
      using e by (simp add: session_destroy_stream_iter_cb_def s1_def)
    note en = mem_inv_end_stream[OF m e(2,3), of None, unfolded e(4)]
    have i1: "sess_inv s1" using Cons.prems(1) en(1) by (simp add: sess_inv_def s1_def)
    have ids: "active_ids (ss_streams s1) = active_ids (ss_streams s) - {sl_key x}" using en(2) by (simp add: s1_def)
    have "strmtab_ok (ss_streams s)" using m by (simp add: mem_inv_def)
    then have abs1: "k \<noteq> sl_key x \<Longrightarrow> strmtab_abs (ss_streams s1) k = strmtab_abs (ss_streams s) k" for k
      using st.tomb_spec[of "ss_streams s" "sl_key x"] by (auto simp: s1_def)
    have keys: "\<forall>y \<in> set xs. sl_state y = CLOAK_STRMTAB_ACTIVE \<longrightarrow> sl_key y \<noteq> sl_key x"
    proof (intro ballI impI notI)
      fix y assume "y \<in> set xs" "sl_state y = CLOAK_STRMTAB_ACTIVE" "sl_key y = sl_key x"
      then have "sl_key x \<in> sl_key ` {x \<in> set xs. sl_state x = CLOAK_STRMTAB_ACTIVE}" by (metis (mono_tags, lifting) image_eqI mem_Collect_eq)
      then show False using Cons.prems(2) True by simp
    qed
    have d: "distinct (map sl_key (filter (\<lambda>x. sl_state x = CLOAK_STRMTAB_ACTIVE) xs))"
      "\<forall>y \<in> set xs. sl_state y = CLOAK_STRMTAB_ACTIVE \<longrightarrow> strmtab_abs (ss_streams s1) (sl_key y) = Some (CLOAK_STRMTAB_ACTIVE, sl_value y)"
      using Cons.prems(2,3) True keys abs1 by auto
    from Cons.IH[OF i1 d] obtain s' where s': "fold (\<lambda>x. if sl_state x = CLOAK_STRMTAB_ACTIVE then session_destroy_stream_iter_cb (sl_key x) (sl_value x) else id) xs (Some s1) = Some s'"
      "sess_inv s'" "ss_events s' = ss_events s1" "ss_closed s' = ss_closed s1" "ss_teardown s' = ss_teardown s1"
      "active_ids (ss_streams s') = active_ids (ss_streams s1) - sl_key ` {x \<in> set xs. sl_state x = CLOAK_STRMTAB_ACTIVE}"
      "\<forall>a e. ss_heap s' a = Some e \<longrightarrow> ss_heap s1 a = Some e"
      "\<forall>a e. ss_heap s1 a = Some e \<longrightarrow> en_retired e \<longrightarrow> ss_heap s' a = Some e" by blast
    have "active_ids (ss_streams s') = active_ids (ss_streams s) - sl_key ` {y \<in> set (x # xs). sl_state y = CLOAK_STRMTAB_ACTIVE}"
      unfolding s'(6) ids using True by auto
    moreover have "\<forall>b e'. ss_heap s1 b = Some e' \<longrightarrow> ss_heap s b = Some e'" by (simp add: s1_def)
    then have "\<forall>b e'. ss_heap s' b = Some e' \<longrightarrow> ss_heap s b = Some e'" using s'(7) by blast
    moreover have "\<forall>b e'. ss_heap s b = Some e' \<longrightarrow> en_retired e' \<longrightarrow> ss_heap s1 b = Some e'"
      using e(2,3) by (auto simp: s1_def)
    then have "\<forall>b e'. ss_heap s b = Some e' \<longrightarrow> en_retired e' \<longrightarrow> ss_heap s' b = Some e'" using s'(8) by blast
    moreover have "fold (\<lambda>x. if sl_state x = CLOAK_STRMTAB_ACTIVE then session_destroy_stream_iter_cb (sl_key x) (sl_value x) else id) (x # xs) (Some s) = Some s'"
      using cb True s'(1) by simp
    moreover have "ss_events s' = ss_events s" "ss_closed s' = ss_closed s" "ss_teardown s' = ss_teardown s"
      using s'(3-5) by (simp_all add: s1_def)
    ultimately show ?thesis using s'(2) by blast
  qed
qed

lemma sweep_inv:
  assumes "sess_inv s"
  shows "\<exists>s'. session_free_all_active_streams s = Some s' \<and> sess_inv s' \<and> ss_events s' = ss_events s \<and> ss_closed s' = ss_closed s
     \<and> ss_teardown s' = ss_teardown s \<and> active_ids (ss_streams s') = {} \<and> ss_active_stream_count s' = 0
     \<and> (\<forall>a e. ss_heap s' a = Some e \<longleftrightarrow> ss_heap s a = Some e \<and> en_retired e)"
proof -
  have ok: "strmtab_ok (ss_streams s)" using assms by (simp add: sess_inv_def mem_inv_def)
  have "\<forall>x \<in> set (tb_slots (ss_streams s)). sl_state x = CLOAK_STRMTAB_ACTIVE \<longrightarrow>
      strmtab_abs (ss_streams s) (sl_key x) = Some (CLOAK_STRMTAB_ACTIVE, sl_value x)"
    using active_slots(2)[OF ok] by blast
  from sweep_fold[OF assms active_slots(1)[OF ok] this] obtain s' where s':
    "session_free_all_active_streams s = Some s'" "sess_inv s'" "ss_events s' = ss_events s" "ss_closed s' = ss_closed s"
    "ss_teardown s' = ss_teardown s"
    "active_ids (ss_streams s') = active_ids (ss_streams s) - sl_key ` {x \<in> set (tb_slots (ss_streams s)). sl_state x = CLOAK_STRMTAB_ACTIVE}"
    "\<forall>a e. ss_heap s' a = Some e \<longrightarrow> ss_heap s a = Some e"
    "\<forall>a e. ss_heap s a = Some e \<longrightarrow> en_retired e \<longrightarrow> ss_heap s' a = Some e"
    unfolding session_free_all_active_streams_def cloak_strmtab_for_each_active_def by blast
  have "active_ids (ss_streams s) \<subseteq> sl_key ` {x \<in> set (tb_slots (ss_streams s)). sl_state x = CLOAK_STRMTAB_ACTIVE}"
    using active_slots(3)[OF ok] by (fastforce simp: active_ids_def)
  then have none: "active_ids (ss_streams s') = {}" using s'(6) by blast
  then have "ss_active_stream_count s' = 0" using s'(2) by (simp add: sess_inv_def mem_inv_def)
  moreover have "en_retired e" if "ss_heap s' a = Some e" for a e
    using s'(2) that none active_idsD unfolding sess_inv_def mem_inv_def by blast
  ultimately show ?thesis using s' none by blast
qed

section \<open>Every operation keeps the invariant and touches only allocated memory\<close>

lemma envelope_inv:
  assumes "sess_inv s" "\<forall>a. sv_entry v = Some a \<longrightarrow> ss_heap s a = None"
  shows "\<exists>s'. session_on_envelope v s bs = Some s' \<and> sess_inv s'
     \<and> (\<forall>a e. ss_heap s a = Some e \<and> (en_retired e \<or> (\<forall>f. cloak_frame_deobfuscate (sv_evp v) (ss_obfuscator s) bs = Some f
             \<longrightarrow> fr_stream_id f \<noteq> st_id (en_stream e))) \<longrightarrow> ss_heap s' a = Some e)"
proof (cases "ss_closed s \<or> cloak_frame_deobfuscate (sv_evp v) (ss_obfuscator s) bs = None")
  case True
  then show ?thesis using assms by (auto simp: session_on_envelope_def split: option.splits)
next
  case False
  then obtain f where f: "cloak_frame_deobfuscate (sv_evp v) (ss_obfuscator s) bs = Some f" and nc: "\<not> ss_closed s" by auto
  let ?k = "fr_stream_id f"
  have m: "sess_mem s" using assms(1) by (simp add: sess_inv_def)
  then have lk: "cloak_strmtab_lookup (ss_streams s) ?k = strmtab_abs (ss_streams s) ?k" by (simp add: mem_inv_def st.look_abs)
  have ev: "sess_inv (s1\<lparr>ss_events := ss_events s1 @ [x]\<rparr>)" if "sess_inv s1" "x \<noteq> EvBroken" for s1 :: "'a session" and x
    using that by (auto simp: sess_inv_def life_inv_def)
  consider (sess) "fr_closing f = CLOAK_FRAME_CLOSING_SESSION"
    | (dead) val where "fr_closing f \<noteq> CLOAK_FRAME_CLOSING_SESSION" "strmtab_abs (ss_streams s) ?k = Some (CLOAK_STRMTAB_TOMBSTONE, val)"
    | (live) val where "fr_closing f \<noteq> CLOAK_FRAME_CLOSING_SESSION" "strmtab_abs (ss_streams s) ?k = Some (CLOAK_STRMTAB_ACTIVE, val)"
    | (new) "fr_closing f \<noteq> CLOAK_FRAME_CLOSING_SESSION" "?k \<notin> active_ids (ss_streams s)"
        "map_option fst (strmtab_abs (ss_streams s) ?k) \<noteq> Some CLOAK_STRMTAB_TOMBSTONE"
    by (cases "strmtab_abs (ss_streams s) ?k") (auto simp: active_ids_def, metis strmtab_state.exhaust)
  then show ?thesis
  proof cases
    case sess
    then show ?thesis using f nc calm_inv[OF calm_passive_close assms(1), of v] calm_passive_close[of s v]
      by (auto simp: session_on_envelope_def calm_def)
  next
    case dead
    then show ?thesis using f nc lk assms(1) by (simp add: session_on_envelope_def)
  next
    case live
    then obtain a e where e: "val = Some a" "ss_heap s a = Some e" "\<not> en_retired e" "st_id (en_stream e) = ?k"
      using m unfolding mem_inv_def by blast
    obtain s' e' where s': "session_feed v s a f = Some s'" "sess_inv s'" "ss_heap s' = (ss_heap s)(a \<mapsto> e')"
      using feed_inv[OF assms(1) e(2), of v f] by blast
    then show ?thesis using f nc lk live e ev[OF s'(2), of "EvStreamData a"]
      by (auto simp: session_on_envelope_def)
  next
    case new
    obtain s1 ao where s1: "session_new_stream v s ?k = Some (s1, ao)" "sess_inv s1"
      "case ao of None \<Rightarrow> ss_heap s1 = ss_heap s
        | Some a \<Rightarrow> \<exists>e. ss_heap s a = None \<and> ss_heap s1 = (ss_heap s)(a \<mapsto> e) \<and> \<not> en_retired e \<and> st_id (en_stream e) = ?k"
      using new_stream_inv[OF assms, of ?k] by blast
    have u: "session_on_envelope v s bs = (case ao of None \<Rightarrow> Some s1
        | Some a \<Rightarrow> map_option (\<lambda>s2. s2\<lparr>ss_events := ss_events s2 @ [EvNewStream a]\<rparr>) (session_feed v s1 a f))"
      using f nc lk new s1(1) by (auto simp: session_on_envelope_def active_ids_def split: option.splits strmtab_state.splits)
    show ?thesis
    proof (cases ao)
      case None
      then show ?thesis using u s1 by simp
    next
      case (Some a)
      then obtain e where e: "ss_heap s a = None" "ss_heap s1 = (ss_heap s)(a \<mapsto> e)" using s1(3) by auto
      obtain s2 e2 where s2: "session_feed v s1 a f = Some s2" "sess_inv s2" "ss_heap s2 = (ss_heap s1)(a \<mapsto> e2)"
        using feed_inv[OF s1(2), of a e v f] e(2) by auto
      then show ?thesis using u Some e ev[OF s2(2), of "EvNewStream a"] by auto
    qed
  qed
qed

lemma write_inv:
  assumes "sess_inv s" "ss_heap s a = Some e"
  shows "\<exists>rc s'. session_stream_write pi v s a bs = Some (rc, s') \<and> sess_inv s'"
proof -
  obtain rc stm s1 where w: "cloak_stream_write (sv_evp v) (sv_r v) (session_sink pi v) (en_stream e) s bs = (rc, stm, s1)"
    by (metis prod_cases3)
  have c: "calm s s1" "st_id stm = st_id (en_stream e)"
    using stream_write_world[of calm "session_sink pi v", OF calm_refl calm_trans calm_sink w] by auto
  then have "sess_inv s1" "ss_heap s1 a = Some e" using assms calm_inv by (auto simp: calm_def)
  from store_inv[OF this c(2)] show ?thesis using w assms(2) by (auto simp: session_stream_write_def)
qed

lemma send_closing_inv:
  assumes "sess_inv s" "ss_heap s a = Some e"
  shows "\<exists>s' stm. session_send_closing_on pi v s a = Some s' \<and> sess_inv s' \<and> ss_heap s' a = Some (e\<lparr>en_stream := stm\<rparr>)"
proof -
  obtain rc stm s1 where w: "cloak_stream_send_closing (sv_evp v) (sv_r v) (sv_r0 v) (session_sink pi v) (en_stream e) s
      CLOAK_FRAME_CLOSING_STREAM = (rc, stm, s1)" by (metis prod_cases3)
  have c: "calm s s1" "st_id stm = st_id (en_stream e)"
    using send_closing_world[of calm "session_sink pi v", OF calm_refl calm_sink w] by auto
  then have "sess_inv s1" "ss_heap s1 a = Some e" using assms calm_inv by (auto simp: calm_def)
  from store_inv[OF this c(2)] obtain s' where "session_store s1 a stm = Some s'" "sess_inv s'"
    "ss_heap s' = (ss_heap s1)(a \<mapsto> e\<lparr>en_stream := stm\<rparr>)" by blast
  then show ?thesis using w assms(2) by (auto simp: session_send_closing_on_def)
qed

lemma close_stream_inv:
  assumes "sess_inv s" "ss_heap s a = Some e"
  shows "\<exists>rc s'. cloak_session_close_stream pi v s a = Some (rc, s') \<and> sess_inv s'"
proof (cases "ss_closed s \<or> en_retired e")
  case True
  then show ?thesis using assms by (auto simp: cloak_session_close_stream_def)
next
  case False
  obtain s1 stm where s1: "session_send_closing_on pi v s a = Some s1" "sess_inv s1" "ss_heap s1 a = Some (e\<lparr>en_stream := stm\<rparr>)"
    using send_closing_inv[OF assms] by blast
  from retire_inv[OF s1(2,3), of v] show ?thesis using False assms(2) s1(1) by (auto simp: cloak_session_close_stream_def)
qed

lemma release_inv:
  assumes "sess_inv s" "ss_heap s a = Some e"
  shows "\<exists>s'. cloak_session_release_stream pi v s a = Some s' \<and> sess_inv s' \<and> ss_heap s' a = None"
proof -
  have "\<exists>s2 e2. (if \<not> en_retired e then Option.bind (session_send_closing_on pi v s a) (\<lambda>s1. session_retire_stream v s1 a) else Some s)
      = Some s2 \<and> sess_inv s2 \<and> ss_heap s2 a = Some e2 \<and> en_retired e2"
  proof (cases "en_retired e")
    case True
    then show ?thesis using assms by simp
  next
    case False
    obtain s1 stm where s1: "session_send_closing_on pi v s a = Some s1" "sess_inv s1" "ss_heap s1 a = Some (e\<lparr>en_stream := stm\<rparr>)"
      using send_closing_inv[OF assms] by blast
    from retire_inv[OF s1(2,3), of v] show ?thesis using False s1(1) by auto
  qed
  then obtain s2 e2 where s2: "(if \<not> en_retired e then Option.bind (session_send_closing_on pi v s a) (\<lambda>s1. session_retire_stream v s1 a) else Some s)
      = Some s2" "sess_inv s2" "ss_heap s2 a = Some e2" "en_retired e2" by blast
  have "sess_inv (s2\<lparr>ss_heap := (ss_heap s2)(a := None)\<rparr>)"
    using s2 mem_inv_drop_retired[of "ss_streams s2" "ss_heap s2" "ss_active_stream_count s2" a e2] by (simp add: sess_inv_def)
  then show ?thesis using assms(2) s2 by (simp add: cloak_session_release_stream_def)
qed

lemma sweep_cb_inv:
  assumes "sess_inv s" "ss_teardown s = TdSweep"
  shows "\<exists>s'. session_teardown_sweep_cb pi s = Some s' \<and> sess_inv s' \<and> ss_active_stream_count s' = 0
     \<and> (\<forall>a e. ss_heap s' a = Some e \<longleftrightarrow> ss_heap s a = Some e \<and> en_retired e)"
proof -
  have "sess_inv (s\<lparr>ss_teardown := TdNone\<rparr>)" using assms by (auto simp: sess_inv_def life_inv_def)
  from sweep_inv[OF this] obtain s1 where "session_free_all_active_streams (s\<lparr>ss_teardown := TdNone\<rparr>) = Some s1" "sess_inv s1"
    "ss_active_stream_count s1 = 0" "\<forall>a e. ss_heap s1 a = Some e \<longleftrightarrow> ss_heap s a = Some e \<and> en_retired e" by auto
  then show ?thesis using calm_inv[OF calm_pool, of s1 "pi_close_all pi (ss_pool s1)"] by (simp add: session_teardown_sweep_cb_def)
qed

lemma exec_inv:
  assumes i: "sess_inv s" and l: "session_legal v op s"
  shows "\<exists>s'. session_exec pi v op s = Some s' \<and> sess_inv s'"
proof (cases op)
  case (OpEnvelope bs)
  then show ?thesis using envelope_inv[OF i, of v bs] l by auto
next
  case OpPoolBroken
  then show ?thesis using calm_inv[OF calm_passive_close i] by (simp add: session_on_switchboard_broken_def)
next
  case (OpAddConn fd fr)
  then show ?thesis using calm_inv[OF calm_pool i] i by (auto simp: cloak_session_add_conn_framed_def split: prod.splits)
next
  case OpOpen
  have "sess_inv (s\<lparr>ss_next_stream_id := ss_next_stream_id s + 1\<rparr>)" using i by (simp add: sess_inv_def)
  then have "\<exists>s' ao. session_new_stream v (s\<lparr>ss_next_stream_id := ss_next_stream_id s + 1\<rparr>) (ss_next_stream_id s) = Some (s', ao) \<and> sess_inv s'"
    using new_stream_inv[of "s\<lparr>ss_next_stream_id := ss_next_stream_id s + 1\<rparr>" v "ss_next_stream_id s"] l OpOpen by auto
  then show ?thesis using OpOpen i by (auto simp: cloak_session_open_stream_def Let_def)
next
  case (OpWrite a bs)
  then show ?thesis using write_inv[OF i, of a _ pi v bs] l by auto
next
  case (OpRead a n)
  then obtain e where e: "ss_heap s a = Some e" using l by auto
  from store_inv[OF i e, of "snd (snd (cloak_stream_read (en_stream e) n))"] show ?thesis
    using OpRead e by (auto simp: session_read_def)
next
  case (OpCloseStream a)
  then show ?thesis using close_stream_inv[OF i, of a _ pi v] l by auto
next
  case (OpRelease a)
  then show ?thesis using release_inv[OF i, of a _ pi v] l by auto
next
  case OpClose
  then show ?thesis using calm_inv[OF calm_session_close i] by simp
next
  case OpTimeout
  then show ?thesis using timeout_inv[OF i] by simp
next
  case OpTeardown
  show ?thesis
  proof (cases "ss_teardown s")
    case TdDeferred
    then show ?thesis using OpTeardown i count_pos[of "ss_events s"]
      by (auto simp: session_deferred_teardown_cb_def sess_inv_def life_inv_def)
  next
    case TdSweep
    then show ?thesis using OpTeardown sweep_cb_inv[OF i TdSweep, of pi] by auto
  qed (use l OpTeardown in simp)
qed

lemma init_inv:
  assumes "cloak_session_init pi v sid cfg = (0, Some s)"
  shows "sess_inv s \<and> ss_heap s = Map.empty \<and> ss_events s = []"
proof -
  obtain tb :: "nat strmtab" where t: "cloak_strmtab_init (sv_table v) 16 = (0, tb)" and s: "ss_streams s = tb"
      "ss_active_stream_count s = 0" "ss_heap s = Map.empty" "ss_events s = []" "\<not> ss_closed s" "ss_teardown s = TdNone"
    using assms by (auto simp: cloak_session_init_def CLOAK_SESSION_ERR_INVALID_ORDERING_def session_reschedule_inactivity_timer_def
        split: if_splits prod.splits option.splits)
  have "sv_table v" using t by (auto simp: cloak_strmtab_init_def Let_def split: if_splits)
  then have "strmtab_ok tb" "strmtab_abs tb = Map.empty" using strmtab_init_ok[of 16 0 tb] t by auto
  then show ?thesis using s by (simp add: sess_inv_def life_inv_def mem_inv_def active_ids_def)
qed

lemma reach_inv: "session_reach pi s \<Longrightarrow> sess_inv s"
proof (induction rule: session_reach.induct)
  case (reach_init v sid cfg s)
  then show ?case using init_inv by blast
next
  case (reach_step s v op s')
  then show ?case using exec_inv by (metis option.inject)
qed


section \<open>What a session guarantees\<close>

lemma table_is_heap:
  assumes "sess_inv s"
  shows "cloak_strmtab_lookup (ss_streams s) k = Some (CLOAK_STRMTAB_ACTIVE, Some a)
      \<longleftrightarrow> (\<exists>e. ss_heap s a = Some e \<and> \<not> en_retired e \<and> st_id (en_stream e) = k)"
proof -
  have m: "sess_mem s" using assms by (simp add: sess_inv_def)
  then have lk: "cloak_strmtab_lookup (ss_streams s) k = strmtab_abs (ss_streams s) k" by (simp add: mem_inv_def st.look_abs)
  show ?thesis
    unfolding lk
  proof
    assume "strmtab_abs (ss_streams s) k = Some (CLOAK_STRMTAB_ACTIVE, Some a)"
    then show "\<exists>e. ss_heap s a = Some e \<and> \<not> en_retired e \<and> st_id (en_stream e) = k"
      using m unfolding mem_inv_def by blast
  next
    assume "\<exists>e. ss_heap s a = Some e \<and> \<not> en_retired e \<and> st_id (en_stream e) = k"
    then obtain e where "ss_heap s a = Some e" "\<not> en_retired e" "st_id (en_stream e) = k" by blast
    then show "strmtab_abs (ss_streams s) k = Some (CLOAK_STRMTAB_ACTIVE, Some a)"
      using m by (auto simp: mem_inv_def)
  qed
qed

lemma mem_inv_count:
  assumes "mem_inv tb hp n"
  shows "n = of_nat (card {a. \<exists>e. hp a = Some e \<and> \<not> en_retired e})"
proof -
  let ?A = "{a. \<exists>e. hp a = Some e \<and> \<not> en_retired e}"
  note inv = assms[unfolded mem_inv_def]
  have heap: "strmtab_abs tb (st_id (en_stream e)) = Some (CLOAK_STRMTAB_ACTIVE, Some a)" if "hp a = Some e" "\<not> en_retired e" for a e
    by (rule inv[THEN conjunct2, THEN conjunct2, THEN conjunct1, rule_format, OF that])
  have table: "\<exists>a e. val = Some a \<and> hp a = Some e \<and> \<not> en_retired e \<and> st_id (en_stream e) = k"
    if "strmtab_abs tb k = Some (CLOAK_STRMTAB_ACTIVE, val)" for k val
    by (rule inv[THEN conjunct2, THEN conjunct1, rule_format, OF that])
  have n: "n = of_nat (card (active_ids tb))" by (rule inv[THEN conjunct2, THEN conjunct2, THEN conjunct2])
  have "bij_betw (\<lambda>k. the (snd (the (strmtab_abs tb k)))) (active_ids tb) ?A"
  proof (rule bij_betw_byWitness[where f' = "\<lambda>a. st_id (en_stream (the (hp a)))"])
    have act: "\<exists>a e. strmtab_abs tb k = Some (CLOAK_STRMTAB_ACTIVE, Some a) \<and> hp a = Some e \<and> \<not> en_retired e \<and> st_id (en_stream e) = k"
      if k: "k \<in> active_ids tb" for k
    proof -
      obtain val where val: "strmtab_abs tb k = Some (CLOAK_STRMTAB_ACTIVE, val)" using k by (auto simp: active_ids_def)
      from table[OF val] obtain a e where "val = Some a" "hp a = Some e" "\<not> en_retired e" "st_id (en_stream e) = k" by (elim exE conjE)
      then show ?thesis using val by (intro exI[of _ a] exI[of _ e]) simp
    qed
    have back_id: "st_id (en_stream (the (hp (the (snd (the (strmtab_abs tb k))))))) = k \<and> the (snd (the (strmtab_abs tb k))) \<in> ?A"
      if "k \<in> active_ids tb" for k
      by (rule exE[OF act[OF that]], elim exE conjE) simp
    have back_addr: "the (snd (the (strmtab_abs tb (st_id (en_stream (the (hp a))))))) = a \<and> st_id (en_stream (the (hp a))) \<in> active_ids tb"
      if A: "a \<in> ?A" for a
    proof -
      obtain e where e: "hp a = Some e" "\<not> en_retired e" using A by (elim CollectE exE conjE)
      show ?thesis using heap[OF e] active_idsD[OF heap[OF e]] e(1) by simp
    qed
    show "\<forall>k \<in> active_ids tb. st_id (en_stream (the (hp (the (snd (the (strmtab_abs tb k))))))) = k"
      by (rule ballI) (rule back_id[THEN conjunct1])
    show "\<forall>a \<in> ?A. the (snd (the (strmtab_abs tb (st_id (en_stream (the (hp a))))))) = a"
      by (rule ballI) (rule back_addr[THEN conjunct1])
    show "(\<lambda>k. the (snd (the (strmtab_abs tb k)))) ` active_ids tb \<subseteq> ?A"
      by (rule image_subsetI) (rule back_id[THEN conjunct2])
    show "(\<lambda>a. st_id (en_stream (the (hp a)))) ` ?A \<subseteq> active_ids tb"
      by (rule image_subsetI) (rule back_addr[THEN conjunct2])
  qed
  from bij_betw_same_card[OF this] show ?thesis using n by simp
qed

lemma counter_is_heap: "sess_inv s \<Longrightarrow> ss_active_stream_count s = of_nat (card {a. \<exists>e. ss_heap s a = Some e \<and> \<not> en_retired e})"
  unfolding sess_inv_def by (erule conjE) (rule mem_inv_count)

definition list_pool :: "bytes list pool_if" where
  \<comment> \<open>a pool that keeps the frames it was given\<close>
  "list_pool = \<lparr>pi_init = (\<lambda>m c. Some []), pi_send = (\<lambda>p bs. (0, False, p @ [bs])), pi_add = (\<lambda>p fd fr. (0, p)),
     pi_close_all = (\<lambda>p. p), pi_destroy = (\<lambda>p. p)\<rparr>"

definition sample_sess_env :: sess_env where
  "sample_sess_env = \<lparr>sv_mem = sample_mem, sv_entry = Some 100, sv_table = True, sv_timer = True, sv_evp = toy_evp,
     sv_r = (\<lambda>_. toy_entropy 5 1), sv_r0 = toy_entropy 5 1\<rparr>"

definition sample_session_config :: session_config where
  "sample_session_config = \<lparr>sc_ordering = CLOAK_SESSION_ORDERING_ORDERED, sc_obfuscator = sample_obfuscator CLOAK_AEAD_AES_256_GCM,
     sc_max_on_wire_size = 300, sc_stream_recv_capacity = 400, sc_stream_max_pending = 8, sc_conn_send_queue_cap = 5000,
     sc_inactivity_ms = 30000\<rparr>"

lemma sample_session_starts: "\<exists>s. cloak_session_init list_pool sample_sess_env 9 sample_session_config = (0, Some s)
    \<and> \<not> ss_closed s \<and> ss_inactivity_timer s"
proof -
  obtain tb :: "nat strmtab" where "cloak_strmtab_init True 16 = (0, tb)"
    by (auto simp: cloak_strmtab_init_def Let_def)
  then show ?thesis
    by (simp add: cloak_session_init_def sample_session_config_def sample_sess_env_def list_pool_def frame_consts conn_consts
        session_reschedule_inactivity_timer_def)
qed

lemma sample_session_opens:
  "\<exists>s s'. session_reach list_pool s \<and> session_legal sample_sess_env OpOpen s
     \<and> session_exec list_pool sample_sess_env OpOpen s = Some s' \<and> \<not> ss_closed s'"
proof -
  obtain s where s: "cloak_session_init list_pool sample_sess_env 9 sample_session_config = (0, Some s)" "\<not> ss_closed s"
    using sample_session_starts by blast
  have i: "sess_inv s" "ss_heap s = Map.empty" using init_inv[OF s(1)] by auto
  then have l: "session_legal sample_sess_env OpOpen s" by simp
  obtain s' where "session_exec list_pool sample_sess_env OpOpen s = Some s'" using exec_inv[OF i(1) l] by blast
  moreover have "\<not> ss_closed s'" using calculation s(2)
    by (auto simp: cloak_session_open_stream_def session_new_stream_def Let_def split: option.splits prod.splits if_splits)
  ultimately show ?thesis using reach_init[OF s(1)] l by blast
qed



text \<open>
  C35: the life cycle. In every reachable state the owner's broken callback has run at most once and only if the session is closed;
  a closed session has no inactivity timer armed; and teardown is pending only after closing, the second
  of its two callbacks being the only one that can still be pending once the owner was told.
\<close>

theorem session_broken_once:
  assumes "session_reach pi s"
  shows "count_list (ss_events s) EvBroken \<le> 1 \<and> (EvBroken \<in> set (ss_events s) \<longrightarrow> ss_closed s \<and> ss_teardown s \<noteq> TdDeferred)
     \<and> (ss_closed s \<longrightarrow> \<not> ss_inactivity_timer s) \<and> (ss_teardown s \<noteq> TdNone \<longrightarrow> ss_closed s)"
  using reach_inv[OF assms] by (simp add: sess_inv_def life_inv_def)

theorem session_broken_once_witness:
  "\<exists>s. session_reach list_pool s \<and> count_list (ss_events s) EvBroken \<le> 1 \<and> \<not> ss_closed s"
  using sample_session_starts session_broken_once reach_init by metis

lemma close_starts_teardown:
  assumes "\<not> ss_closed s" "sv_timer v"
  shows "ss_teardown (snd (cloak_session_close pi v s)) = TdDeferred" "ss_closed (snd (cloak_session_close pi v s))"
proof -
  let ?s1 = "s\<lparr>ss_closed := True, ss_inactivity_timer := False\<rparr>"
  have "calm ?s1 (session_send_closing_session_frame pi v ?s1)" by (rule calm_closing_frame)
  then show "ss_teardown (snd (cloak_session_close pi v s)) = TdDeferred" "ss_closed (snd (cloak_session_close pi v s))"
    using assms by (auto simp: cloak_session_close_def session_close_internal_def session_schedule_deferred_teardown_def calm_def)
qed

text \<open>
  C36: closing completes. Closing an open session whose timers can be armed is followed by exactly two timer callbacks: the
  first tells the owner, the second frees every stream that was not retired, and only those, so that what is
  left on the heap is what the owner still holds; the counter is then 0 and nothing is pending.
\<close>

theorem session_close_frees:
  assumes "session_reach pi s" "\<not> ss_closed s" "sv_timer v"
  shows "\<exists>s1 s2 s3. session_exec pi v OpClose s = Some s1 \<and> session_exec pi v OpTeardown s1 = Some s2
     \<and> session_exec pi v OpTeardown s2 = Some s3
     \<and> ss_events s3 = ss_events s @ [EvBroken] \<and> ss_active_stream_count s3 = 0 \<and> ss_teardown s3 = TdNone \<and> ss_closed s3
     \<and> (\<forall>a e. ss_heap s3 a = Some e \<longleftrightarrow> ss_heap s a = Some e \<and> en_retired e)"
proof -
  define s1 where "s1 = snd (cloak_session_close pi v s)"
  note t = close_starts_teardown[OF assms(2,3), of pi, folded s1_def]
  have c: "calm s s1" unfolding s1_def by (rule calm_session_close)
  have i: "sess_inv s1" by (rule calm_inv[OF c reach_inv[OF assms(1)]])
  define s2 where "s2 = session_deferred_teardown_cb v s1"
  have s2: "session_exec pi v OpTeardown s1 = Some s2" using t by (simp add: s2_def)
  have f2: "ss_teardown s2 = TdSweep" "ss_closed s2" "ss_events s2 = ss_events s1 @ [EvBroken]" "ss_heap s2 = ss_heap s1"
    using assms(3) t by (simp_all add: s2_def session_deferred_teardown_cb_def)
  have i2: "sess_inv s2" using exec_inv[OF i, of v OpTeardown pi] t s2 by auto
  then have "sess_inv (s2\<lparr>ss_teardown := TdNone\<rparr>)" by (auto simp: sess_inv_def life_inv_def)
  from sweep_inv[OF this] obtain s3 where s3: "session_free_all_active_streams (s2\<lparr>ss_teardown := TdNone\<rparr>) = Some s3"
    "ss_events s3 = ss_events s2" "ss_closed s3 = ss_closed s2" "ss_teardown s3 = TdNone" "ss_active_stream_count s3 = 0"
    "\<forall>a e. ss_heap s3 a = Some e \<longleftrightarrow> ss_heap s2 a = Some e \<and> en_retired e" by auto
  show ?thesis
    using s2 s3 f2 c
    by (intro exI[of _ s1] exI[of _ s2] exI[of _ "s3\<lparr>ss_pool := pi_close_all pi (ss_pool s3)\<rparr>"])
       (simp add: s1_def[symmetric] session_teardown_sweep_cb_def calm_def)
qed

theorem session_close_frees_witness:
  "\<exists>s s1 s2 s3. session_exec list_pool sample_sess_env OpClose s = Some s1 \<and> session_exec list_pool sample_sess_env OpTeardown s1 = Some s2
     \<and> session_exec list_pool sample_sess_env OpTeardown s2 = Some s3 \<and> ss_events s3 = ss_events s @ [EvBroken]
     \<and> ss_active_stream_count s3 = 0"
proof -
  obtain s s' where s: "session_reach list_pool s" "session_legal sample_sess_env OpOpen s"
    "session_exec list_pool sample_sess_env OpOpen s = Some s'" "\<not> ss_closed s'" using sample_session_opens by blast
  have "sv_timer sample_sess_env" by (simp add: sample_sess_env_def)
  from session_close_frees[OF reach_step[OF s(1-3)] s(4) this] show ?thesis by blast
qed

text \<open>
  C37: an envelope from the network only reaches the stream it names. Whatever bytes arrive in any reachable state, the call returns, and every
  stream that was already retired, and every stream whose id is not the one in the authenticated
  frame, is exactly as it was, buffered data included.
\<close>

theorem session_envelope_isolated:
  assumes "session_reach pi s" "\<forall>a. sv_entry v = Some a \<longrightarrow> ss_heap s a = None"
  shows "\<exists>s'. session_on_envelope v s bs = Some s'
     \<and> (\<forall>a e. ss_heap s a = Some e \<and> (en_retired e \<or> (\<forall>f. cloak_frame_deobfuscate (sv_evp v) (ss_obfuscator s) bs = Some f
             \<longrightarrow> fr_stream_id f \<noteq> st_id (en_stream e))) \<longrightarrow> ss_heap s' a = Some e)"
  using envelope_inv[OF reach_inv[OF assms(1)] assms(2)] by blast

theorem session_envelope_isolated_witness:
  "\<exists>s s'. session_reach list_pool s \<and> session_on_envelope sample_sess_env s [1, 2, 3] = Some s'
     \<and> (\<forall>a e. ss_heap s a = Some e \<and> en_retired e \<longrightarrow> ss_heap s' a = Some e)"
proof -
  obtain s where s: "cloak_session_init list_pool sample_sess_env 9 sample_session_config = (0, Some s)" "\<not> ss_closed s"
    using sample_session_starts by blast
  have "\<forall>a. sv_entry sample_sess_env = Some a \<longrightarrow> ss_heap s a = None" using init_inv[OF s(1)] by auto
  from session_envelope_isolated[OF reach_init[OF s(1)] this, of "[1, 2, 3]"] show ?thesis using reach_init[OF s(1)] by blast
qed

end
