(* ===== verification/ReplayCache.thy ===== *)
theory ReplayCache
  imports CloakRandom
begin

text \<open>
  \<open>libcloak-server/src/replay_cache.c\<close> and the keyed hash of \<open>libcloak-server/src/hash_internal.h\<close>: the table of
  recently seen handshake randoms, one slot per hash value, overwritten on collision.

  The two SipHash-2-4 implementations of the server are both modelled, the macro version over four local variables
  and the header version over an array, and proved equal on the 32-byte inputs they share. Unix times are \<open>int64_t\<close>
  values of the process clock and are \<^typ>\<open>int\<close> here.
\<close>

section \<open>SipHash-2-4, the copy in \<open>replay_cache.c\<close>\<close>

definition SIP_ROTL :: "u64 \<Rightarrow> nat \<Rightarrow> u64" where
  "SIP_ROTL x b = push_bit b x OR drop_bit (64 - b) x"

type_synonym sip_state = "u64 \<times> u64 \<times> u64 \<times> u64"

definition SIP_ROUND :: "sip_state \<Rightarrow> sip_state" where
  "SIP_ROUND = (\<lambda>(v0, v1, v2, v3).
     let v0 = v0 + v1;
         v1 = SIP_ROTL v1 13;
         v1 = v1 XOR v0;
         v0 = SIP_ROTL v0 32;
         v2 = v2 + v3;
         v3 = SIP_ROTL v3 16;
         v3 = v3 XOR v2;
         v0 = v0 + v3;
         v3 = SIP_ROTL v3 21;
         v3 = v3 XOR v0;
         v2 = v2 + v1;
         v1 = SIP_ROTL v1 17;
         v1 = v1 XOR v2;
         v2 = SIP_ROTL v2 32
     in (v0, v1, v2, v3))"

definition sip_load_le64 :: "bytes \<Rightarrow> u64" where
  "sip_load_le64 p = ucast (p ! 0) OR push_bit 8 (ucast (p ! 1)) OR push_bit 16 (ucast (p ! 2))
     OR push_bit 24 (ucast (p ! 3)) OR push_bit 32 (ucast (p ! 4)) OR push_bit 40 (ucast (p ! 5))
     OR push_bit 48 (ucast (p ! 6)) OR push_bit 56 (ucast (p ! 7))"

definition sip_absorb :: "u64 \<Rightarrow> sip_state \<Rightarrow> sip_state" where
  \<comment> \<open>the body both loops repeat: \<open>v3 ^= m\<close>, two rounds, \<open>v0 ^= m\<close>\<close>
  "sip_absorb m = (\<lambda>(v0, v1, v2, v3).
     case SIP_ROUND (SIP_ROUND (v0, v1, v2, v3 XOR m)) of (v0, v1, v2, v3) \<Rightarrow> (v0 XOR m, v1, v2, v3))"

definition siphash24_32 :: "bytes \<Rightarrow> bytes \<Rightarrow> u64" where
  "siphash24_32 k inp =
     (let k0 = sip_load_le64 k;
          k1 = sip_load_le64 (drop 8 k);
          v = (0x736f6d6570736575 XOR k0, 0x646f72616e646f6d XOR k1, 0x6c7967656e657261 XOR k0, 0x7465646279746573 XOR k1);
          v = fold (\<lambda>i. sip_absorb (sip_load_le64 (drop (i * 8) inp))) [0..<4] v;
          v = sip_absorb (push_bit 56 32) v
      in case v of (v0, v1, v2, v3) \<Rightarrow>
           case SIP_ROUND (SIP_ROUND (SIP_ROUND (SIP_ROUND (v0, v1, v2 XOR 0xff, v3)))) of
             (v0, v1, v2, v3) \<Rightarrow> v0 XOR v1 XOR v2 XOR v3)"

section \<open>SipHash-2-4, the copy in \<open>hash_internal.h\<close>\<close>

definition cloak_sip_load_le64 :: "bytes \<Rightarrow> u64" where
  "cloak_sip_load_le64 p = ucast (p ! 0) OR push_bit 8 (ucast (p ! 1)) OR push_bit 16 (ucast (p ! 2))
     OR push_bit 24 (ucast (p ! 3)) OR push_bit 32 (ucast (p ! 4)) OR push_bit 40 (ucast (p ! 5))
     OR push_bit 48 (ucast (p ! 6)) OR push_bit 56 (ucast (p ! 7))"

definition cloak_sip_rotl :: "u64 \<Rightarrow> nat \<Rightarrow> u64" where
  "cloak_sip_rotl x b = push_bit b x OR drop_bit (64 - b) x"

definition cloak_sip_round :: "u64 list \<Rightarrow> u64 list" where
  "cloak_sip_round v =
     (let v = v[0 := v ! 0 + v ! 1];
          v = v[1 := cloak_sip_rotl (v ! 1) 13];
          v = v[1 := v ! 1 XOR v ! 0];
          v = v[0 := cloak_sip_rotl (v ! 0) 32];
          v = v[2 := v ! 2 + v ! 3];
          v = v[3 := cloak_sip_rotl (v ! 3) 16];
          v = v[3 := v ! 3 XOR v ! 2];
          v = v[0 := v ! 0 + v ! 3];
          v = v[3 := cloak_sip_rotl (v ! 3) 21];
          v = v[3 := v ! 3 XOR v ! 0];
          v = v[2 := v ! 2 + v ! 1];
          v = v[1 := cloak_sip_rotl (v ! 1) 17];
          v = v[1 := v ! 1 XOR v ! 2]
      in v[2 := cloak_sip_rotl (v ! 2) 32])"

definition sip_block :: "u64 \<Rightarrow> u64 list \<Rightarrow> u64 list" where
  "sip_block m v =
     (let v = v[3 := v ! 3 XOR m]; v = cloak_sip_round v; v = cloak_sip_round v in v[0 := v ! 0 XOR m])"

definition cloak_siphash24 :: "bytes \<Rightarrow> bytes \<Rightarrow> u64" where
  "cloak_siphash24 k inp =
     (let k0 = cloak_sip_load_le64 k;
          k1 = cloak_sip_load_le64 (drop 8 k);
          v = [0x736f6d6570736575 XOR k0, 0x646f72616e646f6d XOR k1, 0x6c7967656e657261 XOR k0, 0x7465646279746573 XOR k1];
          blocks = length inp div 8;
          v = fold (\<lambda>i. sip_block (cloak_sip_load_le64 (drop (i * 8) inp))) [0..<blocks] v;
          tail = drop (blocks * 8) inp;
          b = fold (\<lambda>i b. b OR push_bit (8 * i) (ucast (tail ! i))) [0..<length inp AND 7] (push_bit 56 (of_nat (length inp)));
          v = sip_block b v;
          v = v[2 := v ! 2 XOR 0xff];
          v = cloak_sip_round (cloak_sip_round (cloak_sip_round (cloak_sip_round v)))
      in v ! 0 XOR v ! 1 XOR v ! 2 XOR v ! 3)"

section \<open>The cache\<close>

record replay_slot =
  rs_key :: bytes
  rs_inserted_at :: int

record replay_cache =
  rc_slots :: "replay_slot list"
  rc_capacity :: nat
  rc_hash_key :: bytes

definition empty_replay_slot :: replay_slot where
  "empty_replay_slot = \<lparr>rs_key = replicate 32 0, rs_inserted_at = 0\<rparr>"

definition cloak_replay_cache_init :: "bool \<Rightarrow> entropy \<Rightarrow> nat \<Rightarrow> replay_cache option" where
  \<comment> \<open>\<open>calloc_ok\<close> is whether the allocation succeeds; \<^const>\<open>None\<close> is the -1 return\<close>
  "cloak_replay_cache_init calloc_ok r capacity =
     (if capacity = 0 then None
      else if \<not> calloc_ok then None
      else Some \<lparr>rc_slots = replicate capacity empty_replay_slot, rc_capacity = capacity, rc_hash_key = rnd_bytes r 16\<rparr>)"

definition cloak_replay_cache_destroy :: "replay_cache \<Rightarrow> replay_cache" where
  "cloak_replay_cache_destroy cache = cache\<lparr>rc_slots := [], rc_capacity := 0, rc_hash_key := replicate 16 0\<rparr>"

definition replay_slot_idx :: "replay_cache \<Rightarrow> bytes \<Rightarrow> nat" where
  "replay_slot_idx cache key = unat (siphash24_32 (rc_hash_key cache) key) mod rc_capacity cache"

definition cloak_replay_cache_check_and_insert :: "replay_cache \<Rightarrow> bytes \<Rightarrow> int \<Rightarrow> int \<Rightarrow> int \<times> replay_cache" where
  "cloak_replay_cache_check_and_insert cache key now_unix age_limit =
     (if rc_capacity cache = 0 then (0, cache)
      else
        let slot_idx = replay_slot_idx cache key;
            slot = rc_slots cache ! slot_idx;
            age = now_unix - rs_inserted_at slot
        in
        if rs_inserted_at slot \<noteq> 0 \<and> rs_key slot = key \<and> age \<ge> 0 \<and> age < age_limit then (1, cache)
        else (0, cache\<lparr>rc_slots := (rc_slots cache)[slot_idx := \<lparr>rs_key = key, rs_inserted_at = now_unix\<rparr>]\<rparr>))"

section \<open>Lemmas\<close>

definition sip_list :: "sip_state \<Rightarrow> u64 list" where
  "sip_list = (\<lambda>(a, b, c, d). [a, b, c, d])"

lemma sip_rotl_eq: "cloak_sip_rotl = SIP_ROTL"
  by (simp add: fun_eq_iff cloak_sip_rotl_def SIP_ROTL_def)

lemma sip_load_eq: "cloak_sip_load_le64 = sip_load_le64"
  by (simp add: fun_eq_iff cloak_sip_load_le64_def sip_load_le64_def)

lemma sip_round_eq: "cloak_sip_round (sip_list s) = sip_list (SIP_ROUND s)"
  by (cases s) (simp add: sip_list_def cloak_sip_round_def SIP_ROUND_def Let_def sip_rotl_eq numeral_2_eq_2 numeral_3_eq_3)

lemma sip_block_eq: "sip_block m (sip_list s) = sip_list (sip_absorb m s)"
proof -
  obtain a b c d where s: "s = (a, b, c, d)" by (metis prod_cases4)
  obtain a' b' c' d' where r: "SIP_ROUND (SIP_ROUND (a, b, c, d XOR m)) = (a', b', c', d')" by (metis prod_cases4)
  have u: "(sip_list (a, b, c, d))[3 := sip_list (a, b, c, d) ! 3 XOR m] = sip_list (a, b, c, d XOR m)"
    by (simp add: sip_list_def numeral_3_eq_3)
  show ?thesis
    unfolding s sip_block_def Let_def u sip_round_eq r sip_absorb_def prod.case by (simp add: sip_list_def)
qed

lemma sip_fold_eq:
  "fold (\<lambda>i. sip_block (f i)) is (sip_list s) = sip_list (fold (\<lambda>i. sip_absorb (f i)) is s)"
  by (induct "is" arbitrary: s) (simp_all add: sip_block_eq)

text \<open>
  The two SipHash-2-4 implementations agree: on every 32-byte input and every key the array version of
  \<open>hash_internal.h\<close> computes what the specialised version of \<open>replay_cache.c\<close> computes.
\<close>

theorem siphash_copies_agree:
  assumes "length inp = 32"
  shows "cloak_siphash24 k inp = siphash24_32 k inp"
proof -
  have fin: "(let v = (sip_list s)[2 := sip_list s ! 2 XOR 0xff];
        v = cloak_sip_round (cloak_sip_round (cloak_sip_round (cloak_sip_round v)))
      in v ! 0 XOR v ! 1 XOR v ! 2 XOR v ! 3)
    = (case s of (v0, v1, v2, v3) \<Rightarrow>
        case SIP_ROUND (SIP_ROUND (SIP_ROUND (SIP_ROUND (v0, v1, v2 XOR 0xff, v3)))) of
          (v0, v1, v2, v3) \<Rightarrow> v0 XOR v1 XOR v2 XOR v3)" for s
  proof -
    obtain a b c d where s: "s = (a, b, c, d)" by (metis prod_cases4)
    obtain a' b' c' d' where r: "SIP_ROUND (SIP_ROUND (SIP_ROUND (SIP_ROUND (a, b, c XOR 0xff, d)))) = (a', b', c', d')"
      by (metis prod_cases4)
    have u: "(sip_list (a, b, c, d))[2 := sip_list (a, b, c, d) ! 2 XOR 0xff] = sip_list (a, b, c XOR 0xff, d)"
      by (simp add: sip_list_def numeral_2_eq_2)
    show ?thesis unfolding s Let_def u sip_round_eq r prod.case by (simp add: sip_list_def numeral_2_eq_2 numeral_3_eq_3)
  qed
  have z: "(32 :: nat) AND 7 = 0" "(32 :: nat) div 8 = 4" by simp_all
  have v: "[a, b, c, d] = sip_list (a, b, c, d)" for a b c d by (simp add: sip_list_def)
  show ?thesis
    unfolding cloak_siphash24_def siphash24_32_def assms z sip_load_eq v Let_def upt_0 fold_simps sip_fold_eq sip_block_eq
      fin[unfolded Let_def] of_nat_numeral by (rule refl)
qed

theorem siphash_copies_agree_witness:
  "cloak_siphash24 (replicate 16 1) (replicate 32 7) = siphash24_32 (replicate 16 1) (replicate 32 7)"
  using siphash_copies_agree[of "replicate 32 7" "replicate 16 1"] by simp

section \<open>What the cache promises\<close>

definition replay_cache_ok :: "replay_cache \<Rightarrow> bool" where
  "replay_cache_ok c \<longleftrightarrow> 0 < rc_capacity c \<and> length (rc_slots c) = rc_capacity c"

text \<open>A handshake the cache sees: the random, the clock and the age limit in force.\<close>

record sighting =
  sg_key :: bytes
  sg_now :: int
  sg_limit :: int

abbreviation see :: "replay_cache \<Rightarrow> sighting \<Rightarrow> int \<times> replay_cache" where
  "see c s \<equiv> cloak_replay_cache_check_and_insert c (sg_key s) (sg_now s) (sg_limit s)"

fun replay_run :: "replay_cache \<Rightarrow> sighting list \<Rightarrow> (sighting \<times> int) list \<times> replay_cache" where
  "replay_run c [] = ([], c)"
| "replay_run c (s # ss) = (case see c s of (v, c1) \<Rightarrow> case replay_run c1 ss of (vs, c2) \<Rightarrow> ((s, v) # vs, c2))"

lemma replay_run_Cons [simp]:
  "fst (replay_run c (s # ss)) = (s, fst (see c s)) # fst (replay_run (snd (see c s)) ss)"
  "snd (replay_run c (s # ss)) = snd (replay_run (snd (see c s)) ss)"
  by (simp_all add: case_prod_beta)

declare replay_run.simps(2) [simp del]

lemma see_frame [simp]:
  "rc_capacity (snd (see c s)) = rc_capacity c" "rc_hash_key (snd (see c s)) = rc_hash_key c"
  "length (rc_slots (snd (see c s))) = length (rc_slots c)"
  by (simp_all add: cloak_replay_cache_check_and_insert_def Let_def)

lemma slot_idx_see [simp]: "replay_slot_idx (snd (see c s)) k = replay_slot_idx c k"
  by (simp add: replay_slot_idx_def)

lemma see_ok [inv_intros]: "replay_cache_ok c \<Longrightarrow> replay_cache_ok (snd (see c s))"
  by (simp add: replay_cache_ok_def)

lemma slot_idx_less: "replay_cache_ok c \<Longrightarrow> replay_slot_idx c k < length (rc_slots c)"
  by (simp add: replay_cache_ok_def replay_slot_idx_def)

lemma see_verdict:
  "replay_cache_ok c \<Longrightarrow> fst (see c s) = 1 \<longleftrightarrow>
     (let sl = rc_slots c ! replay_slot_idx c (sg_key s) in rs_inserted_at sl \<noteq> 0 \<and> rs_key sl = sg_key s
        \<and> 0 \<le> sg_now s - rs_inserted_at sl \<and> sg_now s - rs_inserted_at sl < sg_limit s)"
  by (auto simp: cloak_replay_cache_check_and_insert_def replay_cache_ok_def Let_def)

lemma see_slots:
  assumes "replay_cache_ok c"
  shows "rc_slots (snd (see c s)) = (if fst (see c s) = 1 then rc_slots c
     else (rc_slots c)[replay_slot_idx c (sg_key s) := \<lparr>rs_key = sg_key s, rs_inserted_at = sg_now s\<rparr>])"
  using assms by (auto simp: cloak_replay_cache_check_and_insert_def replay_cache_ok_def Let_def)

lemma replay_run_ok [inv_intros]: "replay_cache_ok c \<Longrightarrow> replay_cache_ok (snd (replay_run c ss))"
  by (induction ss arbitrary: c) (simp_all add: see_ok)

text \<open>Every occupied slot was written by an accepted sighting of the run so far.\<close>

definition justified :: "(sighting \<times> int) list \<Rightarrow> replay_cache \<Rightarrow> bool" where
  "justified hist c \<longleftrightarrow> (\<forall>sl \<in> set (rc_slots c). rs_inserted_at sl \<noteq> 0 \<longrightarrow>
     (\<exists>s. (s, 0) \<in> set hist \<and> sg_key s = rs_key sl \<and> sg_now s = rs_inserted_at sl))"

lemma justified_see:
  assumes "replay_cache_ok c" "justified hist c"
  shows "justified (hist @ [(s, fst (see c s))]) (snd (see c s))"
proof (cases "fst (see c s) = 1")
  case True
  then show ?thesis using assms see_slots[OF assms(1), of s] by (fastforce simp: justified_def)
next
  case False
  then have z: "fst (see c s) = 0"
    by (auto simp: cloak_replay_cache_check_and_insert_def Let_def split: if_splits)
  have "set (rc_slots (snd (see c s))) \<subseteq> insert \<lparr>rs_key = sg_key s, rs_inserted_at = sg_now s\<rparr> (set (rc_slots c))"
    using see_slots[OF assms(1), of s] False set_update_subset_insert by force
  then show ?thesis using assms(2) z unfolding justified_def by (fastforce)
qed

lemma justified_run:
  "replay_cache_ok c \<Longrightarrow> justified hist c \<Longrightarrow> justified (hist @ fst (replay_run c ss)) (snd (replay_run c ss))"
proof (induction ss arbitrary: c hist)
  case (Cons s ss)
  from Cons.IH[OF see_ok[OF Cons.prems(1), of s] justified_see[OF Cons.prems, of s]] show ?case by simp
qed simp

text \<open>
  C39: the replay cache never turns away a handshake that was not seen before. Whatever sequence of handshakes a
  freshly initialised cache has processed, if it reports the next one as a replay, then an earlier handshake of the
  sequence with the same random was let through, and it is younger than the age limit.
\<close>

theorem replay_only_if_seen:
  assumes "cloak_replay_cache_init calloc_ok r capacity = Some c" "replay_run c ss = (hist, c1)"
    and "fst (cloak_replay_cache_check_and_insert c1 key now lim) = 1"
  shows "\<exists>s. (s, 0) \<in> set hist \<and> sg_key s = key \<and> 0 \<le> now - sg_now s \<and> now - sg_now s < lim"
proof -
  have c: "replay_cache_ok c" "justified [] c"
    using assms(1) by (auto simp: cloak_replay_cache_init_def replay_cache_ok_def justified_def empty_replay_slot_def
        split: if_splits)
  have c1: "replay_cache_ok c1" "justified hist c1"
    using replay_run_ok[OF c(1), of ss] justified_run[OF c, of ss] assms(2) by auto
  let ?s = "\<lparr>sg_key = key, sg_now = now, sg_limit = lim\<rparr>"
  let ?sl = "rc_slots c1 ! replay_slot_idx c1 key"
  have v: "rs_inserted_at ?sl \<noteq> 0" "rs_key ?sl = key" "0 \<le> now - rs_inserted_at ?sl" "now - rs_inserted_at ?sl < lim"
    using see_verdict[OF c1(1), of ?s] assms(3) by (simp_all add: Let_def)
  have "?sl \<in> set (rc_slots c1)" using slot_idx_less[OF c1(1)] nth_mem by blast
  then show ?thesis using c1(2) v unfolding justified_def by metis
qed

lemma replay_still_cached:
  assumes "replay_cache_ok c" "cloak_replay_cache_check_and_insert c key t0 lim0 = (0, c1)" "t0 \<noteq> 0"
    and "\<forall>s \<in> set ss. replay_slot_idx c (sg_key s) \<noteq> replay_slot_idx c key
           \<or> sg_key s = key \<and> t0 \<le> sg_now s \<and> sg_now s - t0 < sg_limit s"
    and "replay_run c1 ss = (hist, c2)" "t0 \<le> now" "now - t0 < lim"
  shows "fst (cloak_replay_cache_check_and_insert c2 key now lim) = 1"
proof -
  define i where "i = replay_slot_idx c key"
  define kept where "kept d \<longleftrightarrow> replay_cache_ok d \<and> replay_slot_idx d = replay_slot_idx c
     \<and> rc_slots d ! i = \<lparr>rs_key = key, rs_inserted_at = t0\<rparr>" for d
  let ?s0 = "\<lparr>sg_key = key, sg_now = t0, sg_limit = lim0\<rparr>"
  have c1: "c1 = snd (see c ?s0)" "fst (see c ?s0) = 0" using assms(2) by simp_all
  have k1: "kept c1"
    using see_ok[OF assms(1), of ?s0] see_slots[OF assms(1), of ?s0] c1 slot_idx_less[OF assms(1), of key]
    by (simp add: kept_def i_def fun_eq_iff slot_idx_see[of c ?s0, simplified])
  have "kept (snd (replay_run d ss))" if "kept d" for d
    using that assms(4)
  proof (induction ss arbitrary: d)
    case (Cons s ss)
    have ok: "replay_cache_ok d" and idx: "replay_slot_idx d = replay_slot_idx c"
      and sl: "rc_slots d ! i = \<lparr>rs_key = key, rs_inserted_at = t0\<rparr>" using Cons.prems(1) by (auto simp: kept_def)
    have "rc_slots (snd (see d s)) ! i = rc_slots d ! i"
    proof (cases "fst (see d s) = 1")
      case False
      have "replay_slot_idx c (sg_key s) \<noteq> i"
      proof
        assume "replay_slot_idx c (sg_key s) = i"
        then have "sg_key s = key" "t0 \<le> sg_now s" "sg_now s - t0 < sg_limit s" using Cons.prems(2) by (auto simp: i_def)
        then show False using see_verdict[OF ok, of s] False sl idx assms(3) by (simp add: i_def[symmetric])
      qed
      then show ?thesis using see_slots[OF ok, of s] False idx by simp
    qed (simp add: see_slots[OF ok])
    then have "kept (snd (see d s))" using see_ok[OF ok, of s] idx sl by (simp add: kept_def fun_eq_iff)
    then show ?case using Cons by simp
  qed simp
  from this[OF k1] have "kept c2" using assms(5) by simp
  then show ?thesis
    using see_verdict[of c2 "\<lparr>sg_key = key, sg_now = now, sg_limit = lim\<rparr>"] assms(3,6,7) by (simp add: kept_def i_def)
qed

text \<open>
  C40: a replay is caught as long as its slot has not been overwritten. Once a handshake random has been let through at
  a nonzero time, it is reported as a replay at every time up to the age limit, after any further handshakes that hash to
  other slots or that replay the same random within their own age limit: those do not refresh its entry.
\<close>

theorem replay_caught:
  assumes "replay_cache_ok c" "cloak_replay_cache_check_and_insert c key t0 lim0 = (0, c1)" "t0 \<noteq> 0"
    and "\<forall>s \<in> set ss. replay_slot_idx c (sg_key s) \<noteq> replay_slot_idx c key
           \<or> sg_key s = key \<and> t0 \<le> sg_now s \<and> sg_now s - t0 < sg_limit s"
    and "replay_run c1 ss = (hist, c2)" "t0 \<le> now" "now - t0 < lim"
  shows "fst (cloak_replay_cache_check_and_insert c2 key now lim) = 1"
  by (rule replay_still_cached[OF assms])

definition sample_cache :: replay_cache where
  "sample_cache = \<lparr>rc_slots = replicate 4 empty_replay_slot, rc_capacity = 4, rc_hash_key = replicate 16 0\<rparr>"

lemma sample_cache_init: "cloak_replay_cache_init True (toy_entropy 0 0) 4 = Some sample_cache"
  by (simp add: cloak_replay_cache_init_def sample_cache_def toy_entropy_def)

lemma sample_cache_ok: "replay_cache_ok sample_cache"
  by (simp add: replay_cache_ok_def sample_cache_def)

lemma sample_unseen: "fst (cloak_replay_cache_check_and_insert sample_cache k now lim) = 0"
proof -
  let ?s = "\<lparr>sg_key = k, sg_now = now, sg_limit = lim\<rparr>"
  have "rc_slots sample_cache ! replay_slot_idx sample_cache k = empty_replay_slot"
    using slot_idx_less[OF sample_cache_ok, of k] by (simp add: sample_cache_def)
  then have "fst (see sample_cache ?s) \<noteq> 1" using see_verdict[OF sample_cache_ok, of ?s] by (simp add: empty_replay_slot_def Let_def)
  then show ?thesis by (auto simp: cloak_replay_cache_check_and_insert_def Let_def split: if_splits)
qed

lemma sample_first_seen:
  "cloak_replay_cache_check_and_insert sample_cache (replicate 32 7) 1000 60
     = (0, snd (cloak_replay_cache_check_and_insert sample_cache (replicate 32 7) 1000 60))"
  by (simp add: prod_eq_iff sample_unseen)

theorem replay_caught_witness:
  "fst (cloak_replay_cache_check_and_insert (snd (cloak_replay_cache_check_and_insert sample_cache (replicate 32 7) 1000 60))
      (replicate 32 7) 1059 60) = 1"
  using replay_caught[OF sample_cache_ok sample_first_seen, of "[]" "[]" _ 1059 60] by simp

theorem replay_only_if_seen_witness:
  "\<exists>s. (s, 0) \<in> set (fst (replay_run sample_cache [\<lparr>sg_key = replicate 32 7, sg_now = 1000, sg_limit = 60\<rparr>]))
     \<and> sg_key s = replicate 32 7 \<and> 0 \<le> 1059 - sg_now s \<and> 1059 - sg_now s < 60"
proof -
  let ?s = "\<lparr>sg_key = replicate 32 7, sg_now = 1000, sg_limit = 60\<rparr>"
  have r: "replay_run sample_cache [?s] = (fst (replay_run sample_cache [?s]), snd (replay_run sample_cache [?s]))" by (rule prod.collapse[symmetric])
  have "fst (cloak_replay_cache_check_and_insert (snd (replay_run sample_cache [?s])) (replicate 32 7) 1059 60) = 1"
    using see_verdict[of "snd (see sample_cache ?s)" "\<lparr>sg_key = replicate 32 7, sg_now = 1059, sg_limit = 60\<rparr>"]
      see_slots[OF sample_cache_ok, of ?s] see_ok[OF sample_cache_ok, of ?s] sample_first_seen
      slot_idx_less[OF sample_cache_ok, of "replicate 32 7"] slot_idx_see[of sample_cache ?s]
    by (simp add: Let_def) (metis fst_conv nth_list_update_eq replay_slot.simps(1,2) zero_neq_one)
  then show ?thesis using replay_only_if_seen[OF sample_cache_init r] by blast
qed

end
