(* ===== verification/Firstpacket.thy ===== *)
theory Firstpacket
  imports CloakPrelude
begin

text \<open>
  \<open>libcloak-server/src/firstpacket.c\<close>: the server's accumulator for the first packet of a connection. It decides from the
  first byte whether it is reading a TLS record or an HTTP request, and where that packet ends, without
  reading past it. The buffer of 3000 bytes and its length are one list.
\<close>

definition CLOAK_FIRSTPACKET_MAX :: nat where "CLOAK_FIRSTPACKET_MAX = 3000"
definition TLS_RECORD_HEADER_LEN :: nat where "TLS_RECORD_HEADER_LEN = 5"

datatype firstpacket_status = CLOAK_FIRSTPACKET_NEED_MORE | CLOAK_FIRSTPACKET_DONE | CLOAK_FIRSTPACKET_ERROR

datatype firstpacket_transport =
  CLOAK_FIRSTPACKET_TRANSPORT_UNKNOWN | CLOAK_FIRSTPACKET_TRANSPORT_TLS | CLOAK_FIRSTPACKET_TRANSPORT_WEBSOCKET

record firstpacket =
  fp_buf :: bytes
  fp_transport :: firstpacket_transport
  fp_status :: firstpacket_status
  fp_record_total :: nat
  fp_crlf_state :: nat
  fp_redirect_on_error :: bool

section \<open>Operations\<close>

definition cloak_firstpacket_init :: firstpacket where
  "cloak_firstpacket_init = \<lparr>fp_buf = [], fp_transport = CLOAK_FIRSTPACKET_TRANSPORT_UNKNOWN,
     fp_status = CLOAK_FIRSTPACKET_NEED_MORE, fp_record_total = 0, fp_crlf_state = 0, fp_redirect_on_error = False\<rparr>"

definition cloak_firstpacket_want :: "firstpacket \<Rightarrow> nat" where
  "cloak_firstpacket_want fp =
     (if fp_status fp \<noteq> CLOAK_FIRSTPACKET_NEED_MORE then 0
      else case fp_transport fp of
             CLOAK_FIRSTPACKET_TRANSPORT_UNKNOWN \<Rightarrow> 1
           | CLOAK_FIRSTPACKET_TRANSPORT_TLS \<Rightarrow>
               if length (fp_buf fp) < TLS_RECORD_HEADER_LEN then TLS_RECORD_HEADER_LEN - length (fp_buf fp)
               else fp_record_total fp - length (fp_buf fp)
           | CLOAK_FIRSTPACKET_TRANSPORT_WEBSOCKET \<Rightarrow> 1)"

definition fp_fail :: "firstpacket \<Rightarrow> bool \<Rightarrow> firstpacket" where
  "fp_fail fp redirect = fp\<lparr>fp_status := CLOAK_FIRSTPACKET_ERROR, fp_redirect_on_error := redirect\<rparr>"

definition push_byte :: "firstpacket \<Rightarrow> byte \<Rightarrow> firstpacket option" where
  "push_byte fp b = (if length (fp_buf fp) \<ge> CLOAK_FIRSTPACKET_MAX then None else Some (fp\<lparr>fp_buf := fp_buf fp @ [b]\<rparr>))"

definition fp_byte :: "firstpacket \<Rightarrow> byte \<Rightarrow> bool \<times> firstpacket" where
  \<comment> \<open>one round of the loop; the flag says whether the loop goes on\<close>
  "fp_byte fp b =
     (case push_byte fp b of
        None \<Rightarrow> (False, fp_fail fp True)
      | Some fp1 \<Rightarrow>
          (case fp_transport fp of
             CLOAK_FIRSTPACKET_TRANSPORT_UNKNOWN \<Rightarrow>
               if b = 0x16 then (True, fp1\<lparr>fp_transport := CLOAK_FIRSTPACKET_TRANSPORT_TLS\<rparr>)
               else if b = 0x47 then (True, fp1\<lparr>fp_transport := CLOAK_FIRSTPACKET_TRANSPORT_WEBSOCKET\<rparr>)
               else (False, fp_fail fp1 True)
           | CLOAK_FIRSTPACKET_TRANSPORT_TLS \<Rightarrow>
               let body = unat (be16_load (drop 3 (fp_buf fp1)) :: u32);
                   at_header = (length (fp_buf fp1) = TLS_RECORD_HEADER_LEN);
                   total_len = TLS_RECORD_HEADER_LEN + body
               in
               if at_header \<and> body = 0 then (False, fp_fail fp1 True)
               else if at_header \<and> total_len > CLOAK_FIRSTPACKET_MAX then (False, fp_fail fp1 True)
               else
                 let fp2 = (if at_header then fp1\<lparr>fp_record_total := total_len\<rparr> else fp1) in
                 if fp_record_total fp2 \<noteq> 0 \<and> length (fp_buf fp2) = fp_record_total fp2
                 then (False, fp2\<lparr>fp_status := CLOAK_FIRSTPACKET_DONE\<rparr>)
                 else (True, fp2)
           | CLOAK_FIRSTPACKET_TRANSPORT_WEBSOCKET \<Rightarrow>
               if b = 13 then (True, fp1\<lparr>fp_crlf_state := (if fp_crlf_state fp1 = 2 then 3 else 1)\<rparr>)
               else if b = 10 then
                 (if fp_crlf_state fp1 = 1 then (True, fp1\<lparr>fp_crlf_state := 2\<rparr>)
                  else if fp_crlf_state fp1 = 3 then (False, fp1\<lparr>fp_status := CLOAK_FIRSTPACKET_DONE\<rparr>)
                  else (True, fp1\<lparr>fp_crlf_state := 0\<rparr>))
               else (True, fp1\<lparr>fp_crlf_state := 0\<rparr>)))"

fun fp_loop :: "firstpacket \<Rightarrow> bytes \<Rightarrow> firstpacket" where
  "fp_loop fp [] = fp"
| "fp_loop fp (b # bs) = (case fp_byte fp b of (go_on, fp1) \<Rightarrow> if go_on then fp_loop fp1 bs else fp1)"

definition cloak_firstpacket_feed :: "firstpacket \<Rightarrow> bytes \<Rightarrow> firstpacket_status \<times> firstpacket" where
  "cloak_firstpacket_feed fp data =
     (if fp_status fp \<noteq> CLOAK_FIRSTPACKET_NEED_MORE then (fp_status fp, fp)
      else if data = [] then (fp_status fp, fp)
      else let fp1 = fp_loop fp (take (cloak_firstpacket_want fp) data) in (fp_status fp1, fp1))"

definition cloak_firstpacket_data :: "firstpacket \<Rightarrow> bytes" where
  "cloak_firstpacket_data fp = fp_buf fp"

definition cloak_firstpacket_len :: "firstpacket \<Rightarrow> nat" where
  "cloak_firstpacket_len fp = length (fp_buf fp)"

definition cloak_firstpacket_redirect_on_error :: "firstpacket \<Rightarrow> bool" where
  "cloak_firstpacket_redirect_on_error fp = fp_redirect_on_error fp"

text \<open>The owner's loop: ask how much is wanted, read at most that much from the socket, feed it. The first component is
  what was read.\<close>

fun fp_run :: "firstpacket \<Rightarrow> bytes list \<Rightarrow> bytes \<times> firstpacket" where
  "fp_run fp [] = ([], fp)"
| "fp_run fp (c # cs) =
     (let r = take (cloak_firstpacket_want fp) c;
          (rs, fp') = fp_run (snd (cloak_firstpacket_feed fp r)) cs
      in (r @ rs, fp'))"

section \<open>The packet's end as a function of the bytes read\<close>

definition ends_with :: "bytes \<Rightarrow> bytes \<Rightarrow> bool" where
  "ends_with f w \<longleftrightarrow> take (length w) (rev f) = rev w"

definition fp_verdict :: "bytes \<Rightarrow> firstpacket_status" where
  "fp_verdict f =
     (if f = [] then CLOAK_FIRSTPACKET_NEED_MORE
      else if hd f = 0x16 then
        (let n = unat (be16_load (drop 3 f) :: u32) in
         if length f < 5 then CLOAK_FIRSTPACKET_NEED_MORE
         else if n = 0 \<or> 5 + n > 3000 then CLOAK_FIRSTPACKET_ERROR
         else if length f < 5 + n then CLOAK_FIRSTPACKET_NEED_MORE
         else CLOAK_FIRSTPACKET_DONE)
      else if hd f = 0x47 then
        (if length f > 3000 then CLOAK_FIRSTPACKET_ERROR
         else if ends_with f [13, 10, 13, 10] then CLOAK_FIRSTPACKET_DONE
         else CLOAK_FIRSTPACKET_NEED_MORE)
      else CLOAK_FIRSTPACKET_ERROR)"

definition crlf_of :: "bytes \<Rightarrow> nat" where
  "crlf_of f = (if ends_with f [13, 10, 13] then 3 else if ends_with f [13, 10] then 2 else if ends_with f [13] then 1 else 0)"

definition fp_transport_of :: "bytes \<Rightarrow> firstpacket_transport" where
  "fp_transport_of f = (if f = [] then CLOAK_FIRSTPACKET_TRANSPORT_UNKNOWN else if hd f = 0x16 then CLOAK_FIRSTPACKET_TRANSPORT_TLS
     else if hd f = 0x47 then CLOAK_FIRSTPACKET_TRANSPORT_WEBSOCKET else CLOAK_FIRSTPACKET_TRANSPORT_UNKNOWN)"

definition fp_matches :: "bytes \<Rightarrow> firstpacket \<Rightarrow> bool" where
  \<comment> \<open>the state after exactly these bytes\<close>
  "fp_matches f fp \<longleftrightarrow> fp_buf fp = take 3000 f \<and> fp_status fp = fp_verdict f
     \<and> fp_redirect_on_error fp = (fp_status fp = CLOAK_FIRSTPACKET_ERROR)
     \<and> fp_transport fp = fp_transport_of f
     \<and> (fp_status fp = CLOAK_FIRSTPACKET_NEED_MORE \<longrightarrow>
          length f \<le> 3000
        \<and> fp_record_total fp = (if fp_transport fp = CLOAK_FIRSTPACKET_TRANSPORT_TLS \<and> 5 \<le> length f
             then 5 + unat (be16_load (drop 3 f) :: u32) else 0)
        \<and> fp_crlf_state fp = (if fp_transport fp = CLOAK_FIRSTPACKET_TRANSPORT_WEBSOCKET then crlf_of f else 0))"

lemmas fp_consts = CLOAK_FIRSTPACKET_MAX_def TLS_RECORD_HEADER_LEN_def

lemma init_matches: "fp_matches [] cloak_firstpacket_init"
  by (simp add: fp_matches_def cloak_firstpacket_init_def fp_verdict_def fp_transport_of_def)

lemma need_more_length: "fp_verdict f = CLOAK_FIRSTPACKET_NEED_MORE \<Longrightarrow> length f \<le> 3000"
  by (auto simp: fp_verdict_def Let_def split: if_splits)

lemma step_first:
  assumes m: "fp_matches [] fp"
  shows "fp_matches [b] (snd (fp_byte fp b)) \<and> fst (fp_byte fp b) = (fp_verdict [b] = CLOAK_FIRSTPACKET_NEED_MORE)"
proof -
  have "fp_buf fp = []" "fp_status fp = CLOAK_FIRSTPACKET_NEED_MORE" "fp_transport fp = CLOAK_FIRSTPACKET_TRANSPORT_UNKNOWN"
    "\<not> fp_redirect_on_error fp" "fp_record_total fp = 0" "fp_crlf_state fp = 0"
    using m by (auto simp: fp_matches_def fp_verdict_def fp_transport_of_def)
  then show ?thesis
    by (simp add: fp_byte_def push_byte_def fp_fail_def fp_matches_def fp_verdict_def fp_transport_of_def crlf_of_def ends_with_def fp_consts)
qed

lemma be16_load_snoc: "5 \<le> length f \<Longrightarrow> be16_load (drop 3 (f @ [b])) = (be16_load (drop 3 f) :: u32)"
  by (simp add: be16_load_append)

lemma step_tls:
  assumes m: "fp_matches f fp" and f: "f \<noteq> []" "hd f = 0x16" and need: "fp_verdict f = CLOAK_FIRSTPACKET_NEED_MORE"
  shows "fp_matches (f @ [b]) (snd (fp_byte fp b)) \<and> fst (fp_byte fp b) = (fp_verdict (f @ [b]) = CLOAK_FIRSTPACKET_NEED_MORE)"
proof -
  have s: "fp_buf fp = f" "fp_status fp = CLOAK_FIRSTPACKET_NEED_MORE" "fp_transport fp = CLOAK_FIRSTPACKET_TRANSPORT_TLS"
    "\<not> fp_redirect_on_error fp" "fp_crlf_state fp = 0"
    "fp_record_total fp = (if 5 \<le> length f then 5 + unat (be16_load (drop 3 f) :: u32) else 0)"
    using m f need by (auto simp: fp_matches_def fp_transport_of_def)
  have lt: "length f < 3000" using need f by (auto simp: fp_verdict_def Let_def split: if_splits)
  define g where "g = f @ [b]"
  have g: "hd g = 0x16" "g \<noteq> []" "length g = length f + 1" "take 3000 g = g" using f lt by (auto simp: g_def)
  define fp1 where "fp1 = fp\<lparr>fp_buf := g\<rparr>"
  have push: "push_byte fp b = Some fp1" using s lt by (simp add: push_byte_def fp_consts fp1_def g_def)
  define n where "n = unat (be16_load (drop 3 g) :: u32)"
  have v: "fp_verdict g = (if length f < 4 then CLOAK_FIRSTPACKET_NEED_MORE else if n = 0 \<or> 5 + n > 3000 then CLOAK_FIRSTPACKET_ERROR
      else if length f + 1 < 5 + n then CLOAK_FIRSTPACKET_NEED_MORE else CLOAK_FIRSTPACKET_DONE)"
    using g by (simp add: fp_verdict_def n_def[symmetric] Let_def)
  have e: "fp_byte fp b = (if length f = 4 \<and> (n = 0 \<or> 5 + n > 3000) then (False, fp_fail fp1 True)
      else let fp2 = (if length f = 4 then fp1\<lparr>fp_record_total := 5 + n\<rparr> else fp1) in
        if fp_record_total fp2 \<noteq> 0 \<and> length f + 1 = fp_record_total fp2 then (False, fp2\<lparr>fp_status := CLOAK_FIRSTPACKET_DONE\<rparr>)
        else (True, fp2))"
    using s(3) push g(3) by (simp add: fp_byte_def fp1_def n_def fp_consts Let_def)
  have t: "fp_transport_of g = CLOAK_FIRSTPACKET_TRANSPORT_TLS" using g by (simp add: fp_transport_of_def)
  have "fp_matches g (snd (fp_byte fp b)) \<and> fst (fp_byte fp b) = (fp_verdict g = CLOAK_FIRSTPACKET_NEED_MORE)"
  proof -
    consider "length f < 4" | "length f = 4" | "5 \<le> length f" by linarith
    then show ?thesis
    proof cases
      case 1
      then show ?thesis using s lt g by (simp add: e v t fp1_def fp_matches_def)
    next
      case 2
      then show ?thesis using s lt g
        by (simp add: e v t fp1_def fp_matches_def fp_fail_def Let_def n_def[symmetric])
    next
      case 3
      have "n = unat (be16_load (drop 3 f) :: u32)" unfolding n_def g_def be16_load_snoc[OF 3] ..
      then have "0 < n" "5 + n \<le> 3000" "length f < 5 + n" "fp_record_total fp = 5 + n"
        using need 3 f s(6) by (simp_all add: fp_verdict_def Let_def split: if_splits)
      then show ?thesis using 3 s lt g
        by (simp add: e v t fp1_def fp_matches_def Let_def n_def[symmetric])
    qed
  qed
  then show ?thesis by (simp only: g_def)
qed

lemma ends_with_snoc:
  "ends_with (f @ [b]) [13] \<longleftrightarrow> b = 13"
  "ends_with (f @ [b]) [13, 10] \<longleftrightarrow> b = 10 \<and> ends_with f [13]"
  "ends_with (f @ [b]) [13, 10, 13] \<longleftrightarrow> b = 13 \<and> ends_with f [13, 10]"
  "ends_with (f @ [b]) [13, 10, 13, 10] \<longleftrightarrow> b = 10 \<and> ends_with f [13, 10, 13]"
  by (simp_all add: ends_with_def)

lemma ends_with_cr: "ends_with f [13, 10, 13] \<Longrightarrow> ends_with f [13]" "ends_with f [13, 10] \<Longrightarrow> \<not> ends_with f [13]"
  by (cases "rev f"; simp add: ends_with_def)+

lemma step_ws:
  assumes m: "fp_matches f fp" and f: "f \<noteq> []" "hd f \<noteq> 0x16" and n: "fp_verdict f = CLOAK_FIRSTPACKET_NEED_MORE"
  shows "fp_matches (f @ [b]) (snd (fp_byte fp b)) \<and> fst (fp_byte fp b) = (fp_verdict (f @ [b]) = CLOAK_FIRSTPACKET_NEED_MORE)"
proof -
  have g: "hd f = 0x47" "length f \<le> 3000" using n f by (auto simp: fp_verdict_def split: if_splits)
  have s: "fp_buf fp = f" "fp_status fp = CLOAK_FIRSTPACKET_NEED_MORE" "fp_transport fp = CLOAK_FIRSTPACKET_TRANSPORT_WEBSOCKET"
    "\<not> fp_redirect_on_error fp" "fp_crlf_state fp = crlf_of f" "fp_record_total fp = 0"
    using m f n g by (auto simp: fp_matches_def fp_transport_of_def)
  have hd: "hd (f @ [b]) = 0x47" using f g by simp
  show ?thesis
  proof (cases "length f = 3000")
    case True
    then show ?thesis using s hd
      by (simp add: fp_byte_def push_byte_def fp_fail_def fp_matches_def fp_verdict_def fp_transport_of_def fp_consts)
  next
    case False
    then have push: "push_byte fp b = Some (fp\<lparr>fp_buf := f @ [b]\<rparr>)" and lt: "length f < 3000"
      using s g by (simp_all add: push_byte_def fp_consts)
    have st: "fp_verdict (f @ [b]) = (if b = 10 \<and> crlf_of f = 3 then CLOAK_FIRSTPACKET_DONE else CLOAK_FIRSTPACKET_NEED_MORE)"
      using hd lt by (auto simp: fp_verdict_def ends_with_snoc crlf_of_def)
    have cr: "crlf_of (f @ [b]) = (if b = 13 then if crlf_of f = 2 then 3 else 1 else if b = 10 \<and> crlf_of f = 1 then 2 else 0)"
      if "\<not> (b = 10 \<and> crlf_of f = 3)"
      using that ends_with_cr[of f] by (auto simp: crlf_of_def ends_with_snoc split: if_splits)
    show ?thesis using s push lt hd st cr
      by (auto simp: fp_byte_def fp_matches_def fp_transport_of_def Let_def)
  qed
qed

lemma step_matches:
  assumes "fp_matches f fp" "fp_verdict f = CLOAK_FIRSTPACKET_NEED_MORE"
  shows "fp_matches (f @ [b]) (snd (fp_byte fp b)) \<and> fst (fp_byte fp b) = (fp_verdict (f @ [b]) = CLOAK_FIRSTPACKET_NEED_MORE)"
  using assms step_first[of fp b] step_tls[of f fp b] step_ws[of f fp b] by (cases "f = []"; cases "hd f = 0x16") auto

lemma loop_matches:
  assumes "fp_matches f fp" "\<forall>k < length xs. fp_verdict (f @ take k xs) = CLOAK_FIRSTPACKET_NEED_MORE"
  shows "fp_matches (f @ xs) (fp_loop fp xs)"
  using assms
proof (induction xs arbitrary: f fp)
  case (Cons b xs)
  obtain go fp1 where b: "fp_byte fp b = (go, fp1)" by fastforce
  have "fp_verdict f = CLOAK_FIRSTPACKET_NEED_MORE" using Cons.prems(2) by (auto dest: spec[of _ 0])
  then have st: "fp_matches (f @ [b]) fp1" "go = (fp_verdict (f @ [b]) = CLOAK_FIRSTPACKET_NEED_MORE)"
    using step_matches[OF Cons.prems(1), of b] b by auto
  have nx: "fp_verdict ((f @ [b]) @ take k xs) = CLOAK_FIRSTPACKET_NEED_MORE" if "k < length xs" for k
    using Cons.prems(2)[rule_format, of "Suc k"] that by simp
  show ?case
  proof (cases go)
    case True
    then show ?thesis using Cons.IH[OF st(1)] nx b by auto
  next
    case False
    then have "xs = []" using nx[of 0] st(2) by (cases xs) auto
    then show ?thesis using st b False by simp
  qed
qed simp

lemma want_needed:
  assumes "fp_matches f fp" "length xs < cloak_firstpacket_want fp"
  shows "fp_verdict (f @ xs) = CLOAK_FIRSTPACKET_NEED_MORE"
proof -
  have n: "fp_verdict f = CLOAK_FIRSTPACKET_NEED_MORE" "fp_status fp = CLOAK_FIRSTPACKET_NEED_MORE" "fp_buf fp = f"
    using assms by (auto simp: fp_matches_def cloak_firstpacket_want_def dest: need_more_length split: if_splits)
  show ?thesis
  proof (cases "fp_transport fp = CLOAK_FIRSTPACKET_TRANSPORT_TLS")
    case False
    then have "xs = []" using assms(2) n by (auto simp: cloak_firstpacket_want_def split: firstpacket_transport.splits)
    then show ?thesis using n by simp
  next
    case True
    then have f: "f \<noteq> []" "hd f = 0x16" using assms(1) n by (auto simp: fp_matches_def fp_transport_of_def split: if_splits)
    then have hd: "hd (f @ xs) = 0x16" by simp
    have "5 \<le> length f \<Longrightarrow> be16_load (drop 3 (f @ xs)) = (be16_load (drop 3 f) :: u32)" by (simp add: be16_load_append)
    then show ?thesis using assms True n f hd
      by (auto simp: fp_matches_def fp_verdict_def cloak_firstpacket_want_def fp_consts Let_def split: if_splits)
  qed
qed

lemma feed_matches:
  fixes c :: bytes
  assumes "fp_matches f fp"
  defines "r \<equiv> take (cloak_firstpacket_want fp) c"
  shows "fp_matches (f @ r) (snd (cloak_firstpacket_feed fp r))"
proof (cases "fp_status fp = CLOAK_FIRSTPACKET_NEED_MORE \<and> r \<noteq> []")
  case True
  have "\<forall>k < length r. fp_verdict (f @ take k r) = CLOAK_FIRSTPACKET_NEED_MORE"
    using want_needed[OF assms(1)] by (auto simp: r_def)
  from loop_matches[OF assms(1) this] show ?thesis using True
    by (simp add: cloak_firstpacket_feed_def Let_def r_def)
next
  case False
  then have "r = []" by (auto simp: r_def cloak_firstpacket_want_def)
  then show ?thesis using assms(1) by (simp add: cloak_firstpacket_feed_def)
qed

lemma run_matches:
  assumes "fp_matches f fp" "\<forall>k < length f. fp_verdict (take k f) = CLOAK_FIRSTPACKET_NEED_MORE" "fp_run fp cs = (rs, fp')"
  shows "fp_matches (f @ rs) fp' \<and> (\<forall>k < length (f @ rs). fp_verdict (take k (f @ rs)) = CLOAK_FIRSTPACKET_NEED_MORE)"
  using assms
proof (induction cs arbitrary: f fp rs)
  case (Cons c cs)
  let ?r = "take (cloak_firstpacket_want fp) c"
  obtain rs' where rs: "rs = ?r @ rs'" "fp_run (snd (cloak_firstpacket_feed fp ?r)) cs = (rs', fp')"
    using Cons.prems(3) by (auto simp: Let_def split: prod.splits)
  have "fp_verdict (take k (f @ ?r)) = CLOAK_FIRSTPACKET_NEED_MORE" if "k < length (f @ ?r)" for k
  proof (cases "k < length f")
    case True
    then show ?thesis using Cons.prems(2) by simp
  next
    case False
    then show ?thesis using want_needed[OF Cons.prems(1), of "take (k - length f) ?r"] that by auto
  qed
  then show ?case using Cons.IH[OF feed_matches[OF Cons.prems(1)] _ rs(2)] rs(1) by simp
qed simp

lemma want_positive: "fp_matches f fp \<Longrightarrow> (0 < cloak_firstpacket_want fp) = (fp_status fp = CLOAK_FIRSTPACKET_NEED_MORE)"
  by (auto simp: cloak_firstpacket_want_def fp_matches_def fp_verdict_def fp_transport_of_def fp_consts Let_def
      split: firstpacket_transport.splits if_splits)

lemma run_singles:
  assumes "fp_matches f fp" "\<forall>k < length (f @ d). fp_verdict (take k (f @ d)) = CLOAK_FIRSTPACKET_NEED_MORE"
  shows "fst (fp_run fp (map (\<lambda>b. [b]) d)) = d"
  using assms
proof (induction d arbitrary: f fp)
  case (Cons b d)
  have "fp_status fp = CLOAK_FIRSTPACKET_NEED_MORE" using Cons.prems(1) Cons.prems(2)[rule_format, of "length f"] by (simp add: fp_matches_def)
  then have w: "take (cloak_firstpacket_want fp) [b] = [b]" using want_positive[OF Cons.prems(1)] by (cases "cloak_firstpacket_want fp") auto
  have "fp_matches (f @ [b]) (snd (cloak_firstpacket_feed fp [b]))" using feed_matches[OF Cons.prems(1), of "[b]"] w by simp
  moreover have "\<forall>k < length ((f @ [b]) @ d). fp_verdict (take k ((f @ [b]) @ d)) = CLOAK_FIRSTPACKET_NEED_MORE" using Cons.prems(2) by simp
  ultimately have "fst (fp_run (snd (cloak_firstpacket_feed fp [b])) (map (\<lambda>b. [b]) d)) = d" by (rule Cons.IH)
  then show ?case using w by (simp add: Let_def case_prod_beta)
qed simp

lemma exact_run:
  assumes v: "\<And>k. k \<le> length d \<Longrightarrow> fp_verdict (take k d) = (if k < length d then CLOAK_FIRSTPACKET_NEED_MORE else CLOAK_FIRSTPACKET_DONE)"
    and len: "length d \<le> 3000" and run: "fp_run cloak_firstpacket_init cs = (f, fp)" and pre: "d @ rest = f @ later"
  shows "length f \<le> length d \<and> (fp_status fp = CLOAK_FIRSTPACKET_NEED_MORE) = (length f < length d)
    \<and> (length f = length d \<longrightarrow> f = d \<and> cloak_firstpacket_data fp = d \<and> fp_transport fp = fp_transport_of d)"
proof -
  have m: "fp_matches f fp" "\<forall>k < length f. fp_verdict (take k f) = CLOAK_FIRSTPACKET_NEED_MORE"
    using run_matches[OF init_matches _ run] by auto
  have st: "fp_status fp = fp_verdict f" "fp_buf fp = take 3000 f" "fp_transport fp = fp_transport_of f" using m(1) by (auto simp: fp_matches_def)
  have tk: "take k f = take k d" if "k \<le> length f" "k \<le> length d" for k
    using arg_cong[OF pre, of "take k"] that by simp
  have le: "length f \<le> length d"
  proof (rule ccontr)
    assume "\<not> length f \<le> length d"
    then show False using m(2)[rule_format, of "length d"] v[of "length d"] tk[of "length d"] by simp
  qed
  then have f: "f = take (length f) d" using tk[of "length f"] by simp
  then have "fp_verdict f = (if length f < length d then CLOAK_FIRSTPACKET_NEED_MORE else CLOAK_FIRSTPACKET_DONE)"
    using v[OF le] by simp
  moreover have "f = d" if "length f = length d" using f that by simp
  ultimately show ?thesis using st le len by (auto simp: cloak_firstpacket_data_def)
qed

text \<open>
  C11: the first packet is framed exactly. Whatever pieces the kernel delivers, as long as the owner reads no more than it is told to,
  the state is a function of the bytes read so far: the packet is complete precisely when those bytes
  are one whole TLS record of 6 to 3000 bytes or a request of at most 3000 bytes starting with G and ending in the first blank line,
  an error is reported precisely for another first byte, an empty or oversized record, or a request that outgrows the buffer,
  and every error is marked redirectable. No byte was read after the verdict was due, more is asked for as long as there is none,
  and the buffer holds every byte read up to its 3000.
\<close>

theorem firstpacket_exact:
  assumes "fp_run cloak_firstpacket_init cs = (f, fp)"
  shows "fp_status fp = fp_verdict f \<and> cloak_firstpacket_data fp = take 3000 f
     \<and> (\<forall>k < length f. fp_verdict (take k f) = CLOAK_FIRSTPACKET_NEED_MORE)
     \<and> (0 < cloak_firstpacket_want fp) = (fp_status fp = CLOAK_FIRSTPACKET_NEED_MORE)
     \<and> cloak_firstpacket_redirect_on_error fp = (fp_status fp = CLOAK_FIRSTPACKET_ERROR)"
  using run_matches[OF init_matches _ assms] want_positive[of f fp]
  by (simp add: fp_matches_def cloak_firstpacket_data_def cloak_firstpacket_redirect_on_error_def)

theorem firstpacket_exact_witness:
  "\<exists>fp. fp_run cloak_firstpacket_init [[0x16], [0x03, 0x01], [0, 2, 9, 9], [9], [8, 7]] = ([0x16, 0x03, 0x01, 0, 2, 9, 8], fp)
     \<and> fp_status fp = CLOAK_FIRSTPACKET_DONE \<and> cloak_firstpacket_data fp = [0x16, 0x03, 0x01, 0, 2, 9, 8]"
proof -
  let ?cs = "[[0x16], [0x03, 0x01], [0, 2, 9, 9], [9], [8, 7]] :: bytes list"
  have f: "fst (fp_run cloak_firstpacket_init ?cs) = [0x16, 0x03, 0x01, 0, 2, 9, 8]" by code_simp
  then obtain fp where r: "fp_run cloak_firstpacket_init ?cs = ([0x16, 0x03, 0x01, 0, 2, 9, 8], fp)"
    by (cases "fp_run cloak_firstpacket_init ?cs") simp
  have "fp_verdict [0x16, 0x03, 0x01, 0, 2, 9, 8] = CLOAK_FIRSTPACKET_DONE" by code_simp
  then show ?thesis using firstpacket_exact[OF r] r by (intro exI[of _ fp]) simp
qed

text \<open>
  A request that fills the buffer without ending: the owner is still told to read one byte, that byte is refused with the error, and
  it is not in the buffer the redirect forwards. Every other error keeps the byte that caused it.
\<close>

lemma firstpacket_overflow_drops_byte:
  assumes "fp_run cloak_firstpacket_init cs = (f, fp)" "fp_status fp = CLOAK_FIRSTPACKET_NEED_MORE" "length f = 3000"
  shows "cloak_firstpacket_want fp = 1 \<and> fst (cloak_firstpacket_feed fp [b]) = CLOAK_FIRSTPACKET_ERROR
     \<and> cloak_firstpacket_data (snd (cloak_firstpacket_feed fp [b])) = f \<and> fp_transport fp = CLOAK_FIRSTPACKET_TRANSPORT_WEBSOCKET"
proof -
  have m: "fp_matches f fp" using run_matches[OF init_matches _ assms(1)] by simp
  have "fp_transport fp = CLOAK_FIRSTPACKET_TRANSPORT_WEBSOCKET" "fp_buf fp = f"
    using m assms(2,3) by (auto simp: fp_matches_def fp_verdict_def fp_transport_of_def Let_def split: if_splits)
  then show ?thesis using assms(2,3)
    by (simp add: cloak_firstpacket_want_def cloak_firstpacket_feed_def cloak_firstpacket_data_def fp_byte_def push_byte_def fp_fail_def fp_consts)
qed

end
