(* ===== verification/ClientHelloParse.thy ===== *)
theory ClientHelloParse
  imports CloakPrelude
begin

text \<open>
  \<open>libcloak-server/src/clienthello_parse.c\<close>: the parser of an untrusted TLS ClientHello. A \<open>const uint8_t *\<close> into the input is an
  offset. A read of the input outside its bounds is the result \<open>Fault\<close>, a parse failure is \<open>Reject\<close>; the theorems show that
  no input produces \<open>Fault\<close>.
\<close>

definition TLS_EXT_SERVER_NAME :: u16 where "TLS_EXT_SERVER_NAME = 0x0000"
definition TLS_EXT_KEY_SHARE :: u16 where "TLS_EXT_KEY_SHARE = 0x0033"
definition TLS_GROUP_X25519 :: u16 where "TLS_GROUP_X25519 = 0x001d"
definition SNI_NAME_TYPE_HOST_NAME :: byte where "SNI_NAME_TYPE_HOST_NAME = 0"

lemmas ch_consts = TLS_EXT_SERVER_NAME_def TLS_EXT_KEY_SHARE_def TLS_GROUP_X25519_def SNI_NAME_TYPE_HOST_NAME_def

datatype 'a step = Fault | Reject | Got 'a

fun pbind :: "'a step \<Rightarrow> ('a \<Rightarrow> 'b step) \<Rightarrow> 'b step" where
  "pbind Fault f = Fault"
| "pbind Reject f = Reject"
| "pbind (Got x) f = f x"

lemma pbind_cong [fundef_cong]: "m = m' \<Longrightarrow> (\<And>x. m' = Got x \<Longrightarrow> f x = f' x) \<Longrightarrow> pbind m f = pbind m' f'"
  by (cases m') auto

lemma pbind_Got: "pbind m f = Got y \<longleftrightarrow> (\<exists>x. m = Got x \<and> f x = Got y)"
  by (cases m) auto

record cursor =
  cu_p :: nat
  cu_remaining :: nat

record clienthello_parsed =
  ch_random :: "nat option"
  ch_session_id :: "nat option"
  ch_session_id_len :: nat
  ch_x25519_key_share :: "nat option"
  ch_sni :: "nat option"
  ch_sni_len :: nat

section \<open>Cursors\<close>

definition rd :: "bytes \<Rightarrow> nat \<Rightarrow> byte step" where
  \<comment> \<open>dereferencing a pointer into the input\<close>
  "rd data i = (if i < length data then Got (data ! i) else Fault)"

definition cursor_take :: "cursor \<Rightarrow> nat \<Rightarrow> (nat \<times> cursor) step" where
  "cursor_take c n = (if n > cu_remaining c then Reject
     else Got (cu_p c, \<lparr>cu_p = cu_p c + n, cu_remaining = cu_remaining c - n\<rparr>))"

definition cursor_take_u8 :: "bytes \<Rightarrow> cursor \<Rightarrow> (byte \<times> cursor) step" where
  "cursor_take_u8 data c = pbind (cursor_take c 1) (\<lambda>(p, c1). pbind (rd data p) (\<lambda>b. Got (b, c1)))"

definition cursor_take_u16 :: "bytes \<Rightarrow> cursor \<Rightarrow> (u16 \<times> cursor) step" where
  "cursor_take_u16 data c = pbind (cursor_take c 2) (\<lambda>(p, c1).
     pbind (rd data p) (\<lambda>b0. pbind (rd data (p + 1)) (\<lambda>b1. Got (push_bit 8 (ucast b0) OR ucast b1, c1))))"

definition cursor_take_u24 :: "bytes \<Rightarrow> cursor \<Rightarrow> (u32 \<times> cursor) step" where
  "cursor_take_u24 data c = pbind (cursor_take c 3) (\<lambda>(p, c1).
     pbind (rd data p) (\<lambda>b0. pbind (rd data (p + 1)) (\<lambda>b1. pbind (rd data (p + 2)) (\<lambda>b2.
       Got (push_bit 16 (ucast b0) OR push_bit 8 (ucast b1) OR ucast b2, c1)))))"

definition cursor_take_scoped :: "cursor \<Rightarrow> nat \<Rightarrow> (cursor \<times> cursor) step" where
  \<comment> \<open>the sub-cursor and the advanced cursor\<close>
  "cursor_take_scoped c n = pbind (cursor_take c n) (\<lambda>(p, c1). Got (\<lparr>cu_p = p, cu_remaining = n\<rparr>, c1))"

definition cursor_skip :: "cursor \<Rightarrow> nat \<Rightarrow> cursor step" where
  "cursor_skip c n = pbind (cursor_take c n) (\<lambda>(p, c1). Got c1)"

lemmas cursor_defs = cursor_take_u8_def cursor_take_u16_def cursor_take_u24_def cursor_take_scoped_def cursor_skip_def

lemma cursor_take_remaining: "cursor_take c n = Got (p, c1) \<Longrightarrow> cu_remaining c1 + n = cu_remaining c"
  by (auto simp: cursor_take_def split: if_splits)

lemma cursor_take_u16_remaining: "cursor_take_u16 data c = Got (v, c1) \<Longrightarrow> cu_remaining c1 + 2 = cu_remaining c"
  by (auto simp: cursor_take_u16_def pbind_Got dest!: cursor_take_remaining)

lemma cursor_take_u8_remaining: "cursor_take_u8 data c = Got (v, c1) \<Longrightarrow> cu_remaining c1 + 1 = cu_remaining c"
  by (auto simp: cursor_take_u8_def pbind_Got dest!: cursor_take_remaining)

lemma cursor_take_scoped_remaining: "cursor_take_scoped c n = Got (s, c1) \<Longrightarrow> cu_remaining c1 + n = cu_remaining c"
  by (auto simp: cursor_take_scoped_def pbind_Got dest!: cursor_take_remaining)

section \<open>Extensions\<close>

function key_share_loop :: "bytes \<Rightarrow> cursor \<Rightarrow> nat option \<Rightarrow> nat option step" where
  "key_share_loop data list out =
     (if cu_remaining list = 0 then Got out
      else pbind (cursor_take_u16 data list) (\<lambda>(group, l1).
           pbind (cursor_take_u16 data l1) (\<lambda>(klen, l2).
           pbind (cursor_take l2 (unat klen)) (\<lambda>(kdata, l3).
             key_share_loop data l3
               (if group = TLS_GROUP_X25519 \<and> klen = 32 \<and> out = None then Some kdata else out)))))"
  by pat_completeness auto
termination
  by (relation "measure (\<lambda>(data, list, out). cu_remaining list)")
     (auto dest!: cursor_take_u16_remaining cursor_take_remaining)

definition parse_key_share_ext :: "bytes \<Rightarrow> cursor \<Rightarrow> nat option \<Rightarrow> nat option step" where
  "parse_key_share_ext data ext_cursor out_key_share =
     pbind (cursor_take_u16 data ext_cursor) (\<lambda>(list_len, c1).
     pbind (cursor_take_scoped c1 (unat list_len)) (\<lambda>(list, c2). key_share_loop data list out_key_share))"

function server_name_loop :: "bytes \<Rightarrow> cursor \<Rightarrow> (nat \<times> nat) option \<Rightarrow> (nat \<times> nat) option step" where
  "server_name_loop data list out =
     (if cu_remaining list = 0 then Got out
      else pbind (cursor_take_u8 data list) (\<lambda>(name_type, l1).
           pbind (cursor_take_u16 data l1) (\<lambda>(name_len, l2).
           pbind (cursor_take l2 (unat name_len)) (\<lambda>(name, l3).
             server_name_loop data l3
               (if name_type = SNI_NAME_TYPE_HOST_NAME \<and> out = None then Some (name, unat name_len) else out)))))"
  by pat_completeness auto
termination
  by (relation "measure (\<lambda>(data, list, out). cu_remaining list)")
     (auto dest!: cursor_take_u8_remaining cursor_take_u16_remaining cursor_take_remaining)

definition parse_server_name_ext :: "bytes \<Rightarrow> cursor \<Rightarrow> (nat \<times> nat) option \<Rightarrow> (nat \<times> nat) option step" where
  "parse_server_name_ext data ext_cursor out_sni =
     pbind (cursor_take_u16 data ext_cursor) (\<lambda>(list_len, c1).
     pbind (cursor_take_scoped c1 (unat list_len)) (\<lambda>(list, c2). server_name_loop data list out_sni))"

function parse_extensions :: "bytes \<Rightarrow> cursor \<Rightarrow> (nat \<times> nat) option \<Rightarrow> nat option \<Rightarrow> ((nat \<times> nat) option \<times> nat option) step" where
  "parse_extensions data exts out_sni out_key_share =
     (if cu_remaining exts = 0 then Got (out_sni, out_key_share)
      else pbind (cursor_take_u16 data exts) (\<lambda>(ext_type, e1).
           pbind (cursor_take_u16 data e1) (\<lambda>(ext_len, e2).
           pbind (cursor_take_scoped e2 (unat ext_len)) (\<lambda>(ext_data, e3).
             if ext_type = TLS_EXT_SERVER_NAME then
               pbind (parse_server_name_ext data ext_data out_sni) (\<lambda>sni. parse_extensions data e3 sni out_key_share)
             else if ext_type = TLS_EXT_KEY_SHARE then
               pbind (parse_key_share_ext data ext_data out_key_share) (\<lambda>ks. parse_extensions data e3 out_sni ks)
             else parse_extensions data e3 out_sni out_key_share))))"
  by pat_completeness auto
termination
  by (relation "measure (\<lambda>(data, exts, out). cu_remaining exts)")
     (auto dest!: cursor_take_u16_remaining cursor_take_scoped_remaining)

declare key_share_loop.simps [simp del] server_name_loop.simps [simp del] parse_extensions.simps [simp del]

section \<open>The message\<close>

definition clienthello_null :: clienthello_parsed where
  "clienthello_null = \<lparr>ch_random = None, ch_session_id = None, ch_session_id_len = 0, ch_x25519_key_share = None,
     ch_sni = None, ch_sni_len = 0\<rparr>"

definition clienthello_tail :: "bytes \<Rightarrow> cursor \<Rightarrow> nat \<Rightarrow> nat option \<Rightarrow> nat \<Rightarrow> clienthello_parsed step" where
  \<comment> \<open>from the cipher suites on\<close>
  "clienthello_tail data c rand sid sid_len =
     pbind (cursor_take_u16 data c) (\<lambda>(cipher_suites_len, c1).
     pbind (cursor_skip c1 (unat cipher_suites_len)) (\<lambda>c2.
     pbind (cursor_take_u8 data c2) (\<lambda>(compression_methods_len, c3).
     pbind (cursor_skip c3 (unat compression_methods_len)) (\<lambda>c4.
     pbind (cursor_take_u16 data c4) (\<lambda>(extensions_len, c5).
     pbind (cursor_take_scoped c5 (unat extensions_len)) (\<lambda>(extensions, c6).
     pbind (parse_extensions data extensions None None) (\<lambda>(sni, key_share).
       Got \<lparr>ch_random = Some rand, ch_session_id = sid, ch_session_id_len = sid_len, ch_x25519_key_share = key_share,
            ch_sni = map_option fst sni, ch_sni_len = (case sni of None \<Rightarrow> 0 | Some (p, n) \<Rightarrow> n)\<rparr>)))))))"

definition clienthello_fields :: "bytes \<Rightarrow> cursor \<Rightarrow> clienthello_parsed step" where
  \<comment> \<open>version, random, session id, then the tail\<close>
  "clienthello_fields data c =
     pbind (cursor_take c 2) (\<lambda>(client_version, c1).
     pbind (cursor_take c1 32) (\<lambda>(rand, c2).
     pbind (cursor_take_u8 data c2) (\<lambda>(session_id_len, c3).
       if session_id_len > 0
       then pbind (cursor_take c3 (unat session_id_len)) (\<lambda>(session_id, c4).
              clienthello_tail data c4 rand (Some session_id) (unat session_id_len))
       else clienthello_tail data c3 rand None 0)))"

definition clienthello_message :: "bytes \<Rightarrow> cursor \<Rightarrow> clienthello_parsed step" where
  \<comment> \<open>after the record header: handshake type and length, then the fields\<close>
  "clienthello_message data c =
     pbind (cursor_take_u8 data c) (\<lambda>(handshake_type, c1).
       if handshake_type \<noteq> 1 then Reject
       else pbind (cursor_take_u24 data c1) (\<lambda>(handshake_len, c2).
         if unat handshake_len \<noteq> cu_remaining c2 then Reject else clienthello_fields data c2))"

definition clienthello_record :: "bytes \<Rightarrow> clienthello_parsed step" where
  "clienthello_record data =
     pbind (cursor_take \<lparr>cu_p = 0, cu_remaining = length data\<rparr> 5) (\<lambda>(record_hdr, c).
     pbind (rd data record_hdr) (\<lambda>b0.
     pbind (rd data (record_hdr + 1)) (\<lambda>b1.
     pbind (rd data (record_hdr + 2)) (\<lambda>b2.
       if b0 \<noteq> 0x16 \<or> b1 \<noteq> 0x03 \<or> b2 \<noteq> 0x01 then Reject else clienthello_message data c))))"

definition cloak_clienthello_parse :: "bytes \<Rightarrow> (int \<times> clienthello_parsed) option" where
  \<comment> \<open>\<^const>\<open>None\<close> is an out-of-bounds read\<close>
  "cloak_clienthello_parse data =
     (case clienthello_record data of
        Fault \<Rightarrow> None
      | Reject \<Rightarrow> Some (-1, clienthello_null)
      | Got out \<Rightarrow> Some (0, out))"


section \<open>No read leaves the input\<close>

definition safe :: "('a \<Rightarrow> bool) \<Rightarrow> 'a step \<Rightarrow> bool" where
  \<comment> \<open>no fault, and a result satisfies \<open>P\<close>\<close>
  "safe P m \<longleftrightarrow> (case m of Fault \<Rightarrow> False | Reject \<Rightarrow> True | Got x \<Rightarrow> P x)"

lemma safe_simps [simp]: "\<not> safe P Fault" "safe P Reject" "safe P (Got x) = P x"
  by (simp_all add: safe_def)

lemma safe_pbind: "safe P m \<Longrightarrow> (\<And>x. m = Got x \<Longrightarrow> P x \<Longrightarrow> safe Q (f x)) \<Longrightarrow> safe Q (pbind m f)"
  by (cases m) auto

lemma safe_pbind2:
  "safe (\<lambda>(x, y). P x y) m \<Longrightarrow> (\<And>x y. m = Got (x, y) \<Longrightarrow> P x y \<Longrightarrow> safe Q (f x y)) \<Longrightarrow> safe Q (pbind m (\<lambda>(x, y). f x y))"
  by (rule safe_pbind[where P = "\<lambda>(x, y). P x y"]) auto

lemma safe_mono: "safe P m \<Longrightarrow> (\<And>x. P x \<Longrightarrow> Q x) \<Longrightarrow> safe Q m"
  by (cases m) auto

definition inb :: "bytes \<Rightarrow> cursor \<Rightarrow> bool" where
  "inb data c \<longleftrightarrow> cu_p c + cu_remaining c \<le> length data"

definition span :: "bytes \<Rightarrow> nat option \<Rightarrow> nat \<Rightarrow> bool" where
  \<comment> \<open>a pointer, if not NULL, has that many bytes of the input behind it\<close>
  "span data p n \<longleftrightarrow> (case p of None \<Rightarrow> True | Some i \<Rightarrow> i + n \<le> length data)"

lemma span_simps [simp]: "span data None n" "span data (Some i) n \<longleftrightarrow> i + n \<le> length data"
  by (simp_all add: span_def)

named_theorems cursor_safe "the cursor operations stay inside the input"

lemma take_safe [cursor_safe]: "inb data c \<Longrightarrow> safe (\<lambda>(p, c1). p + n \<le> length data \<and> inb data c1) (cursor_take c n)"
  by (auto simp: cursor_take_def inb_def)

lemma rd_safe [cursor_safe]: "i < length data \<Longrightarrow> safe (\<lambda>_. True) (rd data i)"
  by (simp add: rd_def)

lemma take_u8_safe [cursor_safe]: "inb data c \<Longrightarrow> safe (\<lambda>(v, c1). inb data c1) (cursor_take_u8 data c)"
  by (auto simp: cursor_take_u8_def cursor_take_def inb_def rd_def)

lemma take_u16_safe [cursor_safe]: "inb data c \<Longrightarrow> safe (\<lambda>(v, c1). inb data c1) (cursor_take_u16 data c)"
  by (auto simp: cursor_take_u16_def cursor_take_def inb_def rd_def)

lemma take_u24_safe [cursor_safe]: "inb data c \<Longrightarrow> safe (\<lambda>(v, c1). inb data c1) (cursor_take_u24 data c)"
  by (auto simp: cursor_take_u24_def cursor_take_def inb_def rd_def)

lemma take_scoped_safe [cursor_safe]: "inb data c \<Longrightarrow> safe (\<lambda>(s, c1). inb data s \<and> inb data c1) (cursor_take_scoped c n)"
  by (auto simp: cursor_take_scoped_def cursor_take_def inb_def)

lemma skip_safe [cursor_safe]: "inb data c \<Longrightarrow> safe (inb data) (cursor_skip c n)"
  by (auto simp: cursor_skip_def cursor_take_def inb_def)

lemma key_share_loop_safe: "inb data c \<Longrightarrow> span data out 32 \<Longrightarrow> safe (\<lambda>o'. span data o' 32) (key_share_loop data c out)"
proof (induction data c out rule: key_share_loop.induct)
  case (1 data c out)
  show ?case
  proof (cases "cu_remaining c = 0")
    case True
    then show ?thesis using "1.prems" by (subst key_share_loop.simps) simp
  next
    case False
    show ?thesis
      unfolding key_share_loop.simps[of data c out] if_not_P[OF False]
    proof (rule safe_pbind2[OF take_u16_safe[OF "1.prems"(1)]], rule safe_pbind2[OF take_u16_safe], assumption,
        rule safe_pbind2[OF take_safe], assumption)
      fix g l1 klen l2 kdata l3
      assume t: "cursor_take_u16 data c = Got (g, l1)" "cursor_take_u16 data l1 = Got (klen, l2)"
        "cursor_take l2 (unat klen) = Got (kdata, l3)" and b: "kdata + unat klen \<le> length data \<and> inb data l3"
      show "safe (\<lambda>o'. span data o' 32) (key_share_loop data l3
          (if g = TLS_GROUP_X25519 \<and> klen = 32 \<and> out = None then Some kdata else out))"
        by (rule "1.IH"[OF False t(1) refl t(2) refl t(3) refl]) (use b "1.prems"(2) in auto)
    qed
  qed
qed

lemma server_name_loop_safe:
  "inb data c \<Longrightarrow> (\<forall>p n. out = Some (p, n) \<longrightarrow> p + n \<le> length data) \<Longrightarrow>
     safe (\<lambda>o'. \<forall>p n. o' = Some (p, n) \<longrightarrow> p + n \<le> length data) (server_name_loop data c out)"
proof (induction data c out rule: server_name_loop.induct)
  case (1 data c out)
  show ?case
  proof (cases "cu_remaining c = 0")
    case True
    then show ?thesis using "1.prems" by (subst server_name_loop.simps) simp
  next
    case False
    show ?thesis
      unfolding server_name_loop.simps[of data c out] if_not_P[OF False]
    proof (rule safe_pbind2[OF take_u8_safe[OF "1.prems"(1)]], rule safe_pbind2[OF take_u16_safe], assumption,
        rule safe_pbind2[OF take_safe], assumption)
      fix ty l1 nlen l2 name l3
      assume t: "cursor_take_u8 data c = Got (ty, l1)" "cursor_take_u16 data l1 = Got (nlen, l2)"
        "cursor_take l2 (unat nlen) = Got (name, l3)" and b: "name + unat nlen \<le> length data \<and> inb data l3"
      show "safe (\<lambda>o'. \<forall>p n. o' = Some (p, n) \<longrightarrow> p + n \<le> length data) (server_name_loop data l3
          (if ty = SNI_NAME_TYPE_HOST_NAME \<and> out = None then Some (name, unat nlen) else out))"
        by (rule "1.IH"[OF False t(1) refl t(2) refl t(3) refl]) (use b "1.prems"(2) in auto)
    qed
  qed
qed

abbreviation sni_span :: "bytes \<Rightarrow> (nat \<times> nat) option \<Rightarrow> bool" where
  "sni_span data sni \<equiv> \<forall>p n. sni = Some (p, n) \<longrightarrow> p + n \<le> length data"

lemma key_share_ext_safe: "inb data c \<Longrightarrow> span data out 32 \<Longrightarrow> safe (\<lambda>o'. span data o' 32) (parse_key_share_ext data c out)"
  unfolding parse_key_share_ext_def
  by (rule safe_pbind2[OF take_u16_safe], assumption, rule safe_pbind2[OF take_scoped_safe], assumption) (blast intro: key_share_loop_safe)

lemma server_name_ext_safe: "inb data c \<Longrightarrow> sni_span data out \<Longrightarrow> safe (sni_span data) (parse_server_name_ext data c out)"
  unfolding parse_server_name_ext_def
  by (rule safe_pbind2[OF take_u16_safe], assumption, rule safe_pbind2[OF take_scoped_safe], assumption) (rule server_name_loop_safe, blast+)

lemma parse_extensions_safe:
  "inb data c \<Longrightarrow> sni_span data sni \<Longrightarrow> span data ks 32 \<Longrightarrow>
     safe (\<lambda>(s, k). sni_span data s \<and> span data k 32) (parse_extensions data c sni ks)"
proof (induction data c sni ks rule: parse_extensions.induct)
  case (1 data c sni ks)
  show ?case
  proof (cases "cu_remaining c = 0")
    case True
    then show ?thesis using "1.prems" by (subst parse_extensions.simps) simp
  next
    case False
    show ?thesis
      unfolding parse_extensions.simps[of data c sni ks] if_not_P[OF False]
    proof (rule safe_pbind2[OF take_u16_safe[OF "1.prems"(1)]], rule safe_pbind2[OF take_u16_safe], assumption,
        rule safe_pbind2[OF take_scoped_safe], assumption)
      fix ty e1 n e2 ext e3
      assume t: "cursor_take_u16 data c = Got (ty, e1)" "cursor_take_u16 data e1 = Got (n, e2)"
        "cursor_take_scoped e2 (unat n) = Got (ext, e3)" and b: "inb data ext \<and> inb data e3"
      note IH = "1.IH"(1)[OF False t(1) refl t(2) refl t(3) refl] "1.IH"(2)[OF False t(1) refl t(2) refl t(3) refl]
        "1.IH"(3)[OF False t(1) refl t(2) refl t(3) refl]
      show "safe (\<lambda>(s, k). sni_span data s \<and> span data k 32)
         (if ty = TLS_EXT_SERVER_NAME then pbind (parse_server_name_ext data ext sni) (\<lambda>sni. parse_extensions data e3 sni ks)
          else if ty = TLS_EXT_KEY_SHARE then pbind (parse_key_share_ext data ext ks) (\<lambda>ks. parse_extensions data e3 sni ks)
          else parse_extensions data e3 sni ks)"
      proof (cases "ty = TLS_EXT_SERVER_NAME")
        case True
        have "safe (\<lambda>(s, k). sni_span data s \<and> span data k 32) (pbind (parse_server_name_ext data ext sni) (\<lambda>sni. parse_extensions data e3 sni ks))"
          by (rule safe_pbind[OF server_name_ext_safe]) (use b "1.prems" IH(1)[OF True] in auto)
        then show ?thesis using True by simp
      next
        case ns: False
        show ?thesis
        proof (cases "ty = TLS_EXT_KEY_SHARE")
          case True
          have "safe (\<lambda>(s, k). sni_span data s \<and> span data k 32) (pbind (parse_key_share_ext data ext ks) (\<lambda>ks. parse_extensions data e3 sni ks))"
            by (rule safe_pbind[OF key_share_ext_safe]) (use b "1.prems" IH(2)[OF ns True] in auto)
          then show ?thesis using True ns by (simp add: ch_consts)
        next
          case False
          then show ?thesis using ns IH(3)[OF ns False] b "1.prems" by simp
        qed
      qed
    qed
  qed
qed

definition parsed_inside :: "bytes \<Rightarrow> clienthello_parsed \<Rightarrow> bool" where
  "parsed_inside data out \<longleftrightarrow> span data (ch_random out) 32 \<and> ch_random out \<noteq> None \<and> span data (ch_session_id out) (ch_session_id_len out)
     \<and> span data (ch_x25519_key_share out) 32 \<and> span data (ch_sni out) (ch_sni_len out)"

lemma clienthello_tail_safe:
  assumes "inb data c" "rand + 32 \<le> length data" "span data sid n"
  shows "safe (parsed_inside data) (clienthello_tail data c rand sid n)"
  unfolding clienthello_tail_def
  by (rule safe_pbind2[OF take_u16_safe[OF assms(1)]], rule safe_pbind[OF skip_safe], assumption, rule safe_pbind2[OF take_u8_safe], assumption,
      rule safe_pbind[OF skip_safe], assumption, rule safe_pbind2[OF take_u16_safe], assumption, rule safe_pbind2[OF take_scoped_safe], assumption,
      rule safe_pbind2[OF parse_extensions_safe]) (use assms in \<open>auto simp: parsed_inside_def split: option.splits\<close>)

lemma clienthello_fields_safe: "inb data c \<Longrightarrow> safe (parsed_inside data) (clienthello_fields data c)"
  unfolding clienthello_fields_def
  by (rule safe_pbind2[OF take_safe], assumption, elim conjE, rule safe_pbind2[OF take_safe], assumption, elim conjE,
      rule safe_pbind2[OF take_u8_safe], assumption)
     (auto intro!: safe_pbind2[OF take_safe] clienthello_tail_safe)

lemma clienthello_message_safe: "inb data c \<Longrightarrow> safe (parsed_inside data) (clienthello_message data c)"
  unfolding clienthello_message_def
  by (rule safe_pbind2[OF take_u8_safe], assumption) (auto intro!: safe_pbind2[OF take_u24_safe] clienthello_fields_safe)

lemma clienthello_record_safe: "safe (parsed_inside data) (clienthello_record data)"
proof -
  have "inb data \<lparr>cu_p = 0, cu_remaining = length data\<rparr>" by (simp add: inb_def)
  then show ?thesis unfolding clienthello_record_def
    by (rule safe_pbind2[OF take_safe]) (auto intro!: safe_pbind[OF rd_safe] clienthello_message_safe)
qed

text \<open>
  C9: the parser runs on attacker-controlled bytes and never reads outside them. For every input whatsoever it returns, without a
  single read out of bounds; when it accepts, every pointer it hands out has the promised number of input bytes behind it, and the
  random is always present.
\<close>

theorem clienthello_parse_in_bounds:
  "\<exists>rc out. cloak_clienthello_parse data = Some (rc, out)
     \<and> (if rc = 0 then (\<exists>p. ch_random out = Some p) \<and> span data (ch_random out) 32
          \<and> span data (ch_session_id out) (ch_session_id_len out)
          \<and> span data (ch_x25519_key_share out) 32 \<and> span data (ch_sni out) (ch_sni_len out)
        else rc = -1 \<and> out = clienthello_null)"
  using clienthello_record_safe[of data]
  by (cases "clienthello_record data") (auto simp: cloak_clienthello_parse_def parsed_inside_def)


section \<open>Well-formed messages are understood\<close>

datatype tls_extension =
    ExtServerName "(byte \<times> bytes) list"
  | ExtKeyShare "(u16 \<times> bytes) list"
  | ExtOther u16 bytes

record hello =
  he_record_len :: bytes
  he_version :: bytes
  he_random :: bytes
  he_session_id :: bytes
  he_suites :: bytes
  he_compression :: bytes
  he_exts :: "tls_extension list"
  he_trailer :: bytes

abbreviation enc16 :: "nat \<Rightarrow> bytes" where "enc16 n \<equiv> be16_store (of_nat n :: u16)"

fun enc_share :: "u16 \<times> bytes \<Rightarrow> bytes" where
  "enc_share (g, k) = be16_store g @ enc16 (length k) @ k"

fun enc_name :: "byte \<times> bytes \<Rightarrow> bytes" where
  "enc_name (t, n) = t # enc16 (length n) @ n"

fun ext_type :: "tls_extension \<Rightarrow> u16" where
  "ext_type (ExtServerName ns) = TLS_EXT_SERVER_NAME"
| "ext_type (ExtKeyShare ks) = TLS_EXT_KEY_SHARE"
| "ext_type (ExtOther t d) = t"

fun ext_body :: "tls_extension \<Rightarrow> bytes" where
  "ext_body (ExtServerName ns) = enc16 (length (concat (map enc_name ns))) @ concat (map enc_name ns)"
| "ext_body (ExtKeyShare ks) = enc16 (length (concat (map enc_share ks))) @ concat (map enc_share ks)"
| "ext_body (ExtOther t d) = d"

definition enc_ext :: "tls_extension \<Rightarrow> bytes" where
  "enc_ext x = be16_store (ext_type x) @ enc16 (length (ext_body x)) @ ext_body x"

definition enc_fields :: "hello \<Rightarrow> bytes" where
  "enc_fields h = he_version h @ he_random h @ of_nat (length (he_session_id h)) # he_session_id h
     @ enc16 (length (he_suites h)) @ he_suites h @ of_nat (length (he_compression h)) # he_compression h
     @ enc16 (length (concat (map enc_ext (he_exts h)))) @ concat (map enc_ext (he_exts h)) @ he_trailer h"

definition enc_hello :: "hello \<Rightarrow> bytes" where
  "enc_hello h = [0x16, 0x03, 0x01] @ he_record_len h @ 1 # be_store 3 (of_nat (length (enc_fields h)) :: u32) @ enc_fields h"

fun ext_ok :: "tls_extension \<Rightarrow> bool" where
  "ext_ok (ExtServerName ns) = (length (ext_body (ExtServerName ns)) < 65536)"
| "ext_ok (ExtKeyShare ks) = (length (ext_body (ExtKeyShare ks)) < 65536)"
| "ext_ok (ExtOther t d) = (t \<noteq> TLS_EXT_SERVER_NAME \<and> t \<noteq> TLS_EXT_KEY_SHARE \<and> length d < 65536)"

definition hello_ok :: "hello \<Rightarrow> bool" where
  "hello_ok h \<longleftrightarrow> length (he_record_len h) = 2 \<and> length (he_version h) = 2 \<and> length (he_random h) = 32
     \<and> length (he_session_id h) < 256 \<and> length (he_suites h) < 65536 \<and> length (he_compression h) < 256
     \<and> list_all ext_ok (he_exts h) \<and> length (concat (map enc_ext (he_exts h))) < 65536 \<and> length (enc_fields h) < 2 ^ 24"

definition x25519_of :: "(u16 \<times> bytes) list \<Rightarrow> bytes option" where
  "x25519_of ks = map_option snd (List.find (\<lambda>(g, k). g = TLS_GROUP_X25519 \<and> length k = 32) ks)"

definition host_of :: "(byte \<times> bytes) list \<Rightarrow> bytes option" where
  "host_of ns = map_option snd (List.find (\<lambda>(t, n). t = SNI_NAME_TYPE_HOST_NAME) ns)"

definition all_shares :: "tls_extension list \<Rightarrow> (u16 \<times> bytes) list" where
  "all_shares xs = concat (map (\<lambda>x. case x of ExtKeyShare ks \<Rightarrow> ks | _ \<Rightarrow> []) xs)"

definition all_names :: "tls_extension list \<Rightarrow> (byte \<times> bytes) list" where
  "all_names xs = concat (map (\<lambda>x. case x of ExtServerName ns \<Rightarrow> ns | _ \<Rightarrow> []) xs)"

subsection \<open>Cursors over an encoding\<close>

definition sees :: "bytes \<Rightarrow> cursor \<Rightarrow> bytes \<Rightarrow> bool" where
  "sees data c xs \<longleftrightarrow> cu_p c + cu_remaining c \<le> length data \<and> take (cu_remaining c) (drop (cu_p c) data) = xs"

definition adv :: "cursor \<Rightarrow> nat \<Rightarrow> cursor" where
  "adv c n = \<lparr>cu_p = cu_p c + n, cu_remaining = cu_remaining c - n\<rparr>"

lemma sees_remaining: "sees data c xs \<Longrightarrow> cu_remaining c = length xs"
  by (auto simp: sees_def)

lemma sees_nth: "sees data c xs \<Longrightarrow> i < length xs \<Longrightarrow> cu_p c + i < length data \<and> data ! (cu_p c + i) = xs ! i"
  by (auto simp: sees_def)

lemma sees_adv:
  assumes "sees data c (xs @ ys)" "length xs = n"
  shows "sees data (adv c n) ys"
proof -
  have "n \<le> cu_remaining c" using assms sees_remaining by fastforce
  moreover have "drop n (take (cu_remaining c) (drop (cu_p c) data)) = ys" using assms by (simp add: sees_def)
  ultimately show ?thesis using assms(1) by (simp add: sees_def adv_def drop_take add.commute)
qed

lemma sees_prefix:
  assumes "sees data c (xs @ ys)" "length xs = n"
  shows "take n (drop (cu_p c) data) = xs"
proof -
  have "n \<le> cu_remaining c" using assms sees_remaining by fastforce
  moreover have "take n (take (cu_remaining c) (drop (cu_p c) data)) = xs" using assms by (simp add: sees_def)
  ultimately show ?thesis by (simp add: min_def)
qed

lemma sees_take: "sees data c (xs @ ys) \<Longrightarrow> length xs = n \<Longrightarrow> cursor_take c n = Got (cu_p c, adv c n)"
  by (auto simp: cursor_take_def adv_def dest: sees_remaining)

lemma sees_u8: "sees data c (b # ys) \<Longrightarrow> cursor_take_u8 data c = Got (b, adv c 1)"
  using sees_take[of data c "[b]" ys 1] sees_nth[of data c "b # ys" 0] by (simp add: cursor_take_u8_def rd_def)

lemma sees_u16:
  assumes "sees data c (be16_store v @ ys)"
  shows "cursor_take_u16 data c = Got (v, adv c 2)"
proof -
  have "take_bit 16 v = be16_load (be16_store v)" by (rule be16_load_store[symmetric])
  then have "v = push_bit 8 (ucast (be16_store v ! 0)) OR ucast (be16_store v ! 1)" by (simp add: be16_load_def take_bit_word_full)
  then show ?thesis using sees_take[OF assms, of 2] sees_nth[OF assms, of 0] sees_nth[OF assms, of 1]
    by (simp add: cursor_take_u16_def rd_def nth_append)
qed

lemma sees_len16:
  "sees data c (enc16 n @ ys) \<Longrightarrow> n < 65536 \<Longrightarrow> cursor_take_u16 data c = Got (of_nat n, adv c 2) \<and> unat (of_nat n :: u16) = n"
  using sees_u16[of data c "of_nat n" ys] by (simp add: unat_of_nat)

lemma be24_load_store:
  assumes "n < 2 ^ 24"
  defines "p \<equiv> be_store 3 (of_nat n :: u32)"
  shows "unat (push_bit 16 (ucast (p ! 0)) OR push_bit 8 (ucast (p ! 1)) OR ucast (p ! 2) :: u32) = n"
proof -
  have p: "p = [p ! 0, p ! 1, p ! 2]"
    by (rule nth_equalityI) (auto simp: p_def less_Suc_eq numeral_eq_Suc nth_Cons split: nat.splits)
  have "be_load p 0 = (push_bit 16 (ucast (p ! 0)) OR push_bit 8 (ucast (p ! 1)) OR ucast (p ! 2) :: u32)"
    by (subst p) (simp add: push_bit_or or.assoc)
  moreover have "be_load p 0 = take_bit 24 (of_nat n :: u32)" unfolding p_def by (simp add: be_load_store)
  ultimately show ?thesis using unat_take_bit_of_nat[OF assms(1), where 'a = 32] by simp
qed

lemma sees_u24:
  assumes "sees data c (be_store 3 (of_nat n :: u32) @ ys)" "n < 2 ^ 24"
  shows "\<exists>v. cursor_take_u24 data c = Got (v, adv c 3) \<and> unat v = n"
  using sees_take[OF assms(1), of 3] sees_nth[OF assms(1), of 0] sees_nth[OF assms(1), of 1] sees_nth[OF assms(1), of 2]
    be24_load_store[OF assms(2)]
  by (simp add: cursor_take_u24_def rd_def nth_append)

lemma sees_scoped:
  assumes "sees data c (xs @ ys)" "length xs = n"
  shows "\<exists>sc. cursor_take_scoped c n = Got (sc, adv c n) \<and> sees data sc xs"
proof -
  have "sees data \<lparr>cu_p = cu_p c, cu_remaining = n\<rparr> xs"
    using sees_prefix[OF assms] sees_remaining[OF assms(1)] assms by (auto simp: sees_def)
  then show ?thesis using sees_take[OF assms] by (simp add: cursor_take_scoped_def)
qed


subsection \<open>The loops\<close>

lemma unat_numeral_16: "unat (32 :: u16) = 32"
  by simp

definition picked :: "bytes \<Rightarrow> (nat \<times> nat) option \<Rightarrow> bytes option" where
  "picked data p = map_option (\<lambda>(i, n). take n (drop i data)) p"

abbreviation picked32 :: "bytes \<Rightarrow> nat option \<Rightarrow> bytes option" where
  "picked32 data p \<equiv> picked data (map_option (\<lambda>i. (i, 32)) p)"

definition first_of :: "'a option \<Rightarrow> 'a option \<Rightarrow> 'a option" where
  "first_of a b = (case a of None \<Rightarrow> b | Some x \<Rightarrow> Some x)"

lemma key_share_loop_complete:
  assumes "sees data c (concat (map enc_share ks))" "length (concat (map enc_share ks)) < 65536"
  shows "\<exists>out'. key_share_loop data c out = Got out' \<and> picked32 data out' = first_of (picked32 data out) (x25519_of ks)"
  using assms
proof (induction ks arbitrary: c out)
  case Nil
  then show ?case using sees_remaining[OF Nil.prems(1)]
    by (subst key_share_loop.simps) (simp add: x25519_of_def first_of_def split: option.splits)
next
  case (Cons x ks)
  obtain g k where x: "x = (g, k)" by fastforce
  let ?rest = "concat (map enc_share ks)"
  have k: "length k < 65536" "length ?rest < 65536" using Cons.prems(2) x by auto
  have s0: "sees data c (be16_store g @ enc16 (length k) @ k @ ?rest)" using Cons.prems(1) x by simp
  have s1: "sees data (adv c 2) (enc16 (length k) @ k @ ?rest)" using sees_adv[OF s0, of 2] by simp
  have s2: "sees data (adv (adv c 2) 2) (k @ ?rest)" using sees_adv[OF s1, of 2] by simp
  have s3: "sees data (adv (adv (adv c 2) 2) (length k)) ?rest" using sees_adv[OF s2] by simp
  let ?kp = "cu_p (adv (adv c 2) 2)"
  let ?out = "if g = TLS_GROUP_X25519 \<and> (of_nat (length k) :: u16) = 32 \<and> out = None then Some ?kp else out"
  have "key_share_loop data c out = key_share_loop data (adv (adv (adv c 2) 2) (length k)) ?out"
    using sees_u16[OF s0] sees_len16[OF s1 k(1)] sees_take[OF s2 refl] sees_remaining[OF s0]
    by (subst key_share_loop.simps) simp
  moreover have "((of_nat (length k) :: u16) = 32) = (length k = 32)"
    using sees_len16[OF s1 k(1)] by (metis of_nat_numeral unat_numeral_16)
  then have "first_of (picked32 data ?out) (x25519_of ks) = first_of (picked32 data out) (x25519_of (x # ks))"
    using sees_prefix[OF s2 refl] x by (auto simp: x25519_of_def first_of_def picked_def split: option.splits)
  ultimately show ?case using Cons.IH[OF s3 k(2), of ?out] by simp
qed


lemma server_name_loop_complete:
  assumes "sees data c (concat (map enc_name ns))" "length (concat (map enc_name ns)) < 65536"
  shows "\<exists>out'. server_name_loop data c out = Got out' \<and> picked data out' = first_of (picked data out) (host_of ns)"
  using assms
proof (induction ns arbitrary: c out)
  case Nil
  then show ?case using sees_remaining[OF Nil.prems(1)]
    by (subst server_name_loop.simps) (simp add: host_of_def first_of_def split: option.splits)
next
  case (Cons x ns)
  obtain t n where x: "x = (t, n)" by fastforce
  let ?rest = "concat (map enc_name ns)"
  have k: "length n < 65536" "length ?rest < 65536" using Cons.prems(2) x by auto
  have s0: "sees data c (t # enc16 (length n) @ n @ ?rest)" using Cons.prems(1) x by simp
  have s1: "sees data (adv c 1) (enc16 (length n) @ n @ ?rest)" using sees_adv[of data c "[t]"] s0 by simp
  have s2: "sees data (adv (adv c 1) 2) (n @ ?rest)" using sees_adv[OF s1, of 2] by simp
  have s3: "sees data (adv (adv (adv c 1) 2) (length n)) ?rest" using sees_adv[OF s2] by simp
  let ?out = "if t = SNI_NAME_TYPE_HOST_NAME \<and> out = None then Some (cu_p (adv (adv c 1) 2), length n) else out"
  have "server_name_loop data c out = server_name_loop data (adv (adv (adv c 1) 2) (length n)) ?out"
    using sees_u8[OF s0] sees_len16[OF s1 k(1)] sees_take[OF s2 refl] sees_remaining[OF s0]
    by (subst server_name_loop.simps) simp
  moreover have "first_of (picked data ?out) (host_of ns) = first_of (picked data out) (host_of (x # ns))"
    using sees_prefix[OF s2 refl] x by (auto simp: host_of_def first_of_def picked_def split: option.splits)
  ultimately show ?case using Cons.IH[OF s3 k(2), of ?out] by simp
qed

lemma key_share_ext_complete:
  assumes "sees data c (ext_body (ExtKeyShare ks))" "ext_ok (ExtKeyShare ks)"
  shows "\<exists>out'. parse_key_share_ext data c out = Got out' \<and> picked32 data out' = first_of (picked32 data out) (x25519_of ks)"
proof -
  let ?l = "concat (map enc_share ks)"
  have n: "length ?l < 65536" using assms(2) by simp
  have s: "sees data c (enc16 (length ?l) @ ?l)" using assms(1) by simp
  have s1: "sees data (adv c 2) (?l @ [])" using sees_adv[OF s, of 2] by simp
  obtain sc where sc: "cursor_take_scoped (adv c 2) (length ?l) = Got (sc, adv (adv c 2) (length ?l))" "sees data sc ?l"
    using sees_scoped[OF s1 refl] by auto
  then show ?thesis using sees_len16[OF s n] key_share_loop_complete[OF sc(2) n] by (simp add: parse_key_share_ext_def)
qed

lemma server_name_ext_complete:
  assumes "sees data c (ext_body (ExtServerName ns))" "ext_ok (ExtServerName ns)"
  shows "\<exists>out'. parse_server_name_ext data c out = Got out' \<and> picked data out' = first_of (picked data out) (host_of ns)"
proof -
  let ?l = "concat (map enc_name ns)"
  have n: "length ?l < 65536" using assms(2) by simp
  have s: "sees data c (enc16 (length ?l) @ ?l)" using assms(1) by simp
  have s1: "sees data (adv c 2) (?l @ [])" using sees_adv[OF s, of 2] by simp
  obtain sc where sc: "cursor_take_scoped (adv c 2) (length ?l) = Got (sc, adv (adv c 2) (length ?l))" "sees data sc ?l"
    using sees_scoped[OF s1 refl] by auto
  then show ?thesis using sees_len16[OF s n] server_name_loop_complete[OF sc(2) n] by (simp add: parse_server_name_ext_def)
qed

lemma first_of_assoc: "first_of (first_of a b) c = first_of a (first_of b c)"
  by (simp add: first_of_def split: option.splits)

lemma find_append: "List.find P (xs @ ys) = first_of (List.find P xs) (List.find P ys)"
  by (induct xs) (auto simp: first_of_def split: option.splits)

lemma x25519_of_append: "x25519_of (xs @ ys) = first_of (x25519_of xs) (x25519_of ys)"
  by (simp add: x25519_of_def find_append first_of_def split: option.splits)

lemma host_of_append: "host_of (xs @ ys) = first_of (host_of xs) (host_of ys)"
  by (simp add: host_of_def find_append first_of_def split: option.splits)

lemma parse_extensions_complete:
  assumes "sees data c (concat (map enc_ext xs))" "list_all ext_ok xs"
  shows "\<exists>sni' ks'. parse_extensions data c sni ks = Got (sni', ks')
     \<and> picked data sni' = first_of (picked data sni) (host_of (all_names xs))
     \<and> picked32 data ks' = first_of (picked32 data ks) (x25519_of (all_shares xs))"
  using assms
proof (induction xs arbitrary: c sni ks)
  case Nil
  then show ?case using sees_remaining[OF Nil.prems(1)]
    by (subst parse_extensions.simps) (simp add: host_of_def x25519_of_def all_names_def all_shares_def first_of_def split: option.splits)
next
  case (Cons x xs)
  let ?rest = "concat (map enc_ext xs)"
  have ok: "ext_ok x" "list_all ext_ok xs" using Cons.prems(2) by auto
  then have n: "length (ext_body x) < 65536" by (cases x) auto
  have s0: "sees data c (be16_store (ext_type x) @ enc16 (length (ext_body x)) @ ext_body x @ ?rest)"
    using Cons.prems(1) by (simp add: enc_ext_def[of x])
  have s1: "sees data (adv c 2) (enc16 (length (ext_body x)) @ ext_body x @ ?rest)" using sees_adv[OF s0, of 2] by simp
  have s2: "sees data (adv (adv c 2) 2) (ext_body x @ ?rest)" using sees_adv[OF s1, of 2] by simp
  define e3 where "e3 = adv (adv (adv c 2) 2) (length (ext_body x))"
  have s3: "sees data e3 ?rest" using sees_adv[OF s2] by (simp add: e3_def)
  obtain sc where sc: "cursor_take_scoped (adv (adv c 2) 2) (length (ext_body x)) = Got (sc, e3)" "sees data sc (ext_body x)"
    using sees_scoped[OF s2 refl] by (auto simp: e3_def)
  have e: "parse_extensions data c sni ks =
     (if ext_type x = TLS_EXT_SERVER_NAME then pbind (parse_server_name_ext data sc sni) (\<lambda>sni. parse_extensions data e3 sni ks)
      else if ext_type x = TLS_EXT_KEY_SHARE then pbind (parse_key_share_ext data sc ks) (\<lambda>ks. parse_extensions data e3 sni ks)
      else parse_extensions data e3 sni ks)"
    using sees_u16[OF s0] sees_len16[OF s1 n] sc(1) sees_remaining[OF s0] by (subst parse_extensions.simps) simp
  show ?case
  proof (cases x)
    case (ExtServerName ns)
    obtain sni1 where sni1: "parse_server_name_ext data sc sni = Got sni1" "picked data sni1 = first_of (picked data sni) (host_of ns)"
      using server_name_ext_complete[of data sc ns sni] sc(2) ok(1) ExtServerName by auto
    then show ?thesis using e Cons.IH[OF s3 ok(2), of sni1 ks] ExtServerName
      by (simp add: all_names_def all_shares_def host_of_append first_of_assoc)
  next
    case (ExtKeyShare ss)
    obtain ks1 where ks1: "parse_key_share_ext data sc ks = Got ks1" "picked32 data ks1 = first_of (picked32 data ks) (x25519_of ss)"
      using key_share_ext_complete[of data sc ss ks] sc(2) ok(1) ExtKeyShare by auto
    then show ?thesis using e Cons.IH[OF s3 ok(2), of sni ks1] ExtKeyShare
      by (simp add: all_names_def all_shares_def x25519_of_append first_of_assoc ch_consts)
  next
    case (ExtOther t d)
    then show ?thesis using e Cons.IH[OF s3 ok(2), of sni ks] ok(1)
      by (simp add: all_names_def all_shares_def)
  qed
qed


definition understood :: "bytes \<Rightarrow> clienthello_parsed \<Rightarrow> bytes \<Rightarrow> bytes \<Rightarrow> tls_extension list \<Rightarrow> bool" where
  \<comment> \<open>what the parse result points at is the message's random, session id, first X25519 share and first host name\<close>
  "understood data out rand sid xs \<longleftrightarrow> picked32 data (ch_random out) = Some rand
     \<and> ch_session_id_len out = length sid
     \<and> picked data (map_option (\<lambda>i. (i, ch_session_id_len out)) (ch_session_id out)) = (if sid = [] then None else Some sid)
     \<and> picked32 data (ch_x25519_key_share out) = x25519_of (all_shares xs)
     \<and> picked data (map_option (\<lambda>i. (i, ch_sni_len out)) (ch_sni out)) = host_of (all_names xs)"

lemma clienthello_tail_complete:
  assumes s0: "sees data c (enc16 (length ss) @ ss @ of_nat (length cm) # cm @ enc16 (length (concat (map enc_ext xs)))
      @ concat (map enc_ext xs) @ tr)"
    and n: "length ss < 65536" "length cm < 256" "length (concat (map enc_ext xs)) < 65536" and ok: "list_all ext_ok xs"
  shows "\<exists>sni ks. clienthello_tail data c rand sid n = Got \<lparr>ch_random = Some rand, ch_session_id = sid, ch_session_id_len = n,
       ch_x25519_key_share = ks, ch_sni = map_option fst sni, ch_sni_len = (case sni of None \<Rightarrow> 0 | Some (p, n) \<Rightarrow> n)\<rparr>
     \<and> picked data sni = host_of (all_names xs) \<and> picked32 data ks = x25519_of (all_shares xs)"
proof -
  let ?es = "concat (map enc_ext xs)"
  define c1 where "c1 = adv c 2"
  have s1: "sees data c1 (ss @ of_nat (length cm) # cm @ enc16 (length ?es) @ ?es @ tr)" using sees_adv[OF s0, of 2] by (simp add: c1_def)
  define c2 where "c2 = adv c1 (length ss)"
  have s2: "sees data c2 (of_nat (length cm) # cm @ enc16 (length ?es) @ ?es @ tr)" using sees_adv[OF s1] by (simp add: c2_def)
  define c3 where "c3 = adv c2 1"
  have s3: "sees data c3 (cm @ enc16 (length ?es) @ ?es @ tr)" using sees_adv[of data c2 "[of_nat (length cm)]" _ 1] s2 by (simp add: c3_def)
  define c4 where "c4 = adv c3 (length cm)"
  have s4: "sees data c4 (enc16 (length ?es) @ ?es @ tr)" using sees_adv[OF s3] by (simp add: c4_def)
  define c5 where "c5 = adv c4 2"
  have s5: "sees data c5 (?es @ tr)" using sees_adv[OF s4, of 2] by (simp add: c5_def)
  obtain sc where sc: "cursor_take_scoped c5 (length ?es) = Got (sc, adv c5 (length ?es))" "sees data sc ?es"
    using sees_scoped[OF s5 refl] by auto
  obtain sni ks where pe: "parse_extensions data sc None None = Got (sni, ks)" "picked data sni = host_of (all_names xs)"
    "picked32 data ks = x25519_of (all_shares xs)"
    using parse_extensions_complete[OF sc(2) ok, of None None] by (auto simp: first_of_def picked_def)
  have k: "cursor_take_u16 data c = Got (of_nat (length ss), c1)" "unat (of_nat (length ss) :: u16) = length ss"
    "cursor_skip c1 (length ss) = Got c2" "cursor_take_u8 data c2 = Got (of_nat (length cm), c3)" "unat (of_nat (length cm) :: byte) = length cm"
    "cursor_skip c3 (length cm) = Got c4" "cursor_take_u16 data c4 = Got (of_nat (length ?es), c5)" "unat (of_nat (length ?es) :: u16) = length ?es"
    using sees_len16[OF s0 n(1)] sees_take[OF s1 refl] sees_u8[OF s2] sees_take[OF s3 refl] sees_len16[OF s4 n(3)] n(2)
    by (simp_all add: cursor_skip_def c1_def c2_def c3_def c4_def c5_def unat_of_nat)
  show ?thesis using pe by (intro exI[of _ sni] exI[of _ ks]) (simp add: clienthello_tail_def k sc)
qed

lemma clienthello_fields_complete:
  assumes s0: "sees data c (enc_fields h)" and ok: "hello_ok h"
  shows "\<exists>out. clienthello_fields data c = Got out \<and> understood data out (he_random h) (he_session_id h) (he_exts h)"
proof -
  define rest where "rest = enc16 (length (he_suites h)) @ he_suites h @ of_nat (length (he_compression h)) # he_compression h
     @ enc16 (length (concat (map enc_ext (he_exts h)))) @ concat (map enc_ext (he_exts h)) @ he_trailer h"
  have n: "length (he_version h) = 2" "length (he_random h) = 32" "length (he_session_id h) < 256" "length (he_suites h) < 65536"
    "length (he_compression h) < 256" "length (concat (map enc_ext (he_exts h))) < 65536" "list_all ext_ok (he_exts h)"
    using ok by (simp_all add: hello_ok_def)
  let ?sid = "he_session_id h"
  have s0: "sees data c (he_version h @ he_random h @ of_nat (length ?sid) # ?sid @ rest)" using s0 by (simp add: enc_fields_def rest_def)
  define c1 where "c1 = adv c 2"
  have s1: "sees data c1 (he_random h @ of_nat (length ?sid) # ?sid @ rest)" using sees_adv[OF s0 n(1)] by (simp add: c1_def)
  define c2 where "c2 = adv c1 32"
  have s2: "sees data c2 (of_nat (length ?sid) # ?sid @ rest)" using sees_adv[OF s1 n(2)] by (simp add: c2_def)
  define c3 where "c3 = adv c2 1"
  have s3: "sees data c3 (?sid @ rest)" using sees_adv[of data c2 "[of_nat (length ?sid)]" _ 1] s2 by (simp add: c3_def)
  define c4 where "c4 = adv c3 (length ?sid)"
  have s4: "sees data c4 rest" using sees_adv[OF s3] by (simp add: c4_def)
  have k: "cursor_take c 2 = Got (cu_p c, c1)" "cursor_take c1 32 = Got (cu_p c1, c2)" "cursor_take_u8 data c2 = Got (of_nat (length ?sid), c3)"
    "unat (of_nat (length ?sid) :: byte) = length ?sid" "cursor_take c3 (length ?sid) = Got (cu_p c3, c4)"
    using sees_take[OF s0 n(1)] sees_take[OF s1 n(2)] sees_u8[OF s2] n(3) sees_take[OF s3 refl]
    by (simp_all add: c1_def c2_def c3_def c4_def unat_of_nat)
  have r: "picked32 data (Some (cu_p c1)) = Some (he_random h)" using sees_prefix[OF s1 n(2)] by (simp add: picked_def)
  note tail = clienthello_tail_complete[OF _ n(4,5,6,7), of data _ "he_trailer h", folded rest_def]
  have sni: "picked data (map_option (\<lambda>i. (i, case s of None \<Rightarrow> 0 | Some (p, n) \<Rightarrow> n)) (map_option fst s)) = picked data s" for s
    by (cases s) (auto simp: picked_def)
  show ?thesis
  proof (cases "?sid = []")
    case True
    then have "c4 = c3" "(of_nat (length ?sid) :: byte) = 0" by (simp_all add: c4_def adv_def)
    then show ?thesis using True k r sni tail[OF s4, of "cu_p c1" None 0]
      by (simp add: clienthello_fields_def understood_def) (auto simp: picked_def)
  next
    case False
    then have pos: "(of_nat (length ?sid) :: byte) > 0" using k(4) by (metis length_greater_0_conv unat_0 word_greater_zero_iff neq0_conv)
    have "picked data (map_option (\<lambda>i. (i, length ?sid)) (Some (cu_p c3))) = Some ?sid" using sees_prefix[OF s3 refl] by (simp add: picked_def)
    then show ?thesis using False pos k r sni tail[OF s4, of "cu_p c1" "Some (cu_p c3)" "length ?sid"]
      by (simp add: clienthello_fields_def understood_def) (auto simp: picked_def)
  qed
qed


lemma clienthello_parse_complete:
  assumes ok: "hello_ok h"
  shows "\<exists>out. cloak_clienthello_parse (enc_hello h) = Some (0, out)
     \<and> understood (enc_hello h) out (he_random h) (he_session_id h) (he_exts h)"
proof -
  let ?d = "enc_hello h" and ?n = "length (enc_fields h)"
  define c where "c = \<lparr>cu_p = 0, cu_remaining = length ?d\<rparr>"
  define msg where "msg = be_store 3 (of_nat ?n :: u32) @ enc_fields h"
  have l: "length (he_record_len h) = 2" "?n < 2 ^ 24" using ok by (simp_all add: hello_ok_def)
  have d: "?d = ([0x16, 0x03, 0x01] @ he_record_len h) @ 1 # msg" by (simp add: enc_hello_def msg_def)
  have s0: "sees ?d c (([0x16, 0x03, 0x01] @ he_record_len h) @ 1 # msg)" by (simp add: sees_def c_def d)
  define c1 where "c1 = adv c 5"
  have s1: "sees ?d c1 (1 # msg)" using sees_adv[OF s0, of 5] l(1) by (simp add: c1_def)
  define c2 where "c2 = adv c1 1"
  have s2: "sees ?d c2 msg" using sees_adv[of ?d c1 "[1]" msg 1] s1 by (simp add: c2_def)
  define c3 where "c3 = adv c2 3"
  have s3: "sees ?d c3 (enc_fields h)" using sees_adv[of ?d c2 "be_store 3 (of_nat ?n :: u32)" "enc_fields h" 3] s2 by (simp add: c3_def msg_def)
  obtain v where v: "cursor_take_u24 ?d c2 = Got (v, c3)" "unat v = ?n" using sees_u24[of ?d c2 ?n "enc_fields h"] s2 l(2) by (auto simp: msg_def c3_def)
  have "clienthello_message ?d c1 = clienthello_fields ?d c3"
    using sees_u8[OF s1] v sees_remaining[OF s3] by (simp add: clienthello_message_def c2_def)
  moreover have "cursor_take c 5 = Got (0, c1)" using sees_take[OF s0, of 5] l(1) by (simp add: c1_def) (simp add: c_def)
  moreover have "rd ?d 0 = Got 0x16" "rd ?d 1 = Got 0x03" "rd ?d 2 = Got 0x01" by (simp_all add: rd_def d)
  ultimately have "clienthello_record ?d = clienthello_fields ?d c3"
    by (simp add: clienthello_record_def c_def numeral_2_eq_2)
  then show ?thesis using clienthello_fields_complete[OF s3 ok] by (auto simp: cloak_clienthello_parse_def)
qed

text \<open>
  C10: every well-formed message is accepted and read correctly. For every ClientHello built from any record length bytes, version, random,
  session id, cipher suites, compression methods, extensions and trailing bytes that fit their length fields, the parser succeeds; the pointers
  it returns lead to exactly that random and session id, to the first 32-byte X25519 key share in the order of the extensions,
  and to the first host name, and they are NULL exactly when the message has none.
\<close>

theorem clienthello_parse_encoded:
  assumes "hello_ok h"
  shows "\<exists>out. cloak_clienthello_parse (enc_hello h) = Some (0, out)
     \<and> picked32 (enc_hello h) (ch_random out) = Some (he_random h)
     \<and> picked (enc_hello h) (map_option (\<lambda>i. (i, ch_session_id_len out)) (ch_session_id out))
         = (if he_session_id h = [] then None else Some (he_session_id h))
     \<and> picked32 (enc_hello h) (ch_x25519_key_share out) = x25519_of (all_shares (he_exts h))
     \<and> picked (enc_hello h) (map_option (\<lambda>i. (i, ch_sni_len out)) (ch_sni out)) = host_of (all_names (he_exts h))"
  using clienthello_parse_complete[OF assms] unfolding understood_def by (elim exE conjE) (intro exI conjI)

definition sample_hello :: hello where
  "sample_hello = \<lparr>he_record_len = [0, 0], he_version = [3, 3], he_random = replicate 32 1, he_session_id = replicate 32 2,
     he_suites = [0x13, 0x01], he_compression = [0],
     he_exts = [ExtServerName [(0, [97, 98])], ExtOther 5 [1], ExtKeyShare [(0x17, [1, 2]), (0x1d, replicate 32 3)]], he_trailer = []\<rparr>"

theorem clienthello_parse_encoded_witness:
  "\<exists>out. cloak_clienthello_parse (enc_hello sample_hello) = Some (0, out)
     \<and> picked32 (enc_hello sample_hello) (ch_x25519_key_share out) = Some (replicate 32 3)"
proof -
  have "hello_ok sample_hello"
    by (simp add: hello_ok_def sample_hello_def enc_fields_def enc_ext_def ch_consts)
  moreover have "x25519_of (all_shares (he_exts sample_hello)) = Some (replicate 32 3)"
    by (simp add: sample_hello_def all_shares_def x25519_of_def ch_consts)
  ultimately show ?thesis using clienthello_parse_encoded[of sample_hello] by auto
qed

end
