(* ===== verification/Auth.thy ===== *)
theory Auth
  imports Aead CloakRandom
begin

text \<open>
  The authentication of a client: \<open>libcloak-common/src/x25519.c\<close>, \<open>libcloak-client/src/client_auth.c\<close> (the payload a client hides in its
  ClientHello) and \<open>libcloak-server/src/server_auth.c\<close> (its decryption and the server's replies). OpenSSL's key agreement is the
  parameter \<open>x25519_evp\<close>, one field per call of the two wrappers, a failing call being \<^const>\<open>False\<close> or \<^const>\<open>None\<close>; a return
  of -1 is \<^const>\<open>None\<close>. A C string is the list of its bytes before the terminator, \<open>int64_t\<close> times are integers.
\<close>

section \<open>Key agreement\<close>

record x25519_evp =
  xv_ctx_new :: bool
  xv_keygen_init :: bool
  xv_keygen :: "nat option"  \<comment> \<open>the key object generated, by its handle\<close>
  xv_raw_private :: "nat \<Rightarrow> bytes option"
  xv_raw_public :: "nat \<Rightarrow> bytes option"
  xv_new_private :: "bytes \<Rightarrow> nat option"
  xv_new_public :: "bytes \<Rightarrow> nat option"
  xv_derive_ctx :: bool
  xv_derive_init :: bool
  xv_set_peer :: "nat \<Rightarrow> bool"
  xv_derive :: "nat \<Rightarrow> nat \<Rightarrow> bytes option"

definition cloak_x25519_generate_keypair :: "x25519_evp \<Rightarrow> (bytes \<times> bytes) option" where
  "cloak_x25519_generate_keypair x =
     (if \<not> xv_ctx_new x then None
      else if \<not> xv_keygen_init x then None
      else case xv_keygen x of
             None \<Rightarrow> None
           | Some pkey \<Rightarrow>
               (case xv_raw_private x pkey of
                  None \<Rightarrow> None
                | Some priv \<Rightarrow> (case xv_raw_public x pkey of None \<Rightarrow> None | Some pub \<Rightarrow> Some (priv, pub))))"

definition cloak_x25519_shared_secret :: "x25519_evp \<Rightarrow> bytes \<Rightarrow> bytes \<Rightarrow> bytes option" where
  "cloak_x25519_shared_secret x priv peer_pub =
     (case (xv_new_private x priv, xv_new_public x peer_pub) of
        (Some pkey, Some peer) \<Rightarrow>
          if \<not> xv_derive_ctx x then None
          else if \<not> xv_derive_init x then None
          else if \<not> xv_set_peer x peer then None
          else xv_derive x pkey peer
      | _ \<Rightarrow> None)"

definition x25519_agrees :: "x25519_evp \<Rightarrow> bytes \<Rightarrow> bytes \<Rightarrow> bool" where
  \<comment> \<open>the two sides of a key agreement with the key pair \<open>(spriv, spub)\<close> derive the same 32 bytes; public keys have 32 bytes\<close>
  "x25519_agrees x spriv spub \<longleftrightarrow> (\<forall>priv pub. cloak_x25519_generate_keypair x = Some (priv, pub) \<longrightarrow>
     length pub = 32 \<and> (\<forall>ss. cloak_x25519_shared_secret x priv spub = Some ss \<longrightarrow>
        length ss = 32 \<and> cloak_x25519_shared_secret x spriv pub = Some ss))"

section \<open>The client's payload\<close>

definition CLOAK_UID_LEN :: nat where "CLOAK_UID_LEN = 16"
definition CLOAK_PROXY_METHOD_LEN :: nat where "CLOAK_PROXY_METHOD_LEN = 12"
definition CLOAK_CLIENT_AUTH_PLAINTEXT_LEN :: nat where "CLOAK_CLIENT_AUTH_PLAINTEXT_LEN = 48"
definition CLOAK_CLIENT_AUTH_UNORDERED_FLAG :: byte where "CLOAK_CLIENT_AUTH_UNORDERED_FLAG = 1"

record client_auth_payload =
  ap_random :: bytes
  ap_ciphertext :: bytes

definition client_auth_plaintext :: "bytes \<Rightarrow> bytes \<Rightarrow> byte \<Rightarrow> u32 \<Rightarrow> bool \<Rightarrow> int \<Rightarrow> bytes" where
  "client_auth_plaintext uid proxy_method encryption_method session_id unordered now_unix =
     (let p0 = replicate CLOAK_CLIENT_AUTH_PLAINTEXT_LEN 0;
          p1 = blit p0 0 uid;
          p2 = blit p1 16 proxy_method;
          p3 = p2[28 := encryption_method];
          p4 = blit p3 29 (be_store 8 (of_int now_unix :: u64));
          p5 = blit p4 37 (be32_store session_id)
      in if unordered then p5[41 := p5 ! 41 OR CLOAK_CLIENT_AUTH_UNORDERED_FLAG] else p5)"

definition cloak_client_auth_build ::
  "evp \<Rightarrow> x25519_evp \<Rightarrow> bytes \<Rightarrow> bytes option \<Rightarrow> byte \<Rightarrow> u32 \<Rightarrow> bool \<Rightarrow> int \<Rightarrow> bytes \<Rightarrow> (client_auth_payload \<times> bytes) option" where
  "cloak_client_auth_build e x uid proxy_method encryption_method session_id unordered now_unix server_pub =
     (case proxy_method of
        None \<Rightarrow> None
      | Some pm \<Rightarrow>
          if length pm > CLOAK_PROXY_METHOD_LEN then None
          else case cloak_x25519_generate_keypair x of
                 None \<Rightarrow> None
               | Some (eph_priv, eph_pub) \<Rightarrow>
                   (case cloak_x25519_shared_secret x eph_priv server_pub of
                      None \<Rightarrow> None
                    | Some shared_secret \<Rightarrow>
                        (case cloak_aead_seal e CLOAK_AEAD_AES_256_GCM shared_secret eph_pub []
                                (client_auth_plaintext uid pm encryption_method session_id unordered now_unix) of
                           None \<Rightarrow> None
                         | Some ciphertext \<Rightarrow>
                             if length ciphertext \<noteq> 64 then None
                             else Some (\<lparr>ap_random = eph_pub, ap_ciphertext = ciphertext\<rparr>, shared_secret))))"

section \<open>The server's side\<close>

definition CLOAK_SERVER_AUTH_TIMESTAMP_TOLERANCE_SECONDS :: int where "CLOAK_SERVER_AUTH_TIMESTAMP_TOLERANCE_SECONDS = 180"
definition CLOAK_SERVER_AUTH_UNORDERED_FLAG :: byte where "CLOAK_SERVER_AUTH_UNORDERED_FLAG = 1"
definition CLOAK_SERVER_AUTH_WS_REPLY_LEN :: nat where "CLOAK_SERVER_AUTH_WS_REPLY_LEN = 60"

lemmas auth_consts = CLOAK_UID_LEN_def CLOAK_PROXY_METHOD_LEN_def CLOAK_CLIENT_AUTH_PLAINTEXT_LEN_def CLOAK_CLIENT_AUTH_UNORDERED_FLAG_def
  CLOAK_SERVER_AUTH_TIMESTAMP_TOLERANCE_SECONDS_def CLOAK_SERVER_AUTH_UNORDERED_FLAG_def CLOAK_SERVER_AUTH_WS_REPLY_LEN_def
  INT64_MIN_def INT64_MAX_def

record server_clientinfo =
  ci_uid :: bytes
  ci_proxy_method :: bytes
  ci_encryption_method :: byte
  ci_session_id :: u32
  ci_unordered :: bool
  ci_is_admin :: bool

definition load_be64_signed :: "bytes \<Rightarrow> int" where
  "load_be64_signed p = sint (be_load (take 8 p) 0 :: u64)"

definition trim_nul_copy :: "bytes \<Rightarrow> nat \<Rightarrow> bytes" where
  \<comment> \<open>what is before the terminator written to \<open>out\<close>\<close>
  "trim_nul_copy inp out_cap =
     (let trimmed = rev (dropWhile (\<lambda>b. b = 0) (rev (dropWhile (\<lambda>b. b = 0) inp)))
      in if length trimmed \<ge> out_cap then take (out_cap - 1) trimmed else trimmed)"

definition cloak_server_auth_decrypt ::
  "evp \<Rightarrow> x25519_evp \<Rightarrow> bytes \<Rightarrow> bytes option \<Rightarrow> bytes option \<Rightarrow> bytes \<Rightarrow> int \<Rightarrow> (server_clientinfo \<times> bytes) option" where
  "cloak_server_auth_decrypt e x rand session_id_field key_share_field server_priv now_unix =
     (case (session_id_field, key_share_field) of
        (Some sid, Some ks) \<Rightarrow>
          if length sid \<noteq> 32 then None
          else case cloak_x25519_shared_secret x server_priv rand of
                 None \<Rightarrow> None
               | Some shared_secret \<Rightarrow>
                   (case cloak_aead_open e CLOAK_AEAD_AES_256_GCM shared_secret rand [] (sid @ take 32 ks) of
                      None \<Rightarrow> None
                    | Some plaintext \<Rightarrow>
                        if length plaintext \<noteq> 48 then None
                        else
                          let timestamp = load_be64_signed (drop 29 plaintext);
                              tol = CLOAK_SERVER_AUTH_TIMESTAMP_TOLERANCE_SECONDS;
                              lower = (if now_unix > INT64_MIN + tol then now_unix - tol else INT64_MIN);
                              upper = (if now_unix < INT64_MAX - tol then now_unix + tol else INT64_MAX)
                          in
                          if timestamp \<le> lower \<or> timestamp \<ge> upper then None
                          else Some (\<lparr>ci_uid = take 16 plaintext,
                                      ci_proxy_method = trim_nul_copy (take 12 (drop 16 plaintext)) 13,
                                      ci_encryption_method = plaintext ! 28,
                                      ci_session_id = be32_load (drop 37 plaintext),
                                      ci_unordered = (plaintext ! 41 AND CLOAK_SERVER_AUTH_UNORDERED_FLAG \<noteq> 0),
                                      ci_is_admin = False\<rparr>, shared_secret))
      | _ \<Rightarrow> None)"

definition cloak_server_auth_cert_lens :: "nat list" where
  "cloak_server_auth_cert_lens = [42, 27, 68, 59, 36, 44, 46]"

definition cert_len_is_valid :: "nat \<Rightarrow> bool" where
  "cert_len_is_valid n = list_ex (\<lambda>l. l = n) cloak_server_auth_cert_lens"

definition server_hello :: "bytes \<Rightarrow> bytes \<Rightarrow> bytes \<Rightarrow> bytes \<Rightarrow> bytes" where
  \<comment> \<open>the 122 bytes of the ServerHello record's body\<close>
  "server_hello reply_nonce encrypted_session_key client_session_id pad4 =
     [0x02, 0x00, 0x00, 0x76, 0x03, 0x03] @ reply_nonce @ take 20 encrypted_session_key
     @ [0x20] @ client_session_id @ [0x13, 0x02, 0x00] @ be16_store (0x002e :: u16)
     @ be16_store (0x0033 :: u16) @ be16_store (0x0024 :: u16) @ be16_store (0x001d :: u16) @ be16_store (0x0020 :: u16)
     @ drop 20 encrypted_session_key @ pad4
     @ be16_store (0x002b :: u16) @ be16_store (0x0002 :: u16) @ [0x03, 0x04]"

definition cloak_server_auth_compose_reply ::
  "evp \<Rightarrow> bytes \<Rightarrow> bytes \<Rightarrow> bytes \<Rightarrow> bytes \<Rightarrow> bytes \<Rightarrow> bytes \<Rightarrow> nat \<Rightarrow> bytes option" where
  "cloak_server_auth_compose_reply e shared_secret session_key reply_nonce client_session_id pad4 fake_cert out_cap =
     (if \<not> cert_len_is_valid (length fake_cert) then None
      else
        let sh_len = 122; total_len = (5 + sh_len) + (5 + 1) + (5 + length fake_cert) in
        if out_cap < total_len then None
        else case cloak_aead_seal e CLOAK_AEAD_AES_256_GCM shared_secret reply_nonce [] session_key of
               None \<Rightarrow> None
             | Some encrypted_session_key \<Rightarrow>
                 if length encrypted_session_key \<noteq> 48 then None
                 else Some (
                   [0x16, 0x03, 0x03] @ be16_store (of_nat sh_len :: u16) @ server_hello reply_nonce encrypted_session_key client_session_id pad4
                   @ [0x14, 0x03, 0x03] @ be16_store (1 :: u16) @ [0x01]
                   @ [0x17, 0x03, 0x03] @ be16_store (of_nat (length fake_cert) :: u16) @ fake_cert))"

definition cloak_server_auth_compose_ws_reply :: "evp \<Rightarrow> entropy \<Rightarrow> bytes \<Rightarrow> bytes \<Rightarrow> bytes option" where
  "cloak_server_auth_compose_ws_reply e r session_key shared_secret =
     (let nonce = rnd_bytes r CLOAK_AEAD_NONCE_LEN in
      case cloak_aead_seal e CLOAK_AEAD_AES_256_GCM shared_secret nonce [] session_key of
        None \<Rightarrow> None
      | Some sealed \<Rightarrow>
          if length sealed \<noteq> CLOAK_SERVER_AUTH_WS_REPLY_LEN - CLOAK_AEAD_NONCE_LEN then None
          else Some (nonce @ sealed))"


section \<open>The layout of the payload\<close>

lemma blit_at: "length a = off \<Longrightarrow> length b = length src \<Longrightarrow> blit (a @ b @ c) off src = a @ src @ c"
  by (simp add: blit_def)

lemma plaintext_layout:
  assumes "length uid = 16" "length pm \<le> 12"
  shows "client_auth_plaintext uid pm em sid uo now =
     uid @ pm @ replicate (12 - length pm) 0 @ [em] @ be_store 8 (of_int now :: u64) @ be32_store sid
       @ [if uo then 1 else 0] @ replicate 6 0"
proof -
  let ?z = "\<lambda>n. replicate n (0 :: byte)" and ?t = "be_store 8 (of_int now :: u64)" and ?k = "12 - length pm"
  have "blit (?z 48) 0 uid = uid @ ?z (length pm) @ ?z ?k @ ?z 20"
    using assms by (simp add: blit_def flip: replicate_add)
  then have b2: "blit (blit (?z 48) 0 uid) 16 pm = (uid @ pm @ ?z ?k) @ 0 # ?z 8 @ ?z 4 @ 0 # ?z 6"
    using blit_at[of uid 16 "?z (length pm)" pm "?z ?k @ ?z 20"] assms
    by (simp add: numeral_eq_Suc)
  then have b3: "(blit (blit (?z 48) 0 uid) 16 pm)[28 := em] = (uid @ pm @ ?z ?k @ [em]) @ ?z 8 @ ?z 4 @ 0 # ?z 6"
    using assms by (simp add: list_update_append)
  then have b4: "blit ((blit (blit (?z 48) 0 uid) 16 pm)[28 := em]) 29 ?t = (uid @ pm @ ?z ?k @ [em] @ ?t) @ ?z 4 @ 0 # ?z 6"
    using blit_at[of "uid @ pm @ ?z ?k @ [em]" 29 "?z 8" ?t "?z 4 @ 0 # ?z 6"] assms by simp
  have b5: "blit (blit ((blit (blit (?z 48) 0 uid) 16 pm)[28 := em]) 29 ?t) 37 (be32_store sid)
      = (uid @ pm @ ?z ?k @ [em] @ ?t @ be32_store sid) @ 0 # ?z 6"
    using blit_at[of "uid @ pm @ ?z ?k @ [em] @ ?t" 37 "?z 4" "be32_store sid" "0 # ?z 6"] assms unfolding b4 by simp
  have l: "length (uid @ pm @ ?z ?k @ [em] @ ?t @ be32_store sid) = 41" using assms by simp
  show ?thesis
    unfolding client_auth_plaintext_def Let_def CLOAK_CLIENT_AUTH_PLAINTEXT_LEN_def b5 list_update_append nth_append l
    by (simp add: CLOAK_CLIENT_AUTH_UNORDERED_FLAG_def)
qed

lemma dropWhile_zero: "0 \<notin> set pm \<Longrightarrow> dropWhile (\<lambda>b. b = 0) (pm @ xs) = (if pm = [] then dropWhile (\<lambda>b. b = 0) xs else pm @ xs)"
  by (cases pm) auto

lemma trim_padded: "0 \<notin> set pm \<Longrightarrow> length pm \<le> 12 \<Longrightarrow> trim_nul_copy (pm @ replicate k 0) 13 = pm"
proof -
  assume pm: "0 \<notin> set pm" "length pm \<le> 12"
  have z: "dropWhile (\<lambda>b. b = 0) (replicate k 0 :: bytes) = []" by (induct k) auto
  have r: "dropWhile (\<lambda>b. b = 0) (rev (pm @ replicate k 0)) = rev pm"
  proof -
    have "dropWhile (\<lambda>b. b = 0) (replicate k 0 @ rev pm) = dropWhile (\<lambda>b. b = 0) (rev pm)" by (induct k) auto
    then show ?thesis using pm(1) by (cases "rev pm") auto
  qed
  show ?thesis using pm r z by (cases "pm = []") (auto simp: trim_nul_copy_def dropWhile_zero Let_def)
qed

lemma timestamp_back: "INT64_MIN \<le> now \<Longrightarrow> now \<le> INT64_MAX \<Longrightarrow> load_be64_signed (be_store 8 (of_int now :: u64) @ xs) = now"
  by (simp add: load_be64_signed_def be_load_store take_bit_word_full INT64_MIN_def INT64_MAX_def sint_sbintrunc' signed_take_bit_int_eq_self)

lemma build_shape:
  assumes "evp_sound e" "cloak_client_auth_build e x uid (Some pm) em sid uo now spub = Some (ap, ss)" "length uid = 16"
  shows "\<exists>priv. cloak_x25519_generate_keypair x = Some (priv, ap_random ap) \<and> cloak_x25519_shared_secret x priv spub = Some ss
     \<and> length pm \<le> 12 \<and> length (ap_ciphertext ap) = 64
     \<and> cloak_aead_open e CLOAK_AEAD_AES_256_GCM ss (ap_random ap) [] (ap_ciphertext ap) = Some (client_auth_plaintext uid pm em sid uo now)"
  using assms aead_open_seal[OF assms(1)]
  by (auto simp: cloak_client_auth_build_def CLOAK_PROXY_METHOD_LEN_def split: if_splits option.splits prod.splits)

lemma honest_decrypted:
  assumes "evp_sound e" "x25519_agrees x spriv spub"
    and "cloak_client_auth_build e x uid (Some pm) em sid uo now spub = Some (ap, ss)"
    and "length uid = 16" "0 \<notin> set pm" "INT64_MIN \<le> now" "now \<le> INT64_MAX"
    and "INT64_MIN + 180 < now'" "now' < INT64_MAX - 180"
  shows "cloak_server_auth_decrypt e x (ap_random ap) (Some (take 32 (ap_ciphertext ap))) (Some (drop 32 (ap_ciphertext ap))) spriv now'
     = (if \<bar>now - now'\<bar> < 180
        then Some (\<lparr>ci_uid = uid, ci_proxy_method = pm, ci_encryption_method = em, ci_session_id = sid, ci_unordered = uo, ci_is_admin = False\<rparr>, ss)
        else None)"
proof -
  obtain priv where b: "cloak_x25519_generate_keypair x = Some (priv, ap_random ap)" "cloak_x25519_shared_secret x priv spub = Some ss"
    "length pm \<le> 12" "length (ap_ciphertext ap) = 64"
    "cloak_aead_open e CLOAK_AEAD_AES_256_GCM ss (ap_random ap) [] (ap_ciphertext ap) = Some (client_auth_plaintext uid pm em sid uo now)"
    using build_shape[OF assms(1,3,4)] by blast
  have dh: "cloak_x25519_shared_secret x spriv (ap_random ap) = Some ss"
    using assms(2) b(1,2) unfolding x25519_agrees_def by blast
  define p where "p = client_auth_plaintext uid pm em sid uo now"
  define pad where "pad = pm @ replicate (12 - length pm) (0 :: byte)"
  have pad: "length pad = 12" "trim_nul_copy pad 13 = pm" using b(3) trim_padded[OF assms(5) b(3)] by (simp_all add: pad_def)
  have p: "p = uid @ pad @ [em] @ be_store 8 (of_int now :: u64) @ be32_store sid @ [if uo then 1 else 0] @ replicate 6 0"
    using plaintext_layout[OF assms(4) b(3)] by (simp add: p_def pad_def)
  have f: "length p = 48" "take 16 p = uid" "take 12 (drop 16 p) = pad" "p ! 28 = em" "be32_load (drop 37 p) = sid"
    "p ! 41 = (if uo then 1 else 0)" "load_be64_signed (drop 29 p) = now"
    using pad assms(4) timestamp_back[OF assms(6,7)] unfolding p
    by (simp_all add: nth_append take_bit_word_full be32_load_store)
  have "take 32 (drop 32 (ap_ciphertext ap)) = drop 32 (ap_ciphertext ap)" using b(4) by simp
  then have "cloak_server_auth_decrypt e x (ap_random ap) (Some (take 32 (ap_ciphertext ap))) (Some (drop 32 (ap_ciphertext ap))) spriv now'
     = (if now \<le> now' - 180 \<or> now' + 180 \<le> now then None
        else Some (\<lparr>ci_uid = uid, ci_proxy_method = pm, ci_encryption_method = em, ci_session_id = sid,
               ci_unordered = ((if uo then 1 else 0 :: byte) AND 1 \<noteq> 0), ci_is_admin = False\<rparr>, ss))"
    using dh b(4,5) f pad assms(8,9) by (simp add: cloak_server_auth_decrypt_def p_def[symmetric] Let_def auth_consts)
  then show ?thesis by auto
qed


text \<open>
  C8: authentication round trip. The 64-byte ciphertext a client builds under the server's public key, carried as session id and key share,
  is accepted by the server holding the matching private key exactly when the two clocks differ by less than 180 seconds,
  and then yields the client's own user id, proxy method, encryption method, session id and ordering flag, never an administrator, together with the same shared secret.
\<close>

theorem auth_round_trip:
  assumes "evp_sound e" "x25519_agrees x spriv spub"
    and "cloak_client_auth_build e x uid (Some pm) em sid uo now spub = Some (ap, ss)"
    and "length uid = 16" "0 \<notin> set pm" "INT64_MIN \<le> now" "now \<le> INT64_MAX"
    and "INT64_MIN + 180 < now'" "now' < INT64_MAX - 180"
  shows "cloak_server_auth_decrypt e x (ap_random ap) (Some (take 32 (ap_ciphertext ap))) (Some (drop 32 (ap_ciphertext ap))) spriv now'
     = (if \<bar>now - now'\<bar> < 180
        then Some (\<lparr>ci_uid = uid, ci_proxy_method = pm, ci_encryption_method = em, ci_session_id = sid, ci_unordered = uo, ci_is_admin = False\<rparr>, ss)
        else None)"
  by (rule honest_decrypted[OF assms])

definition toy_x25519 :: x25519_evp where
  \<comment> \<open>keys are 32 equal bytes, the public key is three times the private one, agreement is the product\<close>
  "toy_x25519 = \<lparr>xv_ctx_new = True, xv_keygen_init = True, xv_keygen = Some 5, xv_raw_private = (\<lambda>k. Some (replicate 32 (of_nat k))),
     xv_raw_public = (\<lambda>k. Some (replicate 32 (of_nat (3 * k)))), xv_new_private = (\<lambda>b. Some (unat (hd b))), xv_new_public = (\<lambda>b. Some (unat (hd b))),
     xv_derive_ctx = True, xv_derive_init = True, xv_set_peer = (\<lambda>p. True), xv_derive = (\<lambda>k p. Some (replicate 32 (of_nat (k * p))))\<rparr>"

lemma toy_x25519_agrees: "x25519_agrees toy_x25519 (replicate 32 7) (replicate 32 21)"
  by (simp add: x25519_agrees_def toy_x25519_def cloak_x25519_generate_keypair_def cloak_x25519_shared_secret_def)

lemma toy_auth_builds:
  "\<exists>ap ss. cloak_client_auth_build toy_evp toy_x25519 (replicate 16 1) (Some [115, 115]) 1 77 True 1000 (replicate 32 21) = Some (ap, ss)"
proof -
  let ?p = "client_auth_plaintext (replicate 16 1) [115, 115] 1 77 True 1000"
  have "length ?p = 48" using plaintext_layout[of "replicate 16 1" "[115, 115]"] by simp
  moreover obtain ct where "cloak_aead_seal toy_evp CLOAK_AEAD_AES_256_GCM (replicate 32 105) (replicate 32 15) [] ?p = Some ct"
    by (simp add: cloak_aead_seal_def toy_evp_def Let_def)
  moreover from aead_seal_length[OF toy_evp_sound this] have "length ct = length ?p + 16" by (simp add: cloak_aead_overhead_def CLOAK_AEAD_TAG_LEN_def)
  ultimately show ?thesis
    by (simp add: cloak_client_auth_build_def CLOAK_PROXY_METHOD_LEN_def toy_x25519_def cloak_x25519_generate_keypair_def cloak_x25519_shared_secret_def)
qed

theorem auth_round_trip_witness:
  "\<exists>(ap :: client_auth_payload) ss. cloak_server_auth_decrypt toy_evp toy_x25519 (ap_random ap) (Some (take 32 (ap_ciphertext ap))) (Some (drop 32 (ap_ciphertext ap)))
       (replicate 32 7) 1100
     = Some (\<lparr>ci_uid = replicate 16 1, ci_proxy_method = [115, 115], ci_encryption_method = 1, ci_session_id = 77, ci_unordered = True,
         ci_is_admin = False\<rparr>, ss)"
proof -
  obtain ap ss where b: "cloak_client_auth_build toy_evp toy_x25519 (replicate 16 1) (Some [115, 115]) 1 77 True 1000 (replicate 32 21) = Some (ap, ss)"
    using toy_auth_builds by blast
  show ?thesis using auth_round_trip[OF toy_evp_sound toy_x25519_agrees b, of 1100]
    by (intro exI[of _ ap] exI[of _ ss]) (simp add: INT64_MIN_def INT64_MAX_def)
qed

section \<open>How long a captured payload stays acceptable\<close>

lemma accepted_near:
  assumes "cloak_server_auth_decrypt e x rand sid ks spriv now = Some r" "INT64_MIN + 180 < now" "now < INT64_MAX - 180"
  shows "\<exists>ss p. cloak_x25519_shared_secret x spriv rand = Some ss
     \<and> cloak_aead_open e CLOAK_AEAD_AES_256_GCM ss rand [] (the sid @ take 32 (the ks)) = Some p
     \<and> \<bar>load_be64_signed (drop 29 p) - now\<bar> < 180"
  using assms by (auto simp: cloak_server_auth_decrypt_def auth_consts Let_def abs_less_iff split: option.splits if_splits)

lemma accepted_twice_near:
  assumes "cloak_server_auth_decrypt e x rand sid ks spriv t1 = Some r1" "cloak_server_auth_decrypt e x rand sid ks spriv t2 = Some r2"
    and "INT64_MIN + 180 < t1" "t1 < INT64_MAX - 180" "INT64_MIN + 180 < t2" "t2 < INT64_MAX - 180"
  shows "\<bar>t1 - t2\<bar> < 360"
  using accepted_near[OF assms(1,3,4)] accepted_near[OF assms(2,5,6)] by auto

end
