(* ===== verification/AsciiText.thy ===== *)
theory AsciiText
  imports CloakPrelude
begin

text \<open>
  The ASCII helpers that the two HTTP readers (\<open>libcloak-server/src/http.c\<close> and \<open>libcloak-server/src/ws_handshake.c\<close>) and the name
  comparisons elsewhere repeat as \<open>static\<close> functions: case folding, token octets, optional white space, and a literal as bytes.
\<close>

definition lit :: "string \<Rightarrow> bytes" where
  "lit s = map of_char s"

definition text_of :: "bytes \<Rightarrow> string" where
  "text_of b = map (\<lambda>c. char_of (unat c)) b"

definition ascii_lower :: "byte \<Rightarrow> byte" where
  "ascii_lower b = (if 65 \<le> b \<and> b \<le> 90 then b + 32 else b)"

definition is_token_octet :: "byte \<Rightarrow> bool" where
  "is_token_octet c \<longleftrightarrow> 97 \<le> c \<and> c \<le> 122 \<or> 65 \<le> c \<and> c \<le> 90 \<or> 48 \<le> c \<and> c \<le> 57
     \<or> c \<in> set (map of_char ''!#$%&*+-.^_`|~'') \<or> c = 39"

definition is_ows :: "byte \<Rightarrow> bool" where
  "is_ows c \<longleftrightarrow> c = 32 \<or> c = 9"

definition trim_ows :: "bytes \<Rightarrow> bytes" where
  \<comment> \<open>the two loops that drop optional white space from the front and then from the end of a value\<close>
  "trim_ows v = rev (dropWhile is_ows (rev (dropWhile is_ows v)))"

definition ci_eq :: "bytes \<Rightarrow> bytes \<Rightarrow> bool" where
  \<comment> \<open>equal up to ASCII case\<close>
  "ci_eq s l \<longleftrightarrow> map ascii_lower s = map ascii_lower l"

lemma length_lit [simp]: "length (lit s) = length s"
  by (simp add: lit_def)

lemma unat_of_char: "unat (of_char c :: byte) = of_char c"
proof -
  have "unat (of_nat (of_char c :: nat) :: byte) = of_char c"
    unfolding unat_of_nat using nat_of_char_less_256[of c] by simp
  then show ?thesis by (simp only: of_nat_of_char)
qed

lemma text_of_lit [simp]: "text_of (lit s) = s"
  by (simp add: text_of_def lit_def unat_of_char map_idI comp_def)

lemma token_octet_plain: "is_token_octet c \<Longrightarrow> c \<noteq> 13 \<and> c \<noteq> 10 \<and> c \<noteq> 32 \<and> c \<noteq> 9 \<and> c \<noteq> 58 \<and> c \<noteq> 44"
  by (auto simp: is_token_octet_def)

lemma tokens_plain: "list_all is_token_octet s \<Longrightarrow> 13 \<notin> set s \<and> 58 \<notin> set s \<and> 32 \<notin> set s \<and> 44 \<notin> set s"
  using token_octet_plain by (auto simp: list_all_iff)

lemma set_trim_ows: "set (trim_ows v) \<subseteq> set v"
  by (auto simp: trim_ows_def dest!: set_dropWhileD)

lemma trim_ows_id: "v \<noteq> [] \<Longrightarrow> \<not> is_ows (hd v) \<Longrightarrow> \<not> is_ows (last v) \<Longrightarrow> trim_ows v = v"
  by (cases v) (simp_all add: trim_ows_def hd_rev[symmetric] dropWhile_eq_self_iff)

lemma ci_eq_len: "ci_eq s l \<Longrightarrow> length s = length l"
  unfolding ci_eq_def by (metis length_map)

lemma ci_eq_trans: "ci_eq s l \<Longrightarrow> ci_eq s l' \<Longrightarrow> ci_eq l l'"
  by (simp add: ci_eq_def)

lemma ci_eq_refl [simp]: "ci_eq s s"
  by (simp add: ci_eq_def)

section \<open>Header fields\<close>

text \<open>A field line as a message has it: the name and the raw value behind the colon.\<close>

type_synonym header = "bytes \<times> bytes"

definition enc_header :: "header \<Rightarrow> bytes" where
  "enc_header h = fst h @ 58 # snd h @ [13, 10]"

lemma split_at:
  assumes "c \<in> set xs"
  shows "xs = takeWhile (\<lambda>b. b \<noteq> c) xs @ c # drop (length (takeWhile (\<lambda>b. b \<noteq> c) xs) + 1) xs"
  using assms by (induct xs) auto

end
