(* ===== verification/ClientTransport.thy ===== *)
theory ClientTransport
  imports AsciiText Auth
begin

text \<open>
  \<open>libcloak-client/src/client_transport.c\<close>: the client's TLS-looking handshake. It writes one ClientHello record, then reads the
  three records of the server's reply, never asking the kernel for a byte past the piece it is in, and recovers the session key from the first.

  The reactor's registration and the deadline timer are the flags \<open>hs_fd_registered\<close> and \<open>hs_deadline\<close>; whether
  \<open>cloak_reactor_mod_fd\<close> succeeds is a parameter, the socket is the record \<open>io_env\<close>. A loop that would never return is \<^const>\<open>None\<close>.
  The owner's callback is the list \<open>hs_done\<close> of statuses it was called with.
  The ClientHello builder of \<open>clienthello.c\<close> is a parameter of the initialisation.
\<close>

section \<open>Random host names\<close>

definition cloak_client_top_level_domains :: "string list" where
  "cloak_client_top_level_domains =
     [''com'', ''net'', ''org'', ''it'', ''fr'', ''me'', ''ru'', ''cn'', ''es'', ''tr'', ''top'', ''xyz'', ''info'']"

definition CLOAK_CLIENT_RANDOM_SERVER_NAME_MAX :: nat where "CLOAK_CLIENT_RANDOM_SERVER_NAME_MAX = 18"

definition random_below :: "nat \<Rightarrow> tape \<Rightarrow> nat \<times> tape" where
  "random_below n t = (case cloak_random_bytes 8 t of (b, t1) \<Rightarrow> (unat (be_load b 0 :: u64) mod n, t1))"

fun random_letters :: "nat \<Rightarrow> tape \<Rightarrow> bytes \<times> tape" where
  "random_letters 0 t = ([], t)"
| "random_letters (Suc k) t = (case random_below 26 t of (v, t1) \<Rightarrow>
     case random_letters k t1 of (cs, t2) \<Rightarrow> ((97 + of_nat v) # cs, t2))"

definition cloak_client_random_server_name :: "nat \<Rightarrow> tape \<Rightarrow> bytes option \<times> tape" where
  \<comment> \<open>the string written to the buffer of that capacity, or \<^const>\<open>None\<close> for -1\<close>
  "cloak_client_random_server_name cap t =
     (if cap < CLOAK_CLIENT_RANDOM_SERVER_NAME_MAX then (None, t)
      else case random_below 10 t of (v, t1) \<Rightarrow>
           case random_letters (3 + v) t1 of (letters, t2) \<Rightarrow>
           case random_below (length cloak_client_top_level_domains) t2 of (k, t3) \<Rightarrow>
             (Some (letters @ 46 # map (\<lambda>ch. of_char ch) (cloak_client_top_level_domains ! k)), t3))"

section \<open>State\<close>

datatype hs_status = CLOAK_CLIENT_HANDSHAKE_PENDING | CLOAK_CLIENT_HANDSHAKE_DONE | CLOAK_CLIENT_HANDSHAKE_FAILED

datatype hs_state =
    CLOAK_CLIENT_HS_STATE_WRITE_HELLO
  | CLOAK_CLIENT_HS_STATE_READ_RECORD_HEADER
  | CLOAK_CLIENT_HS_STATE_READ_RECORD_BODY
  | CLOAK_CLIENT_HS_STATE_DONE
  | CLOAK_CLIENT_HS_STATE_FAILED

datatype hs_error =
    CLOAK_CLIENT_HANDSHAKE_ERR_NONE
  | CLOAK_CLIENT_HANDSHAKE_ERR_CONFIG
  | CLOAK_CLIENT_HANDSHAKE_ERR_BUILD
  | CLOAK_CLIENT_HANDSHAKE_ERR_IO
  | CLOAK_CLIENT_HANDSHAKE_ERR_EOF
  | CLOAK_CLIENT_HANDSHAKE_ERR_PROTOCOL
  | CLOAK_CLIENT_HANDSHAKE_ERR_AUTH
  | CLOAK_CLIENT_HANDSHAKE_ERR_TIMEOUT

definition CLOAK_CLIENT_HANDSHAKE_REPLY_RECORDS :: nat where "CLOAK_CLIENT_HANDSHAKE_REPLY_RECORDS = 3"
definition CLOAK_CLIENT_HANDSHAKE_SERVERHELLO_PREFIX :: nat where "CLOAK_CLIENT_HANDSHAKE_SERVERHELLO_PREFIX = 112"
definition CLOAK_CLIENT_HANDSHAKE_MAX_RECORD_BODY :: nat where "CLOAK_CLIENT_HANDSHAKE_MAX_RECORD_BODY = 16640"
definition CLOAK_CLIENT_HANDSHAKE_MAX_REPLY_BYTES :: nat where
  "CLOAK_CLIENT_HANDSHAKE_MAX_REPLY_BYTES = CLOAK_CLIENT_HANDSHAKE_REPLY_RECORDS * (5 + CLOAK_CLIENT_HANDSHAKE_MAX_RECORD_BODY)"
definition CLOAK_CLIENT_HANDSHAKE_DEFAULT_TIMEOUT_MS :: nat where "CLOAK_CLIENT_HANDSHAKE_DEFAULT_TIMEOUT_MS = 15000"
definition CLOAK_CLIENT_SERVER_NAME_MAX :: nat where "CLOAK_CLIENT_SERVER_NAME_MAX = 253"

lemmas hs_consts = CLOAK_CLIENT_HANDSHAKE_REPLY_RECORDS_def CLOAK_CLIENT_HANDSHAKE_SERVERHELLO_PREFIX_def
  CLOAK_CLIENT_HANDSHAKE_MAX_RECORD_BODY_def CLOAK_CLIENT_HANDSHAKE_MAX_REPLY_BYTES_def

datatype fd_interest = NoInterest | WantReadable | WantWritable

record client_handshake =
  hs_fd_registered :: bool
  hs_fd_interest :: fd_interest
  hs_state :: hs_state
  hs_status :: hs_status
  hs_error :: hs_error
  hs_hello :: bytes
  hs_hello_sent :: nat
  hs_shared_secret :: bytes
  hs_record_index :: nat
  hs_header :: bytes
  hs_body_len :: nat
  hs_body_total :: nat
  hs_reply_bytes :: nat
  hs_sh :: bytes
  hs_session_key :: bytes
  hs_server_name :: bytes
  hs_timeout_ms :: nat
  hs_deadline :: bool
  hs_notified :: bool
  hs_done :: "hs_status list"

datatype io_recv = IoData bytes | IoEof | IoRecvIntr | IoRecvAgain | IoRecvErr
datatype io_send = IoSent nat | IoSendIntr | IoSendAgain | IoSendErr

record 'w io_env =
  io_recv_fd :: "'w \<Rightarrow> nat \<Rightarrow> io_recv \<times> 'w"
  io_send_fd :: "'w \<Rightarrow> bytes \<Rightarrow> io_send \<times> 'w"
  io_mod_ok :: bool  \<comment> \<open>\<open>cloak_reactor_mod_fd\<close> returns 0\<close>

section \<open>Ending\<close>

definition release_reactor :: "client_handshake \<Rightarrow> client_handshake" where
  "release_reactor h =
     (let h1 = (if hs_fd_registered h then h\<lparr>hs_fd_registered := False, hs_fd_interest := NoInterest\<rparr> else h)
      in if hs_deadline h1 then h1\<lparr>hs_deadline := False\<rparr> else h1)"

definition hs_fail :: "client_handshake \<Rightarrow> hs_error \<Rightarrow> client_handshake" where
  "hs_fail h err =
     (if hs_status h \<noteq> CLOAK_CLIENT_HANDSHAKE_PENDING then h
      else release_reactor (h\<lparr>hs_status := CLOAK_CLIENT_HANDSHAKE_FAILED, hs_state := CLOAK_CLIENT_HS_STATE_FAILED, hs_error := err\<rparr>))"

definition hs_complete :: "client_handshake \<Rightarrow> client_handshake" where
  "hs_complete h =
     (if hs_status h \<noteq> CLOAK_CLIENT_HANDSHAKE_PENDING then h
      else release_reactor (h\<lparr>hs_status := CLOAK_CLIENT_HANDSHAKE_DONE, hs_state := CLOAK_CLIENT_HS_STATE_DONE,
             hs_error := CLOAK_CLIENT_HANDSHAKE_ERR_NONE\<rparr>))"

definition hs_finish :: "client_handshake \<Rightarrow> client_handshake" where
  "hs_finish h =
     (if hs_status h = CLOAK_CLIENT_HANDSHAKE_PENDING \<or> hs_notified h then h
      else h\<lparr>hs_notified := True, hs_done := hs_done h @ [hs_status h]\<rparr>)"

definition set_interest :: "bool \<Rightarrow> client_handshake \<Rightarrow> fd_interest \<Rightarrow> client_handshake" where
  "set_interest mod_ok h want =
     (if \<not> hs_fd_registered h \<or> hs_fd_interest h = want then h
      else if \<not> mod_ok then hs_fail h CLOAK_CLIENT_HANDSHAKE_ERR_IO
      else h\<lparr>hs_fd_interest := want\<rparr>)"

section \<open>Reading the reply\<close>

definition recover_session_key :: "evp \<Rightarrow> client_handshake \<Rightarrow> bytes option" where
  "recover_session_key e h =
     (if length (hs_sh h) < CLOAK_CLIENT_HANDSHAKE_SERVERHELLO_PREFIX then None
      else case cloak_aead_open e CLOAK_AEAD_AES_256_GCM (hs_shared_secret h) (drop 6 (hs_sh h)) []
                  (take 20 (drop 18 (hs_sh h)) @ take 28 (drop 84 (hs_sh h))) of
             None \<Rightarrow> None
           | Some key \<Rightarrow> if length key \<noteq> CLOAK_AEAD_KEY_LEN then None else Some key)"

definition record_complete :: "evp \<Rightarrow> client_handshake \<Rightarrow> client_handshake" where
  "record_complete e h0 =
     (let h = h0\<lparr>hs_record_index := hs_record_index h0 + 1\<rparr> in
      case (if hs_record_index h = 1 then map_option (\<lambda>key. h\<lparr>hs_session_key := key\<rparr>) (recover_session_key e h) else Some h) of
        None \<Rightarrow> hs_fail h CLOAK_CLIENT_HANDSHAKE_ERR_AUTH
      | Some h1 \<Rightarrow>
          if hs_record_index h1 = CLOAK_CLIENT_HANDSHAKE_REPLY_RECORDS then hs_complete h1
          else h1\<lparr>hs_header := [], hs_body_len := 0, hs_body_total := 0, hs_state := CLOAK_CLIENT_HS_STATE_READ_RECORD_HEADER\<rparr>)"

definition bytes_wanted :: "client_handshake \<Rightarrow> nat" where
  "bytes_wanted h =
     (if hs_state h = CLOAK_CLIENT_HS_STATE_READ_RECORD_HEADER then 5 - length (hs_header h)
      else if hs_state h = CLOAK_CLIENT_HS_STATE_READ_RECORD_BODY then hs_body_total h - hs_body_len h
      else 0)"

definition header_complete :: "evp \<Rightarrow> client_handshake \<Rightarrow> client_handshake" where
  \<comment> \<open>the fifth header byte has arrived\<close>
  "header_complete e h0 =
     (let h = h0\<lparr>hs_body_total := unat (be16_load (drop 3 (hs_header h0)) :: u32)\<rparr> in
      if hs_body_total h > CLOAK_CLIENT_HANDSHAKE_MAX_RECORD_BODY then hs_fail h CLOAK_CLIENT_HANDSHAKE_ERR_PROTOCOL
      else if hs_record_index h = 0 \<and> (hs_header h ! 0 \<noteq> 0x16 \<or> hs_body_total h < CLOAK_CLIENT_HANDSHAKE_SERVERHELLO_PREFIX)
      then hs_fail h CLOAK_CLIENT_HANDSHAKE_ERR_PROTOCOL
      else if hs_reply_bytes h + hs_body_total h > CLOAK_CLIENT_HANDSHAKE_MAX_REPLY_BYTES
      then hs_fail h CLOAK_CLIENT_HANDSHAKE_ERR_PROTOCOL
      else
        let h1 = h\<lparr>hs_body_len := 0, hs_state := CLOAK_CLIENT_HS_STATE_READ_RECORD_BODY\<rparr> in
        if hs_body_total h1 = 0 then record_complete e h1 else h1)"

definition header_piece :: "evp \<Rightarrow> client_handshake \<Rightarrow> bytes \<Rightarrow> client_handshake \<times> bytes" where
  "header_piece e h data =
     (let n = min (5 - length (hs_header h)) (length data);
          h1 = h\<lparr>hs_header := hs_header h @ take n data, hs_reply_bytes := hs_reply_bytes h + n\<rparr>
      in (if length (hs_header h1) < 5 then h1 else header_complete e h1, drop n data))"

definition body_piece :: "evp \<Rightarrow> client_handshake \<Rightarrow> bytes \<Rightarrow> client_handshake \<times> bytes" where
  "body_piece e h data =
     (let n = min (hs_body_total h - hs_body_len h) (length data);
          h1 = (if hs_record_index h = 0 \<and> length (hs_sh h) < CLOAK_CLIENT_HANDSHAKE_SERVERHELLO_PREFIX
                then h\<lparr>hs_sh := hs_sh h @ take (min n (CLOAK_CLIENT_HANDSHAKE_SERVERHELLO_PREFIX - length (hs_sh h))) data\<rparr>
                else h);
          h2 = h1\<lparr>hs_body_len := hs_body_len h1 + n, hs_reply_bytes := hs_reply_bytes h1 + n\<rparr>
      in (if hs_body_len h2 = hs_body_total h2 then record_complete e h2 else h2, drop n data))"

partial_function (option) hs_feed :: "evp \<Rightarrow> client_handshake \<Rightarrow> bytes \<Rightarrow> client_handshake option" where
  "hs_feed e h data =
     (if data = [] \<or> hs_status h \<noteq> CLOAK_CLIENT_HANDSHAKE_PENDING then Some h
      else if hs_state h = CLOAK_CLIENT_HS_STATE_READ_RECORD_HEADER then
        (case header_piece e h data of (h1, rest) \<Rightarrow> hs_feed e h1 rest)
      else if hs_state h = CLOAK_CLIENT_HS_STATE_READ_RECORD_BODY then
        (case body_piece e h data of (h1, rest) \<Rightarrow> hs_feed e h1 rest)
      else Some h)"

partial_function (option) hs_do_read :: "evp \<Rightarrow> 'w io_env \<Rightarrow> client_handshake \<Rightarrow> 'w \<Rightarrow> (client_handshake \<times> 'w) option" where
  "hs_do_read e env h w =
     (if hs_status h \<noteq> CLOAK_CLIENT_HANDSHAKE_PENDING then Some (h, w)
      else
        let want = bytes_wanted h in
        if want = 0 then Some (h, w)
        else case io_recv_fd env w (if want > 1024 then 1024 else want) of (r, w1) \<Rightarrow>
          (case r of
             IoData bs \<Rightarrow> Option.bind (hs_feed e h bs) (\<lambda>h1. hs_do_read e env h1 w1)
           | IoEof \<Rightarrow> Some (hs_fail h CLOAK_CLIENT_HANDSHAKE_ERR_EOF, w1)
           | IoRecvIntr \<Rightarrow> hs_do_read e env h w1
           | IoRecvAgain \<Rightarrow> Some (h, w1)
           | IoRecvErr \<Rightarrow> Some (hs_fail h CLOAK_CLIENT_HANDSHAKE_ERR_IO, w1)))"

section \<open>Writing the hello\<close>

partial_function (option) hs_do_write :: "'w io_env \<Rightarrow> client_handshake \<Rightarrow> 'w \<Rightarrow> (client_handshake \<times> 'w) option" where
  "hs_do_write env h w =
     (if hs_hello_sent h < length (hs_hello h) then
        (case io_send_fd env w (drop (hs_hello_sent h) (hs_hello h)) of (r, w1) \<Rightarrow>
           (case r of
              IoSent n \<Rightarrow> if n > 0 then hs_do_write env (h\<lparr>hs_hello_sent := hs_hello_sent h + n\<rparr>) w1 else Some (h, w1)
            | IoSendIntr \<Rightarrow> hs_do_write env h w1
            | IoSendAgain \<Rightarrow> Some (h, w1)
            | IoSendErr \<Rightarrow> Some (hs_fail h CLOAK_CLIENT_HANDSHAKE_ERR_IO, w1)))
      else Some (set_interest (io_mod_ok env) (h\<lparr>hs_state := CLOAK_CLIENT_HS_STATE_READ_RECORD_HEADER\<rparr>) WantReadable, w))"

section \<open>Reactor entry points\<close>

definition hs_on_event :: "evp \<Rightarrow> 'w io_env \<Rightarrow> client_handshake \<Rightarrow> 'w \<Rightarrow> (client_handshake \<times> 'w) option" where
  "hs_on_event e env h w =
     (if hs_status h \<noteq> CLOAK_CLIENT_HANDSHAKE_PENDING then Some (h, w)
      else Option.bind (if hs_state h = CLOAK_CLIENT_HS_STATE_WRITE_HELLO then hs_do_write env h w else Some (h, w)) (\<lambda>(h1, w1).
           Option.bind (if hs_status h1 = CLOAK_CLIENT_HANDSHAKE_PENDING
                            \<and> (hs_state h1 = CLOAK_CLIENT_HS_STATE_READ_RECORD_HEADER \<or> hs_state h1 = CLOAK_CLIENT_HS_STATE_READ_RECORD_BODY)
                        then hs_do_read e env h1 w1 else Some (h1, w1)) (\<lambda>(h2, w2).
             Some (hs_finish h2, w2))))"

definition hs_on_deadline :: "client_handshake \<Rightarrow> client_handshake" where
  "hs_on_deadline h = hs_finish (hs_fail (h\<lparr>hs_deadline := False\<rparr>) CLOAK_CLIENT_HANDSHAKE_ERR_TIMEOUT)"


section \<open>Construction\<close>

datatype client_browser = CLOAK_CLIENT_BROWSER_CHROME | CLOAK_CLIENT_BROWSER_FIREFOX | CLOAK_CLIENT_BROWSER_SAFARI

record client_handshake_config =
  hc_browser :: client_browser
  hc_server_name :: "bytes option"
  hc_server_pub :: bytes
  hc_uid :: bytes
  hc_proxy_method :: "bytes option"
  hc_encryption_method :: byte
  hc_session_id :: u32
  hc_unordered :: bool
  hc_now_unix :: int
  hc_timeout_ms :: nat

definition strcasecmp_eq :: "bytes \<Rightarrow> string \<Rightarrow> bool" where
  "strcasecmp_eq a b = (map ascii_lower a = map ascii_lower (map of_char b))"

definition hs_rejected :: client_handshake where
  \<comment> \<open>the zeroed, failed object every rejected call leaves\<close>
  "hs_rejected = \<lparr>hs_fd_registered = False, hs_fd_interest = NoInterest, hs_state = CLOAK_CLIENT_HS_STATE_FAILED,
     hs_status = CLOAK_CLIENT_HANDSHAKE_FAILED, hs_error = CLOAK_CLIENT_HANDSHAKE_ERR_CONFIG, hs_hello = [], hs_hello_sent = 0,
     hs_shared_secret = replicate 32 0, hs_record_index = 0, hs_header = [], hs_body_len = 0, hs_body_total = 0, hs_reply_bytes = 0,
     hs_sh = [], hs_session_key = replicate 32 0, hs_server_name = [], hs_timeout_ms = 0, hs_deadline = False, hs_notified = True, hs_done = []\<rparr>"

definition cloak_client_handshake_init ::
  "evp \<Rightarrow> x25519_evp \<Rightarrow> (client_browser \<Rightarrow> bytes \<Rightarrow> bytes \<Rightarrow> bytes \<Rightarrow> bytes \<Rightarrow> bytes option) \<Rightarrow> client_handshake_config \<Rightarrow> tape
     \<Rightarrow> int \<times> client_handshake \<times> tape" where
  "cloak_client_handshake_init e x hello_build cfg t =
     (case (hc_server_name cfg, hc_proxy_method cfg) of
        (Some server_name, Some proxy_method) \<Rightarrow>
          if length proxy_method > CLOAK_PROXY_METHOD_LEN then (-1, hs_rejected, t)
          else
            (case (if strcasecmp_eq server_name ''random'' then cloak_client_random_server_name (CLOAK_CLIENT_SERVER_NAME_MAX + 1) t
                   else if length server_name = 0 \<or> length server_name > CLOAK_CLIENT_SERVER_NAME_MAX then (None, t)
                   else (Some server_name, t)) of
               (None, t1) \<Rightarrow> (-1, hs_rejected, t1)
             | (Some sni, t1) \<Rightarrow>
                 let h1 = hs_rejected\<lparr>hs_server_name := sni\<rparr> in
                 (case cloak_client_auth_build e x (hc_uid cfg) (Some proxy_method) (hc_encryption_method cfg) (hc_session_id cfg)
                         (hc_unordered cfg) (hc_now_unix cfg) (hc_server_pub cfg) of
                    None \<Rightarrow> (-1, h1\<lparr>hs_error := CLOAK_CLIENT_HANDSHAKE_ERR_BUILD\<rparr>, t1)
                  | Some (payload, shared_secret) \<Rightarrow>
                      let h2 = h1\<lparr>hs_shared_secret := shared_secret\<rparr> in
                      (case hello_build (hc_browser cfg) (ap_random payload) (take 32 (ap_ciphertext payload))
                              (drop 32 (ap_ciphertext payload)) sni of
                         None \<Rightarrow> (-1, h2\<lparr>hs_error := CLOAK_CLIENT_HANDSHAKE_ERR_BUILD\<rparr>, t1)
                       | Some msg \<Rightarrow>
                           if msg = [] then (-1, h2\<lparr>hs_error := CLOAK_CLIENT_HANDSHAKE_ERR_BUILD\<rparr>, t1)
                           else (0, h2\<lparr>hs_hello := [0x16, 0x03, 0x01] @ be16_store (of_nat (length msg) :: u16) @ msg,
                                  hs_timeout_ms := (if hc_timeout_ms cfg \<noteq> 0 then hc_timeout_ms cfg else CLOAK_CLIENT_HANDSHAKE_DEFAULT_TIMEOUT_MS),
                                  hs_state := CLOAK_CLIENT_HS_STATE_WRITE_HELLO, hs_status := CLOAK_CLIENT_HANDSHAKE_PENDING,
                                  hs_error := CLOAK_CLIENT_HANDSHAKE_ERR_NONE, hs_notified := False\<rparr>, t1))))
      | _ \<Rightarrow> (-1, hs_rejected, t))"

definition cloak_client_handshake_start :: "bool \<Rightarrow> bool \<Rightarrow> client_handshake \<Rightarrow> int \<times> client_handshake" where
  \<comment> \<open>whether the reactor accepts the descriptor, and the timer\<close>
  "cloak_client_handshake_start fd_added timer_added h =
     (if hs_status h \<noteq> CLOAK_CLIENT_HANDSHAKE_PENDING \<or> hs_state h \<noteq> CLOAK_CLIENT_HS_STATE_WRITE_HELLO \<or> hs_fd_registered h then (-1, h)
      else if \<not> fd_added then
        (-1, h\<lparr>hs_status := CLOAK_CLIENT_HANDSHAKE_FAILED, hs_state := CLOAK_CLIENT_HS_STATE_FAILED,
               hs_error := CLOAK_CLIENT_HANDSHAKE_ERR_IO, hs_notified := True\<rparr>)
      else if \<not> timer_added then
        (-1, h\<lparr>hs_fd_registered := False, hs_fd_interest := NoInterest, hs_status := CLOAK_CLIENT_HANDSHAKE_FAILED,
               hs_state := CLOAK_CLIENT_HS_STATE_FAILED, hs_error := CLOAK_CLIENT_HANDSHAKE_ERR_IO, hs_notified := True, hs_deadline := False\<rparr>)
      else (0, h\<lparr>hs_fd_registered := True, hs_fd_interest := WantWritable, hs_deadline := True\<rparr>))"

definition cloak_client_handshake_destroy :: "client_handshake \<Rightarrow> client_handshake" where
  \<comment> \<open>of an object whose initialisation succeeded; for any other there is nothing to release\<close>
  "cloak_client_handshake_destroy h =
     (let h1 = (release_reactor h)\<lparr>hs_notified := True\<rparr> in
      if hs_status h1 = CLOAK_CLIENT_HANDSHAKE_PENDING
      then h1\<lparr>hs_status := CLOAK_CLIENT_HANDSHAKE_FAILED, hs_state := CLOAK_CLIENT_HS_STATE_FAILED\<rparr> else h1)"

definition cloak_client_handshake_session_key :: "client_handshake \<Rightarrow> bytes option" where
  "cloak_client_handshake_session_key h = (if hs_status h \<noteq> CLOAK_CLIENT_HANDSHAKE_DONE then None else Some (hs_session_key h))"

definition cloak_client_handshake_server_name :: "client_handshake \<Rightarrow> bytes option" where
  "cloak_client_handshake_server_name h = (if hs_server_name h = [] then None else Some (hs_server_name h))"

section \<open>The reader as a function of the bytes read\<close>

definition reading :: "client_handshake \<Rightarrow> bool" where
  \<comment> \<open>the reader is in a record, with something missing\<close>
  "reading h \<longleftrightarrow> hs_status h = CLOAK_CLIENT_HANDSHAKE_PENDING
     \<and> (hs_state h = CLOAK_CLIENT_HS_STATE_READ_RECORD_HEADER \<and> length (hs_header h) < 5
        \<or> hs_state h = CLOAK_CLIENT_HS_STATE_READ_RECORD_BODY \<and> hs_body_len h < hs_body_total h)"

definition hs_ok :: "client_handshake \<Rightarrow> bool" where
  "hs_ok h \<longleftrightarrow> reading h \<or> hs_status h \<noteq> CLOAK_CLIENT_HANDSHAKE_PENDING"

lemma status_release [simp]: "hs_status (release_reactor h) = hs_status h"
  by (simp add: release_reactor_def Let_def)

lemma status_fail: "hs_status (hs_fail h err) \<noteq> CLOAK_CLIENT_HANDSHAKE_PENDING"
  by (simp add: hs_fail_def)

lemma status_complete: "hs_status (hs_complete h) \<noteq> CLOAK_CLIENT_HANDSHAKE_PENDING"
  by (simp add: hs_complete_def)

lemma record_complete_ok: "hs_status h = CLOAK_CLIENT_HANDSHAKE_PENDING \<Longrightarrow> hs_ok (record_complete e h)"
proof -
  assume p: "hs_status h = CLOAK_CLIENT_HANDSHAKE_PENDING"
  define h1 where "h1 = h\<lparr>hs_record_index := hs_record_index h + 1\<rparr>"
  define r where "r = (if hs_record_index h1 = 1 then map_option (\<lambda>key. h1\<lparr>hs_session_key := key\<rparr>) (recover_session_key e h1) else Some h1)"
  have c: "record_complete e h = (case r of None \<Rightarrow> hs_fail h1 CLOAK_CLIENT_HANDSHAKE_ERR_AUTH
      | Some h2 \<Rightarrow> if hs_record_index h2 = CLOAK_CLIENT_HANDSHAKE_REPLY_RECORDS then hs_complete h2
          else h2\<lparr>hs_header := [], hs_body_len := 0, hs_body_total := 0, hs_state := CLOAK_CLIENT_HS_STATE_READ_RECORD_HEADER\<rparr>)"
    unfolding record_complete_def Let_def h1_def r_def by (rule refl)
  have "hs_status h2 = CLOAK_CLIENT_HANDSHAKE_PENDING" if "r = Some h2" for h2
    using that p by (auto simp: r_def h1_def split: if_splits)
  then show ?thesis using status_fail status_complete by (cases r) (simp_all add: c hs_ok_def reading_def)
qed

lemma header_complete_ok: "hs_status h = CLOAK_CLIENT_HANDSHAKE_PENDING \<Longrightarrow> hs_ok (header_complete e h)"
proof -
  assume p: "hs_status h = CLOAK_CLIENT_HANDSHAKE_PENDING"
  define h1 where "h1 = h\<lparr>hs_body_total := unat (be16_load (drop 3 (hs_header h)) :: u32)\<rparr>"
  define h2 where "h2 = h1\<lparr>hs_body_len := 0, hs_state := CLOAK_CLIENT_HS_STATE_READ_RECORD_BODY\<rparr>"
  have "header_complete e h \<in> {hs_fail h1 CLOAK_CLIENT_HANDSHAKE_ERR_PROTOCOL, if hs_body_total h2 = 0 then record_complete e h2 else h2}"
    by (simp add: header_complete_def h1_def h2_def Let_def)
  moreover have "hs_ok (hs_fail h1 CLOAK_CLIENT_HANDSHAKE_ERR_PROTOCOL)" by (simp add: hs_ok_def status_fail)
  moreover have "hs_status h2 = CLOAK_CLIENT_HANDSHAKE_PENDING" using p by (simp add: h1_def h2_def)
  then have "hs_ok (if hs_body_total h2 = 0 then record_complete e h2 else h2)"
    using record_complete_ok by (simp add: hs_ok_def reading_def h2_def)
  ultimately show ?thesis by (elim insertE) (simp_all only: empty_iff)
qed

lemma header_piece_ok:
  assumes "hs_status h = CLOAK_CLIENT_HANDSHAKE_PENDING" "hs_state h = CLOAK_CLIENT_HS_STATE_READ_RECORD_HEADER"
    "length (hs_header h) < 5" "data \<noteq> []" "header_piece e h data = (h1, rest)"
  shows "hs_ok h1 \<and> length rest < length data"
proof -
  let ?n = "min (5 - length (hs_header h)) (length data)"
  let ?h = "h\<lparr>hs_header := hs_header h @ take ?n data, hs_reply_bytes := hs_reply_bytes h + ?n\<rparr>"
  have "h1 = (if length (hs_header ?h) < 5 then ?h else header_complete e ?h)" "rest = drop ?n data" "0 < ?n"
    using assms by (auto simp: header_piece_def Let_def)
  moreover have "hs_ok ?h" if "length (hs_header ?h) < 5" using that assms by (simp add: hs_ok_def reading_def)
  ultimately show ?thesis using header_complete_ok[of ?h e] assms(1,4) by auto
qed

lemma body_piece_ok:
  assumes "hs_status h = CLOAK_CLIENT_HANDSHAKE_PENDING" "hs_state h = CLOAK_CLIENT_HS_STATE_READ_RECORD_BODY"
    "hs_body_len h < hs_body_total h" "data \<noteq> []" "body_piece e h data = (h1, rest)"
  shows "hs_ok h1 \<and> length rest < length data"
proof -
  define n where "n = min (hs_body_total h - hs_body_len h) (length data)"
  define h1' where "h1' = (if hs_record_index h = 0 \<and> length (hs_sh h) < CLOAK_CLIENT_HANDSHAKE_SERVERHELLO_PREFIX
                then h\<lparr>hs_sh := hs_sh h @ take (min n (CLOAK_CLIENT_HANDSHAKE_SERVERHELLO_PREFIX - length (hs_sh h))) data\<rparr>
                else h)"
  define h2 where "h2 = h1'\<lparr>hs_body_len := hs_body_len h1' + n, hs_reply_bytes := hs_reply_bytes h1' + n\<rparr>"
  have "body_piece e h data = (if hs_body_len h2 = hs_body_total h2 then record_complete e h2 else h2, drop n data)"
    unfolding body_piece_def Let_def h2_def h1'_def n_def by (rule refl)
  then have r: "h1 = (if hs_body_len h2 = hs_body_total h2 then record_complete e h2 else h2)" "rest = drop n data"
    using assms(5) by simp_all
  have f: "hs_status h2 = hs_status h" "hs_state h2 = hs_state h" "hs_body_len h2 = hs_body_len h + n" "hs_body_total h2 = hs_body_total h"
    by (simp_all add: h2_def h1'_def)
  have n: "0 < n" "n \<le> hs_body_total h - hs_body_len h" using assms(3,4) by (auto simp: n_def)
  have "hs_ok h2" if "hs_body_len h2 \<noteq> hs_body_total h2" using f n that assms(1,2,3) by (simp add: hs_ok_def reading_def)
  then have "hs_ok h1" using r(1) record_complete_ok[of h2 e] f(1) assms(1) by simp
  then show ?thesis using r(2) n(1) assms(4) by simp
qed


definition captured :: "client_handshake \<Rightarrow> bytes \<Rightarrow> bytes" where
  \<comment> \<open>the ServerHello prefix after these bytes of a body\<close>
  "captured h xs = (if hs_record_index h = 0 \<and> length (hs_sh h) < 112 then hs_sh h @ take (112 - length (hs_sh h)) xs else hs_sh h)"

definition eat_body :: "client_handshake \<Rightarrow> bytes \<Rightarrow> client_handshake" where
  "eat_body h xs = h\<lparr>hs_sh := captured h xs, hs_body_len := hs_body_len h + length xs, hs_reply_bytes := hs_reply_bytes h + length xs\<rparr>"

definition eat_header :: "client_handshake \<Rightarrow> bytes \<Rightarrow> client_handshake" where
  "eat_header h xs = h\<lparr>hs_header := hs_header h @ xs, hs_reply_bytes := hs_reply_bytes h + length xs\<rparr>"

lemma eat_body_append: "eat_body (eat_body h a) b = eat_body h (a @ b)"
proof -
  have "captured (h\<lparr>hs_sh := captured h a, hs_body_len := x, hs_reply_bytes := y\<rparr>) b = captured h (a @ b)" for x y
    by (auto simp: captured_def)
  then show ?thesis by (simp add: eat_body_def add.assoc)
qed

lemma eat_header_append: "eat_header (eat_header h a) b = eat_header h (a @ b)"
  by (simp add: eat_header_def add.assoc)

lemma header_piece_alt:
  "header_piece e h data = (let n = min (5 - length (hs_header h)) (length data); h1 = eat_header h (take n data)
     in (if length (hs_header h1) < 5 then h1 else header_complete e h1, drop n data))"
  by (simp add: header_piece_def eat_header_def Let_def min_def)

lemma body_piece_alt:
  "body_piece e h data = (let n = min (hs_body_total h - hs_body_len h) (length data); h1 = eat_body h (take n data)
     in (if hs_body_len h1 = hs_body_total h1 then record_complete e h1 else h1, drop n data))"
proof -
  let ?n = "min (hs_body_total h - hs_body_len h) (length data)"
  have t: "take (min n k) data = take k (take n data)" for n k by (simp add: min.commute)
  have l: "length (take ?n data) = ?n" by simp
  have "(if hs_record_index h = 0 \<and> length (hs_sh h) < CLOAK_CLIENT_HANDSHAKE_SERVERHELLO_PREFIX
      then h\<lparr>hs_sh := hs_sh h @ take (min ?n (CLOAK_CLIENT_HANDSHAKE_SERVERHELLO_PREFIX - length (hs_sh h))) data\<rparr> else h)
      = h\<lparr>hs_sh := captured h (take ?n data)\<rparr>"
    unfolding t by (simp add: captured_def hs_consts)
  then show ?thesis unfolding body_piece_def Let_def eat_body_def l by simp
qed

lemma feed_header:
  assumes "hs_status h = CLOAK_CLIENT_HANDSHAKE_PENDING" "hs_state h = CLOAK_CLIENT_HS_STATE_READ_RECORD_HEADER" "data \<noteq> []"
  shows "hs_feed e h data = hs_feed e (fst (header_piece e h data)) (snd (header_piece e h data))"
  using assms by (subst hs_feed.simps) (simp add: case_prod_beta)

lemma feed_body:
  assumes "hs_status h = CLOAK_CLIENT_HANDSHAKE_PENDING" "hs_state h = CLOAK_CLIENT_HS_STATE_READ_RECORD_BODY" "data \<noteq> []"
  shows "hs_feed e h data = hs_feed e (fst (body_piece e h data)) (snd (body_piece e h data))"
  using assms by (subst hs_feed.simps) (simp add: case_prod_beta)

lemma feed_nil: "hs_feed e h [] = Some h"
  by (subst hs_feed.simps) simp

lemma feed_over: "hs_status h \<noteq> CLOAK_CLIENT_HANDSHAKE_PENDING \<Longrightarrow> hs_feed e h data = Some h"
  by (subst hs_feed.simps) simp

lemma piece_split_header:
  assumes "hs_status h = CLOAK_CLIENT_HANDSHAKE_PENDING" "hs_state h = CLOAK_CLIENT_HS_STATE_READ_RECORD_HEADER" "length (hs_header h) < 5" "a \<noteq> []"
  shows "header_piece e h (a @ b) = (fst (header_piece e h a), snd (header_piece e h a) @ b)
     \<or> (hs_feed e h a = Some (eat_header h a) \<and> header_piece e h (a @ b) = header_piece e (eat_header h a) b)"
proof (cases "5 - length (hs_header h) \<le> length a")
  case True
  then show ?thesis by (simp add: header_piece_alt Let_def min_def)
next
  case False
  have l: "length (hs_header (eat_header h a)) = length (hs_header h) + length a" by (simp add: eat_header_def)
  have "header_piece e h a = (eat_header h a, [])" using False l by (simp add: header_piece_alt Let_def)
  then have f: "hs_feed e h a = Some (eat_header h a)" using feed_header[OF assms(1,2,4)] by (simp add: feed_nil)
  have n: "min (5 - length (hs_header h)) (length (a @ b)) = length a + min (5 - length (hs_header (eat_header h a))) (length b)"
    using False l by auto
  show ?thesis using f unfolding header_piece_alt n Let_def by (simp add: eat_header_append)
qed

lemma piece_split_body:
  assumes "hs_status h = CLOAK_CLIENT_HANDSHAKE_PENDING" "hs_state h = CLOAK_CLIENT_HS_STATE_READ_RECORD_BODY" "hs_body_len h < hs_body_total h" "a \<noteq> []"
  shows "body_piece e h (a @ b) = (fst (body_piece e h a), snd (body_piece e h a) @ b)
     \<or> (hs_feed e h a = Some (eat_body h a) \<and> body_piece e h (a @ b) = body_piece e (eat_body h a) b)"
proof (cases "hs_body_total h - hs_body_len h \<le> length a")
  case True
  then show ?thesis by (simp add: body_piece_alt Let_def min_def)
next
  case False
  have l: "hs_body_len (eat_body h a) = hs_body_len h + length a" "hs_body_total (eat_body h a) = hs_body_total h" by (simp_all add: eat_body_def)
  have "body_piece e h a = (eat_body h a, [])" using False l by (simp add: body_piece_alt Let_def)
  then have f: "hs_feed e h a = Some (eat_body h a)" using feed_body[OF assms(1,2,4)] by (simp add: feed_nil)
  have n: "min (hs_body_total h - hs_body_len h) (length (a @ b))
      = length a + min (hs_body_total (eat_body h a) - hs_body_len (eat_body h a)) (length b)"
    using False l by auto
  show ?thesis using f unfolding body_piece_alt n Let_def by (simp add: eat_body_append)
qed

lemma feed_append: "hs_ok h \<Longrightarrow> hs_feed e h (a @ b) = Option.bind (hs_feed e h a) (\<lambda>h1. hs_feed e h1 b)"
proof (induction a arbitrary: h rule: length_induct)
  case (1 a)
  consider "a = []" | "hs_status h \<noteq> CLOAK_CLIENT_HANDSHAKE_PENDING"
    | (hd) "a \<noteq> []" "hs_status h = CLOAK_CLIENT_HANDSHAKE_PENDING" "hs_state h = CLOAK_CLIENT_HS_STATE_READ_RECORD_HEADER" "length (hs_header h) < 5"
    | (bd) "a \<noteq> []" "hs_status h = CLOAK_CLIENT_HANDSHAKE_PENDING" "hs_state h = CLOAK_CLIENT_HS_STATE_READ_RECORD_BODY" "hs_body_len h < hs_body_total h"
    using "1.prems" by (auto simp: hs_ok_def reading_def)
  then show ?case
  proof cases
    case hd
    have ok: "hs_ok (fst (header_piece e h a))" "length (snd (header_piece e h a)) < length a"
      using header_piece_ok[OF hd(2-4,1), of e] by (metis prod.collapse)+
    note IH = "1.IH"[rule_format, OF ok(2,1)]
    have ab: "hs_feed e h (a @ b) = hs_feed e (fst (header_piece e h (a @ b))) (snd (header_piece e h (a @ b)))"
      using feed_header[OF hd(2,3), of "a @ b"] hd(1) by simp
    from piece_split_header[OF hd(2-4,1), of e b] show ?thesis
    proof
      assume "header_piece e h (a @ b) = (fst (header_piece e h a), snd (header_piece e h a) @ b)"
      then show ?thesis using ab IH feed_header[OF hd(2,3,1), of e] by simp
    next
      assume s: "hs_feed e h a = Some (eat_header h a) \<and> header_piece e h (a @ b) = header_piece e (eat_header h a) b"
      show ?thesis
      proof (cases "b = []")
        case False
        have "hs_feed e (eat_header h a) b = hs_feed e h (a @ b)"
          unfolding ab using s feed_header[of "eat_header h a" b e] False hd(2,3) by (simp add: eat_header_def)
        then show ?thesis using s by simp
      qed (use s in \<open>simp add: feed_nil\<close>)
    qed
  next
    case bd
    have ok: "hs_ok (fst (body_piece e h a))" "length (snd (body_piece e h a)) < length a"
      using body_piece_ok[OF bd(2-4,1), of e] by (metis prod.collapse)+
    note IH = "1.IH"[rule_format, OF ok(2,1)]
    have ab: "hs_feed e h (a @ b) = hs_feed e (fst (body_piece e h (a @ b))) (snd (body_piece e h (a @ b)))"
      using feed_body[OF bd(2,3), of "a @ b"] bd(1) by simp
    from piece_split_body[OF bd(2-4,1), of e b] show ?thesis
    proof
      assume "body_piece e h (a @ b) = (fst (body_piece e h a), snd (body_piece e h a) @ b)"
      then show ?thesis using ab IH feed_body[OF bd(2,3,1), of e] by simp
    next
      assume s: "hs_feed e h a = Some (eat_body h a) \<and> body_piece e h (a @ b) = body_piece e (eat_body h a) b"
      show ?thesis
      proof (cases "b = []")
        case False
        have "hs_feed e (eat_body h a) b = hs_feed e h (a @ b)"
          unfolding ab using s feed_body[of "eat_body h a" b e] False bd(2,3) by (simp add: eat_body_def)
        then show ?thesis using s by simp
      qed (use s in \<open>simp add: feed_nil\<close>)
    qed
  qed (simp_all add: feed_nil feed_over)
qed


lemma reply_bytes_end: "hs_reply_bytes (release_reactor h) = hs_reply_bytes h" "hs_reply_bytes (hs_fail h err) = hs_reply_bytes h"
    "hs_reply_bytes (hs_complete h) = hs_reply_bytes h"
  by (simp_all add: release_reactor_def hs_fail_def hs_complete_def Let_def)

lemma reply_bytes_record: "hs_reply_bytes (record_complete e h) = hs_reply_bytes h"
  by (simp add: record_complete_def Let_def reply_bytes_end split: option.split)

lemma reply_bytes_header: "hs_reply_bytes (header_complete e h) = hs_reply_bytes h"
  by (simp add: header_complete_def Let_def reply_bytes_end reply_bytes_record)

lemma feed_within:
  assumes "reading h" "bs \<noteq> []" "length bs \<le> bytes_wanted h"
  shows "\<exists>h1. hs_feed e h bs = Some h1 \<and> hs_ok h1 \<and> hs_reply_bytes h1 = hs_reply_bytes h + length bs"
proof (cases "hs_state h = CLOAK_CLIENT_HS_STATE_READ_RECORD_HEADER")
  case True
  then have r: "hs_status h = CLOAK_CLIENT_HANDSHAKE_PENDING" "length (hs_header h) < 5" using assms(1) by (auto simp: reading_def)
  have n: "min (5 - length (hs_header h)) (length bs) = length bs" using assms(3) True by (simp add: bytes_wanted_def)
  obtain h1 where h1: "header_piece e h bs = (h1, [])" "hs_reply_bytes h1 = hs_reply_bytes h + length bs"
    unfolding header_piece_alt n Let_def by (simp add: reply_bytes_header eat_header_def split: if_splits)
  then show ?thesis using header_piece_ok[OF r(1) True r(2) assms(2) h1(1)] feed_header[OF r(1) True assms(2), of e] by (simp add: feed_nil)
next
  case False
  then have r: "hs_status h = CLOAK_CLIENT_HANDSHAKE_PENDING" "hs_state h = CLOAK_CLIENT_HS_STATE_READ_RECORD_BODY" "hs_body_len h < hs_body_total h"
    using assms(1) by (auto simp: reading_def)
  have n: "min (hs_body_total h - hs_body_len h) (length bs) = length bs" using assms(3) r(2) by (simp add: bytes_wanted_def)
  obtain h1 where h1: "body_piece e h bs = (h1, [])" "hs_reply_bytes h1 = hs_reply_bytes h + length bs"
    unfolding body_piece_alt n Let_def by (simp add: reply_bytes_record eat_body_def split: if_splits)
  then show ?thesis using body_piece_ok[OF r assms(2) h1(1)] feed_body[OF r(1,2) assms(2), of e] by (simp add: feed_nil)
qed

lemma feed_record:
  assumes h: "hs_status h = CLOAK_CLIENT_HANDSHAKE_PENDING" "hs_state h = CLOAK_CLIENT_HS_STATE_READ_RECORD_HEADER" "hs_header h = []"
    and r: "length hdr = 5" "unat (be16_load (drop 3 hdr) :: u32) = length body" "body \<noteq> []" "length body \<le> 16640"
    and i: "hs_record_index h = 0 \<longrightarrow> hdr ! 0 = 0x16 \<and> 112 \<le> length body" and n: "hs_reply_bytes h + 5 + length body \<le> 49935"
  shows "hs_feed e h (hdr @ body @ rest) = hs_feed e (record_complete e (eat_body
     (h\<lparr>hs_header := hdr, hs_reply_bytes := hs_reply_bytes h + 5, hs_body_total := length body, hs_body_len := 0,
        hs_state := CLOAK_CLIENT_HS_STATE_READ_RECORD_BODY\<rparr>) body)) rest"
proof -
  define h1 where "h1 = h\<lparr>hs_header := hdr, hs_reply_bytes := hs_reply_bytes h + 5, hs_body_total := length body, hs_body_len := 0,
        hs_state := CLOAK_CLIENT_HS_STATE_READ_RECORD_BODY\<rparr>"
  have "header_piece e h (hdr @ body @ rest) = (header_complete e (eat_header h hdr), body @ rest)"
    using r(1) h(3) by (simp add: header_piece_alt Let_def) (simp add: eat_header_def)
  moreover have "header_complete e (eat_header h hdr) = h1"
    using r i n h(3) by (cases "hs_record_index h = 0") (simp_all add: header_complete_def eat_header_def h1_def Let_def hs_consts)
  ultimately have a: "hs_feed e h (hdr @ body @ rest) = hs_feed e h1 (body @ rest)"
    using feed_header[OF h(1,2), of "hdr @ body @ rest"] r(3) by simp
  have "body_piece e h1 (body @ rest) = (record_complete e (eat_body h1 body), rest)"
    by (simp add: body_piece_alt Let_def h1_def) (simp add: eat_body_def)
  then show ?thesis using a feed_body[of h1 "body @ rest" e] r(3) h(1) by (simp add: h1_def)
qed

definition fresh_reader :: "client_handshake \<Rightarrow> bytes \<Rightarrow> bool" where
  \<comment> \<open>the hello is written, nothing of the reply has been read\<close>
  "fresh_reader h ss \<longleftrightarrow> hs_status h = CLOAK_CLIENT_HANDSHAKE_PENDING \<and> hs_state h = CLOAK_CLIENT_HS_STATE_READ_RECORD_HEADER
     \<and> hs_header h = [] \<and> hs_record_index h = 0 \<and> hs_reply_bytes h = 0 \<and> hs_sh h = [] \<and> hs_shared_secret h = ss"

lemma server_hello_prefix:
  assumes "length nonce = 12" "length c = 48" "length sid = 32" "length pad4 = 4"
  defines "sh \<equiv> server_hello nonce c sid pad4"
  shows "length sh = 122" "take 12 (drop 6 (take 112 sh)) = nonce" "take 20 (drop 18 (take 112 sh)) @ take 28 (drop 84 (take 112 sh)) = c"
proof -
  show "length sh = 122" using assms by (simp add: server_hello_def)
  have p: "sh = [0x02, 0x00, 0x00, 0x76, 0x03, 0x03] @ nonce @ take 20 c @ ([0x20] @ sid @ [0x13, 0x02, 0x00] @ be16_store (0x002e :: u16)
     @ be16_store (0x0033 :: u16) @ be16_store (0x0024 :: u16) @ be16_store (0x001d :: u16) @ be16_store (0x0020 :: u16))
     @ drop 20 c @ (pad4 @ be16_store (0x002b :: u16) @ be16_store (0x0002 :: u16) @ [0x03, 0x04])"
    by (simp add: sh_def server_hello_def)
  have t: "take 112 sh = [0x02, 0x00, 0x00, 0x76, 0x03, 0x03] @ nonce @ take 20 c @ ([0x20] @ sid @ [0x13, 0x02, 0x00] @ be16_store (0x002e :: u16)
     @ be16_store (0x0033 :: u16) @ be16_store (0x0024 :: u16) @ be16_store (0x001d :: u16) @ be16_store (0x0020 :: u16)) @ drop 20 c"
    unfolding p using assms by simp
  show "take 12 (drop 6 (take 112 sh)) = nonce" unfolding t using assms by simp
  have "take 20 (drop 18 (take 112 sh)) = take 20 c" "take 28 (drop 84 (take 112 sh)) = drop 20 c" unfolding t using assms by simp_all
  then show "take 20 (drop 18 (take 112 sh)) @ take 28 (drop 84 (take 112 sh)) = c" by (simp only: append_take_drop_id)
qed


lemma open_nonce: "take 12 n = take 12 n' \<Longrightarrow> cloak_aead_open e m k n a c = cloak_aead_open e m k n' a c"
  unfolding cloak_aead_open_def CLOAK_AEAD_NONCE_LEN_def by (simp split: option.splits)

lemma be16_header:
  assumes "n < 65536"
  shows "unat (be16_load (drop 3 ([a, b, c] @ be16_store (of_nat n :: u16))) :: u32) = n"
proof -
  have "be16_load (be16_store v) = (ucast v :: u32)" for v :: u16
    unfolding be16_load_def be16_store_def by (rule bit_word_eqI) (auto simp: bit_simps dest: bit_imp_le_length)
  then show ?thesis using assms by (simp add: unsigned_ucast_eq unat_of_nat take_bit_nat_eq_self)
qed

lemma record_complete_first:
  "hs_record_index h = 0 \<Longrightarrow> recover_session_key e (h\<lparr>hs_record_index := 1\<rparr>) = Some key \<Longrightarrow>
     record_complete e h = h\<lparr>hs_record_index := 1, hs_session_key := key, hs_header := [], hs_body_len := 0, hs_body_total := 0,
       hs_state := CLOAK_CLIENT_HS_STATE_READ_RECORD_HEADER\<rparr>"
  by (simp add: record_complete_def hs_consts Let_def)

lemma record_complete_second:
  "hs_record_index h = 1 \<Longrightarrow> record_complete e h = h\<lparr>hs_record_index := 2, hs_header := [], hs_body_len := 0, hs_body_total := 0,
       hs_state := CLOAK_CLIENT_HS_STATE_READ_RECORD_HEADER\<rparr>"
  by (simp add: record_complete_def hs_consts Let_def)

lemma record_complete_third: "hs_record_index h = 2 \<Longrightarrow> record_complete e h = hs_complete (h\<lparr>hs_record_index := 3\<rparr>)"
  by (simp add: record_complete_def hs_consts Let_def)

lemma complete_fields:
  "hs_status h = CLOAK_CLIENT_HANDSHAKE_PENDING \<Longrightarrow> hs_status (hs_complete h) = CLOAK_CLIENT_HANDSHAKE_DONE"
  "hs_session_key (hs_complete h) = hs_session_key h"
  by (simp_all add: hs_complete_def release_reactor_def Let_def)

lemma feed_server_hello:
  assumes f: "fresh_reader h ss" and op: "cloak_aead_open e CLOAK_AEAD_AES_256_GCM ss nonce [] ct = Some key"
    and l: "length key = 32" "length nonce = 12" "length ct = 48" "length sid = 32" "length pad4 = 4"
  shows "\<exists>h1. hs_feed e h (([0x16, 0x03, 0x03] @ be16_store (of_nat 122 :: u16)) @ server_hello nonce ct sid pad4 @ rest) = hs_feed e h1 rest
     \<and> hs_status h1 = CLOAK_CLIENT_HANDSHAKE_PENDING \<and> hs_state h1 = CLOAK_CLIENT_HS_STATE_READ_RECORD_HEADER \<and> hs_header h1 = []
     \<and> hs_record_index h1 = 1 \<and> hs_reply_bytes h1 = 127 \<and> hs_session_key h1 = key"
proof -
  define sh where "sh = server_hello nonce ct sid pad4"
  note p = server_hello_prefix[OF l(2-5), folded sh_def]
  have fr: "hs_status h = CLOAK_CLIENT_HANDSHAKE_PENDING" "hs_state h = CLOAK_CLIENT_HS_STATE_READ_RECORD_HEADER" "hs_header h = []"
    "hs_record_index h = 0" "hs_reply_bytes h = 0" "hs_sh h = []" "hs_shared_secret h = ss" using f by (simp_all add: fresh_reader_def)
  define hdr where "hdr = [0x16, 0x03, 0x03] @ be16_store (of_nat 122 :: u16)"
  have hd: "length hdr = 5" "unat (be16_load (drop 3 hdr) :: u32) = length sh" "hdr ! 0 = 0x16"
    using be16_header[of 122] p(1) by (simp_all add: hdr_def)
  define h0 where "h0 = eat_body (h\<lparr>hs_header := hdr, hs_reply_bytes := hs_reply_bytes h + 5, hs_body_total := length sh,
      hs_body_len := 0, hs_state := CLOAK_CLIENT_HS_STATE_READ_RECORD_BODY\<rparr>) sh"
  have h0: "hs_record_index h0 = 0" "hs_status h0 = CLOAK_CLIENT_HANDSHAKE_PENDING" "hs_sh h0 = take 112 sh" "hs_shared_secret h0 = ss"
    "hs_reply_bytes h0 = 127"
    using fr p(1) by (simp_all add: h0_def eat_body_def captured_def)
  have "cloak_aead_open e CLOAK_AEAD_AES_256_GCM ss (drop 6 (take 112 sh)) [] ct = Some key"
    using op open_nonce[of "drop 6 (take 112 sh)" nonce e CLOAK_AEAD_AES_256_GCM ss "[]" ct] p(2) l(2) by simp
  then have rk: "recover_session_key e (h0\<lparr>hs_record_index := 1\<rparr>) = Some key"
    unfolding recover_session_key_def using h0(3,4) p(1,3) l(1) by (simp add: hs_consts CLOAK_AEAD_KEY_LEN_def)
  have "sh \<noteq> []" using p(1) by auto
  then have "hs_feed e h (hdr @ sh @ rest) = hs_feed e (record_complete e h0) rest"
    unfolding h0_def by (intro feed_record) (use fr hd p(1) in auto)
  then show ?thesis using record_complete_first[OF h0(1) rk] h0
    by (intro exI[of _ "record_complete e h0"]) (simp add: hdr_def sh_def)
qed

lemma feed_reply:
  assumes e: "evp_sound e" and f: "fresh_reader h ss"
    and c: "cloak_server_auth_compose_reply e ss key nonce sid pad4 cert cap = Some reply"
    and l: "length key = 32" "length nonce = 12" "length sid = 32" "length pad4 = 4"
  shows "\<exists>h'. hs_feed e h reply = Some h' \<and> hs_status h' = CLOAK_CLIENT_HANDSHAKE_DONE \<and> hs_session_key h' = key
     \<and> hs_reply_bytes h' = length reply"
proof -
  define hdr2 where "hdr2 = [0x14, 0x03, 0x03] @ be16_store (of_nat 1 :: u16)"
  define hdr3 where "hdr3 = [0x17, 0x03, 0x03] @ be16_store (of_nat (length cert) :: u16)"
  obtain ct where ct: "cloak_aead_seal e CLOAK_AEAD_AES_256_GCM ss nonce [] key = Some ct" "length ct = 48" "cert_len_is_valid (length cert)"
    and reply: "reply = ([0x16, 0x03, 0x03] @ be16_store (of_nat 122 :: u16)) @ server_hello nonce ct sid pad4
                   @ (hdr2 @ [0x01] @ (hdr3 @ cert @ []))"
    using c by (auto simp: cloak_server_auth_compose_reply_def hdr2_def hdr3_def Let_def split: if_splits option.splits)
  have cl: "cert \<noteq> []" "length cert \<le> 68" using ct(3) by (auto simp: cert_len_is_valid_def cloak_server_auth_cert_lens_def)
  obtain h1 where h1: "hs_feed e h reply = hs_feed e h1 (hdr2 @ [0x01] @ (hdr3 @ cert @ []))"
    "hs_status h1 = CLOAK_CLIENT_HANDSHAKE_PENDING" "hs_state h1 = CLOAK_CLIENT_HS_STATE_READ_RECORD_HEADER" "hs_header h1 = []"
    "hs_record_index h1 = 1" "hs_reply_bytes h1 = 127" "hs_session_key h1 = key"
    using feed_server_hello[OF f aead_open_seal[OF e ct(1)] l(1,2) ct(2) l(3,4), of "hdr2 @ [0x01] @ (hdr3 @ cert @ [])"] unfolding reply by blast
  define g where "g = eat_body (h1\<lparr>hs_header := hdr2, hs_reply_bytes := hs_reply_bytes h1 + 5, hs_body_total := length [0x01 :: byte],
      hs_body_len := 0, hs_state := CLOAK_CLIENT_HS_STATE_READ_RECORD_BODY\<rparr>) [0x01]"
  have s2: "hs_feed e h1 (hdr2 @ [0x01] @ (hdr3 @ cert @ [])) = hs_feed e (record_complete e g) (hdr3 @ cert @ [])"
    unfolding g_def using h1 be16_header[of 1] by (intro feed_record) (auto simp: hdr2_def)
  define h2 where "h2 = record_complete e g"
  have gf: "hs_record_index g = 1" "hs_status g = CLOAK_CLIENT_HANDSHAKE_PENDING" "hs_reply_bytes g = 133" "hs_session_key g = key"
    using h1 by (simp_all add: g_def eat_body_def)
  have h2: "hs_status h2 = CLOAK_CLIENT_HANDSHAKE_PENDING" "hs_state h2 = CLOAK_CLIENT_HS_STATE_READ_RECORD_HEADER" "hs_header h2 = []"
    "hs_record_index h2 = 2" "hs_reply_bytes h2 = 133" "hs_session_key h2 = key"
    using gf by (simp_all add: h2_def record_complete_second)
  define k where "k = eat_body (h2\<lparr>hs_header := hdr3, hs_reply_bytes := hs_reply_bytes h2 + 5, hs_body_total := length cert,
      hs_body_len := 0, hs_state := CLOAK_CLIENT_HS_STATE_READ_RECORD_BODY\<rparr>) cert"
  have s3: "hs_feed e h2 (hdr3 @ cert @ []) = hs_feed e (record_complete e k) []"
    unfolding k_def using h2 be16_header[of "length cert"] cl by (intro feed_record) (auto simp: hdr3_def)
  have kf: "hs_record_index k = 2" "hs_status k = CLOAK_CLIENT_HANDSHAKE_PENDING" "hs_reply_bytes k = 138 + length cert" "hs_session_key k = key"
    using h2 by (simp_all add: k_def eat_body_def)
  have "length reply = 138 + length cert" using server_hello_prefix(1)[OF l(2) ct(2) l(3,4)] by (simp add: reply hdr2_def hdr3_def)
  then show ?thesis using h1(1) s2 s3 kf
    by (simp add: h2_def[symmetric] feed_nil record_complete_third complete_fields reply_bytes_end)
qed


section \<open>The read loop against a socket\<close>

definition stream_ok :: "'w io_env \<Rightarrow> ('w \<Rightarrow> bytes) \<Rightarrow> ('w \<Rightarrow> nat) \<Rightarrow> bool" where
  \<comment> \<open>\<open>rem w\<close> is what the peer's byte stream still holds; a receive hands out a nonempty prefix of it, no longer than asked for, or
     nothing; and the kernel does not interrupt or deliver forever\<close>
  "stream_ok env rem avail \<longleftrightarrow> (\<forall>w n r w'. 0 < n \<longrightarrow> io_recv_fd env w n = (r, w') \<longrightarrow>
     (case r of IoData bs \<Rightarrow> bs \<noteq> [] \<and> length bs \<le> n \<and> rem w = bs @ rem w' \<and> avail w' < avail w
      | IoRecvIntr \<Rightarrow> rem w' = rem w \<and> avail w' < avail w
      | _ \<Rightarrow> rem w' = rem w))"

lemma fail_error: "hs_status h = CLOAK_CLIENT_HANDSHAKE_PENDING \<Longrightarrow> hs_error (hs_fail h err) = err"
  by (simp add: hs_fail_def release_reactor_def Let_def)

lemma reading_wants: "hs_ok h \<Longrightarrow> hs_status h = CLOAK_CLIENT_HANDSHAKE_PENDING \<Longrightarrow> reading h \<and> 0 < bytes_wanted h"
  by (auto simp: hs_ok_def reading_def bytes_wanted_def)

lemma do_read_feeds:
  assumes st: "stream_ok env rem avail" and ok: "hs_ok h"
  shows "\<exists>h' w' c h1. hs_do_read e env h w = Some (h', w') \<and> rem w = c @ rem w' \<and> hs_feed e h c = Some h1 \<and> hs_ok h1
     \<and> hs_reply_bytes h1 = hs_reply_bytes h + length c
     \<and> (h' = h1 \<or> h' = hs_fail h1 CLOAK_CLIENT_HANDSHAKE_ERR_EOF \<or> h' = hs_fail h1 CLOAK_CLIENT_HANDSHAKE_ERR_IO)"
  using ok
proof (induction "avail w" arbitrary: h w rule: less_induct)
  case less
  show ?case
  proof (cases "hs_status h = CLOAK_CLIENT_HANDSHAKE_PENDING")
    case False
    then show ?thesis using less.prems
      by (subst hs_do_read.simps) (auto simp: feed_nil intro!: exI[of _ "[]"])
  next
    case True
    then have rd: "reading h" "0 < bytes_wanted h" using reading_wants less.prems by auto
    define n where "n = (if bytes_wanted h > 1024 then 1024 else bytes_wanted h)"
    obtain r w1 where r: "io_recv_fd env w n = (r, w1)" by fastforce
    have sr: "case r of IoData bs \<Rightarrow> bs \<noteq> [] \<and> length bs \<le> n \<and> rem w = bs @ rem w1 \<and> avail w1 < avail w
      | IoRecvIntr \<Rightarrow> rem w1 = rem w \<and> avail w1 < avail w | _ \<Rightarrow> rem w1 = rem w"
      using st r rd(2) unfolding stream_ok_def by (simp add: n_def)
    have eq: "hs_do_read e env h w = (case r of
             IoData bs \<Rightarrow> Option.bind (hs_feed e h bs) (\<lambda>h1. hs_do_read e env h1 w1)
           | IoEof \<Rightarrow> Some (hs_fail h CLOAK_CLIENT_HANDSHAKE_ERR_EOF, w1)
           | IoRecvIntr \<Rightarrow> hs_do_read e env h w1
           | IoRecvAgain \<Rightarrow> Some (h, w1)
           | IoRecvErr \<Rightarrow> Some (hs_fail h CLOAK_CLIENT_HANDSHAKE_ERR_IO, w1))"
      using True rd(2) r unfolding n_def by (subst hs_do_read.simps) (simp add: Let_def)
    show ?thesis
    proof (cases r)
      case (IoData bs)
      then have b: "bs \<noteq> []" "length bs \<le> bytes_wanted h" "rem w = bs @ rem w1" "avail w1 < avail w" using sr by (auto simp: n_def split: if_splits)
      obtain h1 where h1: "hs_feed e h bs = Some h1" "hs_ok h1" "hs_reply_bytes h1 = hs_reply_bytes h + length bs"
        using feed_within[OF rd(1) b(1,2)] by blast
      obtain h' w' c h2 where i: "hs_do_read e env h1 w1 = Some (h', w')" "rem w1 = c @ rem w'" "hs_feed e h1 c = Some h2" "hs_ok h2"
        "hs_reply_bytes h2 = hs_reply_bytes h1 + length c"
        "h' = h2 \<or> h' = hs_fail h2 CLOAK_CLIENT_HANDSHAKE_ERR_EOF \<or> h' = hs_fail h2 CLOAK_CLIENT_HANDSHAKE_ERR_IO"
        using less.hyps[OF b(4) h1(2)] by blast
      have "hs_feed e h (bs @ c) = Some h2" using feed_append[OF less.prems] h1(1) i(3) by simp
      then show ?thesis using eq IoData h1 b(3) i
        by (intro exI[of _ h'] exI[of _ w'] exI[of _ "bs @ c"] exI[of _ h2]) simp
    next
      case IoRecvIntr
      then have "rem w1 = rem w" "avail w1 < avail w" using sr by auto
      then show ?thesis using less.hyps[OF _ less.prems, of w1] eq IoRecvIntr by simp
    qed (use eq sr less.prems in \<open>auto simp: feed_nil intro!: exI[of _ "[]"]\<close>)
  qed
qed



definition slow_stream :: "bytes io_env" where
  \<comment> \<open>a socket whose state is what it still holds; it hands out at most three bytes at a time\<close>
  "slow_stream = \<lparr>io_recv_fd = (\<lambda>w n. if w = [] then (IoRecvAgain, w) else (IoData (take (min n 3) w), drop (min n 3) w)),
     io_send_fd = (\<lambda>w bs. (IoSendAgain, w)), io_mod_ok = True\<rparr>"

lemma slow_stream_ok: "stream_ok slow_stream (\<lambda>w. w) length"
  by (auto simp: stream_ok_def slow_stream_def split: if_splits)

definition sample_handshake :: client_handshake where
  "sample_handshake = hs_rejected\<lparr>hs_shared_secret := replicate 32 4, hs_state := CLOAK_CLIENT_HS_STATE_READ_RECORD_HEADER,
     hs_status := CLOAK_CLIENT_HANDSHAKE_PENDING, hs_error := CLOAK_CLIENT_HANDSHAKE_ERR_NONE, hs_notified := False\<rparr>"


end
