(* ===== verification/WsHandshake.thy ===== *)
theory WsHandshake
  imports AsciiText Base64
begin

text \<open>
  \<open>libcloak-server/src/ws_handshake.c\<close>: the server side of the WebSocket upgrade that carries a client's authentication payload through a
  CDN. A span into the request buffer is the list of its bytes, the position in the buffer is what is left of it, and OpenSSL's
  SHA-1 is a parameter that returns \<^const>\<open>None\<close> when \<open>EVP_Digest\<close> fails.
\<close>

definition WS_GUID :: bytes where
  "WS_GUID = lit ''258EAFA5-E914-47DA-95CA-C5AB0DC85B11''"

definition CLOAK_WS_HS_HIDDEN_LEN :: nat where "CLOAK_WS_HS_HIDDEN_LEN = 96"
definition CLOAK_WS_HS_HIDDEN_B64_LEN :: nat where "CLOAK_WS_HS_HIDDEN_B64_LEN = 128"
definition CLOAK_WS_HS_KEY_B64_MAX :: nat where "CLOAK_WS_HS_KEY_B64_MAX = 24"
definition CLOAK_WS_HS_ACCEPT_LEN :: nat where "CLOAK_WS_HS_ACCEPT_LEN = 28"
definition CLOAK_WS_HS_101_LEN :: nat where "CLOAK_WS_HS_101_LEN = 129"

lemmas ws_hs_consts = CLOAK_WS_HS_HIDDEN_LEN_def CLOAK_WS_HS_HIDDEN_B64_LEN_def CLOAK_WS_HS_KEY_B64_MAX_def CLOAK_WS_HS_ACCEPT_LEN_def
  CLOAK_WS_HS_101_LEN_def

datatype ws_hs_result =
    CLOAK_WS_HS_OK
  | CLOAK_WS_HS_ERR_MALFORMED
  | CLOAK_WS_HS_ERR_BAD_HIDDEN
  | CLOAK_WS_HS_ERR_NOT_UPGRADE
  | CLOAK_WS_HS_ERR_BAD_VERSION
  | CLOAK_WS_HS_ERR_BAD_KEY
  | CLOAK_WS_HS_ERR_INTERNAL

record ws_hs =
  ws_hidden :: bytes
  ws_accept :: string

definition is_value_octet :: "byte \<Rightarrow> bool" where
  "is_value_octet c = (if c = 9 then True else 0x20 \<le> c \<and> c \<noteq> 0x7f)"

function token_list_contains :: "bytes \<Rightarrow> bytes \<Rightarrow> bool" where
  "token_list_contains v want =
     (let w = dropWhile is_ows v;
          tok = takeWhile is_token_octet w;
          after = dropWhile is_ows (drop (length tok) w)
      in
      if tok = [] then False
      else if after \<noteq> [] \<and> hd after \<noteq> 44 then False
      else if ci_eq tok want then True
      else if after = [] then False
      else token_list_contains (tl after) want)"
  by pat_completeness auto
termination
proof (relation "measure (length \<circ> fst)", goal_cases)
  case (2 v want w tok after)
  have "length after \<le> length w" using 2(3) by (metis length_drop length_dropWhile_le diff_le_self le_trans)
  then have "length after \<le> length v" using 2(1) length_dropWhile_le[of is_ows v] by simp
  then show ?case using 2(7) by (cases after) auto
qed simp

declare token_list_contains.simps [simp del]

record scan =
  sc_hidden :: "bytes option"
  sc_key :: "bytes option"
  sc_conn_upgrade :: bool
  sc_upgrade_websocket :: bool
  sc_version_13 :: bool

definition next_line :: "bytes \<Rightarrow> (bytes \<times> bytes) option" where
  \<comment> \<open>the line without its terminator and what follows it\<close>
  "next_line buf =
     (if buf = [] then None
      else
        let line = takeWhile (\<lambda>b. b \<noteq> 13) buf in
        if length line = length buf then None
        else if length line + 1 \<ge> length buf \<or> buf ! (length line + 1) \<noteq> 10 then None
        else Some (line, drop (length line + 2) buf))"

datatype reqline = REQLINE_MALFORMED | REQLINE_NOT_GET | REQLINE_GET

definition parse_request_line :: "bytes \<Rightarrow> reqline" where
  "parse_request_line line =
     (if 32 \<notin> set line then REQLINE_MALFORMED
      else
        let meth = takeWhile (\<lambda>b. b \<noteq> 32) line; rest = drop (length meth + 1) line in
        if 32 \<notin> set rest \<or> hd rest = 32 then REQLINE_MALFORMED
        else
          let vers = drop (length (takeWhile (\<lambda>b. b \<noteq> 32) rest) + 1) rest in
          if length vers < 6 \<or> take 5 vers \<noteq> lit ''HTTP/'' then REQLINE_MALFORMED
          else if 32 \<in> set vers then REQLINE_MALFORMED
          else if meth \<noteq> lit ''GET'' then REQLINE_NOT_GET
          else REQLINE_GET)"

definition scan_field :: "bytes \<Rightarrow> bytes \<Rightarrow> scan \<Rightarrow> scan" where
  "scan_field name val s =
     (if ci_eq name (lit ''hidden'') then (if sc_hidden s = None then s\<lparr>sc_hidden := Some val\<rparr> else s)
      else if ci_eq name (lit ''sec-websocket-key'') then (if sc_key s = None then s\<lparr>sc_key := Some val\<rparr> else s)
      else if ci_eq name (lit ''connection'') then s\<lparr>sc_conn_upgrade := sc_conn_upgrade s \<or> token_list_contains val (lit ''upgrade'')\<rparr>
      else if ci_eq name (lit ''upgrade'') then s\<lparr>sc_upgrade_websocket := sc_upgrade_websocket s \<or> token_list_contains val (lit ''websocket'')\<rparr>
      else if ci_eq name (lit ''sec-websocket-version'') then s\<lparr>sc_version_13 := sc_version_13 s \<or> token_list_contains val (lit ''13'')\<rparr>
      else s)"

definition scan_header_line :: "bytes \<Rightarrow> scan \<Rightarrow> scan option" where
  "scan_header_line line s =
     (if 58 \<notin> set line then None
      else
        let name = takeWhile (\<lambda>b. b \<noteq> 58) line in
        if name = [] then None
        else if \<not> list_all is_token_octet name then None
        else
          let val = trim_ows (drop (length name + 1) line) in
          if \<not> list_all is_value_octet val then None
          else Some (scan_field name val s))"

definition decode_exact :: "bytes \<Rightarrow> nat \<Rightarrow> nat \<Rightarrow> bytes option" where
  \<comment> \<open>the text is copied behind a terminator, so the decoder sees it up to its first NUL\<close>
  "decode_exact inp b64_cap out_len =
     (if b64_cap > CLOAK_WS_HS_HIDDEN_B64_LEN then None
      else if inp = [] \<or> length inp > b64_cap then None
      else case cloak_base64_decode (text_of (takeWhile (\<lambda>b. b \<noteq> 0) inp)) CLOAK_WS_HS_HIDDEN_LEN of
             None \<Rightarrow> None
           | Some decoded \<Rightarrow> if length decoded \<noteq> out_len then None else Some decoded)"

definition compute_accept :: "(bytes \<Rightarrow> bytes option) \<Rightarrow> bytes \<Rightarrow> string option" where
  "compute_accept sha1 key =
     (if length key > CLOAK_WS_HS_KEY_B64_MAX then None
      else case sha1 (key @ WS_GUID) of
             None \<Rightarrow> None
           | Some md \<Rightarrow> if length md \<noteq> 20 then None else cloak_base64_encode md (CLOAK_WS_HS_ACCEPT_LEN + 1))"

function headers_loop :: "bytes \<Rightarrow> scan \<Rightarrow> scan option" where
  \<comment> \<open>\<^const>\<open>None\<close> for a malformed line or a block that never ends\<close>
  "headers_loop buf s =
     (case next_line buf of
        None \<Rightarrow> None
      | Some (line, rest) \<Rightarrow>
          if line = [] then Some s
          else case scan_header_line line s of None \<Rightarrow> None | Some s1 \<Rightarrow> headers_loop rest s1)"
  by pat_completeness auto
termination
  by (relation "measure (length \<circ> fst)") (auto simp: next_line_def Let_def split: if_splits)

declare headers_loop.simps [simp del]

definition ws_hs_decide :: "(bytes \<Rightarrow> bytes option) \<Rightarrow> reqline \<Rightarrow> scan \<Rightarrow> ws_hs_result \<times> ws_hs option" where
  "ws_hs_decide sha1 reqline s =
     (case Option.bind (sc_hidden s) (\<lambda>v. decode_exact v CLOAK_WS_HS_HIDDEN_B64_LEN CLOAK_WS_HS_HIDDEN_LEN) of
        None \<Rightarrow> (CLOAK_WS_HS_ERR_BAD_HIDDEN, None)
      | Some hidden \<Rightarrow>
          if \<not> sc_conn_upgrade s \<or> \<not> sc_upgrade_websocket s \<or> reqline \<noteq> REQLINE_GET then (CLOAK_WS_HS_ERR_NOT_UPGRADE, None)
          else if \<not> sc_version_13 s then (CLOAK_WS_HS_ERR_BAD_VERSION, None)
          else
            (case sc_key s of
               None \<Rightarrow> (CLOAK_WS_HS_ERR_BAD_KEY, None)
             | Some key \<Rightarrow>
                 if decode_exact key CLOAK_WS_HS_KEY_B64_MAX 16 = None then (CLOAK_WS_HS_ERR_BAD_KEY, None)
                 else case compute_accept sha1 key of
                        None \<Rightarrow> (CLOAK_WS_HS_ERR_INTERNAL, None)
                      | Some accept \<Rightarrow> (CLOAK_WS_HS_OK, Some \<lparr>ws_hidden = hidden, ws_accept = accept\<rparr>)))"

definition scan_zero :: scan where
  "scan_zero = \<lparr>sc_hidden = None, sc_key = None, sc_conn_upgrade = False, sc_upgrade_websocket = False, sc_version_13 = False\<rparr>"

definition cloak_ws_handshake_parse :: "(bytes \<Rightarrow> bytes option) \<Rightarrow> bytes \<Rightarrow> ws_hs_result \<times> ws_hs option" where
  "cloak_ws_handshake_parse sha1 req =
     (case next_line req of
        None \<Rightarrow> (CLOAK_WS_HS_ERR_MALFORMED, None)
      | Some (line, rest) \<Rightarrow>
          (case parse_request_line line of
             REQLINE_MALFORMED \<Rightarrow> (CLOAK_WS_HS_ERR_MALFORMED, None)
           | reqline \<Rightarrow>
               (case headers_loop rest scan_zero of
                  None \<Rightarrow> (CLOAK_WS_HS_ERR_MALFORMED, None)
                | Some s \<Rightarrow> ws_hs_decide sha1 reqline s)))"

definition RESP_HEAD :: bytes where
  "RESP_HEAD = lit ''HTTP/1.1 101 Switching Protocols'' @ [13, 10] @ lit ''Upgrade: websocket'' @ [13, 10]
     @ lit ''Connection: Upgrade'' @ [13, 10] @ lit ''Sec-WebSocket-Accept: ''"

definition RESP_TAIL :: bytes where
  "RESP_TAIL = [13, 10, 13, 10]"

definition accept_char :: "char \<Rightarrow> bool" where
  "accept_char c \<longleftrightarrow> c \<in> set b64_alphabet \<or> c = CHR ''=''"

definition cloak_ws_handshake_compose_101 :: "nat \<Rightarrow> string \<Rightarrow> bytes option" where
  \<comment> \<open>the bytes written to a buffer of that capacity; the accept value is a C string\<close>
  "cloak_ws_handshake_compose_101 cap accept =
     (if \<not> (length accept \<ge> CLOAK_WS_HS_ACCEPT_LEN \<and> list_all accept_char (take CLOAK_WS_HS_ACCEPT_LEN accept)) then None
      else if length accept \<noteq> CLOAK_WS_HS_ACCEPT_LEN then None
      else if cap < length RESP_HEAD + CLOAK_WS_HS_ACCEPT_LEN + length RESP_TAIL then None
      else Some (RESP_HEAD @ lit accept @ RESP_TAIL))"

section \<open>The request as a message\<close>

definition enc_upgrade :: "bytes \<Rightarrow> bytes \<Rightarrow> bytes \<Rightarrow> header list \<Rightarrow> bytes" where
  "enc_upgrade meth target vers hs = meth @ 32 # target @ 32 # vers @ [13, 10] @ concat (map enc_header hs) @ [13, 10]"

definition header_ok :: "header \<Rightarrow> bool" where
  "header_ok h \<longleftrightarrow> fst h \<noteq> [] \<and> list_all is_token_octet (fst h) \<and> 13 \<notin> set (snd h) \<and> list_all is_value_octet (trim_ows (snd h))"

definition start_line_ok :: "bytes \<Rightarrow> bytes \<Rightarrow> bytes \<Rightarrow> bool" where
  "start_line_ok meth target vers \<longleftrightarrow> 32 \<notin> set meth \<and> 13 \<notin> set meth \<and> target \<noteq> [] \<and> 32 \<notin> set target \<and> 13 \<notin> set target
     \<and> 6 \<le> length vers \<and> take 5 vers = lit ''HTTP/'' \<and> 32 \<notin> set vers \<and> 13 \<notin> set vers"

definition field_values :: "header list \<Rightarrow> string \<Rightarrow> bytes list" where
  \<comment> \<open>the values of the fields of that name, in order\<close>
  "field_values hs name = map (\<lambda>h. trim_ows (snd h)) (filter (\<lambda>h. ci_eq (fst h) (lit name)) hs)"

definition first_value :: "header list \<Rightarrow> string \<Rightarrow> bytes option" where
  "first_value hs name = (case field_values hs name of [] \<Rightarrow> None | v # vs \<Rightarrow> Some v)"

definition has_token :: "header list \<Rightarrow> string \<Rightarrow> string \<Rightarrow> bool" where
  "has_token hs name tok \<longleftrightarrow> (\<exists>v \<in> set (field_values hs name). token_list_contains v (lit tok))"

subsection \<open>Lines\<close>

lemma next_line_crlf: "13 \<notin> set line \<Longrightarrow> next_line (line @ 13 # 10 # rest) = Some (line, rest)"
  by (simp add: next_line_def takeWhile_stop Let_def nth_append)

lemma next_line_SomeD:
  assumes "next_line buf = Some (line, rest)"
  shows "buf = line @ 13 # 10 # rest \<and> 13 \<notin> set line"
proof -
  let ?n = "length line"
  have l: "line = takeWhile (\<lambda>b. b \<noteq> 13) buf" and n: "?n + 1 < length buf" "buf ! (?n + 1) = 10" "rest = drop (?n + 2) buf"
    using assms by (auto simp: next_line_def Let_def split: if_splits)
  have c: "buf ! ?n = 13" using nth_length_takeWhile[of "\<lambda>b. b \<noteq> 13" buf] n(1) l by simp
  have t: "take ?n buf = line" unfolding l by (rule takeWhile_eq_take[symmetric])
  have "line @ 13 # 10 # rest = take ?n buf @ buf ! ?n # buf ! (?n + 1) # drop (?n + 2) buf" by (simp only: c t n(2,3))
  also have "\<dots> = buf" using n(1) by (simp add: Cons_nth_drop_Suc)
  finally have "buf = line @ 13 # 10 # rest" by (rule sym)
  moreover have "13 \<notin> set line" unfolding l by (auto dest: set_takeWhileD)
  ultimately show ?thesis ..
qed

lemma parse_request_line_ok:
  assumes "start_line_ok meth target vers"
  shows "parse_request_line (meth @ 32 # target @ 32 # vers) = (if meth = lit ''GET'' then REQLINE_GET else REQLINE_NOT_GET)"
proof -
  have "hd (target @ 32 # vers) \<noteq> 32" using assms by (cases target) (auto simp: start_line_ok_def)
  then show ?thesis using assms by (simp add: start_line_ok_def parse_request_line_def takeWhile_stop Let_def)
qed

lemma parse_request_lineD:
  assumes "parse_request_line line \<noteq> REQLINE_MALFORMED" "13 \<notin> set line"
  shows "\<exists>meth target vers. line = meth @ 32 # target @ 32 # vers \<and> start_line_ok meth target vers"
proof -
  define meth where "meth = takeWhile (\<lambda>b. b \<noteq> 32) line"
  define rest where "rest = drop (length meth + 1) line"
  define target where "target = takeWhile (\<lambda>b. b \<noteq> 32) rest"
  define vers where "vers = drop (length target + 1) rest"
  have c: "32 \<in> set line" "32 \<in> set rest" "hd rest \<noteq> 32" "6 \<le> length vers" "take 5 vers = lit ''HTTP/''" "32 \<notin> set vers"
    using assms(1) by (auto simp: parse_request_line_def meth_def rest_def target_def vers_def Let_def split: if_splits)
  have l: "line = meth @ 32 # rest" "rest = target @ 32 # vers"
    using split_at[OF c(1)] split_at[OF c(2)] by (simp_all add: meth_def rest_def target_def vers_def)
  have "target \<noteq> []" using c(3) l(2) by auto
  moreover have "32 \<notin> set meth" "32 \<notin> set target" by (auto simp: meth_def target_def dest: set_takeWhileD)
  ultimately have "start_line_ok meth target vers" using c assms(2) l by (auto simp: start_line_ok_def)
  then show ?thesis using l by blast
qed

subsection \<open>Fields\<close>

lemma scan_header_line_ok:
  assumes "header_ok h"
  shows "scan_header_line (fst h @ 58 # snd h) s = Some (scan_field (fst h) (trim_ows (snd h)) s)"
  using assms tokens_plain[of "fst h"] by (simp add: header_ok_def scan_header_line_def takeWhile_stop Let_def)

lemma scan_header_lineD:
  assumes "scan_header_line line s = Some s'" "13 \<notin> set line"
  shows "\<exists>h. line = fst h @ 58 # snd h \<and> header_ok h"
proof -
  let ?name = "takeWhile (\<lambda>b. b \<noteq> 58) line"
  have c: "58 \<in> set line" "?name \<noteq> []" "list_all is_token_octet ?name" "list_all is_value_octet (trim_ows (drop (length ?name + 1) line))"
    using assms(1) by (auto simp: scan_header_line_def Let_def split: if_splits)
  then have "header_ok (?name, drop (length ?name + 1) line)" using assms(2) by (auto simp: header_ok_def dest: in_set_dropD)
  then show ?thesis using split_at[OF c(1)] by (metis fst_conv snd_conv)
qed

definition scan_all :: "header list \<Rightarrow> scan \<Rightarrow> scan" where
  "scan_all hs s = fold (\<lambda>h. scan_field (fst h) (trim_ows (snd h))) hs s"

lemma headers_loop_ok:
  "list_all header_ok hs \<Longrightarrow> headers_loop (concat (map enc_header hs) @ 13 # 10 # rest) s = Some (scan_all hs s)"
proof (induction hs arbitrary: s)
  case Nil
  then show ?case using next_line_crlf[of "[]" rest] by (simp add: headers_loop.simps scan_all_def)
next
  case (Cons h hs)
  have ok: "header_ok h" "list_all header_ok hs" using Cons.prems by auto
  have "13 \<notin> set (fst h @ 58 # snd h)" using ok(1) tokens_plain[of "fst h"] by (auto simp: header_ok_def)
  then have "next_line (concat (map enc_header (h # hs)) @ 13 # 10 # rest) = Some (fst h @ 58 # snd h, concat (map enc_header hs) @ 13 # 10 # rest)"
    using next_line_crlf[of "fst h @ 58 # snd h"] by (simp add: enc_header_def)
  then show ?case using Cons.IH[OF ok(2)] scan_header_line_ok[OF ok(1)]
    by (subst headers_loop.simps) (simp add: scan_all_def del: map_eq_Cons_conv)
qed

lemma headers_loopD:
  "headers_loop buf s = Some s' \<Longrightarrow> \<exists>hs rest. list_all header_ok hs \<and> buf = concat (map enc_header hs) @ 13 # 10 # rest \<and> s' = scan_all hs s"
proof (induction buf s rule: headers_loop.induct)
  case (1 buf s)
  obtain line rest where n: "next_line buf = Some (line, rest)" using "1.prems" by (subst (asm) headers_loop.simps) (auto split: option.splits)
  note b = next_line_SomeD[OF n]
  show ?case
  proof (cases "line = []")
    case True
    then have "s' = s" using "1.prems" n by (subst (asm) headers_loop.simps) simp
    then show ?thesis using b True by (intro exI[of _ "[]"] exI[of _ rest]) (simp add: scan_all_def)
  next
    case False
    then obtain s1 where s1: "scan_header_line line s = Some s1" "headers_loop rest s1 = Some s'"
      using "1.prems" n by (subst (asm) headers_loop.simps) (auto split: option.splits)
    obtain h where h: "line = fst h @ 58 # snd h" "header_ok h" using scan_header_lineD[OF s1(1)] b by blast
    have e: "s1 = scan_field (fst h) (trim_ows (snd h)) s" using scan_header_line_ok[OF h(2), of s] s1(1) h(1) by simp
    obtain hs r where "list_all header_ok hs" "rest = concat (map enc_header hs) @ 13 # 10 # r" "s' = scan_all hs s1"
      using "1.IH"[OF n refl False s1] by blast
    then show ?thesis using b h e by (intro exI[of _ "h # hs"] exI[of _ r]) (simp add: enc_header_def[of h] scan_all_def)
  qed
qed

lemma scan_names_distinct:
  "ci_eq n (lit ''hidden'') \<Longrightarrow> \<not> ci_eq n (lit ''sec-websocket-key'') \<and> \<not> ci_eq n (lit ''connection'') \<and> \<not> ci_eq n (lit ''upgrade'') \<and> \<not> ci_eq n (lit ''sec-websocket-version'')"
  "ci_eq n (lit ''sec-websocket-key'') \<Longrightarrow> \<not> ci_eq n (lit ''connection'') \<and> \<not> ci_eq n (lit ''upgrade'') \<and> \<not> ci_eq n (lit ''sec-websocket-version'')"
  "ci_eq n (lit ''connection'') \<Longrightarrow> \<not> ci_eq n (lit ''upgrade'') \<and> \<not> ci_eq n (lit ''sec-websocket-version'')"
  "ci_eq n (lit ''upgrade'') \<Longrightarrow> \<not> ci_eq n (lit ''sec-websocket-version'')"
  by (auto dest!: ci_eq_len)

lemma field_values_Cons:
  "field_values (h # hs) name = (if ci_eq (fst h) (lit name) then trim_ows (snd h) # field_values hs name else field_values hs name)"
  by (simp add: field_values_def)

lemma scan_all_fields:
  "scan_all hs s =
     \<lparr>sc_hidden = (case sc_hidden s of None \<Rightarrow> first_value hs ''hidden'' | Some v \<Rightarrow> Some v),
      sc_key = (case sc_key s of None \<Rightarrow> first_value hs ''sec-websocket-key'' | Some v \<Rightarrow> Some v),
      sc_conn_upgrade = (sc_conn_upgrade s \<or> has_token hs ''connection'' ''upgrade''),
      sc_upgrade_websocket = (sc_upgrade_websocket s \<or> has_token hs ''upgrade'' ''websocket''),
      sc_version_13 = (sc_version_13 s \<or> has_token hs ''sec-websocket-version'' ''13'')\<rparr>"
proof (induction hs arbitrary: s)
  case Nil
  show ?case by (cases s) (simp add: scan_all_def first_value_def has_token_def field_values_def split: option.split)
next
  case (Cons h hs)
  have "scan_all (h # hs) s = scan_all hs (scan_field (fst h) (trim_ows (snd h)) s)" by (simp add: scan_all_def)
  then show ?case unfolding Cons.IH
    using scan_names_distinct[of "fst h"]
    by (auto simp: scan_field_def first_value_def has_token_def field_values_Cons split: option.split)
qed

definition upgrade_accepted :: "(bytes \<Rightarrow> bytes option) \<Rightarrow> bytes \<Rightarrow> header list \<Rightarrow> ws_hs \<Rightarrow> bool" where
  \<comment> \<open>what the fields of an accepted upgrade have to say\<close>
  "upgrade_accepted sha1 meth hs out \<longleftrightarrow> meth = lit ''GET''
     \<and> has_token hs ''connection'' ''upgrade'' \<and> has_token hs ''upgrade'' ''websocket'' \<and> has_token hs ''sec-websocket-version'' ''13''
     \<and> Option.bind (first_value hs ''hidden'') (\<lambda>v. decode_exact v 128 96) = Some (ws_hidden out)
     \<and> (\<exists>key md. first_value hs ''sec-websocket-key'' = Some key \<and> decode_exact key 24 16 \<noteq> None
          \<and> sha1 (key @ WS_GUID) = Some md \<and> length md = 20 \<and> cloak_base64_encode md 29 = Some (ws_accept out))"

lemma decide_ok:
  "ws_hs_decide sha1 (if meth = lit ''GET'' then REQLINE_GET else REQLINE_NOT_GET) (scan_all hs scan_zero) = (CLOAK_WS_HS_OK, Some out)
     \<longleftrightarrow> upgrade_accepted sha1 meth hs out"
proof -
  let ?H = "Option.bind (first_value hs ''hidden'') (\<lambda>v. decode_exact v 128 96)"
  let ?K = "first_value hs ''sec-websocket-key''"
  have short: "length key \<le> 24" if "decode_exact key 24 16 = Some b" for key b using that by (auto simp: decode_exact_def split: if_splits)
  show ?thesis
  proof (cases ?H)
    case None
    then show ?thesis unfolding scan_all_fields by (simp add: ws_hs_decide_def upgrade_accepted_def ws_hs_consts scan_zero_def)
  next
    case (Some h)
    then show ?thesis unfolding scan_all_fields
      by (cases ?K) (auto simp: ws_hs_decide_def upgrade_accepted_def ws_hs_consts scan_zero_def compute_accept_def dest: short split: option.splits)
  qed
qed

lemma parse_enc_upgrade:
  assumes "start_line_ok meth target vers" "list_all header_ok hs"
  shows "cloak_ws_handshake_parse sha1 (enc_upgrade meth target vers hs @ rest)
     = ws_hs_decide sha1 (if meth = lit ''GET'' then REQLINE_GET else REQLINE_NOT_GET) (scan_all hs scan_zero)"
proof -
  let ?l = "meth @ 32 # target @ 32 # vers"
  have "13 \<notin> set ?l" using assms(1) by (auto simp: start_line_ok_def)
  then have "next_line (enc_upgrade meth target vers hs @ rest) = Some (?l, concat (map enc_header hs) @ 13 # 10 # rest)"
    using next_line_crlf[of ?l] by (simp add: enc_upgrade_def)
  then show ?thesis using parse_request_line_ok[OF assms(1)] headers_loop_ok[OF assms(2), of rest scan_zero]
    by (simp add: cloak_ws_handshake_parse_def)
qed


section \<open>Token lists\<close>

definition token :: "bytes \<Rightarrow> bool" where
  "token t \<longleftrightarrow> t \<noteq> [] \<and> list_all is_token_octet t"

lemma token_take:
  assumes "token t" "r = [] \<or> \<not> is_token_octet (hd r)"
  shows "takeWhile is_token_octet (t @ r) = t" "dropWhile is_ows (t @ r) = t @ r"
proof -
  have "\<forall>x \<in> set t. is_token_octet x" using assms(1) by (simp add: token_def list_all_iff)
  then show "takeWhile is_token_octet (t @ r) = t" using assms(2) by (cases r) (auto simp: takeWhile_append)
  show "dropWhile is_ows (t @ r) = t @ r" using assms(1) token_octet_plain by (cases t) (auto simp: token_def is_ows_def)
qed

lemma token_list_contains_one: "token t \<Longrightarrow> token_list_contains t w = ci_eq t w"
  using token_take[of t "[]"] by (subst token_list_contains.simps) (simp add: token_def takeWhile_eq_all_conv[THEN iffD2] Let_def)

lemma token_list_contains_Cons:
  assumes "token t"
  shows "token_list_contains (t @ 44 # 32 # r) w = (ci_eq t w \<or> token_list_contains r w)"
proof -
  have n: "\<not> is_token_octet 44" "\<not> is_ows 44" "is_ows 32" by (simp_all add: is_token_octet_def is_ows_def)
  have "token_list_contains (32 # r) w = token_list_contains r w"
    by (subst (1 2) token_list_contains.simps) (simp add: n(3))
  then show ?thesis using token_take[OF assms, of "44 # 32 # r"] assms n by (subst token_list_contains.simps) (auto simp: token_def)
qed

fun join_tokens :: "bytes list \<Rightarrow> bytes" where
  "join_tokens [] = []"
| "join_tokens [t] = t"
| "join_tokens (t # ts) = t @ 44 # 32 # join_tokens ts"

lemma token_list_contains_joined:
  "list_all token ts \<Longrightarrow> token_list_contains (join_tokens ts) w = (\<exists>t \<in> set ts. ci_eq t w)"
proof (induction ts rule: join_tokens.induct)
  case 1
  show ?case by (subst token_list_contains.simps) simp
qed (simp_all add: token_list_contains_one token_list_contains_Cons)

section \<open>The reply\<close>

function lines_of :: "bytes \<Rightarrow> bytes list \<times> bytes" where
  \<comment> \<open>the lines of a buffer and its unterminated end\<close>
  "lines_of buf = (case next_line buf of None \<Rightarrow> ([], buf) | Some (l, r) \<Rightarrow> (let (ls, e) = lines_of r in (l # ls, e)))"
  by pat_completeness auto
termination
  by (relation "measure length") (auto simp: next_line_def Let_def split: if_splits)

declare lines_of.simps [simp del]

lemma lines_of_crlf: "13 \<notin> set l \<Longrightarrow> lines_of (l @ 13 # 10 # r) = (l # fst (lines_of r), snd (lines_of r))"
  by (subst lines_of.simps) (simp add: next_line_crlf case_prod_beta)

lemma lines_of_nil: "lines_of [] = ([], [])"
  by (subst lines_of.simps) (simp add: next_line_def)

lemma compose_101_lines:
  "cloak_ws_handshake_compose_101 cap accept = Some r \<longleftrightarrow>
     length accept = 28 \<and> list_all accept_char accept \<and> 129 \<le> cap \<and> r = RESP_HEAD @ lit accept @ RESP_TAIL"
  by (auto simp: cloak_ws_handshake_compose_101_def ws_hs_consts RESP_HEAD_def RESP_TAIL_def)

lemma alphabet_no_cr: "13 \<notin> set (lit accept)" if "list_all accept_char accept"
proof
  have "list_all (\<lambda>c. of_char c \<noteq> (13 :: byte)) b64_alphabet" by code_simp
  then have n: "accept_char c \<Longrightarrow> of_char c \<noteq> (13 :: byte)" for c by (auto simp: accept_char_def list_all_iff)
  assume "13 \<in> set (lit accept)"
  then show False using that n by (auto simp: lit_def list_all_iff)
qed

text \<open>
  The reply cannot be split. The composer answers exactly for a 28-character accept value over the base64 alphabet and a buffer of 129 bytes; the reply
  is then 129 bytes long and reads as the status line, the two upgrade fields, the accept field with that value and the blank line, with nothing after it.
\<close>

theorem ws_reply_four_lines:
  assumes "cloak_ws_handshake_compose_101 cap accept = Some r"
  shows "length r = CLOAK_WS_HS_101_LEN \<and> length r \<le> cap
    \<and> lines_of r = ([lit ''HTTP/1.1 101 Switching Protocols'', lit ''Upgrade: websocket'', lit ''Connection: Upgrade'',
         lit ''Sec-WebSocket-Accept: '' @ lit accept, []], [])"
proof -
  have r: "length accept = 28" "list_all accept_char accept" "129 \<le> cap" "r = RESP_HEAD @ lit accept @ RESP_TAIL"
    using assms by (auto simp: compose_101_lines)
  have "13 \<notin> set (lit ''Sec-WebSocket-Accept: '' @ lit accept)" using alphabet_no_cr[OF r(2)] by (simp add: lit_def)
  from lines_of_crlf[OF this, of "[13, 10]"] lines_of_crlf[of "[]" "[]"]
  have "lines_of (lit ''Sec-WebSocket-Accept: '' @ lit accept @ RESP_TAIL) = ([lit ''Sec-WebSocket-Accept: '' @ lit accept, []], [])"
    by (simp add: RESP_TAIL_def lines_of_nil)
  moreover have "13 \<notin> set (lit ''HTTP/1.1 101 Switching Protocols'')" "13 \<notin> set (lit ''Upgrade: websocket'')" "13 \<notin> set (lit ''Connection: Upgrade'')"
    by (simp_all add: lit_def)
  ultimately show ?thesis using r
    by (simp add: RESP_HEAD_def lines_of_crlf ws_hs_consts) (simp add: RESP_TAIL_def)
qed

theorem ws_reply_four_lines_witness:
  "\<exists>r. cloak_ws_handshake_compose_101 129 ''s3pPLMBiTxaQ9kYGzzhZRbK+xOo='' = Some r \<and> length (fst (lines_of r)) = 5"
proof -
  have "list_all accept_char ''s3pPLMBiTxaQ9kYGzzhZRbK+xOo=''" by (simp add: accept_char_def b64_alphabet_def B64_COMMON62_def)
  then obtain r where "cloak_ws_handshake_compose_101 129 ''s3pPLMBiTxaQ9kYGzzhZRbK+xOo='' = Some r" by (simp add: compose_101_lines)
  then show ?thesis using ws_reply_four_lines[of 129 "''s3pPLMBiTxaQ9kYGzzhZRbK+xOo=''" r] by auto
qed

end
