(* ===== verification/ServerCore.thy ===== *)
theory ServerCore
  imports AsciiText Auth ReplayCache Firstpacket ClientHelloParse WsHandshake
begin

text \<open>
  \<open>libcloak-server/src/server.c\<close> (the state derived from the configuration: bypass users, the proxy book, the replay cache), the address
  splitter of \<open>libcloak-common/src/listener.c\<close> it uses, and the verification part of \<open>dispatcher_authenticate\<close> in
  \<open>libcloak-server/src/dispatcher.c\<close>: from the first packet of a connection, on either transport, to an authenticated client whose method byte is legal.
  Name resolution (\<open>getaddrinfo\<close>) is a parameter, as is the clock reading. C strings are lists of their bytes.
\<close>

section \<open>Addresses\<close>

definition cloak_net_split_hostport :: "bytes \<Rightarrow> nat \<Rightarrow> nat \<Rightarrow> (bytes \<times> bytes) option" where
  "cloak_net_split_hostport addr host_cap port_cap =
     (if host_cap = 0 \<or> port_cap = 0 then None
      else
        Option.bind
          (if addr \<noteq> [] \<and> hd addr = 0x5b then
             (let before = takeWhile (\<lambda>b. b \<noteq> 0x5d) addr; after = drop (length before) addr in
              if after = [] \<or> length after < 2 \<or> after ! 1 \<noteq> 0x3a then None
              else Some (drop 1 before, drop 2 after))
           else
             (let after = rev (takeWhile (\<lambda>b. b \<noteq> 0x3a) (rev addr)); before_colon = length addr - length after in
              if before_colon = 0 then None
              else if 0x3a \<in> set (take (before_colon - 1) addr) then None
              else Some (take (before_colon - 1) addr, after)))
          (\<lambda>(host, port).
             if length port = 0 then None
             else if length host + 1 > host_cap \<or> length port + 1 > port_cap then None
             else Some (host, port)))"

definition is_bare_ipv6_literal :: "bytes \<Rightarrow> bool" where
  "is_bare_ipv6_literal addr =
     (let from_first = dropWhile (\<lambda>b. b \<noteq> 0x3a) addr in from_first \<noteq> [] \<and> 0x3a \<in> set (tl from_first))"

section \<open>The server's derived state\<close>

definition CLOAK_MAX_HOST_LEN :: nat where "CLOAK_MAX_HOST_LEN = 256"
definition CLOAK_MAX_PORT_LEN :: nat where "CLOAK_MAX_PORT_LEN = 16"
definition CLOAK_MAX_PROXY_BOOK :: nat where "CLOAK_MAX_PROXY_BOOK = 16"
definition CLOAK_MAX_BYPASS_UID :: nat where "CLOAK_MAX_BYPASS_UID = 64"
definition CLOAK_SERVER_AUTH_REPLAY_CACHE_AGE_LIMIT_SECONDS :: int where
  "CLOAK_SERVER_AUTH_REPLAY_CACHE_AGE_LIMIT_SECONDS = 12 * 60 * 60"

record proxy_entry =
  pe_name :: bytes
  pe_addr :: bytes
  pe_is_udp :: bool

record server_config =
  sc_redir_addr :: bytes
  sc_proxy_book :: "proxy_entry list"
  sc_bypass_uid :: "bytes list"
  sc_admin_uid :: "bytes option"
  sc_private_key :: bytes

record 'a server =
  sv_cfg :: server_config
  sv_replay :: replay_cache
  sv_redir :: 'a
  sv_redir_has_port :: bool
  sv_proxy :: "'a list"
  sv_bypass :: "bytes list"

definition redir_lookup :: "bytes \<Rightarrow> bool \<times> bytes option" where
  \<comment> \<open>whether the configured address has a port, and the string to resolve, \<^const>\<open>None\<close> if the placeholder does not fit its buffer\<close>
  "redir_lookup addr =
     (if cloak_net_split_hostport addr CLOAK_MAX_HOST_LEN CLOAK_MAX_PORT_LEN \<noteq> None then (True, Some addr)
      else
        let port443 = [0x3a, 0x34, 0x34, 0x33];
            placeholder = (if (addr = [] \<or> hd addr \<noteq> 0x5b) \<and> is_bare_ipv6_literal addr
                           then 0x5b # addr @ [0x5d] @ port443 else addr @ port443)
        in (False, if length placeholder \<ge> CLOAK_MAX_HOST_LEN + 8 then None else Some placeholder))"

fun resolve_all :: "(bytes \<Rightarrow> bool \<Rightarrow> 'a option) \<Rightarrow> proxy_entry list \<Rightarrow> 'a list option" where
  "resolve_all resolve [] = Some []"
| "resolve_all resolve (p # ps) = (case resolve (pe_addr p) (pe_is_udp p) of None \<Rightarrow> None
     | Some a \<Rightarrow> map_option (Cons a) (resolve_all resolve ps))"

definition cloak_server_init ::
  "(bytes \<Rightarrow> bool \<Rightarrow> 'a option) \<Rightarrow> bool \<Rightarrow> entropy \<Rightarrow> server_config \<Rightarrow> nat \<Rightarrow> 'a server option" where
  "cloak_server_init resolve alloc r cfg replay_cache_capacity =
     (case redir_lookup (sc_redir_addr cfg) of (has_port, target) \<Rightarrow>
        Option.bind (Option.bind target (\<lambda>a. resolve a False)) (\<lambda>redir.
          if length (sc_proxy_book cfg) > CLOAK_MAX_PROXY_BOOK then None
          else Option.bind (resolve_all resolve (sc_proxy_book cfg)) (\<lambda>proxies.
            if length (sc_bypass_uid cfg) > CLOAK_MAX_BYPASS_UID then None
            else
              let bypass = sc_bypass_uid cfg @ (case sc_admin_uid cfg of None \<Rightarrow> [] | Some u \<Rightarrow> [u]) in
              Option.bind (cloak_replay_cache_init alloc r replay_cache_capacity) (\<lambda>cache.
                Some \<lparr>sv_cfg = cfg, sv_replay = cache, sv_redir = redir, sv_redir_has_port = has_port,
                      sv_proxy = proxies, sv_bypass = bypass\<rparr>))))"

definition cloak_server_destroy :: "'a server \<Rightarrow> 'a server" where
  "cloak_server_destroy srv = srv\<lparr>sv_replay := cloak_replay_cache_destroy (sv_replay srv)\<rparr>"

definition cloak_server_is_bypass :: "'a server \<Rightarrow> bytes \<Rightarrow> bool" where
  "cloak_server_is_bypass srv uid = list_ex (\<lambda>b. b = uid) (sv_bypass srv)"

definition cloak_server_is_admin :: "'a server \<Rightarrow> bytes \<Rightarrow> bool" where
  "cloak_server_is_admin srv uid = (sc_admin_uid (sv_cfg srv) = Some uid)"

fun lookup_from :: "bytes \<Rightarrow> proxy_entry list \<Rightarrow> 'a list \<Rightarrow> 'a option" where
  "lookup_from m (p # ps) (a # as) =
     (if length (take 12 m) = length (take 12 (pe_name p)) \<and> map ascii_lower (take 12 (pe_name p)) = map ascii_lower (take 12 m)
      then Some a else lookup_from m ps as)"
| "lookup_from m _ _ = None"

definition cloak_server_lookup_proxy :: "'a server \<Rightarrow> bytes \<Rightarrow> 'a option" where
  "cloak_server_lookup_proxy srv proxy_method = lookup_from proxy_method (sc_proxy_book (sv_cfg srv)) (sv_proxy srv)"

definition cloak_server_redir_addr :: "('a \<Rightarrow> u16 \<Rightarrow> 'a) \<Rightarrow> 'a server \<Rightarrow> u16 \<Rightarrow> 'a" where
  \<comment> \<open>the first argument overwrites the port of a resolved address of either family\<close>
  "cloak_server_redir_addr with_port srv local_port =
     (if sv_redir_has_port srv then sv_redir srv else with_port (sv_redir srv) local_port)"

definition cloak_server_check_replay :: "'a server \<Rightarrow> bytes \<Rightarrow> int \<Rightarrow> int \<times> 'a server" where
  "cloak_server_check_replay srv rand now_unix =
     (case cloak_replay_cache_check_and_insert (sv_replay srv) rand now_unix CLOAK_SERVER_AUTH_REPLAY_CACHE_AGE_LIMIT_SECONDS of
        (v, cache) \<Rightarrow> (v, srv\<lparr>sv_replay := cache\<rparr>))"

section \<open>Verification of a first packet\<close>

definition field_at :: "bytes \<Rightarrow> nat option \<Rightarrow> nat \<Rightarrow> bytes option" where
  \<comment> \<open>the bytes a parsed pointer leads to\<close>
  "field_at data p n = map_option (\<lambda>i. take n (drop i data)) p"

record auth_fields =
  af_random :: bytes
  af_session_id :: "bytes option"
  af_key_share :: "bytes option"
  af_accept :: "string option"

definition dispatcher_fields :: "(bytes \<Rightarrow> bytes option) \<Rightarrow> firstpacket \<Rightarrow> auth_fields option" where
  \<comment> \<open>the transport branch: the value the replay cache registers, the two halves of the sealed payload, and what the upgrade reply needs\<close>
  "dispatcher_fields sha1 fp =
     (let data = cloak_firstpacket_data fp in
      case fp_transport fp of
        CLOAK_FIRSTPACKET_TRANSPORT_TLS \<Rightarrow>
          (case cloak_clienthello_parse data of
             None \<Rightarrow> None
           | Some (rc, ch) \<Rightarrow>
               if rc \<noteq> 0 then None
               else map_option (\<lambda>rand. \<lparr>af_random = rand, af_session_id = field_at data (ch_session_id ch) (ch_session_id_len ch),
                                       af_key_share = field_at data (ch_x25519_key_share ch) 32, af_accept = None\<rparr>)
                      (field_at data (ch_random ch) 32))
      | CLOAK_FIRSTPACKET_TRANSPORT_WEBSOCKET \<Rightarrow>
          (case cloak_ws_handshake_parse sha1 data of
             (CLOAK_WS_HS_OK, Some hs) \<Rightarrow>
               Some \<lparr>af_random = take 32 (ws_hidden hs), af_session_id = Some (take 32 (drop 32 (ws_hidden hs))),
                     af_key_share = Some (drop 64 (ws_hidden hs)), af_accept = Some (ws_accept hs)\<rparr>
           | _ \<Rightarrow> None)
      | CLOAK_FIRSTPACKET_TRANSPORT_UNKNOWN \<Rightarrow> None)"

definition dispatcher_verify ::
  "evp \<Rightarrow> x25519_evp \<Rightarrow> (bytes \<Rightarrow> bytes option) \<Rightarrow> 'a server \<Rightarrow> firstpacket \<Rightarrow> int \<Rightarrow> (server_clientinfo \<times> bytes \<times> auth_fields) option \<times> 'a server" where
  \<comment> \<open>steps 1 to 5 of \<open>dispatcher_authenticate\<close>: the client, the shared secret and the fields the reply is composed from\<close>
  "dispatcher_verify e x sha1 srv fp now =
     (case dispatcher_fields sha1 fp of
        None \<Rightarrow> (None, srv)
      | Some af \<Rightarrow>
          (case cloak_server_check_replay srv (af_random af) now of (replayed, srv1) \<Rightarrow>
             if replayed \<noteq> 0 then (None, srv1)
             else
               (case cloak_server_auth_decrypt e x (af_random af) (af_session_id af) (af_key_share af) (sc_private_key (sv_cfg srv)) now of
                  None \<Rightarrow> (None, srv1)
                | Some (info, shared_secret) \<Rightarrow>
                    if \<not> cloak_aead_method_is_valid (aead_method_of_nat (unat (ci_encryption_method info))) then (None, srv1)
                    else (Some (info, shared_secret, af), srv1))))"


section \<open>Addresses split back\<close>

text \<open>
  Splitting undoes joining. A host without a colon and without a leading bracket joined to a nonempty port by a colon, and any host without a closing bracket written in
  brackets, split back into exactly those parts when they fit the caller's buffers.
\<close>

theorem split_hostport_joined:
  assumes "port \<noteq> []" "length host < host_cap" "length port < port_cap"
  shows "(0x3a \<notin> set host \<and> 0x3a \<notin> set port \<and> (host = [] \<or> hd host \<noteq> 0x5b) \<longrightarrow>
           cloak_net_split_hostport (host @ 0x3a # port) host_cap port_cap = Some (host, port))
       \<and> (0x5d \<notin> set host \<longrightarrow>
           cloak_net_split_hostport (0x5b # host @ [0x5d, 0x3a] @ port) host_cap port_cap = Some (host, port))"
proof (intro conjI impI)
  assume h: "0x3a \<notin> set host \<and> 0x3a \<notin> set port \<and> (host = [] \<or> hd host \<noteq> 0x5b)"
  then have "takeWhile (\<lambda>b. b \<noteq> 0x3a) (rev (host @ 0x3a # port)) = rev port" by (simp add: takeWhile_stop)
  moreover have "hd (host @ 0x3a # port) \<noteq> 0x5b" using h by (cases host) auto
  ultimately show "cloak_net_split_hostport (host @ 0x3a # port) host_cap port_cap = Some (host, port)"
    using h assms by (simp add: cloak_net_split_hostport_def Let_def)
next
  assume h: "0x5d \<notin> set host"
  have "takeWhile (\<lambda>b. b \<noteq> 0x5d) (host @ 0x5d # 0x3a # port) = host" using h by (simp add: takeWhile_stop)
  then show "cloak_net_split_hostport (0x5b # host @ [0x5d, 0x3a] @ port) host_cap port_cap = Some (host, port)"
    using assms by (simp add: cloak_net_split_hostport_def Let_def)
qed

theorem split_hostport_joined_witness:
  "cloak_net_split_hostport ([108, 111] @ 0x3a # [56, 48]) 256 16 = Some ([108, 111], [56, 48])"
  using split_hostport_joined[of "[56, 48]" "[108, 111]" 256 16] by simp

section \<open>A captured handshake is useless\<close>

lemma verify_accepts:
  assumes "dispatcher_verify e x sha1 srv fp now = (Some (info, ss, af), srv1)"
  shows "dispatcher_fields sha1 fp = Some af \<and> cloak_server_check_replay srv (af_random af) now = (0, srv1)
     \<and> cloak_server_auth_decrypt e x (af_random af) (af_session_id af) (af_key_share af) (sc_private_key (sv_cfg srv)) now = Some (info, ss)"
  using assms unfolding dispatcher_verify_def by (simp split: option.splits prod.splits if_splits)

lemma check_replay_cache:
  assumes "cloak_server_check_replay srv rand now = (v, srv1)"
  shows "cloak_replay_cache_check_and_insert (sv_replay srv) rand now CLOAK_SERVER_AUTH_REPLAY_CACHE_AGE_LIMIT_SECONDS = (v, sv_replay srv1)"
    and "sv_cfg srv1 = sv_cfg srv"
  using assms by (auto simp: cloak_server_check_replay_def split: prod.splits)

text \<open>
  C6: a captured first packet cannot be used again. Once the server has accepted a packet, presenting the very same bytes at any later time is refused,
  whatever handshakes came in between, as long as none of them with another random was stored in the same slot of the replay cache:
  within twelve hours the cache reports the random, and after that its authenticated timestamp, which is good for less than 360 seconds, has expired.
\<close>

theorem captured_packet_refused:
  assumes "dispatcher_verify e x sha1 srv fp t1 = (Some (info, ss, af), srv1)" "replay_cache_ok (sv_replay srv)" "t1 \<noteq> 0"
    and "\<forall>s \<in> set seen. replay_slot_idx (sv_replay srv) (sg_key s) \<noteq> replay_slot_idx (sv_replay srv) (af_random af)
           \<or> sg_key s = af_random af \<and> t1 \<le> sg_now s \<and> sg_now s - t1 < sg_limit s"
    and "replay_run (sv_replay srv1) seen = (hist, sv_replay srv2)" "sv_cfg srv2 = sv_cfg srv"
    and "t1 \<le> t2" "INT64_MIN + 180 < t1" "t2 < INT64_MAX - 180"
  shows "fst (dispatcher_verify e x sha1 srv2 fp t2) = None"
proof -
  let ?lim = CLOAK_SERVER_AUTH_REPLAY_CACHE_AGE_LIMIT_SECONDS
  let ?dec = "\<lambda>t. cloak_server_auth_decrypt e x (af_random af) (af_session_id af) (af_key_share af) (sc_private_key (sv_cfg srv)) t"
  have v: "dispatcher_fields sha1 fp = Some af" "cloak_server_check_replay srv (af_random af) t1 = (0, srv1)" "?dec t1 = Some (info, ss)"
    using verify_accepts[OF assms(1)] by auto
  obtain verdict srv3 where r: "cloak_server_check_replay srv2 (af_random af) t2 = (verdict, srv3)" by fastforce
  have "verdict \<noteq> 0 \<or> ?dec t2 = None"
  proof (cases "t2 - t1 < ?lim")
    case True
    have "fst (cloak_replay_cache_check_and_insert (sv_replay srv2) (af_random af) t2 ?lim) = 1"
      by (rule replay_still_cached[OF assms(2) check_replay_cache(1)[OF v(2)] assms(3-5,7) True])
    then show ?thesis using check_replay_cache(1)[OF r] by simp
  next
    case False
    have "?dec t2 = None"
    proof (rule ccontr)
      assume "?dec t2 \<noteq> None"
      then obtain q where "?dec t2 = Some q" by blast
      from accepted_twice_near[OF v(3) this] show False
        using False assms(7-9) by (simp add: CLOAK_SERVER_AUTH_REPLAY_CACHE_AGE_LIMIT_SECONDS_def)
    qed
    then show ?thesis ..
  qed
  then show ?thesis using v(1) assms(6) r by (auto simp: dispatcher_verify_def)
qed


section \<open>An honest client is accepted\<close>

definition framed :: "hello \<Rightarrow> bool" where
  \<comment> \<open>the record length field is right and the record fits the server's buffer\<close>
  "framed h \<longleftrightarrow> he_record_len h = be16_store (of_nat (length (enc_hello h) - 5) :: u16) \<and> length (enc_hello h) \<le> 3000"

lemma hello_prefix_verdict:
  assumes ok: "hello_ok h" "framed h" and k: "k \<le> length (enc_hello h)"
  shows "fp_verdict (take k (enc_hello h)) = (if k < length (enc_hello h) then CLOAK_FIRSTPACKET_NEED_MORE else CLOAK_FIRSTPACKET_DONE)"
proof -
  define d where "d = enc_hello h"
  obtain body where d: "d = [0x16, 0x03, 0x01] @ he_record_len h @ body" and body: "body \<noteq> []"
    by (simp add: d_def enc_hello_def)
  have n: "length d = 5 + length body" "length d \<le> 3000" "he_record_len h = be16_store (of_nat (length body) :: u16)"
    using ok d by (auto simp: framed_def hello_ok_def d_def[symmetric])
  have field: "unat (be16_load (drop 3 (take k d)) :: u32) = length body" if "5 \<le> k"
  proof -
    have "drop 3 (take k d) = be16_store (of_nat (length body) :: u16) @ take (k - 5) body"
      using that n(3) unfolding d by (simp add: numeral_eq_Suc take_Cons' drop_Cons')
    moreover have "be16_load (be16_store v) = (ucast v :: u32)" for v :: u16
      unfolding be16_load_def be16_store_def by (rule bit_word_eqI) (auto simp: bit_simps dest: bit_imp_le_length)
    ultimately show ?thesis using n(1,2) by (simp add: unsigned_ucast_eq unat_of_nat take_bit_nat_eq_self)
  qed
  have hd: "take k d \<noteq> [] \<Longrightarrow> hd (take k d) = 0x16" unfolding d by (cases k) auto
  show ?thesis unfolding d_def[symmetric]
  proof (cases "take k d = []")
    case True
    then show "fp_verdict (take k d) = (if k < length d then CLOAK_FIRSTPACKET_NEED_MORE else CLOAK_FIRSTPACKET_DONE)"
      using body n by (auto simp: fp_verdict_def d)
  next
    case False
    then show "fp_verdict (take k d) = (if k < length d then CLOAK_FIRSTPACKET_NEED_MORE else CLOAK_FIRSTPACKET_DONE)"
      using hd n field k[folded d_def] body by (auto simp: fp_verdict_def Let_def)
  qed
qed

lemma framed_run:
  assumes "hello_ok h" "framed h" "fp_run cloak_firstpacket_init cs = (f, fp)" "enc_hello h @ rest = f @ later"
  shows "length f \<le> length (enc_hello h) \<and> (fp_status fp = CLOAK_FIRSTPACKET_NEED_MORE) = (length f < length (enc_hello h))
    \<and> (length f = length (enc_hello h) \<longrightarrow> f = enc_hello h \<and> cloak_firstpacket_data fp = enc_hello h
          \<and> fp_transport fp = CLOAK_FIRSTPACKET_TRANSPORT_TLS)"
proof -
  have "fp_transport_of (enc_hello h) = CLOAK_FIRSTPACKET_TRANSPORT_TLS" by (simp add: enc_hello_def fp_transport_of_def)
  then show ?thesis using exact_run[OF hello_prefix_verdict[OF assms(1,2)] _ assms(3,4)] assms(2) by (simp add: framed_def)
qed

definition identity_of :: "bytes \<Rightarrow> bytes \<Rightarrow> byte \<Rightarrow> u32 \<Rightarrow> bool \<Rightarrow> server_clientinfo" where
  "identity_of uid pm em sid uo = \<lparr>ci_uid = uid, ci_proxy_method = pm, ci_encryption_method = em, ci_session_id = sid,
     ci_unordered = uo, ci_is_admin = False\<rparr>"

definition honest_payload ::
  "evp \<Rightarrow> x25519_evp \<Rightarrow> bytes \<Rightarrow> server_clientinfo \<Rightarrow> int \<Rightarrow> int \<Rightarrow> client_auth_payload \<Rightarrow> bytes \<Rightarrow> bool" where
  \<comment> \<open>what an honest client builds for the server with that private key, checked at the second time\<close>
  "honest_payload e x spriv info now now' ap ss \<longleftrightarrow>
     (\<exists>spub. x25519_agrees x spriv spub
        \<and> cloak_client_auth_build e x (ci_uid info) (Some (ci_proxy_method info)) (ci_encryption_method info) (ci_session_id info)
            (ci_unordered info) now spub = Some (ap, ss))
     \<and> length (ci_uid info) = 16 \<and> 0 \<notin> set (ci_proxy_method info) \<and> \<not> ci_is_admin info
     \<and> cloak_aead_method_is_valid (aead_method_of_nat (unat (ci_encryption_method info)))
     \<and> INT64_MIN \<le> now \<and> now \<le> INT64_MAX \<and> INT64_MIN + 180 < now' \<and> now' < INT64_MAX - 180 \<and> \<bar>now - now'\<bar> < 180"

lemma honest_payload_opens:
  assumes "evp_sound e" "honest_payload e x spriv info now now' ap ss"
  shows "cloak_server_auth_decrypt e x (ap_random ap) (Some (take 32 (ap_ciphertext ap))) (Some (drop 32 (ap_ciphertext ap))) spriv now' = Some (info, ss)"
    and "length (ap_ciphertext ap) = 64"
proof -
  obtain spub where b: "x25519_agrees x spriv spub" "cloak_client_auth_build e x (ci_uid info) (Some (ci_proxy_method info)) (ci_encryption_method info)
      (ci_session_id info) (ci_unordered info) now spub = Some (ap, ss)"
    and u: "length (ci_uid info) = 16" "0 \<notin> set (ci_proxy_method info)" "\<not> ci_is_admin info" "INT64_MIN \<le> now" "now \<le> INT64_MAX"
      "INT64_MIN + 180 < now'" "now' < INT64_MAX - 180" "\<bar>now - now'\<bar> < 180"
    using assms(2) unfolding honest_payload_def by blast
  show "cloak_server_auth_decrypt e x (ap_random ap) (Some (take 32 (ap_ciphertext ap))) (Some (drop 32 (ap_ciphertext ap))) spriv now' = Some (info, ss)"
    using honest_decrypted[OF assms(1) b u(1,2,4-7)] u(3,8) by (cases info) simp
  show "length (ap_ciphertext ap) = 64" using build_shape[OF assms(1) b(2) u(1)] by blast
qed

lemma honest_verified:
  assumes "evp_sound e" and hp: "honest_payload e x (sc_private_key (sv_cfg srv)) info now now' ap ss"
    and f: "dispatcher_fields sha1 fp = Some \<lparr>af_random = ap_random ap, af_session_id = Some (take 32 (ap_ciphertext ap)),
        af_key_share = Some (drop 32 (ap_ciphertext ap)), af_accept = acc\<rparr>"
    and r: "cloak_server_check_replay srv (ap_random ap) now' = (0, srv1)"
  shows "dispatcher_verify e x sha1 srv fp now' = (Some (info, ss, \<lparr>af_random = ap_random ap, af_session_id = Some (take 32 (ap_ciphertext ap)),
        af_key_share = Some (drop 32 (ap_ciphertext ap)), af_accept = acc\<rparr>), srv1)"
  using honest_payload_opens(1)[OF assms(1) hp] hp by (simp add: dispatcher_verify_def f r honest_payload_def)

lemma hello_fields:
  assumes h: "hello_ok h" "he_random h = ap_random ap" "he_session_id h = take 32 (ap_ciphertext ap)"
      "x25519_of (all_shares (he_exts h)) = Some (drop 32 (ap_ciphertext ap))" "length (ap_ciphertext ap) = 64"
    and fp: "cloak_firstpacket_data fp = enc_hello h" "fp_transport fp = CLOAK_FIRSTPACKET_TRANSPORT_TLS"
  shows "dispatcher_fields sha1 fp = Some \<lparr>af_random = ap_random ap, af_session_id = Some (take 32 (ap_ciphertext ap)),
        af_key_share = Some (drop 32 (ap_ciphertext ap)), af_accept = None\<rparr>"
proof -
  obtain ch where ch: "cloak_clienthello_parse (enc_hello h) = Some (0, ch)"
    and un: "understood (enc_hello h) ch (he_random h) (he_session_id h) (he_exts h)"
    using clienthello_parse_complete[OF h(1)] by blast
  have fl: "picked data (map_option (\<lambda>i. (i, n)) p) = field_at data p n" for data p n
    by (cases p) (simp_all add: picked_def field_at_def)
  have ne: "take 32 (ap_ciphertext ap) \<noteq> []" using h(5) by auto
  note c = un[unfolded understood_def fl h(2-4) if_not_P[OF ne]]
  have "field_at (enc_hello h) (ch_random ch) 32 = Some (ap_random ap)"
    "field_at (enc_hello h) (ch_session_id ch) (ch_session_id_len ch) = Some (take 32 (ap_ciphertext ap))"
    "field_at (enc_hello h) (ch_x25519_key_share ch) 32 = Some (drop 32 (ap_ciphertext ap))"
    by (rule c[THEN conjunct1] c[THEN conjunct2, THEN conjunct2, THEN conjunct1] c[THEN conjunct2, THEN conjunct2, THEN conjunct2, THEN conjunct1])+
  then show ?thesis using ch by (simp add: dispatcher_fields_def fp Let_def)
qed

text \<open>
  C4: an honest client is accepted. A client hello that carries a payload built for this server's public key (the ephemeral key as its random,
  the two halves of the ciphertext as session id and X25519 share), in whatever pieces it arrives and whatever the client sends
  after it, is read to its last byte and no further, and once it has arrived
  the dispatcher's checks accept it whenever the two clocks are less than three minutes apart and the replay cache does not report the random:
  they return exactly the client's identity and both sides' shared secret.
\<close>

theorem honest_client_accepted:
  assumes "evp_sound e" "honest_payload e x (sc_private_key (sv_cfg srv)) info now now' ap ss"
    and "hello_ok h" "he_random h = ap_random ap" "he_session_id h = take 32 (ap_ciphertext ap)"
      "x25519_of (all_shares (he_exts h)) = Some (drop 32 (ap_ciphertext ap))" "framed h"
    and "fp_run cloak_firstpacket_init cs = (f, fp)" "enc_hello h @ rest = f @ later"
    and "cloak_server_check_replay srv (ap_random ap) now' = (0, srv1)"
  shows "length f \<le> length (enc_hello h) \<and> (fp_status fp = CLOAK_FIRSTPACKET_NEED_MORE) = (length f < length (enc_hello h))
     \<and> (length f = length (enc_hello h) \<longrightarrow>
         dispatcher_verify e x sha1 srv fp now' = (Some (info, ss, \<lparr>af_random = ap_random ap, af_session_id = Some (take 32 (ap_ciphertext ap)),
           af_key_share = Some (drop 32 (ap_ciphertext ap)), af_accept = None\<rparr>), srv1))"
  using framed_run[OF assms(3,7,8,9)] honest_verified[OF assms(1,2) _ assms(10)]
    hello_fields[OF assms(3-6) honest_payload_opens(2)[OF assms(1,2)]] by auto

subsection \<open>The same through a CDN\<close>

lemma no_blank_line_inside:
  assumes "13 \<notin> set l" "l \<noteq> []" "f = [] \<or> last f \<noteq> 13"
  shows "\<not> ends_with (f @ l) [13, 10]" "\<not> ends_with (f @ l) [13, 10, 13, 10]" "\<not> ends_with (f @ l @ [13]) [13, 10, 13, 10]"
    "\<not> ends_with (f @ l @ [13, 10]) [13, 10, 13, 10]"
proof -
  show e: "\<not> ends_with (f @ l) [13, 10]"
  proof (cases l rule: rev_cases)
    case (snoc m b)
    then show ?thesis using assms by (cases m rule: rev_cases; cases f rule: rev_cases) (auto simp: ends_with_def)
  qed (use assms in simp)
  have "ends_with g [13, 10, 13, 10] \<Longrightarrow> ends_with g [13, 10]" for g by (cases g rule: rev_cases; cases "rev g"; cases "tl (rev g)") (auto simp: ends_with_def)
  then show "\<not> ends_with (f @ l) [13, 10, 13, 10]" using e by blast
  show "\<not> ends_with (f @ l @ [13]) [13, 10, 13, 10]" by (simp add: ends_with_def)
  show "\<not> ends_with (f @ l @ [13, 10]) [13, 10, 13, 10]" using e by (simp add: ends_with_def)
qed

definition block_of :: "bytes list \<Rightarrow> bytes" where
  "block_of ls = concat (map (\<lambda>l. l @ [13, 10]) ls) @ [13, 10]"

lemma block_prefix:
  assumes "list_all (\<lambda>l. 13 \<notin> set l \<and> l \<noteq> []) ls" "k < length (block_of ls)" "f = [] \<or> last f \<noteq> 13" "\<not> ends_with f [13, 10, 13, 10]"
  shows "\<not> ends_with (f @ take k (block_of ls)) [13, 10, 13, 10]"
  using assms
proof (induction ls arbitrary: k f)
  case Nil
  then have "k = 0 \<or> k = 1" by (auto simp: block_of_def)
  then show ?case using Nil.prems(4) by (auto simp: block_of_def ends_with_def)
next
  case (Cons l ls)
  have l: "13 \<notin> set l" "l \<noteq> []" and ls: "list_all (\<lambda>l. 13 \<notin> set l \<and> l \<noteq> []) ls" using Cons.prems(1) by auto
  have b: "block_of (l # ls) = l @ [13, 10] @ block_of ls" by (simp add: block_of_def)
  note n = no_blank_line_inside[OF _ _ Cons.prems(3)]
  consider "k = 0" | "0 < k" "k \<le> length l" | "k = length l + 1" | "length l + 2 \<le> k" by linarith
  then show ?case
  proof cases
    case 2
    then have "take k l \<noteq> []" "13 \<notin> set (take k l)" using l by (auto dest: in_set_takeD)
    then show ?thesis using n(2) 2(2) by (simp add: b)
  next
    case 3
    then show ?thesis using n(3)[OF l] by (simp add: b)
  next
    case 4
    then obtain j where j: "k = length l + 2 + j" using le_Suc_ex by blast
    have "\<not> ends_with ((f @ l @ [13, 10]) @ take j (block_of ls)) [13, 10, 13, 10]"
      by (rule Cons.IH[OF ls]) (use Cons.prems(2) j n(4)[OF l] b in simp_all)
    then show ?thesis using j by (simp add: b)
  qed (use Cons.prems(4) in simp)
qed

lemma block_verdict:
  assumes "list_all (\<lambda>l. 13 \<notin> set l \<and> l \<noteq> []) (l # ls)" "hd l = 0x47" "length (block_of (l # ls)) \<le> 3000" "k \<le> length (block_of (l # ls))"
  shows "fp_verdict (take k (block_of (l # ls))) = (if k < length (block_of (l # ls)) then CLOAK_FIRSTPACKET_NEED_MORE else CLOAK_FIRSTPACKET_DONE)"
proof -
  let ?d = "block_of (l # ls)"
  have "?d = l @ [13, 10] @ block_of ls" by (simp add: block_of_def)
  then have hd: "take k ?d \<noteq> [] \<Longrightarrow> hd (take k ?d) = 0x47" using assms(1,2) by (cases l; cases k) auto
  have "ends_with ?d [13, 10, 13, 10]" by (cases ls rule: rev_cases) (simp_all add: block_of_def ends_with_def)
  moreover have "\<not> ends_with (take k ?d) [13, 10, 13, 10]" if "k < length ?d"
    using block_prefix[OF assms(1) that, of "[]"] by (simp add: ends_with_def)
  moreover have "k = 0 \<or> take k ?d \<noteq> []" using assms(1) by (cases l; cases k) (auto simp: block_of_def)
  moreover have "?d \<noteq> []" by (simp add: block_of_def)
  ultimately show ?thesis using hd assms(3,4) by (cases "k = 0") (auto simp: fp_verdict_def)
qed

lemma upgrade_block:
  "enc_upgrade meth target vers hs = block_of ((meth @ 32 # target @ 32 # vers) # map (\<lambda>h. fst h @ 58 # snd h) hs)"
proof -
  have "concat (map enc_header hs) = concat (map (\<lambda>h. fst h @ 58 # snd h @ [13, 10]) hs)" by (induct hs) (simp_all add: enc_header_def)
  then show ?thesis by (simp add: enc_upgrade_def block_of_def comp_def)
qed

definition carries :: "(bytes \<Rightarrow> bytes option) \<Rightarrow> header list \<Rightarrow> client_auth_payload \<Rightarrow> string \<Rightarrow> bool" where
  \<comment> \<open>the fields of an upgrade request that carries the payload and asks for that accept value\<close>
  "carries sha1 hs ap acc \<longleftrightarrow> list_all header_ok hs
     \<and> has_token hs ''connection'' ''upgrade'' \<and> has_token hs ''upgrade'' ''websocket'' \<and> has_token hs ''sec-websocket-version'' ''13''
     \<and> first_value hs ''hidden'' = Some (lit (b64_encode_loop b64_alphabet (ap_random ap @ ap_ciphertext ap)))
     \<and> (\<exists>key md. first_value hs ''sec-websocket-key'' = Some key \<and> decode_exact key 24 16 \<noteq> None
          \<and> sha1 (key @ WS_GUID) = Some md \<and> length md = 20 \<and> cloak_base64_encode md 29 = Some acc)"

lemma carried_accepted:
  assumes "carries sha1 hs ap acc" "length (ap_random ap) = 32" "length (ap_ciphertext ap) = 64"
  shows "upgrade_accepted sha1 (lit ''GET'') hs \<lparr>ws_hidden = ap_random ap @ ap_ciphertext ap, ws_accept = acc\<rparr>"
proof -
  let ?p = "ap_random ap @ ap_ciphertext ap"
  let ?t = "b64_encode_loop b64_alphabet ?p"
  have n: "length ?t = 128" using assms(2,3) by (simp add: b64std.encode_length)
  have "cloak_base64_decode ?t 96 = Some ?p"
    using b64std.decode_encode[of ?p 0 96] assms(2,3) n by (simp add: cloak_base64_decode_def)
  moreover have "takeWhile (\<lambda>b. b \<noteq> 0) (lit ?t) = lit ?t"
  proof (subst takeWhile_eq_all_conv, rule ballI)
    have al: "list_all (\<lambda>c. of_char c \<noteq> (0 :: byte)) (CHR ''='' # b64_alphabet)" by code_simp
    have "set ?t \<subseteq> set (CHR ''='' # b64_alphabet)" using base64_decode_safe_and_strict[of ?t 96] calculation by auto
    fix b assume "b \<in> set (lit ?t)"
    then show "b \<noteq> 0" using al \<open>set ?t \<subseteq> _\<close> by (auto simp: lit_def list_all_iff)
  qed
  moreover have "lit ?t \<noteq> []" using n by (metis length_lit list.size(3) zero_neq_numeral)
  ultimately have "decode_exact (lit ?t) 128 96 = Some ?p"
    using assms(2,3) n unfolding decode_exact_def ws_hs_consts by (simp only: text_of_lit length_lit) simp
  then show ?thesis using assms(1) by (simp add: carries_def upgrade_accepted_def)
qed

lemma honest_random_length: "honest_payload e x spriv info now now' ap ss \<Longrightarrow> evp_sound e \<Longrightarrow> length (ap_random ap) = 32"
  by (auto simp: honest_payload_def x25519_agrees_def dest: build_shape)

lemma upgrade_prefix_verdict:
  assumes "start_line_ok (lit ''GET'') target vers" "carries sha1 hs ap acc" "d = enc_upgrade (lit ''GET'') target vers hs" "length d \<le> 3000"
    "k \<le> length d"
  shows "fp_verdict (take k d) = (if k < length d then CLOAK_FIRSTPACKET_NEED_MORE else CLOAK_FIRSTPACKET_DONE)"
proof -
  let ?l = "lit ''GET'' @ 32 # target @ 32 # vers"
  have hs: "list_all header_ok hs" using assms(2) by (simp add: carries_def)
  have b: "d = block_of (?l # map (\<lambda>h. fst h @ 58 # snd h) hs)" unfolding assms(3) by (rule upgrade_block)
  have "13 \<notin> set (fst h @ 58 # snd h)" if "h \<in> set hs" for h
    using hs that tokens_plain[of "fst h"] by (auto simp: list_all_iff header_ok_def)
  then have "list_all (\<lambda>l. 13 \<notin> set l \<and> l \<noteq> []) (?l # map (\<lambda>h. fst h @ 58 # snd h) hs)"
    using assms(1) by (auto simp: list_all_iff start_line_ok_def)
  moreover have "hd ?l = 0x47" by (simp add: lit_def)
  ultimately show ?thesis using block_verdict[of ?l "map (\<lambda>h. fst h @ 58 # snd h) hs" k] assms(4,5) by (simp only: b)
qed

text \<open>
  C5: an honest client behind a CDN is accepted. A GET upgrade request whose fields, in any order, case and company, carry the payload as
  base64 in Hidden, in whatever pieces it arrives, is read to its blank line and no further, and once it has arrived the dispatcher's
  checks accept it under the same conditions as a client hello and return the client's identity, the shared secret and the accept value to answer with.
\<close>

theorem honest_cdn_client_accepted:
  assumes "evp_sound e" "honest_payload e x (sc_private_key (sv_cfg srv)) info now now' ap ss"
    and "start_line_ok (lit ''GET'') target vers" "carries sha1 hs ap acc"
    and "d = enc_upgrade (lit ''GET'') target vers hs" "length d \<le> 3000"
    and "fp_run cloak_firstpacket_init cs = (f, fp)" "d @ rest = f @ later"
    and "cloak_server_check_replay srv (ap_random ap) now' = (0, srv1)"
  shows "length f \<le> length d \<and> (fp_status fp = CLOAK_FIRSTPACKET_NEED_MORE) = (length f < length d)
     \<and> (length f = length d \<longrightarrow>
         dispatcher_verify e x sha1 srv fp now' = (Some (info, ss, \<lparr>af_random = ap_random ap, af_session_id = Some (take 32 (ap_ciphertext ap)),
           af_key_share = Some (drop 32 (ap_ciphertext ap)), af_accept = Some acc\<rparr>), srv1))"
proof -
  note len = honest_random_length[OF assms(2,1)] honest_payload_opens(2)[OF assms(1,2)]
  have hs: "list_all header_ok hs" using assms(4) by (simp add: carries_def)
  have g: "hd d = 0x47" "d \<noteq> []" by (simp_all add: lit_def assms(5) enc_upgrade_def)
  note run = exact_run[OF upgrade_prefix_verdict[OF assms(3-6)] assms(6-8)]
  have "dispatcher_fields sha1 fp = Some \<lparr>af_random = ap_random ap, af_session_id = Some (take 32 (ap_ciphertext ap)),
        af_key_share = Some (drop 32 (ap_ciphertext ap)), af_accept = Some acc\<rparr>" if "length f = length d"
  proof -
    have "cloak_ws_handshake_parse sha1 d = (CLOAK_WS_HS_OK, Some \<lparr>ws_hidden = ap_random ap @ ap_ciphertext ap, ws_accept = acc\<rparr>)"
      using parse_enc_upgrade[OF assms(3) hs, of sha1 "[]"] decide_ok[of sha1 "lit ''GET''" hs]
        carried_accepted[OF assms(4) len] assms(5) by simp
    moreover have "cloak_firstpacket_data fp = d" "fp_transport fp = CLOAK_FIRSTPACKET_TRANSPORT_WEBSOCKET"
      using run that g by (auto simp: fp_transport_of_def)
    ultimately show ?thesis using len by (simp add: dispatcher_fields_def Let_def)
  qed
  then show ?thesis using run honest_verified[OF assms(1,2) _ assms(9)] by blast
qed

subsection \<open>A handshake from end to end\<close>

definition sample_server :: "unit server" where
  "sample_server = \<lparr>sv_cfg = \<lparr>sc_redir_addr = [], sc_proxy_book = [], sc_bypass_uid = [], sc_admin_uid = None, sc_private_key = replicate 32 7\<rparr>,
     sv_replay = sample_cache, sv_redir = (), sv_redir_has_port = True, sv_proxy = [], sv_bypass = []\<rparr>"

definition hello_around :: "client_auth_payload \<Rightarrow> hello" where
  "hello_around ap = \<lparr>he_record_len = enc16 121, he_version = [3, 3], he_random = ap_random ap, he_session_id = take 32 (ap_ciphertext ap),
     he_suites = [0x13, 0x01], he_compression = [0], he_exts = [ExtKeyShare [(0x1d, drop 32 (ap_ciphertext ap))]], he_trailer = []\<rparr>"

lemma hello_around_ok:
  assumes "length (ap_random ap) = 32" "length (ap_ciphertext ap) = 64"
  shows "hello_ok (hello_around ap) \<and> framed (hello_around ap)
    \<and> x25519_of (all_shares (he_exts (hello_around ap))) = Some (drop 32 (ap_ciphertext ap))"
  using assms by (simp add: hello_ok_def framed_def hello_around_def enc_hello_def enc_fields_def enc_ext_def all_shares_def x25519_of_def ch_consts)

lemma sample_unreplayed: "cloak_server_check_replay sample_server k t = (0, snd (cloak_server_check_replay sample_server k t))"
  using sample_unseen[of k t CLOAK_SERVER_AUTH_REPLAY_CACHE_AGE_LIMIT_SECONDS]
  by (simp add: prod_eq_iff cloak_server_check_replay_def sample_server_def split: prod.split)

lemma sample_exchange:
  obtains ap ss where
    "cloak_client_auth_build toy_evp toy_x25519 (replicate 16 1) (Some [115, 115]) 1 77 True 1000 (replicate 32 21) = Some (ap, ss)"
    "hello_ok (hello_around ap)" "framed (hello_around ap)"
    "x25519_of (all_shares (he_exts (hello_around ap))) = Some (drop 32 (ap_ciphertext ap))"
proof -
  obtain ap ss where b: "cloak_client_auth_build toy_evp toy_x25519 (replicate 16 1) (Some [115, 115]) 1 77 True 1000 (replicate 32 21) = Some (ap, ss)"
    using toy_auth_builds by blast
  obtain priv where "cloak_x25519_generate_keypair toy_x25519 = Some (priv, ap_random ap)" "length (ap_ciphertext ap) = 64"
    using build_shape[OF toy_evp_sound b] by auto
  moreover from this(1) have "length (ap_random ap) = 32" by (simp add: cloak_x25519_generate_keypair_def toy_x25519_def) (metis length_replicate)
  ultimately show thesis using that[OF b] hello_around_ok[of ap] by blast
qed

lemmas sample_bounds = INT64_MIN_def INT64_MAX_def aead_method_of_nat_def

definition sample_info :: server_clientinfo where
  "sample_info = identity_of (replicate 16 1) [115, 115] 1 77 True"

lemma sample_honest:
  assumes "cloak_client_auth_build toy_evp toy_x25519 (replicate 16 1) (Some [115, 115]) 1 77 True 1000 (replicate 32 21) = Some (ap, ss)"
  shows "honest_payload toy_evp toy_x25519 (sc_private_key (sv_cfg sample_server)) sample_info 1000 1100 ap ss"
  using assms toy_x25519_agrees
  by (auto simp: honest_payload_def sample_info_def identity_of_def sample_server_def sample_bounds)

theorem honest_client_accepted_witness:
  "\<exists>(ap :: client_auth_payload) ss fp af srv1.
     fp_run cloak_firstpacket_init (map (\<lambda>b. [b]) (enc_hello (hello_around ap))) = (enc_hello (hello_around ap), fp)
   \<and> dispatcher_verify toy_evp toy_x25519 (\<lambda>_. None) sample_server fp 1100 = (Some (sample_info, ss, af), srv1)"
proof -
  obtain ap ss where b: "cloak_client_auth_build toy_evp toy_x25519 (replicate 16 1) (Some [115, 115]) 1 77 True 1000 (replicate 32 21) = Some (ap, ss)"
    and h: "hello_ok (hello_around ap)" "framed (hello_around ap)"
      "x25519_of (all_shares (he_exts (hello_around ap))) = Some (drop 32 (ap_ciphertext ap))"
    by (rule sample_exchange)
  let ?d = "enc_hello (hello_around ap)"
  obtain f fp where r: "fp_run cloak_firstpacket_init (map (\<lambda>b. [b]) ?d) = (f, fp)" by fastforce
  have f: "f = ?d" using run_singles[OF init_matches, of ?d] hello_prefix_verdict[OF h(1,2)] r by simp
  have "he_random (hello_around ap) = ap_random ap" "he_session_id (hello_around ap) = take 32 (ap_ciphertext ap)"
    by (simp_all add: hello_around_def)
  from honest_client_accepted[OF toy_evp_sound sample_honest[OF b] h(1) this h(3,2) r _ sample_unreplayed, of "[]" "[]" "\<lambda>_. None"]
  have "\<exists>af srv1. dispatcher_verify toy_evp toy_x25519 (\<lambda>_. None) sample_server fp 1100 = (Some (sample_info, ss, af), srv1)" using f by simp
  then show ?thesis using f r by blast
qed

definition upgrade_around :: "client_auth_payload \<Rightarrow> header list" where
  "upgrade_around ap =
     [(lit ''Host'', lit '' example.com''), (lit ''upgrade'', lit '' WebSocket''), (lit ''Connection'', lit '' keep-alive, Upgrade''),
      (lit ''Hidden'', lit (b64_encode_loop b64_alphabet (ap_random ap @ ap_ciphertext ap))),
      (lit ''Sec-WebSocket-Key'', lit '' dGhlIHNhbXBsZSBub25jZQ==''), (lit ''Sec-WebSocket-Version'', lit ''13'')]"

lemma b64_text_plain:
  assumes "c \<in> set (b64_encode_loop b64_alphabet xs)"
  shows "is_value_octet (of_char c) \<and> \<not> is_ows (of_char c) \<and> of_char c \<noteq> (13 :: byte)"
proof -
  have al: "list_all (\<lambda>c. is_value_octet (of_char c) \<and> \<not> is_ows (of_char c) \<and> of_char c \<noteq> (13 :: byte)) (CHR ''='' # b64_alphabet)" by code_simp
  have "cloak_base64_decode (b64_encode_loop b64_alphabet xs) (length xs) = Some xs"
    using b64std.decode_encode[of xs 0 "length xs"] by (simp add: cloak_base64_decode_def b64std.encode_length)
  then have "c \<in> set (CHR ''='' # b64_alphabet)" using base64_decode_safe_and_strict[of "b64_encode_loop b64_alphabet xs" "length xs"] assms by auto
  then show ?thesis using al by (auto simp: list_all_iff)
qed

lemma trim_b64: "trim_ows (lit (b64_encode_loop b64_alphabet xs)) = lit (b64_encode_loop b64_alphabet xs)"
proof (cases "b64_encode_loop b64_alphabet xs = []")
  case False
  then show ?thesis using b64_text_plain[of _ xs] by (intro trim_ows_id) (auto simp: lit_def hd_map last_map)
qed (simp add: lit_def trim_ows_def)

lemmas text_eval = lit_def ci_eq_def ascii_lower_def is_ows_def is_token_octet_def is_value_octet_def trim_ows_def

definition toy_sha1 :: "bytes \<Rightarrow> bytes option" where
  "toy_sha1 m = Some (replicate 20 7)"

lemma upgrade_values:
  "field_values (upgrade_around ap) ''hidden'' = [lit (b64_encode_loop b64_alphabet (ap_random ap @ ap_ciphertext ap))]"
  "field_values (upgrade_around ap) ''sec-websocket-key'' = [lit ''dGhlIHNhbXBsZSBub25jZQ=='']"
  "field_values (upgrade_around ap) ''connection'' = [join_tokens [lit ''keep-alive'', lit ''Upgrade'']]"
  "field_values (upgrade_around ap) ''upgrade'' = [join_tokens [lit ''WebSocket'']]"
  "field_values (upgrade_around ap) ''sec-websocket-version'' = [join_tokens [lit ''13'']]"
  by (simp_all add: upgrade_around_def field_values_def trim_b64) (simp_all add: text_eval)

lemma upgrade_carries: "\<exists>acc. carries toy_sha1 (upgrade_around ap) ap acc"
proof -
  have "list_all token [lit ''keep-alive'', lit ''Upgrade'', lit ''WebSocket'', lit ''13'']" by (simp add: token_def text_eval)
  then have "has_token (upgrade_around ap) ''connection'' ''upgrade''" "has_token (upgrade_around ap) ''upgrade'' ''websocket''"
    "has_token (upgrade_around ap) ''sec-websocket-version'' ''13''"
    unfolding has_token_def upgrade_values by (simp_all add: token_list_contains_joined del: join_tokens.simps) (simp_all add: text_eval)
  moreover have "list_all header_ok (upgrade_around ap)"
    using b64_text_plain[of _ "ap_random ap @ ap_ciphertext ap"]
    by (simp add: upgrade_around_def header_ok_def trim_b64) (auto simp: text_eval list_all_iff)
  moreover have "decode_exact (lit ''dGhlIHNhbXBsZSBub25jZQ=='') 24 16 \<noteq> None" by code_simp
  moreover obtain acc where "cloak_base64_encode (replicate 20 7) 29 = Some acc" by (simp add: cloak_base64_encode_def cloak_base64_encoded_size_def)
  ultimately show ?thesis by (auto simp: carries_def first_value_def upgrade_values toy_sha1_def)
qed

theorem honest_cdn_client_accepted_witness:
  "\<exists>(ap :: client_auth_payload) ss fp af srv1.
     fp_run cloak_firstpacket_init (map (\<lambda>b. [b]) (enc_upgrade (lit ''GET'') (lit ''/'') (lit ''HTTP/1.1'') (upgrade_around ap)))
       = (enc_upgrade (lit ''GET'') (lit ''/'') (lit ''HTTP/1.1'') (upgrade_around ap), fp)
   \<and> dispatcher_verify toy_evp toy_x25519 toy_sha1 sample_server fp 1100 = (Some (sample_info, ss, af), srv1)"
proof -
  obtain ap ss where b: "cloak_client_auth_build toy_evp toy_x25519 (replicate 16 1) (Some [115, 115]) 1 77 True 1000 (replicate 32 21) = Some (ap, ss)"
    by (rule sample_exchange)
  obtain acc where c: "carries toy_sha1 (upgrade_around ap) ap acc" using upgrade_carries by blast
  define d where "d = enc_upgrade (lit ''GET'') (lit ''/'') (lit ''HTTP/1.1'') (upgrade_around ap)"
  have l: "start_line_ok (lit ''GET'') (lit ''/'') (lit ''HTTP/1.1'')" by (simp add: start_line_ok_def lit_def)
  note hp = sample_honest[OF b]
  have n: "length d \<le> 3000"
    using honest_random_length[OF hp toy_evp_sound] honest_payload_opens(2)[OF toy_evp_sound hp]
    by (simp add: d_def enc_upgrade_def enc_header_def upgrade_around_def b64std.encode_length)
  obtain f fp where r: "fp_run cloak_firstpacket_init (map (\<lambda>b. [b]) d) = (f, fp)" by fastforce
  have f: "f = d"
    using run_singles[OF init_matches, of d] upgrade_prefix_verdict[OF l c d_def n] r by simp
  have "\<exists>af srv1. dispatcher_verify toy_evp toy_x25519 toy_sha1 sample_server fp 1100 = (Some (sample_info, ss, af), srv1)"
    using honest_cdn_client_accepted[OF toy_evp_sound hp l c d_def n r _ sample_unreplayed, of "[]" "[]"] f by simp
  then show ?thesis using f r unfolding d_def by blast
qed

theorem captured_packet_refused_witness:
  "\<exists>(fp :: firstpacket) info ss af srv1. dispatcher_verify toy_evp toy_x25519 (\<lambda>_. None) sample_server fp 1100 = (Some (info, ss, af), srv1)
     \<and> fst (dispatcher_verify toy_evp toy_x25519 (\<lambda>_. None) srv1 fp 1200) = None"
proof -
  obtain ap ss where b: "cloak_client_auth_build toy_evp toy_x25519 (replicate 16 1) (Some [115, 115]) 1 77 True 1000 (replicate 32 21) = Some (ap, ss)"
    and h: "hello_ok (hello_around ap)" "framed (hello_around ap)"
      "x25519_of (all_shares (he_exts (hello_around ap))) = Some (drop 32 (ap_ciphertext ap))"
    by (rule sample_exchange)
  let ?srv1 = "snd (cloak_server_check_replay sample_server (ap_random ap) 1100)"
  let ?fp = "cloak_firstpacket_init\<lparr>fp_buf := enc_hello (hello_around ap), fp_transport := CLOAK_FIRSTPACKET_TRANSPORT_TLS\<rparr>"
  note hp = sample_honest[OF b]
  have "he_random (hello_around ap) = ap_random ap" "he_session_id (hello_around ap) = take 32 (ap_ciphertext ap)"
    by (simp_all add: hello_around_def)
  from hello_fields[OF h(1) this h(3) honest_payload_opens(2)[OF toy_evp_sound hp], of ?fp "\<lambda>_. None"]
  have acc: "dispatcher_verify toy_evp toy_x25519 (\<lambda>_. None) sample_server ?fp 1100
      = (Some (sample_info, ss, \<lparr>af_random = ap_random ap, af_session_id = Some (take 32 (ap_ciphertext ap)),
        af_key_share = Some (drop 32 (ap_ciphertext ap)), af_accept = None\<rparr>), ?srv1)"
    by (intro honest_verified[OF toy_evp_sound hp _ sample_unreplayed]) (simp add: cloak_firstpacket_data_def)
  have "fst (dispatcher_verify toy_evp toy_x25519 (\<lambda>_. None) ?srv1 ?fp 1200) = None"
    using captured_packet_refused[OF acc, where seen = "[]" and hist = "[]" and ?srv2.0 = ?srv1 and ?t2.0 = 1200] sample_cache_ok
    by (simp add: sample_server_def sample_bounds cloak_server_check_replay_def split: prod.split)
  then show ?thesis using acc by blast
qed

end
