(* ===== verification/Http.thy ===== *)
theory Http
  imports AsciiText
begin

text \<open>
  \<open>libcloak-server/src/http.c\<close>: the incremental HTTP/1.1 request parser of the admin API. The parser's state is a record; the line
  buffer, the path and the body received so far are byte lists, and the only allocation, the body buffer, asks a parameter
  whether \<open>malloc\<close> succeeds. Every helper returns the parser; the state it returns in C is the parser's own.
\<close>

section \<open>The parser\<close>

definition CLOAK_HTTP_MAX_PATH :: nat where "CLOAK_HTTP_MAX_PATH = 256"
definition CLOAK_HTTP_MAX_REQUEST_LINE :: nat where "CLOAK_HTTP_MAX_REQUEST_LINE = 1024"
definition CLOAK_HTTP_MAX_HEADER_LINE :: nat where "CLOAK_HTTP_MAX_HEADER_LINE = 512"
definition CLOAK_HTTP_MAX_HEADER_BLOCK :: nat where "CLOAK_HTTP_MAX_HEADER_BLOCK = 4096"
definition CLOAK_HTTP_MAX_HEADERS :: nat where "CLOAK_HTTP_MAX_HEADERS = 32"
definition CLOAK_HTTP_MAX_BODY :: nat where "CLOAK_HTTP_MAX_BODY = 65536"

lemmas http_consts = CLOAK_HTTP_MAX_PATH_def CLOAK_HTTP_MAX_REQUEST_LINE_def CLOAK_HTTP_MAX_HEADER_LINE_def
  CLOAK_HTTP_MAX_HEADER_BLOCK_def CLOAK_HTTP_MAX_HEADERS_def CLOAK_HTTP_MAX_BODY_def

datatype http_state = CLOAK_HTTP_INCOMPLETE | CLOAK_HTTP_DONE | CLOAK_HTTP_ERROR

datatype http_method =
  CLOAK_HTTP_METHOD_OTHER | CLOAK_HTTP_METHOD_GET | CLOAK_HTTP_METHOD_POST | CLOAK_HTTP_METHOD_DELETE | CLOAK_HTTP_METHOD_OPTIONS

datatype http_phase = PHASE_REQUEST_LINE | PHASE_HEADERS | PHASE_BODY

record http_request =
  rq_method :: http_method
  rq_path :: bytes
  rq_have_content_length :: bool
  rq_content_length :: nat
  rq_body :: "bytes option"
  rq_status :: nat

record http_parser =
  hp_state :: http_state
  hp_phase :: http_phase
  hp_line :: bytes
  hp_pending_cr :: bool
  hp_header_count :: nat
  hp_header_block_len :: nat
  hp_body_buf :: bytes
  hp_body_cap :: nat
  hp_req :: http_request

definition cloak_http_parser_init :: http_parser where
  "cloak_http_parser_init =
     \<lparr>hp_state = CLOAK_HTTP_INCOMPLETE, hp_phase = PHASE_REQUEST_LINE, hp_line = [], hp_pending_cr = False, hp_header_count = 0,
      hp_header_block_len = 0, hp_body_buf = [], hp_body_cap = 0,
      hp_req = \<lparr>rq_method = CLOAK_HTTP_METHOD_OTHER, rq_path = [], rq_have_content_length = False, rq_content_length = 0,
        rq_body = None, rq_status = 0\<rparr>\<rparr>"

definition cloak_http_parser_destroy :: "http_parser \<Rightarrow> http_parser" where
  "cloak_http_parser_destroy p = cloak_http_parser_init"

definition cloak_http_parser_request :: "http_parser \<Rightarrow> http_request" where
  "cloak_http_parser_request p = hp_req p"

definition cloak_http_parser_state :: "http_parser \<Rightarrow> http_state" where
  "cloak_http_parser_state p = hp_state p"

definition cloak_http_parser_body_allocated :: "http_parser \<Rightarrow> nat" where
  "cloak_http_parser_body_allocated p = hp_body_cap p"

definition http_fail :: "http_parser \<Rightarrow> nat \<Rightarrow> http_parser" where
  "http_fail p status = p\<lparr>hp_state := CLOAK_HTTP_ERROR, hp_req := (hp_req p)\<lparr>rq_status := status\<rparr>\<rparr>"

definition name_is :: "bytes \<Rightarrow> string \<Rightarrow> bool" where
  \<comment> \<open>the literal is lower case\<close>
  "name_is name lower \<longleftrightarrow> map ascii_lower name = lit lower"

definition method_of :: "bytes \<Rightarrow> http_method" where
  "method_of s =
     (if s = lit ''GET'' then CLOAK_HTTP_METHOD_GET
      else if s = lit ''POST'' then CLOAK_HTTP_METHOD_POST
      else if s = lit ''DELETE'' then CLOAK_HTTP_METHOD_DELETE
      else if s = lit ''OPTIONS'' then CLOAK_HTTP_METHOD_OPTIONS
      else CLOAK_HTTP_METHOD_OTHER)"

definition finish_request_line :: "http_parser \<Rightarrow> http_parser" where
  "finish_request_line p =
     (let line = hp_line p in
      if 32 \<notin> set line then http_fail p 400
      else
        let meth = takeWhile (\<lambda>b. b \<noteq> 32) line; rest = drop (length meth + 1) line in
        if meth = [] then http_fail p 400
        else if 32 \<notin> set rest then http_fail p 400
        else
          let path = takeWhile (\<lambda>b. b \<noteq> 32) rest; version = drop (length path + 1) rest in
          if path = [] then http_fail p 400
          else if 32 \<in> set version then http_fail p 400
          else if version \<noteq> lit ''HTTP/1.1'' \<and> version \<noteq> lit ''HTTP/1.0'' then http_fail p 400
          else if length path \<ge> CLOAK_HTTP_MAX_PATH then http_fail p 414
          else if hd path \<noteq> 47 then http_fail p 400
          else p\<lparr>hp_req := (hp_req p)\<lparr>rq_method := method_of meth, rq_path := path\<rparr>, hp_phase := PHASE_HEADERS, hp_line := []\<rparr>)"

fun content_length_loop :: "bytes \<Rightarrow> nat \<Rightarrow> nat option" where
  \<comment> \<open>the accumulation, \<^const>\<open>None\<close> once it exceeds the cap\<close>
  "content_length_loop [] val = Some val"
| "content_length_loop (c # cs) val =
     (let val1 = val * 10 + unat (c - 48) in
      if val1 > CLOAK_HTTP_MAX_BODY then None else content_length_loop cs val1)"

definition parse_content_length :: "http_parser \<Rightarrow> bytes \<Rightarrow> http_parser" where
  "parse_content_length p v =
     (if v = [] then http_fail p 400
      else if \<not> list_all (\<lambda>c. 48 \<le> c \<and> c \<le> 57) v then http_fail p 400
      else
        (case content_length_loop v 0 of
           None \<Rightarrow> http_fail p 413
         | Some val \<Rightarrow>
             if rq_have_content_length (hp_req p)
             then (if rq_content_length (hp_req p) \<noteq> val then http_fail p 400 else p)
             else p\<lparr>hp_req := (hp_req p)\<lparr>rq_have_content_length := True, rq_content_length := val\<rparr>\<rparr>))"

definition finish_headers :: "(nat \<Rightarrow> bool) \<Rightarrow> http_parser \<Rightarrow> http_parser" where
  "finish_headers alloc p =
     (if \<not> rq_have_content_length (hp_req p) \<or> rq_content_length (hp_req p) = 0
      then p\<lparr>hp_req := (hp_req p)\<lparr>rq_body := None\<rparr>, hp_state := CLOAK_HTTP_DONE\<rparr>
      else if \<not> alloc (rq_content_length (hp_req p)) then http_fail p 500
      else p\<lparr>hp_body_cap := rq_content_length (hp_req p), hp_body_buf := [], hp_phase := PHASE_BODY\<rparr>)"

definition finish_header_line :: "(nat \<Rightarrow> bool) \<Rightarrow> http_parser \<Rightarrow> http_parser" where
  "finish_header_line alloc p0 =
     (let line = hp_line p0; p = p0\<lparr>hp_line := []\<rparr> in
      if line = [] then finish_headers alloc p
      else if hd line = 32 \<or> hd line = 9 then http_fail p 400
      else
        let p1 = p\<lparr>hp_header_count := hp_header_count p + 1\<rparr> in
        if hp_header_count p1 > CLOAK_HTTP_MAX_HEADERS then http_fail p1 431
        else if 58 \<notin> set line then http_fail p1 400
        else
          let name = takeWhile (\<lambda>b. b \<noteq> 58) line in
          if name = [] then http_fail p1 400
          else if \<not> list_all is_token_octet name then http_fail p1 400
          else
            let val = trim_ows (drop (length name + 1) line) in
            if name_is name ''transfer-encoding'' then http_fail p1 501
            else if name_is name ''content-length'' then parse_content_length p1 val
            else p1)"

definition line_byte :: "(nat \<Rightarrow> bool) \<Rightarrow> http_parser \<Rightarrow> byte \<Rightarrow> http_parser" where
  "line_byte alloc p b =
     (let in_request_line = (hp_phase p = PHASE_REQUEST_LINE);
          cap = (if in_request_line then CLOAK_HTTP_MAX_REQUEST_LINE else CLOAK_HTTP_MAX_HEADER_LINE);
          over_status = (if in_request_line then 414 else 431)
      in
      if hp_pending_cr p then
        (if b \<noteq> 10 then http_fail p 400
         else let p1 = p\<lparr>hp_pending_cr := False\<rparr> in
              if in_request_line then finish_request_line p1 else finish_header_line alloc p1)
      else if b = 13 then p\<lparr>hp_pending_cr := True\<rparr>
      else if b = 10 then http_fail p 400
      else if (b < 0x20 \<or> b = 0x7f) \<and> \<not> (b = 9 \<and> hp_phase p = PHASE_HEADERS) then http_fail p 400
      else if length (hp_line p) \<ge> cap then http_fail p over_status
      else p\<lparr>hp_line := hp_line p @ [b]\<rparr>)"

definition feed_body :: "http_parser \<Rightarrow> bytes \<Rightarrow> http_parser \<times> nat" where
  \<comment> \<open>the body branch: it completes the body or uses up the input, so the loop ends with it\<close>
  "feed_body p data =
     (let need = rq_content_length (hp_req p) - length (hp_body_buf p);
          taken = (if length data > need then need else length data);
          p1 = p\<lparr>hp_body_buf := hp_body_buf p @ take taken data\<rparr>
      in
      if length (hp_body_buf p1) = rq_content_length (hp_req p)
      then (p1\<lparr>hp_req := (hp_req p1)\<lparr>rq_body := Some (hp_body_buf p1)\<rparr>, hp_state := CLOAK_HTTP_DONE\<rparr>, taken)
      else (p1, taken))"

definition charge_block :: "http_parser \<Rightarrow> http_parser" where
  "charge_block p = (if hp_phase p = PHASE_HEADERS then p\<lparr>hp_header_block_len := hp_header_block_len p + 1\<rparr> else p)"

fun feed_loop :: "(nat \<Rightarrow> bool) \<Rightarrow> http_parser \<Rightarrow> bytes \<Rightarrow> http_parser \<times> nat" where
  "feed_loop alloc p [] = (p, 0)"
| "feed_loop alloc p (b # bs) =
     (if hp_phase p = PHASE_BODY then feed_body p (b # bs)
      else
        let p1 = charge_block p in
        if hp_phase p = PHASE_HEADERS \<and> hp_header_block_len p1 > CLOAK_HTTP_MAX_HEADER_BLOCK then (http_fail p1 431, 1)
        else
          let p2 = line_byte alloc p1 b in
          if hp_state p2 \<noteq> CLOAK_HTTP_INCOMPLETE then (p2, 1)
          else (case feed_loop alloc p2 bs of (p3, n) \<Rightarrow> (p3, n + 1)))"

definition cloak_http_parser_feed :: "(nat \<Rightarrow> bool) \<Rightarrow> http_parser \<Rightarrow> bytes \<Rightarrow> http_parser \<times> nat" where
  \<comment> \<open>the parser and the number of bytes consumed\<close>
  "cloak_http_parser_feed alloc p data =
     (if hp_state p \<noteq> CLOAK_HTTP_INCOMPLETE then (p, 0) else feed_loop alloc p data)"

section \<open>Bounds\<close>

definition plain :: "http_phase \<Rightarrow> byte \<Rightarrow> bool" where
  \<comment> \<open>the bytes that may be stored in a line\<close>
  "plain ph b \<longleftrightarrow> 0x20 \<le> b \<and> b \<noteq> 0x7f \<or> b = 9 \<and> ph = PHASE_HEADERS"

definition line_cap :: "http_phase \<Rightarrow> nat" where
  "line_cap ph = (if ph = PHASE_REQUEST_LINE then 1024 else 512)"

definition http_ok :: "http_parser \<Rightarrow> bool" where
  "http_ok p \<longleftrightarrow> length (hp_line p) \<le> line_cap (hp_phase p) \<and> list_all (plain (hp_phase p)) (hp_line p)
     \<and> hp_header_count p \<le> 33 \<and> hp_header_block_len p \<le> 4097
     \<and> rq_content_length (hp_req p) \<le> 65536 \<and> hp_body_cap p \<le> 65536 \<and> length (hp_body_buf p) \<le> hp_body_cap p
     \<and> length (rq_path (hp_req p)) < 256 \<and> list_all (\<lambda>b. 0x20 < b \<and> b \<noteq> 0x7f) (rq_path (hp_req p))
     \<and> (hp_phase p = PHASE_REQUEST_LINE \<or> rq_path (hp_req p) \<noteq> [] \<and> hd (rq_path (hp_req p)) = 47)
     \<and> (hp_phase p = PHASE_BODY \<longrightarrow> hp_body_cap p = rq_content_length (hp_req p) \<and> 0 < hp_body_cap p
          \<and> (length (hp_body_buf p) = hp_body_cap p) = (hp_state p = CLOAK_HTTP_DONE))
     \<and> (\<forall>b. rq_body (hp_req p) = Some b \<longrightarrow> hp_state p = CLOAK_HTTP_DONE \<and> b = hp_body_buf p \<and> length b = rq_content_length (hp_req p))
     \<and> (hp_state p = CLOAK_HTTP_INCOMPLETE \<longrightarrow> hp_header_count p \<le> 32 \<and> hp_header_block_len p \<le> 4096)
     \<and> (hp_state p = CLOAK_HTTP_ERROR \<longrightarrow> rq_status (hp_req p) \<in> {400, 413, 414, 431, 500, 501})"

lemma init_ok: "http_ok cloak_http_parser_init"
  by (simp add: http_ok_def cloak_http_parser_init_def line_cap_def)

lemma fail_ok:
  assumes "http_ok p" "hp_state p = CLOAK_HTTP_INCOMPLETE" "s \<in> {400, 413, 414, 431, 500, 501}"
  shows "http_ok (http_fail p s)"
  using assms by (auto simp: http_ok_def http_fail_def)

lemma fail_state [simp]: "hp_state (http_fail p s) = CLOAK_HTTP_ERROR"
  by (simp add: http_fail_def)

lemma finish_request_line_ok:
  assumes ok: "http_ok p" "hp_state p = CLOAK_HTTP_INCOMPLETE" "hp_phase p = PHASE_REQUEST_LINE"
  shows "http_ok (finish_request_line p)"
proof -
  define path where "path = takeWhile (\<lambda>b. b \<noteq> 32) (drop (length (takeWhile (\<lambda>b. b \<noteq> 32) (hp_line p)) + 1) (hp_line p))"
  have "b \<in> set (hp_line p) \<and> b \<noteq> 32" if "b \<in> set path" for b
    using that unfolding path_def by (auto dest: set_takeWhileD in_set_dropD)
  moreover have "list_all (plain PHASE_REQUEST_LINE) (hp_line p)" using ok(1,3) by (simp add: http_ok_def)
  ultimately have "list_all (\<lambda>b. 0x20 < b \<and> b \<noteq> 0x7f) path"
    by (fastforce simp: plain_def list_all_iff order_less_le)
  then have "http_ok (p\<lparr>hp_req := (hp_req p)\<lparr>rq_method := m, rq_path := path\<rparr>, hp_phase := PHASE_HEADERS, hp_line := []\<rparr>)"
    if "length path < 256" "path \<noteq> []" "hd path = 47" for m using ok that by (simp add: http_ok_def line_cap_def)
  then show ?thesis unfolding finish_request_line_def Let_def path_def[symmetric]
    using fail_ok[OF ok(1,2)] by (simp add: http_consts not_le)
qed

lemma content_length_loop_bound: "content_length_loop v a = Some n \<Longrightarrow> a \<le> 65536 \<Longrightarrow> n \<le> 65536"
  by (induction v a rule: content_length_loop.induct) (auto simp: Let_def http_consts split: if_splits)

lemma parse_content_length_ok:
  assumes "http_ok p" "hp_state p = CLOAK_HTTP_INCOMPLETE" "hp_phase p = PHASE_HEADERS"
  shows "http_ok (parse_content_length p v)"
proof -
  have "http_ok (p\<lparr>hp_req := (hp_req p)\<lparr>rq_have_content_length := True, rq_content_length := n\<rparr>\<rparr>)" if "content_length_loop v 0 = Some n" for n
    using assms content_length_loop_bound[OF that] by (simp add: http_ok_def)
  then show ?thesis using assms(1) fail_ok[OF assms(1,2)] by (auto simp: parse_content_length_def split: option.split)
qed

lemma finish_headers_ok:
  assumes "http_ok p" "hp_state p = CLOAK_HTTP_INCOMPLETE" "hp_phase p = PHASE_HEADERS" "hp_line p = []"
  shows "http_ok (finish_headers alloc p)"
proof -
  have "http_ok (p\<lparr>hp_req := (hp_req p)\<lparr>rq_body := None\<rparr>, hp_state := CLOAK_HTTP_DONE\<rparr>)" using assms by (simp add: http_ok_def)
  moreover have "http_ok (p\<lparr>hp_body_cap := rq_content_length (hp_req p), hp_body_buf := [], hp_phase := PHASE_BODY\<rparr>)"
    if "rq_content_length (hp_req p) \<noteq> 0" using assms that by (auto simp: http_ok_def line_cap_def)
  ultimately show ?thesis using fail_ok[OF assms(1,2)] by (simp add: finish_headers_def)
qed

lemma finish_header_line_ok:
  assumes ok: "http_ok p" "hp_state p = CLOAK_HTTP_INCOMPLETE" "hp_phase p = PHASE_HEADERS"
  shows "http_ok (finish_header_line alloc p)"
proof -
  let ?p = "p\<lparr>hp_line := []\<rparr>"
  let ?p1 = "?p\<lparr>hp_header_count := hp_header_count p + 1\<rparr>"
  have q: "http_ok ?p" using ok by (simp add: http_ok_def)
  have f: "http_ok (http_fail ?p1 s)" if "s \<in> {400, 413, 414, 431, 500, 501}" for s using q ok that by (auto simp: http_ok_def http_fail_def)
  have q1: "http_ok ?p1" if "\<not> hp_header_count p + 1 > CLOAK_HTTP_MAX_HEADERS" using q ok that by (simp add: http_ok_def http_consts)
  show ?thesis
    using fail_ok[OF q] finish_headers_ok[OF q] f q1 parse_content_length_ok[OF q1] ok(2,3)
    by (auto simp: finish_header_line_def Let_def)
qed

lemma http_ok_cr: "http_ok (p\<lparr>hp_pending_cr := c\<rparr>) = http_ok p"
  by (simp add: http_ok_def)

lemma line_byte_ok:
  assumes ok: "http_ok p" "hp_state p = CLOAK_HTTP_INCOMPLETE" "hp_phase p \<noteq> PHASE_BODY"
  shows "http_ok (line_byte alloc p b)"
proof -
  let ?q = "p\<lparr>hp_pending_cr := False\<rparr>"
  have q: "http_ok ?q" "hp_state ?q = CLOAK_HTTP_INCOMPLETE" using ok by (simp_all add: http_ok_cr)
  have fin: "http_ok (if hp_phase p = PHASE_REQUEST_LINE then finish_request_line ?q else finish_header_line alloc ?q)"
    using finish_request_line_ok[OF q] finish_header_line_ok[OF q, of alloc] ok(3) by (cases "hp_phase p") simp_all
  have snoc: "http_ok (p\<lparr>hp_line := hp_line p @ [b]\<rparr>)" if "plain (hp_phase p) b" "length (hp_line p) < line_cap (hp_phase p)"
    using ok(1,3) that unfolding http_ok_def by simp
  have "http_ok (p\<lparr>hp_pending_cr := True\<rparr>)" using ok(1) by (simp add: http_ok_cr)
  moreover have "(\<not> ((b < 0x20 \<or> b = 0x7f) \<and> \<not> (b = 9 \<and> hp_phase p = PHASE_HEADERS))) = plain (hp_phase p) b"
    by (auto simp: plain_def not_less)
  moreover have "(if hp_phase p = PHASE_REQUEST_LINE then CLOAK_HTTP_MAX_REQUEST_LINE else CLOAK_HTTP_MAX_HEADER_LINE) = line_cap (hp_phase p)"
    by (simp add: line_cap_def http_consts)
  ultimately show ?thesis
    using fin snoc fail_ok[OF ok(1,2), of 400] fail_ok[OF ok(1,2), of 414] fail_ok[OF ok(1,2), of 431]
    unfolding line_byte_def Let_def by (simp only: not_le split: if_split) simp
qed

lemma feed_body_ok:
  assumes "http_ok p" "hp_state p = CLOAK_HTTP_INCOMPLETE" "hp_phase p = PHASE_BODY"
  shows "http_ok (fst (feed_body p data)) \<and> snd (feed_body p data) \<le> length data"
  using assms by (auto simp: feed_body_def Let_def http_ok_def)

lemma feed_loop_ok:
  "http_ok p \<Longrightarrow> hp_state p = CLOAK_HTTP_INCOMPLETE \<Longrightarrow> http_ok (fst (feed_loop alloc p data)) \<and> snd (feed_loop alloc p data) \<le> length data"
proof (induction alloc p data rule: feed_loop.induct)
  case (2 alloc p b bs)
  show ?case
  proof (cases "hp_phase p = PHASE_BODY")
    case True
    then show ?thesis using feed_body_ok[OF "2.prems" True, of "b # bs"] by simp
  next
    case False
    let ?p = "charge_block p"
    have st: "hp_state ?p = hp_state p" "hp_phase ?p = hp_phase p" by (simp_all add: charge_block_def)
    show ?thesis
    proof (cases "hp_phase p = PHASE_HEADERS \<and> hp_header_block_len ?p > CLOAK_HTTP_MAX_HEADER_BLOCK")
      case True
      then have "http_ok (http_fail ?p 431)" using "2.prems" by (auto simp: charge_block_def http_ok_def http_fail_def)
      then show ?thesis using True by simp
    next
      case in_cap: False
      then have ok1: "http_ok ?p" using "2.prems" by (auto simp: charge_block_def http_ok_def http_consts)
      have ok2: "http_ok (line_byte alloc ?p b)" by (rule line_byte_ok[OF ok1]) (simp_all add: st "2.prems" False)
      have "feed_loop alloc p (b # bs) = (if hp_state (line_byte alloc ?p b) \<noteq> CLOAK_HTTP_INCOMPLETE then (line_byte alloc ?p b, 1)
          else (case feed_loop alloc (line_byte alloc ?p b) bs of (p3, n) \<Rightarrow> (p3, n + 1)))"
        using in_cap False by (auto simp: Let_def)
      then show ?thesis using "2.IH"[OF False refl in_cap refl _ ok2] ok2 by (auto split: prod.split)
    qed
  qed
qed simp

fun http_run :: "(nat \<Rightarrow> bool) \<Rightarrow> http_parser \<Rightarrow> bytes list \<Rightarrow> http_parser \<times> nat" where
  \<comment> \<open>the owner's feeds, one per delivered piece\<close>
  "http_run alloc p [] = (p, 0)"
| "http_run alloc p (c # cs) =
     (case cloak_http_parser_feed alloc p c of (p1, n1) \<Rightarrow> (case http_run alloc p1 cs of (p2, n2) \<Rightarrow> (p2, n1 + n2)))"

lemma http_run_ok: "http_ok p \<Longrightarrow> http_ok (fst (http_run alloc p cs))"
proof (induction cs arbitrary: p)
  case (Cons c cs)
  have "http_ok (fst (cloak_http_parser_feed alloc p c))"
    using feed_loop_ok[OF Cons.prems] Cons.prems by (simp add: cloak_http_parser_feed_def)
  from Cons.IH[OF this] show ?case by (simp add: case_prod_beta)
qed simp

text \<open>
  C20: a request cannot make the parser hold more than its caps. Whatever bytes arrive in whatever pieces, at most 1024 bytes of a
  line, 33 header lines and 4097 bytes of header block are counted, no more than 65536 bytes are ever allocated and never before the length was
  declared, the stored path is a printable one of less than 256 bytes that starts with a slash, a finished request has the whole declared body, and an error has one of the six statuses.
\<close>

theorem http_parser_bounded: "http_ok (fst (http_run alloc cloak_http_parser_init cs))"
  by (rule http_run_ok[OF init_ok])

section \<open>Pieces\<close>

lemma feed_body_done:
  assumes "rq_content_length (hp_req p) = length (hp_body_buf p) + need" "need \<le> length data"
  shows "feed_body p data = (p\<lparr>hp_body_buf := hp_body_buf p @ take need data,
     hp_req := (hp_req p)\<lparr>rq_body := Some (hp_body_buf p @ take need data)\<rparr>, hp_state := CLOAK_HTTP_DONE\<rparr>, need)"
proof -
  have "(if length data > need then need else length data) = need" using assms(2) by simp
  then show ?thesis using assms unfolding feed_body_def Let_def assms(1) by (simp add: min_absorb2)
qed

lemma feed_body_more:
  assumes "rq_content_length (hp_req p) = length (hp_body_buf p) + need" "length data < need"
  shows "feed_body p data = (p\<lparr>hp_body_buf := hp_body_buf p @ data\<rparr>, length data)"
  using assms unfolding feed_body_def Let_def by simp

lemma feed_body_append:
  assumes "http_ok p" "hp_state p = CLOAK_HTTP_INCOMPLETE" "hp_phase p = PHASE_BODY" "xs \<noteq> []"
  shows "feed_body p (xs @ ys) =
     (if hp_state (fst (feed_body p xs)) \<noteq> CLOAK_HTTP_INCOMPLETE then feed_body p xs
      else (fst (feed_loop alloc (fst (feed_body p xs)) ys), snd (feed_body p xs) + snd (feed_loop alloc (fst (feed_body p xs)) ys)))"
proof -
  obtain need where n: "rq_content_length (hp_req p) = length (hp_body_buf p) + need" "0 < need"
  proof (rule that[of "rq_content_length (hp_req p) - length (hp_body_buf p)"])
    have "length (hp_body_buf p) < rq_content_length (hp_req p)" using assms(1-3) by (auto simp: http_ok_def)
    then show "rq_content_length (hp_req p) = length (hp_body_buf p) + (rq_content_length (hp_req p) - length (hp_body_buf p))"
      "0 < rq_content_length (hp_req p) - length (hp_body_buf p)" by simp_all
  qed
  show ?thesis
  proof (cases "need \<le> length xs")
    case True
    then show ?thesis using feed_body_done[OF n(1)] by simp
  next
    case False
    let ?q = "p\<lparr>hp_body_buf := hp_body_buf p @ xs\<rparr>"
    have e: "feed_body p xs = (?q, length xs)" using feed_body_more[OF n(1)] False by simp
    show ?thesis
    proof (cases ys)
      case Nil
      then show ?thesis using assms(2) by (simp add: e)
    next
      case (Cons y zs)
      have q: "feed_loop alloc ?q ys = feed_body ?q ys" "rq_content_length (hp_req ?q) = length (hp_body_buf ?q) + (need - length xs)"
        using Cons assms(3) n False by simp_all
      have "feed_body p (xs @ ys) = (fst (feed_body ?q ys), length xs + snd (feed_body ?q ys))"
      proof (cases "need \<le> length xs + length ys")
        case True
        then show ?thesis using feed_body_done[OF n(1), of "xs @ ys"] feed_body_done[OF q(2), of ys] False by simp
      next
        case more: False
        then show ?thesis using feed_body_more[OF n(1), of "xs @ ys"] feed_body_more[OF q(2), of ys] by simp
      qed
      then show ?thesis using assms(2) by (simp add: e q(1))
    qed
  qed
qed

lemma http_feed_append:
  "http_ok p \<Longrightarrow> hp_state p = CLOAK_HTTP_INCOMPLETE \<Longrightarrow>
   feed_loop alloc p (xs @ ys) =
     (if hp_state (fst (feed_loop alloc p xs)) \<noteq> CLOAK_HTTP_INCOMPLETE then feed_loop alloc p xs
      else (fst (feed_loop alloc (fst (feed_loop alloc p xs)) ys),
            snd (feed_loop alloc p xs) + snd (feed_loop alloc (fst (feed_loop alloc p xs)) ys)))"
proof (induction alloc p xs rule: feed_loop.induct)
  case (2 alloc p b bs)
  show ?case
  proof (cases "hp_phase p = PHASE_BODY")
    case True
    then show ?thesis using feed_body_append[OF "2.prems" True, of "b # bs" ys alloc] by simp
  next
    case False
    let ?p = "charge_block p"
    have st: "hp_state ?p = hp_state p" "hp_phase ?p = hp_phase p" by (simp_all add: charge_block_def)
    show ?thesis
    proof (cases "hp_phase p = PHASE_HEADERS \<and> hp_header_block_len ?p > CLOAK_HTTP_MAX_HEADER_BLOCK")
      case True
      then show ?thesis by simp
    next
      case in_cap: False
      then have ok1: "http_ok ?p" using "2.prems" by (auto simp: charge_block_def http_ok_def http_consts)
      have ok2: "http_ok (line_byte alloc ?p b)" by (rule line_byte_ok[OF ok1]) (simp_all add: st "2.prems" False)
      have e: "feed_loop alloc p (b # zs) = (if hp_state (line_byte alloc ?p b) \<noteq> CLOAK_HTTP_INCOMPLETE then (line_byte alloc ?p b, 1)
          else (fst (feed_loop alloc (line_byte alloc ?p b) zs), snd (feed_loop alloc (line_byte alloc ?p b) zs) + 1))" for zs
        using in_cap False by (auto simp: Let_def split: prod.split)
      show ?thesis using "2.IH"[OF False refl in_cap refl _ ok2] by (simp only: append_Cons e) simp
    qed
  qed
qed simp

lemma feed_append_whole:
  assumes "http_ok p"
  shows "cloak_http_parser_feed alloc p (xs @ ys) =
     (case cloak_http_parser_feed alloc p xs of (p1, n1) \<Rightarrow> (case cloak_http_parser_feed alloc p1 ys of (p2, n2) \<Rightarrow> (p2, n1 + n2)))"
  using http_feed_append[OF assms, of alloc xs ys] by (auto simp: cloak_http_parser_feed_def split: prod.split)

text \<open>
  C19: the cut of the stream does not matter. Feeding the parser any pieces leaves it in the same state, and consumes the same number of
  bytes, as feeding it their concatenation at once, errors and finished requests included.
\<close>

theorem http_feed_pieces:
  "http_run alloc cloak_http_parser_init cs = cloak_http_parser_feed alloc cloak_http_parser_init (concat cs)"
proof -
  have "http_ok p \<Longrightarrow> http_run alloc p cs = cloak_http_parser_feed alloc p (concat cs)" for p
  proof (induction cs arbitrary: p)
    case (Cons c cs)
    have "http_ok (fst (cloak_http_parser_feed alloc p c))"
      using http_run_ok[OF Cons.prems, of alloc "[c]"] by (simp split: prod.splits)
    then show ?case using Cons.IH feed_append_whole[OF Cons.prems, of alloc c "concat cs"] by (auto split: prod.split)
  qed (simp add: cloak_http_parser_feed_def)
  from this[OF init_ok] show ?thesis .
qed

section \<open>Requests as messages\<close>

definition digits :: "bytes \<Rightarrow> bool" where
  "digits v \<longleftrightarrow> v \<noteq> [] \<and> list_all (\<lambda>c. 48 \<le> c \<and> c \<le> 57) v"

definition dec_from :: "nat \<Rightarrow> bytes \<Rightarrow> nat" where
  "dec_from a v = foldl (\<lambda>n c. n * 10 + unat (c - 48)) a v"

abbreviation dec :: "bytes \<Rightarrow> nat" where "dec v \<equiv> dec_from 0 v"

lemma dec_from_mono: "a \<le> dec_from a v"
proof (induction v arbitrary: a)
  case (Cons c v)
  have "a \<le> a * 10 + unat (c - 48)" by simp
  then show ?case using Cons.IH[of "a * 10 + unat (c - 48)"] unfolding dec_from_def by (simp only: foldl_Cons)
qed (simp add: dec_from_def)

lemma content_length_loop_dec:
  "a \<le> 65536 \<Longrightarrow> content_length_loop v a = (if dec_from a v \<le> 65536 then Some (dec_from a v) else None)"
proof (induction v a rule: content_length_loop.induct)
  case (2 c cs a)
  have e: "dec_from a (c # cs) = dec_from (a * 10 + unat (c - 48)) cs" by (simp add: dec_from_def)
  show ?case
  proof (cases "a * 10 + unat (c - 48) > 65536")
    case True
    then show ?thesis using dec_from_mono[of "a * 10 + unat (c - 48)" cs] e by (simp add: http_consts Let_def)
  next
    case False
    then show ?thesis using "2.IH"[OF refl] e by (simp add: http_consts Let_def)
  qed
qed (simp add: dec_from_def)

definition is_length :: "header \<Rightarrow> bool" where
  "is_length h \<longleftrightarrow> name_is (fst h) ''content-length''"

definition base_fine :: "header \<Rightarrow> bool" where
  "base_fine h \<longleftrightarrow> fst h \<noteq> [] \<and> list_all is_token_octet (fst h) \<and> \<not> name_is (fst h) ''transfer-encoding''
     \<and> (is_length h \<longrightarrow> digits (trim_ows (snd h)) \<and> dec (trim_ows (snd h)) \<le> 65536)"

definition hdr_fine :: "http_request \<Rightarrow> header \<Rightarrow> bool" where
  \<comment> \<open>a field line the parser takes in that state of the request\<close>
  "hdr_fine r h \<longleftrightarrow> base_fine h \<and> (is_length h \<longrightarrow> rq_have_content_length r \<longrightarrow> rq_content_length r = dec (trim_ows (snd h)))"

definition hdr_req :: "header \<Rightarrow> http_request \<Rightarrow> http_request" where
  "hdr_req h r = (if is_length h then r\<lparr>rq_have_content_length := True, rq_content_length := dec (trim_ows (snd h))\<rparr> else r)"

fun hs_fine :: "http_request \<Rightarrow> header list \<Rightarrow> bool" where
  "hs_fine r [] = True"
| "hs_fine r (h # hs) = (hdr_fine r h \<and> hs_fine (hdr_req h r) hs)"

definition hdr_line :: "header \<Rightarrow> bytes" where
  "hdr_line h = fst h @ 58 # snd h"

lemma te_not_length: "name_is n ''transfer-encoding'' \<Longrightarrow> \<not> name_is n ''content-length''"
  by (auto simp: name_is_def lit_def)

lemma finish_header_line_fine:
  assumes "hdr_fine (hp_req p) h" "hp_line p = hdr_line h" "hp_header_count p < 32"
  shows "finish_header_line alloc p = p\<lparr>hp_line := [], hp_header_count := hp_header_count p + 1, hp_req := hdr_req h (hp_req p)\<rparr>"
proof -
  let ?v = "trim_ows (snd h)"
  let ?p = "p\<lparr>hp_line := [], hp_header_count := hp_header_count p + 1\<rparr>"
  have t: "takeWhile (\<lambda>b. b \<noteq> 58) (hdr_line h) = fst h" "hd (hdr_line h) = hd (fst h)" "is_token_octet (hd (fst h))"
    using assms(1) tokens_plain[of "fst h"] by (auto simp: hdr_fine_def base_fine_def hdr_line_def takeWhile_stop list_all_iff)
  have same: "r\<lparr>rq_have_content_length := True, rq_content_length := dec ?v\<rparr> = r"
    if "rq_have_content_length r" "rq_content_length r = dec ?v" for r :: http_request using that by (cases r) simp
  have "finish_header_line alloc p = (if is_length h then parse_content_length ?p ?v else ?p)"
    using assms t token_octet_plain[OF t(3)]
    by (simp add: finish_header_line_def Let_def hdr_fine_def base_fine_def is_length_def http_consts hdr_line_def)
  moreover have "parse_content_length ?p ?v = ?p\<lparr>hp_req := hdr_req h (hp_req p)\<rparr>" if "is_length h"
    using assms(1) that same[of "hp_req p"] content_length_loop_dec[of 0 ?v]
    by (cases p) (auto simp: parse_content_length_def hdr_fine_def base_fine_def hdr_req_def digits_def)
  ultimately show ?thesis by (cases p) (auto simp: hdr_req_def)
qed

lemma finish_header_line_inv:
  assumes "hp_state (finish_header_line alloc p) = CLOAK_HTTP_INCOMPLETE" "hp_line p \<noteq> []"
  shows "\<exists>h. hp_line p = hdr_line h \<and> hdr_fine (hp_req p) h \<and> hp_header_count p < 32"
proof -
  let ?n = "takeWhile (\<lambda>b. b \<noteq> 58) (hp_line p)"
  let ?h = "(?n, drop (length ?n + 1) (hp_line p))"
  let ?p = "p\<lparr>hp_line := [], hp_header_count := hp_header_count p + 1\<rparr>"
  have c: "hp_header_count p < 32" "58 \<in> set (hp_line p)" "?n \<noteq> []" "list_all is_token_octet ?n" "\<not> name_is ?n ''transfer-encoding''"
    and l: "name_is ?n ''content-length'' \<Longrightarrow> hp_state (parse_content_length ?p (trim_ows (snd ?h))) = CLOAK_HTTP_INCOMPLETE"
    using assms by (auto simp: finish_header_line_def Let_def http_consts split: if_splits)
  have "hp_line p = hdr_line ?h" using split_at[OF c(2)] by (simp add: hdr_line_def)
  moreover have "hdr_fine (hp_req p) ?h"
    using c l content_length_loop_dec[of 0 "trim_ows (snd ?h)"]
    by (auto simp: hdr_fine_def base_fine_def is_length_def parse_content_length_def digits_def split: if_splits)
  ultimately show ?thesis using c(1) by blast
qed

definition start_fine :: "bytes \<Rightarrow> bytes \<Rightarrow> bytes \<Rightarrow> bool" where
  "start_fine meth path vers \<longleftrightarrow> meth \<noteq> [] \<and> 32 \<notin> set meth \<and> path \<noteq> [] \<and> hd path = 47 \<and> length path < 256 \<and> 32 \<notin> set path
     \<and> (vers = lit ''HTTP/1.1'' \<or> vers = lit ''HTTP/1.0'')"

definition start_line :: "bytes \<Rightarrow> bytes \<Rightarrow> bytes \<Rightarrow> bytes" where
  "start_line meth path vers = meth @ 32 # path @ 32 # vers"

lemma finish_request_line_fine:
  assumes "start_fine meth path vers" "hp_line p = start_line meth path vers"
  shows "finish_request_line p = p\<lparr>hp_req := (hp_req p)\<lparr>rq_method := method_of meth, rq_path := path\<rparr>, hp_phase := PHASE_HEADERS, hp_line := []\<rparr>"
proof -
  have "32 \<notin> set vers" using assms(1) by (auto simp: start_fine_def lit_def)
  then show ?thesis using assms
    by (auto simp: finish_request_line_def start_fine_def start_line_def takeWhile_stop Let_def http_consts)
qed

lemma finish_request_line_inv:
  assumes "hp_state (finish_request_line p) = CLOAK_HTTP_INCOMPLETE"
  shows "\<exists>meth path vers. hp_line p = start_line meth path vers \<and> start_fine meth path vers"
proof -
  define meth where "meth = takeWhile (\<lambda>b. b \<noteq> 32) (hp_line p)"
  define rest where "rest = drop (length meth + 1) (hp_line p)"
  define path where "path = takeWhile (\<lambda>b. b \<noteq> 32) rest"
  define vers where "vers = drop (length path + 1) rest"
  have c: "32 \<in> set (hp_line p)" "meth \<noteq> []" "32 \<in> set rest" "path \<noteq> []" "vers = lit ''HTTP/1.1'' \<or> vers = lit ''HTTP/1.0''" "length path < 256" "hd path = 47"
    using assms unfolding finish_request_line_def Let_def meth_def[symmetric] rest_def[symmetric] path_def[symmetric] vers_def[symmetric]
    by (auto simp: http_consts split: if_splits)
  have l: "hp_line p = meth @ 32 # rest" "rest = path @ 32 # vers"
    using split_at[OF c(1)] split_at[OF c(3)] by (simp_all add: meth_def rest_def path_def vers_def)
  moreover have "32 \<notin> set meth" "32 \<notin> set path" by (auto simp: meth_def path_def dest: set_takeWhileD)
  ultimately show ?thesis using c by (auto simp: start_line_def start_fine_def)
qed

subsection \<open>Lines\<close>

definition finish_line :: "(nat \<Rightarrow> bool) \<Rightarrow> http_parser \<Rightarrow> http_parser" where
  "finish_line alloc p = (if hp_phase p = PHASE_REQUEST_LINE then finish_request_line p else finish_header_line alloc p)"

definition charge :: "nat \<Rightarrow> http_parser \<Rightarrow> http_parser" where
  "charge n p = (if hp_phase p = PHASE_HEADERS then p\<lparr>hp_header_block_len := hp_header_block_len p + n\<rparr> else p)"

definition at_line :: "http_parser \<Rightarrow> bool" where
  \<comment> \<open>inside a line, the terminator not begun\<close>
  "at_line p \<longleftrightarrow> hp_state p = CLOAK_HTTP_INCOMPLETE \<and> hp_phase p \<noteq> PHASE_BODY \<and> \<not> hp_pending_cr p"

definition line_fits :: "http_parser \<Rightarrow> bytes \<Rightarrow> bool" where
  "line_fits p l \<longleftrightarrow> list_all (plain (hp_phase p)) l \<and> length (hp_line p) + length l \<le> line_cap (hp_phase p)
     \<and> (hp_phase p = PHASE_HEADERS \<longrightarrow> hp_header_block_len p + length l + 2 \<le> 4096)"

lemma feed_loop_step:
  assumes "hp_phase p \<noteq> PHASE_BODY"
  shows "feed_loop alloc p (b # bs) =
     (if hp_phase p = PHASE_HEADERS \<and> hp_header_block_len p + 1 > 4096 then (http_fail (charge_block p) 431, 1)
      else if hp_state (line_byte alloc (charge_block p) b) \<noteq> CLOAK_HTTP_INCOMPLETE then (line_byte alloc (charge_block p) b, 1)
      else (fst (feed_loop alloc (line_byte alloc (charge_block p) b) bs), snd (feed_loop alloc (line_byte alloc (charge_block p) b) bs) + 1))"
  using assms by (auto simp: charge_block_def Let_def http_consts split: prod.split)

declare feed_loop.simps(2) [simp del]

lemma charge_block_simps [simp]:
  "hp_state (charge_block p) = hp_state p" "hp_phase (charge_block p) = hp_phase p" "hp_line (charge_block p) = hp_line p"
  "hp_pending_cr (charge_block p) = hp_pending_cr p" "hp_req (charge_block p) = hp_req p" "hp_header_count (charge_block p) = hp_header_count p"
  "hp_header_block_len (charge_block p) = (if hp_phase p = PHASE_HEADERS then hp_header_block_len p + 1 else hp_header_block_len p)"
  by (simp_all add: charge_block_def)

lemma charge_simps [simp]:
  "hp_state (charge n p) = hp_state p" "hp_phase (charge n p) = hp_phase p" "hp_line (charge n p) = hp_line p"
  "hp_pending_cr (charge n p) = hp_pending_cr p" "hp_req (charge n p) = hp_req p" "hp_header_count (charge n p) = hp_header_count p"
  by (simp_all add: charge_def)

lemma line_byte_store:
  assumes "at_line p" "plain (hp_phase p) b" "length (hp_line p) < line_cap (hp_phase p)"
  shows "line_byte alloc p b = p\<lparr>hp_line := hp_line p @ [b]\<rparr>"
proof -
  have "b \<noteq> 13" "b \<noteq> 10" "\<not> ((b < 0x20 \<or> b = 0x7f) \<and> \<not> (b = 9 \<and> hp_phase p = PHASE_HEADERS))" using assms(2) by (auto simp: plain_def not_less)
  moreover have "length (hp_line p) < (if hp_phase p = PHASE_REQUEST_LINE then CLOAK_HTTP_MAX_REQUEST_LINE else CLOAK_HTTP_MAX_HEADER_LINE)"
    using assms(3) by (simp add: line_cap_def http_consts split: if_splits)
  ultimately show ?thesis using assms(1) unfolding line_byte_def Let_def at_line_def by (simp only: not_le[symmetric] if_False simp_thms)
qed

lemma line_byte_other:
  assumes "at_line p" "b \<noteq> 13" "\<not> (plain (hp_phase p) b \<and> length (hp_line p) < line_cap (hp_phase p))"
  shows "hp_state (line_byte alloc p b) = CLOAK_HTTP_ERROR"
  using assms by (auto simp: line_byte_def at_line_def line_cap_def http_consts plain_def Let_def not_less)

lemma pending_clear: "\<not> hp_pending_cr p \<Longrightarrow> p\<lparr>hp_pending_cr := False\<rparr> = p"
  by (cases p) simp

lemma feed_crlf:
  assumes "at_line p" "hp_phase p = PHASE_HEADERS \<longrightarrow> hp_header_block_len p + 2 \<le> 4096"
  shows "feed_loop alloc p (13 # 10 # rest) =
     (let q = finish_line alloc (charge 2 p) in
      if hp_state q \<noteq> CLOAK_HTTP_INCOMPLETE then (q, 2) else (fst (feed_loop alloc q rest), snd (feed_loop alloc q rest) + 2))"
proof -
  let ?c = "(charge_block p)\<lparr>hp_pending_cr := True\<rparr>"
  have 1: "line_byte alloc (charge_block p) 13 = ?c" using assms(1) by (simp add: line_byte_def at_line_def Let_def)
  have c: "hp_phase ?c \<noteq> PHASE_BODY" "hp_state ?c = CLOAK_HTTP_INCOMPLETE" using assms(1) by (simp_all add: at_line_def)
  have "(charge_block ?c)\<lparr>hp_pending_cr := False\<rparr> = charge 2 p"
    using pending_clear[of "charge 2 p"] assms(1) by (simp add: charge_def charge_block_def at_line_def)
  then have 2: "line_byte alloc (charge_block ?c) 10 = finish_line alloc (charge 2 p)"
    by (simp add: line_byte_def finish_line_def Let_def)
  show ?thesis using assms c feed_loop_step[OF c(1), of alloc 10 rest] 2
    by (subst feed_loop_step) (auto simp: 1 at_line_def Let_def)
qed

lemma feed_line:
  assumes "at_line p" "line_fits p l"
  shows "feed_loop alloc p (l @ 13 # 10 # rest) =
     (let q = finish_line alloc (charge (length l + 2) (p\<lparr>hp_line := hp_line p @ l\<rparr>)) in
      if hp_state q \<noteq> CLOAK_HTTP_INCOMPLETE then (q, length l + 2)
      else (fst (feed_loop alloc q rest), snd (feed_loop alloc q rest) + length l + 2))"
  using assms
proof (induction l arbitrary: p)
  case Nil
  have "p\<lparr>hp_line := hp_line p @ []\<rparr> = p" by (cases p) simp
  then show ?case using feed_crlf[of p alloc rest] Nil by (simp add: line_fits_def numeral_2_eq_2 Let_def)
next
  case (Cons b l)
  let ?q = "(charge_block p)\<lparr>hp_line := hp_line p @ [b]\<rparr>"
  have s: "line_byte alloc (charge_block p) b = ?q" using line_byte_store[of "charge_block p" b alloc] Cons.prems by (simp add: at_line_def line_fits_def)
  have q: "at_line ?q" "line_fits ?q l" using Cons.prems by (auto simp: at_line_def line_fits_def)
  have e: "charge (length l + 2) (?q\<lparr>hp_line := hp_line ?q @ l\<rparr>) = charge (length (b # l) + 2) (p\<lparr>hp_line := hp_line p @ b # l\<rparr>)"
    by (simp add: charge_def charge_block_def)
  have "feed_loop alloc p ((b # l) @ 13 # 10 # rest)
      = (fst (feed_loop alloc ?q (l @ 13 # 10 # rest)), snd (feed_loop alloc ?q (l @ 13 # 10 # rest)) + 1)"
    using Cons.prems feed_loop_step[of p alloc b "l @ 13 # 10 # rest"] by (auto simp: at_line_def line_fits_def s)
  then show ?case unfolding Cons.IH[OF q] e by (simp add: Let_def)
qed

lemma feed_line_inv:
  assumes "at_line p" "http_ok p" "hp_state (fst (feed_loop alloc p data)) = CLOAK_HTTP_DONE"
  shows "\<exists>l rest. data = l @ 13 # 10 # rest \<and> line_fits p l"
  using assms
proof (induction data arbitrary: p)
  case Nil
  then show ?case by (simp add: at_line_def)
next
  case (Cons b data)
  have cap: "hp_phase p = PHASE_HEADERS \<longrightarrow> hp_header_block_len p + 1 \<le> 4096"
    and st: "hp_state (line_byte alloc (charge_block p) b) \<noteq> CLOAK_HTTP_ERROR"
    using Cons.prems(1,3) feed_loop_step[of p alloc b data] by (auto simp: at_line_def split: if_splits)
  have at1: "at_line (charge_block p)" using Cons.prems(1) by (simp add: at_line_def)
  show ?case
  proof (cases "b = 13")
    case True
    let ?c = "(charge_block p)\<lparr>hp_pending_cr := True\<rparr>"
    have s: "line_byte alloc (charge_block p) b = ?c" using at1 True by (simp add: line_byte_def at_line_def Let_def)
    have d: "hp_state (fst (feed_loop alloc ?c data)) = CLOAK_HTTP_DONE"
      using Cons.prems(1,3) feed_loop_step[of p alloc b data] cap by (auto simp: at_line_def s)
    obtain b' rest where data: "data = b' # rest" using d Cons.prems(1) by (cases data) (auto simp: at_line_def)
    have step: "feed_loop alloc ?c (b' # rest) = (if hp_phase p = PHASE_HEADERS \<and> hp_header_block_len ?c + 1 > 4096 then (http_fail (charge_block ?c) 431, 1)
      else if hp_state (line_byte alloc (charge_block ?c) b') \<noteq> CLOAK_HTTP_INCOMPLETE then (line_byte alloc (charge_block ?c) b', 1)
      else (fst (feed_loop alloc (line_byte alloc (charge_block ?c) b') rest), snd (feed_loop alloc (line_byte alloc (charge_block ?c) b') rest) + 1))"
      using feed_loop_step[of ?c alloc b' rest] Cons.prems(1) by (simp add: at_line_def)
    have "\<not> (hp_phase p = PHASE_HEADERS \<and> hp_header_block_len ?c + 1 > 4096)" using d step by (auto simp: data split: if_splits)
    moreover have "b' = 10"
    proof (rule ccontr)
      assume "b' \<noteq> 10"
      then have "hp_state (line_byte alloc (charge_block ?c) b') = CLOAK_HTTP_ERROR" by (simp add: line_byte_def Let_def)
      then show False using d step by (auto simp: data split: if_splits)
    qed
    ultimately have "b # data = [] @ 13 # 10 # rest \<and> line_fits p []"
      using Cons.prems(2) True by (auto simp: data line_fits_def http_ok_def)
    then show ?thesis by blast
  next
    case False
    then have b: "plain (hp_phase p) b" "length (hp_line p) < line_cap (hp_phase p)" using line_byte_other[OF at1 False, of alloc] st by auto
    let ?q = "(charge_block p)\<lparr>hp_line := hp_line p @ [b]\<rparr>"
    have s: "line_byte alloc (charge_block p) b = ?q" using line_byte_store[OF at1] b by simp
    have q: "at_line ?q" using Cons.prems(1) by (simp add: at_line_def)
    have "http_ok (charge_block p)" using Cons.prems(1,2) cap by (auto simp: charge_block_def http_ok_def at_line_def)
    then have "http_ok ?q" using line_byte_ok[of "charge_block p" alloc b] Cons.prems(1) s by (simp add: at_line_def)
    moreover have "hp_state (fst (feed_loop alloc ?q data)) = CLOAK_HTTP_DONE"
      using Cons.prems(1,3) feed_loop_step[of p alloc b data] cap by (auto simp: at_line_def s)
    ultimately obtain l rest where l: "data = l @ 13 # 10 # rest" "line_fits ?q l" using Cons.IH[OF q] by blast
    then have "b # data = (b # l) @ 13 # 10 # rest \<and> line_fits p (b # l)" using b by (auto simp: line_fits_def)
    then show ?thesis by blast
  qed
qed

subsection \<open>The header block\<close>

definition block_state :: "http_parser \<Rightarrow> header list \<Rightarrow> http_parser" where
  \<comment> \<open>the parser after these field lines\<close>
  "block_state p hs = p\<lparr>hp_header_count := hp_header_count p + length hs,
     hp_header_block_len := hp_header_block_len p + length (concat (map enc_header hs)), hp_req := fold hdr_req hs (hp_req p)\<rparr>"

definition block_fits :: "http_parser \<Rightarrow> header list \<Rightarrow> bool" where
  "block_fits p hs \<longleftrightarrow> hs_fine (hp_req p) hs \<and> hp_header_count p + length hs \<le> 32
     \<and> hp_header_block_len p + length (concat (map enc_header hs)) + 2 \<le> 4096
     \<and> list_all (\<lambda>h. length (hdr_line h) \<le> 512 \<and> list_all (plain PHASE_HEADERS) (snd h)) hs"

definition in_block :: "http_parser \<Rightarrow> bool" where
  \<comment> \<open>between two field lines\<close>
  "in_block p \<longleftrightarrow> at_line p \<and> hp_phase p = PHASE_HEADERS \<and> hp_line p = []"

lemma token_plain: "is_token_octet c \<Longrightarrow> plain PHASE_HEADERS c"
  by (auto simp: is_token_octet_def plain_def elim: order_trans[rotated])

lemma block_Cons_fits:
  assumes "in_block p"
  shows "block_fits p (h # hs) \<longleftrightarrow> hdr_fine (hp_req p) h \<and> hp_header_count p < 32 \<and> list_all (plain PHASE_HEADERS) (hdr_line h)
     \<and> length (hdr_line h) \<le> 512 \<and> block_fits (block_state p [h]) hs"
proof -
  have "hdr_fine (hp_req p) h \<Longrightarrow> list_all (plain PHASE_HEADERS) (hdr_line h) = list_all (plain PHASE_HEADERS) (snd h)"
    using token_plain by (auto simp: hdr_line_def hdr_fine_def base_fine_def list_all_iff plain_def)
  then show ?thesis by (auto simp: block_fits_def block_state_def hdr_line_def)
qed

lemma block_state_Cons: "block_state (block_state p [h]) hs = block_state p (h # hs)"
  by (simp add: block_state_def)

lemma http_feed_header:
  assumes p: "in_block p" and h: "hdr_fine (hp_req p) h" "hp_header_count p < 32" and f: "line_fits p (hdr_line h)"
  shows "feed_loop alloc p (enc_header h @ rest) = (fst (feed_loop alloc (block_state p [h]) rest), snd (feed_loop alloc (block_state p [h]) rest) + length (enc_header h))"
    and "in_block (block_state p [h])"
proof -
  have e: "enc_header h @ rest = hdr_line h @ 13 # 10 # rest" "length (enc_header h) = length (hdr_line h) + 2" by (simp_all add: enc_header_def hdr_line_def)
  let ?q = "charge (length (hdr_line h) + 2) (p\<lparr>hp_line := hp_line p @ hdr_line h\<rparr>)"
  have "finish_line alloc ?q = block_state p [h]"
    using finish_header_line_fine[of ?q h alloc] h p e(2) by (cases p) (simp add: finish_line_def charge_def in_block_def block_state_def)
  moreover show "in_block (block_state p [h])" using p by (simp add: in_block_def at_line_def block_state_def)
  ultimately show "feed_loop alloc p (enc_header h @ rest) = (fst (feed_loop alloc (block_state p [h]) rest), snd (feed_loop alloc (block_state p [h]) rest) + length (enc_header h))"
    using feed_line[OF _ f, of alloc rest] p unfolding e by (simp add: in_block_def at_line_def Let_def)
qed

lemma header_line_fits:
  assumes "in_block p" "list_all (plain PHASE_HEADERS) (hdr_line h)" "length (hdr_line h) \<le> 512" "block_fits (block_state p [h]) hs"
  shows "line_fits p (hdr_line h)"
  using assms by (auto simp: line_fits_def in_block_def line_cap_def block_fits_def block_state_def enc_header_def hdr_line_def)

lemma feed_block:
  "in_block p \<Longrightarrow> block_fits p hs \<Longrightarrow>
   feed_loop alloc p (concat (map enc_header hs) @ rest) =
     (fst (feed_loop alloc (block_state p hs) rest), snd (feed_loop alloc (block_state p hs) rest) + length (concat (map enc_header hs)))
   \<and> in_block (block_state p hs)"
proof (induction hs arbitrary: p)
  case Nil
  have "block_state p [] = p" by (cases p) (simp add: block_state_def)
  then show ?case using Nil by simp
next
  case (Cons h hs)
  have f: "hdr_fine (hp_req p) h" "hp_header_count p < 32" "list_all (plain PHASE_HEADERS) (hdr_line h)" "length (hdr_line h) \<le> 512"
    "block_fits (block_state p [h]) hs" using Cons.prems block_Cons_fits by blast+
  note lf = header_line_fits[OF Cons.prems(1) f(3-5)]
  note s = http_feed_header(1)[OF Cons.prems(1) f(1,2) lf, of alloc "concat (map enc_header hs) @ rest"] http_feed_header(2)[OF Cons.prems(1) f(1,2) lf]
  show ?case using Cons.IH[OF s(2) f(5)] s by (simp add: block_state_Cons)
qed

lemma feed_block_inv:
  "in_block p \<Longrightarrow> http_ok p \<Longrightarrow> hp_state (fst (feed_loop alloc p data)) = CLOAK_HTTP_DONE \<Longrightarrow>
   \<exists>hs rest. data = concat (map enc_header hs) @ 13 # 10 # rest \<and> block_fits p hs"
proof (induction "length data" arbitrary: p data rule: less_induct)
  case less
  have at: "at_line p" "hp_phase p = PHASE_HEADERS" "hp_line p = []" using less.prems(1) by (auto simp: in_block_def)
  obtain l rest where l: "data = l @ 13 # 10 # rest" "line_fits p l" using feed_line_inv[OF at(1) less.prems(2,3)] by blast
  show ?case
  proof (cases "l = []")
    case True
    have "block_fits p []" using l(2) less.prems(2) at True by (auto simp: line_fits_def block_fits_def http_ok_def at_line_def)
    then show ?thesis using l(1) True by (intro exI[of _ "[]"] exI[of _ rest]) simp
  next
    case False
    let ?q = "charge (length l + 2) (p\<lparr>hp_line := hp_line p @ l\<rparr>)"
    have fl: "finish_line alloc ?q = finish_header_line alloc ?q" using at by (simp add: finish_line_def)
    have run: "feed_loop alloc p data = (if hp_state (finish_header_line alloc ?q) \<noteq> CLOAK_HTTP_INCOMPLETE then (finish_header_line alloc ?q, length l + 2)
        else (fst (feed_loop alloc (finish_header_line alloc ?q) rest), snd (feed_loop alloc (finish_header_line alloc ?q) rest) + length l + 2))"
      using feed_line[OF at(1) l(2), of alloc rest] l(1) fl by (simp add: Let_def)
    have nd: "hp_state (finish_header_line alloc ?q) \<noteq> CLOAK_HTTP_DONE"
      using False at by (simp add: finish_header_line_def parse_content_length_def at_line_def http_fail_def Let_def split: option.split)
    have inc: "hp_state (finish_header_line alloc ?q) = CLOAK_HTTP_INCOMPLETE"
      using run less.prems(3) nd by (cases "hp_state (finish_header_line alloc ?q)") auto
    obtain h where h: "l = hdr_line h" "hdr_fine (hp_req p) h" "hp_header_count p < 32"
      using finish_header_line_inv[OF inc] False at by auto
    have lf: "line_fits p (hdr_line h)" using l(2) h(1) by simp
    note s = http_feed_header(1)[OF less.prems(1) h(2,3) lf, of alloc rest] http_feed_header(2)[OF less.prems(1) h(2,3) lf]
    have d: "data = enc_header h @ rest" using l(1) h(1) by (simp add: enc_header_def hdr_line_def)
    have run2: "feed_loop alloc p (enc_header h) = (block_state p [h], length (enc_header h))" using http_feed_header(1)[OF less.prems(1) h(2,3) lf, of alloc "[]"] by simp
    have ok: "http_ok (block_state p [h])" using feed_loop_ok[OF less.prems(2), of alloc "enc_header h"] at(1) run2 by (simp add: at_line_def)
    have "hp_state (fst (feed_loop alloc (block_state p [h]) rest)) = CLOAK_HTTP_DONE" using s(1) less.prems(3) d by simp
    moreover have lt: "length rest < length data" using l(1) by simp
    ultimately obtain hs r where hs: "rest = concat (map enc_header hs) @ 13 # 10 # r" "block_fits (block_state p [h]) hs"
      using less.hyps[OF lt s(2) ok] by blast
    then have "block_fits p (h # hs)" using lf h(2,3) at block_Cons_fits[OF less.prems(1), of h hs] by (auto simp: line_fits_def line_cap_def)
    then show ?thesis using d hs(1) by (intro exI[of _ "h # hs"] exI[of _ r]) simp
  qed
qed

subsection \<open>Whole requests\<close>

definition enc_request :: "bytes \<Rightarrow> bytes \<Rightarrow> bytes \<Rightarrow> header list \<Rightarrow> bytes \<Rightarrow> bytes" where
  "enc_request meth path vers hs body = start_line meth path vers @ 13 # 10 # concat (map enc_header hs) @ 13 # 10 # body"

definition field_ok :: "nat \<Rightarrow> header \<Rightarrow> bool" where
  \<comment> \<open>a field line of a request whose body has that length\<close>
  "field_ok n h \<longleftrightarrow> fst h \<noteq> [] \<and> list_all is_token_octet (fst h) \<and> list_all (plain PHASE_HEADERS) (snd h) \<and> length (hdr_line h) \<le> 512
     \<and> \<not> name_is (fst h) ''transfer-encoding''
     \<and> (is_length h \<longrightarrow> digits (trim_ows (snd h)) \<and> dec (trim_ows (snd h)) = n)"

definition request_ok :: "(nat \<Rightarrow> bool) \<Rightarrow> bytes \<Rightarrow> bytes \<Rightarrow> bytes \<Rightarrow> header list \<Rightarrow> bytes \<Rightarrow> bool" where
  "request_ok alloc meth path vers hs body \<longleftrightarrow> start_fine meth path vers
     \<and> list_all (plain PHASE_REQUEST_LINE) meth \<and> list_all (plain PHASE_REQUEST_LINE) path \<and> length (start_line meth path vers) \<le> 1024
     \<and> list_all (field_ok (length body)) hs \<and> length hs \<le> 32 \<and> length (concat (map enc_header hs)) + 2 \<le> 4096
     \<and> length body \<le> 65536 \<and> (body \<noteq> [] \<longrightarrow> list_ex is_length hs \<and> alloc (length body))"

definition declared :: "header list \<Rightarrow> nat \<Rightarrow> bool" where
  "declared hs n \<longleftrightarrow> (\<forall>h \<in> set hs. is_length h \<longrightarrow> dec (trim_ows (snd h)) = n)"

lemma hs_fine_iff:
  "hs_fine r hs \<longleftrightarrow> list_all base_fine hs \<and> (\<exists>n. (rq_have_content_length r \<longrightarrow> rq_content_length r = n) \<and> declared hs n)"
proof (induction hs arbitrary: r)
  case (Cons h hs)
  show ?case unfolding hs_fine.simps Cons.IH
    by (auto simp: hdr_fine_def hdr_req_def declared_def split: if_splits)
qed (auto simp: declared_def)

lemma fold_hdr_req:
  "declared hs n \<Longrightarrow> fold hdr_req hs r = (if list_ex is_length hs then r\<lparr>rq_have_content_length := True, rq_content_length := n\<rparr> else r)"
  by (induction hs arbitrary: r) (auto simp: declared_def hdr_req_def)

definition after_line :: "bytes \<Rightarrow> bytes \<Rightarrow> http_parser" where
  "after_line meth path = cloak_http_parser_init\<lparr>hp_req := (hp_req cloak_http_parser_init)\<lparr>rq_method := method_of meth, rq_path := path\<rparr>,
     hp_phase := PHASE_HEADERS\<rparr>"

lemma after_line_simps:
  "in_block (after_line meth path)" "hp_header_count (after_line meth path) = 0" "hp_header_block_len (after_line meth path) = 0"
  "\<not> rq_have_content_length (hp_req (after_line meth path))" "rq_content_length (hp_req (after_line meth path)) = 0"
  by (simp_all add: after_line_def cloak_http_parser_init_def in_block_def at_line_def)

lemma block_fits_ok:
  "block_fits (after_line meth path) hs \<and> declared hs n \<and> n \<le> 65536 \<longleftrightarrow>
     list_all (field_ok n) hs \<and> n \<le> 65536 \<and> length hs \<le> 32 \<and> length (concat (map enc_header hs)) + 2 \<le> 4096"
  by (auto simp: block_fits_def hs_fine_iff after_line_simps field_ok_def base_fine_def declared_def list_all_iff)

lemma finish_headers_run:
  assumes p: "in_block p" "hp_header_block_len p + 2 \<le> 4096" "rq_content_length (hp_req p) \<le> 65536"
  defines "n \<equiv> (if rq_have_content_length (hp_req p) then rq_content_length (hp_req p) else 0)"
  shows "hp_state (fst (feed_loop alloc p (13 # 10 # rest))) = CLOAK_HTTP_DONE \<longleftrightarrow> n \<le> length rest \<and> (0 < n \<longrightarrow> alloc n)"
    and "n \<le> length rest \<Longrightarrow> 0 < n \<longrightarrow> alloc n \<Longrightarrow> snd (feed_loop alloc p (13 # 10 # rest)) = 2 + n
      \<and> rq_method (hp_req (fst (feed_loop alloc p (13 # 10 # rest)))) = rq_method (hp_req p)
      \<and> rq_path (hp_req (fst (feed_loop alloc p (13 # 10 # rest)))) = rq_path (hp_req p)
      \<and> rq_body (hp_req (fst (feed_loop alloc p (13 # 10 # rest)))) = (if n = 0 then None else Some (take n rest))"
proof -
  have at: "at_line p" "hp_phase p = PHASE_HEADERS" "hp_line p = []" "hp_state p = CLOAK_HTTP_INCOMPLETE" using p(1) by (auto simp: in_block_def at_line_def)
  have "finish_line alloc (charge 2 p) = finish_headers alloc (charge 2 p)"
    using at pending_clear by (cases p) (simp add: finish_line_def finish_header_line_def charge_def)
  then have run: "feed_loop alloc p (13 # 10 # rest) =
     (let q = finish_headers alloc (charge 2 p) in
      if hp_state q \<noteq> CLOAK_HTTP_INCOMPLETE then (q, 2) else (fst (feed_loop alloc q rest), snd (feed_loop alloc q rest) + 2))"
    using feed_crlf[OF at(1)] p(2) by simp
  let ?F = "feed_loop alloc p (13 # 10 # rest)"
  have "(hp_state (fst ?F) = CLOAK_HTTP_DONE \<longleftrightarrow> n \<le> length rest \<and> (0 < n \<longrightarrow> alloc n)) \<and> (n \<le> length rest \<longrightarrow> (0 < n \<longrightarrow> alloc n) \<longrightarrow>
     snd ?F = 2 + n \<and> rq_method (hp_req (fst ?F)) = rq_method (hp_req p) \<and> rq_path (hp_req (fst ?F)) = rq_path (hp_req p)
      \<and> rq_body (hp_req (fst ?F)) = (if n = 0 then None else Some (take n rest)))"
  proof (cases "n = 0")
    case True
    then show ?thesis using run by (simp add: finish_headers_def n_def split: if_splits)
  next
    case False
    then have c: "rq_have_content_length (hp_req p)" "n = rq_content_length (hp_req p)" by (auto simp: n_def split: if_splits)
    show ?thesis
    proof (cases "alloc n")
      case no: False
      then show ?thesis using run c False by (simp add: finish_headers_def)
    next
      case True
      let ?q = "(charge 2 p)\<lparr>hp_body_cap := n, hp_body_buf := [], hp_phase := PHASE_BODY\<rparr>"
      have q: "finish_headers alloc (charge 2 p) = ?q" using c True False by (simp add: finish_headers_def)
      have cl: "rq_content_length (hp_req ?q) = length (hp_body_buf ?q) + n" using c by simp
      have fl: "feed_loop alloc ?q rest = (if rest = [] then (?q, 0) else feed_body ?q rest)" by (cases rest) (simp_all add: feed_loop.simps(2))
      show ?thesis using run q fl at(4) False True feed_body_done[OF cl, of rest] feed_body_more[OF cl, of rest]
        by (cases "n \<le> length rest") (auto simp: Let_def)
    qed
  qed
  then show "hp_state (fst ?F) = CLOAK_HTTP_DONE \<longleftrightarrow> n \<le> length rest \<and> (0 < n \<longrightarrow> alloc n)"
    and "n \<le> length rest \<Longrightarrow> 0 < n \<longrightarrow> alloc n \<Longrightarrow> snd ?F = 2 + n \<and> rq_method (hp_req (fst ?F)) = rq_method (hp_req p)
      \<and> rq_path (hp_req (fst ?F)) = rq_path (hp_req p) \<and> rq_body (hp_req (fst ?F)) = (if n = 0 then None else Some (take n rest))"
    by blast+
qed

lemma feed_start_line:
  assumes "start_fine meth path vers" "line_fits cloak_http_parser_init (start_line meth path vers)"
  shows "feed_loop alloc cloak_http_parser_init (start_line meth path vers @ 13 # 10 # rest)
     = (fst (feed_loop alloc (after_line meth path) rest), snd (feed_loop alloc (after_line meth path) rest) + length (start_line meth path vers) + 2)"
proof -
  let ?l = "start_line meth path vers" and ?i = cloak_http_parser_init
  have i: "at_line ?i" "hp_phase ?i = PHASE_REQUEST_LINE" "hp_line ?i = []" by (simp_all add: cloak_http_parser_init_def at_line_def)
  have "finish_line alloc (charge (length ?l + 2) (?i\<lparr>hp_line := hp_line ?i @ ?l\<rparr>)) = after_line meth path"
    using finish_request_line_fine[OF assms(1), of "?i\<lparr>hp_line := ?l\<rparr>"]
    by (simp add: i finish_line_def charge_def after_line_def)
  then show ?thesis using feed_line[OF i(1) assms(2), of alloc rest] after_line_simps(1)[of meth path]
    by (simp add: Let_def in_block_def at_line_def)
qed

lemma after_line_ok:
  assumes "start_fine meth path vers" "line_fits cloak_http_parser_init (start_line meth path vers)"
  shows "http_ok (after_line meth path)"
  using feed_loop_ok[OF init_ok, of alloc "start_line meth path vers @ [13, 10]"] feed_start_line[OF assms, of alloc "[]"]
  by (simp add: cloak_http_parser_init_def)

lemma start_line_fits:
  "start_fine meth path vers \<Longrightarrow> line_fits cloak_http_parser_init (start_line meth path vers) \<longleftrightarrow>
     list_all (plain PHASE_REQUEST_LINE) meth \<and> list_all (plain PHASE_REQUEST_LINE) path \<and> length (start_line meth path vers) \<le> 1024"
  by (auto simp: line_fits_def cloak_http_parser_init_def start_line_def start_fine_def line_cap_def plain_def lit_def)

lemma block_length:
  assumes "declared hs n" "n = 0 \<or> list_ex is_length hs"
  shows "(let r = hp_req (block_state (after_line meth path) hs) in (if rq_have_content_length r then rq_content_length r else 0) = n
      \<and> rq_content_length r \<le> n \<and> rq_method r = method_of meth \<and> rq_path r = path)"
  using assms by (simp add: block_state_def fold_hdr_req[OF assms(1)] after_line_simps Let_def) (auto simp: after_line_def)

lemma request_parsed:
  assumes "request_ok alloc meth path vers hs body"
  shows "\<exists>p. cloak_http_parser_feed alloc cloak_http_parser_init (enc_request meth path vers hs body @ rest)
       = (p, length (enc_request meth path vers hs body))
     \<and> hp_state p = CLOAK_HTTP_DONE \<and> rq_method (hp_req p) = method_of meth \<and> rq_path (hp_req p) = path
     \<and> rq_body (hp_req p) = (if body = [] then None else Some body)"
proof -
  let ?a = "after_line meth path" and ?n = "length body"
  let ?b = "block_state ?a hs"
  have s: "start_fine meth path vers" "line_fits cloak_http_parser_init (start_line meth path vers)"
    using assms start_line_fits by (auto simp: request_ok_def)
  have b: "block_fits ?a hs" "declared hs ?n" using assms block_fits_ok[of meth path hs ?n] by (auto simp: request_ok_def)
  have len: "(if rq_have_content_length (hp_req ?b) then rq_content_length (hp_req ?b) else 0) = ?n" "rq_content_length (hp_req ?b) \<le> 65536"
    "rq_method (hp_req ?b) = method_of meth" "rq_path (hp_req ?b) = path"
    using block_length[OF b(2), of meth path] assms by (auto simp: request_ok_def Let_def)
  note fb = feed_block[OF after_line_simps(1) b(1), of alloc "13 # 10 # body @ rest"]
  have ib: "in_block ?b" "hp_header_block_len ?b + 2 \<le> 4096" using fb b(1) by (auto simp: block_fits_def block_state_def after_line_simps)
  have al: "0 < ?n \<longrightarrow> alloc ?n" using assms by (auto simp: request_ok_def)
  note fin = finish_headers_run[OF ib len(2), where rest = "body @ rest" and alloc = alloc, unfolded len(1)]
  have e: "enc_request meth path vers hs body @ rest = start_line meth path vers @ 13 # 10 # concat (map enc_header hs) @ 13 # 10 # body @ rest"
    by (simp add: enc_request_def)
  have "feed_loop alloc cloak_http_parser_init (enc_request meth path vers hs body @ rest)
      = (fst (feed_loop alloc ?b (13 # 10 # body @ rest)), length (enc_request meth path vers hs body))"
    using feed_start_line[OF s, of alloc "concat (map enc_header hs) @ 13 # 10 # body @ rest"] fb fin(2) al
    unfolding e by (simp add: enc_request_def)
  moreover have "hp_state cloak_http_parser_init = CLOAK_HTTP_INCOMPLETE" by (simp add: cloak_http_parser_init_def)
  ultimately show ?thesis using fin al len by (simp add: cloak_http_parser_feed_def)
qed

lemma parsed_request:
  assumes "hp_state (fst (cloak_http_parser_feed alloc cloak_http_parser_init data)) = CLOAK_HTTP_DONE"
  shows "\<exists>meth path vers hs body rest. data = enc_request meth path vers hs body @ rest \<and> request_ok alloc meth path vers hs body"
proof -
  let ?i = cloak_http_parser_init
  have i: "at_line ?i" "hp_phase ?i = PHASE_REQUEST_LINE" "hp_line ?i = []" by (simp_all add: cloak_http_parser_init_def at_line_def)
  have d: "hp_state (fst (feed_loop alloc ?i data)) = CLOAK_HTTP_DONE" using assms i(1) by (simp add: cloak_http_parser_feed_def at_line_def)
  obtain l r where l: "data = l @ 13 # 10 # r" "line_fits ?i l" using feed_line_inv[OF i(1) init_ok d] by blast
  let ?q = "?i\<lparr>hp_line := l\<rparr>"
  have "finish_line alloc (charge (length l + 2) (?i\<lparr>hp_line := hp_line ?i @ l\<rparr>)) = finish_request_line ?q"
    by (simp add: i finish_line_def charge_def)
  then have run: "feed_loop alloc ?i data = (if hp_state (finish_request_line ?q) \<noteq> CLOAK_HTTP_INCOMPLETE then (finish_request_line ?q, length l + 2)
      else (fst (feed_loop alloc (finish_request_line ?q) r), snd (feed_loop alloc (finish_request_line ?q) r) + length l + 2))"
    using feed_line[OF i(1) l(2), of alloc r] l(1) by (simp add: Let_def)
  have "hp_state (finish_request_line ?q) \<noteq> CLOAK_HTTP_DONE" using i(1) by (simp add: finish_request_line_def Let_def at_line_def)
  then have "hp_state (finish_request_line ?q) = CLOAK_HTTP_INCOMPLETE" using run d by (cases "hp_state (finish_request_line ?q)") auto
  then obtain meth path vers where s: "l = start_line meth path vers" "start_fine meth path vers" using finish_request_line_inv[of ?q] by auto
  have lf: "line_fits ?i (start_line meth path vers)" using l(2) s(1) by simp
  let ?a = "after_line meth path"
  have d2: "hp_state (fst (feed_loop alloc ?a r)) = CLOAK_HTTP_DONE" using feed_start_line[OF s(2) lf, of alloc r] d l(1) s(1) by simp
  obtain hs r2 where h: "r = concat (map enc_header hs) @ 13 # 10 # r2" "block_fits ?a hs"
    using feed_block_inv[OF after_line_simps(1) after_line_ok[OF s(2) lf] d2] by blast
  obtain n0 where "declared hs n0" using h(2) by (auto simp: block_fits_def hs_fine_iff)
  then obtain n where n: "declared hs n" "n = 0 \<or> list_ex is_length hs"
    by (cases "list_ex is_length hs") (auto simp: declared_def list_ex_iff)
  have n64: "n \<le> 65536" using n h(2) by (auto simp: block_fits_def hs_fine_iff base_fine_def declared_def list_all_iff list_ex_iff)
  let ?b = "block_state ?a hs"
  have len: "(if rq_have_content_length (hp_req ?b) then rq_content_length (hp_req ?b) else 0) = n" "rq_content_length (hp_req ?b) \<le> 65536"
    using block_length[OF n, of meth path] n64 by (auto simp: Let_def)
  note fb = feed_block[OF after_line_simps(1) h(2), of alloc "13 # 10 # r2"]
  have ib: "in_block ?b" "hp_header_block_len ?b + 2 \<le> 4096" using fb h(2) by (auto simp: block_fits_def block_state_def after_line_simps)
  have b: "n \<le> length r2" "0 < n \<longrightarrow> alloc n"
    using finish_headers_run(1)[OF ib len(2), where rest = r2 and alloc = alloc, unfolded len(1)] fb d2 h(1) by auto
  have "request_ok alloc meth path vers hs (take n r2)"
    using s(2) start_line_fits[OF s(2)] lf block_fits_ok[of meth path hs n] h(2) n n64 b by (auto simp: request_ok_def)
  moreover have "data = enc_request meth path vers hs (take n r2) @ drop n r2" using l(1) s(1) h(1) by (simp add: enc_request_def)
  ultimately show ?thesis by blast
qed

text \<open>
  C18: the parser accepts exactly the well-formed requests, and where one ends is never in doubt. A feed finishes if and only if the bytes start with
  a start line, at most 32 field lines within the caps, none of them a transfer coding and every declared length the same decimal number, a blank line and a body of exactly
  that length; it then has consumed exactly these bytes, whatever follows, and reports their method, path and body.
\<close>

theorem http_request_exact:
  "(hp_state (fst (cloak_http_parser_feed alloc cloak_http_parser_init data)) = CLOAK_HTTP_DONE \<longleftrightarrow>
      (\<exists>meth path vers hs body rest. data = enc_request meth path vers hs body @ rest \<and> request_ok alloc meth path vers hs body))
   \<and> (request_ok alloc meth path vers hs body \<longrightarrow>
      (\<exists>p. cloak_http_parser_feed alloc cloak_http_parser_init (enc_request meth path vers hs body @ rest)
           = (p, length (enc_request meth path vers hs body))
         \<and> hp_state p = CLOAK_HTTP_DONE \<and> rq_method (hp_req p) = method_of meth \<and> rq_path (hp_req p) = path
         \<and> rq_body (hp_req p) = (if body = [] then None else Some body)))"
proof (intro conjI impI iffI)
  assume "\<exists>meth path vers hs body rest. data = enc_request meth path vers hs body @ rest \<and> request_ok alloc meth path vers hs body"
  then obtain m q v fs b r where d: "data = enc_request m q v fs b @ r" and ok: "request_ok alloc m q v fs b" by blast
  show "hp_state (fst (cloak_http_parser_feed alloc cloak_http_parser_init data)) = CLOAK_HTTP_DONE"
    using request_parsed[OF ok, of r] d by auto
qed (use parsed_request request_parsed in blast)+

definition sample_headers :: "header list" where
  "sample_headers = [(lit ''Host'', lit '' x''), (lit ''CONTENT-length'', lit ''  2 '')]"

theorem http_request_exact_witness:
  "\<exists>p. cloak_http_parser_feed (\<lambda>n. True) cloak_http_parser_init (enc_request (lit ''POST'') (lit ''/a'') (lit ''HTTP/1.1'') sample_headers [1, 2] @ [3])
       = (p, length (enc_request (lit ''POST'') (lit ''/a'') (lit ''HTTP/1.1'') sample_headers [1, 2]))
     \<and> rq_method (hp_req p) = CLOAK_HTTP_METHOD_POST \<and> rq_body (hp_req p) = Some [1, 2]"
proof -
  have "request_ok (\<lambda>n. True) (lit ''POST'') (lit ''/a'') (lit ''HTTP/1.1'') sample_headers [1, 2]"
    by (simp add: request_ok_def start_fine_def start_line_def field_ok_def hdr_line_def sample_headers_def enc_header_def is_length_def name_is_def
        digits_def dec_from_def plain_def is_token_octet_def lit_def ascii_lower_def trim_ows_def is_ows_def)
  moreover have "method_of (lit ''POST'') = CLOAK_HTTP_METHOD_POST" by (simp add: method_of_def lit_def)
  ultimately show ?thesis
    using http_request_exact[of "\<lambda>n. True" "[]" "lit ''POST''" "lit ''/a''" "lit ''HTTP/1.1''" sample_headers "[1, 2]" "[3]"] by auto
qed

end
