(* ===== verification/UserManager.thy ===== *)
theory UserManager
  imports CloakPrelude
begin

text \<open>
  \<open>libcloak-server/src/usermanager.c\<close>: the user database. SQLite is not part of the repository's code: the prepared statements the manager
  runs are a record of operations on a connection state, each binding its parameters and stepping once, and each allowed to fail.
  \<open>sqlite_sound\<close> states the documented behaviour the manager relies on. \<open>int64_t\<close> quantities are integers, the clock reading is an argument, and
  opening and closing the database file are not modelled.
\<close>

section \<open>The database interface\<close>

record user_row =
  ur_sessions_cap :: int
  ur_up_rate :: int
  ur_down_rate :: int
  ur_up_credit :: int
  ur_down_credit :: int
  ur_expiry_time :: int

type_synonym users = "bytes \<Rightarrow> user_row option"

datatype step_rc = SQLITE_ROW user_row | SQLITE_DONE | SQLITE_FAILED

record 'd sqlite =
  sq_get :: "'d \<Rightarrow> bytes \<Rightarrow> step_rc \<times> 'd"
  sq_list :: "'d \<Rightarrow> (bytes \<times> user_row) list \<times> bool \<times> 'd"
  sq_write :: "'d \<Rightarrow> bytes \<Rightarrow> int option list \<Rightarrow> bool \<times> 'd"
  sq_meter :: "'d \<Rightarrow> bytes \<Rightarrow> int \<Rightarrow> int \<Rightarrow> bool \<times> 'd"
  sq_delete :: "'d \<Rightarrow> bytes \<Rightarrow> bool \<times> nat \<times> 'd"
  sq_begin :: "'d \<Rightarrow> bool \<times> 'd"
  sq_commit :: "'d \<Rightarrow> bool \<times> 'd"
  sq_rollback :: "'d \<Rightarrow> bool \<times> 'd"
  sq_autocommit :: "'d \<Rightarrow> bool"

section \<open>The manager\<close>

datatype user_err =
    CLOAK_USER_OK
  | CLOAK_USER_ERR_VOID
  | CLOAK_USER_ERR_NOT_FOUND
  | CLOAK_USER_ERR_NO_UP_CREDIT
  | CLOAK_USER_ERR_NO_DOWN_CREDIT
  | CLOAK_USER_ERR_EXPIRED
  | CLOAK_USER_ERR_SESSIONS_CAP
  | CLOAK_USER_ERR_ARG
  | CLOAK_USER_ERR_DB
  | CLOAK_USER_ERR_WEDGED

datatype terminate_reason =
    CLOAK_USER_TERMINATE_NO_SUCH_USER
  | CLOAK_USER_TERMINATE_NO_UP_CREDIT
  | CLOAK_USER_TERMINATE_NO_DOWN_CREDIT
  | CLOAK_USER_TERMINATE_EXPIRED

record user_status =
  us_uid :: bytes
  us_active :: bool
  us_num_session :: int
  us_up_usage :: int
  us_down_usage :: int
  us_timestamp :: int

definition um_run :: "bool \<Rightarrow> user_err" where
  \<comment> \<open>the code of a statement that is stepped once and must be done\<close>
  "um_run ok = (if ok then CLOAK_USER_OK else CLOAK_USER_ERR_DB)"

definition um_load :: "'d sqlite \<Rightarrow> 'd \<Rightarrow> bytes \<Rightarrow> (user_err + user_row) \<times> 'd" where
  "um_load q d uid =
     (case sq_get q d uid of
        (SQLITE_ROW r, d1) \<Rightarrow> (Inr r, d1)
      | (SQLITE_DONE, d1) \<Rightarrow> (Inl CLOAK_USER_ERR_NOT_FOUND, d1)
      | (SQLITE_FAILED, d1) \<Rightarrow> (Inl CLOAK_USER_ERR_DB, d1))"

definition um_sub_nonneg_sat :: "int \<Rightarrow> int \<Rightarrow> int" where
  "um_sub_nonneg_sat credit usage = (if credit < INT64_MIN + usage then INT64_MIN else credit - usage)"

definition um_clamp_usage :: "int \<Rightarrow> int" where
  "um_clamp_usage usage = (if usage < 0 then 0 else usage)"

definition um_check_gates :: "user_row \<Rightarrow> int \<Rightarrow> user_err" where
  "um_check_gates u now =
     (if ur_up_credit u \<le> 0 then CLOAK_USER_ERR_NO_UP_CREDIT
      else if ur_down_credit u \<le> 0 then CLOAK_USER_ERR_NO_DOWN_CREDIT
      else if ur_expiry_time u < now then CLOAK_USER_ERR_EXPIRED
      else CLOAK_USER_OK)"

definition cloak_usermanager_authenticate :: "'d sqlite option \<Rightarrow> 'd \<Rightarrow> bytes \<Rightarrow> int \<Rightarrow> (user_err + int \<times> int) \<times> 'd" where
  \<comment> \<open>a manager opened without a database has no statements; the answer is the two rates\<close>
  "cloak_usermanager_authenticate m d uid now =
     (case m of
        None \<Rightarrow> (Inl CLOAK_USER_ERR_VOID, d)
      | Some q \<Rightarrow>
          (case um_load q d uid of
             (Inl e, d1) \<Rightarrow> (Inl e, d1)
           | (Inr u, d1) \<Rightarrow>
               (case um_check_gates u now of
                  CLOAK_USER_OK \<Rightarrow> (Inr (ur_up_rate u, ur_down_rate u), d1)
                | e \<Rightarrow> (Inl e, d1))))"

definition cloak_usermanager_authorise_new_session :: "'d sqlite option \<Rightarrow> 'd \<Rightarrow> bytes \<Rightarrow> int \<Rightarrow> int \<Rightarrow> user_err \<times> 'd" where
  "cloak_usermanager_authorise_new_session m d uid num_existing_sessions now =
     (case m of
        None \<Rightarrow> (CLOAK_USER_ERR_VOID, d)
      | Some q \<Rightarrow>
          (case um_load q d uid of
             (Inl e, d1) \<Rightarrow> (e, d1)
           | (Inr u, d1) \<Rightarrow>
               (case um_check_gates u now of
                  CLOAK_USER_OK \<Rightarrow>
                    (if num_existing_sessions \<ge> ur_sessions_cap u then CLOAK_USER_ERR_SESSIONS_CAP else CLOAK_USER_OK, d1)
                | e \<Rightarrow> (e, d1))))"

definition um_reason :: "int \<Rightarrow> int \<Rightarrow> int \<Rightarrow> int \<Rightarrow> terminate_reason option" where
  \<comment> \<open>the three tests in their order: the last one that holds is the one reported\<close>
  "um_reason new_up new_down now expiry =
     (let r1 = (if new_up \<le> 0 then Some CLOAK_USER_TERMINATE_NO_UP_CREDIT else None);
          r2 = (if new_down \<le> 0 then Some CLOAK_USER_TERMINATE_NO_DOWN_CREDIT else r1)
      in if now > expiry then Some CLOAK_USER_TERMINATE_EXPIRED else r2)"

fun upload_loop ::
  "'d sqlite \<Rightarrow> (nat \<Rightarrow> int) \<Rightarrow> 'd \<Rightarrow> user_status list \<Rightarrow> (user_err + (bytes \<times> terminate_reason) list) \<times> 'd" where
  \<comment> \<open>the updates of one batch; the clock may be read once for each of those left\<close>
  "upload_loop q clock d [] = (Inr [], d)"
| "upload_loop q clock d (s # ss) =
     (case um_load q d (us_uid s) of
        (Inl e, d1) \<Rightarrow>
          if e = CLOAK_USER_ERR_NOT_FOUND then
            (case upload_loop q clock d1 ss of
               (Inl e2, d2) \<Rightarrow> (Inl e2, d2)
             | (Inr ts, d2) \<Rightarrow> (Inr ((us_uid s, CLOAK_USER_TERMINATE_NO_SUCH_USER) # ts), d2))
          else (Inl e, d1)
      | (Inr u, d1) \<Rightarrow>
          let new_up = um_sub_nonneg_sat (ur_up_credit u) (um_clamp_usage (us_up_usage s));
              new_down = um_sub_nonneg_sat (ur_down_credit u) (um_clamp_usage (us_down_usage s))
          in
          (case sq_meter q d1 (us_uid s) new_up new_down of
             (ok, d2) \<Rightarrow>
               if \<not> ok then (Inl (um_run ok), d2)
               else
                 (case upload_loop q clock d2 ss of
                    (Inl e2, d3) \<Rightarrow> (Inl e2, d3)
                  | (Inr ts, d3) \<Rightarrow>
                      (case um_reason new_up new_down (clock (length ss)) (ur_expiry_time u) of
                         None \<Rightarrow> (Inr ts, d3)
                       | Some r \<Rightarrow> (Inr ((us_uid s, r) # ts), d3)))))"

definition upload_fail :: "'d sqlite \<Rightarrow> 'd \<Rightarrow> 'd" where
  \<comment> \<open>the \<open>fail\<close> label\<close>
  "upload_fail q d = snd (sq_rollback q d)"

definition cloak_usermanager_upload_status ::
  "'d sqlite option \<Rightarrow> (nat \<Rightarrow> int) \<Rightarrow> 'd \<Rightarrow> user_status list \<Rightarrow> nat \<Rightarrow> (user_err + (bytes \<times> terminate_reason) list \<times> nat) \<times> 'd" where
  \<comment> \<open>the entries written to the caller's array of that capacity, and how many there were\<close>
  "cloak_usermanager_upload_status m clock d updates out_cap =
     (case m of
        None \<Rightarrow> (Inl CLOAK_USER_ERR_VOID, d)
      | Some q \<Rightarrow>
          let d0 = (if \<not> sq_autocommit q d then snd (sq_rollback q d) else d) in
          if \<not> sq_autocommit q d0 then (Inl CLOAK_USER_ERR_WEDGED, d0)
          else if updates = [] then (Inr ([], 0), d0)
          else
            (case sq_begin q d0 of
               (ok, d1) \<Rightarrow>
                 if \<not> ok then (Inl (um_run ok), d1)
                 else
                   (case upload_loop q clock d1 updates of
                      (Inl e, d2) \<Rightarrow> (Inl e, upload_fail q d2)
                    | (Inr ts, d2) \<Rightarrow>
                        (case sq_commit q d2 of
                           (ok2, d3) \<Rightarrow>
                             if \<not> ok2 then (Inl (um_run ok2), upload_fail q d3)
                             else (Inr (take out_cap ts, length ts), d3)))))"

definition cloak_usermanager_list ::
  "'d sqlite option \<Rightarrow> 'd \<Rightarrow> nat \<Rightarrow> (user_err + (bytes \<times> user_row) list \<times> nat) \<times> 'd" where
  "cloak_usermanager_list m d out_cap =
     (case m of
        None \<Rightarrow> (Inl CLOAK_USER_ERR_VOID, d)
      | Some q \<Rightarrow>
          (case sq_list q d of
             (rows, ok, d1) \<Rightarrow>
               if \<not> ok then (Inl CLOAK_USER_ERR_DB, d1)
               else let good = filter (\<lambda>(uid, r). length uid = 16) rows in (Inr (take out_cap good, length good), d1)))"

definition cloak_usermanager_get :: "'d sqlite option \<Rightarrow> 'd \<Rightarrow> bytes \<Rightarrow> (user_err + user_row) \<times> 'd" where
  "cloak_usermanager_get m d uid = (case m of None \<Rightarrow> (Inl CLOAK_USER_ERR_VOID, d) | Some q \<Rightarrow> um_load q d uid)"

definition CLOAK_USER_FIELD_ALL :: u32 where "CLOAK_USER_FIELD_ALL = 0x3f"

definition write_fields :: "user_row \<Rightarrow> u32 \<Rightarrow> int option list" where
  \<comment> \<open>the parameters 2 to 7 of the write statement, NULL for a field that is not selected\<close>
  "write_fields info sel =
     map (\<lambda>(k, v). if bit sel k then Some v else None)
       [(0, ur_sessions_cap info), (1, ur_up_rate info), (2, ur_down_rate info), (3, ur_up_credit info), (4, ur_down_credit info), (5, ur_expiry_time info)]"

definition cloak_usermanager_write :: "'d sqlite option \<Rightarrow> 'd \<Rightarrow> bytes \<Rightarrow> user_row \<Rightarrow> u32 \<Rightarrow> user_err \<times> 'd" where
  "cloak_usermanager_write m d uid info sel =
     (case m of
        None \<Rightarrow> (CLOAK_USER_ERR_VOID, d)
      | Some q \<Rightarrow>
          if sel AND NOT CLOAK_USER_FIELD_ALL \<noteq> 0 then (CLOAK_USER_ERR_ARG, d)
          else (case sq_write q d uid (write_fields info sel) of (ok, d1) \<Rightarrow> (um_run ok, d1)))"

definition cloak_usermanager_delete :: "'d sqlite option \<Rightarrow> 'd \<Rightarrow> bytes \<Rightarrow> user_err \<times> 'd" where
  "cloak_usermanager_delete m d uid =
     (case m of
        None \<Rightarrow> (CLOAK_USER_ERR_VOID, d)
      | Some q \<Rightarrow>
          (case sq_delete q d uid of
             (ok, changed, d1) \<Rightarrow>
               if \<not> ok then (CLOAK_USER_ERR_DB, d1)
               else if changed = 0 then (CLOAK_USER_ERR_NOT_FOUND, d1)
               else (CLOAK_USER_OK, d1)))"

section \<open>What the manager relies on\<close>

definition committed :: "'d sqlite \<Rightarrow> ('d \<Rightarrow> users) \<Rightarrow> ('d \<Rightarrow> users) \<Rightarrow> 'd \<Rightarrow> users" where
  \<comment> \<open>the rows that survive: those before the open transaction, if there is one\<close>
  "committed q tbl base d = (if sq_autocommit q d then tbl d else base d)"

definition kept :: "'d sqlite \<Rightarrow> ('d \<Rightarrow> users) \<Rightarrow> ('d \<Rightarrow> users) \<Rightarrow> 'd \<Rightarrow> 'd \<Rightarrow> bool" where
  "kept q tbl base d d' \<longleftrightarrow> tbl d' = tbl d \<and> base d' = base d \<and> sq_autocommit q d' = sq_autocommit q d"

definition undone :: "'d sqlite \<Rightarrow> ('d \<Rightarrow> users) \<Rightarrow> ('d \<Rightarrow> users) \<Rightarrow> 'd \<Rightarrow> 'd \<Rightarrow> bool" where
  "undone q tbl base d d' \<longleftrightarrow> sq_autocommit q d' \<and> tbl d' = committed q tbl base d"

definition with_credits :: "int \<Rightarrow> int \<Rightarrow> user_row \<Rightarrow> user_row" where
  "with_credits up down r = r\<lparr>ur_up_credit := up, ur_down_credit := down\<rparr>"

definition sqlite_sound :: "'d sqlite \<Rightarrow> ('d \<Rightarrow> users) \<Rightarrow> ('d \<Rightarrow> users) \<Rightarrow> bool" where
  \<comment> \<open>rows visible on the connection, rows before its open transaction; a failing statement has no effect of its own, but some failures
      roll the open transaction back\<close>
  "sqlite_sound q tbl base \<longleftrightarrow>
     (\<forall>d uid d'. (\<forall>r. sq_get q d uid = (SQLITE_ROW r, d') \<longrightarrow> tbl d uid = Some r \<and> kept q tbl base d d')
        \<and> (sq_get q d uid = (SQLITE_DONE, d') \<longrightarrow> tbl d uid = None \<and> kept q tbl base d d')
        \<and> (sq_get q d uid = (SQLITE_FAILED, d') \<longrightarrow> kept q tbl base d d' \<or> undone q tbl base d d'))
   \<and> (\<forall>d uid up down d'. (sq_meter q d uid up down = (True, d') \<longrightarrow> tbl d' = (tbl d)(uid := map_option (with_credits up down) (tbl d uid))
          \<and> base d' = base d \<and> sq_autocommit q d' = sq_autocommit q d)
        \<and> (sq_meter q d uid up down = (False, d') \<longrightarrow> kept q tbl base d d' \<or> undone q tbl base d d'))
   \<and> (\<forall>d d'. sq_autocommit q d \<longrightarrow> (sq_begin q d = (True, d') \<longrightarrow> tbl d' = tbl d \<and> base d' = tbl d \<and> \<not> sq_autocommit q d')
        \<and> (sq_begin q d = (False, d') \<longrightarrow> kept q tbl base d d'))
   \<and> (\<forall>d d'. \<not> sq_autocommit q d \<longrightarrow> (sq_commit q d = (True, d') \<longrightarrow> tbl d' = tbl d \<and> sq_autocommit q d')
        \<and> (sq_commit q d = (False, d') \<longrightarrow> kept q tbl base d d' \<or> undone q tbl base d d'))
   \<and> (\<forall>d ok d'. sq_rollback q d = (ok, d') \<longrightarrow> kept q tbl base d d' \<or> undone q tbl base d d')"

lemma soundD:
  assumes "sqlite_sound q tbl base"
  shows get_row: "sq_get q d uid = (SQLITE_ROW r, d') \<Longrightarrow> tbl d uid = Some r \<and> kept q tbl base d d'"
    and get_done: "sq_get q d uid = (SQLITE_DONE, d') \<Longrightarrow> tbl d uid = None \<and> kept q tbl base d d'"
    and get_failed: "sq_get q d uid = (SQLITE_FAILED, d') \<Longrightarrow> kept q tbl base d d' \<or> undone q tbl base d d'"
    and meter_ok: "sq_meter q d uid up down = (True, d') \<Longrightarrow> tbl d' = (tbl d)(uid := map_option (with_credits up down) (tbl d uid))
          \<and> base d' = base d \<and> sq_autocommit q d' = sq_autocommit q d"
    and meter_failed: "sq_meter q d uid up down = (False, d') \<Longrightarrow> kept q tbl base d d' \<or> undone q tbl base d d'"
    and begin_ok: "sq_autocommit q d \<Longrightarrow> sq_begin q d = (True, d') \<Longrightarrow> tbl d' = tbl d \<and> base d' = tbl d \<and> \<not> sq_autocommit q d'"
    and begin_failed: "sq_autocommit q d \<Longrightarrow> sq_begin q d = (False, d') \<Longrightarrow> kept q tbl base d d'"
    and commit_ok: "\<not> sq_autocommit q d \<Longrightarrow> sq_commit q d = (True, d') \<Longrightarrow> tbl d' = tbl d \<and> sq_autocommit q d'"
    and commit_failed: "\<not> sq_autocommit q d \<Longrightarrow> sq_commit q d = (False, d') \<Longrightarrow> kept q tbl base d d' \<or> undone q tbl base d d'"
    and rollback_any: "sq_rollback q d = (ok, d') \<Longrightarrow> kept q tbl base d d' \<or> undone q tbl base d d'"
  using assms unfolding sqlite_sound_def by (blast, blast, blast, blast, blast, blast, blast, blast, blast, blast)

lemma committed_same: "kept q tbl base d d' \<or> undone q tbl base d d' \<Longrightarrow> committed q tbl base d' = committed q tbl base d"
  by (auto simp: kept_def undone_def committed_def)

section \<open>A small database\<close>

type_synonym sample_db = "users \<times> users option"

definition sample_sqlite :: "sample_db sqlite" where
  \<comment> \<open>the rows and, inside a transaction, the rows before it\<close>
  "sample_sqlite =
     \<lparr>sq_get = (\<lambda>d uid. case fst d uid of None \<Rightarrow> (SQLITE_DONE, d) | Some r \<Rightarrow> (SQLITE_ROW r, d)),
      sq_list = (\<lambda>d. ([], True, d)),
      sq_write = (\<lambda>d uid ps. (False, d)),
      sq_meter = (\<lambda>d uid up down. (True, ((fst d)(uid := map_option (with_credits up down) (fst d uid)), snd d))),
      sq_delete = (\<lambda>d uid. (True, if fst d uid = None then 0 else 1, ((fst d)(uid := None), snd d))),
      sq_begin = (\<lambda>d. (True, fst d, Some (fst d))),
      sq_commit = (\<lambda>d. (True, fst d, None)),
      sq_rollback = (\<lambda>d. case snd d of None \<Rightarrow> (False, d) | Some b \<Rightarrow> (True, b, None)),
      sq_autocommit = (\<lambda>d. snd d = None)\<rparr>"

definition sample_base :: "sample_db \<Rightarrow> users" where
  "sample_base d = (case snd d of None \<Rightarrow> Map.empty | Some b \<Rightarrow> b)"

definition sample_rows :: users where
  "sample_rows = [[1] \<mapsto> \<lparr>ur_sessions_cap = 2, ur_up_rate = 0, ur_down_rate = 0, ur_up_credit = 100, ur_down_credit = 10, ur_expiry_time = 50\<rparr>]"

definition sample_update :: "bytes \<Rightarrow> int \<Rightarrow> int \<Rightarrow> user_status" where
  "sample_update uid up down = \<lparr>us_uid = uid, us_active = True, us_num_session = 1, us_up_usage = up, us_down_usage = down, us_timestamp = 0\<rparr>"

lemma sample_sound: "sqlite_sound sample_sqlite fst sample_base"
  unfolding sqlite_sound_def by (auto simp: sample_sqlite_def sample_base_def kept_def undone_def committed_def split: option.splits)

lemmas sample_defs = sample_sqlite_def sample_rows_def sample_update_def

section \<open>A batch is charged as a whole or not at all\<close>

definition charge_usage :: "user_status \<Rightarrow> users \<Rightarrow> users" where
  \<comment> \<open>the reference: the user's credits less the usage, if there is such a user\<close>
  "charge_usage s rows = rows(us_uid s := map_option (\<lambda>u. u\<lparr>ur_up_credit := max INT64_MIN (ur_up_credit u - max 0 (us_up_usage s)),
     ur_down_credit := max INT64_MIN (ur_down_credit u - max 0 (us_down_usage s))\<rparr>) (rows (us_uid s)))"

fun doomed :: "(nat \<Rightarrow> int) \<Rightarrow> users \<Rightarrow> user_status list \<Rightarrow> (bytes \<times> terminate_reason) list" where
  \<comment> \<open>who has to go, and why\<close>
  "doomed clock rows [] = []"
| "doomed clock rows (s # ss) =
     (case charge_usage s rows (us_uid s) of
        None \<Rightarrow> [(us_uid s, CLOAK_USER_TERMINATE_NO_SUCH_USER)]
      | Some u \<Rightarrow>
          if ur_expiry_time u < clock (length ss) then [(us_uid s, CLOAK_USER_TERMINATE_EXPIRED)]
          else if ur_down_credit u \<le> 0 then [(us_uid s, CLOAK_USER_TERMINATE_NO_DOWN_CREDIT)]
          else if ur_up_credit u \<le> 0 then [(us_uid s, CLOAK_USER_TERMINATE_NO_UP_CREDIT)]
          else [])
     @ doomed clock (charge_usage s rows) ss"

lemma sub_sat: "um_sub_nonneg_sat c (um_clamp_usage u) = max INT64_MIN (c - max 0 u)"
  by (auto simp: um_sub_nonneg_sat_def um_clamp_usage_def)

lemma upload_loop_charges:
  assumes q: "sqlite_sound q tbl base"
  shows "\<not> sq_autocommit q d \<Longrightarrow>
    (case upload_loop q clock d ss of
       (Inl e, d') \<Rightarrow> committed q tbl base d' = committed q tbl base d \<and> e \<noteq> CLOAK_USER_OK
     | (Inr ts, d') \<Rightarrow> \<not> sq_autocommit q d' \<and> base d' = base d \<and> tbl d' = fold charge_usage ss (tbl d) \<and> ts = doomed clock (tbl d) ss)"
proof (induction ss arbitrary: d)
  case (Cons s ss)
  obtain rc d1 where g: "sq_get q d (us_uid s) = (rc, d1)" by fastforce
  show ?case
  proof (cases rc)
    case (SQLITE_ROW u)
    then have k: "tbl d (us_uid s) = Some u" "kept q tbl base d d1" using get_row[OF q] g by auto
    let ?up = "um_sub_nonneg_sat (ur_up_credit u) (um_clamp_usage (us_up_usage s))"
    let ?down = "um_sub_nonneg_sat (ur_down_credit u) (um_clamp_usage (us_down_usage s))"
    obtain ok d2 where m: "sq_meter q d1 (us_uid s) ?up ?down = (ok, d2)" by fastforce
    show ?thesis
    proof (cases ok)
      case True
      then have t: "tbl d2 = charge_usage s (tbl d)" "base d2 = base d" "sq_autocommit q d2 = sq_autocommit q d"
        using meter_ok[OF q, of d1 "us_uid s" ?up ?down d2] m k by (simp_all add: kept_def charge_usage_def with_credits_def sub_sat)
      have c: "committed q tbl base d2 = committed q tbl base d" using t Cons.prems by (simp add: committed_def)
      obtain r d3 where l: "upload_loop q clock d2 ss = (r, d3)" by fastforce
      have e: "upload_loop q clock d (s # ss) = (case r of Inl e2 \<Rightarrow> (Inl e2, d3)
          | Inr ts \<Rightarrow> (case um_reason ?up ?down (clock (length ss)) (ur_expiry_time u) of None \<Rightarrow> (Inr ts, d3) | Some x \<Rightarrow> (Inr ((us_uid s, x) # ts), d3)))"
        using g SQLITE_ROW m True l by (simp add: um_load_def Let_def)
      have v: "doomed clock (tbl d) (s # ss) = (case um_reason ?up ?down (clock (length ss)) (ur_expiry_time u) of None \<Rightarrow> [] | Some x \<Rightarrow> [(us_uid s, x)])
          @ doomed clock (tbl d2) ss"
        using k(1) t(1) by (simp add: charge_usage_def um_reason_def sub_sat)
      have ih: "case r of Inl e \<Rightarrow> committed q tbl base d3 = committed q tbl base d2 \<and> e \<noteq> CLOAK_USER_OK
          | Inr ts \<Rightarrow> \<not> sq_autocommit q d3 \<and> base d3 = base d2 \<and> tbl d3 = fold charge_usage ss (tbl d2) \<and> ts = doomed clock (tbl d2) ss"
        using Cons.IH[of d2] t(3) Cons.prems l by simp
      show ?thesis
      proof (cases r)
        case (Inl x)
        then show ?thesis unfolding e using ih c by simp
      next
        case (Inr ts)
        then show ?thesis unfolding e v using ih t by (simp split: option.split)
      qed
    next
      case False
      then have "committed q tbl base d2 = committed q tbl base d1"
        using meter_failed[OF q, of d1 "us_uid s" ?up ?down d2] m committed_same[of q tbl base d1 d2] by simp
      then show ?thesis using g SQLITE_ROW m False k(2) committed_same[of q tbl base d d1] by (simp add: um_load_def um_run_def Let_def)
    qed
  next
    case SQLITE_DONE
    then have k: "tbl d (us_uid s) = None" "kept q tbl base d d1" using get_done[OF q] g by auto
    then have c: "charge_usage s (tbl d1) = tbl d1" "tbl d1 = tbl d" "base d1 = base d" "\<not> sq_autocommit q d1"
      using Cons.prems by (simp_all add: charge_usage_def kept_def fun_upd_idem)
    obtain r d2 where l: "upload_loop q clock d1 ss = (r, d2)" by fastforce
    have e: "upload_loop q clock d (s # ss) = (case r of Inl e2 \<Rightarrow> (Inl e2, d2) | Inr ts \<Rightarrow> (Inr ((us_uid s, CLOAK_USER_TERMINATE_NO_SUCH_USER) # ts), d2))"
      using g SQLITE_DONE l by (simp add: um_load_def)
    show ?thesis using Cons.IH[OF c(4)] c k committed_same[of q tbl base d d1] unfolding e l by (cases r) simp_all
  next
    case SQLITE_FAILED
    then show ?thesis using get_failed[OF q] g committed_same[of q tbl base d d1] by (auto simp: um_load_def)
  qed
qed simp

lemma upload_batch:
  assumes "sqlite_sound q tbl base" "cloak_usermanager_upload_status (Some q) clock d updates out_cap = (res, d')"
  shows "case res of
      Inl e \<Rightarrow> e \<noteq> CLOAK_USER_OK \<and> committed q tbl base d' = committed q tbl base d
    | Inr (ts, n) \<Rightarrow> sq_autocommit q d' \<and> tbl d' = fold charge_usage updates (committed q tbl base d)
        \<and> ts = take out_cap (doomed clock (committed q tbl base d) updates) \<and> n = length (doomed clock (committed q tbl base d) updates)"
proof -
  note q = assms(1)
  define d0 where "d0 = (if \<not> sq_autocommit q d then snd (sq_rollback q d) else d)"
  have c0: "committed q tbl base d0 = committed q tbl base d"
    using rollback_any[OF q, of d "fst (sq_rollback q d)" d0] committed_same[of q tbl base d d0] by (auto simp: d0_def split: if_splits)
  show ?thesis
  proof (cases "sq_autocommit q d0 \<and> updates \<noteq> []")
    case False
    then show ?thesis using assms(2) c0 by (auto simp: cloak_usermanager_upload_status_def d0_def[symmetric] Let_def committed_def split: if_splits)
  next
    case True
    then have t0: "tbl d0 = committed q tbl base d" using c0 by (simp add: committed_def)
    obtain ok d1 where b: "sq_begin q d0 = (ok, d1)" by fastforce
    show ?thesis
    proof (cases ok)
      case False
      then show ?thesis using assms(2) True b c0 begin_failed[OF q, of d0 d1] committed_same[of q tbl base d0 d1]
        by (auto simp: cloak_usermanager_upload_status_def d0_def[symmetric] Let_def um_run_def)
    next
      case ok: True
      then have t1: "tbl d1 = committed q tbl base d" "base d1 = committed q tbl base d" "\<not> sq_autocommit q d1"
        using begin_ok[OF q, of d0 d1] True b t0 by auto
      have fail: "committed q tbl base (upload_fail q z) = committed q tbl base z" for z
        using rollback_any[OF q, of z "fst (sq_rollback q z)" "upload_fail q z"] committed_same[of q tbl base z "upload_fail q z"] by (simp add: upload_fail_def)
      have e: "(res, d') = (case upload_loop q clock d1 updates of
                      (Inl e, d2) \<Rightarrow> (Inl e, upload_fail q d2)
                    | (Inr ts, d2) \<Rightarrow>
                        (case sq_commit q d2 of
                           (ok2, d3) \<Rightarrow>
                             if \<not> ok2 then (Inl (um_run ok2), upload_fail q d3)
                             else (Inr (take out_cap ts, length ts), d3)))"
        using assms(2) True b ok by (simp add: cloak_usermanager_upload_status_def d0_def[symmetric] Let_def)
      obtain r d2 where l: "upload_loop q clock d1 updates = (r, d2)" by fastforce
      note lc = upload_loop_charges[OF q t1(3), where clock = clock and ss = updates, unfolded l]
      show ?thesis
      proof (cases r)
        case (Inl x)
        then show ?thesis using e l lc fail[of d2] t1 by (simp add: committed_def)
      next
        case (Inr ts)
        then have t2: "\<not> sq_autocommit q d2" "base d2 = base d1" "tbl d2 = fold charge_usage updates (tbl d1)" "ts = doomed clock (tbl d1) updates" using lc by auto
        obtain ok2 d3 where c: "sq_commit q d2 = (ok2, d3)" by fastforce
        have "committed q tbl base d3 = committed q tbl base d2" if "\<not> ok2"
          using commit_failed[OF q t2(1), of d3] c that committed_same[of q tbl base d2 d3] by simp
        moreover have "committed q tbl base d2 = committed q tbl base d" using t1 t2 by (simp add: committed_def)
        ultimately show ?thesis using e l Inr c commit_ok[OF q t2(1), of d3] t1 t2 fail[of d3] by (cases ok2) (simp_all add: um_run_def)
      qed
    qed
  qed
qed

lemma length_doomed: "length (doomed clock rows ss) \<le> length ss"
  by (induction ss arbitrary: rows) (auto split: option.splits intro: le_SucI)

lemma charge_other: "us_uid s \<noteq> uid \<Longrightarrow> charge_usage s rows uid = rows uid"
  by (simp add: charge_usage_def)

lemma charge_all_other: "uid \<notin> us_uid ` set ss \<Longrightarrow> fold charge_usage ss rows uid = rows uid"
  by (induction ss arbitrary: rows) (auto simp: charge_other)

lemma doomed_uids: "fst ` set (doomed clock rows ss) \<subseteq> us_uid ` set ss"
  by (induction ss arbitrary: rows) (auto split: option.splits if_splits)

lemma spared:
  \<comment> \<open>a user of the batch who is not reported still exists, has credit both ways and has not expired\<close>
  "distinct (map us_uid ss) \<Longrightarrow> s \<in> set ss \<Longrightarrow> us_uid s \<notin> fst ` set (doomed clock rows ss) \<Longrightarrow>
    \<exists>r k. fold charge_usage ss rows (us_uid s) = Some r \<and> 0 < ur_up_credit r \<and> 0 < ur_down_credit r \<and> clock k \<le> ur_expiry_time r"
proof (induction ss arbitrary: rows)
  case (Cons t ss)
  show ?case
  proof (cases "s = t")
    case True
    have f: "fold charge_usage ss (charge_usage t rows) (us_uid t) = charge_usage t rows (us_uid t)" using Cons.prems(1) by (intro charge_all_other) auto
    obtain r where r: "charge_usage t rows (us_uid t) = Some r"
      using Cons.prems(3) True by (cases "charge_usage t rows (us_uid t)") auto
    have "0 < ur_up_credit r \<and> 0 < ur_down_credit r \<and> clock (length ss) \<le> ur_expiry_time r"
      using Cons.prems(3) True r by (cases "ur_up_credit r \<le> 0") (auto split: if_splits)
    then show ?thesis using True f r by auto
  next
    case False
    then have "s \<in> set ss" using Cons.prems(2) by simp
    then show ?thesis using Cons.IH[of "charge_usage t rows"] Cons.prems(1,3) by auto
  qed
qed simp

text \<open>
  C16: usage is charged as a whole batch or not at all. On any database that keeps SQLite's promises, whatever statement of the batch fails and whether or not
  the rollback itself does: if the upload reports success, every update has been charged to its user, saturating at the
  smallest 64-bit value, in order and exactly once, nothing is left uncommitted, and the users reported are exactly those that are gone, expired or out of credit; if it reports an error,
  the committed rows are what they were.
\<close>

theorem upload_status_atomic:
  assumes "sqlite_sound q tbl base" "cloak_usermanager_upload_status (Some q) clock d updates out_cap = (res, d')"
  shows "case res of
      Inl e \<Rightarrow> e \<noteq> CLOAK_USER_OK \<and> committed q tbl base d' = committed q tbl base d
    | Inr (ts, n) \<Rightarrow> sq_autocommit q d' \<and> tbl d' = fold charge_usage updates (committed q tbl base d)
        \<and> ts = take out_cap (doomed clock (committed q tbl base d) updates) \<and> n = length (doomed clock (committed q tbl base d) updates)"
  by (rule upload_batch[OF assms])

theorem upload_status_atomic_witness:
  "\<exists>rows. cloak_usermanager_upload_status (Some sample_sqlite) (\<lambda>_. 7) (sample_rows, None) [sample_update [1] 30 4, sample_update [2] 1 1, sample_update [1] (- 5) 6] 8
      = (Inr ([([2], CLOAK_USER_TERMINATE_NO_SUCH_USER), ([1], CLOAK_USER_TERMINATE_NO_DOWN_CREDIT)], 2), (rows, None))
    \<and> map_option ur_up_credit (rows [1]) = Some 70 \<and> map_option ur_down_credit (rows [1]) = Some 0"
proof -
  let ?run = "cloak_usermanager_upload_status (Some sample_sqlite) (\<lambda>_. 7) (sample_rows, None) [sample_update [1] 30 4, sample_update [2] 1 1, sample_update [1] (- 5) 6] 8"
  have "fst ?run = Inr ([([2], CLOAK_USER_TERMINATE_NO_SUCH_USER), ([1], CLOAK_USER_TERMINATE_NO_DOWN_CREDIT)], 2) \<and> snd (snd ?run) = None"
    by (simp add: cloak_usermanager_upload_status_def um_load_def um_reason_def um_sub_nonneg_sat_def um_clamp_usage_def INT64_MIN_def with_credits_def sample_defs)
  then obtain rows where r: "?run = (Inr ([([2], CLOAK_USER_TERMINATE_NO_SUCH_USER), ([1], CLOAK_USER_TERMINATE_NO_DOWN_CREDIT)], 2), (rows, None))"
    by (metis prod.collapse)
  show ?thesis using upload_status_atomic[OF sample_sound r] r
    by (simp add: committed_def charge_usage_def INT64_MIN_def sample_defs)
qed

end
