(* ===== verification/IntrusiveChain.thy ===== *)
theory IntrusiveChain
  imports CloakPrelude
begin

text \<open>
  The intrusive hash chains of \<open>libcloak-server/src/registry.c\<close> and \<open>userpanel.c\<close>: every entry carries a \<open>next\<close> pointer and a \<open>pprev\<close> pointer to the
  pointer that points at it, so that it is unlinked without its predecessor. The pointers are kept as the code has them, one function per field
  on addresses; \<open>chain_rep\<close> relates them to one list of addresses per bucket, and the operations are shown to be the list operations. The
  traversals are partial: no value means that the loop does not end or that it reads an entry that has been freed.
\<close>

type_synonym addr = nat

datatype slot = Head nat | Next_of addr

record chain =
  ch_head :: "nat \<Rightarrow> addr option"
  ch_next :: "addr \<Rightarrow> addr option"
  ch_pprev :: "addr \<Rightarrow> slot option"

definition chain_empty :: chain where
  "chain_empty = \<lparr>ch_head = (\<lambda>_. None), ch_next = (\<lambda>_. None), ch_pprev = (\<lambda>_. None)\<rparr>"

definition slot_write :: "chain \<Rightarrow> slot \<Rightarrow> addr option \<Rightarrow> chain" where
  "slot_write c s v =
     (case s of
        Head b \<Rightarrow> c\<lparr>ch_head := (ch_head c)(b := v)\<rparr>
      | Next_of a \<Rightarrow> c\<lparr>ch_next := (ch_next c)(a := v)\<rparr>)"

definition chain_add :: "chain \<Rightarrow> nat \<Rightarrow> addr \<Rightarrow> chain" where
  "chain_add c b e =
     (let h = ch_head c b;
          c1 = c\<lparr>ch_next := (ch_next c)(e := h)\<rparr>;
          c2 = (case h of None \<Rightarrow> c1 | Some x \<Rightarrow> c1\<lparr>ch_pprev := (ch_pprev c1)(x := Some (Next_of e))\<rparr>);
          c3 = slot_write c2 (Head b) (Some e)
      in c3\<lparr>ch_pprev := (ch_pprev c3)(e := Some (Head b))\<rparr>)"

definition chain_del :: "chain \<Rightarrow> addr \<Rightarrow> chain" where
  "chain_del c e =
     (case ch_pprev c e of
        None \<Rightarrow> c
      | Some s \<Rightarrow>
          let c1 = (case ch_next c e of None \<Rightarrow> c | Some n \<Rightarrow> c\<lparr>ch_pprev := (ch_pprev c)(n := Some s)\<rparr>);
              c2 = slot_write c1 s (ch_next c1 e)
          in c2\<lparr>ch_next := (ch_next c2)(e := None), ch_pprev := (ch_pprev c2)(e := None)\<rparr>)"

partial_function (option) chain_find :: "(addr \<Rightarrow> bool option) \<Rightarrow> chain \<Rightarrow> addr option \<Rightarrow> (addr option \<times> nat) option" where
  \<comment> \<open>the first entry from a pointer on that passes the test, and how many were looked at\<close>
  "chain_find P c p =
     (case p of
        None \<Rightarrow> Some (None, 0)
      | Some e \<Rightarrow>
          Option.bind (P e) (\<lambda>t.
            if t then Some (Some e, 1)
            else Option.bind (chain_find P c (ch_next c e)) (\<lambda>(r, n). Some (r, n + 1))))"

partial_function (option) chain_count :: "(addr \<Rightarrow> bool option) \<Rightarrow> chain \<Rightarrow> addr option \<Rightarrow> (nat \<times> nat) option" where
  \<comment> \<open>how many entries from a pointer on pass the test, and how many were looked at\<close>
  "chain_count P c p =
     (case p of
        None \<Rightarrow> Some (0, 0)
      | Some e \<Rightarrow>
          Option.bind (P e) (\<lambda>t.
            Option.bind (chain_count P c (ch_next c e)) (\<lambda>(k, n). Some (if t then k + 1 else k, n + 1))))"

section \<open>The lists the pointers stand for\<close>

fun seg :: "chain \<Rightarrow> addr option \<Rightarrow> slot \<Rightarrow> addr list \<Rightarrow> bool" where
  "seg c p s [] \<longleftrightarrow> p = None"
| "seg c p s (x # xs) \<longleftrightarrow> p = Some x \<and> ch_pprev c x = Some s \<and> seg c (ch_next c x) (Next_of x) xs"

definition members :: "(nat \<Rightarrow> addr list) \<Rightarrow> addr set" where
  "members L = (\<Union>b. set (L b))"

definition chain_rep :: "chain \<Rightarrow> (nat \<Rightarrow> addr list) \<Rightarrow> bool" where
  "chain_rep c L \<longleftrightarrow>
     (\<forall>b. seg c (ch_head c b) (Head b) (L b) \<and> distinct (L b))
   \<and> (\<forall>b b' x. x \<in> set (L b) \<longrightarrow> x \<in> set (L b') \<longrightarrow> b = b')
   \<and> (\<forall>x. x \<notin> members L \<longrightarrow> ch_pprev c x = None)"

lemma chain_repD:
  assumes "chain_rep c L"
  shows rep_seg: "seg c (ch_head c b) (Head b) (L b)"
    and rep_distinct: "distinct (L b)"
    and rep_disjoint: "x \<in> set (L b) \<Longrightarrow> x \<in> set (L b') \<Longrightarrow> b = b'"
    and rep_outside: "x \<notin> members L \<Longrightarrow> ch_pprev c x = None"
  using assms unfolding chain_rep_def by auto

lemma members_iff: "x \<in> members L \<longleftrightarrow> (\<exists>b. x \<in> set (L b))"
  by (auto simp: members_def)

lemma seg_frame:
  "(\<forall>x\<in>set xs. ch_pprev c' x = ch_pprev c x \<and> ch_next c' x = ch_next c x) \<Longrightarrow> seg c' p s xs = seg c p s xs"
  by (induction c p s xs rule: seg.induct) auto

fun slot_after :: "slot \<Rightarrow> addr list \<Rightarrow> slot" where
  "slot_after s [] = s"
| "slot_after s (x # xs) = slot_after (Next_of x) xs"

lemma slot_after_in: "xs \<noteq> [] \<Longrightarrow> slot_after s xs = Next_of (last xs)"
  by (induction xs arbitrary: s) auto

lemma slot_after_head: "slot_after (Head b) xs = Next_of y \<Longrightarrow> y \<in> set xs"
  by (cases "xs = []") (auto simp: slot_after_in)

lemma seg_next: "seg c p s (us @ x # vs) \<Longrightarrow> ch_next c x = (case vs of [] \<Rightarrow> None | y # ys \<Rightarrow> Some y) \<and> ch_pprev c x = Some (slot_after s us)"
proof (induction us arbitrary: p s)
  case Nil
  then show ?case by (cases vs) auto
qed auto

lemma chain_empty_rep: "chain_rep chain_empty (\<lambda>_. [])"
  by (simp add: chain_rep_def chain_empty_def)

lemma chain_add_rep:
  assumes r: "chain_rep c L" and x: "e \<notin> members L"
  shows "chain_rep (chain_add c b e) (L(b := e # L b))"
proof -
  let ?c = "chain_add c b e"
  have out: "e \<notin> set (L i)" for i using x by (auto simp: members_iff)
  have h: "ch_head c b = (case L b of [] \<Rightarrow> None | y # ys \<Rightarrow> Some y)" using rep_seg[OF r, of b] by (cases "L b") auto
  have n: "ch_next ?c y = (if y = e then ch_head c b else ch_next c y)" for y
    by (auto simp: chain_add_def Let_def slot_write_def split: option.splits)
  have p: "ch_pprev ?c y = (if y = e then Some (Head b) else if Some y = ch_head c b then Some (Next_of e) else ch_pprev c y)" for y
    by (auto simp: chain_add_def Let_def slot_write_def split: option.splits)
  have d: "ch_head ?c = (ch_head c)(b := Some e)"
    by (auto simp: chain_add_def Let_def slot_write_def split: option.splits)
  have other: "seg ?c q s ys = seg c q s ys" if "set ys \<subseteq> members L" "\<And>y. Some y = ch_head c b \<Longrightarrow> y \<notin> set ys" for q s ys
    using that x by (intro seg_frame) (auto simp: n p)
  have mem: "set (L i) \<subseteq> members L" for i by (auto simp: members_iff)
  have "seg ?c (ch_head c b) (Next_of e) (L b)"
  proof (cases "L b")
    case (Cons y ys)
    have "set ys \<subseteq> members L" "y \<notin> set ys" "y \<noteq> e"
      using mem[of b] rep_distinct[OF r, of b] out[of b] Cons by auto
    then show ?thesis using rep_seg[OF r, of b] Cons h other[of ys] by (auto simp: n p)
  qed (simp add: h)
  then have b: "seg ?c (ch_head ?c b) (Head b) (e # L b)" by (simp add: d n p)
  have i: "seg ?c (ch_head ?c i) (Head i) (L i)" if "i \<noteq> b" for i
  proof -
    have "y \<notin> set (L i)" if "Some y = ch_head c b" for y
      using that h rep_disjoint[OF r, of y b i] \<open>i \<noteq> b\<close> by (auto split: list.splits)
    then show ?thesis using other[of "L i"] mem[of i] rep_seg[OF r, of i] that by (simp add: d)
  qed
  have o: "ch_pprev ?c y = None" if "y \<notin> members (L(b := e # L b))" for y
  proof -
    have "y \<noteq> e" "y \<notin> members L" using that by (auto simp: members_iff fun_upd_def split: if_splits)
    moreover have "Some y \<noteq> ch_head c b" using \<open>y \<notin> members L\<close> h by (auto simp: members_iff split: list.splits) (metis list.set_intros(1))
    ultimately show ?thesis using rep_outside[OF r] by (simp add: p)
  qed
  show ?thesis unfolding chain_rep_def
    using b i o out rep_distinct[OF r] rep_disjoint[OF r] by (auto simp: fun_upd_def)
qed

lemma chain_del_fields:
  assumes "ch_pprev c e = Some t" "t \<noteq> Next_of e"
  shows "ch_next (chain_del c e) y = (if y = e then None else if t = Next_of y then ch_next c e else ch_next c y)"
    and "ch_pprev (chain_del c e) y = (if y = e then None else if ch_next c e = Some y then Some t else ch_pprev c y)"
    and "ch_head (chain_del c e) i = (if t = Head i then ch_next c e else ch_head c i)"
  using assms by (auto simp: chain_del_def Let_def slot_write_def split: option.splits slot.splits)

lemma seg_del:
  assumes c: "ch_pprev c e = Some t" "t \<noteq> Next_of e"
  shows "seg c p s (us @ e # vs) \<Longrightarrow> distinct (us @ e # vs) \<Longrightarrow> (\<forall>y\<in>set (us @ e # vs). s \<noteq> Next_of y) \<Longrightarrow> t = slot_after s us
    \<Longrightarrow> seg (chain_del c e) (if us = [] then ch_next c e else p) s (us @ vs)"
proof (induction us arbitrary: p s)
  case Nil
  show ?case
  proof (cases vs)
    case (Cons y ys)
    then have "seg (chain_del c e) q r ys = seg c q r ys" for q r
      using Nil by (intro seg_frame) (auto simp: chain_del_fields[OF c])
    then show ?thesis using Nil Cons by (auto simp: chain_del_fields[OF c])
  qed (use Nil in simp)
next
  case (Cons u us)
  have ih: "seg (chain_del c e) (if us = [] then ch_next c e else ch_next c u) (Next_of u) (us @ vs)"
    using Cons by (intro Cons.IH) auto
  have n: "ch_next c e \<noteq> Some u" using seg_next[OF Cons.prems(1)] Cons.prems(2) by (auto split: list.splits)
  have "ch_next (chain_del c e) u = (if us = [] then ch_next c e else ch_next c u)"
    using Cons.prems(2,4) by (auto simp: chain_del_fields[OF c] slot_after_in)
  then show ?case using ih n Cons.prems(1,2) by (auto simp: chain_del_fields[OF c])
qed

lemma chain_del_rep:
  assumes r: "chain_rep c L"
  shows "chain_rep (chain_del c e) (\<lambda>b. removeAll e (L b))"
proof (cases "e \<in> members L")
  case False
  then have "removeAll e (L b) = L b" for b by (simp add: members_iff removeAll_id)
  then show ?thesis using r rep_outside[OF r False] by (simp add: chain_del_def)
next
  case True
  then obtain b us vs where l: "L b = us @ e # vs" by (metis members_iff split_list)
  let ?c = "chain_del c e"
  have d: "distinct (us @ e # vs)" using rep_distinct[OF r, of b] l by simp
  define t where "t = slot_after (Head b) us"
  have c: "ch_pprev c e = Some t" "ch_next c e = (case vs of [] \<Rightarrow> None | y # ys \<Rightarrow> Some y)"
    using seg_next rep_seg[OF r, of b] l by (auto simp: t_def)
  have te: "t \<noteq> Next_of e" using slot_after_head[of b us e] d by (auto simp: t_def)
  note f = chain_del_fields[OF c(1) te]
  have tin: "y \<in> set (L b)" if "t = Next_of y" for y using that slot_after_head[of b us y] l by (simp add: t_def)
  have th: "t = Head i \<longleftrightarrow> us = [] \<and> i = b" for i by (cases "us = []") (auto simp: t_def slot_after_in)
  have nin: "y \<in> set (L b)" if "ch_next c e = Some y" for y using that c(2) l by (auto split: list.splits)
  have "seg ?c (if us = [] then ch_next c e else ch_head c b) (Head b) (us @ vs)"
    using seg_del[OF c(1) te] rep_seg[OF r, of b] l d by (simp add: t_def)
  then have b: "seg ?c (ch_head ?c b) (Head b) (removeAll e (L b))" using d l by (simp add: f th removeAll_id)
  have i: "seg ?c (ch_head ?c i) (Head i) (removeAll e (L i))" if "i \<noteq> b" for i
  proof -
    have o: "y \<notin> set (L i)" if "y \<in> set (L b)" for y using that rep_disjoint[OF r, of y b i] \<open>i \<noteq> b\<close> by auto
    have "seg ?c q s (L i) = seg c q s (L i)" for q s using o tin nin l by (intro seg_frame) (auto simp: f)
    then show ?thesis using rep_seg[OF r, of i] that o[of e] l by (simp add: f th removeAll_id)
  qed
  have o: "ch_pprev ?c y = None" if "y \<notin> members (\<lambda>b. removeAll e (L b))" for y
    using that nin[of y] rep_outside[OF r, of y] by (auto simp: f members_iff)
  show ?thesis unfolding chain_rep_def
    using b i o rep_distinct[OF r] rep_disjoint[OF r] by (auto simp: distinct_removeAll) (metis)
qed

section \<open>The traversals\<close>

lemma chain_find_seg:
  "seg c p s xs \<Longrightarrow> (\<forall>x\<in>set xs. Q x = Some (P x)) \<Longrightarrow>
    chain_find Q c p = Some (find P xs, if \<exists>x\<in>set xs. P x then Suc (length (takeWhile (\<lambda>x. \<not> P x) xs)) else length xs)"
proof (induction xs arbitrary: p s)
  case Nil
  then show ?case by (subst chain_find.simps) simp
next
  case (Cons x xs)
  then show ?case by (subst chain_find.simps) (auto simp: Option.bind_eq_Some_conv)
qed

lemma chain_count_seg:
  "seg c p s xs \<Longrightarrow> (\<forall>x\<in>set xs. Q x = Some (P x)) \<Longrightarrow> chain_count Q c p = Some (length (filter P xs), length xs)"
proof (induction xs arbitrary: p s)
  case Nil
  then show ?case by (subst chain_count.simps) simp
next
  case (Cons x xs)
  then show ?case by (subst chain_count.simps) auto
qed

end
