(* ===== verification/Registry.thy ===== *)
theory Registry
  imports IntrusiveChain ReplayCache
begin

text \<open>
  \<open>libcloak-server/src/registry.c\<close>: the server's table of sessions by user and session id. An entry is a heap cell at an address that never
  changes, and three intrusive chains run through the entries: by key, by user, and the chain of dead entries that wait for their sweep. Every operation
  is partial; no value means a traversal that does not end, or a read or a second free of a freed entry. A session is a value of any type;
  destroying it is dropping it with its entry. \<open>malloc\<close>, the outcome of \<open>cloak_session_init\<close> on the caller's configuration and of arming a timer are arguments,
  and the owner's callbacks are functions on the registry and a world of their own.
\<close>

section \<open>The table\<close>

definition CLOAK_REGISTRY_MAX_SESSIONS :: nat where "CLOAK_REGISTRY_MAX_SESSIONS = 1024"
definition CLOAK_REGISTRY_KEY_BUCKETS :: nat where "CLOAK_REGISTRY_KEY_BUCKETS = 2048"
definition CLOAK_REGISTRY_UID_BUCKETS :: nat where "CLOAK_REGISTRY_UID_BUCKETS = 1024"

record 's registry_entry =
  en_sesh :: 's
  en_uid :: bytes
  en_session_id :: u32
  en_dead :: bool

record 's server_registry =
  rg_heap :: "addr \<Rightarrow> 's registry_entry option"
  rg_key :: chain
  rg_uid :: chain
  rg_dead :: chain
  rg_n_entries :: nat
  rg_n_dead :: nat
  rg_hash_key :: bytes
  rg_lookup_probe_steps :: u64
  rg_lookup_calls :: u64
  rg_sweep_timer :: bool
  rg_destroyed :: bool

definition registry_key_bucket :: "'s server_registry \<Rightarrow> bytes \<Rightarrow> u32 \<Rightarrow> nat" where
  "registry_key_bucket reg uid session_id =
     unat (cloak_siphash24 (rg_hash_key reg) (uid @ map (\<lambda>i. ucast (drop_bit (8 * i) session_id AND 0xff)) [0..<4])
           AND of_nat (CLOAK_REGISTRY_KEY_BUCKETS - 1))"

definition registry_uid_bucket :: "'s server_registry \<Rightarrow> bytes \<Rightarrow> nat" where
  "registry_uid_bucket reg uid = unat (cloak_siphash24 (rg_hash_key reg) uid AND of_nat (CLOAK_REGISTRY_UID_BUCKETS - 1))"

definition key_chain_add :: "'s server_registry \<Rightarrow> addr \<Rightarrow> 's server_registry option" where
  "key_chain_add reg e =
     Option.bind (rg_heap reg e) (\<lambda>en. Some (reg\<lparr>rg_key := chain_add (rg_key reg) (registry_key_bucket reg (en_uid en) (en_session_id en)) e\<rparr>))"

definition key_chain_del :: "'s server_registry \<Rightarrow> addr \<Rightarrow> 's server_registry" where
  "key_chain_del reg e = reg\<lparr>rg_key := chain_del (rg_key reg) e\<rparr>"

definition uid_chain_add :: "'s server_registry \<Rightarrow> addr \<Rightarrow> 's server_registry option" where
  "uid_chain_add reg e = Option.bind (rg_heap reg e) (\<lambda>en. Some (reg\<lparr>rg_uid := chain_add (rg_uid reg) (registry_uid_bucket reg (en_uid en)) e\<rparr>))"

definition uid_chain_del :: "'s server_registry \<Rightarrow> addr \<Rightarrow> 's server_registry" where
  "uid_chain_del reg e = reg\<lparr>rg_uid := chain_del (rg_uid reg) e\<rparr>"

definition dead_chain_add :: "'s server_registry \<Rightarrow> addr \<Rightarrow> 's server_registry" where
  \<comment> \<open>a chain with one head\<close>
  "dead_chain_add reg e = reg\<lparr>rg_dead := chain_add (rg_dead reg) 0 e\<rparr>"

definition dead_chain_del :: "'s server_registry \<Rightarrow> addr \<Rightarrow> 's server_registry" where
  "dead_chain_del reg e = reg\<lparr>rg_dead := chain_del (rg_dead reg) e\<rparr>"

definition registry_entry_link :: "'s server_registry \<Rightarrow> addr \<Rightarrow> 's server_registry option" where
  "registry_entry_link reg e =
     Option.bind (key_chain_add reg e) (\<lambda>r1.
     Option.bind (uid_chain_add r1 e) (\<lambda>r2.
       Some (r2\<lparr>rg_n_entries := rg_n_entries r2 + 1\<rparr>)))"

definition registry_entry_unlink :: "'s server_registry \<Rightarrow> addr \<Rightarrow> 's server_registry option" where
  "registry_entry_unlink reg e =
     Option.bind (rg_heap reg e) (\<lambda>en.
       let r1 = uid_chain_del (key_chain_del reg e) e;
           r2 = (if en_dead en then (dead_chain_del r1 e)\<lparr>rg_n_dead := rg_n_dead r1 - 1\<rparr> else r1)
       in Some (r2\<lparr>rg_n_entries := rg_n_entries r2 - 1\<rparr>))"

definition registry_mark_dead :: "'s server_registry \<Rightarrow> addr \<Rightarrow> 's server_registry option" where
  "registry_mark_dead reg e =
     Option.bind (rg_heap reg e) (\<lambda>en.
       let r1 = dead_chain_add (reg\<lparr>rg_heap := (rg_heap reg)(e \<mapsto> en\<lparr>en_dead := True\<rparr>)\<rparr>) e
       in Some (r1\<lparr>rg_n_dead := rg_n_dead r1 + 1\<rparr>))"

definition registry_free_entry :: "'s server_registry \<Rightarrow> addr \<Rightarrow> 's server_registry option" where
  "registry_free_entry reg e = Option.bind (rg_heap reg e) (\<lambda>_. Some (reg\<lparr>rg_heap := (rg_heap reg)(e := None)\<rparr>))"

definition registry_find_live :: "'s server_registry \<Rightarrow> bytes \<Rightarrow> u32 \<Rightarrow> (addr option \<times> 's server_registry) option" where
  "registry_find_live reg uid session_id =
     (let r1 = reg\<lparr>rg_lookup_calls := rg_lookup_calls reg + 1\<rparr> in
      Option.bind
        (chain_find (\<lambda>x. map_option (\<lambda>en. \<not> en_dead en \<and> en_session_id en = session_id \<and> en_uid en = uid) (rg_heap r1 x))
           (rg_key r1) (ch_head (rg_key r1) (registry_key_bucket r1 uid session_id)))
        (\<lambda>(r, n). Some (r, r1\<lparr>rg_lookup_probe_steps := rg_lookup_probe_steps r1 + of_nat n\<rparr>)))"

section \<open>The sweep of the dead entries\<close>

partial_function (option) registry_sweep_dead_entries :: "'s server_registry \<Rightarrow> 's server_registry option" where
  "registry_sweep_dead_entries reg =
     (case ch_head (rg_dead reg) 0 of
        None \<Rightarrow> Some reg
      | Some e \<Rightarrow>
          Option.bind (registry_entry_unlink reg e) (\<lambda>r1.
          Option.bind (registry_free_entry r1 e) (\<lambda>r2.
            registry_sweep_dead_entries r2)))"

definition registry_sweep_timer_cb :: "'s server_registry \<Rightarrow> 's server_registry option" where
  "registry_sweep_timer_cb reg = registry_sweep_dead_entries (reg\<lparr>rg_sweep_timer := False\<rparr>)"

definition registry_arm_sweep :: "bool \<Rightarrow> 's server_registry \<Rightarrow> 's server_registry option" where
  \<comment> \<open>whether the reactor has a timer to give is the first argument\<close>
  "registry_arm_sweep timer_ok reg =
     (if rg_destroyed reg then Some reg
      else if rg_sweep_timer reg then Some reg
      else if timer_ok then Some (reg\<lparr>rg_sweep_timer := True\<rparr>)
      else registry_sweep_dead_entries reg)"

type_synonym ('s, 'w) registry_cb = "bytes \<Rightarrow> u32 \<Rightarrow> addr \<Rightarrow> 's server_registry \<times> 'w \<Rightarrow> ('s server_registry \<times> 'w) option"

definition registry_on_session_broken ::
  "('s, 'w) registry_cb \<Rightarrow> bool \<Rightarrow> addr \<Rightarrow> 's server_registry \<times> 'w \<Rightarrow> ('s server_registry \<times> 'w) option" where
  \<comment> \<open>the callback of the session of the entry at that address\<close>
  "registry_on_session_broken on_broken timer_ok e st =
     (case st of (reg, w) \<Rightarrow>
        Option.bind (registry_mark_dead reg e) (\<lambda>r1.
        Option.bind (rg_heap r1 e) (\<lambda>en.
        Option.bind (on_broken (en_uid en) (en_session_id en) e (r1, w)) (\<lambda>(r2, w2).
        Option.bind (registry_arm_sweep timer_ok r2) (\<lambda>r3.
          Some (r3, w2))))))"

section \<open>The operations\<close>

definition cloak_server_registry_init :: "bytes \<Rightarrow> 's server_registry" where
  \<comment> \<open>with the sixteen random bytes that were drawn for the hash\<close>
  "cloak_server_registry_init hash_key =
     \<lparr>rg_heap = Map.empty, rg_key = chain_empty, rg_uid = chain_empty, rg_dead = chain_empty, rg_n_entries = 0, rg_n_dead = 0, rg_hash_key = hash_key,
      rg_lookup_probe_steps = 0, rg_lookup_calls = 0, rg_sweep_timer = False, rg_destroyed = False\<rparr>"

partial_function (option) destroy_bucket :: "nat \<Rightarrow> 's server_registry \<Rightarrow> 's server_registry option" where
  \<comment> \<open>the inner loop of \<open>cloak_server_registry_destroy\<close>\<close>
  "destroy_bucket i reg =
     (case ch_head (rg_key reg) i of
        None \<Rightarrow> Some reg
      | Some e \<Rightarrow>
          Option.bind (registry_entry_unlink reg e) (\<lambda>r1.
          Option.bind (registry_free_entry r1 e) (\<lambda>r2.
            destroy_bucket i r2)))"

fun destroy_buckets :: "nat list \<Rightarrow> 's server_registry \<Rightarrow> 's server_registry option" where
  "destroy_buckets [] reg = Some reg"
| "destroy_buckets (i # is) reg = Option.bind (destroy_bucket i reg) (destroy_buckets is)"

definition cloak_server_registry_destroy :: "'s server_registry \<Rightarrow> 's server_registry option" where
  "cloak_server_registry_destroy reg =
     (let r1 = reg\<lparr>rg_destroyed := True\<rparr> in
      Option.bind
        (if rg_sweep_timer r1
         then Option.bind (registry_sweep_dead_entries r1) (\<lambda>r2. Some (r2\<lparr>rg_sweep_timer := False\<rparr>))
         else Some r1)
        (destroy_buckets [0..<CLOAK_REGISTRY_KEY_BUCKETS]))"

definition cloak_server_registry_get_or_create ::
  "'s server_registry \<Rightarrow> bytes \<Rightarrow> u32 \<Rightarrow> 's option \<Rightarrow> addr option \<Rightarrow> ((addr \<times> bool) option \<times> 's server_registry) option" where
  \<comment> \<open>the session that \<open>cloak_session_init\<close> makes, if it does, and the cell that \<open>malloc\<close> gives, if it does\<close>
  "cloak_server_registry_get_or_create reg uid session_id session_init cell =
     Option.bind (registry_find_live reg uid session_id) (\<lambda>(existing, r1).
       case existing of
         Some e \<Rightarrow> Some (Some (e, False), r1)
       | None \<Rightarrow>
           if rg_n_entries r1 \<ge> CLOAK_REGISTRY_MAX_SESSIONS then Some (None, r1)
           else
             (case cell of
                None \<Rightarrow> Some (None, r1)
              | Some e \<Rightarrow>
                  (case session_init of
                     None \<Rightarrow> Some (None, r1)
                   | Some s \<Rightarrow>
                       let r2 = r1\<lparr>rg_heap := (rg_heap r1)(e \<mapsto> \<lparr>en_sesh = s, en_uid = uid, en_session_id = session_id, en_dead = False\<rparr>)\<rparr> in
                       Option.bind (registry_entry_link r2 e) (\<lambda>r3. Some (Some (e, True), r3)))))"

definition cloak_server_registry_find :: "'s server_registry \<Rightarrow> bytes \<Rightarrow> u32 \<Rightarrow> (addr option \<times> 's server_registry) option" where
  "cloak_server_registry_find reg uid session_id = registry_find_live reg uid session_id"

definition cloak_server_registry_close :: "'s server_registry \<Rightarrow> bytes \<Rightarrow> u32 \<Rightarrow> 's server_registry option" where
  "cloak_server_registry_close reg uid session_id =
     Option.bind (registry_find_live reg uid session_id) (\<lambda>(r, r1).
       case r of
         None \<Rightarrow> Some r1
       | Some e \<Rightarrow> Option.bind (registry_entry_unlink r1 e) (\<lambda>r2. registry_free_entry r2 e))"

definition cloak_server_registry_count_for_uid :: "'s server_registry \<Rightarrow> bytes \<Rightarrow> (nat \<times> 's server_registry) option" where
  "cloak_server_registry_count_for_uid reg uid =
     (let r1 = reg\<lparr>rg_lookup_calls := rg_lookup_calls reg + 1\<rparr> in
      Option.bind
        (chain_count (\<lambda>x. map_option (\<lambda>en. \<not> en_dead en \<and> en_uid en = uid) (rg_heap r1 x))
           (rg_uid r1) (ch_head (rg_uid r1) (registry_uid_bucket r1 uid)))
        (\<lambda>(k, n). Some (k, r1\<lparr>rg_lookup_probe_steps := rg_lookup_probe_steps r1 + of_nat n\<rparr>)))"

partial_function (option) close_all_loop ::
  "('s, 'w) registry_cb option \<Rightarrow> bytes \<Rightarrow> nat \<Rightarrow> nat \<Rightarrow> 's server_registry \<times> 'w \<Rightarrow> (nat \<times> 's server_registry \<times> 'w) option" where
  "close_all_loop on_closing uid bucket closed st =
     (case st of (reg, w) \<Rightarrow>
        Option.bind
          (chain_find (\<lambda>x. map_option (\<lambda>en. en_uid en = uid) (rg_heap reg x)) (rg_uid reg) (ch_head (rg_uid reg) bucket))
          (\<lambda>(r, _).
            case r of
              None \<Rightarrow> Some (closed, reg, w)
            | Some e \<Rightarrow>
                Option.bind (registry_entry_unlink reg e) (\<lambda>r1.
                Option.bind (rg_heap r1 e) (\<lambda>en.
                Option.bind (case on_closing of None \<Rightarrow> Some (r1, w) | Some cb \<Rightarrow> cb (en_uid en) (en_session_id en) e (r1, w)) (\<lambda>(r2, w2).
                Option.bind (registry_free_entry r2 e) (\<lambda>r3.
                  close_all_loop on_closing uid bucket (closed + 1) (r3, w2)))))))"

definition cloak_server_registry_close_all_for_uid ::
  "('s, 'w) registry_cb option \<Rightarrow> bytes \<Rightarrow> 's server_registry \<times> 'w \<Rightarrow> (nat \<times> 's server_registry \<times> 'w) option" where
  "cloak_server_registry_close_all_for_uid on_closing uid st = close_all_loop on_closing uid (registry_uid_bucket (fst st) uid) 0 st"

definition cloak_server_registry_count :: "'s server_registry \<Rightarrow> nat" where
  "cloak_server_registry_count reg = rg_n_entries reg - rg_n_dead reg"

section \<open>The table of entries it represents\<close>

type_synonym 's reg_table = "addr \<Rightarrow> 's registry_entry option"

definition live_at :: "'s reg_table \<Rightarrow> bytes \<Rightarrow> u32 \<Rightarrow> addr \<Rightarrow> bool" where
  "live_at T uid session_id x \<longleftrightarrow> (\<exists>en. T x = Some en \<and> \<not> en_dead en \<and> en_session_id en = session_id \<and> en_uid en = uid)"

definition dead_of :: "'s reg_table \<Rightarrow> addr set" where
  "dead_of T = {x. \<exists>en. T x = Some en \<and> en_dead en}"

definition one_live :: "'s reg_table \<Rightarrow> bool" where
  "one_live T \<longleftrightarrow> (\<forall>uid sid x y. live_at T uid sid x \<longrightarrow> live_at T uid sid y \<longrightarrow> x = y)"

definition reg_rep :: "'s server_registry \<Rightarrow> 's reg_table \<Rightarrow> (nat \<Rightarrow> addr list) \<Rightarrow> (nat \<Rightarrow> addr list) \<Rightarrow> (nat \<Rightarrow> addr list) \<Rightarrow> bool" where
  "reg_rep reg T K U D \<longleftrightarrow>
     chain_rep (rg_key reg) K \<and> chain_rep (rg_uid reg) U \<and> chain_rep (rg_dead reg) D
   \<and> members K = dom T \<and> members U = dom T \<and> members D = dead_of T \<and> (\<forall>b. b \<noteq> 0 \<longrightarrow> D b = [])
   \<and> (\<forall>x en. T x = Some en \<longrightarrow> rg_heap reg x = Some en
        \<and> x \<in> set (K (registry_key_bucket reg (en_uid en) (en_session_id en))) \<and> x \<in> set (U (registry_uid_bucket reg (en_uid en))))
   \<and> finite (dom T) \<and> rg_n_entries reg = card (dom T) \<and> rg_n_dead reg = card (dead_of T)
   \<and> one_live T \<and> card (dom T) \<le> CLOAK_REGISTRY_MAX_SESSIONS"

definition reg_rel :: "'s server_registry \<Rightarrow> 's reg_table \<Rightarrow> bool" where
  "reg_rel reg T \<longleftrightarrow> (\<exists>K U D. reg_rep reg T K U D)"

definition reg_is :: "'s server_registry \<Rightarrow> 's reg_table \<Rightarrow> bool" where
  \<comment> \<open>and nothing else is allocated\<close>
  "reg_is reg T \<longleftrightarrow> reg_rel reg T \<and> rg_heap reg = T"

lemma bucket_cong:
  "rg_hash_key r = rg_hash_key reg \<Longrightarrow> registry_key_bucket r = registry_key_bucket reg"
  "rg_hash_key r = rg_hash_key reg \<Longrightarrow> registry_uid_bucket r = registry_uid_bucket reg"
  by (simp_all add: registry_key_bucket_def registry_uid_bucket_def fun_eq_iff)

lemma reg_rel_cong:
  "reg_rel reg T \<Longrightarrow> rg_heap r = rg_heap reg \<Longrightarrow> rg_key r = rg_key reg \<Longrightarrow> rg_uid r = rg_uid reg \<Longrightarrow> rg_dead r = rg_dead reg
     \<Longrightarrow> rg_n_entries r = rg_n_entries reg \<Longrightarrow> rg_n_dead r = rg_n_dead reg \<Longrightarrow> rg_hash_key r = rg_hash_key reg \<Longrightarrow> reg_rel r T"
  by (simp add: reg_rel_def reg_rep_def bucket_cong[of r reg])

lemma reg_rel_counters [simp]:
  "reg_rel (reg\<lparr>rg_lookup_calls := a\<rparr>) T = reg_rel reg T" "reg_rel (reg\<lparr>rg_lookup_probe_steps := b\<rparr>) T = reg_rel reg T"
  "reg_rel (reg\<lparr>rg_sweep_timer := t\<rparr>) T = reg_rel reg T" "reg_rel (reg\<lparr>rg_destroyed := d\<rparr>) T = reg_rel reg T"
  by (rule iffI; erule reg_rel_cong; simp)+

lemma reg_repD:
  assumes "reg_rep reg T K U D"
  shows rep_key: "chain_rep (rg_key reg) K" and rep_uid: "chain_rep (rg_uid reg) U" and rep_dead: "chain_rep (rg_dead reg) D"
    and rep_mK: "members K = dom T" and rep_mU: "members U = dom T" and rep_mD: "members D = dead_of T"
    and rep_one_head: "\<forall>b. b \<noteq> 0 \<longrightarrow> D b = []"
    and rep_entries: "\<forall>x en. T x = Some en \<longrightarrow> rg_heap reg x = Some en
        \<and> x \<in> set (K (registry_key_bucket reg (en_uid en) (en_session_id en))) \<and> x \<in> set (U (registry_uid_bucket reg (en_uid en)))"
    and rep_fin: "finite (dom T)" and rep_n: "rg_n_entries reg = card (dom T)" and rep_n_dead: "rg_n_dead reg = card (dead_of T)"
    and rep_one: "one_live T" and rep_cap: "card (dom T) \<le> CLOAK_REGISTRY_MAX_SESSIONS"
  using assms unfolding reg_rep_def by blast+

lemma rep_entry:
  assumes "reg_rep reg T K U D" "T x = Some en"
  shows "rg_heap reg x = Some en" "x \<in> set (K (registry_key_bucket reg (en_uid en) (en_session_id en)))" "x \<in> set (U (registry_uid_bucket reg (en_uid en)))"
  using rep_entries[OF assms(1)] assms(2) by blast+

lemma init_rel: "reg_rel (cloak_server_registry_init k) Map.empty"
  unfolding reg_rel_def reg_rep_def
  by (rule exI[of _ "\<lambda>_. []"], rule exI[of _ "\<lambda>_. []"], rule exI[of _ "\<lambda>_. []"])
    (simp add: cloak_server_registry_init_def chain_empty_rep members_def dead_of_def one_live_def live_at_def)

lemma reg_rel_heap: "reg_rel reg T \<Longrightarrow> T x = Some en \<Longrightarrow> rg_heap reg x = Some en"
  by (auto simp: reg_rel_def dest: rep_entry(1))

lemma reg_rel_bound: "reg_rel reg T \<Longrightarrow> finite (dom T) \<and> card (dom T) \<le> CLOAK_REGISTRY_MAX_SESSIONS \<and> rg_n_entries reg = card (dom T) \<and> rg_n_dead reg = card (dead_of T) \<and> one_live T"
  by (auto simp: reg_rel_def dest: rep_fin rep_cap rep_n rep_n_dead rep_one)

lemma find_SomeD: "find P xs = Some x \<Longrightarrow> P x \<and> x \<in> set xs"
  by (induction xs) (auto split: if_splits)

lemma find_NoneD: "find P xs = None \<Longrightarrow> x \<in> set xs \<Longrightarrow> \<not> P x"
  by (induction xs) (auto split: if_splits)

section \<open>Every operation is the operation on the table\<close>

lemma find_live_rel:
  assumes r: "reg_rel reg T"
  obtains e n where "registry_find_live reg uid sid = Some (e, reg\<lparr>rg_lookup_calls := rg_lookup_calls reg + 1, rg_lookup_probe_steps := n\<rparr>)"
    "\<forall>x. e = Some x \<longleftrightarrow> live_at T uid sid x"
proof -
  obtain K U D where k: "reg_rep reg T K U D" using r by (auto simp: reg_rel_def)
  let ?b = "registry_key_bucket reg uid sid"
  let ?P = "\<lambda>x. live_at T uid sid x"
  have in_T: "\<exists>en. T x = Some en" if "x \<in> set (K ?b)" for x using that rep_mK[OF k] by (auto simp: members_def)
  have f: "chain_find (\<lambda>x. map_option (\<lambda>en. \<not> en_dead en \<and> en_session_id en = sid \<and> en_uid en = uid) (rg_heap reg x)) (rg_key reg) (ch_head (rg_key reg) ?b)
      = Some (find ?P (K ?b), if \<exists>x\<in>set (K ?b). ?P x then Suc (length (takeWhile (\<lambda>x. \<not> ?P x) (K ?b))) else length (K ?b))"
    using in_T rep_entry(1)[OF k] by (intro chain_find_seg[OF rep_seg[OF rep_key[OF k]]]) (fastforce simp: live_at_def)
  have in_b: "x \<in> set (K ?b)" if "live_at T uid sid x" for x using that rep_entry(2)[OF k] by (auto simp: live_at_def)
  have "find ?P (K ?b) = Some x \<longleftrightarrow> live_at T uid sid x" for x
    using in_b[of x] rep_one[OF k] find_SomeD[of ?P "K ?b"] find_NoneD[of ?P "K ?b"] unfolding one_live_def
    by (cases "find ?P (K ?b)") blast+
  then show thesis using f by (intro that) (auto simp: registry_find_live_def Let_def bucket_cong[of "reg\<lparr>rg_lookup_calls := _\<rparr>" reg])
qed

lemma dead_of_upd: "dead_of (T(e := None)) = dead_of T - {e}" "dead_of (T(e \<mapsto> en)) = (if en_dead en then insert e (dead_of T) else dead_of T - {e})"
  by (auto simp: dead_of_def)

lemma in_dead_of: "T e = Some en \<Longrightarrow> e \<in> dead_of T \<longleftrightarrow> en_dead en"
  by (simp add: dead_of_def)

lemma dead_of_dom: "dead_of T \<subseteq> dom T"
  by (auto simp: dead_of_def)

lemma members_removeAll: "members (\<lambda>b. removeAll e (L b)) = members L - {e}"
  by (auto simp: members_def)

lemma members_add: "members (L(b := e # L b)) = insert e (members L)"
  by (auto simp: members_def fun_upd_def split: if_splits)

lemma live_at_upd: "live_at (T(e \<mapsto> en)) uid sid x \<longleftrightarrow>
    (if x = e then \<not> en_dead en \<and> en_session_id en = sid \<and> en_uid en = uid else live_at T uid sid x)"
  by (simp add: live_at_def)

lemma one_live_less: "one_live T \<Longrightarrow> T' \<subseteq>\<^sub>m T \<Longrightarrow> one_live T'"
  unfolding one_live_def live_at_def map_le_def by (metis domI)

definition frame_eq :: "'s server_registry \<Rightarrow> 's server_registry \<Rightarrow> bool" where
  \<comment> \<open>what the chains and their counters leave alone\<close>
  "frame_eq r reg \<longleftrightarrow> rg_hash_key r = rg_hash_key reg \<and> rg_sweep_timer r = rg_sweep_timer reg \<and> rg_destroyed r = rg_destroyed reg"

lemma unlink_rel:
  assumes r: "reg_rel reg T" and e: "T e = Some en"
  obtains r1 where "registry_entry_unlink reg e = Some r1" "reg_rel r1 (T(e := None))" "rg_heap r1 = rg_heap reg" "frame_eq r1 reg"
proof -
  obtain K U D where k: "reg_rep reg T K U D" using r by (auto simp: reg_rel_def)
  define r1 where "r1 = reg\<lparr>rg_key := chain_del (rg_key reg) e, rg_uid := chain_del (rg_uid reg) e, rg_n_entries := rg_n_entries reg - 1\<rparr>"
  define r2 where "r2 = (if en_dead en then r1\<lparr>rg_dead := chain_del (rg_dead reg) e, rg_n_dead := rg_n_dead reg - 1\<rparr> else r1)"
  have u: "registry_entry_unlink reg e = Some r2"
    by (simp add: registry_entry_unlink_def rep_entry(1)[OF k e] uid_chain_del_def key_chain_del_def dead_chain_del_def Let_def r1_def r2_def)
  have f: "rg_heap r2 = rg_heap reg" "frame_eq r2 reg" "rg_key r2 = chain_del (rg_key reg) e" "rg_uid r2 = chain_del (rg_uid reg) e"
    "rg_n_entries r2 = rg_n_entries reg - 1" "rg_dead r2 = (if en_dead en then chain_del (rg_dead reg) e else rg_dead reg)"
    "rg_n_dead r2 = (if en_dead en then rg_n_dead reg - 1 else rg_n_dead reg)"
    by (simp_all add: r1_def r2_def frame_eq_def)
  define D' where "D' = (\<lambda>b. removeAll e (D b))"
  have d: "chain_rep (rg_dead r2) D'"
  proof (cases "en_dead en")
    case False
    then have "e \<notin> dead_of T" using e by (simp add: dead_of_def)
    then have "e \<notin> set (D b)" for b using rep_mD[OF k] by (auto simp: members_iff set_eq_iff)
    then have "D' = D" by (simp add: D'_def)
    then show ?thesis using rep_dead[OF k] False f by simp
  qed (use chain_del_rep[OF rep_dead[OF k], of e] f in \<open>simp add: D'_def\<close>)
  have b: "registry_key_bucket r2 = registry_key_bucket reg" "registry_uid_bucket r2 = registry_uid_bucket reg"
    using f(2) bucket_cong[of r2 reg] by (simp_all add: frame_eq_def)
  have fin: "finite (dead_of T)" using rep_fin[OF k] dead_of_dom finite_subset by blast
  have "reg_rep r2 (T(e := None)) (\<lambda>b. removeAll e (K b)) (\<lambda>b. removeAll e (U b)) D'"
    unfolding reg_rep_def b f(1,3,4,5,7)
  proof (intro conjI allI impI)
    show "one_live (T(e := None))" using rep_one[OF k] by (rule one_live_less) (auto simp: map_le_def)
    show "card (dom (T(e := None))) \<le> CLOAK_REGISTRY_MAX_SESSIONS"
      using rep_cap[OF k] card_mono[OF rep_fin[OF k], of "dom T - {e}"] by simp
    show "(if en_dead en then rg_n_dead reg - 1 else rg_n_dead reg) = card (dead_of (T(e := None)))"
      using rep_n_dead[OF k] fin e in_dead_of[of T e en, OF e] by (simp add: dead_of_upd card_Diff_singleton_if)
    show "rg_n_entries reg - 1 = card (dom (T(e := None)))" using rep_n[OF k] e rep_fin[OF k] by (simp add: card_Diff_singleton_if domI)
    show "members D' = dead_of (T(e := None))" by (simp add: D'_def members_removeAll rep_mD[OF k] dead_of_upd)
    show "D' b = []" if "b \<noteq> 0" for b using rep_one_head[OF k] that by (simp add: D'_def)
    fix x en' assume "(T(e := None)) x = Some en'"
    then have x: "x \<noteq> e" "T x = Some en'" by (auto split: if_splits)
    show "rg_heap reg x = Some en'" "x \<in> set (removeAll e (K (registry_key_bucket reg (en_uid en') (en_session_id en'))))"
      "x \<in> set (removeAll e (U (registry_uid_bucket reg (en_uid en'))))"
      using rep_entry[OF k x(2)] x(1) by simp_all
  qed (simp_all add: d chain_del_rep[OF rep_key[OF k]] chain_del_rep[OF rep_uid[OF k]] members_removeAll rep_mK[OF k] rep_mU[OF k] rep_fin[OF k])
  then show thesis using that[OF u] f by (auto simp: reg_rel_def)
qed

lemma heap_outside_rel:
  assumes r: "reg_rel reg T" and e: "T e = None"
  shows "reg_rel (reg\<lparr>rg_heap := (rg_heap reg)(e := v)\<rparr>) T"
proof -
  obtain K U D where k: "reg_rep reg T K U D" using r by (auto simp: reg_rel_def)
  have "reg_rep (reg\<lparr>rg_heap := (rg_heap reg)(e := v)\<rparr>) T K U D"
    unfolding reg_rep_def bucket_cong[of "reg\<lparr>rg_heap := (rg_heap reg)(e := v)\<rparr>" reg, simplified]
    using k[unfolded reg_rep_def] e by auto
  then show ?thesis by (auto simp: reg_rel_def)
qed

lemma drop_rel:
  assumes r: "reg_rel reg T" and e: "T e = Some en"
  obtains r1 r2 where "registry_entry_unlink reg e = Some r1" "registry_free_entry r1 e = Some r2" "reg_rel r2 (T(e := None))" "frame_eq r2 reg"
    "rg_heap r2 = (rg_heap reg)(e := None)"
proof -
  obtain r1 where u: "registry_entry_unlink reg e = Some r1" "reg_rel r1 (T(e := None))" "rg_heap r1 = rg_heap reg" "frame_eq r1 reg"
    using unlink_rel[OF assms] .
  show thesis
    using that[OF u(1), of "r1\<lparr>rg_heap := (rg_heap r1)(e := None)\<rparr>"] heap_outside_rel[OF u(2), of e None] u(3,4) reg_rel_heap[OF assms]
    by (simp add: registry_free_entry_def frame_eq_def)
qed

lemma mark_dead_rel:
  assumes r: "reg_rel reg T" and e: "T e = Some en" "\<not> en_dead en"
  obtains r1 where "registry_mark_dead reg e = Some r1" "reg_rel r1 (T(e \<mapsto> en\<lparr>en_dead := True\<rparr>))" "frame_eq r1 reg"
    "rg_heap r1 = (rg_heap reg)(e \<mapsto> en\<lparr>en_dead := True\<rparr>)"
proof -
  obtain K U D where k: "reg_rep reg T K U D" using r by (auto simp: reg_rel_def)
  let ?en = "en\<lparr>en_dead := True\<rparr>"
  define r1 where "r1 = reg\<lparr>rg_heap := (rg_heap reg)(e \<mapsto> ?en), rg_dead := chain_add (rg_dead reg) 0 e, rg_n_dead := rg_n_dead reg + 1\<rparr>"
  have m: "registry_mark_dead reg e = Some r1"
    by (simp add: registry_mark_dead_def rep_entry(1)[OF k e(1)] dead_chain_add_def Let_def r1_def)
  have out: "e \<notin> dead_of T" using e by (simp add: in_dead_of)
  have fin: "finite (dead_of T)" using rep_fin[OF k] dead_of_dom finite_subset by blast
  have dm: "dom (T(e \<mapsto> ?en)) = dom T" using e by auto
  have b: "registry_key_bucket r1 = registry_key_bucket reg" "registry_uid_bucket r1 = registry_uid_bucket reg"
    using bucket_cong[of r1 reg] by (simp_all add: r1_def)
  have "reg_rep r1 (T(e \<mapsto> ?en)) K U (D(0 := e # D 0))"
    unfolding reg_rep_def b dm
  proof (intro conjI allI impI)
    show "chain_rep (rg_dead r1) (D(0 := e # D 0))" using chain_add_rep[OF rep_dead[OF k], of e 0] out rep_mD[OF k] by (simp add: r1_def)
    show "members (D(0 := e # D 0)) = dead_of (T(e \<mapsto> ?en))" by (simp add: members_add rep_mD[OF k] dead_of_upd)
    show "(D(0 := e # D 0)) b = []" if "b \<noteq> 0" for b using rep_one_head[OF k] that by simp
    show "rg_n_dead r1 = card (dead_of (T(e \<mapsto> ?en)))" using rep_n_dead[OF k] fin out by (simp add: r1_def dead_of_upd)
    show "one_live (T(e \<mapsto> ?en))" using rep_one[OF k] by (auto simp: one_live_def live_at_def split: if_splits)
    fix x en' assume "(T(e \<mapsto> ?en)) x = Some en'"
    then have "x = e \<and> en' = ?en \<or> x \<noteq> e \<and> T x = Some en'" by (auto split: if_splits)
    then show "rg_heap r1 x = Some en'" "x \<in> set (K (registry_key_bucket reg (en_uid en') (en_session_id en')))" "x \<in> set (U (registry_uid_bucket reg (en_uid en')))"
      using rep_entry[OF k, of x] e(1) by (auto simp: r1_def)
  qed (use rep_key[OF k] rep_uid[OF k] rep_mK[OF k] rep_mU[OF k] rep_fin[OF k] rep_n[OF k] rep_cap[OF k] in \<open>simp_all add: r1_def\<close>)
  then show thesis using that[OF m] by (auto simp: reg_rel_def r1_def frame_eq_def)
qed

lemma link_rel:
  assumes r: "reg_rel reg T" and e: "T e = None" "rg_heap reg e = Some en" "\<not> en_dead en"
    and free: "\<And>x. \<not> live_at T (en_uid en) (en_session_id en) x" "card (dom T) < CLOAK_REGISTRY_MAX_SESSIONS"
  obtains r1 where "registry_entry_link reg e = Some r1" "reg_rel r1 (T(e \<mapsto> en))" "frame_eq r1 reg" "rg_heap r1 = rg_heap reg"
proof -
  obtain K U D where k: "reg_rep reg T K U D" using r by (auto simp: reg_rel_def)
  let ?kb = "registry_key_bucket reg (en_uid en) (en_session_id en)" and ?ub = "registry_uid_bucket reg (en_uid en)"
  define r1 where "r1 = reg\<lparr>rg_key := chain_add (rg_key reg) ?kb e, rg_uid := chain_add (rg_uid reg) ?ub e, rg_n_entries := rg_n_entries reg + 1\<rparr>"
  have m: "registry_entry_link reg e = Some r1"
    using bucket_cong[of "reg\<lparr>rg_key := chain_add (rg_key reg) ?kb e\<rparr>" reg]
    by (simp add: registry_entry_link_def key_chain_add_def uid_chain_add_def e r1_def)
  have out: "e \<notin> members K" "e \<notin> members U" using e(1) by (auto simp: rep_mK[OF k] rep_mU[OF k])
  have b: "registry_key_bucket r1 = registry_key_bucket reg" "registry_uid_bucket r1 = registry_uid_bucket reg"
    using bucket_cong[of r1 reg] by (simp_all add: r1_def)
  have dd: "dead_of (T(e \<mapsto> en)) = dead_of T" using e by (auto simp: dead_of_upd dead_of_def)
  have "reg_rep r1 (T(e \<mapsto> en)) (K(?kb := e # K ?kb)) (U(?ub := e # U ?ub)) D"
    unfolding reg_rep_def b dd
  proof (intro conjI allI impI)
    show "chain_rep (rg_key r1) (K(?kb := e # K ?kb))" using chain_add_rep[OF rep_key[OF k] out(1)] by (simp add: r1_def)
    show "chain_rep (rg_uid r1) (U(?ub := e # U ?ub))" using chain_add_rep[OF rep_uid[OF k] out(2)] by (simp add: r1_def)
    show "rg_n_entries r1 = card (dom (T(e \<mapsto> en)))" using rep_n[OF k] rep_fin[OF k] e(1) by (simp add: r1_def domIff)
    show "card (dom (T(e \<mapsto> en))) \<le> CLOAK_REGISTRY_MAX_SESSIONS" using free(2) rep_fin[OF k] e(1) by (simp add: domIff)
    show "one_live (T(e \<mapsto> en))"
      using rep_one[OF k] free(1) unfolding one_live_def live_at_upd by (auto split: if_splits)
    fix x en' assume "(T(e \<mapsto> en)) x = Some en'"
    then have "x = e \<and> en' = en \<or> x \<noteq> e \<and> T x = Some en'" by (auto split: if_splits)
    then show "rg_heap r1 x = Some en'" "x \<in> set ((K(?kb := e # K ?kb)) (registry_key_bucket reg (en_uid en') (en_session_id en')))"
      "x \<in> set ((U(?ub := e # U ?ub)) (registry_uid_bucket reg (en_uid en')))"
      using rep_entry[OF k, of x] e(2) by (auto simp: r1_def)
  qed (use rep_dead[OF k] rep_mK[OF k] rep_mU[OF k] rep_mD[OF k] rep_fin[OF k] rep_n_dead[OF k] rep_one_head[OF k] in \<open>simp_all add: r1_def members_add\<close>)
  then show thesis using that[OF m] by (auto simp: reg_rel_def r1_def frame_eq_def)
qed

lemma dead_head:
  assumes "reg_rel reg T"
  shows "case ch_head (rg_dead reg) 0 of None \<Rightarrow> dead_of T = {} | Some e \<Rightarrow> e \<in> dead_of T"
proof -
  obtain K U D where k: "reg_rep reg T K U D" using assms by (auto simp: reg_rel_def)
  have "dead_of T = set (D 0)"
  proof -
    have "x \<in> set (D b) \<Longrightarrow> b = 0" for x b using rep_one_head[OF k] by (cases "b = 0") auto
    then show ?thesis unfolding rep_mD[OF k, symmetric] members_def by blast
  qed
  then show ?thesis using rep_seg[OF rep_dead[OF k], of 0] by (cases "D 0") auto
qed

lemma sweep_rel:
  "reg_rel reg T \<Longrightarrow> \<exists>r1. registry_sweep_dead_entries reg = Some r1 \<and> reg_rel r1 (T |` (- dead_of T)) \<and> frame_eq r1 reg
     \<and> rg_heap r1 = rg_heap reg |` (- dead_of T)"
proof (induction "card (dead_of T)" arbitrary: reg T)
  case 0
  then have d: "dead_of T = {}" using reg_rel_bound[OF 0(2)] finite_subset[OF dead_of_dom] by (metis card_0_eq)
  have "ch_head (rg_dead reg) 0 = None" using dead_head[OF 0(2)] d by (auto split: option.splits)
  then show ?case using 0 d by (subst registry_sweep_dead_entries.simps) (simp add: frame_eq_def restrict_map_def)
next
  case (Suc n)
  have fin: "finite (dead_of T)" using Suc(2) card_ge_0_finite by force
  then have "dead_of T \<noteq> {}" using Suc(2) by auto
  then obtain e where e: "ch_head (rg_dead reg) 0 = Some e" "e \<in> dead_of T" using dead_head[OF Suc(3)] by (auto split: option.splits)
  then obtain en where en: "T e = Some en" by (auto simp: dead_of_def)
  obtain r1 r2 where d: "registry_entry_unlink reg e = Some r1" "registry_free_entry r1 e = Some r2" "reg_rel r2 (T(e := None))" "frame_eq r2 reg"
    "rg_heap r2 = (rg_heap reg)(e := None)" using drop_rel[OF Suc(3) en] .
  have "n = card (dead_of (T(e := None)))" using Suc(2) fin e(2) by (simp add: dead_of_upd)
  then obtain r3 where r3: "registry_sweep_dead_entries r2 = Some r3" "reg_rel r3 (T(e := None) |` (- dead_of (T(e := None))))" "frame_eq r3 r2"
    "rg_heap r3 = rg_heap r2 |` (- dead_of (T(e := None)))" using Suc(1) d(3) by blast
  have "T(e := None) |` (- dead_of (T(e := None))) = T |` (- dead_of T)"
    "(rg_heap reg)(e := None) |` (- dead_of (T(e := None))) = rg_heap reg |` (- dead_of T)"
    using e(2) by (auto simp: dead_of_upd restrict_map_def fun_eq_iff)
  then show ?case using e d r3 by (subst registry_sweep_dead_entries.simps) (simp add: frame_eq_def)
qed

lemma uid_find:
  assumes r: "reg_rel reg T"
  obtains x n where "chain_find (\<lambda>x. map_option (\<lambda>en. en_uid en = uid) (rg_heap reg x)) (rg_uid reg) (ch_head (rg_uid reg) (registry_uid_bucket reg uid)) = Some (x, n)"
    "case x of None \<Rightarrow> \<forall>e en. T e = Some en \<longrightarrow> en_uid en \<noteq> uid | Some e \<Rightarrow> \<exists>en. T e = Some en \<and> en_uid en = uid"
proof -
  obtain K U D where k: "reg_rep reg T K U D" using r by (auto simp: reg_rel_def)
  let ?b = "registry_uid_bucket reg uid"
  let ?P = "\<lambda>x. \<exists>en. T x = Some en \<and> en_uid en = uid"
  have in_T: "\<exists>en. T x = Some en" if "x \<in> set (U ?b)" for x using that rep_mU[OF k] by (auto simp: members_def)
  have f: "chain_find (\<lambda>x. map_option (\<lambda>en. en_uid en = uid) (rg_heap reg x)) (rg_uid reg) (ch_head (rg_uid reg) ?b)
      = Some (find ?P (U ?b), if \<exists>x\<in>set (U ?b). ?P x then Suc (length (takeWhile (\<lambda>x. \<not> ?P x) (U ?b))) else length (U ?b))"
    using in_T rep_entry(1)[OF k] by (intro chain_find_seg[OF rep_seg[OF rep_uid[OF k]]]) fastforce
  have in_b: "x \<in> set (U ?b)" if "?P x" for x using that rep_entry(3)[OF k] by auto
  show thesis
  proof (rule that[OF f], cases "find ?P (U ?b)")
    case None
    show "case find ?P (U ?b) of None \<Rightarrow> \<forall>e en. T e = Some en \<longrightarrow> en_uid en \<noteq> uid | Some e \<Rightarrow> \<exists>en. T e = Some en \<and> en_uid en = uid"
      using find_NoneD[OF None] in_b unfolding None by simp blast
  next
    case (Some e)
    show "case find ?P (U ?b) of None \<Rightarrow> \<forall>e en. T e = Some en \<longrightarrow> en_uid en \<noteq> uid | Some e \<Rightarrow> \<exists>en. T e = Some en \<and> en_uid en = uid"
      using find_SomeD[OF Some] unfolding Some by simp
  qed
qed

lemma count_for_uid_rel:
  assumes r: "reg_rel reg T"
  obtains n where "cloak_server_registry_count_for_uid reg uid
    = Some (card {x. \<exists>sid. live_at T uid sid x}, reg\<lparr>rg_lookup_calls := rg_lookup_calls reg + 1, rg_lookup_probe_steps := n\<rparr>)"
proof -
  obtain K U D where k: "reg_rep reg T K U D" using r by (auto simp: reg_rel_def)
  let ?b = "registry_uid_bucket reg uid"
  let ?P = "\<lambda>x. \<exists>sid. live_at T uid sid x"
  have in_T: "\<exists>en. T x = Some en" if "x \<in> set (U ?b)" for x using that rep_mU[OF k] by (auto simp: members_def)
  have "chain_count (\<lambda>x. map_option (\<lambda>en. \<not> en_dead en \<and> en_uid en = uid) (rg_heap reg x)) (rg_uid reg) (ch_head (rg_uid reg) ?b)
      = Some (length (filter ?P (U ?b)), length (U ?b))"
    using in_T rep_entry(1)[OF k] by (intro chain_count_seg[OF rep_seg[OF rep_uid[OF k]]]) (fastforce simp: live_at_def)
  moreover have "length (filter ?P (U ?b)) = card {x. ?P x}"
  proof -
    have "set (filter ?P (U ?b)) = {x. ?P x}" using rep_entry(3)[OF k] by (auto simp: live_at_def)
    then show ?thesis using rep_distinct[OF rep_uid[OF k], of ?b] distinct_card[of "filter ?P (U ?b)"] by simp
  qed
  ultimately show thesis
    by (intro that) (auto simp: cloak_server_registry_count_for_uid_def Let_def bucket_cong[of "reg\<lparr>rg_lookup_calls := _\<rparr>" reg])
qed

definition of_uid :: "'s reg_table \<Rightarrow> bytes \<Rightarrow> addr set" where
  "of_uid T uid = {x. \<exists>en. T x = Some en \<and> en_uid en = uid}"

definition reentrant_ok :: "('s, 'w) registry_cb \<Rightarrow> bool" where
  \<comment> \<open>what an owner's callback may do: it returns, keeps the table well formed, and at most closes sessions that are in it\<close>
  "reentrant_ok cb \<longleftrightarrow>
     (\<forall>uid sid e reg w T. reg_rel reg T \<longrightarrow>
        (\<exists>r1 w1 T1. cb uid sid e (reg, w) = Some (r1, w1) \<and> reg_rel r1 T1 \<and> T1 \<subseteq>\<^sub>m T \<and> rg_hash_key r1 = rg_hash_key reg
           \<and> (\<forall>x. T x = None \<longrightarrow> rg_heap r1 x = rg_heap reg x)))"

lemma of_uid_less: "T' \<subseteq>\<^sub>m T(e := None) \<Longrightarrow> e \<in> of_uid T uid \<Longrightarrow> finite (dom T) \<Longrightarrow> card (of_uid T' uid) < card (of_uid T uid)"
proof -
  assume a: "T' \<subseteq>\<^sub>m T(e := None)" "e \<in> of_uid T uid" "finite (dom T)"
  have "T' x = Some en \<Longrightarrow> x \<noteq> e \<and> T x = Some en" for x en using a(1) unfolding map_le_def by (metis domI fun_upd_def option.discI)
  then have "of_uid T' uid \<subset> of_uid T uid" using a(2) by (fastforce simp: of_uid_def)
  moreover have "finite (of_uid T uid)" using a(3) by (rule finite_subset[rotated]) (auto simp: of_uid_def)
  ultimately show ?thesis by (simp add: psubset_card_mono)
qed

lemma close_all_loop_rel:
  assumes cb: "\<And>cb. on_closing = Some cb \<Longrightarrow> reentrant_ok cb"
  shows "reg_rel reg T \<Longrightarrow> bucket = registry_uid_bucket reg uid \<Longrightarrow> \<exists>m r1 w1 T1. close_all_loop on_closing uid bucket n (reg, w) = Some (m, r1, w1)
     \<and> reg_rel r1 T1 \<and> T1 \<subseteq>\<^sub>m T \<and> of_uid T1 uid = {}"
proof (induction "card (of_uid T uid)" arbitrary: reg T w n rule: less_induct)
  case less
  obtain x k where f: "chain_find (\<lambda>x. map_option (\<lambda>en. en_uid en = uid) (rg_heap reg x)) (rg_uid reg) (ch_head (rg_uid reg) bucket) = Some (x, k)"
    "case x of None \<Rightarrow> \<forall>e en. T e = Some en \<longrightarrow> en_uid en \<noteq> uid | Some e \<Rightarrow> \<exists>en. T e = Some en \<and> en_uid en = uid"
    using uid_find[OF less(2), of uid, folded less(3)] .
  show ?case
  proof (cases x)
    case None
    then show ?thesis using f less(2) by (subst close_all_loop.simps) (auto simp: of_uid_def)
  next
    case (Some e)
    then obtain en where en: "T e = Some en" "en_uid en = uid" using f by auto
    obtain r1 where u: "registry_entry_unlink reg e = Some r1" "reg_rel r1 (T(e := None))" "rg_heap r1 = rg_heap reg" "frame_eq r1 reg"
      using unlink_rel[OF less(2) en(1)] .
    have h: "rg_heap r1 e = Some en" using u(3) reg_rel_heap[OF less(2) en(1)] by simp
    let ?call = "case on_closing of None \<Rightarrow> Some (r1, w) | Some cb \<Rightarrow> cb (en_uid en) (en_session_id en) e (r1, w)"
    obtain r2 w2 T2 where c: "?call = Some (r2, w2)" "reg_rel r2 T2" "T2 \<subseteq>\<^sub>m T(e := None)" "rg_hash_key r2 = rg_hash_key r1" "rg_heap r2 e = Some en"
    proof (cases on_closing)
      case None
      then show ?thesis using that[of r1 w "T(e := None)"] u(2) h by simp
    next
      case (Some cb)
      have "(T(e := None)) e = None" by simp
      then obtain r2 w2 T2 where "cb (en_uid en) (en_session_id en) e (r1, w) = Some (r2, w2)" "reg_rel r2 T2" "T2 \<subseteq>\<^sub>m T(e := None)"
        "rg_hash_key r2 = rg_hash_key r1" "rg_heap r2 e = rg_heap r1 e"
        using cb[OF Some, unfolded reentrant_ok_def] u(2) by blast
      then show ?thesis using that[of r2 w2 T2] Some h by simp
    qed
    have te: "T2 e = None" using c(3) unfolding map_le_def by (metis domIff fun_upd_same)
    let ?r3 = "r2\<lparr>rg_heap := (rg_heap r2)(e := None)\<rparr>"
    have r3: "registry_free_entry r2 e = Some ?r3" "reg_rel ?r3 T2" using heap_outside_rel[OF c(2) te] c(5) by (simp_all add: registry_free_entry_def)
    have less2: "card (of_uid T2 uid) < card (of_uid T uid)"
      using of_uid_less[OF c(3)] en reg_rel_bound[OF less(2)] by (auto simp: of_uid_def)
    have "bucket = registry_uid_bucket ?r3 uid" using less(3) c(4) u(4) by (simp add: registry_uid_bucket_def frame_eq_def)
    then obtain m r4 w4 T4 where r4: "close_all_loop on_closing uid bucket (n + 1) (?r3, w2) = Some (m, r4, w4)" "reg_rel r4 T4" "T4 \<subseteq>\<^sub>m T2" "of_uid T4 uid = {}"
      using less(1)[OF less2 r3(2)] by blast
    have "T4 \<subseteq>\<^sub>m T" using map_le_trans[OF r4(3) map_le_trans[OF c(3)]] by (simp add: map_le_def)
    moreover have "close_all_loop on_closing uid bucket n (reg, w) = Some (m, r4, w4)"
      by (subst close_all_loop.simps) (simp only: prod.case f(1) Some u(1) h c(1) r3(1) r4(1) Option.bind.bind_lunit option.case)
    ultimately show ?thesis using r4 by blast
  qed
qed

lemma bucket_head:
  assumes r: "reg_rel reg T"
  shows "case ch_head (rg_key reg) i of
      None \<Rightarrow> \<forall>x en. T x = Some en \<longrightarrow> registry_key_bucket reg (en_uid en) (en_session_id en) \<noteq> i
    | Some e \<Rightarrow> \<exists>en. T e = Some en \<and> registry_key_bucket reg (en_uid en) (en_session_id en) = i"
proof -
  obtain K U D where k: "reg_rep reg T K U D" using r by (auto simp: reg_rel_def)
  show ?thesis
  proof (cases "K i")
    case Nil
    then have "ch_head (rg_key reg) i = None" using rep_seg[OF rep_key[OF k], of i] by simp
    moreover have "registry_key_bucket reg (en_uid en) (en_session_id en) \<noteq> i" if "T x = Some en" for x en using rep_entry(2)[OF k that] Nil by auto
    ultimately show ?thesis by simp
  next
    case (Cons e es)
    then have h: "ch_head (rg_key reg) i = Some e" "e \<in> set (K i)" using rep_seg[OF rep_key[OF k], of i] by auto
    then have "e \<in> dom T" using rep_mK[OF k] by (auto simp: members_def)
    then obtain en where en: "T e = Some en" by auto
    then show ?thesis using h(1) rep_disjoint[OF rep_key[OF k] rep_entry(2)[OF k en] h(2)] by simp
  qed
qed

definition quiet :: "(bytes \<Rightarrow> u32 \<Rightarrow> addr \<Rightarrow> 'w \<Rightarrow> 'w) \<Rightarrow> ('s, 'w) registry_cb" where
  \<comment> \<open>a callback that leaves the registry alone\<close>
  "quiet f uid sid e st = Some (fst st, f uid sid e (snd st))"

definition tell :: "(bytes \<Rightarrow> u32 \<Rightarrow> addr \<Rightarrow> 'w \<Rightarrow> 'w) \<Rightarrow> 's reg_table \<Rightarrow> addr \<Rightarrow> 'w \<Rightarrow> 'w" where
  \<comment> \<open>what the owner is told when the entry at an address goes\<close>
  "tell f T e w = (case T e of None \<Rightarrow> w | Some en \<Rightarrow> f (en_uid en) (en_session_id en) e w)"

lemma close_all_quiet:
  "reg_rel reg T \<Longrightarrow> bucket = registry_uid_bucket reg uid \<Longrightarrow>
    \<exists>r1 xs. close_all_loop (Some (quiet f)) uid bucket n (reg, w) = Some (n + length xs, r1, fold (tell f T) xs w)
     \<and> reg_rel r1 (T |` (- of_uid T uid)) \<and> frame_eq r1 reg \<and> rg_heap r1 = rg_heap reg |` (- of_uid T uid) \<and> distinct xs \<and> set xs = of_uid T uid"
proof (induction "card (of_uid T uid)" arbitrary: reg T w n rule: less_induct)
  case less
  obtain x k where f: "chain_find (\<lambda>x. map_option (\<lambda>en. en_uid en = uid) (rg_heap reg x)) (rg_uid reg) (ch_head (rg_uid reg) bucket) = Some (x, k)"
    "case x of None \<Rightarrow> \<forall>e en. T e = Some en \<longrightarrow> en_uid en \<noteq> uid | Some e \<Rightarrow> \<exists>en. T e = Some en \<and> en_uid en = uid"
    using uid_find[OF less(2), of uid, folded less(3)] .
  show ?case
  proof (cases x)
    case None
    then have e: "of_uid T uid = {}" using f(2) by (auto simp: of_uid_def)
    show ?thesis
      by (rule exI[of _ reg], rule exI[of _ "[]"], subst close_all_loop.simps) (use e f(1) None less(2) in \<open>simp add: frame_eq_def restrict_map_def\<close>)
  next
    case (Some e)
    then obtain en where en: "T e = Some en" "en_uid en = uid" using f by auto
    have eu: "e \<in> of_uid T uid" using en by (simp add: of_uid_def)
    obtain r1 r2 where d: "registry_entry_unlink reg e = Some r1" "registry_free_entry r1 e = Some r2" "reg_rel r2 (T(e := None))" "frame_eq r2 reg"
      "rg_heap r2 = (rg_heap reg)(e := None)" using drop_rel[OF less(2) en(1)] .
    have h: "rg_heap r1 e = Some en"
      using unlink_rel[OF less(2) en(1)] d(1) reg_rel_heap[OF less(2) en(1)] by (metis option.inject)
    have less2: "card (of_uid (T(e := None)) uid) < card (of_uid T uid)"
      using of_uid_less[of "T(e := None)" T e uid] eu reg_rel_bound[OF less(2)] by simp
    have "bucket = registry_uid_bucket r2 uid" using less(3) d(4) by (simp add: registry_uid_bucket_def frame_eq_def)
    then obtain r3 xs where r3: "close_all_loop (Some (quiet f)) uid bucket (n + 1) (r2, tell f T e w) = Some (n + 1 + length xs, r3, fold (tell f (T(e := None))) xs (tell f T e w))"
      "reg_rel r3 (T(e := None) |` (- of_uid (T(e := None)) uid))" "frame_eq r3 r2" "rg_heap r3 = rg_heap r2 |` (- of_uid (T(e := None)) uid)"
      "distinct xs" "set xs = of_uid (T(e := None)) uid" using less(1)[OF less2 d(3)] by blast
    have o: "of_uid (T(e := None)) uid = of_uid T uid - {e}" by (auto simp: of_uid_def)
    have "close_all_loop (Some (quiet f)) uid bucket n (reg, w) = close_all_loop (Some (quiet f)) uid bucket (n + 1) (r2, tell f T e w)"
      by (subst close_all_loop.simps) (simp add: f(1) Some d(1,2) h quiet_def tell_def en)
    moreover have "fold (tell f (T(e := None))) xs v = fold (tell f T) xs v" for v
      using r3(6) o by (intro fold_cong) (auto simp: tell_def fun_eq_iff)
    moreover have "T(e := None) |` (- of_uid (T(e := None)) uid) = T |` (- of_uid T uid)" "(rg_heap reg)(e := None) |` (- of_uid (T(e := None)) uid) = rg_heap reg |` (- of_uid T uid)"
      using eu by (auto simp: o restrict_map_def fun_eq_iff)
    ultimately show ?thesis using r3 d(4,5) o eu
      by (intro exI[of _ r3] exI[of _ "e # xs"]) (auto simp: frame_eq_def)
  qed
qed

definition in_buckets :: "'s server_registry \<Rightarrow> 's reg_table \<Rightarrow> nat set \<Rightarrow> addr set" where
  "in_buckets reg T B = {x. \<exists>en. T x = Some en \<and> registry_key_bucket reg (en_uid en) (en_session_id en) \<in> B}"

lemma destroy_bucket_rel:
  "reg_rel reg T \<Longrightarrow> \<exists>r1. destroy_bucket i reg = Some r1 \<and> reg_rel r1 (T |` (- in_buckets reg T {i})) \<and> frame_eq r1 reg
     \<and> rg_heap r1 = rg_heap reg |` (- in_buckets reg T {i})"
proof (induction "card (in_buckets reg T {i})" arbitrary: reg T rule: less_induct)
  case less
  show ?case
  proof (cases "ch_head (rg_key reg) i")
    case None
    then have "in_buckets reg T {i} = {}" using bucket_head[OF less(2), of i] by (auto simp: in_buckets_def)
    then show ?thesis using less(2) None by (subst destroy_bucket.simps) (simp add: frame_eq_def restrict_map_def)
  next
    case (Some e)
    then obtain en where en: "T e = Some en" "registry_key_bucket reg (en_uid en) (en_session_id en) = i" using bucket_head[OF less(2), of i] by auto
    obtain r1 r2 where d: "registry_entry_unlink reg e = Some r1" "registry_free_entry r1 e = Some r2" "reg_rel r2 (T(e := None))" "frame_eq r2 reg"
      "rg_heap r2 = (rg_heap reg)(e := None)" using drop_rel[OF less(2) en(1)] .
    have b: "registry_key_bucket r2 = registry_key_bucket reg" using bucket_cong(1)[of r2 reg] d(4) by (simp add: frame_eq_def)
    have e: "e \<in> in_buckets reg T {i}" using en by (simp add: in_buckets_def)
    have o: "in_buckets r2 (T(e := None)) {i} = in_buckets reg T {i} - {e}" by (auto simp: in_buckets_def b)
    have "in_buckets reg T {i} \<subseteq> dom T" by (auto simp: in_buckets_def)
    then have "finite (in_buckets reg T {i})" using reg_rel_bound[OF less(2)] finite_subset by blast
    then have less2: "card (in_buckets r2 (T(e := None)) {i}) < card (in_buckets reg T {i})" unfolding o using e by (rule card_Diff1_less)
    obtain r3 where r3: "destroy_bucket i r2 = Some r3" "reg_rel r3 (T(e := None) |` (- in_buckets r2 (T(e := None)) {i}))" "frame_eq r3 r2"
      "rg_heap r3 = rg_heap r2 |` (- in_buckets r2 (T(e := None)) {i})" using less(1)[OF less2 d(3)] by blast
    have "T(e := None) |` (- in_buckets r2 (T(e := None)) {i}) = T |` (- in_buckets reg T {i})"
      "(rg_heap reg)(e := None) |` (- in_buckets r2 (T(e := None)) {i}) = rg_heap reg |` (- in_buckets reg T {i})"
      using e by (auto simp: o restrict_map_def fun_eq_iff)
    moreover have "destroy_bucket i reg = Some r3"
      by (subst destroy_bucket.simps) (simp only: Some d(1,2) r3(1) Option.bind.bind_lunit option.case)
    ultimately show ?thesis using d(4,5) r3 by (simp add: frame_eq_def)
  qed
qed

lemma destroy_buckets_rel:
  "reg_rel reg T \<Longrightarrow> rg_heap reg = T \<Longrightarrow> \<exists>r1. destroy_buckets is reg = Some r1 \<and> reg_rel r1 (T |` (- in_buckets reg T (set is))) \<and> frame_eq r1 reg
     \<and> rg_heap r1 = T |` (- in_buckets reg T (set is))"
proof (induction "is" arbitrary: reg T)
  case Nil
  then show ?case by (simp add: in_buckets_def restrict_map_def frame_eq_def)
next
  case (Cons i "is")
  let ?T1 = "T |` (- in_buckets reg T {i})"
  obtain r1 where r1: "destroy_bucket i reg = Some r1" "reg_rel r1 ?T1" "frame_eq r1 reg" "rg_heap r1 = ?T1"
    using destroy_bucket_rel[OF Cons(2)] Cons(3) by metis
  obtain r2 where r2: "destroy_buckets is r1 = Some r2" "reg_rel r2 (?T1 |` (- in_buckets r1 ?T1 (set is)))" "frame_eq r2 r1"
    "rg_heap r2 = ?T1 |` (- in_buckets r1 ?T1 (set is))"
    using Cons.IH[OF r1(2,4)] by blast
  have b: "registry_key_bucket r1 = registry_key_bucket reg" using bucket_cong(1)[of r1 reg] r1(3) by (simp add: frame_eq_def)
  have "?T1 |` (- in_buckets r1 ?T1 (set is)) = T |` (- in_buckets reg T (set (i # is)))"
    by (auto simp: in_buckets_def restrict_map_def fun_eq_iff b)
  then show ?case using r1 r2 by (simp add: frame_eq_def)
qed

lemma key_bucket_range: "registry_key_bucket reg uid sid < CLOAK_REGISTRY_KEY_BUCKETS"
proof -
  have "unat (x AND 0x7ff) < 2048" for x :: u64
    using word_and_le1[of x "0x7ff"] by (simp add: word_le_nat_alt)
  then show ?thesis by (simp add: registry_key_bucket_def CLOAK_REGISTRY_KEY_BUCKETS_def)
qed

lemma destroy_rel:
  assumes r: "reg_rel reg T" "rg_heap reg = T"
  shows "\<exists>r1. cloak_server_registry_destroy reg = Some r1 \<and> reg_rel r1 Map.empty \<and> rg_heap r1 = Map.empty \<and> \<not> rg_sweep_timer r1 \<and> rg_destroyed r1"
proof -
  have "\<exists>r1 T1. (if rg_sweep_timer reg then Option.bind (registry_sweep_dead_entries (reg\<lparr>rg_destroyed := True\<rparr>)) (\<lambda>r2. Some (r2\<lparr>rg_sweep_timer := False\<rparr>))
      else Some (reg\<lparr>rg_destroyed := True\<rparr>)) = Some r1 \<and> reg_rel r1 T1 \<and> rg_heap r1 = T1 \<and> \<not> rg_sweep_timer r1 \<and> rg_destroyed r1"
  proof (cases "rg_sweep_timer reg")
    case True
    obtain r1 where "registry_sweep_dead_entries (reg\<lparr>rg_destroyed := True\<rparr>) = Some r1" "reg_rel r1 (T |` (- dead_of T))" "frame_eq r1 (reg\<lparr>rg_destroyed := True\<rparr>)"
      "rg_heap r1 = T |` (- dead_of T)"
      using sweep_rel[of "reg\<lparr>rg_destroyed := True\<rparr>" T] r by auto
    then show ?thesis using True by (intro exI[of _ "r1\<lparr>rg_sweep_timer := False\<rparr>"] exI[of _ "T |` (- dead_of T)"]) (simp add: frame_eq_def)
  qed (use r in auto)
  then obtain r1 T1 where r1: "(if rg_sweep_timer reg then Option.bind (registry_sweep_dead_entries (reg\<lparr>rg_destroyed := True\<rparr>)) (\<lambda>r2. Some (r2\<lparr>rg_sweep_timer := False\<rparr>))
      else Some (reg\<lparr>rg_destroyed := True\<rparr>)) = Some r1" "reg_rel r1 T1" "rg_heap r1 = T1" "\<not> rg_sweep_timer r1" "rg_destroyed r1" by blast
  obtain r2 where r2: "destroy_buckets [0..<CLOAK_REGISTRY_KEY_BUCKETS] r1 = Some r2" "reg_rel r2 (T1 |` (- in_buckets r1 T1 {0..<CLOAK_REGISTRY_KEY_BUCKETS}))" "frame_eq r2 r1"
    "rg_heap r2 = T1 |` (- in_buckets r1 T1 {0..<CLOAK_REGISTRY_KEY_BUCKETS})"
    using destroy_buckets_rel[OF r1(2,3), of "[0..<CLOAK_REGISTRY_KEY_BUCKETS]"] by auto
  have "T1 |` (- in_buckets r1 T1 {0..<CLOAK_REGISTRY_KEY_BUCKETS}) = Map.empty"
    by (auto simp: in_buckets_def restrict_map_def fun_eq_iff key_bucket_range split: option.splits)
  then show ?thesis using r1 r2 by (simp add: cloak_server_registry_destroy_def frame_eq_def)
qed

section \<open>Any sequence of operations\<close>

datatype 's reg_op =
    Get_or_create bytes u32 "'s option" "addr option"
  | Find bytes u32
  | Close bytes u32
  | Count_for_uid bytes
  | Count
  | Close_all bytes
  | Broken addr bool
  | Sweep_timer
  | Destroy

datatype reg_out =
    Out_session "(addr \<times> bool) option"
  | Out_found "addr option"
  | Out_number nat
  | Out_told nat "(bytes \<times> u32) list"
  | Out_done

definition told :: "bytes \<Rightarrow> u32 \<Rightarrow> addr \<Rightarrow> (bytes \<times> u32) list \<Rightarrow> (bytes \<times> u32) list" where
  "told uid sid e w = w @ [(uid, sid)]"

fun registry_exec :: "'s reg_op \<Rightarrow> 's server_registry \<Rightarrow> (reg_out \<times> 's server_registry) option" where
  \<comment> \<open>one call, with an owner that only takes note of what it is told\<close>
  "registry_exec (Get_or_create uid sid s cell) reg = map_option (map_prod Out_session id) (cloak_server_registry_get_or_create reg uid sid s cell)"
| "registry_exec (Find uid sid) reg = map_option (map_prod Out_found id) (cloak_server_registry_find reg uid sid)"
| "registry_exec (Close uid sid) reg = map_option (Pair Out_done) (cloak_server_registry_close reg uid sid)"
| "registry_exec (Count_for_uid uid) reg = map_option (map_prod Out_number id) (cloak_server_registry_count_for_uid reg uid)"
| "registry_exec Count reg = Some (Out_number (cloak_server_registry_count reg), reg)"
| "registry_exec (Close_all uid) reg =
     map_option (\<lambda>(n, r1, w). (Out_told n w, r1)) (cloak_server_registry_close_all_for_uid (Some (quiet told)) uid (reg, []))"
| "registry_exec (Broken e timer_ok) reg =
     map_option (\<lambda>(r1, w). (Out_told 1 w, r1)) (registry_on_session_broken (quiet told) timer_ok e (reg, []))"
| "registry_exec Sweep_timer reg = map_option (Pair Out_done) (registry_sweep_timer_cb reg)"
| "registry_exec Destroy reg = map_option (Pair Out_done) (cloak_server_registry_destroy reg)"

fun legal :: "'s server_registry \<Rightarrow> 's reg_op \<Rightarrow> bool" where
  \<comment> \<open>\<open>malloc\<close> gives a cell that is not in use; a session that exists breaks, and it breaks once; the timer fires when it is armed\<close>
  "legal reg (Get_or_create uid sid s cell) \<longleftrightarrow> (case cell of None \<Rightarrow> True | Some e \<Rightarrow> rg_heap reg e = None)"
| "legal reg (Broken e timer_ok) \<longleftrightarrow> (case rg_heap reg e of None \<Rightarrow> False | Some en \<Rightarrow> \<not> en_dead en)"
| "legal reg Sweep_timer \<longleftrightarrow> rg_sweep_timer reg"
| "legal reg _ \<longleftrightarrow> True"

definition new_entry :: "bytes \<Rightarrow> u32 \<Rightarrow> 's \<Rightarrow> 's registry_entry" where
  "new_entry uid sid s = \<lparr>en_sesh = s, en_uid = uid, en_session_id = sid, en_dead = False\<rparr>"

definition key_of :: "'s reg_table \<Rightarrow> addr \<Rightarrow> bytes \<times> u32" where
  "key_of T x = (case T x of None \<Rightarrow> ([], 0) | Some en \<Rightarrow> (en_uid en, en_session_id en))"

inductive table_step :: "'s reg_table \<Rightarrow> 's reg_op \<Rightarrow> reg_out \<Rightarrow> 's reg_table \<Rightarrow> bool" where
  \<comment> \<open>the specification, on a set of entries and no pointers\<close>
  existing: "live_at T uid sid x \<Longrightarrow> table_step T (Get_or_create uid sid s cell) (Out_session (Some (x, False))) T"
| refused: "(\<And>x. \<not> live_at T uid sid x) \<Longrightarrow> card (dom T) = CLOAK_REGISTRY_MAX_SESSIONS \<or> s = None \<or> cell = None \<Longrightarrow>
    table_step T (Get_or_create uid sid s cell) (Out_session None) T"
| created: "(\<And>x. \<not> live_at T uid sid x) \<Longrightarrow> card (dom T) < CLOAK_REGISTRY_MAX_SESSIONS \<Longrightarrow> T e = None \<Longrightarrow>
    table_step T (Get_or_create uid sid (Some s) (Some e)) (Out_session (Some (e, True))) (T(e \<mapsto> new_entry uid sid s))"
| found: "live_at T uid sid x \<Longrightarrow> table_step T (Find uid sid) (Out_found (Some x)) T"
| not_found: "(\<And>x. \<not> live_at T uid sid x) \<Longrightarrow> table_step T (Find uid sid) (Out_found None) T"
| closed: "table_step T (Close uid sid) Out_done (T |` {x. \<not> live_at T uid sid x})"
| counted_uid: "table_step T (Count_for_uid uid) (Out_number (card {x. \<exists>sid. live_at T uid sid x})) T"
| counted: "table_step T Count (Out_number (card (dom T - dead_of T))) T"
| closed_all: "distinct xs \<Longrightarrow> set xs = of_uid T uid \<Longrightarrow>
    table_step T (Close_all uid) (Out_told (length xs) (map (key_of T) xs)) (T |` (- of_uid T uid))"
| broken: "T e = Some en \<Longrightarrow> \<not> en_dead en \<Longrightarrow> T1 = T(e \<mapsto> en\<lparr>en_dead := True\<rparr>) \<Longrightarrow> T2 = T1 \<or> \<not> timer_ok \<and> T2 = T1 |` (- dead_of T1) \<Longrightarrow>
    table_step T (Broken e timer_ok) (Out_told 1 [key_of T e]) T2"
| swept: "table_step T Sweep_timer Out_done (T |` (- dead_of T))"
| destroyed: "table_step T Destroy Out_done Map.empty"

lemma exec_get_or_create:
  assumes r: "reg_rel reg (rg_heap reg)" and c: "\<And>e. cell = Some e \<Longrightarrow> rg_heap reg e = None"
  shows "\<exists>out r1. cloak_server_registry_get_or_create reg uid sid s cell = Some (out, r1) \<and> reg_rel r1 (rg_heap r1)
    \<and> table_step (rg_heap reg) (Get_or_create uid sid s cell) (Out_session out) (rg_heap r1)"
proof -
  let ?T = "rg_heap reg"
  obtain x n where f: "registry_find_live reg uid sid = Some (x, reg\<lparr>rg_lookup_calls := rg_lookup_calls reg + 1, rg_lookup_probe_steps := n\<rparr>)"
    "\<forall>y. x = Some y \<longleftrightarrow> live_at ?T uid sid y" using find_live_rel[OF r, of uid sid] .
  let ?r1 = "reg\<lparr>rg_lookup_calls := rg_lookup_calls reg + 1, rg_lookup_probe_steps := n\<rparr>"
  note b = reg_rel_bound[OF r]
  show ?thesis
  proof (cases "\<exists>y. live_at ?T uid sid y")
    case True
    then obtain y where "x = Some y" "live_at ?T uid sid y" using f(2) by auto
    then show ?thesis using f(1) r existing[of ?T uid sid y s cell] by (simp add: cloak_server_registry_get_or_create_def)
  next
    case no: False
    then have x: "x = None" using f(2) by (cases x) auto
    show ?thesis
    proof (cases "card (dom ?T) < CLOAK_REGISTRY_MAX_SESSIONS \<and> s \<noteq> None \<and> cell \<noteq> None")
      case False
      have "cloak_server_registry_get_or_create reg uid sid s cell = Some (None, ?r1)"
        using f(1) x b False by (auto simp: cloak_server_registry_get_or_create_def split: option.splits)
      then show ?thesis using r refused[of ?T uid sid s cell] no False b by fastforce
    next
      case True
      then obtain v e where v: "s = Some v" "cell = Some e" by auto
      let ?en = "new_entry uid sid v"
      let ?r2 = "?r1\<lparr>rg_heap := ?T(e \<mapsto> ?en)\<rparr>"
      have e: "?T e = None" using c v by simp
      have r2: "reg_rel ?r2 ?T" using heap_outside_rel[of ?r1 ?T e "Some ?en"] r e by simp
      obtain r3 where r3: "registry_entry_link ?r2 e = Some r3" "reg_rel r3 (?T(e \<mapsto> ?en))" "frame_eq r3 ?r2" "rg_heap r3 = rg_heap ?r2"
        using link_rel[OF r2 e, of ?en] no True by (auto simp: new_entry_def)
      have "cloak_server_registry_get_or_create reg uid sid s cell = Some (Some (e, True), r3)"
        using f(1) x b True v r3(1) by (simp add: cloak_server_registry_get_or_create_def new_entry_def)
      then show ?thesis using r3 created[of ?T uid sid e v] no True v e by auto
    qed
  qed
qed

lemma close_rel:
  assumes r: "reg_rel reg T"
  shows "\<exists>r1. cloak_server_registry_close reg uid sid = Some r1 \<and> reg_rel r1 (T |` {x. \<not> live_at T uid sid x})
    \<and> rg_heap r1 = rg_heap reg |` {x. \<not> live_at T uid sid x} \<and> frame_eq r1 reg"
proof -
  obtain x n where f: "registry_find_live reg uid sid = Some (x, reg\<lparr>rg_lookup_calls := rg_lookup_calls reg + 1, rg_lookup_probe_steps := n\<rparr>)"
    "\<forall>y. x = Some y \<longleftrightarrow> live_at T uid sid y" using find_live_rel[OF r, of uid sid] .
  let ?r1 = "reg\<lparr>rg_lookup_calls := rg_lookup_calls reg + 1, rg_lookup_probe_steps := n\<rparr>"
  show ?thesis
  proof (cases x)
    case None
    then have "{x. \<not> live_at T uid sid x} = UNIV" using f(2) by auto
    then show ?thesis using f(1) None r by (simp add: cloak_server_registry_close_def restrict_map_def frame_eq_def)
  next
    case (Some e)
    then obtain en where en: "T e = Some en" using f(2) by (auto simp: live_at_def)
    have "reg_rel ?r1 T" using r by simp
    then obtain r1 r2 where d: "registry_entry_unlink ?r1 e = Some r1" "registry_free_entry r1 e = Some r2" "reg_rel r2 (T(e := None))" "frame_eq r2 ?r1"
      "rg_heap r2 = (rg_heap ?r1)(e := None)" using drop_rel en by blast
    have "m |` {x. \<not> live_at T uid sid x} = m(e := None)" for m :: "'a reg_table" using f(2) Some by (auto simp: restrict_map_def fun_eq_iff)
    then show ?thesis using f(1) Some d by (simp add: cloak_server_registry_close_def frame_eq_def)
  qed
qed

lemma exec_close:
  assumes r: "reg_rel reg (rg_heap reg)"
  shows "\<exists>r1. cloak_server_registry_close reg uid sid = Some r1 \<and> reg_rel r1 (rg_heap r1) \<and> rg_heap r1 = rg_heap reg |` {x. \<not> live_at (rg_heap reg) uid sid x}"
  using close_rel[OF r, of uid sid] by auto

lemma exec_broken:
  assumes r: "reg_rel reg (rg_heap reg)" and e: "rg_heap reg e = Some en" "\<not> en_dead en"
  shows "\<exists>r1. registry_on_session_broken (quiet told) timer_ok e (reg, []) = Some (r1, [(en_uid en, en_session_id en)]) \<and> reg_rel r1 (rg_heap r1)
    \<and> table_step (rg_heap reg) (Broken e timer_ok) (Out_told 1 [(en_uid en, en_session_id en)]) (rg_heap r1)"
proof -
  let ?T = "rg_heap reg" and ?en = "en\<lparr>en_dead := True\<rparr>"
  obtain r1 where m: "registry_mark_dead reg e = Some r1" "reg_rel r1 (?T(e \<mapsto> ?en))" "frame_eq r1 reg" "rg_heap r1 = ?T(e \<mapsto> ?en)"
    using mark_dead_rel[OF r e] .
  have "\<exists>r2. registry_arm_sweep timer_ok r1 = Some r2 \<and> reg_rel r2 (rg_heap r2) \<and> (rg_heap r2 = rg_heap r1 \<or> \<not> timer_ok \<and> rg_heap r2 = rg_heap r1 |` (- dead_of (rg_heap r1)))"
    using m(2) sweep_rel[OF m(2)] unfolding registry_arm_sweep_def m(4)[symmetric] by auto
  then obtain r2 where "registry_arm_sweep timer_ok r1 = Some r2" "reg_rel r2 (rg_heap r2)"
    "rg_heap r2 = rg_heap r1 \<or> \<not> timer_ok \<and> rg_heap r2 = rg_heap r1 |` (- dead_of (rg_heap r1))" by blast
  then show ?thesis using m(1,4) broken[OF e m(4), of "rg_heap r2" timer_ok] e(1)
    by (auto simp: registry_on_session_broken_def quiet_def told_def key_of_def)
qed

lemma exec_step:
  assumes r: "reg_rel reg (rg_heap reg)" and l: "legal reg op"
  shows "\<exists>out r1. registry_exec op reg = Some (out, r1) \<and> reg_rel r1 (rg_heap r1) \<and> table_step (rg_heap reg) op out (rg_heap r1)"
proof (cases op)
  case (Get_or_create uid sid s cell)
  then obtain out r1 where "cloak_server_registry_get_or_create reg uid sid s cell = Some (out, r1)" "reg_rel r1 (rg_heap r1)"
    "table_step (rg_heap reg) op (Out_session out) (rg_heap r1)"
    using exec_get_or_create[OF r, of cell uid sid s] l by (auto split: option.splits)
  then show ?thesis using Get_or_create by simp
next
  case (Find uid sid)
  obtain x n where f: "registry_find_live reg uid sid = Some (x, reg\<lparr>rg_lookup_calls := rg_lookup_calls reg + 1, rg_lookup_probe_steps := n\<rparr>)"
    "\<forall>y. x = Some y \<longleftrightarrow> live_at (rg_heap reg) uid sid y" using find_live_rel[OF r, of uid sid] .
  then have "table_step (rg_heap reg) op (Out_found x) (rg_heap reg)" using Find by (cases x) (auto intro: found not_found)
  then show ?thesis using f(1) r Find by (simp add: cloak_server_registry_find_def)
next
  case (Close uid sid)
  then show ?thesis using exec_close[OF r, of uid sid] closed[of "rg_heap reg" uid sid] by auto
next
  case (Count_for_uid uid)
  obtain n where "cloak_server_registry_count_for_uid reg uid
      = Some (card {x. \<exists>sid. live_at (rg_heap reg) uid sid x}, reg\<lparr>rg_lookup_calls := rg_lookup_calls reg + 1, rg_lookup_probe_steps := n\<rparr>)"
    using count_for_uid_rel[OF r] .
  then show ?thesis using Count_for_uid r counted_uid[of "rg_heap reg" uid] by simp
next
  case Count
  note b = reg_rel_bound[OF r]
  have "cloak_server_registry_count reg = card (dom (rg_heap reg) - dead_of (rg_heap reg))"
    using b finite_subset[OF dead_of_dom, of "rg_heap reg"] card_Diff_subset[OF _ dead_of_dom, of "rg_heap reg"] by (simp add: cloak_server_registry_count_def)
  then show ?thesis using Count r counted[of "rg_heap reg"] by simp
next
  case (Close_all uid)
  have key: "fold (tell told T) xs w = w @ map (key_of T) xs" if "set xs \<subseteq> dom T" for T :: "'a reg_table" and xs w
    using that by (induction xs arbitrary: w) (auto simp: tell_def told_def key_of_def)
  obtain r1 xs where c: "close_all_loop (Some (quiet told)) uid (registry_uid_bucket reg uid) 0 (reg, []) = Some (0 + length xs, r1, fold (tell told (rg_heap reg)) xs [])"
    "reg_rel r1 (rg_heap reg |` (- of_uid (rg_heap reg) uid))" "rg_heap r1 = rg_heap reg |` (- of_uid (rg_heap reg) uid)" "distinct xs" "set xs = of_uid (rg_heap reg) uid"
    using close_all_quiet[OF r refl, where uid = uid and f = told and n = 0 and w = "[]"] by blast
  have "set xs \<subseteq> dom (rg_heap reg)" using c(5) by (auto simp: of_uid_def)
  then show ?thesis using c Close_all closed_all[OF c(4,5)] key[of xs "rg_heap reg"]
    by (simp add: cloak_server_registry_close_all_for_uid_def)
next
  case (Broken e timer_ok)
  then obtain en where "rg_heap reg e = Some en" "\<not> en_dead en" using l by (auto split: option.splits)
  then show ?thesis using exec_broken[OF r, of e en timer_ok] Broken by auto
next
  case Sweep_timer
  then show ?thesis using sweep_rel[of "reg\<lparr>rg_sweep_timer := False\<rparr>" "rg_heap reg"] r swept[of "rg_heap reg"] by (auto simp: registry_sweep_timer_cb_def)
next
  case Destroy
  then show ?thesis using destroy_rel[OF r refl] destroyed[of "rg_heap reg"] by auto
qed

section \<open>What the panel and the dispatcher rely on\<close>

locale session_store =
  fixes is_table :: "'r \<Rightarrow> 's reg_table \<Rightarrow> bool"
    and find_op :: "'r \<Rightarrow> bytes \<Rightarrow> u32 \<Rightarrow> (addr option \<times> 'r) option"
    and count_op :: "'r \<Rightarrow> bytes \<Rightarrow> (nat \<times> 'r) option"
    and close_op :: "'r \<Rightarrow> bytes \<Rightarrow> u32 \<Rightarrow> 'r option"
    and sweep_op :: "'r \<Rightarrow> 'r option"
  assumes finite_law: "is_table r T \<Longrightarrow> finite (dom T)"
    and find_law: "is_table r T \<Longrightarrow> \<exists>x r1. find_op r uid sid = Some (x, r1) \<and> is_table r1 T \<and> (\<forall>e. x = Some e \<longleftrightarrow> live_at T uid sid e)"
    and count_law: "is_table r T \<Longrightarrow> \<exists>r1. count_op r uid = Some (card {x. \<exists>sid. live_at T uid sid x}, r1) \<and> is_table r1 T"
    and close_law: "is_table r T \<Longrightarrow> \<exists>r1. close_op r uid sid = Some r1 \<and> is_table r1 (T |` {x. \<not> live_at T uid sid x})"
    and sweep_law: "is_table r T \<Longrightarrow> \<exists>r1. sweep_op r = Some r1 \<and> is_table r1 (T |` (- dead_of T))"
begin

lemma find_total:
  assumes "is_table r T"
  obtains x r1 where "find_op r uid sid = Some (x, r1)" "is_table r1 T" "\<forall>e. x = Some e \<longleftrightarrow> live_at T uid sid e"
  using find_law[OF assms, of uid sid] by blast

lemma count_total:
  assumes "is_table r T"
  obtains r1 where "count_op r uid = Some (card {x. \<exists>sid. live_at T uid sid x}, r1)" "is_table r1 T"
  using count_law[OF assms, of uid] by blast

lemma close_then_find:
  assumes "is_table r T"
  shows "\<exists>r1 r2. close_op r uid sid = Some r1 \<and> find_op r1 uid sid = Some (None, r2)"
proof -
  let ?T = "T |` {x. \<not> live_at T uid sid x}"
  obtain r1 where r1: "close_op r uid sid = Some r1" "is_table r1 ?T" using close_law[OF assms] by blast
  obtain x r2 where x: "find_op r1 uid sid = Some (x, r2)" "\<forall>e. x = Some e \<longleftrightarrow> live_at ?T uid sid e" using find_total[OF r1(2)] by metis
  have "\<not> live_at ?T uid sid e" for e by (auto simp: live_at_def restrict_map_def)
  then have "x = None" using x(2) by (cases x) auto
  then show ?thesis using r1(1) x(1) by blast
qed

lemma count_zero_finds_none:
  assumes t: "is_table r T" and z: "count_op r uid = Some (0, r1)"
  shows "\<exists>r2. find_op r uid sid = Some (None, r2)"
proof -
  have "finite {x. \<exists>sid. live_at T uid sid x}" by (rule finite_subset[OF _ finite_law[OF t]]) (auto simp: live_at_def)
  moreover have "card {x. \<exists>sid. live_at T uid sid x} = 0" using count_law[OF t, of uid] z by auto
  ultimately have "\<not> live_at T uid sid e" for e by auto
  moreover obtain x r2 where x: "find_op r uid sid = Some (x, r2)" "\<forall>e. x = Some e \<longleftrightarrow> live_at T uid sid e" using find_total[OF t] by metis
  ultimately have "x = None" by (cases x) auto
  then show ?thesis using x(1) by blast
qed

end

interpretation reg_store: session_store reg_is cloak_server_registry_find cloak_server_registry_count_for_uid cloak_server_registry_close registry_sweep_timer_cb
proof
  fix r :: "'s server_registry" and T uid sid
  assume t: "reg_is r T"
  then have rel: "reg_rel r T" and heap: "rg_heap r = T" by (simp_all add: reg_is_def)
  show "finite (dom T)" using reg_rel_bound[OF rel] by blast
  obtain x n where "registry_find_live r uid sid = Some (x, r\<lparr>rg_lookup_calls := rg_lookup_calls r + 1, rg_lookup_probe_steps := n\<rparr>)" "\<forall>e. x = Some e \<longleftrightarrow> live_at T uid sid e"
    using find_live_rel[OF rel, of uid sid] .
  then show "\<exists>x r1. cloak_server_registry_find r uid sid = Some (x, r1) \<and> reg_is r1 T \<and> (\<forall>e. x = Some e \<longleftrightarrow> live_at T uid sid e)"
    using rel heap by (simp add: cloak_server_registry_find_def reg_is_def)
  obtain n where "cloak_server_registry_count_for_uid r uid = Some (card {x. \<exists>sid. live_at T uid sid x}, r\<lparr>rg_lookup_calls := rg_lookup_calls r + 1, rg_lookup_probe_steps := n\<rparr>)"
    using count_for_uid_rel[OF rel] .
  then show "\<exists>r1. cloak_server_registry_count_for_uid r uid = Some (card {x. \<exists>sid. live_at T uid sid x}, r1) \<and> reg_is r1 T" using rel heap by (simp add: reg_is_def)
  show "\<exists>r1. cloak_server_registry_close r uid sid = Some r1 \<and> reg_is r1 (T |` {x. \<not> live_at T uid sid x})" using close_rel[OF rel, of uid sid] heap by (auto simp: reg_is_def)
  have "reg_rel (r\<lparr>rg_sweep_timer := False\<rparr>) T" using rel by simp
  then show "\<exists>r1. registry_sweep_timer_cb r = Some r1 \<and> reg_is r1 (T |` (- dead_of T))" using sweep_rel heap by (fastforce simp: registry_sweep_timer_cb_def reg_is_def)
qed

section \<open>Runs\<close>

inductive registry_runs :: "bytes \<Rightarrow> ('s reg_op \<times> reg_out) list \<Rightarrow> 's server_registry \<Rightarrow> bool" for k where
  reg_start: "registry_runs k [] (cloak_server_registry_init k)"
| reg_next: "registry_runs k tr reg \<Longrightarrow> legal reg op \<Longrightarrow> registry_exec op reg = Some (out, r1) \<Longrightarrow> registry_runs k (tr @ [(op, out)]) r1"

inductive table_runs :: "('s reg_op \<times> reg_out) list \<Rightarrow> 's reg_table \<Rightarrow> bool" where
  table_start: "table_runs [] Map.empty"
| table_next: "table_runs tr T \<Longrightarrow> table_step T op out T1 \<Longrightarrow> table_runs (tr @ [(op, out)]) T1"

lemma registry_runs_rel:
  "registry_runs k tr reg \<Longrightarrow> reg_rel reg (rg_heap reg) \<and> table_runs tr (rg_heap reg)"
proof (induction rule: registry_runs.induct)
  case reg_start
  show ?case using init_rel[of k] table_start by (simp add: cloak_server_registry_init_def)
next
  case (reg_next tr reg op out r1)
  then show ?case using exec_step[of reg op] table_next[of tr "rg_heap reg" op out "rg_heap r1"] by auto
qed

text \<open>
  C14: the registry is a table of sessions, whatever is done to it. After any sequence of calls, broken sessions, timer ticks and teardowns, starting from a fresh registry: every further call returns, so no traversal runs
  in circles, reads a freed entry or frees one twice; every answer so far is the answer of a plain table of entries without hash, pointers or counters; the cells still allocated
  are exactly the entries of that table, so nothing leaks; there is at most one live session for a user and session id; and there are never more than 1024 entries.
\<close>

theorem registry_is_a_table:
  assumes "registry_runs k tr reg"
  shows "table_runs tr (rg_heap reg) \<and> one_live (rg_heap reg) \<and> card (dom (rg_heap reg)) \<le> CLOAK_REGISTRY_MAX_SESSIONS
    \<and> (\<forall>op. legal reg op \<longrightarrow> (\<exists>out r1. registry_exec op reg = Some (out, r1) \<and> table_step (rg_heap reg) op out (rg_heap r1)))"
  using registry_runs_rel[OF assms] exec_step reg_rel_bound by blast

inductive_cases created_cases: "table_step Map.empty (Get_or_create uid sid (Some s) (Some e)) out T"

lemma created_first:
  assumes "table_step Map.empty (Get_or_create uid sid (Some s) (Some e)) out T"
  shows "out = Out_session (Some (e, True))" "T = [e \<mapsto> new_entry uid sid s]"
  using assms by (auto elim!: created_cases simp: live_at_def CLOAK_REGISTRY_MAX_SESSIONS_def)

definition sample_key :: bytes where "sample_key = replicate 16 0"

definition sample_uid :: "byte \<Rightarrow> bytes" where "sample_uid b = replicate 16 b"

lemma sample_run:
  "\<exists>reg. registry_runs sample_key [(Get_or_create (sample_uid 1) 7 (Some ''s'') (Some 40), Out_session (Some (40, True)))] reg
    \<and> rg_heap reg = [40 \<mapsto> new_entry (sample_uid 1) 7 ''s'']"
proof -
  let ?i = "cloak_server_registry_init sample_key :: string server_registry" and ?op = "Get_or_create (sample_uid 1) 7 (Some ''s'') (Some 40)"
  have i: "rg_heap ?i = Map.empty" by (simp add: cloak_server_registry_init_def)
  have "reg_rel ?i (rg_heap ?i)" using init_rel[of sample_key] i by metis
  then obtain out r1 where e: "registry_exec ?op ?i = Some (out, r1)" "table_step (rg_heap ?i) ?op out (rg_heap r1)" using exec_step[of ?i ?op] i by auto
  have l: "legal ?i ?op" by (simp add: i)
  show ?thesis using reg_next[OF reg_start l e(1)] created_first[OF e(2)[unfolded i]] by auto
qed

theorem registry_is_a_table_witness:
  "\<exists>reg. registry_runs sample_key [(Get_or_create (sample_uid 1) 7 (Some ''s'') (Some 40), Out_session (Some (40, True)))] reg
    \<and> (\<exists>r1. registry_exec (Find (sample_uid 1) 7) reg = Some (Out_found (Some 40), r1)) \<and> one_live (rg_heap reg)"
proof -
  obtain reg where r: "registry_runs sample_key [(Get_or_create (sample_uid 1) 7 (Some ''s'') (Some 40), Out_session (Some (40, True)))] reg"
    "rg_heap reg = [40 \<mapsto> new_entry (sample_uid 1) 7 ''s'']" using sample_run by blast
  note t = registry_is_a_table[OF r(1)]
  have "legal reg (Find (sample_uid 1) 7)" by simp
  then obtain out r1 where e: "registry_exec (Find (sample_uid 1) 7) reg = Some (out, r1)" "table_step (rg_heap reg) (Find (sample_uid 1) 7) out (rg_heap r1)"
    using t by blast
  have "live_at (rg_heap reg) (sample_uid 1) 7 x \<longleftrightarrow> x = 40" for x by (auto simp: r(2) live_at_def new_entry_def)
  then have "out = Out_found (Some 40)" using e(2) by (auto elim!: table_step.cases)
  then show ?thesis using r(1) e(1) t by blast
qed

text \<open>
  C15: closing all sessions of a user survives an owner that calls back. Whatever has happened to the registry and whatever the owner does in the callback for a session that goes, as long as that callback itself returns and
  at most closes further sessions: the call returns, the registry is still a table, no session of the user is left in it, live or dead, and no entry was added.
\<close>

theorem close_all_reentrant:
  assumes "registry_runs k tr reg" "reentrant_ok on_closing"
  shows "\<exists>n r1 w1 T1. cloak_server_registry_close_all_for_uid (Some on_closing) uid (reg, w) = Some (n, r1, w1)
    \<and> reg_rel r1 T1 \<and> T1 \<subseteq>\<^sub>m rg_heap reg \<and> of_uid T1 uid = {}"
  using close_all_loop_rel[of "Some on_closing" reg "rg_heap reg" _ uid 0 w, OF _ _ refl] registry_runs_rel[OF assms(1)] assms(2)
  by (simp add: cloak_server_registry_close_all_for_uid_def)

definition close_other :: "bytes \<Rightarrow> u32 \<Rightarrow> ('s, nat) registry_cb" where
  \<comment> \<open>an owner that closes one more session when it is told of one\<close>
  "close_other uid2 sid2 uid sid e st = map_option (\<lambda>r. (r, Suc (snd st))) (cloak_server_registry_close (fst st) uid2 sid2)"

lemma close_other_ok: "reentrant_ok (close_other uid2 sid2)"
  unfolding reentrant_ok_def
proof (intro allI impI)
  fix uid sid e reg w and T :: "'a reg_table"
  assume r: "reg_rel reg T"
  let ?T1 = "T |` {x. \<not> live_at T uid2 sid2 x}"
  obtain r1 where c: "cloak_server_registry_close reg uid2 sid2 = Some r1" "reg_rel r1 ?T1" "rg_heap r1 = rg_heap reg |` {x. \<not> live_at T uid2 sid2 x}" "frame_eq r1 reg"
    using close_rel[OF r, of uid2 sid2] by blast
  have "\<not> live_at T uid2 sid2 x" if "T x = None" for x using that by (simp add: live_at_def)
  then show "\<exists>r1 w1 T1. close_other uid2 sid2 uid sid e (reg, w) = Some (r1, w1) \<and> reg_rel r1 T1 \<and> T1 \<subseteq>\<^sub>m T \<and> rg_hash_key r1 = rg_hash_key reg
      \<and> (\<forall>x. T x = None \<longrightarrow> rg_heap r1 x = rg_heap reg x)"
    using c by (intro exI[of _ r1] exI[of _ "Suc w"] exI[of _ ?T1]) (auto simp: close_other_def frame_eq_def map_le_def restrict_map_def)
qed

theorem close_all_reentrant_witness:
  "\<exists>reg n r1 w1 T1. registry_runs sample_key [(Get_or_create (sample_uid 1) 7 (Some ''s'') (Some 40), Out_session (Some (40, True)))] reg
    \<and> cloak_server_registry_close_all_for_uid (Some (close_other (sample_uid 1) 7)) (sample_uid 1) (reg, 0) = Some (n, r1, w1) \<and> reg_rel r1 T1 \<and> T1 = Map.empty"
proof -
  obtain reg where r: "registry_runs sample_key [(Get_or_create (sample_uid 1) 7 (Some ''s'') (Some 40), Out_session (Some (40, True)))] reg"
    "rg_heap reg = [40 \<mapsto> new_entry (sample_uid 1) 7 ''s'']" using sample_run by blast
  obtain n r1 w1 T1 where c: "cloak_server_registry_close_all_for_uid (Some (close_other (sample_uid 1) 7)) (sample_uid 1) (reg, 0) = Some (n, r1, w1)"
    "reg_rel r1 T1" "T1 \<subseteq>\<^sub>m rg_heap reg" "of_uid T1 (sample_uid 1) = {}"
    using close_all_reentrant[OF r(1) close_other_ok] by blast
  have "T1 x = None" for x
  proof (rule ccontr)
    assume "T1 x \<noteq> None"
    then obtain en where en: "T1 x = Some en" by auto
    then have "rg_heap reg x = Some en" using c(3) unfolding map_le_def by (metis domI)
    then have "en_uid en = sample_uid 1" by (auto simp: r(2) new_entry_def split: if_splits)
    then show False using c(4) en by (auto simp: of_uid_def)
  qed
  then have "T1 = Map.empty" by (rule ext)
  then show ?thesis using r(1) c by blast
qed

end
