(* ===== verification/UserPanel.thy ===== *)
theory UserPanel
  imports Registry UserManager Valve
begin

text \<open>
  \<open>libcloak-server/src/userpanel.c\<close>: who is active, the valve that meters each of them, the queue of usage that waits for the database, and the upload cycle that
  settles it and ends whoever has run out. The panel works on the registry and on the user database, so its operations run on one state that holds all three and the owner's own world;
  they are partial in the same sense as the registry's. The owner's hooks act on that world only. Log lines are left out; what \<open>malloc\<close>, the reactor's timers and the clocks give are
  arguments. A forced upload runs a cycle from inside a termination, and a cycle never starts another one: the cycle a termination may run is therefore an argument of the termination.
\<close>

section \<open>State\<close>

definition PANEL_UID_BUCKETS :: nat where "PANEL_UID_BUCKETS = 256"
definition CLOAK_USERPANEL_MAX_ACTIVE_USERS :: nat where "CLOAK_USERPANEL_MAX_ACTIVE_USERS = CLOAK_REGISTRY_MAX_SESSIONS"
definition CLOAK_USERPANEL_MAX_QUEUED_USERS :: nat where "CLOAK_USERPANEL_MAX_QUEUED_USERS = 2 * CLOAK_USERPANEL_MAX_ACTIVE_USERS"

record panel_user =
  pu_uid :: bytes
  pu_up_rate :: int
  pu_down_rate :: int
  pu_bypass :: bool
  pu_valve :: valve
  pu_terminating :: bool

record panel_queue_entry =
  qe_uid :: bytes
  qe_up_usage :: int
  qe_down_usage :: int

record userpanel =
  up_heap :: "addr \<Rightarrow> panel_user option"
  up_active :: "addr option list"
  up_index :: chain
  up_hash_key :: bytes
  up_n_active :: nat
  up_queue :: "panel_queue_entry list"
  up_upload_timer :: bool
  up_in_cycle :: bool
  up_breaking_sesh :: "addr option"
  up_breaking_sesh_destroyed :: bool

record ('d, 'w) userpanel_config =
  pc_manager :: "'d sqlite option"
  pc_clock :: "nat \<Rightarrow> int"
  pc_now :: int
  pc_on_session_closing :: "(bytes \<Rightarrow> u32 \<Rightarrow> 'w \<Rightarrow> 'w) option"
  pc_chain :: "(addr option \<Rightarrow> bytes option \<Rightarrow> u32 \<Rightarrow> 'w \<Rightarrow> 'w) option"

record ('s, 'd, 'w) panel_sys =
  ps_panel :: userpanel
  ps_reg :: "'s server_registry"
  ps_db :: 'd
  ps_world :: 'w

datatype panel_err = Manager_err user_err | CLOAK_USERPANEL_ERR_FULL | CLOAK_USERPANEL_ERR_ALLOC

definition panel_add_sat :: "int \<Rightarrow> int \<Rightarrow> int" where
  "panel_add_sat a b = (if b > 0 \<and> a > INT64_MAX - b then INT64_MAX else a + b)"

section \<open>The active users\<close>

definition panel_uid_bucket :: "userpanel \<Rightarrow> bytes \<Rightarrow> nat" where
  "panel_uid_bucket p uid = unat (cloak_siphash24 (up_hash_key p) uid AND of_nat (PANEL_UID_BUCKETS - 1))"

definition panel_index_add :: "userpanel \<Rightarrow> addr \<Rightarrow> userpanel option" where
  "panel_index_add p u =
     Option.bind (up_heap p u) (\<lambda>en.
       Some (p\<lparr>up_index := chain_add (up_index p) (panel_uid_bucket p (pu_uid en)) u, up_n_active := up_n_active p + 1\<rparr>))"

definition panel_index_del :: "userpanel \<Rightarrow> addr \<Rightarrow> userpanel" where
  "panel_index_del p u =
     (if ch_pprev (up_index p) u = None then p
      else p\<lparr>up_index := chain_del (up_index p) u, up_n_active := up_n_active p - 1\<rparr>)"

definition panel_find :: "userpanel \<Rightarrow> bytes \<Rightarrow> addr option option" where
  "panel_find p uid =
     map_option fst
       (chain_find (\<lambda>x. map_option (\<lambda>en. \<not> pu_terminating en \<and> pu_uid en = uid) (up_heap p x))
          (up_index p) (ch_head (up_index p) (panel_uid_bucket p uid)))"

definition valve_zero :: valve where
  "valve_zero = (let b = \<lparr>vb_rate = 0, vb_capacity = 0, vb_tokens = 0, vb_last_refill = 0\<rparr> in \<lparr>vl_rx = 0, vl_tx = 0, vl_rx_bucket = b, vl_tx_bucket = b\<rparr>)"

definition panel_new_user :: "userpanel \<Rightarrow> bytes \<Rightarrow> bool \<Rightarrow> addr option \<Rightarrow> (panel_err + addr \<times> userpanel) option" where
  "panel_new_user p uid bypass cell =
     (case find (\<lambda>i. up_active p ! i = None) [0..<CLOAK_USERPANEL_MAX_ACTIVE_USERS] of
        None \<Rightarrow> Some (Inl CLOAK_USERPANEL_ERR_FULL)
      | Some slot \<Rightarrow>
          (case cell of
             None \<Rightarrow> Some (Inl CLOAK_USERPANEL_ERR_ALLOC)
           | Some u \<Rightarrow>
               let en = \<lparr>pu_uid = uid, pu_up_rate = 0, pu_down_rate = 0, pu_bypass = bypass, pu_valve = valve_zero, pu_terminating = False\<rparr>;
                   p1 = p\<lparr>up_heap := (up_heap p)(u \<mapsto> en), up_active := (up_active p)[slot := Some u]\<rparr>
               in Option.bind (panel_index_add p1 u) (\<lambda>p2. Some (Inr (u, p2)))))"

definition cloak_userpanel_user_valve :: "panel_user \<Rightarrow> valve option" where
  "cloak_userpanel_user_valve u = (if pu_bypass u then None else Some (pu_valve u))"

definition cloak_userpanel_find :: "userpanel \<Rightarrow> bytes \<Rightarrow> addr option option" where
  "cloak_userpanel_find p uid = panel_find p uid"

definition cloak_userpanel_active_count :: "userpanel \<Rightarrow> nat" where
  "cloak_userpanel_active_count p = up_n_active p"

definition cloak_userpanel_get_user ::
  "('d, 'w) userpanel_config \<Rightarrow> userpanel \<times> 'd \<Rightarrow> bytes \<Rightarrow> addr option \<Rightarrow> nat \<Rightarrow> ((panel_err + addr) \<times> userpanel \<times> 'd) option" where
  \<comment> \<open>the cell that \<open>malloc\<close> gives, and the reading of the valve's clock\<close>
  "cloak_userpanel_get_user c st uid cell now_ms =
     (case st of (p, d) \<Rightarrow>
        Option.bind (panel_find p uid) (\<lambda>existing.
          case existing of
            Some u \<Rightarrow> Some (Inr u, p, d)
          | None \<Rightarrow>
              if up_n_active p \<ge> CLOAK_USERPANEL_MAX_ACTIVE_USERS then Some (Inl CLOAK_USERPANEL_ERR_FULL, p, d)
              else
                (case cloak_usermanager_authenticate (pc_manager c) d uid (pc_clock c 0) of
                   (Inl e, d1) \<Rightarrow> Some (Inl (Manager_err e), p, d1)
                 | (Inr (up_rate, down_rate), d1) \<Rightarrow>
                     Option.bind (panel_new_user p uid False cell) (\<lambda>r.
                       case r of
                         Inl e \<Rightarrow> Some (Inl e, p, d1)
                       | Inr (u, p1) \<Rightarrow>
                           Option.bind (up_heap p1 u) (\<lambda>en.
                           Option.bind (cloak_valve_set_rates (Some (pu_valve en)) up_rate down_rate now_ms) (\<lambda>v.
                             let en1 = en\<lparr>pu_up_rate := up_rate, pu_down_rate := down_rate, pu_valve := v\<rparr>
                             in Some (Inr u, p1\<lparr>up_heap := (up_heap p1)(u \<mapsto> en1)\<rparr>, d1)))))))"

definition cloak_userpanel_get_bypass_user :: "userpanel \<Rightarrow> bytes \<Rightarrow> addr option \<Rightarrow> ((panel_err + addr) \<times> userpanel) option" where
  "cloak_userpanel_get_bypass_user p uid cell =
     Option.bind (panel_find p uid) (\<lambda>existing.
       case existing of
         Some u \<Rightarrow> Some (Inr u, p)
       | None \<Rightarrow>
           Option.bind (panel_new_user p uid True cell) (\<lambda>r.
             case r of Inl e \<Rightarrow> Some (Inl e, p) | Inr (u, p1) \<Rightarrow> Some (Inr u, p1)))"

section \<open>The usage queue\<close>

definition panel_queue_slot :: "userpanel \<Rightarrow> bytes \<Rightarrow> nat option \<times> userpanel" where
  \<comment> \<open>the index of the user's entry\<close>
  "panel_queue_slot p uid =
     (case find (\<lambda>i. qe_uid (up_queue p ! i) = uid) [0..<length (up_queue p)] of
        Some i \<Rightarrow> (Some i, p)
      | None \<Rightarrow>
          if length (up_queue p) = CLOAK_USERPANEL_MAX_QUEUED_USERS then (None, p)
          else (Some (length (up_queue p)), p\<lparr>up_queue := up_queue p @ [\<lparr>qe_uid = uid, qe_up_usage = 0, qe_down_usage = 0\<rparr>]\<rparr>))"

definition panel_has_queued_usage :: "userpanel \<Rightarrow> bytes \<Rightarrow> bool" where
  "panel_has_queued_usage p uid =
     (case find (\<lambda>i. qe_uid (up_queue p ! i) = uid) [0..<length (up_queue p)] of
        None \<Rightarrow> False
      | Some i \<Rightarrow> qe_up_usage (up_queue p ! i) \<noteq> 0 \<or> qe_down_usage (up_queue p ! i) \<noteq> 0)"

definition panel_settle :: "userpanel \<Rightarrow> addr \<Rightarrow> nat \<Rightarrow> userpanel option" where
  \<comment> \<open>the last lines of \<open>panel_drain_user\<close>: the valve's counts move into the entry\<close>
  "panel_settle p u i =
     Option.bind (up_heap p u) (\<lambda>en.
       case cloak_valve_nullify (Some (pu_valve en)) of
         (rx, tx, v) \<Rightarrow>
           Option.bind v (\<lambda>v1.
             let e = up_queue p ! i
             in Some (p\<lparr>up_heap := (up_heap p)(u \<mapsto> en\<lparr>pu_valve := v1\<rparr>),
                        up_queue := (up_queue p)[i := e\<lparr>qe_up_usage := panel_add_sat (qe_up_usage e) rx,
                                                        qe_down_usage := panel_add_sat (qe_down_usage e) tx\<rparr>]\<rparr>)))"

type_synonym ('s, 'd, 'w) panel_cycle = "('s, 'd, 'w) panel_sys \<Rightarrow> (user_err \<times> ('s, 'd, 'w) panel_sys) option"

definition panel_drain_user ::
  "('s, 'd, 'w) panel_cycle \<Rightarrow> addr \<Rightarrow> bool \<Rightarrow> ('s, 'd, 'w) panel_sys \<Rightarrow> ('s, 'd, 'w) panel_sys option" where
  "panel_drain_user run_cycle u from_terminate st =
     Option.bind (up_heap (ps_panel st) u) (\<lambda>en.
       if pu_bypass en then Some st
       else
         (case panel_queue_slot (ps_panel st) (pu_uid en) of
            (slot, p1) \<Rightarrow>
              Option.bind
                (if slot = None \<and> from_terminate \<and> \<not> up_in_cycle p1
                 then Option.bind (run_cycle (st\<lparr>ps_panel := p1\<rparr>)) (\<lambda>(_, st2).
                        case panel_queue_slot (ps_panel st2) (pu_uid en) of (slot2, p2) \<Rightarrow> Some (slot2, st2\<lparr>ps_panel := p2\<rparr>))
                 else Some (slot, st\<lparr>ps_panel := p1\<rparr>))
                (\<lambda>(slot3, st3).
                  case slot3 of
                    None \<Rightarrow> Some st3
                  | Some i \<Rightarrow> Option.bind (panel_settle (ps_panel st3) u i) (\<lambda>p3. Some (st3\<lparr>ps_panel := p3\<rparr>)))))"

section \<open>Termination\<close>

definition closing_note :: "('d, 'w) userpanel_config \<Rightarrow> bytes \<Rightarrow> u32 \<Rightarrow> addr \<Rightarrow> userpanel \<times> 'w \<Rightarrow> userpanel \<times> 'w" where
  "closing_note c uid session_id sesh pw =
     (case pw of (p, w) \<Rightarrow>
        (if up_breaking_sesh p = Some sesh then p\<lparr>up_breaking_sesh_destroyed := True\<rparr> else p,
         case pc_on_session_closing c of None \<Rightarrow> w | Some hook \<Rightarrow> hook uid session_id w))"

definition panel_on_session_closing :: "('d, 'w) userpanel_config \<Rightarrow> ('s, userpanel \<times> 'w) registry_cb" where
  "panel_on_session_closing c = quiet (closing_note c)"

definition panel_forget :: "userpanel \<Rightarrow> addr \<Rightarrow> userpanel" where
  \<comment> \<open>the slot of the array, the first that holds the user\<close>
  "panel_forget p u =
     (case find (\<lambda>i. up_active p ! i = Some u) [0..<CLOAK_USERPANEL_MAX_ACTIVE_USERS] of
        None \<Rightarrow> p
      | Some i \<Rightarrow> p\<lparr>up_active := (up_active p)[i := None]\<rparr>)"

definition panel_terminate ::
  "('s, 'd, 'w) panel_cycle \<Rightarrow> ('d, 'w) userpanel_config \<Rightarrow> addr \<Rightarrow> ('s, 'd, 'w) panel_sys \<Rightarrow> ('s, 'd, 'w) panel_sys option" where
  \<comment> \<open>\<open>cloak_userpanel_terminate\<close>, given the cycle it may have to run\<close>
  "panel_terminate run_cycle c u st =
     Option.bind (up_heap (ps_panel st) u) (\<lambda>en.
       if pu_terminating en then Some st
       else
         let st1 = st\<lparr>ps_panel := (ps_panel st)\<lparr>up_heap := (up_heap (ps_panel st))(u \<mapsto> en\<lparr>pu_terminating := True\<rparr>)\<rparr>\<rparr> in
         Option.bind (panel_drain_user run_cycle u True st1) (\<lambda>st2.
         Option.bind (up_heap (ps_panel st2) u) (\<lambda>en2.
         Option.bind (cloak_server_registry_close_all_for_uid (Some (panel_on_session_closing c)) (pu_uid en2) (ps_reg st2, ps_panel st2, ps_world st2))
           (\<lambda>(_, r3, p3, w3).
         Option.bind (up_heap p3 u) (\<lambda>_.
           let p4 = panel_index_del (panel_forget p3 u) u;
               p5 = p4\<lparr>up_heap := (up_heap p4)(u := None)\<rparr>
           in Some (st2\<lparr>ps_reg := r3, ps_panel := p5, ps_world := w3\<rparr>))))))"

section \<open>The upload cycle\<close>

definition no_cycle :: "('s, 'd, 'w) panel_cycle" where
  \<comment> \<open>inside a cycle no cycle is run: reaching this would be the nested cycle the code rules out\<close>
  "no_cycle st = None"

fun panel_drain_loop :: "nat list \<Rightarrow> ('s, 'd, 'w) panel_sys \<Rightarrow> ('s, 'd, 'w) panel_sys option" where
  "panel_drain_loop [] st = Some st"
| "panel_drain_loop (i # is) st =
     Option.bind
       (case up_active (ps_panel st) ! i of
          None \<Rightarrow> Some st
        | Some u \<Rightarrow>
            Option.bind (up_heap (ps_panel st) u) (\<lambda>en.
              if pu_terminating en then Some st else panel_drain_user no_cycle u False st))
       (panel_drain_loop is)"

definition reap_slot :: "('d, 'w) userpanel_config \<Rightarrow> nat \<Rightarrow> ('s, 'd, 'w) panel_sys \<Rightarrow> ('s, 'd, 'w) panel_sys option" where
  "reap_slot c i st =
     (case up_active (ps_panel st) ! i of
        None \<Rightarrow> Some st
      | Some u \<Rightarrow>
          Option.bind (up_heap (ps_panel st) u) (\<lambda>en.
            if pu_bypass en \<or> pu_terminating en then Some st
            else
              Option.bind (cloak_server_registry_count_for_uid (ps_reg st) (pu_uid en)) (\<lambda>(n, r1).
                let st1 = st\<lparr>ps_reg := r1\<rparr> in
                if n \<noteq> 0 then Some st1
                else if panel_has_queued_usage (ps_panel st1) (pu_uid en) then Some st1
                else if cloak_valve_rx (Some (pu_valve en)) \<noteq> 0 \<or> cloak_valve_tx (Some (pu_valve en)) \<noteq> 0 then Some st1
                else panel_terminate no_cycle c u st1)))"

fun reap_loop :: "('d, 'w) userpanel_config \<Rightarrow> nat list \<Rightarrow> ('s, 'd, 'w) panel_sys \<Rightarrow> ('s, 'd, 'w) panel_sys option" where
  "reap_loop c [] st = Some st"
| "reap_loop c (i # is) st = Option.bind (reap_slot c i st) (reap_loop c is)"

definition panel_reap_sessionless :: "('d, 'w) userpanel_config \<Rightarrow> ('s, 'd, 'w) panel_sys \<Rightarrow> ('s, 'd, 'w) panel_sys option" where
  "panel_reap_sessionless c st = reap_loop c [0..<CLOAK_USERPANEL_MAX_ACTIVE_USERS] st"

fun statuses_loop ::
  "('d, 'w) userpanel_config \<Rightarrow> panel_queue_entry list \<Rightarrow> ('s, 'd, 'w) panel_sys \<Rightarrow> (user_status list \<times> ('s, 'd, 'w) panel_sys) option" where
  "statuses_loop c [] st = Some ([], st)"
| "statuses_loop c (e # es) st =
     Option.bind (cloak_userpanel_find (ps_panel st) (qe_uid e)) (\<lambda>u.
     Option.bind
       (if u \<noteq> None then map_option (\<lambda>(n, r1). (int n, st\<lparr>ps_reg := r1\<rparr>)) (cloak_server_registry_count_for_uid (ps_reg st) (qe_uid e))
        else Some (0, st))
       (\<lambda>(n, st1).
     Option.bind (statuses_loop c es st1) (\<lambda>(ss, st2).
       Some (\<lparr>us_uid = qe_uid e, us_active = (u \<noteq> None), us_num_session = n, us_up_usage = qe_up_usage e, us_down_usage = qe_down_usage e,
              us_timestamp = pc_now c\<rparr> # ss, st2))))"

fun terminates_loop ::
  "('d, 'w) userpanel_config \<Rightarrow> (bytes \<times> terminate_reason) list \<Rightarrow> ('s, 'd, 'w) panel_sys \<Rightarrow> ('s, 'd, 'w) panel_sys option" where
  "terminates_loop c [] st = Some st"
| "terminates_loop c ((uid, reason) # ts) st =
     Option.bind (cloak_userpanel_find (ps_panel st) uid) (\<lambda>u.
     Option.bind (case u of None \<Rightarrow> Some st | Some a \<Rightarrow> panel_terminate no_cycle c a st) (terminates_loop c ts))"

definition panel_cycle_body :: "('d, 'w) userpanel_config \<Rightarrow> ('s, 'd, 'w) panel_cycle" where
  "panel_cycle_body c st =
     Option.bind (panel_drain_loop [0..<CLOAK_USERPANEL_MAX_ACTIVE_USERS] st) (\<lambda>st1.
       if up_queue (ps_panel st1) = [] then Option.bind (panel_reap_sessionless c st1) (\<lambda>st2. Some (CLOAK_USER_OK, st2))
       else
         Option.bind (statuses_loop c (up_queue (ps_panel st1)) st1) (\<lambda>(statuses, st2).
           case cloak_usermanager_upload_status (pc_manager c) (pc_clock c) (ps_db st2) statuses CLOAK_USERPANEL_MAX_QUEUED_USERS of
             (Inl e, d) \<Rightarrow> Option.bind (panel_reap_sessionless c (st2\<lparr>ps_db := d\<rparr>)) (\<lambda>st3. Some (e, st3))
           | (Inr (ts, n), d) \<Rightarrow>
               let st3 = st2\<lparr>ps_db := d, ps_panel := (ps_panel st2)\<lparr>up_queue := []\<rparr>\<rparr>;
                   n_term = (if n > CLOAK_USERPANEL_MAX_QUEUED_USERS then CLOAK_USERPANEL_MAX_QUEUED_USERS else n)
               in
               Option.bind (terminates_loop c (take n_term ts) st3) (\<lambda>st4.
               Option.bind (panel_reap_sessionless c st4) (\<lambda>st5. Some (CLOAK_USER_OK, st5)))))"

definition set_in_cycle :: "bool \<Rightarrow> ('s, 'd, 'w) panel_sys \<Rightarrow> ('s, 'd, 'w) panel_sys" where
  "set_in_cycle b st = st\<lparr>ps_panel := (ps_panel st)\<lparr>up_in_cycle := b\<rparr>\<rparr>"

definition panel_run_cycle :: "('d, 'w) userpanel_config \<Rightarrow> ('s, 'd, 'w) panel_cycle" where
  "panel_run_cycle c st = Option.bind (panel_cycle_body c (set_in_cycle True st)) (\<lambda>(rc, st1). Some (rc, set_in_cycle False st1))"

definition cloak_userpanel_upload_now :: "('d, 'w) userpanel_config \<Rightarrow> ('s, 'd, 'w) panel_cycle" where
  "cloak_userpanel_upload_now c st = (if up_in_cycle (ps_panel st) then Some (CLOAK_USER_OK, st) else panel_run_cycle c st)"

definition cloak_userpanel_terminate :: "('d, 'w) userpanel_config \<Rightarrow> addr \<Rightarrow> ('s, 'd, 'w) panel_sys \<Rightarrow> ('s, 'd, 'w) panel_sys option" where
  "cloak_userpanel_terminate c u st = panel_terminate (panel_run_cycle c) c u st"

definition panel_arm_timer :: "bool \<Rightarrow> userpanel \<Rightarrow> userpanel" where
  "panel_arm_timer timer_ok p = p\<lparr>up_upload_timer := timer_ok\<rparr>"

definition panel_upload_timer_cb :: "('d, 'w) userpanel_config \<Rightarrow> bool \<Rightarrow> ('s, 'd, 'w) panel_sys \<Rightarrow> ('s, 'd, 'w) panel_sys option" where
  "panel_upload_timer_cb c timer_ok st =
     Option.bind (cloak_userpanel_upload_now c (st\<lparr>ps_panel := (ps_panel st)\<lparr>up_upload_timer := False\<rparr>\<rparr>)) (\<lambda>(_, st1).
       Some (st1\<lparr>ps_panel := panel_arm_timer timer_ok (ps_panel st1)\<rparr>))"

section \<open>Sessions that end, and the panel's own life\<close>

definition cloak_userpanel_notify_session_closed ::
  "('d, 'w) userpanel_config \<Rightarrow> bytes \<Rightarrow> ('s, 'd, 'w) panel_sys \<Rightarrow> ('s, 'd, 'w) panel_sys option" where
  "cloak_userpanel_notify_session_closed c uid st =
     Option.bind (panel_find (ps_panel st) uid) (\<lambda>user.
       case user of
         None \<Rightarrow> Some st
       | Some u \<Rightarrow>
           Option.bind (cloak_server_registry_count_for_uid (ps_reg st) uid) (\<lambda>(n, r1).
             if n > 0 then Some (st\<lparr>ps_reg := r1\<rparr>) else cloak_userpanel_terminate c u (st\<lparr>ps_reg := r1\<rparr>)))"

definition cloak_userpanel_registry_broken ::
  "('d, 'w) userpanel_config \<Rightarrow> addr \<Rightarrow> bytes option \<Rightarrow> u32 \<Rightarrow> ('s, 'd, 'w) panel_sys \<Rightarrow> ('s, 'd, 'w) panel_sys option" where
  "cloak_userpanel_registry_broken c sesh uid session_id st =
     Option.bind
       (case uid of
          None \<Rightarrow> Some (False, st)
        | Some uid_copy \<Rightarrow>
            let prev_sesh = up_breaking_sesh (ps_panel st);
                prev_destroyed = up_breaking_sesh_destroyed (ps_panel st);
                st1 = st\<lparr>ps_panel := (ps_panel st)\<lparr>up_breaking_sesh := Some sesh, up_breaking_sesh_destroyed := False\<rparr>\<rparr>
            in
            Option.bind (cloak_userpanel_notify_session_closed c uid_copy st1) (\<lambda>st2.
              Some (up_breaking_sesh_destroyed (ps_panel st2),
                    st2\<lparr>ps_panel := (ps_panel st2)\<lparr>up_breaking_sesh := prev_sesh, up_breaking_sesh_destroyed := prev_destroyed\<rparr>\<rparr>)))
       (\<lambda>(destroyed_the_session, st3).
         case pc_chain c of
           None \<Rightarrow> Some st3
         | Some chain \<Rightarrow> Some (st3\<lparr>ps_world := chain (if destroyed_the_session then None else Some sesh) uid session_id (ps_world st3)\<rparr>))"

definition cloak_userpanel_open :: "('d, 'w) userpanel_config \<Rightarrow> bool \<Rightarrow> bool \<Rightarrow> bool \<Rightarrow> bytes \<Rightarrow> panel_err + userpanel" where
  \<comment> \<open>whether the owner declares that it has no relays, whether there is memory and a timer, and the random bytes that were drawn\<close>
  "cloak_userpanel_open c no_relays alloc_ok timer_ok hash_key =
     (if pc_on_session_closing c = None \<and> \<not> no_relays then Inl (Manager_err CLOAK_USER_ERR_ARG)
      else if \<not> alloc_ok then Inl CLOAK_USERPANEL_ERR_ALLOC
      else
        let p = panel_arm_timer timer_ok
                  \<lparr>up_heap = Map.empty, up_active = replicate CLOAK_USERPANEL_MAX_ACTIVE_USERS None, up_index = chain_empty, up_hash_key = hash_key,
                   up_n_active = 0, up_queue = [], up_upload_timer = False, up_in_cycle = False, up_breaking_sesh = None, up_breaking_sesh_destroyed = False\<rparr>
        in if \<not> up_upload_timer p then Inl CLOAK_USERPANEL_ERR_ALLOC else Inr p)"

definition cloak_userpanel_close :: "userpanel \<Rightarrow> userpanel" where
  \<comment> \<open>every active user is freed; the panel itself goes with the result\<close>
  "cloak_userpanel_close p =
     p\<lparr>up_upload_timer := False, up_heap := up_heap p |` (- {u. Some u \<in> set (up_active p)}),
       up_active := replicate CLOAK_USERPANEL_MAX_ACTIVE_USERS None, up_index := (up_index p)\<lparr>ch_head := (\<lambda>_. None)\<rparr>, up_n_active := 0\<rparr>"

section \<open>Well-formed panels\<close>

lemma reg_isD: "reg_is reg T \<Longrightarrow> reg_rel reg T"
  by (simp add: reg_is_def)

lemma reg_is_counters [simp]: "reg_is (reg\<lparr>rg_lookup_calls := a, rg_lookup_probe_steps := b\<rparr>) T = reg_is reg T"
  by (simp add: reg_is_def)

datatype direction = Up | Down

fun usage_of :: "direction \<Rightarrow> panel_queue_entry \<Rightarrow> int" where
  "usage_of Up e = qe_up_usage e"
| "usage_of Down e = qe_down_usage e"

fun metered_of :: "direction \<Rightarrow> valve \<Rightarrow> int" where
  "metered_of Up v = vl_rx v"
| "metered_of Down v = vl_tx v"

fun credit_of :: "direction \<Rightarrow> user_row \<Rightarrow> int" where
  "credit_of Up r = ur_up_credit r"
| "credit_of Down r = ur_down_credit r"

definition users_ok :: "(addr \<Rightarrow> panel_user option) \<Rightarrow> bool" where
  "users_ok H \<longleftrightarrow> (\<forall>u v a b. H u = Some a \<longrightarrow> H v = Some b \<longrightarrow> pu_uid a = pu_uid b \<longrightarrow> u = v)
     \<and> (\<forall>u a d. H u = Some a \<longrightarrow> 0 \<le> metered_of d (pu_valve a))"

definition queue_ok :: "panel_queue_entry list \<Rightarrow> bool" where
  "queue_ok q \<longleftrightarrow> distinct (map qe_uid q) \<and> length q \<le> CLOAK_USERPANEL_MAX_QUEUED_USERS \<and> (\<forall>e\<in>set q. \<forall>d. 0 \<le> usage_of d e)"

definition index_ok :: "userpanel \<Rightarrow> (nat \<Rightarrow> addr list) \<Rightarrow> bool" where
  "index_ok p I \<longleftrightarrow> chain_rep (up_index p) I \<and> members I = dom (up_heap p) \<and> (\<forall>u en. up_heap p u = Some en \<longrightarrow> u \<in> set (I (panel_uid_bucket p (pu_uid en))))"

definition active_ok :: "(addr \<Rightarrow> panel_user option) \<Rightarrow> addr option list \<Rightarrow> bool" where
  "active_ok H A \<longleftrightarrow> length A = CLOAK_USERPANEL_MAX_ACTIVE_USERS \<and> (\<forall>u. Some u \<in> set A \<longleftrightarrow> u \<in> dom H)
     \<and> (\<forall>i<length A. \<forall>j<length A. A ! i = A ! j \<longrightarrow> A ! i \<noteq> None \<longrightarrow> i = j)"

definition panel_ok :: "userpanel \<Rightarrow> bool" where
  "panel_ok p \<longleftrightarrow> (\<exists>I. index_ok p I) \<and> active_ok (up_heap p) (up_active p) \<and> users_ok (up_heap p) \<and> queue_ok (up_queue p) \<and> up_n_active p = card (dom (up_heap p))"

lemma panel_okD:
  assumes "panel_ok p"
  shows ok_active: "active_ok (up_heap p) (up_active p)" and ok_users: "users_ok (up_heap p)" and ok_queue: "queue_ok (up_queue p)"
    and ok_n: "up_n_active p = card (dom (up_heap p))"
  using assms by (simp_all add: panel_ok_def)

lemma ok_index:
  assumes "panel_ok p"
  obtains I where "index_ok p I"
  using assms by (auto simp: panel_ok_def)

lemma active_bound:
  assumes "active_ok H A"
  shows "finite (dom H)" "card (dom H) \<le> CLOAK_USERPANEL_MAX_ACTIVE_USERS"
proof -
  have e: "Some ` dom H \<subseteq> set A" using assms by (auto simp: active_ok_def)
  then have "finite (Some ` dom H)" by (rule finite_subset) simp
  then show "finite (dom H)" by (rule finite_imageD) simp
  have "card (dom H) = card (Some ` dom H)" by (simp add: card_image)
  also have "\<dots> \<le> card (set A)" using e by (simp add: card_mono)
  also have "\<dots> \<le> length A" by (rule card_length)
  finally show "card (dom H) \<le> CLOAK_USERPANEL_MAX_ACTIVE_USERS" using assms by (simp add: active_ok_def)
qed

lemma panel_ok_cong:
  assumes "panel_ok p" "up_index q = up_index p" "up_hash_key q = up_hash_key p" "dom (up_heap q) = dom (up_heap p)"
    "\<forall>u a b. up_heap p u = Some a \<longrightarrow> up_heap q u = Some b \<longrightarrow> pu_uid b = pu_uid a"
    "up_active q = up_active p" "up_n_active q = up_n_active p" "users_ok (up_heap q)" "queue_ok (up_queue q)"
  shows "panel_ok q"
proof -
  obtain I where i: "index_ok p I" using ok_index[OF assms(1)] .
  have b: "panel_uid_bucket q = panel_uid_bucket p" using assms(3) by (simp add: panel_uid_bucket_def fun_eq_iff)
  have "index_ok q I" unfolding index_ok_def assms(2,4) b
  proof (intro conjI allI impI)
    fix u en assume e: "up_heap q u = Some en"
    then obtain a where "up_heap p u = Some a" using assms(4) by (metis domD domI)
    then show "u \<in> set (I (panel_uid_bucket p (pu_uid en)))" using i e assms(5) unfolding index_ok_def by metis
  qed (use i in \<open>simp_all add: index_ok_def\<close>)
  moreover have "active_ok (up_heap q) (up_active q)" using ok_active[OF assms(1)] assms(4,6) by (simp add: active_ok_def)
  ultimately show ?thesis using ok_n[OF assms(1)] assms(4,7,8,9) unfolding panel_ok_def by auto
qed

lemma panel_find_ok:
  assumes "panel_ok p"
  obtains r where "panel_find p uid = Some r" "\<forall>u. r = Some u \<longleftrightarrow> (\<exists>en. up_heap p u = Some en \<and> \<not> pu_terminating en \<and> pu_uid en = uid)"
proof -
  obtain I where i: "index_ok p I" using ok_index[OF assms] .
  let ?b = "panel_uid_bucket p uid"
  let ?P = "\<lambda>u. \<exists>en. up_heap p u = Some en \<and> \<not> pu_terminating en \<and> pu_uid en = uid"
  have "chain_find (\<lambda>x. map_option (\<lambda>en. \<not> pu_terminating en \<and> pu_uid en = uid) (up_heap p x)) (up_index p) (ch_head (up_index p) ?b)
      = Some (find ?P (I ?b), if \<exists>x\<in>set (I ?b). ?P x then Suc (length (takeWhile (\<lambda>x. \<not> ?P x) (I ?b))) else length (I ?b))"
  proof (rule chain_find_seg[OF rep_seg])
    show "chain_rep (up_index p) I" using i by (simp add: index_ok_def)
    show "\<forall>x\<in>set (I ?b). map_option (\<lambda>en. \<not> pu_terminating en \<and> pu_uid en = uid) (up_heap p x) = Some (?P x)"
    proof
      fix x assume "x \<in> set (I ?b)"
      then have "x \<in> dom (up_heap p)" using i unfolding index_ok_def members_def by blast
      then show "map_option (\<lambda>en. \<not> pu_terminating en \<and> pu_uid en = uid) (up_heap p x) = Some (?P x)" by auto
    qed
  qed
  then have f: "panel_find p uid = Some (find ?P (I ?b))" by (simp add: panel_find_def)
  have in_b: "u \<in> set (I ?b)" if "?P u" for u using that i by (auto simp: index_ok_def)
  have one: "u = v" if "?P u" "?P v" for u v using that ok_users[OF assms] unfolding users_ok_def by blast
  have "find ?P (I ?b) = Some u \<longleftrightarrow> ?P u" for u
    using find_SomeD[of ?P "I ?b"] find_NoneD[of ?P "I ?b"] in_b[of u] one[of u] by (cases "find ?P (I ?b)") blast+
  then show thesis using that[OF f] by blast
qed

section \<open>What a user has used and not paid for yet\<close>

definition queued :: "direction \<Rightarrow> panel_queue_entry list \<Rightarrow> bytes \<Rightarrow> int" where
  "queued d q uid = (\<Sum>e\<leftarrow>q. if qe_uid e = uid then usage_of d e else 0)"

definition part :: "direction \<Rightarrow> bytes \<Rightarrow> panel_user \<Rightarrow> int" where
  "part d uid en = (if pu_uid en = uid \<and> \<not> pu_bypass en then metered_of d (pu_valve en) else 0)"

definition metered :: "direction \<Rightarrow> (addr \<Rightarrow> panel_user option) \<Rightarrow> bytes \<Rightarrow> int" where
  "metered d H uid = (\<Sum>u\<in>dom H. part d uid (the (H u)))"

definition pending :: "direction \<Rightarrow> userpanel \<Rightarrow> bytes \<Rightarrow> int" where
  "pending d p uid = queued d (up_queue p) uid + metered d (up_heap p) uid"

lemma queued_simps [simp]:
  "queued d [] uid = 0"
  "queued d (e # q) uid = (if qe_uid e = uid then usage_of d e else 0) + queued d q uid"
  "queued d (q @ r) uid = queued d q uid + queued d r uid"
  by (simp_all add: queued_def)

lemma queued_absent: "uid \<notin> qe_uid ` set q \<Longrightarrow> queued d q uid = 0"
  by (induction q) auto

lemma queued_at: "distinct (map qe_uid q) \<Longrightarrow> i < length q \<Longrightarrow> queued d q (qe_uid (q ! i)) = usage_of d (q ! i)"
proof (induction q arbitrary: i)
  case (Cons e q)
  then show ?case by (cases i) (auto simp: queued_absent image_iff)
qed simp

lemma queued_upd:
  "i < length q \<Longrightarrow> queued d (q[i := e]) uid
     = queued d q uid - (if qe_uid (q ! i) = uid then usage_of d (q ! i) else 0) + (if qe_uid e = uid then usage_of d e else 0)"
proof (induction q arbitrary: i)
  case (Cons x q)
  then show ?case by (cases i) auto
qed simp

lemma queued_nonneg: "queue_ok q \<Longrightarrow> 0 \<le> queued d q uid"
  unfolding queue_ok_def queued_def by (intro sum_list_nonneg) auto

lemma metered_split: "finite (dom H) \<Longrightarrow> H u = Some en \<Longrightarrow> metered d H uid = part d uid en + (\<Sum>x\<in>dom H - {u}. part d uid (the (H x)))"
  unfolding metered_def by (subst sum.remove[of _ u]) auto

lemma metered_upd:
  assumes "finite (dom H)" "H u = Some en"
  shows "metered d (H(u \<mapsto> en')) uid = metered d H uid - part d uid en + part d uid en'"
    and "metered d (H(u := None)) uid = metered d H uid - part d uid en"
proof -
  have "(\<Sum>x\<in>dom H - {u}. part d uid (the ((H(u := v)) x))) = (\<Sum>x\<in>dom H - {u}. part d uid (the (H x)))" for v
    by (rule sum.cong) auto
  moreover have "dom (H(u \<mapsto> en')) = dom H" using assms(2) by auto
  ultimately show "metered d (H(u \<mapsto> en')) uid = metered d H uid - part d uid en + part d uid en'"
    "metered d (H(u := None)) uid = metered d H uid - part d uid en"
    using metered_split[OF assms, of d uid] metered_split[of "H(u \<mapsto> en')" u en' d uid] assms(1) by (simp_all add: metered_def)
qed

lemma part_nonneg: "users_ok H \<Longrightarrow> H u = Some en \<Longrightarrow> 0 \<le> part d uid en"
  unfolding users_ok_def part_def by auto

lemma metered_nonneg: "users_ok H \<Longrightarrow> 0 \<le> metered d H uid"
  unfolding metered_def by (intro sum_nonneg) (auto intro: part_nonneg)

lemma part_le: "users_ok H \<Longrightarrow> finite (dom H) \<Longrightarrow> H u = Some en \<Longrightarrow> part d uid en \<le> metered d H uid"
  using metered_split[of H u en d uid] by (auto intro!: sum_nonneg part_nonneg)

lemma find_index:
  "case find (\<lambda>i. P (xs ! i)) [0..<length xs] of Some i \<Rightarrow> i < length xs \<and> P (xs ! i) | None \<Rightarrow> \<forall>x\<in>set xs. \<not> P x"
proof (cases "find (\<lambda>i. P (xs ! i)) [0..<length xs]")
  case None
  show ?thesis using find_NoneD[OF None] unfolding None by (auto simp: in_set_conv_nth)
next
  case (Some i)
  show ?thesis using find_SomeD[OF Some] unfolding Some by simp
qed

lemma queue_slot_ok:
  assumes q: "queue_ok (up_queue p)"
  shows "case panel_queue_slot p uid of
      (None, p1) \<Rightarrow> p1 = p \<and> length (up_queue p) = CLOAK_USERPANEL_MAX_QUEUED_USERS
    | (Some i, p1) \<Rightarrow> \<exists>q1. p1 = p\<lparr>up_queue := q1\<rparr> \<and> queue_ok q1 \<and> i < length q1 \<and> qe_uid (q1 ! i) = uid \<and> length q1 \<le> Suc (length (up_queue p))
        \<and> (\<forall>d v. queued d q1 v = queued d (up_queue p) v) \<and> qe_uid ` set (up_queue p) \<subseteq> qe_uid ` set q1"
proof (cases "find (\<lambda>i. qe_uid (up_queue p ! i) = uid) [0..<length (up_queue p)]")
  case None
  then have ab: "\<forall>e\<in>set (up_queue p). qe_uid e \<noteq> uid" using find_index[where P = "\<lambda>e. qe_uid e = uid" and xs = "up_queue p"] by simp
  let ?q = "up_queue p @ [\<lparr>qe_uid = uid, qe_up_usage = 0, qe_down_usage = 0\<rparr>]"
  have z: "usage_of d \<lparr>qe_uid = uid, qe_up_usage = 0, qe_down_usage = 0\<rparr> = 0" for d by (cases d) simp_all
  show ?thesis
  proof (cases "length (up_queue p) = CLOAK_USERPANEL_MAX_QUEUED_USERS")
    case False
    have "queue_ok ?q" using q ab False z by (auto simp: queue_ok_def)
    then show ?thesis using None False z by (auto simp: panel_queue_slot_def intro!: exI[of _ ?q])
  qed (use None in \<open>simp add: panel_queue_slot_def\<close>)
next
  case (Some i)
  then show ?thesis using find_index[where P = "\<lambda>e. qe_uid e = uid" and xs = "up_queue p"] q by (auto simp: panel_queue_slot_def intro!: exI[of _ "up_queue p"])
qed

section \<open>Draining a valve\<close>

definition no_overflow :: "userpanel \<Rightarrow> bool" where
  "no_overflow p \<longleftrightarrow> (\<forall>d uid. pending d p uid \<le> INT64_MAX)"

definition same_frame :: "userpanel \<Rightarrow> userpanel \<Rightarrow> bool" where
  "same_frame q p \<longleftrightarrow> up_in_cycle q = up_in_cycle p \<and> up_hash_key q = up_hash_key p \<and> up_active q = up_active p \<and> up_index q = up_index p \<and> up_n_active q = up_n_active p
     \<and> up_breaking_sesh q = up_breaking_sesh p \<and> up_breaking_sesh_destroyed q = up_breaking_sesh_destroyed p \<and> up_upload_timer q = up_upload_timer p"

definition emptied :: "panel_user \<Rightarrow> panel_user" where
  "emptied en = en\<lparr>pu_valve := (pu_valve en)\<lparr>vl_rx := 0, vl_tx := 0\<rparr>\<rparr>"

lemma metered_of_emptied [simp]: "metered_of d (pu_valve (emptied en)) = 0"
  by (cases d) (simp_all add: emptied_def)

lemma part_emptied [simp]: "part d uid (emptied en) = 0"
  by (simp add: part_def metered_of_emptied)

lemma emptied_simps [simp]: "pu_uid (emptied en) = pu_uid en" "pu_bypass (emptied en) = pu_bypass en" "pu_terminating (emptied en) = pu_terminating en"
  by (simp_all add: emptied_def)

lemma users_ok_upd:
  assumes "users_ok H" "H u = Some en" "pu_uid en' = pu_uid en" "\<And>d. 0 \<le> metered_of d (pu_valve en')"
  shows "users_ok (H(u \<mapsto> en'))"
  using assms unfolding users_ok_def by (auto split: if_splits)

lemma add_sat_nonneg: "0 \<le> a \<Longrightarrow> 0 \<le> b \<Longrightarrow> 0 \<le> panel_add_sat a b"
  by (simp add: panel_add_sat_def INT64_MAX_def)

lemma add_sat_exact: "0 \<le> a \<Longrightarrow> a + b \<le> INT64_MAX \<Longrightarrow> panel_add_sat a b = a + b"
  by (simp add: panel_add_sat_def)

lemma settle_ok:
  assumes p: "panel_ok p" and u: "up_heap p u = Some en" "\<not> pu_bypass en" and i: "i < length (up_queue p)" "qe_uid (up_queue p ! i) = pu_uid en"
  obtains q where "panel_settle p u i = Some (p\<lparr>up_heap := (up_heap p)(u \<mapsto> emptied en), up_queue := q\<rparr>)"
    "panel_ok (p\<lparr>up_heap := (up_heap p)(u \<mapsto> emptied en), up_queue := q\<rparr>)" "length q = length (up_queue p)"
    "no_overflow p \<Longrightarrow> \<forall>d uid. pending d (p\<lparr>up_heap := (up_heap p)(u \<mapsto> emptied en), up_queue := q\<rparr>) uid = pending d p uid"
proof -
  let ?e = "up_queue p ! i"
  define e where "e = ?e\<lparr>qe_up_usage := panel_add_sat (qe_up_usage ?e) (vl_rx (pu_valve en)), qe_down_usage := panel_add_sat (qe_down_usage ?e) (vl_tx (pu_valve en))\<rparr>"
  let ?p = "p\<lparr>up_heap := (up_heap p)(u \<mapsto> emptied en), up_queue := (up_queue p)[i := e]\<rparr>"
  have s: "panel_settle p u i = Some ?p" by (simp add: panel_settle_def u cloak_valve_nullify_def e_def emptied_def Let_def)
  have eu: "usage_of d e = panel_add_sat (usage_of d ?e) (metered_of d (pu_valve en))" for d by (cases d) (simp_all add: e_def)
  note q = ok_queue[OF p] and h = ok_users[OF p]
  have fin: "finite (dom (up_heap p))" using active_bound[OF ok_active[OF p]] by simp
  have e0: "0 \<le> usage_of d ?e" "0 \<le> metered_of d (pu_valve en)" for d using q i(1) h u(1) by (auto simp: queue_ok_def users_ok_def)
  have "map qe_uid ((up_queue p)[i := e]) = map qe_uid (up_queue p)" using i(1) by (simp add: map_update e_def list_update_same_conv)
  then have "queue_ok ((up_queue p)[i := e])"
    using q e0 by (auto simp: queue_ok_def eu add_sat_nonneg dest!: subsetD[OF set_update_subset_insert])
  then have ok: "panel_ok ?p"
    using users_ok_upd[OF h u(1), of "emptied en"] u(1) by (intro panel_ok_cong[OF p]) (auto simp: metered_of_emptied split: if_splits)
  have k: "pending d ?p uid = pending d p uid" if n: "no_overflow p" for d uid
  proof -
    have g: "queued d (up_queue p) (pu_uid en) = usage_of d ?e" using queued_at[of "up_queue p" i d] q i by (simp add: queue_ok_def)
    have "usage_of d ?e + metered_of d (pu_valve en) \<le> INT64_MAX"
      using n[unfolded no_overflow_def pending_def, rule_format, of d "pu_uid en"] part_le[OF h fin u(1), of d "pu_uid en"] g u(2) by (simp add: part_def)
    then have "usage_of d e = usage_of d ?e + metered_of d (pu_valve en)" unfolding eu using e0 by (simp add: add_sat_exact)
    then show ?thesis using i u(2) by (simp add: pending_def queued_upd metered_upd(1)[OF fin u(1)] part_def e_def)
  qed
  show thesis by (rule that[OF s ok]) (use k in auto)
qed

definition leaves_nothing :: "panel_user \<Rightarrow> bool" where
  \<comment> \<open>freeing the user loses no metered bytes\<close>
  "leaves_nothing en \<longleftrightarrow> (\<forall>d uid. part d uid en = 0)"

definition has_room :: "userpanel \<Rightarrow> panel_user \<Rightarrow> bool" where
  \<comment> \<open>the drain of that user needs no cycle to make room\<close>
  "has_room p en \<longleftrightarrow> pu_bypass en \<or> fst (panel_queue_slot p (pu_uid en)) \<noteq> None"

lemma has_room_cong [simp]: "has_room (p\<lparr>up_heap := H\<rparr>) (en\<lparr>pu_terminating := t\<rparr>) = has_room p en"
  by (simp add: has_room_def panel_queue_slot_def split: option.splits)

lemma drain_ok:
  assumes p: "panel_ok (ps_panel st)" and u: "up_heap (ps_panel st) u = Some en"
    and calm: "\<not> from_terminate \<or> up_in_cycle (ps_panel st) \<or> length (up_queue (ps_panel st)) < CLOAK_USERPANEL_MAX_QUEUED_USERS \<or> has_room (ps_panel st) en"
  obtains p1 en1 where "panel_drain_user run_cycle u from_terminate st = Some (st\<lparr>ps_panel := p1\<rparr>)" "panel_ok p1" "same_frame p1 (ps_panel st)"
    "up_heap p1 = (up_heap (ps_panel st))(u \<mapsto> en1)" "en1 = en \<or> en1 = emptied en" "length (up_queue p1) \<le> Suc (length (up_queue (ps_panel st)))"
    "no_overflow (ps_panel st) \<longrightarrow> (\<forall>d uid. pending d p1 uid = pending d (ps_panel st) uid)"
    "leaves_nothing en1 \<or> length (up_queue (ps_panel st)) = CLOAK_USERPANEL_MAX_QUEUED_USERS"
proof (cases "pu_bypass en")
  case True
  then show ?thesis using that[of "ps_panel st" en] p u by (auto simp: panel_drain_user_def same_frame_def leaves_nothing_def part_def fun_upd_idem)
next
  case False
  let ?p = "ps_panel st"
  obtain slot p1 where s: "panel_queue_slot ?p (pu_uid en) = (slot, p1)" by fastforce
  note q = queue_slot_ok[OF ok_queue[OF p], of "pu_uid en", unfolded s]
  show ?thesis
  proof (cases slot)
    case None
    then have n: "p1 = ?p" "length (up_queue ?p) = CLOAK_USERPANEL_MAX_QUEUED_USERS" using q by auto
    then have "panel_drain_user run_cycle u from_terminate st = Some (st\<lparr>ps_panel := ?p\<rparr>)"
      using calm False u s None by (auto simp: panel_drain_user_def has_room_def)
    then show ?thesis using that[of ?p en] p u n by (simp add: same_frame_def fun_upd_idem)
  next
    case (Some i)
    then obtain q1 where q1: "p1 = ?p\<lparr>up_queue := q1\<rparr>" "queue_ok q1" "i < length q1" "qe_uid (q1 ! i) = pu_uid en" "length q1 \<le> Suc (length (up_queue ?p))"
      "\<forall>d v. queued d q1 v = queued d (up_queue ?p) v" using q by auto
    have p1: "panel_ok p1" using q1(2) ok_users[OF p] by (intro panel_ok_cong[OF p]) (auto simp: q1(1))
    have pend: "pending d p1 uid = pending d ?p uid" for d uid using q1 by (simp add: pending_def)
    obtain q2 where q2: "panel_settle p1 u i = Some (p1\<lparr>up_heap := (up_heap p1)(u \<mapsto> emptied en), up_queue := q2\<rparr>)"
      "panel_ok (p1\<lparr>up_heap := (up_heap p1)(u \<mapsto> emptied en), up_queue := q2\<rparr>)" "length q2 = length (up_queue p1)"
      "no_overflow p1 \<Longrightarrow> \<forall>d uid. pending d (p1\<lparr>up_heap := (up_heap p1)(u \<mapsto> emptied en), up_queue := q2\<rparr>) uid = pending d p1 uid"
      using settle_ok[OF p1, of u en i] u False q1 by auto
    let ?p2 = "p1\<lparr>up_heap := (up_heap p1)(u \<mapsto> emptied en), up_queue := q2\<rparr>"
    have "panel_drain_user run_cycle u from_terminate st = Some (st\<lparr>ps_panel := ?p2\<rparr>)"
      using False u s Some q2(1) by (simp add: panel_drain_user_def)
    then show ?thesis
      by (rule that[of ?p2 "emptied en"]) (use q2 q1 pend in \<open>auto simp: same_frame_def leaves_nothing_def no_overflow_def\<close>)
  qed
qed

section \<open>The end of a user\<close>

lemma closing_notes:
  "\<exists>b w1. fold (tell (closing_note c) T) xs (p, w) = (p\<lparr>up_breaking_sesh_destroyed := b\<rparr>, w1)"
proof (induction xs arbitrary: p w)
  case Nil
  show ?case by (intro exI[of _ "up_breaking_sesh_destroyed p"] exI[of _ w]) simp
next
  case (Cons x xs)
  obtain b w1 where t: "tell (closing_note c) T x (p, w) = (p\<lparr>up_breaking_sesh_destroyed := b\<rparr>, w1)"
  proof (cases "T x = None \<or> up_breaking_sesh p \<noteq> Some x")
    case True
    then show ?thesis by (cases "T x") (auto simp: tell_def closing_note_def intro: that[of "up_breaking_sesh_destroyed p"])
  next
    case False
    then show ?thesis by (auto simp: tell_def closing_note_def intro: that[of True])
  qed
  show ?case using Cons.IH[of "p\<lparr>up_breaking_sesh_destroyed := b\<rparr>" w1] t by auto
qed

lemma active_ok_del:
  assumes a: "active_ok H A" and k: "k < length A" "A ! k = Some u"
  shows "active_ok (H(u := None)) (A[k := None])"
  unfolding active_ok_def
proof (intro conjI allI impI)
  have inj: "i = j" if "i < length A" "j < length A" "A ! i = A ! j" "A ! i \<noteq> None" for i j using a that unfolding active_ok_def by blast
  have dom: "Some v \<in> set A \<longleftrightarrow> v \<in> dom H" for v using a unfolding active_ok_def by blast
  show "length (A[k := None]) = CLOAK_USERPANEL_MAX_ACTIVE_USERS" using a by (simp add: active_ok_def)
  have "Some v \<in> set (A[k := None]) \<longleftrightarrow> v \<noteq> u \<and> Some v \<in> set A" for v
  proof
    assume "Some v \<in> set (A[k := None])"
    then obtain i where i: "i < length A" "A[k := None] ! i = Some v" by (auto simp: in_set_conv_nth)
    then have "i \<noteq> k" "A ! i = Some v" using k(1) by (cases "i = k"; simp)+
    then show "v \<noteq> u \<and> Some v \<in> set A" using inj[of i k] i(1) k nth_mem[of i A] by auto
  next
    assume v: "v \<noteq> u \<and> Some v \<in> set A"
    then obtain i where i: "i < length A" "A ! i = Some v" by (auto simp: in_set_conv_nth)
    then have "A[k := None] ! i = Some v" using v k by (cases "i = k") auto
    then show "Some v \<in> set (A[k := None])" using i(1) nth_mem[of i "A[k := None]"] by simp
  qed
  then show "Some v \<in> set (A[k := None]) \<longleftrightarrow> v \<in> dom (H(u := None))" for v using dom by auto
  fix m n assume "m < length (A[k := None])" "n < length (A[k := None])" "A[k := None] ! m = A[k := None] ! n" "A[k := None] ! m \<noteq> None"
  then show "m = n" using inj[of m n] by (cases "m = k"; cases "n = k") simp_all
qed

lemma index_del_ok:
  assumes p: "panel_ok p" and u: "up_heap p u = Some en"
  shows "panel_ok ((panel_index_del (panel_forget p u) u)\<lparr>up_heap := (up_heap p)(u := None)\<rparr>)"
    "up_heap (panel_index_del (panel_forget p u) u) = up_heap p" "up_queue (panel_index_del (panel_forget p u) u) = up_queue p"
    "up_in_cycle (panel_index_del (panel_forget p u) u) = up_in_cycle p" "up_breaking_sesh (panel_index_del (panel_forget p u) u) = up_breaking_sesh p"
    "up_breaking_sesh_destroyed (panel_index_del (panel_forget p u) u) = up_breaking_sesh_destroyed p"
proof -
  obtain I where i: "index_ok p I" using ok_index[OF p] .
  note a = ok_active[OF p]
  have fin: "finite (dom (up_heap p))" using active_bound[OF a] by simp
  have la: "length (up_active p) = CLOAK_USERPANEL_MAX_ACTIVE_USERS" using a by (simp add: active_ok_def)
  have "Some u \<in> set (up_active p)" using a u by (auto simp: active_ok_def)
  then obtain k where k: "find (\<lambda>i. up_active p ! i = Some u) [0..<CLOAK_USERPANEL_MAX_ACTIVE_USERS] = Some k" "k < length (up_active p)" "up_active p ! k = Some u"
    using find_index[where P = "\<lambda>x. x = Some u" and xs = "up_active p"] la by (auto split: option.splits)
  have f: "panel_forget p u = p\<lparr>up_active := (up_active p)[k := None]\<rparr>" by (simp add: panel_forget_def k(1))
  have "u \<in> members I" using i u by (auto simp: index_ok_def)
  then obtain b us vs where "I b = us @ u # vs" by (metis members_iff split_list)
  then have pp: "ch_pprev (up_index p) u \<noteq> None" using seg_next rep_seg[of "up_index p" I b] i unfolding index_ok_def by fastforce
  have d: "panel_index_del (panel_forget p u) u = p\<lparr>up_active := (up_active p)[k := None], up_index := chain_del (up_index p) u, up_n_active := up_n_active p - 1\<rparr>"
    using pp by (auto simp: panel_index_del_def f)
  then show "up_heap (panel_index_del (panel_forget p u) u) = up_heap p" "up_queue (panel_index_del (panel_forget p u) u) = up_queue p"
    "up_in_cycle (panel_index_del (panel_forget p u) u) = up_in_cycle p" "up_breaking_sesh (panel_index_del (panel_forget p u) u) = up_breaking_sesh p"
    "up_breaking_sesh_destroyed (panel_index_del (panel_forget p u) u) = up_breaking_sesh_destroyed p" by simp_all
  let ?q = "(panel_index_del (panel_forget p u) u)\<lparr>up_heap := (up_heap p)(u := None)\<rparr>"
  have b: "panel_uid_bucket ?q = panel_uid_bucket p" by (simp add: d panel_uid_bucket_def fun_eq_iff)
  have "index_ok ?q (\<lambda>b. removeAll u (I b))"
    unfolding index_ok_def b
  proof (intro conjI allI impI)
    show "chain_rep (up_index ?q) (\<lambda>b. removeAll u (I b))" using i chain_del_rep[of "up_index p" I u] by (simp add: d index_ok_def)
    show "members (\<lambda>b. removeAll u (I b)) = dom (up_heap ?q)" using i by (simp add: members_removeAll index_ok_def)
    fix v e assume "up_heap ?q v = Some e"
    then have "v \<noteq> u" "up_heap p v = Some e" by (auto split: if_splits)
    then show "v \<in> set (removeAll u (I (panel_uid_bucket p (pu_uid e))))" using i by (simp add: index_ok_def)
  qed
  moreover have "active_ok (up_heap ?q) (up_active ?q)" using active_ok_del[OF a k(2,3)] by (simp add: d)
  moreover have "users_ok (up_heap ?q)" using ok_users[OF p] unfolding users_ok_def by (auto split: if_splits)
  moreover have "up_n_active ?q = card (dom (up_heap ?q))" using ok_n[OF p] fin u by (simp add: d card_Diff_singleton_if domI)
  moreover have "queue_ok (up_queue ?q)" using ok_queue[OF p] by (simp add: d)
  ultimately show "panel_ok ?q" unfolding panel_ok_def by blast
qed

lemma part_flag [simp]: "part d uid (en\<lparr>pu_terminating := t\<rparr>) = part d uid en"
  by (simp add: part_def)

lemma pending_flag:
  assumes "panel_ok p" "up_heap p u = Some en"
  shows "pending d (p\<lparr>up_heap := (up_heap p)(u \<mapsto> en\<lparr>pu_terminating := t\<rparr>)\<rparr>) uid = pending d p uid"
    "panel_ok (p\<lparr>up_heap := (up_heap p)(u \<mapsto> en\<lparr>pu_terminating := t\<rparr>)\<rparr>)"
proof -
  have fin: "finite (dom (up_heap p))" using active_bound[OF ok_active[OF assms(1)]] by simp
  show "pending d (p\<lparr>up_heap := (up_heap p)(u \<mapsto> en\<lparr>pu_terminating := t\<rparr>)\<rparr>) uid = pending d p uid"
    using metered_upd(1)[OF fin assms(2)] by (simp add: pending_def)
  show "panel_ok (p\<lparr>up_heap := (up_heap p)(u \<mapsto> en\<lparr>pu_terminating := t\<rparr>)\<rparr>)"
  proof (rule panel_ok_cong[OF assms(1)])
    have "0 \<le> metered_of d (pu_valve en)" for d using ok_users[OF assms(1)] assms(2) unfolding users_ok_def by blast
    then show "users_ok (up_heap (p\<lparr>up_heap := (up_heap p)(u \<mapsto> en\<lparr>pu_terminating := t\<rparr>)\<rparr>))"
      using users_ok_upd[OF ok_users[OF assms(1)] assms(2), of "en\<lparr>pu_terminating := t\<rparr>"] by simp
  qed (use assms(2) ok_queue[OF assms(1)] in \<open>auto split: if_splits\<close>)
qed

definition ended :: "('s, 'd, 'w) panel_sys \<Rightarrow> ('s, 'd, 'w) panel_sys \<Rightarrow> addr \<Rightarrow> panel_user \<Rightarrow> 's reg_table \<Rightarrow> bool" where
  \<comment> \<open>the second state is the first less that user and all its sessions\<close>
  "ended st st1 u en T \<longleftrightarrow> panel_ok (ps_panel st1) \<and> reg_is (ps_reg st1) (T |` (- of_uid T (pu_uid en))) \<and> up_heap (ps_panel st1) = (up_heap (ps_panel st))(u := None)
     \<and> ps_db st1 = ps_db st \<and> up_in_cycle (ps_panel st1) = up_in_cycle (ps_panel st) \<and> up_breaking_sesh (ps_panel st1) = up_breaking_sesh (ps_panel st)"

definition panel_end :: "('d, 'w) userpanel_config \<Rightarrow> addr \<Rightarrow> ('s, 'd, 'w) panel_sys \<Rightarrow> ('s, 'd, 'w) panel_sys option" where
  \<comment> \<open>a termination after the valve has been drained\<close>
  "panel_end c u st2 =
     Option.bind (up_heap (ps_panel st2) u) (\<lambda>en2.
     Option.bind (cloak_server_registry_close_all_for_uid (Some (panel_on_session_closing c)) (pu_uid en2) (ps_reg st2, ps_panel st2, ps_world st2))
       (\<lambda>(_, r3, p3, w3).
     Option.bind (up_heap p3 u) (\<lambda>_.
       let p4 = panel_index_del (panel_forget p3 u) u;
           p5 = p4\<lparr>up_heap := (up_heap p4)(u := None)\<rparr>
       in Some (st2\<lparr>ps_reg := r3, ps_panel := p5, ps_world := w3\<rparr>))))"

lemma terminate_unfold:
  assumes "up_heap (ps_panel st) u = Some en" "\<not> pu_terminating en"
  shows "panel_terminate run_cycle c u st
    = Option.bind (panel_drain_user run_cycle u True (st\<lparr>ps_panel := (ps_panel st)\<lparr>up_heap := (up_heap (ps_panel st))(u \<mapsto> en\<lparr>pu_terminating := True\<rparr>)\<rparr>\<rparr>)) (panel_end c u)"
  using assms by (simp add: panel_terminate_def panel_end_def[abs_def] Let_def)

lemma panel_end_ok:
  assumes p: "panel_ok (ps_panel st)" and r: "reg_is (ps_reg st) T" and u: "up_heap (ps_panel st) u = Some en"
  obtains st1 where "panel_end c u st = Some st1" "ended st st1 u en T" "up_queue (ps_panel st1) = up_queue (ps_panel st)"
    "\<forall>d uid. pending d (ps_panel st1) uid = pending d (ps_panel st) uid - part d uid en"
proof -
  let ?p = "ps_panel st" and ?uid = "pu_uid en"
  obtain r3 xs where c: "close_all_loop (Some (quiet (closing_note c))) ?uid (registry_uid_bucket (ps_reg st) ?uid) 0 (ps_reg st, ?p, ps_world st)
      = Some (0 + length xs, r3, fold (tell (closing_note c) T) xs (?p, ps_world st))" "reg_is r3 (T |` (- of_uid T ?uid))"
    using close_all_quiet[OF reg_isD[OF r] refl, where uid = ?uid and f = "closing_note c" and n = 0 and w = "(?p, ps_world st)"] r by (auto simp: reg_is_def)
  obtain b w3 where w: "fold (tell (closing_note c) T) xs (?p, ps_world st) = (?p\<lparr>up_breaking_sesh_destroyed := b\<rparr>, w3)"
    using closing_notes[of c T xs ?p "ps_world st"] by blast
  let ?p3 = "?p\<lparr>up_breaking_sesh_destroyed := b\<rparr>"
  have p3: "panel_ok ?p3" "up_heap ?p3 u = Some en" using p u ok_users[OF p] ok_queue[OF p] by (auto intro: panel_ok_cong[OF p])
  note d = index_del_ok[OF p3]
  let ?p4 = "panel_index_del (panel_forget ?p3 u) u"
  let ?st1 = "st\<lparr>ps_reg := r3, ps_panel := ?p4\<lparr>up_heap := (up_heap ?p)(u := None)\<rparr>, ps_world := w3\<rparr>"
  have e: "panel_end c u st = Some ?st1"
    using u c(1) w d(2) by (simp add: panel_end_def cloak_server_registry_close_all_for_uid_def panel_on_session_closing_def Let_def)
  have fin: "finite (dom (up_heap ?p))" using active_bound[OF ok_active[OF p]] by simp
  show thesis
    by (rule that[OF e]) (use d c(2) metered_upd(2)[OF fin u] in \<open>simp_all add: ended_def pending_def\<close>)
qed

lemma terminate_ok:
  assumes p: "panel_ok (ps_panel st)" and r: "reg_is (ps_reg st) T" and u: "up_heap (ps_panel st) u = Some en" "\<not> pu_terminating en"
    and calm: "up_in_cycle (ps_panel st) \<or> length (up_queue (ps_panel st)) < CLOAK_USERPANEL_MAX_QUEUED_USERS \<or> has_room (ps_panel st) en"
  obtains st1 where "panel_terminate run_cycle c u st = Some st1" "ended st st1 u en T" "length (up_queue (ps_panel st1)) \<le> Suc (length (up_queue (ps_panel st)))"
    "no_overflow (ps_panel st) \<and> (leaves_nothing en \<or> length (up_queue (ps_panel st)) < CLOAK_USERPANEL_MAX_QUEUED_USERS)
       \<longrightarrow> (\<forall>d uid. pending d (ps_panel st1) uid = pending d (ps_panel st) uid)"
proof -
  let ?en = "en\<lparr>pu_terminating := True\<rparr>"
  let ?p = "(ps_panel st)\<lparr>up_heap := (up_heap (ps_panel st))(u \<mapsto> ?en)\<rparr>"
  let ?st = "st\<lparr>ps_panel := ?p\<rparr>"
  have p1: "panel_ok (ps_panel ?st)" "up_heap (ps_panel ?st) u = Some ?en" using pending_flag(2)[OF p u(1)] by simp_all
  have flag: "pending d ?p uid = pending d (ps_panel st) uid" for d uid using pending_flag(1)[OF p u(1)] by simp
  have calm1: "\<not> True \<or> up_in_cycle (ps_panel ?st) \<or> length (up_queue (ps_panel ?st)) < CLOAK_USERPANEL_MAX_QUEUED_USERS \<or> has_room (ps_panel ?st) ?en" using calm by simp
  obtain p2 en2 where d: "panel_drain_user run_cycle u True ?st = Some (?st\<lparr>ps_panel := p2\<rparr>)" "panel_ok p2" "same_frame p2 (ps_panel ?st)"
    "up_heap p2 = (up_heap (ps_panel ?st))(u \<mapsto> en2)" "en2 = ?en \<or> en2 = emptied ?en" "length (up_queue p2) \<le> Suc (length (up_queue (ps_panel ?st)))"
    "no_overflow (ps_panel ?st) \<longrightarrow> (\<forall>d uid. pending d p2 uid = pending d (ps_panel ?st) uid)"
    "leaves_nothing en2 \<or> length (up_queue (ps_panel ?st)) = CLOAK_USERPANEL_MAX_QUEUED_USERS"
    using drain_ok[OF p1 calm1] .
  let ?st2 = "?st\<lparr>ps_panel := p2\<rparr>"
  have uid: "pu_uid en2 = pu_uid en" using d(5) by auto
  have "panel_ok (ps_panel ?st2)" "reg_is (ps_reg ?st2) T" "up_heap (ps_panel ?st2) u = Some en2" using d r by simp_all
  then obtain st1 where e: "panel_end c u ?st2 = Some st1" "ended ?st2 st1 u en2 T" "up_queue (ps_panel st1) = up_queue (ps_panel ?st2)"
    "\<forall>d uid. pending d (ps_panel st1) uid = pending d (ps_panel ?st2) uid - part d uid en2" using panel_end_ok by blast
  have t: "panel_terminate run_cycle c u st = Some st1" using terminate_unfold[OF u] d(1) e(1) by simp
  have en: "ended st st1 u en T" using e(2) d(3,4) uid by (simp add: ended_def same_frame_def)
  have k: "\<forall>d uid. pending d (ps_panel st1) uid = pending d (ps_panel st) uid"
    if n: "no_overflow (ps_panel st)" and z: "leaves_nothing en \<or> length (up_queue (ps_panel st)) < CLOAK_USERPANEL_MAX_QUEUED_USERS"
  proof -
    have "no_overflow ?p" using n flag by (simp add: no_overflow_def)
    then have "\<forall>d uid. pending d p2 uid = pending d (ps_panel st) uid" using d(7) flag by simp
    moreover have "leaves_nothing en2" using z d(5,8) by (auto simp: leaves_nothing_def)
    ultimately show ?thesis using e(4) by (simp add: leaves_nothing_def)
  qed
  show thesis by (rule that[OF t en]) (use e(3) d(6) k in auto)
qed

section \<open>The loops of a cycle\<close>

definition same_users :: "(addr \<Rightarrow> panel_user option) \<Rightarrow> (addr \<Rightarrow> panel_user option) \<Rightarrow> bool" where
  "same_users H1 H \<longleftrightarrow> (\<forall>u. map_option (\<lambda>en. (pu_uid en, pu_bypass en, pu_terminating en)) (H1 u) = map_option (\<lambda>en. (pu_uid en, pu_bypass en, pu_terminating en)) (H u))"

lemma same_users_trans: "same_users H2 H1 \<Longrightarrow> same_users H1 H \<Longrightarrow> same_users H2 H"
  by (simp add: same_users_def)

lemma same_users_refl [simp]: "same_users H H"
  by (simp add: same_users_def)

lemma active_entry:
  assumes "panel_ok p" "i < CLOAK_USERPANEL_MAX_ACTIVE_USERS" "up_active p ! i = Some u"
  obtains en where "up_heap p u = Some en"
proof -
  have "Some u \<in> set (up_active p)" using assms nth_mem[of i "up_active p"] ok_active[OF assms(1)] by (simp add: active_ok_def)
  then show thesis using ok_active[OF assms(1)] that by (auto simp: active_ok_def)
qed

lemma drain_batch:
  assumes p: "panel_ok (ps_panel st)" and u: "up_heap (ps_panel st) u = Some en" and d: "panel_drain_user run_cycle u False st = Some (st\<lparr>ps_panel := p1\<rparr>)"
  shows "qe_uid ` set (up_queue (ps_panel st)) \<subseteq> qe_uid ` set (up_queue p1)"
    "\<not> pu_bypass en \<Longrightarrow> length (up_queue (ps_panel st)) < CLOAK_USERPANEL_MAX_QUEUED_USERS \<Longrightarrow> pu_uid en \<in> qe_uid ` set (up_queue p1)"
proof -
  let ?q = "up_queue (ps_panel st)"
  have "qe_uid ` set ?q \<subseteq> qe_uid ` set (up_queue p1) \<and> (\<not> pu_bypass en \<longrightarrow> length ?q < CLOAK_USERPANEL_MAX_QUEUED_USERS \<longrightarrow> pu_uid en \<in> qe_uid ` set (up_queue p1))"
  proof (cases "pu_bypass en")
    case True
    then show ?thesis using d u by (auto simp: panel_drain_user_def dest: arg_cong[where f = ps_panel])
  next
    case False
    obtain slot p2 where s: "panel_queue_slot (ps_panel st) (pu_uid en) = (slot, p2)" by fastforce
    note q = queue_slot_ok[OF ok_queue[OF p], of "pu_uid en", unfolded s]
    show ?thesis
    proof (cases slot)
      case None
      then have "p1 = ps_panel st" using d u False s q by (auto simp: panel_drain_user_def dest: arg_cong[where f = ps_panel])
      then show ?thesis using None q by simp
    next
      case (Some i)
      then obtain q1 where q1: "p2 = (ps_panel st)\<lparr>up_queue := q1\<rparr>" "i < length q1" "qe_uid (q1 ! i) = pu_uid en" "qe_uid ` set ?q \<subseteq> qe_uid ` set q1" using q by auto
      have "Option.bind (panel_settle p2 u i) (\<lambda>p3. Some (st\<lparr>ps_panel := p2, ps_panel := p3\<rparr>)) = Some (st\<lparr>ps_panel := p1\<rparr>)"
        using d u False s Some by (simp add: panel_drain_user_def)
      then have "panel_settle p2 u i = Some p1" by (auto simp: Option.bind_eq_Some_conv dest: arg_cong[where f = ps_panel])
      then have "map qe_uid (up_queue p1) = map qe_uid q1"
        using u q1 by (auto simp: panel_settle_def cloak_valve_nullify_def Let_def map_update list_update_same_conv)
      then have "qe_uid ` set (up_queue p1) = qe_uid ` set q1" by (metis list.set_map)
      then show ?thesis using q1 nth_mem[OF q1(2)] by (metis image_eqI)
    qed
  qed
  then show "qe_uid ` set ?q \<subseteq> qe_uid ` set (up_queue p1)"
    "\<not> pu_bypass en \<Longrightarrow> length ?q < CLOAK_USERPANEL_MAX_QUEUED_USERS \<Longrightarrow> pu_uid en \<in> qe_uid ` set (up_queue p1)" by auto
qed

definition drained :: "userpanel \<Rightarrow> nat list \<Rightarrow> userpanel \<Rightarrow> bool" where
  \<comment> \<open>what the drain of some slots does to a panel\<close>
  "drained p is p1 \<longleftrightarrow> panel_ok p1 \<and> same_frame p1 p \<and> same_users (up_heap p1) (up_heap p)
     \<and> (no_overflow p \<longrightarrow> (\<forall>d uid. pending d p1 uid = pending d p uid))
     \<and> (\<forall>u en. up_heap p u = Some en \<longrightarrow> pu_terminating en \<longrightarrow> up_heap p1 u = Some en)
     \<and> qe_uid ` set (up_queue p) \<subseteq> qe_uid ` set (up_queue p1) \<and> length (up_queue p1) \<le> length (up_queue p) + length is
     \<and> (length (up_queue p) + length is \<le> CLOAK_USERPANEL_MAX_QUEUED_USERS \<longrightarrow>
        (\<forall>i\<in>set is. \<forall>u en. up_active p ! i = Some u \<longrightarrow> up_heap p u = Some en \<longrightarrow> \<not> pu_terminating en \<longrightarrow> \<not> pu_bypass en \<longrightarrow> pu_uid en \<in> qe_uid ` set (up_queue p1)))"

lemma drained_id: "panel_ok p \<Longrightarrow> (\<And>i u en. i \<in> set is \<Longrightarrow> up_active p ! i = Some u \<Longrightarrow> up_heap p u = Some en \<Longrightarrow> pu_terminating en) \<Longrightarrow> drained p is p"
  by (auto simp: drained_def same_frame_def)

lemma drain_slot:
  assumes p: "panel_ok (ps_panel st)" and i: "i < CLOAK_USERPANEL_MAX_ACTIVE_USERS"
  shows "\<exists>p1. (case up_active (ps_panel st) ! i of None \<Rightarrow> Some st
        | Some u \<Rightarrow> Option.bind (up_heap (ps_panel st) u) (\<lambda>en. if pu_terminating en then Some st else panel_drain_user no_cycle u False st))
      = Some (st\<lparr>ps_panel := p1\<rparr>) \<and> drained (ps_panel st) [i] p1"
proof (cases "up_active (ps_panel st) ! i")
  case None
  then show ?thesis using drained_id[OF p, of "[i]"] by (intro exI[of _ "ps_panel st"]) simp
next
  case (Some u)
  let ?p = "ps_panel st"
  obtain en where en: "up_heap ?p u = Some en" using active_entry[OF p i Some] .
  show ?thesis
  proof (cases "pu_terminating en")
    case True
    have "drained ?p [i] ?p" by (rule drained_id[OF p]) (use Some en True in auto)
    then show ?thesis using Some en True by (intro exI[of _ "ps_panel st"]) simp
  next
    case False
    have "\<not> False \<or> up_in_cycle ?p \<or> length (up_queue ?p) < CLOAK_USERPANEL_MAX_QUEUED_USERS" by simp
    then obtain p1 en1 where d: "panel_drain_user no_cycle u False st = Some (st\<lparr>ps_panel := p1\<rparr>)" "panel_ok p1" "same_frame p1 ?p"
      "up_heap p1 = (up_heap ?p)(u \<mapsto> en1)" "en1 = en \<or> en1 = emptied en" "length (up_queue p1) \<le> Suc (length (up_queue ?p))"
      "no_overflow ?p \<longrightarrow> (\<forall>d uid. pending d p1 uid = pending d ?p uid)"
      using drain_ok[OF p en] by metis
    have "same_users ((up_heap ?p)(u \<mapsto> en1)) (up_heap ?p)" using en d(5) by (auto simp: same_users_def)
    moreover have "\<forall>v a. up_heap ?p v = Some a \<longrightarrow> pu_terminating a \<longrightarrow> up_heap p1 v = Some a" using d(4) en False by auto
    ultimately have "drained ?p [i] p1" using d drain_batch[OF p en d(1)] Some en unfolding drained_def by auto
    then show ?thesis using Some en False d(1) by (intro exI[of _ p1]) simp
  qed
qed

lemma drainedD:
  assumes "drained p is p1"
  shows dr_ok: "panel_ok p1" and dr_frame: "same_frame p1 p" and dr_users: "same_users (up_heap p1) (up_heap p)"
    and dr_pending: "no_overflow p \<longrightarrow> (\<forall>d uid. pending d p1 uid = pending d p uid)"
    and dr_keep: "\<forall>u en. up_heap p u = Some en \<longrightarrow> pu_terminating en \<longrightarrow> up_heap p1 u = Some en"
    and dr_uids: "qe_uid ` set (up_queue p) \<subseteq> qe_uid ` set (up_queue p1)" and dr_len: "length (up_queue p1) \<le> length (up_queue p) + length is"
    and dr_batch: "length (up_queue p) + length is \<le> CLOAK_USERPANEL_MAX_QUEUED_USERS \<longrightarrow>
        (\<forall>i\<in>set is. \<forall>u en. up_active p ! i = Some u \<longrightarrow> up_heap p u = Some en \<longrightarrow> \<not> pu_terminating en \<longrightarrow> \<not> pu_bypass en \<longrightarrow> pu_uid en \<in> qe_uid ` set (up_queue p1))"
  using assms unfolding drained_def by blast+

lemma same_usersD:
  assumes "same_users H1 H" "H u = Some en"
  obtains en1 where "H1 u = Some en1" "pu_uid en1 = pu_uid en" "pu_bypass en1 = pu_bypass en" "pu_terminating en1 = pu_terminating en"
proof -
  have "map_option (\<lambda>en. (pu_uid en, pu_bypass en, pu_terminating en)) (H1 u) = map_option (\<lambda>en. (pu_uid en, pu_bypass en, pu_terminating en)) (H u)"
    using assms(1) unfolding same_users_def by (rule spec)
  then show thesis using that assms(2) by (cases "H1 u") simp_all
qed

lemma drained_trans:
  assumes a: "drained p [i] p1" and b: "drained p1 is p2"
  shows "drained p (i # is) p2"
  unfolding drained_def
proof (intro conjI allI impI ballI)
  show "panel_ok p2" by (rule dr_ok[OF b])
  show "same_frame p2 p" using dr_frame[OF a] dr_frame[OF b] by (simp add: same_frame_def)
  show "same_users (up_heap p2) (up_heap p)" using dr_users[OF b] dr_users[OF a] by (rule same_users_trans)
  show "pending d p2 uid = pending d p uid" if n: "no_overflow p" for d uid
  proof -
    have "no_overflow p1" using dr_pending[OF a] n by (simp add: no_overflow_def)
    then show ?thesis using dr_pending[OF a] dr_pending[OF b] n by simp
  qed
  show "up_heap p2 u = Some en" if "up_heap p u = Some en" "pu_terminating en" for u en using dr_keep[OF a] dr_keep[OF b] that by blast
  show "qe_uid ` set (up_queue p) \<subseteq> qe_uid ` set (up_queue p2)" using dr_uids[OF a] dr_uids[OF b] by (rule subset_trans)
  show "length (up_queue p2) \<le> length (up_queue p) + length (i # is)" using dr_len[OF a] dr_len[OF b] by simp
  fix j u en
  assume l: "length (up_queue p) + length (i # is) \<le> CLOAK_USERPANEL_MAX_QUEUED_USERS" and j: "j \<in> set (i # is)" "up_active p ! j = Some u" "up_heap p u = Some en" "\<not> pu_terminating en" "\<not> pu_bypass en"
  show "pu_uid en \<in> qe_uid ` set (up_queue p2)"
  proof (cases "j = i")
    case True
    have "length (up_queue p) + length [i] \<le> CLOAK_USERPANEL_MAX_QUEUED_USERS" using l by simp
    then have "pu_uid en \<in> qe_uid ` set (up_queue p1)" using dr_batch[OF a] True j by (metis list.set_intros(1))
    then show ?thesis using dr_uids[OF b] by (rule subsetD[rotated])
  next
    case False
    obtain en1 where e: "up_heap p1 u = Some en1" "pu_uid en1 = pu_uid en" "pu_bypass en1 = pu_bypass en" "pu_terminating en1 = pu_terminating en"
      using same_usersD[OF dr_users[OF a] j(3)] .
    have m: "length (up_queue p1) + length is \<le> CLOAK_USERPANEL_MAX_QUEUED_USERS" using dr_len[OF a] l by simp
    have ji: "j \<in> set is" "up_active p1 ! j = Some u" using j(1,2) False dr_frame[OF a] by (simp_all add: same_frame_def)
    have "pu_uid en1 \<in> qe_uid ` set (up_queue p2)" using dr_batch[OF b, rule_format, OF m ji e(1)] e(3,4) j(4,5) by simp
    then show ?thesis using e(2) by simp
  qed
qed

lemma drain_loop_ok:
  "panel_ok (ps_panel st) \<Longrightarrow> \<forall>i\<in>set is. i < CLOAK_USERPANEL_MAX_ACTIVE_USERS \<Longrightarrow> \<exists>p1. panel_drain_loop is st = Some (st\<lparr>ps_panel := p1\<rparr>) \<and> drained (ps_panel st) is p1"
proof (induction "is" arbitrary: st)
  case Nil
  then show ?case using drained_id[of "ps_panel st" "[]"] by (intro exI[of _ "ps_panel st"]) simp
next
  case (Cons i "is")
  obtain p1 where o: "(case up_active (ps_panel st) ! i of None \<Rightarrow> Some st
        | Some u \<Rightarrow> Option.bind (up_heap (ps_panel st) u) (\<lambda>en. if pu_terminating en then Some st else panel_drain_user no_cycle u False st))
      = Some (st\<lparr>ps_panel := p1\<rparr>)" "drained (ps_panel st) [i] p1"
    using drain_slot[OF Cons(2), of i] Cons(3) by auto
  obtain p2 where r: "panel_drain_loop is (st\<lparr>ps_panel := p1\<rparr>) = Some (st\<lparr>ps_panel := p1, ps_panel := p2\<rparr>)" "drained p1 is p2"
    using Cons.IH[of "st\<lparr>ps_panel := p1\<rparr>"] o(2) Cons(3) by (auto simp: drained_def)
  have "panel_drain_loop (i # is) st = Some (st\<lparr>ps_panel := p2\<rparr>)" unfolding panel_drain_loop.simps o(1) using r(1) by simp
  then show ?case using drained_trans[OF o(2) r(2)] by blast
qed

lemma statuses_loop_ok:
  "panel_ok (ps_panel st) \<Longrightarrow> reg_is (ps_reg st) T \<Longrightarrow>
    \<exists>ss r1. statuses_loop c es st = Some (ss, st\<lparr>ps_reg := r1\<rparr>) \<and> reg_is r1 T
      \<and> map (\<lambda>s. (us_uid s, us_up_usage s, us_down_usage s)) ss = map (\<lambda>e. (qe_uid e, qe_up_usage e, qe_down_usage e)) es"
proof (induction es arbitrary: st)
  case Nil
  then show ?case by (auto intro: exI[of _ "ps_reg st"])
next
  case (Cons e es)
  obtain u where u: "panel_find (ps_panel st) (qe_uid e) = Some u" using panel_find_ok[OF Cons(2)] by blast
  obtain n where n: "cloak_server_registry_count_for_uid (ps_reg st) (qe_uid e)
      = Some (card {x. \<exists>sid. live_at T (qe_uid e) sid x}, (ps_reg st)\<lparr>rg_lookup_calls := rg_lookup_calls (ps_reg st) + 1, rg_lookup_probe_steps := n\<rparr>)"
    using count_for_uid_rel[OF reg_isD[OF Cons(3)]] .
  obtain k r1 where s: "(if u \<noteq> None then map_option (\<lambda>(n, r1). (int n, st\<lparr>ps_reg := r1\<rparr>)) (cloak_server_registry_count_for_uid (ps_reg st) (qe_uid e)) else Some (0, st))
      = Some (k, st\<lparr>ps_reg := r1\<rparr>)" "reg_is r1 T"
  proof (cases u)
    case None
    then show ?thesis using that[of 0 "ps_reg st"] Cons(3) by simp
  next
    case (Some a)
    then show ?thesis using that n Cons(3) by simp
  qed
  obtain ss r2 where i: "statuses_loop c es (st\<lparr>ps_reg := r1\<rparr>) = Some (ss, st\<lparr>ps_reg := r1, ps_reg := r2\<rparr>)" "reg_is r2 T"
    "map (\<lambda>s. (us_uid s, us_up_usage s, us_down_usage s)) ss = map (\<lambda>e. (qe_uid e, qe_up_usage e, qe_down_usage e)) es"
    using Cons.IH[of "st\<lparr>ps_reg := r1\<rparr>"] Cons(2) s(2) by auto
  show ?case unfolding statuses_loop.simps cloak_userpanel_find_def u Option.bind.bind_lunit s(1) using i by auto
qed

definition shrunk :: "('s, 'd, 'w) panel_sys \<Rightarrow> 's reg_table \<Rightarrow> ('s, 'd, 'w) panel_sys \<Rightarrow> 's reg_table \<Rightarrow> bool" where
  \<comment> \<open>from the first state and table to the second, users and sessions have at most gone\<close>
  "shrunk st T st1 T1 \<longleftrightarrow> panel_ok (ps_panel st1) \<and> reg_is (ps_reg st1) T1 \<and> T1 \<subseteq>\<^sub>m T \<and> up_heap (ps_panel st1) \<subseteq>\<^sub>m up_heap (ps_panel st)
     \<and> ps_db st1 = ps_db st \<and> up_in_cycle (ps_panel st1) = up_in_cycle (ps_panel st) \<and> up_breaking_sesh (ps_panel st1) = up_breaking_sesh (ps_panel st)
     \<and> length (up_queue (ps_panel st1)) + card (dom (up_heap (ps_panel st1))) \<le> length (up_queue (ps_panel st)) + card (dom (up_heap (ps_panel st)))
     \<and> (\<forall>u en. up_heap (ps_panel st) u = Some en \<longrightarrow> up_heap (ps_panel st1) u = None \<longrightarrow> \<not> pu_terminating en \<and> of_uid T1 (pu_uid en) = {})"

lemma of_uid_mono: "T1 \<subseteq>\<^sub>m T \<Longrightarrow> of_uid T1 uid \<subseteq> of_uid T uid"
  unfolding of_uid_def map_le_def by (auto simp: dom_def)

lemma shrunk_trans:
  assumes "shrunk st1 T1 st2 T2" "shrunk st T st1 T1"
  shows "shrunk st T st2 T2"
proof -
  have "\<not> pu_terminating en \<and> of_uid T2 (pu_uid en) = {}" if "up_heap (ps_panel st) u = Some en" "up_heap (ps_panel st2) u = None" for u en
  proof (cases "up_heap (ps_panel st1) u")
    case None
    then show ?thesis using assms that of_uid_mono[of T2 T1 "pu_uid en"] unfolding shrunk_def by blast
  next
    case (Some en1)
    then have "en1 = en" using assms(2) that(1) unfolding shrunk_def map_le_def by (metis domI option.inject)
    then show ?thesis using assms(1) Some that(2) unfolding shrunk_def by blast
  qed
  then show ?thesis using assms map_le_trans[of T2 T1 T] map_le_trans[of "up_heap (ps_panel st2)" "up_heap (ps_panel st1)" "up_heap (ps_panel st)"]
    unfolding shrunk_def by simp
qed

lemma shrunk_refl: "panel_ok (ps_panel st) \<Longrightarrow> reg_is (ps_reg st) T \<Longrightarrow> shrunk st T st T"
  by (simp add: shrunk_def)

lemma ended_shrunk:
  assumes "ended st st1 u en T" "panel_ok (ps_panel st)" "up_heap (ps_panel st) u = Some en" "\<not> pu_terminating en" "length (up_queue (ps_panel st1)) \<le> Suc (length (up_queue (ps_panel st)))"
  shows "shrunk st T st1 (T |` (- of_uid T (pu_uid en)))"
proof -
  have fin: "finite (dom (up_heap (ps_panel st)))" using active_bound[OF ok_active[OF assms(2)]] by simp
  have "u \<in> dom (up_heap (ps_panel st))" using assms(3) by auto
  then have "Suc (card (dom (up_heap (ps_panel st)) - {u})) = card (dom (up_heap (ps_panel st)))" using fin by (rule card.remove[symmetric, rotated])
  then have "length (up_queue (ps_panel st1)) + card (dom ((up_heap (ps_panel st))(u := None))) \<le> length (up_queue (ps_panel st)) + card (dom (up_heap (ps_panel st)))"
    using assms(5) by (simp only: dom_fun_upd simp_thms if_True)
  moreover have "T |` (- of_uid T (pu_uid en)) \<subseteq>\<^sub>m T" "(up_heap (ps_panel st))(u := None) \<subseteq>\<^sub>m up_heap (ps_panel st)" by (auto simp: map_le_def)
  moreover have "\<not> pu_terminating a \<and> of_uid (T |` (- of_uid T (pu_uid en))) (pu_uid a) = {}"
    if "up_heap (ps_panel st) v = Some a" "((up_heap (ps_panel st))(u := None)) v = None" for v a
  proof -
    have "v = u" using that by (auto split: if_splits)
    then show ?thesis using that(1) assms(3,4) by (auto simp: of_uid_def restrict_map_def split: if_splits)
  qed
  ultimately show ?thesis using assms(1) unfolding shrunk_def ended_def by metis
qed

definition keeps_pending :: "('s, 'd, 'w) panel_sys \<Rightarrow> ('s, 'd, 'w) panel_sys \<Rightarrow> bool" where
  "keeps_pending st st1 \<longleftrightarrow> (no_overflow (ps_panel st) \<longrightarrow> (\<forall>d uid. pending d (ps_panel st1) uid = pending d (ps_panel st) uid))"

lemma keeps_pending_trans: "keeps_pending st1 st2 \<Longrightarrow> keeps_pending st st1 \<Longrightarrow> keeps_pending st st2"
  unfolding keeps_pending_def no_overflow_def by auto

definition keeps_live :: "'s reg_table \<Rightarrow> 's reg_table \<Rightarrow> bool" where
  "keeps_live T T1 \<longleftrightarrow> (\<forall>x en. T x = Some en \<longrightarrow> \<not> en_dead en \<longrightarrow> T1 x = Some en)"

lemma keeps_live_trans: "keeps_live T1 T2 \<Longrightarrow> keeps_live T T1 \<Longrightarrow> keeps_live T T2"
  by (simp add: keeps_live_def)

lemma reap_one:
  assumes p: "panel_ok (ps_panel st)" and r: "reg_is (ps_reg st) T" and i: "i < CLOAK_USERPANEL_MAX_ACTIVE_USERS" and cyc: "up_in_cycle (ps_panel st)"
  shows "\<exists>st1 T1. reap_slot c i st = Some st1 \<and> shrunk st T st1 T1 \<and> keeps_pending st st1 \<and> keeps_live T T1"
  (is "\<exists>st1 T1. ?one = Some st1 \<and> _ st1 T1")
proof (cases "up_active (ps_panel st) ! i")
  case None
  then show ?thesis using shrunk_refl[OF p r] by (auto simp: reap_slot_def keeps_pending_def keeps_live_def)
next
  case (Some u)
  obtain en where en: "up_heap (ps_panel st) u = Some en" using active_entry[OF p i Some] .
  show ?thesis
  proof (cases "pu_bypass en \<or> pu_terminating en")
    case True
    then show ?thesis using Some en shrunk_refl[OF p r] by (auto simp: reap_slot_def keeps_pending_def keeps_live_def)
  next
    case False
    let ?uid = "pu_uid en"
    obtain k where n: "cloak_server_registry_count_for_uid (ps_reg st) ?uid
        = Some (card {x. \<exists>sid. live_at T ?uid sid x}, (ps_reg st)\<lparr>rg_lookup_calls := rg_lookup_calls (ps_reg st) + 1, rg_lookup_probe_steps := k\<rparr>)"
      using count_for_uid_rel[OF reg_isD[OF r]] .
    let ?r1 = "(ps_reg st)\<lparr>rg_lookup_calls := rg_lookup_calls (ps_reg st) + 1, rg_lookup_probe_steps := k\<rparr>"
    let ?st1 = "st\<lparr>ps_reg := ?r1\<rparr>"
    have sk: "shrunk st T ?st1 T" "keeps_pending st ?st1" using p r by (simp_all add: shrunk_def keeps_pending_def)
    show ?thesis
    proof (cases "card {x. \<exists>sid. live_at T ?uid sid x} \<noteq> 0 \<or> panel_has_queued_usage (ps_panel st) ?uid \<or> vl_rx (pu_valve en) \<noteq> 0 \<or> vl_tx (pu_valve en) \<noteq> 0")
      case True
      have "?one = (if card {x. \<exists>sid. live_at T ?uid sid x} \<noteq> 0 then Some ?st1 else if panel_has_queued_usage (ps_panel st) ?uid then Some ?st1
          else if vl_rx (pu_valve en) \<noteq> 0 \<or> vl_tx (pu_valve en) \<noteq> 0 then Some ?st1 else panel_terminate no_cycle c u ?st1)"
        using False by (simp add: reap_slot_def Some en n cloak_valve_rx_def cloak_valve_tx_def)
      then have "?one = Some ?st1" using True by presburger
      then show ?thesis using sk by (auto simp: keeps_live_def)
    next
      case idle: False
      have z: "metered_of d (pu_valve en) = 0" for d using idle by (cases d) auto
      then have ln: "leaves_nothing en" by (simp add: leaves_nothing_def part_def)
      have one: "?one = panel_terminate no_cycle c u ?st1" using Some en False n idle by (simp add: reap_slot_def cloak_valve_rx_def cloak_valve_tx_def Let_def)
      have a: "panel_ok (ps_panel ?st1)" "reg_is (ps_reg ?st1) T" "up_heap (ps_panel ?st1) u = Some en" "\<not> pu_terminating en"
        "up_in_cycle (ps_panel ?st1) \<or> length (up_queue (ps_panel ?st1)) < CLOAK_USERPANEL_MAX_QUEUED_USERS \<or> has_room (ps_panel ?st1) en"
        using p r en False cyc by simp_all
      obtain st2 where t: "panel_terminate no_cycle c u ?st1 = Some st2" "ended ?st1 st2 u en T" "length (up_queue (ps_panel st2)) \<le> Suc (length (up_queue (ps_panel ?st1)))"
        "no_overflow (ps_panel ?st1) \<and> (leaves_nothing en \<or> length (up_queue (ps_panel ?st1)) < CLOAK_USERPANEL_MAX_QUEUED_USERS)
           \<longrightarrow> (\<forall>d uid. pending d (ps_panel st2) uid = pending d (ps_panel ?st1) uid)"
        using terminate_ok[OF a] .
      have sh: "shrunk st T st2 (T |` (- of_uid T ?uid))" using shrunk_trans[OF ended_shrunk[OF t(2) a(1,3,4) t(3)] sk(1)] .
      have "{x. \<exists>sid. live_at T ?uid sid x} \<subseteq> dom T" by (auto simp: live_at_def)
      then have "finite {x. \<exists>sid. live_at T ?uid sid x}" using reg_rel_bound[OF reg_isD[OF r]] finite_subset by blast
      then have "keeps_live T (T |` (- of_uid T ?uid))" using idle by (auto simp: keeps_live_def live_at_def of_uid_def restrict_map_def)
      then show ?thesis using one t sh ln by (intro exI[of _ st2] exI[of _ "T |` (- of_uid T ?uid)"]) (simp add: keeps_pending_def)
    qed
  qed
qed

lemma reap_loop_ok:
  "panel_ok (ps_panel st) \<Longrightarrow> reg_is (ps_reg st) T \<Longrightarrow> up_in_cycle (ps_panel st) \<Longrightarrow> \<forall>i\<in>set is. i < CLOAK_USERPANEL_MAX_ACTIVE_USERS \<Longrightarrow>
    \<exists>st1 T1. reap_loop c is st = Some st1 \<and> shrunk st T st1 T1 \<and> keeps_pending st st1 \<and> keeps_live T T1"
proof (induction "is" arbitrary: st T)
  case Nil
  then show ?case using shrunk_refl by (auto simp: keeps_pending_def keeps_live_def)
next
  case (Cons i "is")
  have "i < CLOAK_USERPANEL_MAX_ACTIVE_USERS" using Cons(5) by simp
  from reap_one[OF Cons(2,3) this Cons(4), of c] obtain st1 T1 where o: "reap_slot c i st = Some st1" "shrunk st T st1 T1" "keeps_pending st st1" "keeps_live T T1"
    by auto
  have "panel_ok (ps_panel st1)" "reg_is (ps_reg st1) T1" "up_in_cycle (ps_panel st1)" using o(2) Cons(4) by (simp_all add: shrunk_def)
  then obtain st2 T2 where r: "reap_loop c is st1 = Some st2" "shrunk st1 T1 st2 T2" "keeps_pending st1 st2" "keeps_live T1 T2" using Cons.IH Cons(5) by fastforce
  show ?case using o r shrunk_trans[OF r(2) o(2)] keeps_pending_trans[OF r(3) o(3)] keeps_live_trans[OF r(4) o(4)] by auto
qed

lemma terminates_loop_ok:
  "panel_ok (ps_panel st) \<Longrightarrow> reg_is (ps_reg st) T \<Longrightarrow> up_in_cycle (ps_panel st) \<Longrightarrow>
    length (up_queue (ps_panel st)) + card (dom (up_heap (ps_panel st))) \<le> CLOAK_USERPANEL_MAX_QUEUED_USERS \<Longrightarrow>
    \<exists>st1 T1. terminates_loop c ts st = Some st1 \<and> shrunk st T st1 T1 \<and> keeps_pending st st1
      \<and> (\<forall>u en. up_heap (ps_panel st1) u = Some en \<longrightarrow> \<not> pu_terminating en \<longrightarrow> pu_uid en \<notin> fst ` set ts)"
proof (induction ts arbitrary: st T)
  case Nil
  then show ?case using shrunk_refl by (auto simp: keeps_pending_def)
next
  case (Cons t ts)
  obtain uid reason where t: "t = (uid, reason)" by fastforce
  obtain r where f: "panel_find (ps_panel st) uid = Some r" "\<forall>u. r = Some u \<longleftrightarrow> (\<exists>en. up_heap (ps_panel st) u = Some en \<and> \<not> pu_terminating en \<and> pu_uid en = uid)"
    using panel_find_ok[OF Cons(2)] .
  have "\<exists>st1 T1. (case r of None \<Rightarrow> Some st | Some a \<Rightarrow> panel_terminate no_cycle c a st) = Some st1 \<and> shrunk st T st1 T1 \<and> keeps_pending st st1
      \<and> (\<forall>u en. up_heap (ps_panel st1) u = Some en \<longrightarrow> \<not> pu_terminating en \<longrightarrow> pu_uid en \<noteq> uid)"
  proof (cases r)
    case None
    then show ?thesis using shrunk_refl[OF Cons(2,3)] f(2) by (auto simp: keeps_pending_def)
  next
    case (Some u)
    then obtain en where en: "up_heap (ps_panel st) u = Some en" "\<not> pu_terminating en" "pu_uid en = uid" using f(2) by auto
    have fin: "finite (dom (up_heap (ps_panel st)))" using active_bound[OF ok_active[OF Cons(2)]] by simp
    have "card (dom (up_heap (ps_panel st))) \<noteq> 0" using en(1) fin by auto
    then have room: "length (up_queue (ps_panel st)) < CLOAK_USERPANEL_MAX_QUEUED_USERS" using Cons(5) by linarith
    then have calm: "up_in_cycle (ps_panel st) \<or> length (up_queue (ps_panel st)) < CLOAK_USERPANEL_MAX_QUEUED_USERS \<or> has_room (ps_panel st) en" by simp
    obtain st1 where e: "panel_terminate no_cycle c u st = Some st1" "ended st st1 u en T" "length (up_queue (ps_panel st1)) \<le> Suc (length (up_queue (ps_panel st)))"
      "no_overflow (ps_panel st) \<and> (leaves_nothing en \<or> length (up_queue (ps_panel st)) < CLOAK_USERPANEL_MAX_QUEUED_USERS)
         \<longrightarrow> (\<forall>d uid. pending d (ps_panel st1) uid = pending d (ps_panel st) uid)"
      using terminate_ok[OF Cons(2,3) en(1,2) calm] .
    have "pu_uid a \<noteq> uid" if "up_heap (ps_panel st1) v = Some a" for v a
    proof
      assume "pu_uid a = uid"
      moreover have "v \<noteq> u" "up_heap (ps_panel st) v = Some a" using that e(2) by (auto simp: ended_def split: if_splits)
      ultimately show False using ok_users[OF Cons(2)] en(1,3) unfolding users_ok_def by metis
    qed
    then show ?thesis using Some e(1,4) room ended_shrunk[OF e(2) Cons(2) en(1,2) e(3)]
      by (intro exI[of _ st1] exI[of _ "T |` (- of_uid T (pu_uid en))"]) (auto simp: keeps_pending_def)
  qed
  then obtain st1 T1 where o: "(case r of None \<Rightarrow> Some st | Some a \<Rightarrow> panel_terminate no_cycle c a st) = Some st1" "shrunk st T st1 T1" "keeps_pending st st1"
    "\<forall>u en. up_heap (ps_panel st1) u = Some en \<longrightarrow> \<not> pu_terminating en \<longrightarrow> pu_uid en \<noteq> uid" by blast
  have a: "panel_ok (ps_panel st1)" "reg_is (ps_reg st1) T1" "up_in_cycle (ps_panel st1)"
    "length (up_queue (ps_panel st1)) + card (dom (up_heap (ps_panel st1))) \<le> CLOAK_USERPANEL_MAX_QUEUED_USERS"
    using o(2) Cons(4,5) by (auto simp: shrunk_def)
  obtain st2 T2 where r: "terminates_loop c ts st1 = Some st2" "shrunk st1 T1 st2 T2" "keeps_pending st1 st2"
    "\<forall>u en. up_heap (ps_panel st2) u = Some en \<longrightarrow> \<not> pu_terminating en \<longrightarrow> pu_uid en \<notin> fst ` set ts" using Cons.IH[OF a] by blast
  have "pu_uid en \<notin> fst ` set (t # ts)" if "up_heap (ps_panel st2) u = Some en" "\<not> pu_terminating en" for u en
  proof -
    have "up_heap (ps_panel st1) u = Some en" using r(2) that(1) unfolding shrunk_def map_le_def by (metis domI)
    then show ?thesis using o(4) r(4) that by (simp add: t)
  qed
  moreover have "terminates_loop c (t # ts) st = Some st2" unfolding t terminates_loop.simps cloak_userpanel_find_def f(1) Option.bind.bind_lunit o(1) using r(1) by simp
  ultimately show ?case using shrunk_trans[OF r(2) o(2)] keeps_pending_trans[OF r(3) o(3)] by blast
qed

section \<open>A whole cycle\<close>

lemma charge_queue:
  "map (\<lambda>s. (us_uid s, us_up_usage s, us_down_usage s)) ss = map (\<lambda>e. (qe_uid e, qe_up_usage e, qe_down_usage e)) es \<Longrightarrow> distinct (map qe_uid es) \<Longrightarrow>
    \<forall>e\<in>set es. \<forall>d. 0 \<le> usage_of d e \<Longrightarrow> rows uid = Some r \<Longrightarrow>
    \<exists>r1. fold charge_usage ss rows uid = Some r1 \<and> (\<forall>d. INT64_MIN \<le> credit_of d r - queued d es uid \<longrightarrow> credit_of d r1 = credit_of d r - queued d es uid)"
proof (induction es arbitrary: ss rows)
  case (Cons e es)
  then obtain s ss' where s: "ss = s # ss'" "us_uid s = qe_uid e" "us_up_usage s = qe_up_usage e" "us_down_usage s = qe_down_usage e"
    "map (\<lambda>s. (us_uid s, us_up_usage s, us_down_usage s)) ss' = map (\<lambda>e. (qe_uid e, qe_up_usage e, qe_down_usage e)) es" by auto
  have uids: "us_uid ` set ss' = qe_uid ` set es" using arg_cong[OF s(5), of "\<lambda>xs. fst ` set xs"] by (simp add: image_image)
  show ?case
  proof (cases "qe_uid e = uid")
    case True
    then have out: "uid \<notin> qe_uid ` set es" using Cons.prems(2) by auto
    let ?r = "r\<lparr>ur_up_credit := max INT64_MIN (ur_up_credit r - max 0 (qe_up_usage e)), ur_down_credit := max INT64_MIN (ur_down_credit r - max 0 (qe_down_usage e))\<rparr>"
    have "fold charge_usage ss' (charge_usage s rows) uid = charge_usage s rows uid" using out uids by (intro charge_all_other) simp
    also have "\<dots> = Some ?r" using s True Cons.prems(4) by (simp add: charge_usage_def)
    finally have f: "fold charge_usage ss rows uid = Some ?r" using s(1) by simp
    have nn: "0 \<le> usage_of d e" for d using Cons.prems(3) by simp
    have "credit_of d ?r = max INT64_MIN (credit_of d r - usage_of d e)" for d using nn[of d] by (cases d) simp_all
    then show ?thesis using f True queued_absent[OF out] by (intro exI[of _ ?r]) simp
  next
    case False
    then have "charge_usage s rows uid = Some r" using charge_other[of s uid rows] s(2) Cons.prems(4) by simp
    then show ?thesis using Cons.IH[OF s(5), of "charge_usage s rows"] Cons.prems(2,3) False s(1) by simp
  qed
qed simp

definition settled :: "('d \<Rightarrow> users) \<Rightarrow> ('s, 'd, 'w) panel_sys \<Rightarrow> ('s, 'd, 'w) panel_sys \<Rightarrow> bool" where
  \<comment> \<open>what a user has left, less what it has used and not paid for yet, is the same in both states\<close>
  "settled rows st st1 \<longleftrightarrow>
     (\<forall>d uid r. rows (ps_db st) uid = Some r \<longrightarrow> INT64_MIN \<le> credit_of d r - pending d (ps_panel st) uid \<longrightarrow>
        (\<exists>r1. rows (ps_db st1) uid = Some r1 \<and> credit_of d r1 - pending d (ps_panel st1) uid = credit_of d r - pending d (ps_panel st) uid))"

definition in_credit :: "('d, 'w) userpanel_config \<Rightarrow> user_row \<Rightarrow> bool" where
  "in_credit c r \<longleftrightarrow> 0 < ur_up_credit r \<and> 0 < ur_down_credit r \<and> (\<exists>k. pc_clock c k \<le> ur_expiry_time r)"

definition cycle_done ::
  "('d, 'w) userpanel_config \<Rightarrow> ('d \<Rightarrow> users) \<Rightarrow> ('s, 'd, 'w) panel_sys \<Rightarrow> 's reg_table \<Rightarrow> user_err \<Rightarrow> ('s, 'd, 'w) panel_sys \<Rightarrow> 's reg_table \<Rightarrow> bool" where
  "cycle_done c rows st T rc st1 T1 \<longleftrightarrow>
     panel_ok (ps_panel st1) \<and> reg_is (ps_reg st1) T1 \<and> T1 \<subseteq>\<^sub>m T
   \<and> up_in_cycle (ps_panel st1) = up_in_cycle (ps_panel st) \<and> up_breaking_sesh (ps_panel st1) = up_breaking_sesh (ps_panel st)
   \<and> (\<forall>u en1. up_heap (ps_panel st1) u = Some en1 \<longrightarrow> (\<exists>en. up_heap (ps_panel st) u = Some en \<and> pu_uid en = pu_uid en1 \<and> pu_bypass en = pu_bypass en1 \<and> pu_terminating en = pu_terminating en1))
   \<and> (\<forall>u en. up_heap (ps_panel st) u = Some en \<longrightarrow> pu_terminating en \<longrightarrow> up_heap (ps_panel st1) u = Some en)
   \<and> (\<forall>u en. up_heap (ps_panel st) u = Some en \<longrightarrow> up_heap (ps_panel st1) u = None \<longrightarrow> of_uid T1 (pu_uid en) = {})
   \<and> (no_overflow (ps_panel st) \<longrightarrow> settled rows st st1 \<and> no_overflow (ps_panel st1))
   \<and> (rc \<noteq> CLOAK_USER_OK \<longrightarrow> rows (ps_db st1) = rows (ps_db st) \<and> keeps_live T T1)
   \<and> (rc = CLOAK_USER_OK \<longrightarrow> length (up_queue (ps_panel st1)) \<le> CLOAK_USERPANEL_MAX_ACTIVE_USERS)
   \<and> (rc = CLOAK_USER_OK \<longrightarrow> length (up_queue (ps_panel st)) \<le> CLOAK_USERPANEL_MAX_ACTIVE_USERS \<longrightarrow>
       (\<forall>u en. up_heap (ps_panel st1) u = Some en \<longrightarrow> \<not> pu_terminating en \<longrightarrow> \<not> pu_bypass en \<longrightarrow>
          (\<exists>r. rows (ps_db st1) (pu_uid en) = Some r \<and> in_credit c r)))"

lemma cycle_doneI:
  \<comment> \<open>a cycle is a drain followed by steps in which users and sessions at most go\<close>
  assumes d: "drained (ps_panel st) [0..<CLOAK_USERPANEL_MAX_ACTIVE_USERS] p1" and heap: "up_heap (ps_panel st2) = up_heap p1"
    and frame: "up_in_cycle (ps_panel st2) = up_in_cycle p1" "up_breaking_sesh (ps_panel st2) = up_breaking_sesh p1"
    and sh: "shrunk st2 T st3 T3"
    and money: "no_overflow (ps_panel st) \<Longrightarrow> settled rows st st3 \<and> no_overflow (ps_panel st3)"
    and err: "rc \<noteq> CLOAK_USER_OK \<Longrightarrow> rows (ps_db st3) = rows (ps_db st) \<and> keeps_live T T3"
    and q: "rc = CLOAK_USER_OK \<Longrightarrow> length (up_queue (ps_panel st3)) \<le> CLOAK_USERPANEL_MAX_ACTIVE_USERS"
    and good: "\<And>u en. rc = CLOAK_USER_OK \<Longrightarrow> up_heap (ps_panel st3) u = Some en \<Longrightarrow> \<not> pu_terminating en \<Longrightarrow> pu_uid en \<in> qe_uid ` set (up_queue p1) \<Longrightarrow>
      \<exists>r. rows (ps_db st3) (pu_uid en) = Some r \<and> in_credit c r"
    and p: "panel_ok (ps_panel st)"
  shows "cycle_done c rows st T rc st3 T3"
  unfolding cycle_done_def
proof (intro conjI allI impI)
  let ?H = "up_heap (ps_panel st)" and ?H3 = "up_heap (ps_panel st3)"
  have le: "?H3 u = Some en \<Longrightarrow> up_heap p1 u = Some en" for u en using sh heap unfolding shrunk_def map_le_def by (metis domI)
  have same: "same_users (up_heap p1) ?H" "same_users ?H (up_heap p1)" using dr_users[OF d] by (simp_all add: same_users_def)
  show "panel_ok (ps_panel st3)" "reg_is (ps_reg st3) T3" "T3 \<subseteq>\<^sub>m T" using sh by (simp_all add: shrunk_def)
  show "up_in_cycle (ps_panel st3) = up_in_cycle (ps_panel st)" "up_breaking_sesh (ps_panel st3) = up_breaking_sesh (ps_panel st)"
    using sh frame dr_frame[OF d] by (simp_all add: shrunk_def same_frame_def)
  show "\<exists>en. ?H u = Some en \<and> pu_uid en = pu_uid en1 \<and> pu_bypass en = pu_bypass en1 \<and> pu_terminating en = pu_terminating en1" if "?H3 u = Some en1" for u en1
    using same_usersD[OF same(2) le[OF that]] by metis
  show "?H3 u = Some en" if "?H u = Some en" "pu_terminating en" for u en
  proof -
    have "up_heap p1 u = Some en" using dr_keep[OF d] that by blast
    then have "?H3 u \<noteq> None" using sh that(2) heap unfolding shrunk_def by metis
    then show ?thesis using le \<open>up_heap p1 u = Some en\<close> by fastforce
  qed
  show "of_uid T3 (pu_uid en) = {}" if gone: "?H u = Some en" "?H3 u = None" for u en
  proof -
    obtain en1 where "up_heap p1 u = Some en1" "pu_uid en1 = pu_uid en" using same_usersD[OF same(1) gone(1)] by blast
    then show ?thesis using sh gone(2) heap unfolding shrunk_def by metis
  qed
  show "settled rows st st3" "no_overflow (ps_panel st3)" if "no_overflow (ps_panel st)" using money[OF that] by simp_all
  show "rows (ps_db st3) = rows (ps_db st)" "keeps_live T T3" if "rc \<noteq> CLOAK_USER_OK" using err[OF that] by simp_all
  show "length (up_queue (ps_panel st3)) \<le> CLOAK_USERPANEL_MAX_ACTIVE_USERS" if "rc = CLOAK_USER_OK" using q[OF that] .
  fix u en
  assume g: "rc = CLOAK_USER_OK" "length (up_queue (ps_panel st)) \<le> CLOAK_USERPANEL_MAX_ACTIVE_USERS" "?H3 u = Some en" "\<not> pu_terminating en" "\<not> pu_bypass en"
  obtain en0 where e: "?H u = Some en0" "pu_uid en0 = pu_uid en" "pu_bypass en0 = pu_bypass en" "pu_terminating en0 = pu_terminating en"
    using same_usersD[OF same(2) le[OF g(3)]] .
  have "Some u \<in> set (up_active (ps_panel st))" using ok_active[OF p] e(1) by (auto simp: active_ok_def)
  then obtain i where i: "i < CLOAK_USERPANEL_MAX_ACTIVE_USERS" "up_active (ps_panel st) ! i = Some u" using ok_active[OF p] by (auto simp: active_ok_def in_set_conv_nth)
  have l: "length (up_queue (ps_panel st)) + length [0..<CLOAK_USERPANEL_MAX_ACTIVE_USERS] \<le> CLOAK_USERPANEL_MAX_QUEUED_USERS"
    using g(2) by (simp add: CLOAK_USERPANEL_MAX_QUEUED_USERS_def)
  have "pu_uid en0 \<in> qe_uid ` set (up_queue p1)" using dr_batch[OF d, rule_format, OF l _ i(2) e(1)] i(1) e g by simp
  then show "\<exists>r. rows (ps_db st3) (pu_uid en) = Some r \<and> in_credit c r" using good g e(2) by simp
qed

lemma settled_same_rows:
  "rows (ps_db st1) = rows (ps_db st) \<Longrightarrow> \<forall>d uid. pending d (ps_panel st1) uid = pending d (ps_panel st) uid \<Longrightarrow> settled rows st st1"
  by (simp add: settled_def)

lemma pending_queue: "pending d (p\<lparr>up_queue := q\<rparr>) uid = queued d q uid + metered d (up_heap p) uid"
  by (simp add: pending_def)

lemma settled_charge:
  assumes p: "panel_ok p1" and pend: "\<forall>d uid. pending d p1 uid = pending d (ps_panel st) uid"
    and ss: "map (\<lambda>s. (us_uid s, us_up_usage s, us_down_usage s)) ss = map (\<lambda>e. (qe_uid e, qe_up_usage e, qe_down_usage e)) (up_queue p1)"
    and rows: "rows (ps_db st3) = fold charge_usage ss (rows (ps_db st))"
    and pend3: "\<forall>d uid. pending d (ps_panel st3) uid = metered d (up_heap p1) uid"
  shows "settled rows st st3"
  unfolding settled_def
proof (intro allI impI)
  fix d uid r
  assume r: "rows (ps_db st) uid = Some r" "INT64_MIN \<le> credit_of d r - pending d (ps_panel st) uid"
  note q = ok_queue[OF p, unfolded queue_ok_def]
  obtain r1 where r1: "fold charge_usage ss (rows (ps_db st)) uid = Some r1"
    "\<forall>d. INT64_MIN \<le> credit_of d r - queued d (up_queue p1) uid \<longrightarrow> credit_of d r1 = credit_of d r - queued d (up_queue p1) uid"
    using charge_queue[where rows = "rows (ps_db st)" and uid = uid and r = r, OF ss] q r(1) by auto
  have e: "pending d (ps_panel st) uid = queued d (up_queue p1) uid + metered d (up_heap p1) uid" using pend by (simp add: pending_def)
  have "0 \<le> metered d (up_heap p1) uid" using metered_nonneg[OF ok_users[OF p]] .
  then have "INT64_MIN \<le> credit_of d r - queued d (up_queue p1) uid" using r(2) e by simp
  then have "credit_of d r1 = credit_of d r - queued d (up_queue p1) uid" using r1(2) by simp
  then show "\<exists>r1. rows (ps_db st3) uid = Some r1 \<and> credit_of d r1 - pending d (ps_panel st3) uid = credit_of d r - pending d (ps_panel st) uid"
    using r1(1) rows pend3 e by (intro exI[of _ r1]) simp
qed

definition manager_sound :: "('d, 'w) userpanel_config \<Rightarrow> ('d \<Rightarrow> users) \<Rightarrow> ('d \<Rightarrow> users) \<Rightarrow> bool" where
  \<comment> \<open>a server may run without a user database\<close>
  "manager_sound c tbl base \<longleftrightarrow> (case pc_manager c of None \<Rightarrow> True | Some q \<Rightarrow> sqlite_sound q tbl base)"

definition paid_rows :: "('d, 'w) userpanel_config \<Rightarrow> ('d \<Rightarrow> users) \<Rightarrow> ('d \<Rightarrow> users) \<Rightarrow> 'd \<Rightarrow> users" where
  "paid_rows c tbl base d = (case pc_manager c of None \<Rightarrow> tbl d | Some q \<Rightarrow> committed q tbl base d)"

lemma upload_any:
  assumes "manager_sound c tbl base" "cloak_usermanager_upload_status (pc_manager c) clock d updates out_cap = (res, d')"
  shows "case res of
      Inl e \<Rightarrow> e \<noteq> CLOAK_USER_OK \<and> paid_rows c tbl base d' = paid_rows c tbl base d
    | Inr (ts, n) \<Rightarrow> paid_rows c tbl base d' = fold charge_usage updates (paid_rows c tbl base d)
        \<and> ts = take out_cap (doomed clock (paid_rows c tbl base d) updates) \<and> n = length (doomed clock (paid_rows c tbl base d) updates)"
proof (cases "pc_manager c")
  case None
  then show ?thesis using assms(2) by (auto simp: cloak_usermanager_upload_status_def)
next
  case (Some q)
  then show ?thesis using upload_batch[of q tbl base clock d updates out_cap res d'] assms
    by (auto simp: manager_sound_def paid_rows_def committed_def split: sum.splits)
qed

lemma cycle_body_ok:
  assumes p: "panel_ok (ps_panel st)" and r: "reg_is (ps_reg st) T" and cyc: "up_in_cycle (ps_panel st)" and m: "manager_sound c tbl base"
  shows "\<exists>rc st1 T1. panel_cycle_body c st = Some (rc, st1) \<and> cycle_done c (paid_rows c tbl base) st T rc st1 T1"
proof -
  let ?is = "[0..<CLOAK_USERPANEL_MAX_ACTIVE_USERS]" and ?rows = "paid_rows c tbl base"
  have range: "\<forall>i\<in>set ?is. i < CLOAK_USERPANEL_MAX_ACTIVE_USERS" by simp
  obtain p1 where d: "panel_drain_loop ?is st = Some (st\<lparr>ps_panel := p1\<rparr>)" "drained (ps_panel st) ?is p1" using drain_loop_ok[OF p range] by blast
  let ?st1 = "st\<lparr>ps_panel := p1\<rparr>"
  have cyc1: "up_in_cycle p1" using dr_frame[OF d(2)] cyc by (simp add: same_frame_def)
  have over: "no_overflow p1" "\<forall>d uid. pending d p1 uid = pending d (ps_panel st) uid" if "no_overflow (ps_panel st)"
    using dr_pending[OF d(2)] that by (simp_all add: no_overflow_def)
  show ?thesis
  proof (cases "up_queue p1 = []")
    case True
    obtain st3 T3 where e: "panel_reap_sessionless c ?st1 = Some st3" "shrunk ?st1 T st3 T3" "keeps_pending ?st1 st3" "keeps_live T T3"
      using reap_loop_ok[of ?st1 T ?is c] dr_ok[OF d(2)] r cyc1 range by (auto simp: panel_reap_sessionless_def)
    have k: "settled ?rows st st3 \<and> no_overflow (ps_panel st3)" if n: "no_overflow (ps_panel st)"
    proof -
      have "\<forall>d uid. pending d (ps_panel st3) uid = pending d (ps_panel st) uid" using e(3) over[OF n] by (simp add: keeps_pending_def)
      then show ?thesis using settled_same_rows[of ?rows st3 st] e(2) n by (simp add: shrunk_def no_overflow_def)
    qed
    have "length (up_queue (ps_panel st3)) \<le> CLOAK_USERPANEL_MAX_ACTIVE_USERS"
      using e(2) True active_bound(2)[OF ok_active[OF dr_ok[OF d(2)]]] by (simp add: shrunk_def)
    then have "cycle_done c ?rows st T CLOAK_USER_OK st3 T3"
      by (intro cycle_doneI[OF d(2) _ _ _ e(2) k _ _ _ p]) (use True in auto)
    moreover have "panel_cycle_body c st = Some (CLOAK_USER_OK, st3)" using d(1) True e(1) by (simp add: panel_cycle_body_def)
    ultimately show ?thesis by blast
  next
    case False
    obtain ss r1 where ss: "statuses_loop c (up_queue p1) ?st1 = Some (ss, ?st1\<lparr>ps_reg := r1\<rparr>)" "reg_is r1 T"
      "map (\<lambda>s. (us_uid s, us_up_usage s, us_down_usage s)) ss = map (\<lambda>e. (qe_uid e, qe_up_usage e, qe_down_usage e)) (up_queue p1)"
      using statuses_loop_ok[of ?st1 T c "up_queue p1"] dr_ok[OF d(2)] r by auto
    obtain res db where u: "cloak_usermanager_upload_status (pc_manager c) (pc_clock c) (ps_db st) ss CLOAK_USERPANEL_MAX_QUEUED_USERS = (res, db)" by fastforce
    note up = upload_any[OF m u]
    have uids: "map us_uid ss = map qe_uid (up_queue p1)" using arg_cong[OF ss(3), of "map fst"] by (simp add: comp_def)
    show ?thesis
    proof (cases res)
      case (Inl e)
      let ?st2 = "st\<lparr>ps_panel := p1, ps_reg := r1, ps_db := db\<rparr>"
      have rows: "e \<noteq> CLOAK_USER_OK" "?rows db = ?rows (ps_db st)" using up Inl by simp_all
      obtain st3 T3 where e: "panel_reap_sessionless c ?st2 = Some st3" "shrunk ?st2 T st3 T3" "keeps_pending ?st2 st3" "keeps_live T T3"
        using reap_loop_ok[of ?st2 T ?is c] dr_ok[OF d(2)] ss(2) cyc1 range by (auto simp: panel_reap_sessionless_def)
      have db3: "?rows (ps_db st3) = ?rows (ps_db st)" using e(2) rows(2) by (simp add: shrunk_def)
      have k: "settled ?rows st st3 \<and> no_overflow (ps_panel st3)" if n: "no_overflow (ps_panel st)"
      proof -
        have "\<forall>d uid. pending d (ps_panel st3) uid = pending d (ps_panel st) uid" using e(3) over[OF n] by (simp add: keeps_pending_def)
        then show ?thesis using settled_same_rows[of ?rows st3 st] db3 n by (simp add: no_overflow_def)
      qed
      have "cycle_done c ?rows st T e st3 T3"
        by (intro cycle_doneI[OF d(2) _ _ _ e(2) k _ _ _ p]) (use rows(1) db3 e(4) in auto)
      moreover have "panel_cycle_body c st = Some (e, st3)" using d(1) False ss(1) u Inl e(1) by (simp add: panel_cycle_body_def)
      ultimately show ?thesis by blast
    next
      case (Inr tn)
      obtain ts n where tn: "tn = (ts, n)" by fastforce
      let ?doomed = "doomed (pc_clock c) (?rows (ps_db st)) ss"
      let ?st2 = "st\<lparr>ps_reg := r1, ps_db := db, ps_panel := p1\<lparr>up_queue := []\<rparr>\<rparr>"
      have rows: "?rows db = fold charge_usage ss (?rows (ps_db st))" "ts = take CLOAK_USERPANEL_MAX_QUEUED_USERS ?doomed" "n = length ?doomed"
        using up Inr tn by simp_all
      have "length ss \<le> CLOAK_USERPANEL_MAX_QUEUED_USERS" using ok_queue[OF dr_ok[OF d(2)]] map_eq_imp_length_eq[OF ss(3)] by (simp add: queue_ok_def)
      then have "length ?doomed \<le> CLOAK_USERPANEL_MAX_QUEUED_USERS" using length_doomed[of "pc_clock c" "?rows (ps_db st)" ss] by linarith
      then have ts: "ts = ?doomed" "n = length ts" "\<not> CLOAK_USERPANEL_MAX_QUEUED_USERS < n" using rows by simp_all
      have p2: "panel_ok (ps_panel ?st2)" using ok_users[OF dr_ok[OF d(2)]] by (intro panel_ok_cong[OF dr_ok[OF d(2)]]) (auto simp: queue_ok_def)
      have room: "length (up_queue (ps_panel ?st2)) + card (dom (up_heap (ps_panel ?st2))) \<le> CLOAK_USERPANEL_MAX_ACTIVE_USERS"
        using active_bound(2)[OF ok_active[OF dr_ok[OF d(2)]]] by simp
      then have room2: "length (up_queue (ps_panel ?st2)) + card (dom (up_heap (ps_panel ?st2))) \<le> CLOAK_USERPANEL_MAX_QUEUED_USERS"
        by (simp add: CLOAK_USERPANEL_MAX_QUEUED_USERS_def)
      obtain st4 T4 where t: "terminates_loop c ts ?st2 = Some st4" "shrunk ?st2 T st4 T4" "keeps_pending ?st2 st4"
        "\<forall>u en. up_heap (ps_panel st4) u = Some en \<longrightarrow> \<not> pu_terminating en \<longrightarrow> pu_uid en \<notin> fst ` set ts"
        using terminates_loop_ok[OF p2 _ _ room2, of T c ts] ss(2) cyc1 by auto
      have st4: "panel_ok (ps_panel st4)" "reg_is (ps_reg st4) T4" "up_in_cycle (ps_panel st4)" using t(2) cyc1 by (simp_all add: shrunk_def)
      obtain st5 T5 where e: "panel_reap_sessionless c st4 = Some st5" "shrunk st4 T4 st5 T5" "keeps_pending st4 st5"
        using reap_loop_ok[OF st4 range, of c] by (auto simp: panel_reap_sessionless_def)
      have sh: "shrunk ?st2 T st5 T5" using shrunk_trans[OF e(2) t(2)] .
      have db5: "?rows (ps_db st5) = fold charge_usage ss (?rows (ps_db st))" using sh rows(1) by (simp add: shrunk_def)
      have k: "settled ?rows st st5 \<and> no_overflow (ps_panel st5)" if n: "no_overflow (ps_panel st)"
      proof -
        have n2: "no_overflow (ps_panel ?st2)"
          using over(1)[OF n] queued_nonneg[OF ok_queue[OF dr_ok[OF d(2)]]] unfolding no_overflow_def pending_def by (simp add: add.commute) (metis add.commute add_increasing2 order_trans order_refl)
        then have pend5: "\<forall>d uid. pending d (ps_panel st5) uid = metered d (up_heap p1) uid"
          using keeps_pending_trans[OF e(3) t(3)] by (simp add: keeps_pending_def pending_queue)
        moreover have "no_overflow (ps_panel st5)" using n2 pend5 by (simp add: no_overflow_def pending_queue)
        ultimately show ?thesis using settled_charge[OF dr_ok[OF d(2)] over(2)[OF n] ss(3) db5] by simp
      qed
      have len: "length (up_queue (ps_panel st5)) \<le> CLOAK_USERPANEL_MAX_ACTIVE_USERS" using sh room by (simp add: shrunk_def)
      have good: "\<exists>r. ?rows (ps_db st5) (pu_uid en) = Some r \<and> in_credit c r"
        if g: "up_heap (ps_panel st5) u = Some en" "\<not> pu_terminating en" "pu_uid en \<in> qe_uid ` set (up_queue p1)" for u en
      proof -
        have "up_heap (ps_panel st4) u = Some en" using e(2) g(1) unfolding shrunk_def map_le_def by (metis domI)
        then have nt: "pu_uid en \<notin> fst ` set ?doomed" using t(4) g(2) ts(1) by blast
        have "pu_uid en \<in> us_uid ` set ss" using g(3) uids by (metis list.set_map)
        then obtain s where s: "s \<in> set ss" "us_uid s = pu_uid en" by auto
        have dist: "distinct (map us_uid ss)" using ok_queue[OF dr_ok[OF d(2)]] uids by (simp add: queue_ok_def)
        show ?thesis using spared[OF dist s(1), of "pc_clock c" "?rows (ps_db st)"] nt s(2) db5 by (auto simp: in_credit_def)
      qed
      have "cycle_done c ?rows st T CLOAK_USER_OK st5 T5"
        by (rule cycle_doneI[OF d(2) _ _ _ sh k _ len good p]) simp_all
      moreover have "panel_cycle_body c st = Some (CLOAK_USER_OK, st5)"
        using d(1) False ss(1) u Inr tn t(1) e(1) ts(2,3) by (simp add: panel_cycle_body_def Let_def)
      ultimately show ?thesis by blast
    qed
  qed
qed

section \<open>A whole cycle, and a termination from outside a cycle\<close>

lemma pending_cong [simp]: "pending d (p\<lparr>up_in_cycle := b\<rparr>) = pending d p"
  by (simp add: pending_def fun_eq_iff)

lemma panel_ok_flags [simp]:
  "panel_ok (p\<lparr>up_in_cycle := b\<rparr>) = panel_ok p"
  "panel_ok (p\<lparr>up_upload_timer := b\<rparr>) = panel_ok p"
  "panel_ok (p\<lparr>up_breaking_sesh := s, up_breaking_sesh_destroyed := b\<rparr>) = panel_ok p"
  by (simp_all add: panel_ok_def index_ok_def panel_uid_bucket_def)

lemma set_in_cycle_simps [simp]:
  "ps_reg (set_in_cycle b st) = ps_reg st" "ps_db (set_in_cycle b st) = ps_db st"
  "up_heap (ps_panel (set_in_cycle b st)) = up_heap (ps_panel st)" "up_queue (ps_panel (set_in_cycle b st)) = up_queue (ps_panel st)"
  "up_in_cycle (ps_panel (set_in_cycle b st)) = b" "up_breaking_sesh (ps_panel (set_in_cycle b st)) = up_breaking_sesh (ps_panel st)"
  "panel_ok (ps_panel (set_in_cycle b st)) = panel_ok (ps_panel st)" "pending d (ps_panel (set_in_cycle b st)) = pending d (ps_panel st)"
  by (simp_all add: set_in_cycle_def)

lemma set_in_cycle_money [simp]:
  "no_overflow (ps_panel (set_in_cycle b st)) = no_overflow (ps_panel st)"
  "settled rows (set_in_cycle b st) st1 = settled rows st st1"
  "settled rows st (set_in_cycle b st1) = settled rows st st1"
  by (simp_all add: no_overflow_def settled_def)

lemma run_cycle_ok:
  assumes "panel_ok (ps_panel st)" "reg_is (ps_reg st) T" "\<not> up_in_cycle (ps_panel st)" "manager_sound c tbl base"
  obtains rc st1 T1 where "panel_run_cycle c st = Some (rc, st1)" "cycle_done c (paid_rows c tbl base) st T rc st1 T1"
proof -
  obtain rc st1 T1 where b: "panel_cycle_body c (set_in_cycle True st) = Some (rc, st1)" "cycle_done c (paid_rows c tbl base) (set_in_cycle True st) T rc st1 T1"
    using cycle_body_ok[of "set_in_cycle True st" T c tbl base] assms by auto
  have "cycle_done c (paid_rows c tbl base) st T rc (set_in_cycle False st1) T1" using b(2) assms(3) unfolding cycle_done_def by simp
  then show thesis using that b(1) by (simp add: panel_run_cycle_def)
qed

definition lessened :: "('s, 'd, 'w) panel_sys \<Rightarrow> 's reg_table \<Rightarrow> ('s, 'd, 'w) panel_sys \<Rightarrow> 's reg_table \<Rightarrow> bool" where
  \<comment> \<open>users and sessions have at most gone, and no session of a user that has gone is left\<close>
  "lessened st T st1 T1 \<longleftrightarrow> panel_ok (ps_panel st1) \<and> reg_is (ps_reg st1) T1 \<and> T1 \<subseteq>\<^sub>m T \<and> up_in_cycle (ps_panel st1) = up_in_cycle (ps_panel st)
     \<and> up_breaking_sesh (ps_panel st1) = up_breaking_sesh (ps_panel st)
     \<and> (\<forall>u en1. up_heap (ps_panel st1) u = Some en1 \<longrightarrow> (\<exists>en. up_heap (ps_panel st) u = Some en \<and> pu_uid en = pu_uid en1 \<and> pu_bypass en = pu_bypass en1 \<and> pu_terminating en = pu_terminating en1))
     \<and> (\<forall>u en. up_heap (ps_panel st) u = Some en \<longrightarrow> up_heap (ps_panel st1) u = None \<longrightarrow> of_uid T1 (pu_uid en) = {})"

lemma lessenedD:
  assumes "lessened st T st1 T1"
  shows less_ok: "panel_ok (ps_panel st1)" "reg_is (ps_reg st1) T1" and less_table: "T1 \<subseteq>\<^sub>m T"
    and less_frame: "up_in_cycle (ps_panel st1) = up_in_cycle (ps_panel st)" "up_breaking_sesh (ps_panel st1) = up_breaking_sesh (ps_panel st)"
    and less_stays: "up_heap (ps_panel st1) u = Some en1 \<Longrightarrow> \<exists>en. up_heap (ps_panel st) u = Some en \<and> pu_uid en = pu_uid en1 \<and> pu_bypass en = pu_bypass en1 \<and> pu_terminating en = pu_terminating en1"
    and less_gone: "up_heap (ps_panel st) u = Some en \<Longrightarrow> up_heap (ps_panel st1) u = None \<Longrightarrow> of_uid T1 (pu_uid en) = {}"
  using assms unfolding lessened_def by blast+

lemma lessenedI:
  assumes "panel_ok (ps_panel st1)" "reg_is (ps_reg st1) T1" "T1 \<subseteq>\<^sub>m T"
    "up_in_cycle (ps_panel st1) = up_in_cycle (ps_panel st)" "up_breaking_sesh (ps_panel st1) = up_breaking_sesh (ps_panel st)"
    "\<And>u en1. up_heap (ps_panel st1) u = Some en1 \<Longrightarrow> \<exists>en. up_heap (ps_panel st) u = Some en \<and> pu_uid en = pu_uid en1 \<and> pu_bypass en = pu_bypass en1 \<and> pu_terminating en = pu_terminating en1"
    "\<And>u en. up_heap (ps_panel st) u = Some en \<Longrightarrow> up_heap (ps_panel st1) u = None \<Longrightarrow> of_uid T1 (pu_uid en) = {}"
  shows "lessened st T st1 T1"
  using assms unfolding lessened_def by blast

lemma cycle_lessened: "cycle_done c rows st T rc st1 T1 \<Longrightarrow> lessened st T st1 T1"
  unfolding cycle_done_def lessened_def by (elim conjE, intro conjI) assumption+

lemma lessened_refl: "panel_ok (ps_panel st) \<Longrightarrow> reg_is (ps_reg st) T \<Longrightarrow> lessened st T st T"
  by (simp add: lessened_def)

lemma ended_lessened:
  assumes e: "ended st2 st1 u en T2" and l: "lessened st T st2 T2" and u: "up_heap (ps_panel st2) u = Some en"
  shows "lessened st T st1 (T2 |` (- of_uid T2 (pu_uid en)))"
proof (rule lessenedI)
  let ?T1 = "T2 |` (- of_uid T2 (pu_uid en))"
  have le: "?T1 \<subseteq>\<^sub>m T2" by (auto simp: map_le_def)
  show "panel_ok (ps_panel st1)" "reg_is (ps_reg st1) ?T1" using e by (simp_all add: ended_def)
  show "?T1 \<subseteq>\<^sub>m T" using le less_table[OF l] by (rule map_le_trans)
  show "up_in_cycle (ps_panel st1) = up_in_cycle (ps_panel st)" "up_breaking_sesh (ps_panel st1) = up_breaking_sesh (ps_panel st)"
    using e less_frame[OF l] by (simp_all add: ended_def)
  show "\<exists>a. up_heap (ps_panel st) v = Some a \<and> pu_uid a = pu_uid b \<and> pu_bypass a = pu_bypass b \<and> pu_terminating a = pu_terminating b" if v: "up_heap (ps_panel st1) v = Some b" for v b
  proof -
    have "up_heap (ps_panel st2) v = Some b" using v e by (auto simp: ended_def split: if_splits)
    then show ?thesis by (rule less_stays[OF l])
  qed
  show "of_uid ?T1 (pu_uid a) = {}" if v: "up_heap (ps_panel st) v = Some a" "up_heap (ps_panel st1) v = None" for v a
  proof (cases "v = u")
    case True
    then have "pu_uid a = pu_uid en" using less_stays[OF l u] v(1) by auto
    then show ?thesis by (auto simp: of_uid_def restrict_map_def split: if_splits)
  next
    case False
    then have "up_heap (ps_panel st2) v = None" using v(2) e by (simp add: ended_def)
    then have "of_uid T2 (pu_uid a) = {}" by (rule less_gone[OF l v(1)])
    then show ?thesis using of_uid_mono[OF le, of "pu_uid a"] by blast
  qed
qed

lemma drain_after_cycle:
  \<comment> \<open>a termination that finds the queue full runs a cycle first and drains the user after it\<close>
  assumes u: "up_heap (ps_panel st) u = Some en" "\<not> has_room (ps_panel st) en" "\<not> up_in_cycle (ps_panel st)"
    and r: "run_cycle st = Some (rc, st2)" "up_heap (ps_panel st2) u = Some en"
  shows "panel_drain_user run_cycle u True st = panel_drain_user run_cycle u False st2"
proof -
  obtain p1 where s: "panel_queue_slot (ps_panel st) (pu_uid en) = (None, p1)" "\<not> pu_bypass en" using u(2) by (cases "panel_queue_slot (ps_panel st) (pu_uid en)") (auto simp: has_room_def)
  then have "p1 = ps_panel st" by (auto simp: panel_queue_slot_def split: option.splits if_splits)
  then show ?thesis using s u r by (simp add: panel_drain_user_def split: prod.splits)
qed

lemma lessened_users:
  assumes l: "lessened st T st2 T2" and p: "panel_ok p3" and f: "same_frame p3 (ps_panel st2)" and h: "same_users (up_heap p3) (up_heap (ps_panel st2))"
  shows "lessened st T (st2\<lparr>ps_panel := p3\<rparr>) T2"
proof (rule lessenedI)
  have h2: "same_users (up_heap (ps_panel st2)) (up_heap p3)" using h by (simp add: same_users_def)
  show "panel_ok (ps_panel (st2\<lparr>ps_panel := p3\<rparr>))" "reg_is (ps_reg (st2\<lparr>ps_panel := p3\<rparr>)) T2" "T2 \<subseteq>\<^sub>m T" using p less_ok[OF l] less_table[OF l] by simp_all
  show "up_in_cycle (ps_panel (st2\<lparr>ps_panel := p3\<rparr>)) = up_in_cycle (ps_panel st)" "up_breaking_sesh (ps_panel (st2\<lparr>ps_panel := p3\<rparr>)) = up_breaking_sesh (ps_panel st)"
    using f less_frame[OF l] by (simp_all add: same_frame_def)
  fix u en1 assume "up_heap (ps_panel (st2\<lparr>ps_panel := p3\<rparr>)) u = Some en1"
  then have "up_heap p3 u = Some en1" by simp
  then obtain en2 where e: "up_heap (ps_panel st2) u = Some en2" "pu_uid en2 = pu_uid en1" "pu_bypass en2 = pu_bypass en1" "pu_terminating en2 = pu_terminating en1" using same_usersD[OF h2] by metis
  show "\<exists>en. up_heap (ps_panel st) u = Some en \<and> pu_uid en = pu_uid en1 \<and> pu_bypass en = pu_bypass en1 \<and> pu_terminating en = pu_terminating en1"
    using less_stays[OF l e(1)] unfolding e(2,3,4) .
next
  fix u en assume g: "up_heap (ps_panel st) u = Some en" "up_heap (ps_panel (st2\<lparr>ps_panel := p3\<rparr>)) u = None"
  have "map_option (\<lambda>en. (pu_uid en, pu_bypass en, pu_terminating en)) (up_heap p3 u) = map_option (\<lambda>en. (pu_uid en, pu_bypass en, pu_terminating en)) (up_heap (ps_panel st2) u)"
    using h unfolding same_users_def by (rule spec)
  then have "up_heap (ps_panel st2) u = None" using g(2) by (cases "up_heap (ps_panel st2) u") simp_all
  then show "of_uid T2 (pu_uid en) = {}" by (rule less_gone[OF l g(1)])
qed

lemma lessened_flagged:
  assumes l: "lessened (st\<lparr>ps_panel := (ps_panel st)\<lparr>up_heap := (up_heap (ps_panel st))(u \<mapsto> en\<lparr>pu_terminating := t\<rparr>)\<rparr>\<rparr>) T st1 T1"
    and u: "up_heap (ps_panel st) u = Some en" and gone: "up_heap (ps_panel st1) u = None"
  shows "lessened st T st1 T1"
proof (rule lessenedI)
  show "panel_ok (ps_panel st1)" "reg_is (ps_reg st1) T1" "T1 \<subseteq>\<^sub>m T" using less_ok[OF l] less_table[OF l] by simp_all
  show "up_in_cycle (ps_panel st1) = up_in_cycle (ps_panel st)" "up_breaking_sesh (ps_panel st1) = up_breaking_sesh (ps_panel st)" using less_frame[OF l] by simp_all
  fix v en1 assume v: "up_heap (ps_panel st1) v = Some en1"
  then have "v \<noteq> u" using gone by auto
  then show "\<exists>en. up_heap (ps_panel st) v = Some en \<and> pu_uid en = pu_uid en1 \<and> pu_bypass en = pu_bypass en1 \<and> pu_terminating en = pu_terminating en1" using less_stays[OF l v] by simp
next
  fix v a assume v: "up_heap (ps_panel st) v = Some a" "up_heap (ps_panel st1) v = None"
  show "of_uid T1 (pu_uid a) = {}"
  proof (cases "v = u")
    case True
    have "of_uid T1 (pu_uid (en\<lparr>pu_terminating := t\<rparr>)) = {}" by (rule less_gone[OF l _ v(2)]) (simp add: True)
    then show ?thesis using v(1) u True by simp
  next
    case False
    show ?thesis by (rule less_gone[OF l _ v(2)]) (simp add: False v(1))
  qed
qed

lemma terminate_any:
  assumes p: "panel_ok (ps_panel st)" and r: "reg_is (ps_reg st) T" and u: "up_heap (ps_panel st) u = Some en" "\<not> pu_terminating en"
    and out: "\<not> up_in_cycle (ps_panel st)" and m: "manager_sound c tbl base"
  obtains st1 T1 where "cloak_userpanel_terminate c u st = Some st1" "lessened st T st1 T1" "up_heap (ps_panel st1) u = None"
proof (cases "has_room (ps_panel st) en")
  case True
  then obtain st1 where t: "panel_terminate (panel_run_cycle c) c u st = Some st1" "ended st st1 u en T" using terminate_ok[OF p r u] by metis
  show ?thesis by (rule that[of st1 "T |` (- of_uid T (pu_uid en))"])
      (use t ended_lessened[OF t(2) lessened_refl[OF p r] u(1)] in \<open>simp_all add: cloak_userpanel_terminate_def ended_def\<close>)
next
  case False
  let ?en = "en\<lparr>pu_terminating := True\<rparr>"
  let ?st = "st\<lparr>ps_panel := (ps_panel st)\<lparr>up_heap := (up_heap (ps_panel st))(u \<mapsto> ?en)\<rparr>\<rparr>"
  have p1: "panel_ok (ps_panel ?st)" using pending_flag(2)[OF p u(1)] by simp
  obtain rc st2 T2 where c: "panel_run_cycle c ?st = Some (rc, st2)" "cycle_done c (paid_rows c tbl base) ?st T rc st2 T2"
    using run_cycle_ok[OF p1 _ _ m, of T] r out by auto
  have u2: "up_heap (ps_panel st2) u = Some ?en" using c(2) unfolding cycle_done_def by simp
  have st2: "panel_ok (ps_panel st2)" "reg_is (ps_reg st2) T2" using c(2) by (simp_all add: cycle_done_def)
  obtain p3 en3 where d: "panel_drain_user (panel_run_cycle c) u False st2 = Some (st2\<lparr>ps_panel := p3\<rparr>)" "panel_ok p3" "same_frame p3 (ps_panel st2)"
    "up_heap p3 = (up_heap (ps_panel st2))(u \<mapsto> en3)" "en3 = ?en \<or> en3 = emptied ?en"
    using drain_ok[OF st2(1) u2, of False "panel_run_cycle c"] by metis
  let ?st3 = "st2\<lparr>ps_panel := p3\<rparr>"
  have u3: "up_heap (ps_panel ?st3) u = Some en3" "pu_uid en3 = pu_uid en" using d(4,5) by auto
  have st3: "panel_ok (ps_panel ?st3)" "reg_is (ps_reg ?st3) T2" using d(2) st2(2) by simp_all
  obtain st1 where e: "panel_end c u ?st3 = Some st1" "ended ?st3 st1 u en3 T2" using panel_end_ok[OF st3 u3(1), of c] by metis
  have drain: "panel_drain_user (panel_run_cycle c) u True ?st = Some ?st3"
    using drain_after_cycle[of ?st u ?en "panel_run_cycle c" rc st2] False out c(1) u2 d(1) by simp
  have t: "cloak_userpanel_terminate c u st = Some st1"
    unfolding cloak_userpanel_terminate_def terminate_unfold[OF u] drain using e(1) by simp
  have l2: "lessened ?st T st2 T2" using cycle_lessened[OF c(2)] .
  have l3: "lessened ?st T ?st3 T2"
    by (rule lessened_users[OF l2 d(2,3)]) (use d(4,5) u2 in \<open>auto simp: same_users_def\<close>)
  have l1: "lessened ?st T st1 (T2 |` (- of_uid T2 (pu_uid en3)))" using ended_lessened[OF e(2) l3 u3(1)] .
  have gone: "up_heap (ps_panel st1) u = None" using e(2) by (simp add: ended_def)
  have "lessened st T st1 (T2 |` (- of_uid T2 (pu_uid en3)))"
    using lessened_flagged[OF l1 u(1) gone] .
  then show ?thesis using that t gone by blast
qed

end
