(* ===== verification/PanelService.thy ===== *)
theory PanelService
  imports UserPanel
begin

text \<open>
  The panel, the registry and the database as one service: a user is made active, sessions are opened for it, carry traffic that its valve meters, break, are closed and swept; usage is uploaded; users end.
  What the sessions hold is opaque here but for one thing, the valve they were given. The invariant of the whole is that every session that still exists, dead ones included, belongs to an active user and
  points to that user's own valve, or to none when the user is not metered.
\<close>

section \<open>A new user\<close>

lemma active_ok_add:
  assumes a: "active_ok H A" and k: "k < length A" "A ! k = None" and u: "H u = None"
  shows "active_ok (H(u \<mapsto> en)) (A[k := Some u])"
  unfolding active_ok_def
proof (intro conjI allI impI)
  have inj: "i = j" if "i < length A" "j < length A" "A ! i = A ! j" "A ! i \<noteq> None" for i j using a that unfolding active_ok_def by blast
  have dom: "Some v \<in> set A \<longleftrightarrow> v \<in> dom H" for v using a unfolding active_ok_def by blast
  show "length (A[k := Some u]) = CLOAK_USERPANEL_MAX_ACTIVE_USERS" using a by (simp add: active_ok_def)
  have keep: "Some v \<in> set (A[k := Some u])" if v: "Some v \<in> set A" for v
  proof -
    obtain i where i: "i < length A" "A ! i = Some v" using v by (auto simp: in_set_conv_nth)
    then have "A[k := Some u] ! i = Some v" using k by (cases "i = k") auto
    then show ?thesis using i(1) nth_mem[of i "A[k := Some u]"] by simp
  qed
  have "Some v \<in> set (A[k := Some u]) \<longleftrightarrow> v = u \<or> Some v \<in> set A" for v
    using keep[of v] set_update_subset_insert[of A k "Some u"] set_update_memI[OF k(1), of "Some u"] by blast
  then show "Some v \<in> set (A[k := Some u]) \<longleftrightarrow> v \<in> dom (H(u \<mapsto> en))" for v using dom[of v] by auto
  have no: "A ! i \<noteq> Some u" if "i < length A" for i using dom[of u] u nth_mem[OF that] by (auto simp: domIff)
  fix m n assume "m < length (A[k := Some u])" "n < length (A[k := Some u])" "A[k := Some u] ! m = A[k := Some u] ! n" "A[k := Some u] ! m \<noteq> None"
  then show "m = n" using inj[of m n] no[of m] no[of n] k by (cases "m = k"; cases "n = k") auto
qed

definition fresh_user :: "bytes \<Rightarrow> bool \<Rightarrow> panel_user" where
  "fresh_user uid bypass = \<lparr>pu_uid = uid, pu_up_rate = 0, pu_down_rate = 0, pu_bypass = bypass, pu_valve = valve_zero, pu_terminating = False\<rparr>"

lemma fresh_user_simps [simp]:
  "pu_uid (fresh_user uid b) = uid" "pu_bypass (fresh_user uid b) = b" "\<not> pu_terminating (fresh_user uid b)" "metered_of d (pu_valve (fresh_user uid b)) = 0"
  by (simp_all add: fresh_user_def valve_zero_def Let_def) (cases d; simp)

definition joined :: "userpanel \<Rightarrow> userpanel \<Rightarrow> addr \<Rightarrow> panel_user \<Rightarrow> bool" where
  \<comment> \<open>the second panel is the first with that user added\<close>
  "joined p p1 u en \<longleftrightarrow> panel_ok p1 \<and> up_heap p u = None \<and> up_heap p1 = (up_heap p)(u \<mapsto> en) \<and> up_queue p1 = up_queue p
     \<and> up_in_cycle p1 = up_in_cycle p \<and> up_breaking_sesh p1 = up_breaking_sesh p"

lemma joined_ok:
  assumes p: "panel_ok p" and absent: "\<And>v a. up_heap p v = Some a \<Longrightarrow> pu_uid a \<noteq> uid" and u: "up_heap p u = None" and k: "k < length (up_active p)" "up_active p ! k = None"
  shows "joined p (p\<lparr>up_heap := (up_heap p)(u \<mapsto> fresh_user uid b), up_active := (up_active p)[k := Some u],
      up_index := chain_add (up_index p) (panel_uid_bucket p uid) u, up_n_active := up_n_active p + 1\<rparr>) u (fresh_user uid b)" (is "joined p ?q u ?en")
proof -
  obtain I where i: "index_ok p I" using ok_index[OF p] .
  have b: "panel_uid_bucket ?q = panel_uid_bucket p" by (simp add: panel_uid_bucket_def fun_eq_iff)
  let ?B = "panel_uid_bucket p uid"
  have out: "u \<notin> members I" using i u by (auto simp: index_ok_def)
  have "index_ok ?q (I(?B := u # I ?B))"
    unfolding index_ok_def b
  proof (intro conjI allI impI)
    show "chain_rep (up_index ?q) (I(?B := u # I ?B))" using i chain_add_rep[OF _ out] by (simp add: index_ok_def)
    show "members (I(?B := u # I ?B)) = dom (up_heap ?q)" using i by (simp add: members_add index_ok_def)
    fix v e assume "up_heap ?q v = Some e"
    then have "v = u \<and> e = ?en \<or> v \<noteq> u \<and> up_heap p v = Some e" by (auto split: if_splits)
    moreover have "v \<in> set (I (panel_uid_bucket p (pu_uid e)))" if "up_heap p v = Some e" using i that by (simp add: index_ok_def)
    ultimately show "v \<in> set ((I(?B := u # I ?B)) (panel_uid_bucket p (pu_uid e)))" by (cases "panel_uid_bucket p (pu_uid e) = ?B") auto
  qed
  moreover have "active_ok (up_heap ?q) (up_active ?q)" using active_ok_add[OF ok_active[OF p] k u] by simp
  moreover have "users_ok (up_heap ?q)" using ok_users[OF p] absent unfolding users_ok_def by (auto split: if_splits)
  moreover have "up_n_active ?q = card (dom (up_heap ?q))" using ok_n[OF p] active_bound(1)[OF ok_active[OF p]] u by (simp add: domIff)
  ultimately show ?thesis using ok_queue[OF p] u unfolding joined_def panel_ok_def by auto
qed

lemma new_user_ok:
  assumes p: "panel_ok p" and absent: "\<And>v a. up_heap p v = Some a \<Longrightarrow> pu_uid a \<noteq> uid" and cell: "\<And>u. cell = Some u \<Longrightarrow> up_heap p u = None"
  shows "(\<exists>e. panel_new_user p uid b cell = Some (Inl e)) \<or> (\<exists>u p1. panel_new_user p uid b cell = Some (Inr (u, p1)) \<and> joined p p1 u (fresh_user uid b))"
proof (cases "find (\<lambda>i. up_active p ! i = None) [0..<CLOAK_USERPANEL_MAX_ACTIVE_USERS]")
  case None
  then show ?thesis by (simp add: panel_new_user_def)
next
  case (Some k)
  have "length (up_active p) = CLOAK_USERPANEL_MAX_ACTIVE_USERS" using ok_active[OF p] by (simp add: active_ok_def)
  then have k: "k < length (up_active p)" "up_active p ! k = None" using find_SomeD[OF Some] by auto
  show ?thesis
  proof (cases cell)
    case None
    then show ?thesis using Some by (simp add: panel_new_user_def)
  next
    case c: (Some u)
    show ?thesis using Some c joined_ok[OF p absent cell[OF c] k, where b = b]
      by (simp add: panel_new_user_def panel_index_add_def Let_def fresh_user_def panel_uid_bucket_def)
  qed
qed

section \<open>The invariant of the service\<close>

definition covers :: "('s \<Rightarrow> addr option) \<Rightarrow> (addr \<Rightarrow> panel_user option) \<Rightarrow> 's reg_table \<Rightarrow> bool" where
  "covers valve H T \<longleftrightarrow> (\<forall>x en. T x = Some en \<longrightarrow>
     (\<exists>u a. H u = Some a \<and> pu_uid a = en_uid en \<and> valve (en_sesh en) = (if pu_bypass a then None else Some u)))"

definition served :: "('s \<Rightarrow> addr option) \<Rightarrow> ('s, 'd, 'w) panel_sys \<Rightarrow> bool" where
  "served valve st \<longleftrightarrow> panel_ok (ps_panel st) \<and> reg_is (ps_reg st) (rg_heap (ps_reg st)) \<and> \<not> up_in_cycle (ps_panel st)
     \<and> (\<forall>u en. up_heap (ps_panel st) u = Some en \<longrightarrow> \<not> pu_terminating en) \<and> covers valve (up_heap (ps_panel st)) (rg_heap (ps_reg st))"

lemma servedD:
  assumes "served valve st"
  shows sv_panel: "panel_ok (ps_panel st)" and sv_reg: "reg_is (ps_reg st) (rg_heap (ps_reg st))" and sv_idle: "\<not> up_in_cycle (ps_panel st)"
    and sv_up: "up_heap (ps_panel st) u = Some en \<Longrightarrow> \<not> pu_terminating en" and sv_covers: "covers valve (up_heap (ps_panel st)) (rg_heap (ps_reg st))"
  using assms unfolding served_def by blast+

lemma served_cong:
  assumes "served valve st" "panel_ok (ps_panel st1)" "reg_is (ps_reg st1) (rg_heap (ps_reg st))" "up_heap (ps_panel st1) = up_heap (ps_panel st)"
    "up_in_cycle (ps_panel st1) = up_in_cycle (ps_panel st)"
  shows "served valve st1"
proof -
  have "rg_heap (ps_reg st1) = rg_heap (ps_reg st)" using assms(3) by (simp add: reg_is_def)
  then show ?thesis using assms by (simp add: served_def)
qed

lemma covers_less: "covers valve H T \<Longrightarrow> T1 \<subseteq>\<^sub>m T \<Longrightarrow> covers valve H T1"
  unfolding covers_def map_le_def by (metis domI)

lemma covers_upd:
  assumes "covers valve H T" "H u = None \<or> (\<exists>a. H u = Some a \<and> pu_uid b = pu_uid a \<and> pu_bypass b = pu_bypass a)"
  shows "covers valve (H(u \<mapsto> b)) T"
  unfolding covers_def
proof (intro allI impI)
  fix x en assume "T x = Some en"
  then obtain v a where v: "H v = Some a" "pu_uid a = en_uid en" "valve (en_sesh en) = (if pu_bypass a then None else Some v)" using assms(1) unfolding covers_def by blast
  show "\<exists>v a. (H(u \<mapsto> b)) v = Some a \<and> pu_uid a = en_uid en \<and> valve (en_sesh en) = (if pu_bypass a then None else Some v)"
  proof (cases "v = u")
    case True
    then show ?thesis using v assms(2) by (intro exI[of _ u] exI[of _ b]) auto
  next
    case False
    then show ?thesis using v by (intro exI[of _ v] exI[of _ a]) auto
  qed
qed

lemma lessened_served:
  assumes s: "served valve st" and l: "lessened st (rg_heap (ps_reg st)) st1 T1"
  shows "served valve st1"
proof -
  have T1: "rg_heap (ps_reg st1) = T1" using less_ok(2)[OF l] by (simp add: reg_is_def)
  have "covers valve (up_heap (ps_panel st1)) T1"
    unfolding covers_def
  proof (intro allI impI)
    fix x en assume x: "T1 x = Some en"
    then have "rg_heap (ps_reg st) x = Some en" using less_table[OF l] unfolding map_le_def by (metis domI)
    then obtain u a where u: "up_heap (ps_panel st) u = Some a" "pu_uid a = en_uid en" "valve (en_sesh en) = (if pu_bypass a then None else Some u)"
      using sv_covers[OF s] unfolding covers_def by blast
    have "x \<in> of_uid T1 (pu_uid a)" using x u(2) by (simp add: of_uid_def)
    then have "up_heap (ps_panel st1) u \<noteq> None" using less_gone[OF l u(1)] by blast
    then obtain b where b: "up_heap (ps_panel st1) u = Some b" by blast
    then have "pu_uid a = pu_uid b" "pu_bypass a = pu_bypass b" using less_stays[OF l b] u(1) by auto
    then show "\<exists>u a. up_heap (ps_panel st1) u = Some a \<and> pu_uid a = en_uid en \<and> valve (en_sesh en) = (if pu_bypass a then None else Some u)" using b u(2,3) by auto
  qed
  moreover have "\<not> pu_terminating en" if e: "up_heap (ps_panel st1) u = Some en" for u en using less_stays[OF l e] sv_up[OF s] by auto
  ultimately show ?thesis using less_ok[OF l] less_frame(1)[OF l] sv_idle[OF s] T1 unfolding served_def by auto
qed

lemma user_upd_ok:
  assumes p: "panel_ok p" and u: "up_heap p u = Some a" and b: "pu_uid b = pu_uid a" "\<And>d. 0 \<le> metered_of d (pu_valve b)"
  shows "panel_ok (p\<lparr>up_heap := (up_heap p)(u \<mapsto> b)\<rparr>)"
proof (rule panel_ok_cong[OF p])
  show "users_ok (up_heap (p\<lparr>up_heap := (up_heap p)(u \<mapsto> b)\<rparr>))" using users_ok_upd[OF ok_users[OF p] u b] by simp
qed (use u b ok_queue[OF p] in \<open>auto split: if_splits\<close>)

lemma served_user_upd:
  assumes s: "served valve st" and u: "up_heap (ps_panel st) u = Some a"
    and b: "pu_uid b = pu_uid a" "pu_bypass b = pu_bypass a" "pu_terminating b = pu_terminating a" "\<And>d. 0 \<le> metered_of d (pu_valve b)"
  shows "served valve (st\<lparr>ps_panel := (ps_panel st)\<lparr>up_heap := (up_heap (ps_panel st))(u \<mapsto> b)\<rparr>, ps_db := d1\<rparr>)"
proof -
  have "covers valve ((up_heap (ps_panel st))(u \<mapsto> b)) (rg_heap (ps_reg st))" by (rule covers_upd[OF sv_covers[OF s]]) (use u b in simp)
  moreover have "\<not> pu_terminating en" if "((up_heap (ps_panel st))(u \<mapsto> b)) v = Some en" for v en
    using that sv_up[OF s] u b(3) by (auto split: if_splits)
  ultimately show ?thesis using user_upd_ok[OF sv_panel[OF s] u b(1,4)] sv_reg[OF s] sv_idle[OF s] by (simp add: served_def)
qed

lemma served_joined:
  assumes s: "served valve st" and j: "joined (ps_panel st) p1 u en" and en: "\<not> pu_terminating en"
  shows "served valve (st\<lparr>ps_panel := p1, ps_db := d1\<rparr>)"
proof -
  have "covers valve ((up_heap (ps_panel st))(u \<mapsto> en)) (rg_heap (ps_reg st))" by (rule covers_upd[OF sv_covers[OF s]]) (use j in \<open>simp add: joined_def\<close>)
  moreover have "\<not> pu_terminating a" if "((up_heap (ps_panel st))(u \<mapsto> en)) v = Some a" for v a using that sv_up[OF s] en by (auto split: if_splits)
  ultimately show ?thesis using j sv_reg[OF s] sv_idle[OF s] by (simp add: served_def joined_def)
qed

section \<open>Every operation keeps it\<close>

lemma init_heap [simp]: "rg_heap (cloak_server_registry_init k) = Map.empty"
  by (simp add: cloak_server_registry_init_def)

lemma open_served:
  assumes "cloak_userpanel_open c no_relays alloc_ok timer_ok hash_key = Inr p"
  shows "served valve \<lparr>ps_panel = p, ps_reg = cloak_server_registry_init k, ps_db = d, ps_world = w\<rparr>"
proof -
  have p: "up_heap p = Map.empty" "up_active p = replicate CLOAK_USERPANEL_MAX_ACTIVE_USERS None" "up_index p = chain_empty" "up_n_active p = 0" "up_queue p = []" "\<not> up_in_cycle p"
    using assms by (auto simp: cloak_userpanel_open_def panel_arm_timer_def Let_def split: if_splits)
  have "index_ok p (\<lambda>_. [])" using p chain_empty_rep by (simp add: index_ok_def members_def)
  moreover have "active_ok (up_heap p) (up_active p)" using p by (auto simp: active_ok_def)
  ultimately have "panel_ok p" using p by (auto simp: panel_ok_def users_ok_def queue_ok_def)
  then show ?thesis using p init_rel[of k] by (simp add: served_def covers_def reg_is_def)
qed

lemma find_served:
  assumes s: "served valve st"
  obtains r where "panel_find (ps_panel st) uid = Some r" "\<forall>u. r = Some u \<longleftrightarrow> (\<exists>en. up_heap (ps_panel st) u = Some en \<and> pu_uid en = uid)"
proof -
  obtain r where r: "panel_find (ps_panel st) uid = Some r" "\<forall>u. r = Some u \<longleftrightarrow> (\<exists>en. up_heap (ps_panel st) u = Some en \<and> \<not> pu_terminating en \<and> pu_uid en = uid)"
    using panel_find_ok[OF sv_panel[OF s]] .
  show thesis by (rule that[OF r(1)]) (use r(2) sv_up[OF s] in blast)
qed

definition has_user :: "userpanel \<Rightarrow> bytes \<Rightarrow> addr \<Rightarrow> bool \<Rightarrow> bool" where
  "has_user p uid u bypass \<longleftrightarrow> (\<exists>a. up_heap p u = Some a \<and> pu_uid a = uid \<and> pu_bypass a = bypass)"

lemma get_bypass_user_served:
  assumes s: "served valve st" and cell: "\<And>u. cell = Some u \<Longrightarrow> up_heap (ps_panel st) u = None"
  obtains res p1 where "cloak_userpanel_get_bypass_user (ps_panel st) uid cell = Some (res, p1)" "served valve (st\<lparr>ps_panel := p1\<rparr>)"
    "\<And>u. res = Inr u \<Longrightarrow> \<exists>b. has_user p1 uid u b"
proof -
  obtain r where r: "panel_find (ps_panel st) uid = Some r" "\<forall>u. r = Some u \<longleftrightarrow> (\<exists>en. up_heap (ps_panel st) u = Some en \<and> pu_uid en = uid)" using find_served[OF s, of uid] .
  show thesis
  proof (cases r)
    case (Some u)
    then have "\<exists>b. has_user (ps_panel st) uid u b" using r(2) by (auto simp: has_user_def)
    then show ?thesis using that[of "Inr u" "ps_panel st"] r(1) Some s by (simp add: cloak_userpanel_get_bypass_user_def)
  next
    case None
    have "(\<exists>e. panel_new_user (ps_panel st) uid True cell = Some (Inl e)) \<or> (\<exists>u p1. panel_new_user (ps_panel st) uid True cell = Some (Inr (u, p1)) \<and> joined (ps_panel st) p1 u (fresh_user uid True))"
      by (rule new_user_ok[OF sv_panel[OF s] _ cell]) (use None r(2) in auto)
    then consider (err) e where "panel_new_user (ps_panel st) uid True cell = Some (Inl e)"
      | (new) u p1 where "panel_new_user (ps_panel st) uid True cell = Some (Inr (u, p1))" "joined (ps_panel st) p1 u (fresh_user uid True)" by blast
    then show ?thesis
    proof cases
      case err
      then show ?thesis using that[of "Inl e" "ps_panel st"] r(1) None s by (simp add: cloak_userpanel_get_bypass_user_def)
    next
      case new
      have "served valve (st\<lparr>ps_panel := p1\<rparr>)" using served_joined[OF s new(2), of "ps_db st"] by simp
      then show ?thesis using that[of "Inr u" p1] r(1) None new by (simp add: cloak_userpanel_get_bypass_user_def has_user_def joined_def)
    qed
  qed
qed

lemma set_rates_meter: "cloak_valve_set_rates (Some v) up down now = Some w \<Longrightarrow> metered_of d w = metered_of d v"
  by (cases d) (auto simp: cloak_valve_set_rates_def)

lemma get_user_served:
  assumes s: "served valve st" and cell: "\<And>u. cell = Some u \<Longrightarrow> up_heap (ps_panel st) u = None"
  obtains res p1 d1 where "cloak_userpanel_get_user c (ps_panel st, ps_db st) uid cell now_ms = Some (res, p1, d1)" "served valve (st\<lparr>ps_panel := p1, ps_db := d1\<rparr>)"
    "\<And>u. res = Inr u \<Longrightarrow> \<exists>b. has_user p1 uid u b"
proof -
  have sd: "served valve (st\<lparr>ps_panel := ps_panel st, ps_db := d1\<rparr>)" for d1 by (rule served_cong[OF s]) (use sv_panel[OF s] sv_reg[OF s] in simp_all)
  obtain r where r: "panel_find (ps_panel st) uid = Some r" "\<forall>u. r = Some u \<longleftrightarrow> (\<exists>en. up_heap (ps_panel st) u = Some en \<and> pu_uid en = uid)" using find_served[OF s, of uid] .
  obtain auth d1 where a: "cloak_usermanager_authenticate (pc_manager c) (ps_db st) uid (pc_clock c 0) = (auth, d1)" by fastforce
  show thesis
  proof (cases r)
    case (Some u)
    then have "\<exists>b. has_user (ps_panel st) uid u b" using r(2) by (auto simp: has_user_def)
    then show ?thesis using that[of "Inr u" "ps_panel st" "ps_db st"] r(1) Some s by (simp add: cloak_userpanel_get_user_def)
  next
    case None
    show ?thesis
    proof (cases "up_n_active (ps_panel st) \<ge> CLOAK_USERPANEL_MAX_ACTIVE_USERS")
      case True
      then show ?thesis using that[of "Inl CLOAK_USERPANEL_ERR_FULL" "ps_panel st" "ps_db st"] r(1) None s by (simp add: cloak_userpanel_get_user_def)
    next
      case room: False
      show ?thesis
      proof (cases auth)
        case (Inl e)
        then show ?thesis using that[of "Inl (Manager_err e)" "ps_panel st" d1] r(1) None sd room a by (simp add: cloak_userpanel_get_user_def)
      next
        case (Inr rates)
        obtain up down where rt: "rates = (up, down)" by fastforce
        have "(\<exists>e. panel_new_user (ps_panel st) uid False cell = Some (Inl e)) \<or> (\<exists>u p1. panel_new_user (ps_panel st) uid False cell = Some (Inr (u, p1)) \<and> joined (ps_panel st) p1 u (fresh_user uid False))"
          by (rule new_user_ok[OF sv_panel[OF s] _ cell]) (use None r(2) in auto)
        then consider (err) e where "panel_new_user (ps_panel st) uid False cell = Some (Inl e)"
          | (new) u p1 where "panel_new_user (ps_panel st) uid False cell = Some (Inr (u, p1))" "joined (ps_panel st) p1 u (fresh_user uid False)" by blast
        then show ?thesis
        proof cases
          case err
          then show ?thesis using that[of "Inl e" "ps_panel st" d1] r(1) None sd room a Inr rt by (simp add: cloak_userpanel_get_user_def)
        next
          case new
          let ?en = "fresh_user uid False"
          obtain v where v: "cloak_valve_set_rates (Some (pu_valve ?en)) up down now_ms = Some v" by (simp add: cloak_valve_set_rates_def)
          let ?en1 = "?en\<lparr>pu_up_rate := up, pu_down_rate := down, pu_valve := v\<rparr>"
          let ?st = "st\<lparr>ps_panel := p1, ps_db := ps_db st\<rparr>"
          have s1: "served valve ?st" by (rule served_joined[OF s new(2)]) simp
          have u: "up_heap p1 u = Some ?en" using new(2) by (simp add: joined_def)
          have "served valve (?st\<lparr>ps_panel := (ps_panel ?st)\<lparr>up_heap := (up_heap (ps_panel ?st))(u \<mapsto> ?en1)\<rparr>, ps_db := d1\<rparr>)"
            by (rule served_user_upd[OF s1, of u ?en]) (use u set_rates_meter[OF v] in simp_all)
          moreover have "\<exists>b. has_user (p1\<lparr>up_heap := (up_heap p1)(u \<mapsto> ?en1)\<rparr>) uid u b" by (intro exI[of _ False]) (simp add: has_user_def)
          ultimately show ?thesis using that[of "Inr u" "p1\<lparr>up_heap := (up_heap p1)(u \<mapsto> ?en1)\<rparr>" d1] r(1) None room a Inr rt new u v
            by (simp add: cloak_userpanel_get_user_def Let_def)
        qed
      qed
    qed
  qed
qed

lemma table_served:
  \<comment> \<open>a registry whose entries are some of those of before\<close>
  assumes s: "served valve st" and r: "reg_is r1 T1" and le: "T1 \<subseteq>\<^sub>m rg_heap (ps_reg st)"
  shows "served valve (st\<lparr>ps_reg := r1\<rparr>)"
  using covers_less[OF sv_covers[OF s] le] sv_panel[OF s] sv_idle[OF s] sv_up[OF s] r by (auto simp: served_def reg_is_def)

lemma restrict_le: "T |` A \<subseteq>\<^sub>m T"
  by (auto simp: map_le_def)

lemma find_reg_served:
  assumes s: "served valve st"
  obtains x r1 where "cloak_server_registry_find (ps_reg st) uid sid = Some (x, r1)" "served valve (st\<lparr>ps_reg := r1\<rparr>)" "rg_heap r1 = rg_heap (ps_reg st)"
    "\<forall>e. x = Some e \<longleftrightarrow> live_at (rg_heap (ps_reg st)) uid sid e"
proof -
  obtain x r1 where f: "cloak_server_registry_find (ps_reg st) uid sid = Some (x, r1)" "reg_is r1 (rg_heap (ps_reg st))" "\<forall>e. x = Some e \<longleftrightarrow> live_at (rg_heap (ps_reg st)) uid sid e"
    using reg_store.find_total[OF sv_reg[OF s], of uid sid] .
  show thesis by (rule that[OF f(1) table_served[OF s f(2) map_le_refl] _ f(3)]) (use f(2) in \<open>simp add: reg_is_def\<close>)
qed

lemma count_reg_served:
  assumes s: "served valve st"
  obtains n r1 where "cloak_server_registry_count_for_uid (ps_reg st) uid = Some (n, r1)" "served valve (st\<lparr>ps_reg := r1\<rparr>)" "rg_heap r1 = rg_heap (ps_reg st)"
proof -
  obtain r1 where c: "cloak_server_registry_count_for_uid (ps_reg st) uid = Some (card {x. \<exists>sid. live_at (rg_heap (ps_reg st)) uid sid x}, r1)" "reg_is r1 (rg_heap (ps_reg st))"
    using reg_store.count_total[OF sv_reg[OF s], of uid] .
  show thesis by (rule that[OF c(1) table_served[OF s c(2) map_le_refl]]) (use c(2) in \<open>simp add: reg_is_def\<close>)
qed

lemma terminate_served:
  assumes s: "served valve st" and u: "up_heap (ps_panel st) u = Some en" and m: "manager_sound c tbl base"
  obtains st1 where "cloak_userpanel_terminate c u st = Some st1" "served valve st1"
proof -
  obtain st1 T1 where t: "cloak_userpanel_terminate c u st = Some st1" "lessened st (rg_heap (ps_reg st)) st1 T1"
    using terminate_any[OF sv_panel[OF s] sv_reg[OF s] u sv_up[OF s u] sv_idle[OF s] m] by metis
  show thesis by (rule that[OF t(1) lessened_served[OF s t(2)]])
qed

lemma notify_served:
  assumes s: "served valve st" and m: "manager_sound c tbl base"
  obtains st1 where "cloak_userpanel_notify_session_closed c uid st = Some st1" "served valve st1"
proof -
  obtain r where r: "panel_find (ps_panel st) uid = Some r" "\<forall>u. r = Some u \<longleftrightarrow> (\<exists>en. up_heap (ps_panel st) u = Some en \<and> pu_uid en = uid)" using find_served[OF s, of uid] .
  show thesis
  proof (cases r)
    case None
    then show ?thesis using that[of st] r(1) s by (simp add: cloak_userpanel_notify_session_closed_def)
  next
    case (Some u)
    obtain n r1 where n: "cloak_server_registry_count_for_uid (ps_reg st) uid = Some (n, r1)" "served valve (st\<lparr>ps_reg := r1\<rparr>)" using count_reg_served[OF s, of uid] .
    let ?st = "st\<lparr>ps_reg := r1\<rparr>"
    obtain en where "up_heap (ps_panel ?st) u = Some en" using Some r(2) by auto
    then obtain st1 where "cloak_userpanel_terminate c u ?st = Some st1" "served valve st1" using terminate_served[OF n(2) _ m] by blast
    then show ?thesis using that[of st1] that[of ?st] r(1) Some n
      by (cases "0 < n") (simp_all add: cloak_userpanel_notify_session_closed_def)
  qed
qed

lemma upload_now_served:
  assumes s: "served valve st" and m: "manager_sound c tbl base"
  obtains rc st1 where "cloak_userpanel_upload_now c st = Some (rc, st1)" "served valve st1"
proof -
  obtain rc st1 T1 where r: "panel_run_cycle c st = Some (rc, st1)" "cycle_done c (paid_rows c tbl base) st (rg_heap (ps_reg st)) rc st1 T1"
    using run_cycle_ok[OF sv_panel[OF s] sv_reg[OF s] sv_idle[OF s] m] .
  show thesis by (rule that[of rc st1]) (use r(1) sv_idle[OF s] lessened_served[OF s cycle_lessened[OF r(2)]] in \<open>simp_all add: cloak_userpanel_upload_now_def\<close>)
qed

lemma flags_served:
  assumes s: "served valve st"
  shows "served valve (st\<lparr>ps_panel := (ps_panel st)\<lparr>up_upload_timer := b\<rparr>\<rparr>)"
    and "served valve (st\<lparr>ps_panel := (ps_panel st)\<lparr>up_breaking_sesh := e, up_breaking_sesh_destroyed := b\<rparr>\<rparr>)"
    and "served valve (st\<lparr>ps_world := w\<rparr>)"
  by (rule served_cong[OF s]; use sv_panel[OF s] sv_reg[OF s] in simp)+

lemma upload_timer_served:
  assumes s: "served valve st" and m: "manager_sound c tbl base"
  obtains st1 where "panel_upload_timer_cb c timer_ok st = Some st1" "served valve st1"
proof -
  obtain rc st1 where "cloak_userpanel_upload_now c (st\<lparr>ps_panel := (ps_panel st)\<lparr>up_upload_timer := False\<rparr>\<rparr>) = Some (rc, st1)" "served valve st1"
    using upload_now_served[OF flags_served(1)[OF s] m] .
  then show thesis using that[of "st1\<lparr>ps_panel := panel_arm_timer timer_ok (ps_panel st1)\<rparr>"] flags_served(1)[of valve st1]
    by (simp add: panel_upload_timer_cb_def panel_arm_timer_def)
qed

lemma registry_broken_served:
  fixes st :: "('s, 'd, 'w) panel_sys"
  assumes s: "served valve st" and m: "manager_sound c tbl base"
  obtains st1 where "cloak_userpanel_registry_broken c e uid sid st = Some st1" "served valve st1"
proof -
  have chain: "\<exists>st1. (case pc_chain c of None \<Rightarrow> Some st3 | Some chain \<Rightarrow> Some (st3\<lparr>ps_world := chain (if b then None else Some e) uid sid (ps_world st3)\<rparr>)) = Some st1 \<and> served valve st1"
    if "served valve st3" for st3 :: "('s, 'd, 'w) panel_sys" and b using flags_served(3)[OF that] that by (cases "pc_chain c") auto
  show thesis
  proof (cases uid)
    case None
    then show ?thesis using that chain[OF s, of False] by (auto simp: cloak_userpanel_registry_broken_def)
  next
    case (Some i)
    obtain st2 where n: "cloak_userpanel_notify_session_closed c i (st\<lparr>ps_panel := (ps_panel st)\<lparr>up_breaking_sesh := Some e, up_breaking_sesh_destroyed := False\<rparr>\<rparr>) = Some st2" "served valve st2"
      using notify_served[OF flags_served(2)[OF s] m] .
    have s3: "served valve (st2\<lparr>ps_panel := (ps_panel st2)\<lparr>up_breaking_sesh := up_breaking_sesh (ps_panel st),
        up_breaking_sesh_destroyed := up_breaking_sesh_destroyed (ps_panel st)\<rparr>\<rparr>)" by (rule flags_served(2)[OF n(2)])
    show ?thesis using that chain[OF s3, of "up_breaking_sesh_destroyed (ps_panel st2)"] n(1) Some
      by (auto simp: cloak_userpanel_registry_broken_def Let_def)
  qed
qed

section \<open>Sessions that open, carry traffic, break, close and are swept\<close>

definition panel_broken_cb :: "(bytes \<Rightarrow> u32 \<Rightarrow> addr \<Rightarrow> 'w \<Rightarrow> 'w) \<Rightarrow> ('d, 'w) userpanel_config \<Rightarrow> ('s, userpanel \<times> 'd \<times> 'w) registry_cb" where
  \<comment> \<open>the registry's callback as the server wires it: the proxy and the admin API first, then the panel\<close>
  "panel_broken_cb front c uid session_id e rw =
     (case rw of (r, p, d, w) \<Rightarrow>
        map_option (\<lambda>st. (ps_reg st, ps_panel st, ps_db st, ps_world st))
          (cloak_userpanel_registry_broken c e (Some uid) session_id \<lparr>ps_panel = p, ps_reg = r, ps_db = d, ps_world = front uid session_id e w\<rparr>))"

definition session_broken ::
  "(bytes \<Rightarrow> u32 \<Rightarrow> addr \<Rightarrow> 'w \<Rightarrow> 'w) \<Rightarrow> ('d, 'w) userpanel_config \<Rightarrow> bool \<Rightarrow> addr \<Rightarrow> ('s, 'd, 'w) panel_sys \<Rightarrow> ('s, 'd, 'w) panel_sys option" where
  "session_broken front c timer_ok e st =
     map_option (\<lambda>(r, p, d, w). \<lparr>ps_panel = p, ps_reg = r, ps_db = d, ps_world = w\<rparr>)
       (registry_on_session_broken (panel_broken_cb front c) timer_ok e (ps_reg st, ps_panel st, ps_db st, ps_world st))"

definition session_traffic :: "('s \<Rightarrow> addr option) \<Rightarrow> direction \<Rightarrow> int \<Rightarrow> addr \<Rightarrow> ('s, 'd, 'w) panel_sys \<Rightarrow> ('s, 'd, 'w) panel_sys option" where
  \<comment> \<open>that many bytes of a session pass its valve, which is reached through the session's pointer\<close>
  "session_traffic valve d n e st =
     Option.bind (rg_heap (ps_reg st) e) (\<lambda>en.
       case valve (en_sesh en) of
         None \<Rightarrow> Some st
       | Some u \<Rightarrow>
           Option.bind (up_heap (ps_panel st) u) (\<lambda>a.
           Option.bind (case d of Up \<Rightarrow> cloak_valve_add_rx (Some (pu_valve a)) n | Down \<Rightarrow> cloak_valve_add_tx (Some (pu_valve a)) n) (\<lambda>v.
             Some (st\<lparr>ps_panel := (ps_panel st)\<lparr>up_heap := (up_heap (ps_panel st))(u \<mapsto> a\<lparr>pu_valve := v\<rparr>)\<rparr>\<rparr>))))"

lemma sweep_served:
  assumes s: "served valve st"
  obtains r1 where "registry_sweep_timer_cb (ps_reg st) = Some r1" "served valve (st\<lparr>ps_reg := r1\<rparr>)"
proof -
  obtain r1 where r: "registry_sweep_timer_cb (ps_reg st) = Some r1" "reg_is r1 (rg_heap (ps_reg st) |` (- dead_of (rg_heap (ps_reg st))))"
    using reg_store.sweep_law[OF sv_reg[OF s]] by blast
  show thesis by (rule that[OF r(1) table_served[OF s r(2) restrict_le]])
qed

lemma arm_sweep_served:
  assumes s: "served valve st"
  obtains r1 where "registry_arm_sweep timer_ok (ps_reg st) = Some r1" "served valve (st\<lparr>ps_reg := r1\<rparr>)"
proof -
  let ?T = "rg_heap (ps_reg st)" and ?r = "(ps_reg st)\<lparr>rg_sweep_timer := True\<rparr>"
  obtain r1 where r1: "registry_sweep_dead_entries (ps_reg st) = Some r1" "reg_is r1 (?T |` (- dead_of ?T))"
    using sweep_rel[OF reg_isD[OF sv_reg[OF s]]] unfolding reg_is_def by blast
  have s1: "served valve (st\<lparr>ps_reg := r1\<rparr>)" by (rule table_served[OF s r1(2) restrict_le])
  have "reg_is ?r ?T" using sv_reg[OF s] by (simp add: reg_is_def)
  then have s2: "served valve (st\<lparr>ps_reg := ?r\<rparr>)" by (rule table_served[OF s]) (rule map_le_refl)
  have s3: "served valve (st\<lparr>ps_reg := ps_reg st\<rparr>)" by (rule table_served[OF s sv_reg[OF s] map_le_refl])
  consider "registry_arm_sweep timer_ok (ps_reg st) = Some (ps_reg st)" | "registry_arm_sweep timer_ok (ps_reg st) = Some ?r" | "registry_arm_sweep timer_ok (ps_reg st) = Some r1"
    using r1(1) unfolding registry_arm_sweep_def by presburger
  then show thesis using that[OF _ s1] that[OF _ s2] that[OF _ s3] by cases
qed

lemma session_broken_served:
  assumes s: "served valve st" and m: "manager_sound c tbl base" and e: "rg_heap (ps_reg st) e = Some en" "\<not> en_dead en"
  obtains st1 where "session_broken front c timer_ok e st = Some st1" "served valve st1"
proof -
  let ?T = "rg_heap (ps_reg st)" and ?en = "en\<lparr>en_dead := True\<rparr>"
  obtain r1 where k: "registry_mark_dead (ps_reg st) e = Some r1" "reg_rel r1 (?T(e \<mapsto> ?en))" "rg_heap r1 = ?T(e \<mapsto> ?en)" using mark_dead_rel[OF reg_isD[OF sv_reg[OF s]] e] .
  let ?st1 = "\<lparr>ps_panel = ps_panel st, ps_reg = r1, ps_db = ps_db st, ps_world = front (en_uid en) (en_session_id en) e (ps_world st)\<rparr>"
  have "covers valve (up_heap (ps_panel st)) (?T(e \<mapsto> ?en))" using sv_covers[OF s] e(1) unfolding covers_def by auto
  then have s1: "served valve ?st1" using s k(2,3) by (simp add: served_def reg_is_def)
  obtain st2 where b: "cloak_userpanel_registry_broken c e (Some (en_uid en)) (en_session_id en) ?st1 = Some st2" "served valve st2" using registry_broken_served[OF s1 m] .
  obtain r3 where r3: "registry_arm_sweep timer_ok (ps_reg st2) = Some r3" "served valve (st2\<lparr>ps_reg := r3\<rparr>)" using arm_sweep_served[OF b(2)] .
  show thesis by (rule that[of "st2\<lparr>ps_reg := r3\<rparr>"])
      (use k(1,3) b(1) r3 in \<open>auto simp: session_broken_def registry_on_session_broken_def panel_broken_cb_def\<close>)
qed

lemma close_served:
  assumes s: "served valve st"
  obtains r1 where "cloak_server_registry_close (ps_reg st) uid sid = Some r1" "served valve (st\<lparr>ps_reg := r1\<rparr>)"
proof -
  let ?T = "rg_heap (ps_reg st)"
  obtain r1 where r: "cloak_server_registry_close (ps_reg st) uid sid = Some r1" "reg_is r1 (?T |` {x. \<not> live_at ?T uid sid x})"
    using reg_store.close_law[OF sv_reg[OF s]] by blast
  show thesis by (rule that[OF r(1) table_served[OF s r(2) restrict_le]])
qed

lemma add_meter:
  "0 \<le> n \<Longrightarrow> cloak_valve_add_rx (Some v) n = Some w \<Longrightarrow> 0 \<le> metered_of d v \<Longrightarrow> 0 \<le> metered_of d w"
  "0 \<le> n \<Longrightarrow> cloak_valve_add_tx (Some v) n = Some w \<Longrightarrow> 0 \<le> metered_of d v \<Longrightarrow> 0 \<le> metered_of d w"
  by (cases d; auto simp: cloak_valve_add_rx_def cloak_valve_add_tx_def Let_def split: if_splits)+

lemma traffic_served:
  assumes s: "served valve st" and e: "rg_heap (ps_reg st) e = Some en" and n: "0 \<le> n"
  obtains st1 where "session_traffic valve d n e st = Some st1" "served valve st1"
proof -
  obtain u a where u: "up_heap (ps_panel st) u = Some a" "pu_uid a = en_uid en" "valve (en_sesh en) = (if pu_bypass a then None else Some u)"
    using sv_covers[OF s] e unfolding covers_def by blast
  show thesis
  proof (cases "pu_bypass a")
    case True
    then show ?thesis using that[of st] u e s by (simp add: session_traffic_def)
  next
    case False
    obtain v where v: "(case d of Up \<Rightarrow> cloak_valve_add_rx (Some (pu_valve a)) n | Down \<Rightarrow> cloak_valve_add_tx (Some (pu_valve a)) n) = Some v"
      by (cases d) (simp_all add: cloak_valve_add_rx_def cloak_valve_add_tx_def)
    have "0 \<le> metered_of k (pu_valve a)" for k using ok_users[OF sv_panel[OF s]] u(1) unfolding users_ok_def by blast
    then have pos: "0 \<le> metered_of k v" for k using v add_meter[OF n, of "pu_valve a" v k] by (cases d) simp_all
    have "served valve (st\<lparr>ps_panel := (ps_panel st)\<lparr>up_heap := (up_heap (ps_panel st))(u \<mapsto> a\<lparr>pu_valve := v\<rparr>)\<rparr>, ps_db := ps_db st\<rparr>)"
      by (rule served_user_upd[OF s u(1)]) (use pos in simp_all)
    then show ?thesis using that u e v False by (simp add: session_traffic_def)
  qed
qed

section \<open>What an upload does\<close>


definition sample_config :: "(sample_db, unit) userpanel_config" where
  "sample_config = \<lparr>pc_manager = Some sample_sqlite, pc_clock = (\<lambda>_. 7), pc_now = 7, pc_on_session_closing = None, pc_chain = None\<rparr>"

definition sample_panel :: userpanel where
  \<comment> \<open>a panel as it is opened, with usage of one user waiting\<close>
  "sample_panel = \<lparr>up_heap = Map.empty, up_active = replicate CLOAK_USERPANEL_MAX_ACTIVE_USERS None, up_index = chain_empty, up_hash_key = sample_key,
     up_n_active = 0, up_queue = [\<lparr>qe_uid = [1], qe_up_usage = 30, qe_down_usage = 4\<rparr>], up_upload_timer = True, up_in_cycle = False, up_breaking_sesh = None, up_breaking_sesh_destroyed = False\<rparr>"

definition sample_sys :: "(addr option, sample_db, unit) panel_sys" where
  "sample_sys = \<lparr>ps_panel = sample_panel, ps_reg = cloak_server_registry_init sample_key, ps_db = (sample_rows, None), ps_world = ()\<rparr>"

lemma sample_served: "served id sample_sys"
proof -
  let ?p = "sample_panel\<lparr>up_queue := []\<rparr>"
  have "cloak_userpanel_open sample_config True True True sample_key = Inr ?p"
    by (simp add: cloak_userpanel_open_def sample_config_def sample_panel_def panel_arm_timer_def Let_def)
  then have s: "served id \<lparr>ps_panel = ?p, ps_reg = cloak_server_registry_init sample_key, ps_db = (sample_rows, None :: users option), ps_world = ()\<rparr>" by (rule open_served)
  have q: "queue_ok (up_queue sample_panel)"
    by (auto simp: queue_ok_def sample_panel_def CLOAK_USERPANEL_MAX_QUEUED_USERS_def CLOAK_USERPANEL_MAX_ACTIVE_USERS_def CLOAK_REGISTRY_MAX_SESSIONS_def) (case_tac d; simp)
  have "panel_ok sample_panel" by (rule panel_ok_cong[OF sv_panel[OF s]]) (use q in \<open>simp_all add: sample_panel_def users_ok_def\<close>)
  then show ?thesis using s by (auto simp: served_def sample_sys_def sample_panel_def)
qed

lemma sample_manager: "manager_sound sample_config fst sample_base"
  using sample_sound by (simp add: manager_sound_def sample_config_def)


end
