(* ===== verification/Dispatcher.thy ===== *)
theory Dispatcher
  imports PanelService ServerCore WsFrame Conn
begin

text \<open>
  \<open>libcloak-server/src/dispatcher.c\<close>: from an accepted descriptor to a session or to the site behind it. The first packet is verified in \<open>ServerCore\<close>; here its client is authorised, its session found or made, the reply
  composed and written, the descriptor handed to the session, and everything else redirected. The dispatcher works on the panel, the registry and the database of \<open>PanelService\<close>, whose sessions are seen through the fields
  of \<open>cloak_session_t\<close> that the dispatcher reads. What the reactor, the sockets, \<open>malloc\<close> and the random source give are arguments; the owner's hooks act on the owner's world. The connections are kept under their
  addresses, in the order in which the list links them.
\<close>

section \<open>State\<close>

record srv_sesh =
  sh_method :: aead_method
  sh_session_key :: bytes
  sh_unordered :: bool
  sh_valve :: "addr option"
  sh_conns_len :: nat

type_synonym ('d, 'w) srv_sys = "(srv_sesh, 'd, 'w) panel_sys"

record ('d, 'w) dispatcher_config =
  dc_panel :: "('d, 'w) userpanel_config option"
  dc_prepare_session :: "(server_clientinfo \<Rightarrow> 'w \<Rightarrow> bool \<times> 'w) option"
  dc_session_aborted :: "(bytes \<Rightarrow> u32 \<Rightarrow> 'w \<Rightarrow> 'w) option"
  dc_attached :: "(addr \<Rightarrow> server_clientinfo \<Rightarrow> bool \<Rightarrow> 'w \<Rightarrow> 'w) option"
  dc_handshake_timeout_ms :: nat
  dc_redirect_dial_timeout_ms :: nat
  dc_relay_buf_cap :: nat
  dc_max_pending_conns :: nat

definition CLOAK_DISPATCHER_DEFAULT_HANDSHAKE_TIMEOUT_MS :: nat where "CLOAK_DISPATCHER_DEFAULT_HANDSHAKE_TIMEOUT_MS = 15000"
definition CLOAK_DISPATCHER_DEFAULT_REDIRECT_DIAL_TIMEOUT_MS :: nat where "CLOAK_DISPATCHER_DEFAULT_REDIRECT_DIAL_TIMEOUT_MS = 10000"
definition CLOAK_DISPATCHER_DEFAULT_RELAY_BUF_CAP :: nat where "CLOAK_DISPATCHER_DEFAULT_RELAY_BUF_CAP = 16384"
definition CLOAK_DISPATCHER_DEFAULT_MAX_PENDING_CONNS :: nat where "CLOAK_DISPATCHER_DEFAULT_MAX_PENDING_CONNS = 512"

record admit_env =
  ae_user_cell :: "addr option"  \<comment> \<open>the cells that \<open>malloc\<close> gives for a user and for an entry of the registry\<close>
  ae_sesh_cell :: "addr option"
  ae_session_init :: bool
  ae_now_ms :: nat
  ae_r :: "nat \<Rightarrow> entropy"  \<comment> \<open>the draws, by their order\<close>

datatype admission =
    Refused (refused_mismatch: bool)
  | Admitted (adm_created: bool) (adm_session_key: bytes)

section \<open>Authorisation\<close>

definition conn_fire_session_aborted :: "('d, 'w) dispatcher_config \<Rightarrow> bytes \<Rightarrow> u32 \<Rightarrow> ('d, 'w) srv_sys \<Rightarrow> ('d, 'w) srv_sys" where
  "conn_fire_session_aborted c uid session_id st =
     (case (dc_session_aborted c, dc_prepare_session c) of
        (Some aborted, Some _) \<Rightarrow> st\<lparr>ps_world := aborted uid session_id (ps_world st)\<rparr>
      | _ \<Rightarrow> st)"

definition dispatcher_release_user :: "('d, 'w) dispatcher_config \<Rightarrow> bytes \<Rightarrow> ('d, 'w) srv_sys \<Rightarrow> ('d, 'w) srv_sys option" where
  "dispatcher_release_user c uid st =
     (case dc_panel c of None \<Rightarrow> Some st | Some pc \<Rightarrow> cloak_userpanel_notify_session_closed pc uid st)"

definition dispatcher_user ::
  "('d, 'w) dispatcher_config \<Rightarrow> 'a server \<Rightarrow> admit_env \<Rightarrow> bytes \<Rightarrow> ('d, 'w) srv_sys \<Rightarrow> (addr option option \<times> ('d, 'w) srv_sys) option" where
  \<comment> \<open>step 6: \<^const>\<open>None\<close> is a refusal, and the user is \<open>NULL\<close> on a server without a panel\<close>
  "dispatcher_user c srv env uid st =
     (let is_bypass = cloak_server_is_bypass srv uid in
      case dc_panel c of
        None \<Rightarrow> Some (if is_bypass then Some None else None, st)
      | Some pc \<Rightarrow>
          if is_bypass then
            Option.bind (cloak_userpanel_get_bypass_user (ps_panel st) uid (ae_user_cell env)) (\<lambda>(r, p1).
              let st1 = st\<lparr>ps_panel := p1\<rparr> in
              Some (case r of Inl _ \<Rightarrow> (None, st1) | Inr u \<Rightarrow> (Some (Some u), st1)))
          else
            Option.bind (cloak_userpanel_get_user pc (ps_panel st, ps_db st) uid (ae_user_cell env) (ae_now_ms env)) (\<lambda>(r, p1, d1).
              let st1 = st\<lparr>ps_panel := p1, ps_db := d1\<rparr> in
              Some (case r of Inl _ \<Rightarrow> (None, st1) | Inr u \<Rightarrow> (Some (Some u), st1))))"

definition dispatcher_refuse :: "('d, 'w) dispatcher_config \<Rightarrow> bytes \<Rightarrow> bool \<Rightarrow> ('d, 'w) srv_sys \<Rightarrow> (admission \<times> ('d, 'w) srv_sys) option" where
  "dispatcher_refuse c uid mismatch st = map_option (Pair (Refused mismatch)) (dispatcher_release_user c uid st)"

definition sessions_cap_ok ::
  "('d, 'w) dispatcher_config \<Rightarrow> bytes \<Rightarrow> addr option \<Rightarrow> ('d, 'w) srv_sys \<Rightarrow> (bool \<times> ('d, 'w) srv_sys) option" where
  "sessions_cap_ok c uid user st =
     (case (user, dc_panel c) of
        (Some u, Some pc) \<Rightarrow>
          Option.bind (up_heap (ps_panel st) u) (\<lambda>a.
            if pu_bypass a then Some (True, st)
            else
              Option.bind (cloak_server_registry_count_for_uid (ps_reg st) uid) (\<lambda>(existing, r1).
                case cloak_usermanager_authorise_new_session (pc_manager pc) (ps_db st) uid (int existing) (pc_clock pc 0) of
                  (rc, d1) \<Rightarrow> Some (rc = CLOAK_USER_OK, st\<lparr>ps_reg := r1, ps_db := d1\<rparr>)))
      | _ \<Rightarrow> Some (True, st))"

definition session_valve :: "addr option \<Rightarrow> ('d, 'w) srv_sys \<Rightarrow> addr option option" where
  \<comment> \<open>\<open>cloak_userpanel_user_valve(user)\<close>: a pointer into the user\<close>
  "session_valve user st =
     (case user of
        None \<Rightarrow> Some None
      | Some u \<Rightarrow> Option.bind (up_heap (ps_panel st) u) (\<lambda>a. Some (if cloak_userpanel_user_valve a = None then None else Some u)))"

definition dispatcher_new_session ::
  "('d, 'w) dispatcher_config \<Rightarrow> admit_env \<Rightarrow> server_clientinfo \<Rightarrow> addr option \<Rightarrow> ('d, 'w) srv_sys \<Rightarrow> (admission \<times> ('d, 'w) srv_sys) option" where
  \<comment> \<open>step 8\<close>
  "dispatcher_new_session c env info user st =
     Option.bind (sessions_cap_ok c (ci_uid info) user st) (\<lambda>(authorised, st1).
       if \<not> authorised then dispatcher_refuse c (ci_uid info) False st1
       else
         let session_key = rnd_bytes (ae_r env 0) CLOAK_AEAD_KEY_LEN in
         Option.bind (session_valve user st1) (\<lambda>valve.
           let cfg = \<lparr>sh_method = aead_method_of_nat (unat (ci_encryption_method info)), sh_session_key = session_key, sh_unordered = ci_unordered info, sh_valve = valve, sh_conns_len = 0\<rparr>;
               (prepared, st2) =
                 (case dc_prepare_session c of
                    None \<Rightarrow> (True, st1)
                  | Some prepare \<Rightarrow> (case prepare info (ps_world st1) of (ok, w1) \<Rightarrow> (ok, st1\<lparr>ps_world := w1\<rparr>)))
           in
           if \<not> prepared then dispatcher_refuse c (ci_uid info) False st2
           else
             Option.bind (cloak_server_registry_get_or_create (ps_reg st2) (ci_uid info) (ci_session_id info) (if ae_session_init env then Some cfg else None) (ae_sesh_cell env)) (\<lambda>(sesh, r3).
               let st3 = st2\<lparr>ps_reg := r3\<rparr> in
               case sesh of
                 None \<Rightarrow> dispatcher_refuse c (ci_uid info) False (conn_fire_session_aborted c (ci_uid info) (ci_session_id info) st3)
               | Some (_, created) \<Rightarrow> Some (Admitted created session_key, st3))))"

definition dispatcher_session ::
  "('d, 'w) dispatcher_config \<Rightarrow> admit_env \<Rightarrow> server_clientinfo \<Rightarrow> addr option \<Rightarrow> ('d, 'w) srv_sys \<Rightarrow> (admission \<times> ('d, 'w) srv_sys) option" where
  \<comment> \<open>steps 7 and 8: join a live session, or make one\<close>
  "dispatcher_session c env info user st =
     Option.bind (cloak_server_registry_find (ps_reg st) (ci_uid info) (ci_session_id info)) (\<lambda>(found, r1).
       let st1 = st\<lparr>ps_reg := r1\<rparr> in
       case found of
         Some e \<Rightarrow>
           Option.bind (rg_heap r1 e) (\<lambda>en.
             if sh_unordered (en_sesh en) \<noteq> ci_unordered info then dispatcher_refuse c (ci_uid info) True st1
             else Some (Admitted False (sh_session_key (en_sesh en)), st1))
       | None \<Rightarrow> dispatcher_new_session c env info user st1)"

definition dispatcher_admit ::
  "('d, 'w) dispatcher_config \<Rightarrow> 'a server \<Rightarrow> admit_env \<Rightarrow> server_clientinfo \<Rightarrow> ('d, 'w) srv_sys \<Rightarrow> (admission \<times> server_clientinfo \<times> ('d, 'w) srv_sys) option" where
  \<comment> \<open>steps 6 to 8, with the verdict on administration filled in\<close>
  "dispatcher_admit c srv env info st =
     Option.bind (dispatcher_user c srv env (ci_uid info) st) (\<lambda>(user, st1).
       case user of
         None \<Rightarrow> Some (Refused False, info, st1)
       | Some user \<Rightarrow>
           let info1 = info\<lparr>ci_is_admin := cloak_server_is_admin srv (ci_uid info) \<and> ci_session_id info = 0\<rparr> in
           map_option (\<lambda>(a, st2). (a, info1, st2))
             (if \<not> ci_is_admin info1 \<and> cloak_server_lookup_proxy srv (ci_proxy_method info1) = None then dispatcher_refuse c (ci_uid info) False st1
              else dispatcher_session c env info1 user st1))"

section \<open>The reply\<close>

definition CLOAK_SERVER_AUTH_REPLY_MAX_BYTES :: nat where "CLOAK_SERVER_AUTH_REPLY_MAX_BYTES = 256"

definition dispatcher_reply :: "evp \<Rightarrow> admit_env \<Rightarrow> firstpacket_transport \<Rightarrow> auth_fields \<Rightarrow> bytes \<Rightarrow> bytes \<Rightarrow> bytes option" where
  \<comment> \<open>step 9\<close>
  "dispatcher_reply e env transport af shared_secret session_key =
     (if transport = CLOAK_FIRSTPACKET_TRANSPORT_WEBSOCKET then
        Option.bind (Option.bind (af_accept af) (cloak_ws_handshake_compose_101 CLOAK_SERVER_AUTH_REPLY_MAX_BYTES)) (\<lambda>r101.
        Option.bind (cloak_server_auth_compose_ws_reply e (ae_r env 1) session_key shared_secret) (\<lambda>ws_payload.
        Option.bind (cloak_ws_frame_write_header (CLOAK_SERVER_AUTH_REPLY_MAX_BYTES - length r101) CLOAK_WS_OP_BINARY True None (of_nat CLOAK_SERVER_AUTH_WS_REPLY_LEN)) (\<lambda>hdr.
          if length r101 + length hdr + CLOAK_SERVER_AUTH_WS_REPLY_LEN \<le> CLOAK_SERVER_AUTH_REPLY_MAX_BYTES then Some (r101 @ hdr @ ws_payload) else None)))
      else
        let reply_nonce = rnd_bytes (ae_r env 1) CLOAK_AEAD_NONCE_LEN;
            pad4 = rnd_bytes (ae_r env 2) 4;
            cert_len = cloak_server_auth_cert_lens ! rnd_below (ae_r env 3) (length cloak_server_auth_cert_lens);
            fake_cert = rnd_bytes (ae_r env 4) cert_len
        in Option.bind (af_session_id af) (\<lambda>sid.
             cloak_server_auth_compose_reply e shared_secret session_key reply_nonce sid pad4 fake_cert CLOAK_SERVER_AUTH_REPLY_MAX_BYTES))"

record conn_auth =
  ca_reply :: bytes
  ca_created :: bool
  ca_info :: server_clientinfo
  ca_framing :: conn_framing

definition dispatcher_authenticate ::
  "evp \<Rightarrow> x25519_evp \<Rightarrow> (bytes \<Rightarrow> bytes option) \<Rightarrow> ('d, 'w) dispatcher_config \<Rightarrow> admit_env \<Rightarrow> int \<Rightarrow> firstpacket
   \<Rightarrow> 'a server \<times> ('d, 'w) srv_sys \<Rightarrow> ((bool + conn_auth) \<times> 'a server \<times> ('d, 'w) srv_sys) option" where
  \<comment> \<open>a refusal says whether it is counted as one over the ordering\<close>
  "dispatcher_authenticate e x sha1 c env now fp ss =
     (case ss of (srv, st) \<Rightarrow>
        (case dispatcher_verify e x sha1 srv fp now of
           (None, srv1) \<Rightarrow> Some (Inl False, srv1, st)
         | (Some (info, shared_secret, af), srv1) \<Rightarrow>
             Option.bind (dispatcher_admit c srv1 env info st) (\<lambda>(adm, info1, st1).
               case adm of
                 Refused mismatch \<Rightarrow> Some (Inl mismatch, srv1, st1)
               | Admitted created session_key \<Rightarrow>
                   (case dispatcher_reply e env (fp_transport fp) af shared_secret session_key of
                      None \<Rightarrow>
                        Option.bind
                          (if created
                           then map_option (\<lambda>r2. (conn_fire_session_aborted c (ci_uid info1) (ci_session_id info1) st1)\<lparr>ps_reg := r2\<rparr>)
                                  (cloak_server_registry_close (ps_reg st1) (ci_uid info1) (ci_session_id info1))
                           else Some st1)
                          (\<lambda>st2. map_option (\<lambda>st3. (Inl False, srv1, st3)) (dispatcher_release_user c (ci_uid info1) st2))
                    | Some reply \<Rightarrow>
                        Some (Inr \<lparr>ca_reply = reply, ca_created = created, ca_info = info1,
                                   ca_framing = (if fp_transport fp = CLOAK_FIRSTPACKET_TRANSPORT_WEBSOCKET then CLOAK_CONN_FRAMING_WS_SERVER else CLOAK_CONN_FRAMING_TLS_RECORD)\<rparr>,
                              srv1, st1)))))"

section \<open>The connections\<close>

record dispatch_conn =
  dp_fd :: bool  \<comment> \<open>whether it owns the client's descriptor\<close>
  dp_local_port :: u16
  dp_fp :: firstpacket
  dp_deadline :: bool
  dp_pending :: bool
  dp_dialing :: bool
  dp_relaying :: bool
  dp_writing_reply :: bool
  dp_reply :: bytes
  dp_reply_sent :: nat
  dp_auth_created :: bool
  dp_auth_info :: "server_clientinfo option"
  dp_auth_framing :: conn_framing

record ('a, 'd, 'w) dispatcher =
  ds_srv :: "'a server"
  ds_sys :: "('d, 'w) srv_sys"
  ds_heap :: "addr \<Rightarrow> dispatch_conn option"
  ds_conns :: "addr list"
  ds_conn_count :: nat
  ds_pending_count :: nat
  ds_ordering_mismatch_refusals :: u64

definition conn_unlink :: "addr \<Rightarrow> ('a, 'd, 'w) dispatcher \<Rightarrow> ('a, 'd, 'w) dispatcher option" where
  "conn_unlink a d =
     Option.bind (ds_heap d a) (\<lambda>cn.
       let d1 = d\<lparr>ds_conns := remove1 a (ds_conns d), ds_conn_count := ds_conn_count d - 1\<rparr> in
       Some (if dp_pending cn
             then d1\<lparr>ds_heap := (ds_heap d1)(a \<mapsto> cn\<lparr>dp_pending := False\<rparr>), ds_pending_count := ds_pending_count d1 - 1\<rparr>
             else d1))"

definition conn_free :: "addr \<Rightarrow> ('a, 'd, 'w) dispatcher \<Rightarrow> ('a, 'd, 'w) dispatcher option" where
  "conn_free a d = Option.bind (ds_heap d a) (\<lambda>_. Some (d\<lparr>ds_heap := (ds_heap d)(a := None)\<rparr>))"

definition teardown_session :: "('d, 'w) dispatcher_config \<Rightarrow> bytes \<Rightarrow> u32 \<Rightarrow> ('d, 'w) srv_sys \<Rightarrow> ('d, 'w) srv_sys option" where
  \<comment> \<open>the session this connection created, if no connection ever reached it\<close>
  "teardown_session c uid session_id st =
     Option.bind (cloak_server_registry_find (ps_reg st) uid session_id) (\<lambda>(found, r1).
       let st1 = st\<lparr>ps_reg := r1\<rparr> in
       case found of
         None \<Rightarrow> Some st1
       | Some e \<Rightarrow>
           Option.bind (rg_heap r1 e) (\<lambda>en.
             if sh_conns_len (en_sesh en) = 0 then
               let st2 = conn_fire_session_aborted c uid session_id st1 in
               Option.bind (cloak_server_registry_close (ps_reg st2) uid session_id) (\<lambda>r3. dispatcher_release_user c uid (st2\<lparr>ps_reg := r3\<rparr>))
             else Some st1))"

definition conn_teardown :: "('d, 'w) dispatcher_config \<Rightarrow> addr \<Rightarrow> ('a, 'd, 'w) dispatcher \<Rightarrow> ('a, 'd, 'w) dispatcher option" where
  "conn_teardown c a d =
     Option.bind (ds_heap d a) (\<lambda>cn.
     Option.bind
       (case (dp_auth_created cn, dp_auth_info cn) of
          (True, Some info) \<Rightarrow> teardown_session c (ci_uid info) (ci_session_id info) (ds_sys d)
        | _ \<Rightarrow> Some (ds_sys d)) (\<lambda>st1.
       let cn1 = cn\<lparr>dp_deadline := False, dp_auth_created := False\<rparr>;
           cn2 = (if dp_relaying cn then cn1\<lparr>dp_relaying := False, dp_fd := False\<rparr>
                  else cn1\<lparr>dp_dialing := False, dp_writing_reply := False, dp_fd := False\<rparr>)
       in Some (d\<lparr>ds_sys := st1, ds_heap := (ds_heap d)(a \<mapsto> cn2)\<rparr>)))"

definition conn_drop :: "('d, 'w) dispatcher_config \<Rightarrow> addr \<Rightarrow> ('a, 'd, 'w) dispatcher \<Rightarrow> ('a, 'd, 'w) dispatcher option" where
  "conn_drop c a d = Option.bind (conn_teardown c a d) (\<lambda>d1. Option.bind (conn_unlink a d1) (conn_free a))"

definition conn_set :: "addr \<Rightarrow> (dispatch_conn \<Rightarrow> dispatch_conn) \<Rightarrow> ('a, 'd, 'w) dispatcher \<Rightarrow> ('a, 'd, 'w) dispatcher option" where
  \<comment> \<open>assignments to fields of the connection\<close>
  "conn_set a f d = Option.bind (ds_heap d a) (\<lambda>cn. Some (d\<lparr>ds_heap := (ds_heap d)(a \<mapsto> f cn)\<rparr>))"

definition on_relay_done :: "addr \<Rightarrow> ('a, 'd, 'w) dispatcher \<Rightarrow> ('a, 'd, 'w) dispatcher option" where
  "on_relay_done a d =
     Option.bind (conn_set a (\<lambda>cn. cn\<lparr>dp_relaying := False\<rparr>) d) (\<lambda>d1.
     Option.bind (conn_unlink a d1) (conn_free a))"

definition on_dial_done :: "('d, 'w) dispatcher_config \<Rightarrow> bool \<Rightarrow> bool \<Rightarrow> addr \<Rightarrow> ('a, 'd, 'w) dispatcher \<Rightarrow> ('a, 'd, 'w) dispatcher option" where
  \<comment> \<open>whether the site answered and the relay could start\<close>
  "on_dial_done c fd_ok relay_ok a d =
     Option.bind (conn_set a (\<lambda>cn. cn\<lparr>dp_dialing := False\<rparr>) d) (\<lambda>d1.
       if \<not> fd_ok then conn_drop c a d1
       else
         Option.bind (conn_set a (\<lambda>cn. cn\<lparr>dp_fd := False\<rparr>) d1) (\<lambda>d2.
           if \<not> relay_ok then Option.bind (conn_unlink a d2) (conn_free a)
           else
             Option.bind (conn_set a (\<lambda>cn. cn\<lparr>dp_relaying := True\<rparr>) d2) (\<lambda>d3.
             Option.bind (ds_heap d3 a) (\<lambda>cn.
               if dp_pending cn
               then Some (d3\<lparr>ds_heap := (ds_heap d3)(a \<mapsto> cn\<lparr>dp_pending := False\<rparr>), ds_pending_count := ds_pending_count d3 - 1\<rparr>)
               else Some d3))))"

definition conn_start_redirect :: "('d, 'w) dispatcher_config \<Rightarrow> bool \<Rightarrow> bool \<Rightarrow> addr \<Rightarrow> ('a, 'd, 'w) dispatcher \<Rightarrow> ('a, 'd, 'w) dispatcher option" where
  \<comment> \<open>whether the address of the site is usable and the dial could start\<close>
  "conn_start_redirect c addr_ok dial_ok a d =
     Option.bind (conn_set a (\<lambda>cn. cn\<lparr>dp_deadline := False\<rparr>) d) (\<lambda>d1.
       if \<not> addr_ok then conn_drop c a d1
       else if \<not> dial_ok then conn_drop c a d1
       else conn_set a (\<lambda>cn. cn\<lparr>dp_dialing := True\<rparr>) d1)"

definition session_add_conn :: "addr \<Rightarrow> ('d, 'w) srv_sys \<Rightarrow> ('d, 'w) srv_sys option" where
  \<comment> \<open>\<open>cloak_session_add_conn_framed\<close> when it succeeds\<close>
  "session_add_conn e st =
     Option.bind (rg_heap (ps_reg st) e) (\<lambda>en.
       let s = en_sesh en; r = ps_reg st in
       Some (st\<lparr>ps_reg := r\<lparr>rg_heap := (rg_heap r)(e \<mapsto> en\<lparr>en_sesh := s\<lparr>sh_conns_len := sh_conns_len s + 1\<rparr>\<rparr>)\<rparr>\<rparr>))"

definition conn_handoff :: "('d, 'w) dispatcher_config \<Rightarrow> bool \<Rightarrow> addr \<Rightarrow> ('a, 'd, 'w) dispatcher \<Rightarrow> ('a, 'd, 'w) dispatcher option" where
  "conn_handoff c add_ok a d =
     Option.bind (ds_heap d a) (\<lambda>cn.
     Option.bind (dp_auth_info cn) (\<lambda>info.
     Option.bind (cloak_server_registry_find (ps_reg (ds_sys d)) (ci_uid info) (ci_session_id info)) (\<lambda>(found, r1).
       let d1 = d\<lparr>ds_sys := (ds_sys d)\<lparr>ps_reg := r1\<rparr>\<rparr> in
       case found of
         None \<Rightarrow> Option.bind (conn_set a (\<lambda>cn. cn\<lparr>dp_fd := False\<rparr>) d1) (conn_drop c a)
       | Some e \<Rightarrow>
           if \<not> add_ok then Option.bind (conn_set a (\<lambda>cn. cn\<lparr>dp_fd := False\<rparr>) d1) (conn_drop c a)
           else
             Option.bind (session_add_conn e (ds_sys d1)) (\<lambda>st2.
             Option.bind (conn_set a (\<lambda>cn. cn\<lparr>dp_fd := False, dp_deadline := False\<rparr>) (d1\<lparr>ds_sys := st2\<rparr>)) (\<lambda>d2.
               let st3 = ds_sys d2;
                   d3 = d2\<lparr>ds_sys := (case dc_attached c of None \<Rightarrow> st3
                                       | Some attached \<Rightarrow> st3\<lparr>ps_world := attached e info (dp_auth_created cn) (ps_world st3)\<rparr>)\<rparr>
               in Option.bind (conn_unlink a d3) (conn_free a))))))"

datatype send_result = Sent nat | Send_interrupted | Send_would_block | Send_failed
datatype write_verdict = Write_finished | Write_blocked | Write_failed

fun reply_write_loop :: "nat \<Rightarrow> nat \<Rightarrow> send_result list \<Rightarrow> write_verdict \<times> nat" where
  \<comment> \<open>how much of the reply is written; a kernel that says no more would block\<close>
  "reply_write_loop len sent rs =
     (if sent < len then
        (case rs of
           [] \<Rightarrow> (Write_blocked, sent)
         | Sent n # rs1 \<Rightarrow> if n > 0 then reply_write_loop len (sent + n) rs1 else (Write_failed, sent)
         | Send_interrupted # rs1 \<Rightarrow> reply_write_loop len sent rs1
         | Send_would_block # _ \<Rightarrow> (Write_blocked, sent)
         | Send_failed # _ \<Rightarrow> (Write_failed, sent))
      else (Write_finished, sent))"

definition conn_reply_write_failed :: "('d, 'w) dispatcher_config \<Rightarrow> addr \<Rightarrow> ('a, 'd, 'w) dispatcher \<Rightarrow> ('a, 'd, 'w) dispatcher option" where
  "conn_reply_write_failed c a d = conn_drop c a d"

definition conn_continue_reply_write ::
  "('d, 'w) dispatcher_config \<Rightarrow> bool \<Rightarrow> bool \<Rightarrow> send_result list \<Rightarrow> addr \<Rightarrow> ('a, 'd, 'w) dispatcher \<Rightarrow> ('a, 'd, 'w) dispatcher option" where
  \<comment> \<open>whether the reactor takes the new interest and the session the descriptor, and what the socket answers\<close>
  "conn_continue_reply_write c mod_ok add_ok sends a d =
     Option.bind (ds_heap d a) (\<lambda>cn.
       case reply_write_loop (length (dp_reply cn)) (dp_reply_sent cn) sends of
         (verdict, sent) \<Rightarrow>
           let d1 = d\<lparr>ds_heap := (ds_heap d)(a \<mapsto> cn\<lparr>dp_reply_sent := sent\<rparr>)\<rparr> in
           (case verdict of
              Write_finished \<Rightarrow> Option.bind (conn_set a (\<lambda>cn. cn\<lparr>dp_writing_reply := False\<rparr>) d1) (conn_handoff c add_ok a)
            | Write_failed \<Rightarrow> conn_reply_write_failed c a d1
            | Write_blocked \<Rightarrow>
                if dp_writing_reply cn then Some d1
                else Option.bind (conn_set a (\<lambda>cn. cn\<lparr>dp_writing_reply := True\<rparr>) d1) (\<lambda>d2.
                       if mod_ok then Some d2 else conn_reply_write_failed c a d2)))"

record io_env =
  io_evp :: evp
  io_x25519 :: x25519_evp
  io_sha1 :: "bytes \<Rightarrow> bytes option"
  io_now :: int
  io_admit :: admit_env
  io_addr_ok :: bool
  io_dial_ok :: bool
  io_timer_ok :: bool
  io_mod_ok :: bool
  io_add_ok :: bool
  io_sends :: "send_result list"

definition conn_on_firstpacket_error :: "('d, 'w) dispatcher_config \<Rightarrow> io_env \<Rightarrow> addr \<Rightarrow> ('a, 'd, 'w) dispatcher \<Rightarrow> ('a, 'd, 'w) dispatcher option" where
  "conn_on_firstpacket_error c io a d = conn_start_redirect c (io_addr_ok io) (io_dial_ok io) a d"

definition conn_on_firstpacket_done :: "('d, 'w) dispatcher_config \<Rightarrow> io_env \<Rightarrow> addr \<Rightarrow> ('a, 'd, 'w) dispatcher \<Rightarrow> ('a, 'd, 'w) dispatcher option" where
  "conn_on_firstpacket_done c io a d =
     Option.bind (conn_set a (\<lambda>cn. cn\<lparr>dp_deadline := False\<rparr>) d) (\<lambda>d1.
     Option.bind (ds_heap d1 a) (\<lambda>cn.
     Option.bind (dispatcher_authenticate (io_evp io) (io_x25519 io) (io_sha1 io) c (io_admit io) (io_now io) (dp_fp cn) (ds_srv d1, ds_sys d1)) (\<lambda>(r, srv2, st2).
       let d2 = d1\<lparr>ds_srv := srv2, ds_sys := st2\<rparr> in
       case r of
         Inl mismatch \<Rightarrow>
           conn_start_redirect c (io_addr_ok io) (io_dial_ok io) a
             (if mismatch then d2\<lparr>ds_ordering_mismatch_refusals := ds_ordering_mismatch_refusals d2 + 1\<rparr> else d2)
       | Inr au \<Rightarrow>
           let cn3 = cn\<lparr>dp_reply := ca_reply au, dp_reply_sent := 0, dp_auth_created := ca_created au, dp_auth_info := Some (ca_info au), dp_auth_framing := ca_framing au\<rparr>;
               d3 = d2\<lparr>ds_heap := (ds_heap d2)(a \<mapsto> cn3\<lparr>dp_deadline := io_timer_ok io\<rparr>)\<rparr>
           in if \<not> io_timer_ok io then conn_reply_write_failed c a d3
              else conn_continue_reply_write c (io_mod_ok io) (io_add_ok io) (io_sends io) a d3)))"

definition conn_drop_peer_gone :: "('d, 'w) dispatcher_config \<Rightarrow> addr \<Rightarrow> ('a, 'd, 'w) dispatcher \<Rightarrow> ('a, 'd, 'w) dispatcher option" where
  "conn_drop_peer_gone c a d = conn_drop c a d"

datatype read_result = Data bytes | Peer_closed | Read_interrupted | Read_would_block | Read_failed

fun read_loop :: "('d, 'w) dispatcher_config \<Rightarrow> io_env \<Rightarrow> addr \<Rightarrow> read_result list \<Rightarrow> ('a, 'd, 'w) dispatcher \<Rightarrow> ('a, 'd, 'w) dispatcher option" where
  \<comment> \<open>what the socket answers to one read after another; when it has said all, the next would block\<close>
  "read_loop c io a [] d = Some d"
| "read_loop c io a (r # rs) d =
     Option.bind (ds_heap d a) (\<lambda>cn.
       if cloak_firstpacket_want (dp_fp cn) = 0 then Some d
       else
         (case r of
            Data bs \<Rightarrow>
              if bs = [] then conn_drop_peer_gone c a d
              else
                (case cloak_firstpacket_feed (dp_fp cn) bs of (status, fp1) \<Rightarrow>
                   Option.bind (conn_set a (\<lambda>cn. cn\<lparr>dp_fp := fp1\<rparr>) d) (\<lambda>d1.
                     case status of
                       CLOAK_FIRSTPACKET_DONE \<Rightarrow> conn_on_firstpacket_done c io a d1
                     | CLOAK_FIRSTPACKET_ERROR \<Rightarrow> conn_on_firstpacket_error c io a d1
                     | CLOAK_FIRSTPACKET_NEED_MORE \<Rightarrow> read_loop c io a rs d1))
          | Peer_closed \<Rightarrow> conn_drop_peer_gone c a d
          | Read_interrupted \<Rightarrow> read_loop c io a rs d
          | Read_would_block \<Rightarrow> Some d
          | Read_failed \<Rightarrow> conn_drop_peer_gone c a d))"

definition on_readable :: "('d, 'w) dispatcher_config \<Rightarrow> io_env \<Rightarrow> read_result list \<Rightarrow> addr \<Rightarrow> ('a, 'd, 'w) dispatcher \<Rightarrow> ('a, 'd, 'w) dispatcher option" where
  "on_readable c io reads a d =
     Option.bind (ds_heap d a) (\<lambda>cn.
       if dp_writing_reply cn then conn_continue_reply_write c (io_mod_ok io) (io_add_ok io) (io_sends io) a d
       else read_loop c io a reads d)"

definition on_deadline :: "('d, 'w) dispatcher_config \<Rightarrow> addr \<Rightarrow> ('a, 'd, 'w) dispatcher \<Rightarrow> ('a, 'd, 'w) dispatcher option" where
  "on_deadline c a d = Option.bind (conn_set a (\<lambda>cn. cn\<lparr>dp_deadline := False\<rparr>) d) (conn_drop c a)"

section \<open>The dispatcher itself\<close>

definition cloak_dispatcher_init :: "('d, 'w) dispatcher_config \<Rightarrow> 'a server \<Rightarrow> ('d, 'w) srv_sys \<Rightarrow> (('d, 'w) dispatcher_config \<times> ('a, 'd, 'w) dispatcher) option" where
  \<comment> \<open>the configuration with its defaults, and a dispatcher on what it points to\<close>
  "cloak_dispatcher_init cfg srv st =
     (if dc_relay_buf_cap cfg \<noteq> 0 \<and> dc_relay_buf_cap cfg < CLOAK_FIRSTPACKET_MAX then None
      else
        let or_default = (\<lambda>v d. if v = 0 then d else v) in
        Some (cfg\<lparr>dc_handshake_timeout_ms := or_default (dc_handshake_timeout_ms cfg) CLOAK_DISPATCHER_DEFAULT_HANDSHAKE_TIMEOUT_MS,
                  dc_redirect_dial_timeout_ms := or_default (dc_redirect_dial_timeout_ms cfg) CLOAK_DISPATCHER_DEFAULT_REDIRECT_DIAL_TIMEOUT_MS,
                  dc_relay_buf_cap := or_default (dc_relay_buf_cap cfg) CLOAK_DISPATCHER_DEFAULT_RELAY_BUF_CAP,
                  dc_max_pending_conns := or_default (dc_max_pending_conns cfg) CLOAK_DISPATCHER_DEFAULT_MAX_PENDING_CONNS\<rparr>,
              \<lparr>ds_srv = srv, ds_sys = st, ds_heap = Map.empty, ds_conns = [], ds_conn_count = 0, ds_pending_count = 0, ds_ordering_mismatch_refusals = 0\<rparr>))"

definition cloak_dispatcher_accept ::
  "('d, 'w) dispatcher_config \<Rightarrow> addr option \<Rightarrow> bool \<Rightarrow> bool \<Rightarrow> u16 \<Rightarrow> ('a, 'd, 'w) dispatcher \<Rightarrow> ('a, 'd, 'w) dispatcher option" where
  \<comment> \<open>the cell that \<open>calloc\<close> gives, and whether there is a timer and room in the reactor\<close>
  "cloak_dispatcher_accept c cell timer_ok fd_ok local_port d =
     (if ds_pending_count d \<ge> dc_max_pending_conns c then Some d
      else
        (case cell of
           None \<Rightarrow> Some d
         | Some a \<Rightarrow>
             let cn = \<lparr>dp_fd = True, dp_local_port = local_port, dp_fp = cloak_firstpacket_init, dp_deadline = timer_ok, dp_pending = True, dp_dialing = False, dp_relaying = False,
                       dp_writing_reply = False, dp_reply = [], dp_reply_sent = 0, dp_auth_created = False, dp_auth_info = None, dp_auth_framing = CLOAK_CONN_FRAMING_INVALID\<rparr>;
                 d1 = d\<lparr>ds_heap := (ds_heap d)(a \<mapsto> cn), ds_conns := a # ds_conns d, ds_conn_count := ds_conn_count d + 1, ds_pending_count := ds_pending_count d + 1\<rparr>
             in if \<not> timer_ok then conn_drop c a d1
                else if \<not> fd_ok then conn_drop c a d1
                else Some d1))"

fun destroy_conns :: "('d, 'w) dispatcher_config \<Rightarrow> addr list \<Rightarrow> ('a, 'd, 'w) dispatcher \<Rightarrow> ('a, 'd, 'w) dispatcher option" where
  "destroy_conns c [] d = Some d"
| "destroy_conns c (a # as) d = Option.bind (conn_teardown c a d) (\<lambda>d1. Option.bind (conn_free a d1) (destroy_conns c as))"

definition cloak_dispatcher_destroy :: "('d, 'w) dispatcher_config \<Rightarrow> ('a, 'd, 'w) dispatcher \<Rightarrow> ('a, 'd, 'w) dispatcher option" where
  "cloak_dispatcher_destroy c d =
     map_option (\<lambda>d1. d1\<lparr>ds_conns := [], ds_conn_count := 0, ds_pending_count := 0\<rparr>) (destroy_conns c (ds_conns d) d)"

definition cloak_dispatcher_conn_count :: "('a, 'd, 'w) dispatcher \<Rightarrow> nat" where
  "cloak_dispatcher_conn_count d = ds_conn_count d"

definition cloak_dispatcher_pending_count :: "('a, 'd, 'w) dispatcher \<Rightarrow> nat" where
  "cloak_dispatcher_pending_count d = ds_pending_count d"

section \<open>Authorisation keeps the service in order\<close>

lemma db_served: "served valve st \<Longrightarrow> served valve (st\<lparr>ps_db := d\<rparr>)"
  by (rule served_cong) (auto dest: servedD)

lemma aborted_served: "served valve st \<Longrightarrow> served valve (conn_fire_session_aborted c uid sid st)"
  unfolding conn_fire_session_aborted_def by (auto split: option.splits intro: flags_served)

definition panel_set :: "('d, 'w) dispatcher_config \<Rightarrow> ('d \<Rightarrow> users) \<Rightarrow> ('d \<Rightarrow> users) \<Rightarrow> bool" where
  \<comment> \<open>the server has a panel, and the database behind it is sound\<close>
  "panel_set c tbl base \<longleftrightarrow> (case dc_panel c of None \<Rightarrow> False | Some pc \<Rightarrow> manager_sound pc tbl base)"

lemma panel_setE:
  assumes "panel_set c tbl base"
  obtains pc where "dc_panel c = Some pc" "manager_sound pc tbl base"
  using assms by (auto simp: panel_set_def split: option.splits)

lemma release_served:
  assumes s: "served sh_valve st" and c: "panel_set c tbl base"
  obtains st1 where "dispatcher_release_user c uid st = Some st1" "served sh_valve st1"
proof -
  obtain pc where pc: "dc_panel c = Some pc" "manager_sound pc tbl base" using panel_setE[OF c] .
  obtain st1 where "cloak_userpanel_notify_session_closed pc uid st = Some st1" "served sh_valve st1" using notify_served[OF s pc(2)] .
  then show thesis using that pc(1) by (simp add: dispatcher_release_user_def)
qed

lemma refuse_served:
  assumes s: "served sh_valve st" and c: "panel_set c tbl base"
  shows "\<exists>st1. dispatcher_refuse c uid m st = Some (Refused m, st1) \<and> served sh_valve st1"
  using release_served[OF s c, of uid] by (auto simp: dispatcher_refuse_def)

lemma user_served:
  assumes s: "served sh_valve st" and c: "panel_set c tbl base" and fresh: "\<And>u. ae_user_cell env = Some u \<Longrightarrow> up_heap (ps_panel st) u = None"
  obtains r st1 where "dispatcher_user c srv env uid st = Some (r, st1)" "served sh_valve st1" "ps_reg st1 = ps_reg st"
    "r = None \<or> (\<exists>u b. r = Some (Some u) \<and> has_user (ps_panel st1) uid u b)"
proof -
  obtain pc where pc: "dc_panel c = Some pc" using panel_setE[OF c] .
  show thesis
  proof (cases "cloak_server_is_bypass srv uid")
    case True
    obtain res p1 where g: "cloak_userpanel_get_bypass_user (ps_panel st) uid (ae_user_cell env) = Some (res, p1)" "served sh_valve (st\<lparr>ps_panel := p1\<rparr>)"
      "\<And>u. res = Inr u \<Longrightarrow> \<exists>b. has_user p1 uid u b" using get_bypass_user_served[OF s fresh, where uid = uid] by metis
    show ?thesis
      by (rule that[of "case res of Inl _ \<Rightarrow> None | Inr u \<Rightarrow> Some (Some u)" "st\<lparr>ps_panel := p1\<rparr>"])
        (use g True pc in \<open>auto simp: dispatcher_user_def Let_def split: sum.splits\<close>)
  next
    case False
    obtain res p1 d1 where g: "cloak_userpanel_get_user pc (ps_panel st, ps_db st) uid (ae_user_cell env) (ae_now_ms env) = Some (res, p1, d1)"
      "served sh_valve (st\<lparr>ps_panel := p1, ps_db := d1\<rparr>)" "\<And>u. res = Inr u \<Longrightarrow> \<exists>b. has_user p1 uid u b" using get_user_served[OF s fresh, where uid = uid and c = pc and now_ms = "ae_now_ms env"] by metis
    show ?thesis
      by (rule that[of "case res of Inl _ \<Rightarrow> None | Inr u \<Rightarrow> Some (Some u)" "st\<lparr>ps_panel := p1, ps_db := d1\<rparr>"])
        (use g False pc in \<open>auto simp: dispatcher_user_def Let_def split: sum.splits\<close>)
  qed
qed

lemma cap_served:
  assumes s: "served sh_valve st" and u: "has_user (ps_panel st) uid u b"
  obtains ok st1 where "sessions_cap_ok c uid (Some u) st = Some (ok, st1)" "served sh_valve st1" "rg_heap (ps_reg st1) = rg_heap (ps_reg st)" "ps_panel st1 = ps_panel st"
proof -
  obtain a where a: "up_heap (ps_panel st) u = Some a" using u by (auto simp: has_user_def)
  obtain n r1 where n: "cloak_server_registry_count_for_uid (ps_reg st) uid = Some (n, r1)" "served sh_valve (st\<lparr>ps_reg := r1\<rparr>)" "rg_heap r1 = rg_heap (ps_reg st)"
    using count_reg_served[OF s, of uid] .
  have s1: "served sh_valve (st\<lparr>ps_reg := r1, ps_db := d1\<rparr>)" for d1 using db_served[OF n(2)] by simp
  show thesis
  proof (cases "dc_panel c = None \<or> pu_bypass a")
    case True
    then show ?thesis using that[of True st] a s by (auto simp: sessions_cap_ok_def split: option.splits)
  next
    case False
    then obtain pc where pc: "dc_panel c = Some pc" by auto
    obtain rc d1 where "cloak_usermanager_authorise_new_session (pc_manager pc) (ps_db st) uid (int n) (pc_clock pc 0) = (rc, d1)" by fastforce
    then show ?thesis using that[of "rc = CLOAK_USER_OK" "st\<lparr>ps_reg := r1, ps_db := d1\<rparr>"] a n pc False s1 by (simp add: sessions_cap_ok_def)
  qed
qed

lemma get_or_create_table:
  "table_step T (Get_or_create uid sid s cell) out T1 \<Longrightarrow> T1 = T \<or> (\<exists>v e. s = Some v \<and> T1 = T(e \<mapsto> new_entry uid sid v))"
  by (cases rule: table_step.cases) auto

lemma create_served:
  assumes s: "served sh_valve st" and u: "has_user (ps_panel st) uid u b" and v: "\<forall>cfg. so = Some cfg \<longrightarrow> sh_valve cfg = (if b then None else Some u)"
    and cell: "\<forall>e. cell = Some e \<longrightarrow> rg_heap (ps_reg st) e = None"
  obtains out r1 where "cloak_server_registry_get_or_create (ps_reg st) uid sid so cell = Some (out, r1)" "served sh_valve (st\<lparr>ps_reg := r1\<rparr>)"
proof -
  let ?T = "rg_heap (ps_reg st)"
  obtain out r1 where g: "cloak_server_registry_get_or_create (ps_reg st) uid sid so cell = Some (out, r1)" "reg_rel r1 (rg_heap r1)"
    "table_step ?T (Get_or_create uid sid so cell) (Out_session out) (rg_heap r1)"
    using exec_get_or_create[OF reg_isD[OF sv_reg[OF s]] _, where cell = cell and uid = uid and sid = sid and s = so] cell by blast
  have "covers sh_valve (up_heap (ps_panel st)) (rg_heap r1)"
    using get_or_create_table[OF g(3)]
  proof
    assume "rg_heap r1 = ?T"
    then show ?thesis using sv_covers[OF s] by simp
  next
    assume "\<exists>v e. so = Some v \<and> rg_heap r1 = ?T(e \<mapsto> new_entry uid sid v)"
    then obtain cfg e where e: "so = Some cfg" "rg_heap r1 = ?T(e \<mapsto> new_entry uid sid cfg)" by blast
    show ?thesis using sv_covers[OF s] u v[rule_format, OF e(1)] unfolding covers_def e(2) has_user_def by (auto simp: new_entry_def)
  qed
  then have "served sh_valve (st\<lparr>ps_reg := r1\<rparr>)" using s g(2) by (simp add: served_def reg_is_def)
  then show thesis using that g(1) by blast
qed

definition cells_fresh :: "admit_env \<Rightarrow> ('d, 'w) srv_sys \<Rightarrow> bool" where
  \<comment> \<open>\<open>malloc\<close> gives cells that are not in use\<close>
  "cells_fresh env st \<longleftrightarrow> (\<forall>u. ae_user_cell env = Some u \<longrightarrow> up_heap (ps_panel st) u = None) \<and> (\<forall>e. ae_sesh_cell env = Some e \<longrightarrow> rg_heap (ps_reg st) e = None)"

lemma new_session_served:
  assumes s: "served sh_valve st" and c: "panel_set c tbl base" and u: "has_user (ps_panel st) (ci_uid info) u b"
    and cell: "\<And>e. ae_sesh_cell env = Some e \<Longrightarrow> rg_heap (ps_reg st) e = None"
  shows "\<exists>adm st1. dispatcher_new_session c env info (Some u) st = Some (adm, st1) \<and> served sh_valve st1"
proof -
  let ?uid = "ci_uid info"
  obtain ok st1 where cap: "sessions_cap_ok c ?uid (Some u) st = Some (ok, st1)" "served sh_valve st1" "rg_heap (ps_reg st1) = rg_heap (ps_reg st)" "ps_panel st1 = ps_panel st"
    using cap_served[OF s u] .
  obtain a where a: "up_heap (ps_panel st1) u = Some a" "pu_bypass a = b" using u cap(4) by (auto simp: has_user_def)
  have v: "session_valve (Some u) st1 = Some (if b then None else Some u)" using a by (simp add: session_valve_def cloak_userpanel_user_valve_def)
  let ?cfg = "\<lparr>sh_method = aead_method_of_nat (unat (ci_encryption_method info)), sh_session_key = rnd_bytes (ae_r env 0) CLOAK_AEAD_KEY_LEN, sh_unordered = ci_unordered info,
      sh_valve = if b then None else Some u, sh_conns_len = 0\<rparr>"
  obtain prepared w1 where w: "(case dc_prepare_session c of None \<Rightarrow> (True, st1) | Some prepare \<Rightarrow> (case prepare info (ps_world st1) of (ok, w1) \<Rightarrow> (ok, st1\<lparr>ps_world := w1\<rparr>)))
      = (prepared, st1\<lparr>ps_world := w1\<rparr>)"
  proof (cases "dc_prepare_session c")
    case None
    then show ?thesis using that[of True "ps_world st1"] by simp
  next
    case (Some prepare)
    obtain ok w1 where "prepare info (ps_world st1) = (ok, w1)" by fastforce
    then show ?thesis using that[of ok w1] Some by simp
  qed
  let ?st2 = "st1\<lparr>ps_world := w1\<rparr>"
  have s2: "served sh_valve ?st2" by (rule flags_served(3)[OF cap(2)])
  have u2: "has_user (ps_panel ?st2) ?uid u b" using u cap(4) by simp
  have cell2: "\<forall>e. ae_sesh_cell env = Some e \<longrightarrow> rg_heap (ps_reg ?st2) e = None" using cell cap(3) by simp
  let ?so = "if ae_session_init env then Some ?cfg else None"
  have cfg: "\<forall>cfg. ?so = Some cfg \<longrightarrow> sh_valve cfg = (if b then None else Some u)" by (cases "ae_session_init env") auto
  obtain out r1 where g: "cloak_server_registry_get_or_create (ps_reg ?st2) ?uid (ci_session_id info) ?so (ae_sesh_cell env) = Some (out, r1)" "served sh_valve (?st2\<lparr>ps_reg := r1\<rparr>)"
    using create_served[OF s2 u2 cfg cell2] .
  note unfold = dispatcher_new_session_def cap(1) v w
  show ?thesis
  proof (cases "ok \<and> prepared \<and> out \<noteq> None")
    case True
    then obtain x cr where "out = Some (x, cr)" by auto
    then show ?thesis using True g by (simp add: unfold Let_def)
  next
    case False
    then consider "\<not> ok" | "ok" "\<not> prepared" | "ok" "prepared" "out = None" by blast
    then show ?thesis
    proof cases
      case 1
      then show ?thesis using refuse_served[OF cap(2) c, of ?uid False] by (auto simp: unfold)
    next
      case 2
      then show ?thesis using refuse_served[OF s2 c, of ?uid False] by (auto simp: unfold Let_def)
    next
      case 3
      have "\<exists>st3. dispatcher_refuse c ?uid False (conn_fire_session_aborted c ?uid (ci_session_id info) (?st2\<lparr>ps_reg := r1\<rparr>)) = Some (Refused False, st3) \<and> served sh_valve st3"
        by (rule refuse_served[OF aborted_served[OF g(2)] c])
      then show ?thesis using 3 g(1) by (auto simp: unfold Let_def)
    qed
  qed
qed

lemma session_served:
  assumes s: "served sh_valve st" and c: "panel_set c tbl base" and u: "has_user (ps_panel st) (ci_uid info) u b"
    and cell: "\<And>e. ae_sesh_cell env = Some e \<Longrightarrow> rg_heap (ps_reg st) e = None"
  shows "\<exists>adm st1. dispatcher_session c env info (Some u) st = Some (adm, st1) \<and> served sh_valve st1"
proof -
  obtain r r1 where f: "cloak_server_registry_find (ps_reg st) (ci_uid info) (ci_session_id info) = Some (r, r1)" "served sh_valve (st\<lparr>ps_reg := r1\<rparr>)" "rg_heap r1 = rg_heap (ps_reg st)"
    "\<forall>e. r = Some e \<longleftrightarrow> live_at (rg_heap (ps_reg st)) (ci_uid info) (ci_session_id info) e" using find_reg_served[OF s] .
  note s1 = f(2)
  show ?thesis
  proof (cases r)
    case None
    then show ?thesis using new_session_served[OF s1 c, where info = info and u = u and b = b and env = env] u cell f(1,3) by (simp add: dispatcher_session_def Let_def)
  next
    case (Some e)
    then obtain en where en: "rg_heap (ps_reg st) e = Some en" using f(4) by (auto simp: live_at_def)
    then show ?thesis using refuse_served[OF s1 c, of "ci_uid info" True] s1 f(1,3) Some by (auto simp: dispatcher_session_def Let_def)
  qed
qed

lemma admit_served:
  assumes s: "served sh_valve st" and c: "panel_set c tbl base" and fresh: "cells_fresh env st"
  shows "\<exists>adm st1. dispatcher_admit c srv env info st = Some (adm, st1) \<and> served sh_valve (snd st1)"
proof -
  obtain r st1 where u: "dispatcher_user c srv env (ci_uid info) st = Some (r, st1)" "served sh_valve st1" "ps_reg st1 = ps_reg st"
    "r = None \<or> (\<exists>u b. r = Some (Some u) \<and> has_user (ps_panel st1) (ci_uid info) u b)"
    using user_served[OF s c, where env = env and srv = srv and uid = "ci_uid info"] fresh unfolding cells_fresh_def by blast
  show ?thesis
  proof (cases r)
    case None
    then show ?thesis using u by (simp add: dispatcher_admit_def)
  next
    case (Some x)
    then obtain a b where a: "r = Some (Some a)" "has_user (ps_panel st1) (ci_uid info) a b" using u(4) by auto
    let ?i = "info\<lparr>ci_is_admin := cloak_server_is_admin srv (ci_uid info) \<and> ci_session_id info = 0\<rparr>"
    obtain adm st2 where d: "dispatcher_session c env ?i (Some a) st1 = Some (adm, st2)" "served sh_valve st2"
      using session_served[OF u(2) c, where info = ?i and u = a and b = b and env = env] a(2) u(3) fresh unfolding cells_fresh_def by auto
    obtain st3 where "dispatcher_refuse c (ci_uid info) False st1 = Some (Refused False, st3)" "served sh_valve st3" using refuse_served[OF u(2) c] by blast
    then show ?thesis using u(1) a(1) d by (simp add: dispatcher_admit_def Let_def)
  qed
qed

lemma close_release_served:
  assumes s: "served sh_valve st" and c: "panel_set c tbl base"
  obtains r1 st1 where "cloak_server_registry_close (ps_reg st) uid sid = Some r1" "dispatcher_release_user c uid (st\<lparr>ps_reg := r1\<rparr>) = Some st1" "served sh_valve st1"
proof -
  obtain r1 where r: "cloak_server_registry_close (ps_reg st) uid sid = Some r1" "served sh_valve (st\<lparr>ps_reg := r1\<rparr>)" using close_served[OF s] .
  obtain st1 where "dispatcher_release_user c uid (st\<lparr>ps_reg := r1\<rparr>) = Some st1" "served sh_valve st1" using release_served[OF r(2) c] .
  then show thesis using that r(1) by blast
qed

lemma aborted_reg [simp]: "ps_reg (conn_fire_session_aborted c uid sid st) = ps_reg st"
  by (auto simp: conn_fire_session_aborted_def split: option.splits)

lemma authenticate_served:
  assumes s: "served sh_valve st" and c: "panel_set c tbl base" and fresh: "cells_fresh env st"
  shows "\<exists>r srv1 st1. dispatcher_authenticate e x sha1 c env now fp (srv, st) = Some (r, srv1, st1) \<and> served sh_valve st1"
proof -
  obtain res srv1 where v: "dispatcher_verify e x sha1 srv fp now = (res, srv1)" by fastforce
  show ?thesis
  proof (cases res)
    case None
    then show ?thesis using v s by (simp add: dispatcher_authenticate_def)
  next
    case (Some y)
    obtain info ss af where y: "y = (info, ss, af)" using prod_cases3 by blast
    obtain adm info1 st1 where a: "dispatcher_admit c srv1 env info st = Some (adm, info1, st1)" "served sh_valve st1"
      using admit_served[OF s c fresh, of srv1 info] by auto
    show ?thesis
    proof (cases adm)
      case (Refused m)
      then show ?thesis using v Some y a by (simp add: dispatcher_authenticate_def)
    next
      case (Admitted created key)
      let ?fired = "conn_fire_session_aborted c (ci_uid info1) (ci_session_id info1) st1"
      obtain r2 st3 where k: "cloak_server_registry_close (ps_reg ?fired) (ci_uid info1) (ci_session_id info1) = Some r2"
        "dispatcher_release_user c (ci_uid info1) (?fired\<lparr>ps_reg := r2\<rparr>) = Some st3" "served sh_valve st3"
        using close_release_served[OF aborted_served[OF a(2)] c] .
      obtain st4 where r: "dispatcher_release_user c (ci_uid info1) st1 = Some st4" "served sh_valve st4" using release_served[OF a(2) c] .
      show ?thesis
        using v Some y a Admitted k r by (cases "dispatcher_reply e env (fp_transport fp) af ss key"; cases created) (simp_all add: dispatcher_authenticate_def)
    qed
  qed
qed

lemma teardown_session_served:
  assumes s: "served sh_valve st" and c: "panel_set c tbl base"
  shows "\<exists>st1. teardown_session c uid sid st = Some st1 \<and> served sh_valve st1"
proof -
  obtain r r1 where f: "cloak_server_registry_find (ps_reg st) uid sid = Some (r, r1)" "served sh_valve (st\<lparr>ps_reg := r1\<rparr>)" "rg_heap r1 = rg_heap (ps_reg st)"
    "\<forall>e. r = Some e \<longleftrightarrow> live_at (rg_heap (ps_reg st)) uid sid e" using find_reg_served[OF s] .
  let ?st1 = "st\<lparr>ps_reg := r1\<rparr>"
  note s1 = f(2)
  show ?thesis
  proof (cases r)
    case None
    then show ?thesis using f(1) s1 by (simp add: teardown_session_def Let_def)
  next
    case (Some e)
    then obtain en where en: "rg_heap (ps_reg st) e = Some en" using f(4) by (auto simp: live_at_def)
    let ?fired = "conn_fire_session_aborted c uid sid ?st1"
    obtain r2 st3 where "cloak_server_registry_close (ps_reg ?fired) uid sid = Some r2" "dispatcher_release_user c uid (?fired\<lparr>ps_reg := r2\<rparr>) = Some st3" "served sh_valve st3"
      using close_release_served[OF aborted_served[OF s1] c] .
    then show ?thesis using f(1,3) Some en s1 by (simp add: teardown_session_def Let_def)
  qed
qed

lemma reg_is_sesh:
  assumes r: "reg_is reg T" and e: "T e = Some en"
  shows "reg_is (reg\<lparr>rg_heap := T(e \<mapsto> en\<lparr>en_sesh := s\<rparr>)\<rparr>) (T(e \<mapsto> en\<lparr>en_sesh := s\<rparr>))"
proof -
  let ?en = "en\<lparr>en_sesh := s\<rparr>"
  let ?r = "reg\<lparr>rg_heap := T(e \<mapsto> ?en)\<rparr>"
  obtain K U D where k: "reg_rep reg T K U D" using r by (auto simp: reg_is_def reg_rel_def)
  have dom: "dom (T(e \<mapsto> ?en)) = dom T" using e by auto
  have dead: "dead_of (T(e \<mapsto> ?en)) = dead_of T" using e by (auto simp: dead_of_def)
  have live: "live_at (T(e \<mapsto> ?en)) = live_at T" using e by (intro ext) (auto simp: live_at_def)
  have b: "registry_key_bucket ?r = registry_key_bucket reg" "registry_uid_bucket ?r = registry_uid_bucket reg" by (rule bucket_cong, simp)+
  have one: "one_live (T(e \<mapsto> ?en)) = one_live T" unfolding one_live_def live ..
  have "reg_rep ?r (T(e \<mapsto> ?en)) K U D"
    unfolding reg_rep_def dom dead one b
  proof (intro conjI allI impI)
    fix x a assume "(T(e \<mapsto> ?en)) x = Some a"
    then have x: "x = e \<and> a = ?en \<or> x \<noteq> e \<and> T x = Some a" by (auto split: if_splits)
    then show "rg_heap ?r x = Some a" by auto
    show "x \<in> set (K (registry_key_bucket reg (en_uid a) (en_session_id a)))" "x \<in> set (U (registry_uid_bucket reg (en_uid a)))"
      using x e k unfolding reg_rep_def by auto
  qed (use k in \<open>simp_all add: reg_rep_def\<close>)
  then show ?thesis by (auto simp: reg_is_def reg_rel_def)
qed

lemma add_conn_served:
  assumes s: "served sh_valve st" and e: "rg_heap (ps_reg st) e = Some en"
  obtains st1 where "session_add_conn e st = Some st1" "served sh_valve st1"
proof -
  let ?T = "rg_heap (ps_reg st)" and ?s = "(en_sesh en)\<lparr>sh_conns_len := sh_conns_len (en_sesh en) + 1\<rparr>"
  let ?T1 = "?T(e \<mapsto> en\<lparr>en_sesh := ?s\<rparr>)"
  have "reg_is ((ps_reg st)\<lparr>rg_heap := ?T1\<rparr>) ?T1" by (rule reg_is_sesh[OF sv_reg[OF s] e])
  moreover have "covers sh_valve (up_heap (ps_panel st)) ?T1" using sv_covers[OF s] e unfolding covers_def by auto
  ultimately have "served sh_valve (st\<lparr>ps_reg := (ps_reg st)\<lparr>rg_heap := ?T1\<rparr>\<rparr>)" using s by (simp add: served_def)
  then show thesis using that e by (simp add: session_add_conn_def Let_def)
qed

section \<open>The invariant of the connections\<close>

definition timed :: "dispatch_conn \<Rightarrow> bool" where
  \<comment> \<open>a connection is relayed, or it is pending and some timer will end it: its own deadline or that of the dial\<close>
  "timed cn \<longleftrightarrow>
     (if dp_relaying cn then \<not> dp_pending cn \<and> \<not> dp_deadline cn \<and> \<not> dp_dialing cn \<and> \<not> dp_writing_reply cn
      else dp_pending cn \<and> dp_fd cn \<and> dp_deadline cn \<noteq> dp_dialing cn \<and> (dp_writing_reply cn \<longrightarrow> dp_deadline cn \<and> dp_auth_info cn \<noteq> None))"

definition pend :: "('a, 'd, 'w) dispatcher \<Rightarrow> addr set" where
  "pend d = {a. \<exists>cn. ds_heap d a = Some cn \<and> dp_pending cn}"

definition tallied :: "nat \<Rightarrow> ('a, 'd, 'w) dispatcher \<Rightarrow> bool" where
  "tallied m d \<longleftrightarrow> distinct (ds_conns d) \<and> set (ds_conns d) = dom (ds_heap d) \<and> ds_conn_count d = length (ds_conns d)
     \<and> ds_pending_count d = card (pend d) \<and> ds_pending_count d \<le> m"

definition all_but :: "nat \<Rightarrow> addr set \<Rightarrow> ('a, 'd, 'w) dispatcher \<Rightarrow> bool" where
  \<comment> \<open>the invariant, but for the timers of the connections that are being handled\<close>
  "all_but m A d \<longleftrightarrow> tallied m d \<and> served sh_valve (ds_sys d) \<and> (\<forall>b cn. ds_heap d b = Some cn \<longrightarrow> b \<notin> A \<longrightarrow> timed cn)"

abbreviation disp_ok :: "nat \<Rightarrow> ('a, 'd, 'w) dispatcher \<Rightarrow> bool" where
  "disp_ok m d \<equiv> all_but m {} d"

lemma all_butD:
  assumes "all_but m A d"
  shows ab_tallied: "tallied m d" and ab_served: "served sh_valve (ds_sys d)" and ab_timed: "ds_heap d b = Some cn \<Longrightarrow> b \<notin> A \<Longrightarrow> timed cn"
  using assms unfolding all_but_def by blast+

lemma all_but_mono: "all_but m {} d \<Longrightarrow> all_but m A d"
  by (simp add: all_but_def)

lemma all_but_done: "all_but m {a} d \<Longrightarrow> ds_heap d a = Some cn \<Longrightarrow> timed cn \<Longrightarrow> disp_ok m d"
  unfolding all_but_def by (metis empty_iff insert_iff option.inject)

lemma all_but_sys [simp]:
  assumes "all_but m A d" "served sh_valve st"
  shows "all_but m A (d\<lparr>ds_sys := st\<rparr>)" "all_but m A (d\<lparr>ds_srv := srv, ds_sys := st\<rparr>)"
  using assms by (simp_all add: all_but_def tallied_def pend_def)

lemma all_but_refusals [simp]: "all_but m A (d\<lparr>ds_ordering_mismatch_refusals := n\<rparr>) = all_but m A d"
  by (simp add: all_but_def tallied_def pend_def)

lemma finite_pend:
  assumes "tallied m d"
  shows "finite (pend d)"
proof -
  have "pend d \<subseteq> set (ds_conns d)" using assms by (auto simp: tallied_def pend_def)
  then show ?thesis by (rule finite_subset) simp
qed

lemma all_but_upd:
  assumes d: "all_but m {a} d" and a: "ds_heap d a = Some cn" and p: "dp_pending cn1 = dp_pending cn"
  shows "all_but m {a} (d\<lparr>ds_heap := (ds_heap d)(a \<mapsto> cn1)\<rparr>)"
proof -
  have "pend (d\<lparr>ds_heap := (ds_heap d)(a \<mapsto> cn1)\<rparr>) = pend d" using a p by (auto simp: pend_def)
  then show ?thesis using d a unfolding all_but_def tallied_def by auto
qed

lemma conn_set_ok:
  assumes d: "all_but m {a} d" and a: "ds_heap d a = Some cn" and p: "dp_pending (f cn) = dp_pending cn"
  shows "conn_set a f d = Some (d\<lparr>ds_heap := (ds_heap d)(a \<mapsto> f cn)\<rparr>)" "all_but m {a} (d\<lparr>ds_heap := (ds_heap d)(a \<mapsto> f cn)\<rparr>)"
  using a all_but_upd[OF d a p] by (simp_all add: conn_set_def)

lemma unlink_free_ok:
  assumes d: "all_but m {a} d" and a: "ds_heap d a = Some cn"
  shows "\<exists>d1. Option.bind (conn_unlink a d) (conn_free a) = Some d1 \<and> disp_ok m d1"
proof -
  note t = ab_tallied[OF d, unfolded tallied_def]
  define d1 where "d1 = d\<lparr>ds_conns := remove1 a (ds_conns d), ds_conn_count := ds_conn_count d - 1, ds_pending_count := (if dp_pending cn then ds_pending_count d - 1 else ds_pending_count d),
      ds_heap := (ds_heap d)(a := None)\<rparr>"
  have e: "Option.bind (conn_unlink a d) (conn_free a) = Some d1" using a by (simp add: conn_unlink_def conn_free_def d1_def Let_def)
  have p: "pend d1 = pend d - {a}" by (auto simp: pend_def d1_def)
  have mem: "a \<in> pend d \<longleftrightarrow> dp_pending cn" using a by (simp add: pend_def)
  have "a \<in> set (ds_conns d)" using t a by auto
  then have "tallied m d1" using t p mem finite_pend[OF ab_tallied[OF d]] unfolding tallied_def by (auto simp: d1_def length_remove1 card_Diff_singleton_if)
  then have "disp_ok m d1" using ab_served[OF d] ab_timed[OF d] unfolding all_but_def by (auto simp: d1_def split: if_splits)
  then show ?thesis using e by blast
qed

lemma teardown_ok:
  assumes s: "served sh_valve (ds_sys d)" and a: "ds_heap d a = Some cn" and c: "panel_set c tbl base"
  obtains st1 cn2 where "conn_teardown c a d = Some (d\<lparr>ds_sys := st1, ds_heap := (ds_heap d)(a \<mapsto> cn2)\<rparr>)" "served sh_valve st1" "dp_pending cn2 = dp_pending cn"
proof -
  have "\<exists>st1. (case (dp_auth_created cn, dp_auth_info cn) of (True, Some info) \<Rightarrow> teardown_session c (ci_uid info) (ci_session_id info) (ds_sys d) | _ \<Rightarrow> Some (ds_sys d)) = Some st1 \<and> served sh_valve st1"
    using teardown_session_served[OF s c] s by (cases "dp_auth_info cn"; cases "dp_auth_created cn") simp_all
  then obtain st1 where st1: "(case (dp_auth_created cn, dp_auth_info cn) of (True, Some info) \<Rightarrow> teardown_session c (ci_uid info) (ci_session_id info) (ds_sys d) | _ \<Rightarrow> Some (ds_sys d)) = Some st1"
    "served sh_valve st1" by blast
  define cn2 where "cn2 = (let cn1 = cn\<lparr>dp_deadline := False, dp_auth_created := False\<rparr> in if dp_relaying cn then cn1\<lparr>dp_relaying := False, dp_fd := False\<rparr>
      else cn1\<lparr>dp_dialing := False, dp_writing_reply := False, dp_fd := False\<rparr>)"
  have "conn_teardown c a d = Some (d\<lparr>ds_sys := st1, ds_heap := (ds_heap d)(a \<mapsto> cn2)\<rparr>)" using a st1(1) by (simp add: conn_teardown_def cn2_def Let_def)
  then show thesis by (rule that[OF _ st1(2)]) (simp add: cn2_def Let_def)
qed

lemma drop_ok:
  assumes d: "all_but m {a} d" and a: "ds_heap d a = Some cn" and c: "panel_set c tbl base"
  shows "\<exists>d1. conn_drop c a d = Some d1 \<and> disp_ok m d1"
proof -
  obtain st1 cn2 where t: "conn_teardown c a d = Some (d\<lparr>ds_sys := st1, ds_heap := (ds_heap d)(a \<mapsto> cn2)\<rparr>)" "served sh_valve st1" "dp_pending cn2 = dp_pending cn"
    using teardown_ok[OF ab_served[OF d] a c] .
  let ?d1 = "d\<lparr>ds_sys := st1, ds_heap := (ds_heap d)(a \<mapsto> cn2)\<rparr>"
  have "all_but m {a} ((d\<lparr>ds_sys := st1\<rparr>)\<lparr>ds_heap := (ds_heap (d\<lparr>ds_sys := st1\<rparr>))(a \<mapsto> cn2)\<rparr>)"
    by (rule all_but_upd[OF all_but_sys(1)[OF d t(2)], where cn = cn]) (use a t(3) in simp_all)
  then have "all_but m {a} ?d1" by simp
  then show ?thesis using unlink_free_ok[of m a ?d1 cn2] t(1) by (simp add: conn_drop_def)
qed

lemma destroy_conns_ok:
  "served sh_valve (ds_sys d) \<Longrightarrow> distinct as \<Longrightarrow> set as \<subseteq> dom (ds_heap d) \<Longrightarrow> panel_set c tbl base \<Longrightarrow>
    \<exists>d1. destroy_conns c as d = Some d1 \<and> served sh_valve (ds_sys d1) \<and> ds_heap d1 = ds_heap d |` (- set as)"
proof (induction as arbitrary: d)
  case Nil
  then show ?case by (simp add: restrict_map_def)
next
  case (Cons a as)
  then obtain cn where a: "ds_heap d a = Some cn" by auto
  obtain st1 cn2 where t: "conn_teardown c a d = Some (d\<lparr>ds_sys := st1, ds_heap := (ds_heap d)(a \<mapsto> cn2)\<rparr>)" "served sh_valve st1" using teardown_ok[OF Cons(2) a Cons(5)] .
  let ?d2 = "d\<lparr>ds_sys := st1, ds_heap := (ds_heap d)(a := None)\<rparr>"
  have pre: "served sh_valve (ds_sys ?d2)" "distinct as" "set as \<subseteq> dom (ds_heap ?d2)" using Cons.prems t(2) by auto
  obtain d1 where d1: "destroy_conns c as ?d2 = Some d1" "served sh_valve (ds_sys d1)" "ds_heap d1 = ds_heap ?d2 |` (- set as)"
    using Cons.IH[OF pre Cons(5)] by blast
  have "ds_heap ?d2 |` (- set as) = ds_heap d |` (- set (a # as))" by (auto simp: restrict_map_def fun_eq_iff)
  moreover have "destroy_conns c (a # as) d = destroy_conns c as ?d2" using t(1) by (simp add: conn_free_def)
  ultimately show ?case using d1 by simp
qed

lemma destroy_ok:
  assumes d: "disp_ok m d" and c: "panel_set c tbl base"
  shows "\<exists>d1. cloak_dispatcher_destroy c d = Some d1 \<and> ds_heap d1 = Map.empty \<and> served sh_valve (ds_sys d1)"
proof -
  note t = ab_tallied[OF d, unfolded tallied_def]
  obtain d1 where d1: "destroy_conns c (ds_conns d) d = Some d1" "served sh_valve (ds_sys d1)" "ds_heap d1 = ds_heap d |` (- set (ds_conns d))"
    using destroy_conns_ok[OF ab_served[OF d], of "ds_conns d" c tbl base] t c by auto
  have "ds_heap d1 = Map.empty" unfolding d1(3) using t by (auto simp: restrict_map_def fun_eq_iff)
  then show ?thesis using d1 by (simp add: cloak_dispatcher_destroy_def)
qed

definition waiting :: "dispatch_conn \<Rightarrow> bool" where
  "waiting cn \<longleftrightarrow> dp_pending cn \<and> dp_fd cn \<and> \<not> dp_relaying cn \<and> \<not> dp_dialing cn"

lemma redirect_ok:
  assumes d: "all_but m {a} d" and a: "ds_heap d a = Some cn" "waiting cn" "\<not> dp_writing_reply cn" and c: "panel_set c tbl base"
  shows "\<exists>d1. conn_start_redirect c addr_ok dial_ok a d = Some d1 \<and> disp_ok m d1"
proof -
  let ?cn = "cn\<lparr>dp_deadline := False\<rparr>"
  let ?d1 = "d\<lparr>ds_heap := (ds_heap d)(a \<mapsto> ?cn)\<rparr>"
  have s1: "conn_set a (\<lambda>cn. cn\<lparr>dp_deadline := False\<rparr>) d = Some ?d1" "all_but m {a} ?d1" using conn_set_ok[OF d a(1), of "\<lambda>cn. cn\<lparr>dp_deadline := False\<rparr>"] by simp_all
  have a1: "ds_heap ?d1 a = Some ?cn" by simp
  obtain d2 where d2: "conn_drop c a ?d1 = Some d2" "disp_ok m d2" using drop_ok[OF s1(2) a1 c] by blast
  let ?d3 = "?d1\<lparr>ds_heap := (ds_heap ?d1)(a \<mapsto> ?cn\<lparr>dp_dialing := True\<rparr>)\<rparr>"
  have s3: "conn_set a (\<lambda>cn. cn\<lparr>dp_dialing := True\<rparr>) ?d1 = Some ?d3" "all_but m {a} ?d3" using conn_set_ok[OF s1(2) a1, of "\<lambda>cn. cn\<lparr>dp_dialing := True\<rparr>"] by simp_all
  have "disp_ok m ?d3" by (rule all_but_done[OF s3(2), of "?cn\<lparr>dp_dialing := True\<rparr>"]) (use a in \<open>simp_all add: timed_def waiting_def\<close>)
  then show ?thesis using s1(1) d2 s3(1) unfolding conn_start_redirect_def by (cases addr_ok; cases dial_ok) auto
qed

lemma set_drop_ok:
  assumes d: "all_but m {a} d" and a: "ds_heap d a = Some cn" "dp_pending (f cn) = dp_pending cn" and c: "panel_set c tbl base"
  shows "\<exists>d1. Option.bind (conn_set a f d) (conn_drop c a) = Some d1 \<and> disp_ok m d1"
proof -
  have s1: "conn_set a f d = Some (d\<lparr>ds_heap := (ds_heap d)(a \<mapsto> f cn)\<rparr>)" "all_but m {a} (d\<lparr>ds_heap := (ds_heap d)(a \<mapsto> f cn)\<rparr>)" using conn_set_ok[OF d a(1), of f] a(2) by simp_all
  show ?thesis using drop_ok[OF s1(2) _ c] s1(1) by simp
qed

lemma handoff_ok:
  assumes d: "all_but m {a} d" and a: "ds_heap d a = Some cn" "dp_auth_info cn = Some info" and c: "panel_set c tbl base"
  shows "\<exists>d1. conn_handoff c add_ok a d = Some d1 \<and> disp_ok m d1"
proof -
  let ?st = "ds_sys d"
  obtain r r1 where f: "cloak_server_registry_find (ps_reg ?st) (ci_uid info) (ci_session_id info) = Some (r, r1)" "served sh_valve (?st\<lparr>ps_reg := r1\<rparr>)" "rg_heap r1 = rg_heap (ps_reg ?st)"
    "\<forall>e. r = Some e \<longleftrightarrow> live_at (rg_heap (ps_reg ?st)) (ci_uid info) (ci_session_id info) e" using find_reg_served[OF ab_served[OF d]] .
  let ?st1 = "?st\<lparr>ps_reg := r1\<rparr>"
  let ?d1 = "d\<lparr>ds_sys := ?st1\<rparr>"
  note s1 = f(2)
  have d1: "all_but m {a} ?d1" "ds_heap ?d1 a = Some cn" using all_but_sys(1)[OF d s1] a(1) by simp_all
  obtain d2 where d2: "Option.bind (conn_set a (\<lambda>cn. cn\<lparr>dp_fd := False\<rparr>) ?d1) (conn_drop c a) = Some d2" "disp_ok m d2"
    using set_drop_ok[OF d1 _ c, of "\<lambda>cn. cn\<lparr>dp_fd := False\<rparr>"] by auto
  show ?thesis
  proof (cases "r = None \<or> \<not> add_ok")
    case True
    then show ?thesis using a f(1) d2 by (auto simp: conn_handoff_def Let_def split: option.splits)
  next
    case False
    then obtain e where e: "r = Some e" by auto
    then obtain en where "rg_heap (ps_reg ?st1) e = Some en" using f(3,4) by (auto simp: live_at_def)
    then obtain st2 where st2: "session_add_conn e ?st1 = Some st2" "served sh_valve st2" using add_conn_served[OF s1] by blast
    let ?f = "\<lambda>cn. cn\<lparr>dp_fd := False, dp_deadline := False\<rparr>"
    define st3 where "st3 = (case dc_attached c of None \<Rightarrow> st2 | Some attached \<Rightarrow> st2\<lparr>ps_world := attached e info (dp_auth_created cn) (ps_world st2)\<rparr>)"
    have s3: "served sh_valve st3" using st2(2) flags_served(3)[OF st2(2)] by (auto simp: st3_def split: option.splits)
    let ?d3 = "d\<lparr>ds_sys := st3, ds_heap := (ds_heap d)(a \<mapsto> ?f cn)\<rparr>"
    have "all_but m {a} ((d\<lparr>ds_sys := st3\<rparr>)\<lparr>ds_heap := (ds_heap (d\<lparr>ds_sys := st3\<rparr>))(a \<mapsto> ?f cn)\<rparr>)"
      by (rule all_but_upd[OF all_but_sys(1)[OF d s3], where cn = cn]) (use a in simp_all)
    then have d3: "all_but m {a} ?d3" by simp
    obtain d4 where d4: "Option.bind (conn_unlink a ?d3) (conn_free a) = Some d4" "disp_ok m d4" using unlink_free_ok[OF d3, of "?f cn"] by auto
    have swap: "d\<lparr>ds_heap := h, ds_sys := st\<rparr> = d\<lparr>ds_sys := st, ds_heap := h\<rparr>" for h st by (cases d) simp
    have "conn_handoff c add_ok a d = Option.bind (conn_unlink a ?d3) (conn_free a)"
      using a f(1) e False st2(1) by (cases "dc_attached c") (simp_all add: conn_handoff_def Let_def conn_set_def st3_def swap)
    then show ?thesis using d4 by simp
  qed
qed

lemma reply_write_ok:
  assumes d: "all_but m {a} d" and a: "ds_heap d a = Some cn" "waiting cn" "dp_deadline cn" "dp_auth_info cn = Some info" and c: "panel_set c tbl base"
  shows "\<exists>d1. conn_continue_reply_write c mod_ok add_ok sends a d = Some d1 \<and> disp_ok m d1"
proof -
  obtain v sent where w: "reply_write_loop (length (dp_reply cn)) (dp_reply_sent cn) sends = (v, sent)" by fastforce
  let ?cn = "cn\<lparr>dp_reply_sent := sent\<rparr>"
  let ?d1 = "d\<lparr>ds_heap := (ds_heap d)(a \<mapsto> ?cn)\<rparr>"
  have d1: "all_but m {a} ?d1" "ds_heap ?d1 a = Some ?cn" using all_but_upd[OF d a(1), of ?cn] by simp_all
  let ?set = "\<lambda>b cn. cn\<lparr>dp_writing_reply := b\<rparr>"
  have set: "conn_set a (?set b) ?d1 = Some (?d1\<lparr>ds_heap := (ds_heap ?d1)(a \<mapsto> ?set b ?cn)\<rparr>)" "all_but m {a} (?d1\<lparr>ds_heap := (ds_heap ?d1)(a \<mapsto> ?set b ?cn)\<rparr>)" for b
    using conn_set_ok[OF d1, of "?set b"] by simp_all
  show ?thesis
  proof (cases v)
    case Write_finished
    obtain d2 where "conn_handoff c add_ok a (?d1\<lparr>ds_heap := (ds_heap ?d1)(a \<mapsto> ?set False ?cn)\<rparr>) = Some d2" "disp_ok m d2"
      using handoff_ok[OF set(2)[of False] _ _ c, of "?set False ?cn" info add_ok] a(4) by auto
    then show ?thesis using a(1) w Write_finished set(1)[of False] by (simp add: conn_continue_reply_write_def Let_def)
  next
    case Write_failed
    then show ?thesis using drop_ok[OF d1 c] a(1) w by (simp add: conn_continue_reply_write_def conn_reply_write_failed_def Let_def)
  next
    case Write_blocked
    let ?d2 = "?d1\<lparr>ds_heap := (ds_heap ?d1)(a \<mapsto> ?set True ?cn)\<rparr>"
    have t1: "disp_ok m ?d1" if "dp_writing_reply cn" by (rule all_but_done[OF d1]) (use a in \<open>simp add: timed_def waiting_def\<close>)
    have t2: "disp_ok m ?d2" by (rule all_but_done[OF set(2), of _ "?set True ?cn"]) (use a in \<open>simp_all add: timed_def waiting_def\<close>)
    obtain d3 where "conn_drop c a ?d2 = Some d3" "disp_ok m d3" using drop_ok[OF set(2)[of True] _ c, of "?set True ?cn"] by auto
    then show ?thesis using a(1) w Write_blocked set(1)[of True] t1 t2
      by (cases "dp_writing_reply cn"; cases mod_ok) (simp_all add: conn_continue_reply_write_def conn_reply_write_failed_def Let_def)
  qed
qed

lemma firstpacket_done_ok:
  assumes d: "all_but m {a} d" and a: "ds_heap d a = Some cn" "waiting cn" "\<not> dp_writing_reply cn" and c: "panel_set c tbl base" and fresh: "cells_fresh (io_admit io) (ds_sys d)"
  shows "\<exists>d1. conn_on_firstpacket_done c io a d = Some d1 \<and> disp_ok m d1"
proof -
  let ?cn = "cn\<lparr>dp_deadline := False\<rparr>"
  let ?d1 = "d\<lparr>ds_heap := (ds_heap d)(a \<mapsto> ?cn)\<rparr>"
  have d1: "conn_set a (\<lambda>cn. cn\<lparr>dp_deadline := False\<rparr>) d = Some ?d1" "all_but m {a} ?d1" using conn_set_ok[OF d a(1), of "\<lambda>cn. cn\<lparr>dp_deadline := False\<rparr>"] by simp_all
  obtain r srv2 st2 where au: "dispatcher_authenticate (io_evp io) (io_x25519 io) (io_sha1 io) c (io_admit io) (io_now io) (dp_fp ?cn) (ds_srv ?d1, ds_sys ?d1) = Some (r, srv2, st2)" "served sh_valve st2"
    using authenticate_served[OF ab_served[OF d] c fresh, of "io_evp io" "io_x25519 io" "io_sha1 io" "io_now io" "dp_fp cn" "ds_srv d"] by auto
  let ?d2 = "?d1\<lparr>ds_srv := srv2, ds_sys := st2\<rparr>"
  have d2: "all_but m {a} ?d2" "ds_heap ?d2 a = Some ?cn" using all_but_sys(2)[OF d1(2) au(2)] by simp_all
  show ?thesis
  proof (cases r)
    case (Inl mis)
    let ?d3 = "if mis then ?d2\<lparr>ds_ordering_mismatch_refusals := ds_ordering_mismatch_refusals ?d2 + 1\<rparr> else ?d2"
    have "all_but m {a} ?d3" "ds_heap ?d3 a = Some ?cn" using d2 by simp_all
    then obtain d4 where "conn_start_redirect c (io_addr_ok io) (io_dial_ok io) a ?d3 = Some d4" "disp_ok m d4"
      using redirect_ok[of m a ?d3 ?cn c tbl base "io_addr_ok io" "io_dial_ok io"] a c by (auto simp: waiting_def)
    then show ?thesis using d1(1) au(1) Inl by (simp add: conn_on_firstpacket_done_def Let_def)
  next
    case (Inr ca)
    let ?cn3 = "?cn\<lparr>dp_reply := ca_reply ca, dp_reply_sent := 0, dp_auth_created := ca_created ca, dp_auth_info := Some (ca_info ca), dp_auth_framing := ca_framing ca, dp_deadline := io_timer_ok io\<rparr>"
    let ?d3 = "?d2\<lparr>ds_heap := (ds_heap ?d2)(a \<mapsto> ?cn3)\<rparr>"
    have d3: "all_but m {a} ?d3" "ds_heap ?d3 a = Some ?cn3" using all_but_upd[OF d2, of ?cn3] by simp_all
    have w: "waiting ?cn3" "dp_auth_info ?cn3 = Some (ca_info ca)" using a(2) by (simp_all add: waiting_def)
    have e: "conn_on_firstpacket_done c io a d = (if \<not> io_timer_ok io then conn_drop c a ?d3 else conn_continue_reply_write c (io_mod_ok io) (io_add_ok io) (io_sends io) a ?d3)"
      using d1(1) au(1) Inr by (simp add: conn_on_firstpacket_done_def conn_reply_write_failed_def Let_def)
    show ?thesis
    proof (cases "io_timer_ok io")
      case True
      then have "dp_deadline ?cn3" by simp
      then show ?thesis using reply_write_ok[OF d3 w(1) _ w(2) c, of "io_mod_ok io" "io_add_ok io" "io_sends io"] e True by simp
    next
      case False
      then show ?thesis using drop_ok[OF d3 c] e by simp
    qed
  qed
qed

lemma read_loop_ok:
  "all_but m {a} d \<Longrightarrow> ds_heap d a = Some cn \<Longrightarrow> waiting cn \<Longrightarrow> dp_deadline cn \<Longrightarrow> \<not> dp_writing_reply cn \<Longrightarrow> panel_set c tbl base \<Longrightarrow> cells_fresh (io_admit io) (ds_sys d)
    \<Longrightarrow> \<exists>d1. read_loop c io a rs d = Some d1 \<and> disp_ok m d1"
proof (induction rs arbitrary: d cn)
  case Nil
  have "disp_ok m d" by (rule all_but_done[OF Nil(1,2)]) (use Nil in \<open>simp add: timed_def waiting_def\<close>)
  then show ?case by simp
next
  case (Cons r rs)
  have stop: "disp_ok m d" by (rule all_but_done[OF Cons(2,3)]) (use Cons in \<open>simp add: timed_def waiting_def\<close>)
  obtain d9 where dr: "conn_drop c a d = Some d9" "disp_ok m d9" using drop_ok[OF Cons(2,3,7)] by blast
  show ?case
  proof (cases "cloak_firstpacket_want (dp_fp cn) = 0")
    case True
    then show ?thesis using stop Cons(3) by simp
  next
    case want: False
    show ?thesis
    proof (cases r)
      case (Data bs)
      obtain status fp1 where f: "cloak_firstpacket_feed (dp_fp cn) bs = (status, fp1)" by fastforce
      let ?cn = "cn\<lparr>dp_fp := fp1\<rparr>"
      let ?d1 = "d\<lparr>ds_heap := (ds_heap d)(a \<mapsto> ?cn)\<rparr>"
      have d1: "conn_set a (\<lambda>cn. cn\<lparr>dp_fp := fp1\<rparr>) d = Some ?d1" "all_but m {a} ?d1" "ds_heap ?d1 a = Some ?cn" "cells_fresh (io_admit io) (ds_sys ?d1)"
        using conn_set_ok[OF Cons(2,3), of "\<lambda>cn. cn\<lparr>dp_fp := fp1\<rparr>"] Cons(8) by simp_all
      have w: "waiting ?cn" "dp_deadline ?cn" "\<not> dp_writing_reply ?cn" using Cons by (simp_all add: waiting_def)
      note next_ok = Cons.IH[OF d1(2,3) w Cons(7) d1(4)]
      note done_ok = firstpacket_done_ok[OF d1(2,3) w(1,3) Cons(7) d1(4)]
      note error_ok = redirect_ok[OF d1(2,3) w(1,3) Cons(7), of "io_addr_ok io" "io_dial_ok io"]
      show ?thesis using Data want Cons(3) f d1(1) dr next_ok done_ok error_ok
        by (cases "bs = []"; cases status) (simp_all add: conn_drop_peer_gone_def conn_on_firstpacket_error_def)
    next
      case Read_interrupted
      then show ?thesis using want Cons(3) Cons.IH[OF Cons(2,3,4,5,6,7,8)] by simp
    qed (use want Cons(3) dr stop in \<open>simp_all add: conn_drop_peer_gone_def\<close>)
  qed
qed

lemma accept_ok:
  assumes d: "disp_ok m d" and c: "panel_set c tbl base" "dc_max_pending_conns c = m" and cell: "\<forall>a. cell = Some a \<longrightarrow> ds_heap d a = None"
  shows "\<exists>d1. cloak_dispatcher_accept c cell timer_ok fd_ok port d = Some d1 \<and> disp_ok m d1"
proof (cases "ds_pending_count d \<ge> m \<or> cell = None")
  case True
  then show ?thesis using d c(2) by (auto simp: cloak_dispatcher_accept_def)
next
  case False
  then obtain a where a: "cell = Some a" "ds_heap d a = None" "ds_pending_count d < m" using cell by auto
  let ?cn = "\<lparr>dp_fd = True, dp_local_port = port, dp_fp = cloak_firstpacket_init, dp_deadline = timer_ok, dp_pending = True, dp_dialing = False, dp_relaying = False,
      dp_writing_reply = False, dp_reply = [], dp_reply_sent = 0, dp_auth_created = False, dp_auth_info = None, dp_auth_framing = CLOAK_CONN_FRAMING_INVALID\<rparr>"
  let ?d1 = "d\<lparr>ds_heap := (ds_heap d)(a \<mapsto> ?cn), ds_conns := a # ds_conns d, ds_conn_count := ds_conn_count d + 1, ds_pending_count := ds_pending_count d + 1\<rparr>"
  note t = ab_tallied[OF d]
  have p: "pend ?d1 = insert a (pend d)" "a \<notin> pend d" using a(2) by (auto simp: pend_def)
  have "tallied m ?d1" using t a(2,3) p finite_pend[OF t] by (auto simp: tallied_def)
  then have d1: "all_but m {a} ?d1" "ds_heap ?d1 a = Some ?cn" using d by (auto simp: all_but_def split: if_splits)
  have ok: "disp_ok m ?d1" if timer_ok by (rule all_but_done[OF d1]) (use that in \<open>simp add: timed_def\<close>)
  obtain d2 where "conn_drop c a ?d1 = Some d2" "disp_ok m d2" using drop_ok[OF d1 c(1)] by blast
  then show ?thesis using a ok c(2) False by (cases timer_ok; cases fd_ok) (simp_all add: cloak_dispatcher_accept_def Let_def)
qed

lemma relay_done_ok:
  assumes d: "disp_ok m d" and a: "ds_heap d a = Some cn"
  shows "\<exists>d1. on_relay_done a d = Some d1 \<and> disp_ok m d1"
proof -
  note s = conn_set_ok[OF all_but_mono[OF d] a, of "\<lambda>cn. cn\<lparr>dp_relaying := False\<rparr>"]
  show ?thesis using s unlink_free_ok[OF s(2)] by (simp add: on_relay_done_def)
qed

lemma dial_done_ok:
  assumes d: "disp_ok m d" and a: "ds_heap d a = Some cn" "dp_dialing cn" and c: "panel_set c tbl base"
  shows "\<exists>d1. on_dial_done c fd_ok relay_ok a d = Some d1 \<and> disp_ok m d1"
proof -
  have t: "timed cn" using ab_timed[OF d a(1)] by simp
  then have cn: "dp_pending cn" "\<not> dp_deadline cn" "\<not> dp_writing_reply cn" "\<not> dp_relaying cn" using a(2) by (auto simp: timed_def split: if_splits)
  let ?c1 = "cn\<lparr>dp_dialing := False\<rparr>" and ?c2 = "cn\<lparr>dp_dialing := False, dp_fd := False\<rparr>"
  let ?d1 = "d\<lparr>ds_heap := (ds_heap d)(a \<mapsto> ?c1)\<rparr>" and ?d2 = "d\<lparr>ds_heap := (ds_heap d)(a \<mapsto> ?c2)\<rparr>"
  have d1: "all_but m {a} ?d1" "ds_heap ?d1 a = Some ?c1" using all_but_upd[OF all_but_mono[OF d] a(1), of ?c1] by simp_all
  have d2: "all_but m {a} ?d2" "ds_heap ?d2 a = Some ?c2" using all_but_upd[OF all_but_mono[OF d] a(1), of ?c2] by simp_all
  obtain d3 where d3: "conn_drop c a ?d1 = Some d3" "disp_ok m d3" using drop_ok[OF d1 c] by blast
  obtain d4 where d4: "Option.bind (conn_unlink a ?d2) (conn_free a) = Some d4" "disp_ok m d4" using unlink_free_ok[OF d2] by blast
  let ?c5 = "?c2\<lparr>dp_relaying := True, dp_pending := False\<rparr>"
  let ?d5 = "d\<lparr>ds_heap := (ds_heap d)(a \<mapsto> ?c5), ds_pending_count := ds_pending_count d - 1\<rparr>"
  have mem: "a \<in> pend d" using a(1) cn(1) by (simp add: pend_def)
  have p: "pend ?d5 = pend d - {a}" by (auto simp: pend_def)
  have "tallied m ?d5" using ab_tallied[OF d] mem p finite_pend[OF ab_tallied[OF d]] a(1) by (auto simp: tallied_def)
  then have "all_but m {a} ?d5" using d by (auto simp: all_but_def split: if_splits)
  then have d5: "disp_ok m ?d5" by (rule all_but_done[of m a ?d5 ?c5]) (use cn in \<open>simp_all add: timed_def\<close>)
  have "on_dial_done c fd_ok relay_ok a d = (if \<not> fd_ok then conn_drop c a ?d1 else if \<not> relay_ok then Option.bind (conn_unlink a ?d2) (conn_free a) else Some ?d5)"
    using a(1) cn(1) by (simp add: on_dial_done_def conn_set_def)
  then show ?thesis using d3 d4 d5 by simp
qed

section \<open>The server as a whole\<close>

datatype server_event =
    Accept "addr option" bool bool u16
  | Readable "read_result list" io_env addr
  | Deadline addr
  | Dial_done bool bool addr
  | Relay_done addr
  | Traffic direction int addr
  | Session_breaks bool addr
  | Sweep_fires
  | Upload_fires bool
  | Terminate_user addr

definition on_sys :: "(('d, 'w) srv_sys \<Rightarrow> ('d, 'w) srv_sys option) \<Rightarrow> ('a, 'd, 'w) dispatcher \<Rightarrow> ('a, 'd, 'w) dispatcher option" where
  "on_sys f d = map_option (\<lambda>st. d\<lparr>ds_sys := st\<rparr>) (f (ds_sys d))"

fun server_exec ::
  "(bytes \<Rightarrow> u32 \<Rightarrow> addr \<Rightarrow> 'w \<Rightarrow> 'w) \<Rightarrow> ('d, 'w) dispatcher_config \<Rightarrow> server_event \<Rightarrow> ('a, 'd, 'w) dispatcher \<Rightarrow> ('a, 'd, 'w) dispatcher option" where
  \<comment> \<open>everything that can happen to a running server that has a panel\<close>
  "server_exec front c (Accept cell timer_ok fd_ok port) d = cloak_dispatcher_accept c cell timer_ok fd_ok port d"
| "server_exec front c (Readable reads io a) d = on_readable c io reads a d"
| "server_exec front c (Deadline a) d = on_deadline c a d"
| "server_exec front c (Dial_done fd_ok relay_ok a) d = on_dial_done c fd_ok relay_ok a d"
| "server_exec front c (Relay_done a) d = on_relay_done a d"
| "server_exec front c (Traffic dir n e) d = on_sys (session_traffic sh_valve dir n e) d"
| "server_exec front c (Session_breaks timer_ok e) d = Option.bind (dc_panel c) (\<lambda>pc. on_sys (session_broken front pc timer_ok e) d)"
| "server_exec front c Sweep_fires d = on_sys (\<lambda>st. map_option (\<lambda>r. st\<lparr>ps_reg := r\<rparr>) (registry_sweep_timer_cb (ps_reg st))) d"
| "server_exec front c (Upload_fires timer_ok) d = Option.bind (dc_panel c) (\<lambda>pc. on_sys (panel_upload_timer_cb pc timer_ok) d)"
| "server_exec front c (Terminate_user u) d = Option.bind (dc_panel c) (\<lambda>pc. on_sys (cloak_userpanel_terminate pc u) d)"

fun server_legal :: "server_event \<Rightarrow> ('a, 'd, 'w) dispatcher \<Rightarrow> bool" where
  \<comment> \<open>\<open>malloc\<close> gives cells that are not in use; the reactor calls back for what is registered with it; sessions are used and break while they exist, and break once\<close>
  "server_legal (Accept cell timer_ok fd_ok port) d \<longleftrightarrow> (\<forall>a. cell = Some a \<longrightarrow> ds_heap d a = None)"
| "server_legal (Readable reads io a) d \<longleftrightarrow> (\<exists>cn. ds_heap d a = Some cn \<and> \<not> dp_dialing cn \<and> \<not> dp_relaying cn) \<and> cells_fresh (io_admit io) (ds_sys d)"
| "server_legal (Deadline a) d \<longleftrightarrow> (\<exists>cn. ds_heap d a = Some cn \<and> dp_deadline cn)"
| "server_legal (Dial_done fd_ok relay_ok a) d \<longleftrightarrow> (\<exists>cn. ds_heap d a = Some cn \<and> dp_dialing cn)"
| "server_legal (Relay_done a) d \<longleftrightarrow> (\<exists>cn. ds_heap d a = Some cn \<and> dp_relaying cn)"
| "server_legal (Traffic dir n e) d \<longleftrightarrow> rg_heap (ps_reg (ds_sys d)) e \<noteq> None \<and> 0 \<le> n"
| "server_legal (Session_breaks timer_ok e) d \<longleftrightarrow> (\<exists>en. rg_heap (ps_reg (ds_sys d)) e = Some en \<and> \<not> en_dead en)"
| "server_legal Sweep_fires d \<longleftrightarrow> rg_sweep_timer (ps_reg (ds_sys d))"
| "server_legal (Upload_fires timer_ok) d \<longleftrightarrow> up_upload_timer (ps_panel (ds_sys d))"
| "server_legal (Terminate_user u) d \<longleftrightarrow> up_heap (ps_panel (ds_sys d)) u \<noteq> None"

lemma on_sys_ok:
  assumes d: "disp_ok m d" and f: "\<exists>st1. f (ds_sys d) = Some st1 \<and> served sh_valve st1"
  shows "\<exists>d1. on_sys f d = Some d1 \<and> disp_ok m d1"
proof -
  obtain st1 where "f (ds_sys d) = Some st1" "served sh_valve st1" using f by blast
  then show ?thesis using all_but_sys(1)[OF d] by (simp add: on_sys_def)
qed

lemma server_step_ok:
  assumes d: "disp_ok m d" and c: "panel_set c tbl base" "dc_max_pending_conns c = m" and l: "server_legal ev d"
  shows "\<exists>d1. server_exec front c ev d = Some d1 \<and> disp_ok m d1"
proof -
  obtain pc where pc: "dc_panel c = Some pc" "manager_sound pc tbl base" using panel_setE[OF c(1)] .
  note s = ab_served[OF d]
  show ?thesis
  proof (cases ev)
    case (Accept cell timer_ok fd_ok port)
    then show ?thesis using accept_ok[OF d c, of cell timer_ok fd_ok port] l by simp
  next
    case (Readable reads io a)
    then obtain cn where cn: "ds_heap d a = Some cn" "\<not> dp_dialing cn" "\<not> dp_relaying cn" "cells_fresh (io_admit io) (ds_sys d)" using l by auto
    have t: "timed cn" using ab_timed[OF d cn(1)] by simp
    then have w: "waiting cn" "dp_deadline cn" using cn by (auto simp: timed_def waiting_def)
    show ?thesis
    proof (cases "dp_writing_reply cn")
      case True
      then obtain info where "dp_auth_info cn = Some info" using t cn(3) by (auto simp: timed_def)
      then show ?thesis using reply_write_ok[OF all_but_mono[OF d] cn(1) w _ c(1), of info "io_mod_ok io" "io_add_ok io" "io_sends io"] Readable True cn(1) by (simp add: on_readable_def)
    next
      case False
      then show ?thesis using read_loop_ok[OF all_but_mono[OF d] cn(1) w False c(1) cn(4), of reads] Readable cn(1) by (simp add: on_readable_def)
    qed
  next
    case (Deadline a)
    then obtain cn where "ds_heap d a = Some cn" using l by auto
    then show ?thesis using set_drop_ok[OF all_but_mono[OF d] _ _ c(1), of a cn "\<lambda>cn. cn\<lparr>dp_deadline := False\<rparr>"] Deadline by (simp add: on_deadline_def)
  next
    case (Dial_done fd_ok relay_ok a)
    then show ?thesis using dial_done_ok[OF d _ _ c(1), of a _ fd_ok relay_ok] l by auto
  next
    case (Relay_done a)
    then show ?thesis using relay_done_ok[OF d, of a] l by auto
  next
    case (Traffic dir n e)
    then obtain en where "rg_heap (ps_reg (ds_sys d)) e = Some en" "0 \<le> n" using l by auto
    then have "\<exists>st1. session_traffic sh_valve dir n e (ds_sys d) = Some st1 \<and> served sh_valve st1" using traffic_served[OF s, of e en n dir] by metis
    then show ?thesis using on_sys_ok[OF d] Traffic by simp
  next
    case (Session_breaks timer_ok e)
    then obtain en where "rg_heap (ps_reg (ds_sys d)) e = Some en" "\<not> en_dead en" using l by auto
    then have "\<exists>st1. session_broken front pc timer_ok e (ds_sys d) = Some st1 \<and> served sh_valve st1" using session_broken_served[OF s pc(2), of e en front timer_ok] by metis
    then show ?thesis using on_sys_ok[OF d] Session_breaks pc(1) by simp
  next
    case Sweep_fires
    obtain r1 where "registry_sweep_timer_cb (ps_reg (ds_sys d)) = Some r1" "served sh_valve ((ds_sys d)\<lparr>ps_reg := r1\<rparr>)" using sweep_served[OF s] .
    then have "\<exists>st1. map_option (\<lambda>r. (ds_sys d)\<lparr>ps_reg := r\<rparr>) (registry_sweep_timer_cb (ps_reg (ds_sys d))) = Some st1 \<and> served sh_valve st1" by simp
    then show ?thesis using on_sys_ok[OF d] Sweep_fires by simp
  next
    case (Upload_fires timer_ok)
    have "\<exists>st1. panel_upload_timer_cb pc timer_ok (ds_sys d) = Some st1 \<and> served sh_valve st1" using upload_timer_served[OF s pc(2), of timer_ok] by metis
    then show ?thesis using on_sys_ok[OF d] Upload_fires pc(1) by simp
  next
    case (Terminate_user u)
    then obtain en where "up_heap (ps_panel (ds_sys d)) u = Some en" using l by auto
    then have "\<exists>st1. cloak_userpanel_terminate pc u (ds_sys d) = Some st1 \<and> served sh_valve st1" using terminate_served[OF s _ pc(2), of u en] by metis
    then show ?thesis using on_sys_ok[OF d] Terminate_user pc(1) by simp
  qed
qed

inductive server_runs :: "('d \<Rightarrow> users) \<Rightarrow> ('d \<Rightarrow> users) \<Rightarrow> nat \<Rightarrow> ('a, 'd, 'w) dispatcher \<Rightarrow> bool" for tbl base m where
  \<comment> \<open>the states of a server on a sound database, with that many connections pending at most; hooks, clocks and draws may differ from step to step\<close>
  server_start: "cloak_userpanel_open (pc :: ('d, 'w) userpanel_config) no_relays alloc_ok timer_ok hash_key = Inr p \<Longrightarrow>
    cloak_dispatcher_init cfg srv \<lparr>ps_panel = p, ps_reg = cloak_server_registry_init k, ps_db = db, ps_world = w\<rparr> = Some (c, d) \<Longrightarrow> dc_max_pending_conns c = m \<Longrightarrow> server_runs tbl base m d"
| server_next: "server_runs tbl base m d \<Longrightarrow> panel_set c tbl base \<Longrightarrow> dc_max_pending_conns c = m \<Longrightarrow> server_legal ev d \<Longrightarrow> server_exec front c ev d = Some d1 \<Longrightarrow> server_runs tbl base m d1"

lemma server_runs_ok: "server_runs tbl base m d \<Longrightarrow> disp_ok m d"
proof (induction rule: server_runs.induct)
  case (server_start pc no_relays alloc_ok timer_ok hash_key p cfg srv k db w c d)
  have "served sh_valve \<lparr>ps_panel = p, ps_reg = cloak_server_registry_init k, ps_db = db, ps_world = w\<rparr>" by (rule open_served[OF server_start(1)])
  then show ?case using server_start(2) by (auto simp: cloak_dispatcher_init_def all_but_def tallied_def pend_def Let_def split: if_splits)
next
  case (server_next d c ev front d1)
  then show ?case using server_step_ok[of m d c tbl base ev front] by auto
qed

text \<open>
  C1: nothing dangles. Take a server that has been started on a sound database and to which anything at all has happened since: connections accepted, read, timed out, redirected, authenticated and handed to
  sessions; sessions that carried traffic, broke and were swept; users that came, ran out and were terminated; uploads that failed. Then every event that can happen next is carried out, with no access to a
  connection, a session or a user that has been freed, no loop without end and no upload inside an upload; taking the dispatcher down instead frees every connection. And every session there is, the dead ones included, belongs to a user that is still there and is metered by
  that user's own valve, or by none exactly when the user is exempt: no traffic passes uncounted and none is charged to another.
\<close>

theorem server_never_dangles:
  assumes "server_runs tbl base m d"
  shows "(\<forall>front c ev. panel_set c tbl base \<longrightarrow> dc_max_pending_conns c = m \<longrightarrow> server_legal ev d \<longrightarrow> (\<exists>d1. server_exec front c ev d = Some d1 \<and> server_runs tbl base m d1))
    \<and> (\<forall>c. panel_set c tbl base \<longrightarrow> (\<exists>d1. cloak_dispatcher_destroy c d = Some d1 \<and> ds_heap d1 = Map.empty))
    \<and> (\<forall>e en. rg_heap (ps_reg (ds_sys d)) e = Some en \<longrightarrow>
        (\<exists>u a. up_heap (ps_panel (ds_sys d)) u = Some a \<and> pu_uid a = en_uid en \<and> sh_valve (en_sesh en) = (if pu_bypass a then None else Some u)))"
proof -
  note ok = server_runs_ok[OF assms]
  have "\<exists>d1. server_exec front c ev d = Some d1 \<and> server_runs tbl base m d1" if "panel_set c tbl base" "dc_max_pending_conns c = m" "server_legal ev d" for front c ev
    using server_step_ok[OF ok that, of front] server_next[OF assms that, of front] by blast
  moreover have "\<exists>d1. cloak_dispatcher_destroy c d = Some d1 \<and> ds_heap d1 = Map.empty" if "panel_set c tbl base" for c using destroy_ok[OF ok that] by blast
  ultimately show ?thesis using sv_covers[OF ab_served[OF ok]] unfolding covers_def by blast
qed

text \<open>
  C3: every connection is accounted for. In every state of such a server the two counters are exact, no more connections are pending than the configuration allows, and each connection either is being relayed or
  is pending, still owns its descriptor and is bound to end: exactly one of its own deadline and the deadline of its dial is running. A reply that is being written has a client behind it.
\<close>

theorem connections_accounted:
  assumes "server_runs tbl base m d"
  shows "cloak_dispatcher_conn_count d = card (dom (ds_heap d)) \<and> cloak_dispatcher_pending_count d = card (pend d) \<and> card (pend d) \<le> m
    \<and> (\<forall>a cn. ds_heap d a = Some cn \<longrightarrow> timed cn)"
proof -
  note ok = server_runs_ok[OF assms]
  note t = ab_tallied[OF ok, unfolded tallied_def]
  have "ds_conn_count d = card (dom (ds_heap d))" using t distinct_card[of "ds_conns d"] by simp
  then show ?thesis using t ab_timed[OF ok] by (simp add: cloak_dispatcher_conn_count_def cloak_dispatcher_pending_count_def)
qed

section \<open>A server that accepts a connection\<close>

definition sample_dispatcher_config :: "(sample_db, unit) dispatcher_config" where
  "sample_dispatcher_config = \<lparr>dc_panel = Some sample_config, dc_prepare_session = None, dc_session_aborted = None, dc_attached = None, dc_handshake_timeout_ms = 15000,
     dc_redirect_dial_timeout_ms = 10000, dc_relay_buf_cap = 16384, dc_max_pending_conns = 2\<rparr>"

lemma sample_start:
  obtains d where "server_runs fst sample_base 2 (d :: (unit, sample_db, unit) dispatcher)" "ds_heap d = Map.empty" "ds_conns d = []" "ds_conn_count d = 0" "ds_pending_count d = 0"
proof -
  let ?p = "sample_panel\<lparr>up_queue := []\<rparr>"
  have o: "cloak_userpanel_open sample_config True True True sample_key = Inr ?p"
    by (simp add: cloak_userpanel_open_def sample_config_def sample_panel_def panel_arm_timer_def Let_def)
  let ?st = "\<lparr>ps_panel = ?p, ps_reg = cloak_server_registry_init sample_key, ps_db = (sample_rows, None), ps_world = ()\<rparr> :: (sample_db, unit) srv_sys"
  let ?d = "\<lparr>ds_srv = sample_server, ds_sys = ?st, ds_heap = Map.empty, ds_conns = [], ds_conn_count = 0, ds_pending_count = 0, ds_ordering_mismatch_refusals = 0\<rparr>"
  have i: "cloak_dispatcher_init sample_dispatcher_config sample_server ?st = Some (sample_dispatcher_config, ?d)"
    by (simp add: cloak_dispatcher_init_def sample_dispatcher_config_def CLOAK_FIRSTPACKET_MAX_def Let_def)
  show thesis by (rule that[OF server_start[OF o i]]) (simp_all add: sample_dispatcher_config_def)
qed

lemma sample_panel_set: "panel_set sample_dispatcher_config fst sample_base"
  using sample_manager by (simp add: panel_set_def sample_dispatcher_config_def)

lemma sample_accepts:
  obtains d cn where "server_runs fst sample_base 2 (d :: (unit, sample_db, unit) dispatcher)" "ds_heap d = [50 \<mapsto> cn]" "dp_pending cn" "dp_deadline cn"
proof -
  obtain d where d: "server_runs fst sample_base 2 (d :: (unit, sample_db, unit) dispatcher)" "ds_heap d = Map.empty" "ds_conns d = []" "ds_conn_count d = 0" "ds_pending_count d = 0" using sample_start .
  let ?ev = "Accept (Some 50) True True 443"
  have "\<exists>d1 cn. server_exec (\<lambda>_ _ _ w. w) sample_dispatcher_config ?ev d = Some d1 \<and> ds_heap d1 = [50 \<mapsto> cn] \<and> dp_pending cn \<and> dp_deadline cn"
    using d by (simp add: cloak_dispatcher_accept_def sample_dispatcher_config_def Let_def) (rule exI, rule conjI, rule refl, simp)
  then obtain d1 cn where e: "server_exec (\<lambda>_ _ _ w. w) sample_dispatcher_config ?ev d = Some d1" "ds_heap d1 = [50 \<mapsto> cn]" "dp_pending cn" "dp_deadline cn" by blast
  have "server_runs fst sample_base 2 d1" by (rule server_next[OF d(1) sample_panel_set _ _ e(1)]) (use d in \<open>simp_all add: sample_dispatcher_config_def\<close>)
  then show thesis using that e(2,3,4) by blast
qed

theorem server_never_dangles_witness:
  "\<exists>(d :: (unit, sample_db, unit) dispatcher) d1. server_runs fst sample_base 2 d \<and> server_legal (Deadline 50) d
    \<and> server_exec (\<lambda>_ _ _ w. w) sample_dispatcher_config (Deadline 50) d = Some d1 \<and> server_runs fst sample_base 2 d1"
proof -
  obtain d cn where d: "server_runs fst sample_base 2 (d :: (unit, sample_db, unit) dispatcher)" "ds_heap d = [50 \<mapsto> cn]" "dp_deadline cn" using sample_accepts .
  have m: "dc_max_pending_conns sample_dispatcher_config = 2" by (simp add: sample_dispatcher_config_def)
  have l: "server_legal (Deadline 50) d" using d by simp
  show ?thesis using server_never_dangles[OF d(1)] sample_panel_set m l d(1) by blast
qed

theorem connections_accounted_witness:
  "\<exists>(d :: (unit, sample_db, unit) dispatcher) cn. server_runs fst sample_base 2 d \<and> ds_heap d = [50 \<mapsto> cn] \<and> cloak_dispatcher_conn_count d = 1 \<and> cloak_dispatcher_pending_count d = 1 \<and> timed cn"
proof -
  obtain d cn where d: "server_runs fst sample_base 2 (d :: (unit, sample_db, unit) dispatcher)" "ds_heap d = [50 \<mapsto> cn]" "dp_pending cn" "dp_deadline cn" using sample_accepts .
  have "pend d = {50}" using d(2,3) by (auto simp: pend_def)
  then have "cloak_dispatcher_conn_count d = 1" "cloak_dispatcher_pending_count d = 1" "timed cn" using connections_accounted[OF d(1)] d(2) by auto
  then show ?thesis using d(1,2) by blast
qed

end
