(* ===== verification/Reactor.thy ===== *)
theory Reactor
  imports BinHeap "HOL-Library.Word"
begin

unbundle bit_operations_syntax

text \<open>
  The timers of \<open>libcloak-common/src/reactor.c\<close>: a binary heap of pending timers by deadline, a table of slots that knows where in the heap each timer is, a free list through the slots, and handles made of a slot and
  its generation. The sift loops move a hole, as the C code does, and are related to the swapping loops of \<open>BinHeap\<close>. The callback and its argument are one opaque value; the clock and \<open>realloc\<close> are arguments.
\<close>

section \<open>State\<close>

definition TIMER_SLOT_BITS :: nat where "TIMER_SLOT_BITS = 20"
definition TIMER_SLOT_MASK :: u64 where "TIMER_SLOT_MASK = push_bit TIMER_SLOT_BITS 1 - 1"
definition TIMER_MAX_SLOTS :: nat where "TIMER_MAX_SLOTS = unat TIMER_SLOT_MASK"
definition TIMER_GEN_MAX :: u64 where "TIMER_GEN_MAX = push_bit (64 - TIMER_SLOT_BITS) 1 - 1"
definition CLOAK_TIMER_INVALID :: u64 where "CLOAK_TIMER_INVALID = 0"

record 'c timer_entry =
  te_deadline_ms :: u64
  te_id :: u64
  te_slot :: nat
  te_cb :: 'c

record timer_slot =
  ts_heap_pos :: nat
  ts_gen :: u64
  ts_next_free :: "nat option"  \<comment> \<open>\<open>TIMER_NO_SLOT\<close> is \<^const>\<open>None\<close>\<close>
  ts_in_use :: bool

record 'c reactor_timers =
  rt_timers :: "'c timer_entry list"
  rt_timer_cap :: nat
  rt_slots :: "timer_slot list"
  rt_slots_cap :: nat
  rt_free_slot :: "nat option"
  rt_cancel_probe_steps :: u64

section \<open>Operations\<close>

definition timer_place :: "'c reactor_timers \<Rightarrow> nat \<Rightarrow> 'c timer_entry \<Rightarrow> 'c reactor_timers" where
  "timer_place r i e =
     r\<lparr>rt_timers := (rt_timers r)[i := e], rt_slots := (rt_slots r)[te_slot e := (rt_slots r ! te_slot e)\<lparr>ts_heap_pos := i\<rparr>]\<rparr>"

function sift_up_hole :: "'c reactor_timers \<Rightarrow> nat \<Rightarrow> 'c timer_entry \<Rightarrow> nat \<Rightarrow> 'c reactor_timers \<times> nat" where
  \<comment> \<open>the loop of \<open>heap_sift_up\<close>, with the moves so far\<close>
  "sift_up_hole r i e moves =
     (if i > 0 then
        let p = (i - 1) div 2 in
        if te_deadline_ms (rt_timers r ! p) \<le> te_deadline_ms e then (timer_place r i e, moves)
        else sift_up_hole (timer_place r i (rt_timers r ! p)) p e (moves + 1)
      else (timer_place r i e, moves))"
  by pat_completeness auto

termination by (relation "measure (\<lambda>(_, i, _, _). i)") auto

definition heap_sift_up :: "'c reactor_timers \<Rightarrow> nat \<Rightarrow> 'c reactor_timers \<times> nat" where
  "heap_sift_up r i = sift_up_hole r i (rt_timers r ! i) 0"

definition earlier_child :: "'c timer_entry list \<Rightarrow> nat \<Rightarrow> nat" where
  "earlier_child ts i =
     (let left = 2 * i + 1; right = 2 * i + 2 in
      if right < length ts \<and> te_deadline_ms (ts ! right) < te_deadline_ms (ts ! left) then right else left)"

lemma earlier_child_range: "i < earlier_child ts i" "2 * i + 1 < length ts \<Longrightarrow> earlier_child ts i < length ts"
  by (auto simp: earlier_child_def Let_def)

lemma length_place [simp]: "length (rt_timers (timer_place r i e)) = length (rt_timers r)" "length (rt_slots (timer_place r i e)) = length (rt_slots r)"
  by (simp_all add: timer_place_def)

function sift_down_hole :: "'c reactor_timers \<Rightarrow> nat \<Rightarrow> 'c timer_entry \<Rightarrow> nat \<Rightarrow> 'c reactor_timers \<times> nat" where
  \<comment> \<open>the loop of \<open>heap_sift_down\<close>\<close>
  "sift_down_hole r i e moves =
     (if 2 * i + 1 \<ge> length (rt_timers r) then (timer_place r i e, moves)
      else
        let smallest = earlier_child (rt_timers r) i in
        if te_deadline_ms (rt_timers r ! smallest) \<ge> te_deadline_ms e then (timer_place r i e, moves)
        else sift_down_hole (timer_place r i (rt_timers r ! smallest)) smallest e (moves + 1))"
  by pat_completeness auto

termination
proof (relation "measure (\<lambda>(r, i, _, _). length (rt_timers r) - i)")
  fix r :: "'c reactor_timers" and i x and e :: "'c timer_entry" and m :: nat
  assume "\<not> length (rt_timers r) \<le> 2 * i + 1" "x = earlier_child (rt_timers r) i"
  then show "((timer_place r i (rt_timers r ! x), x, e, m + 1), r, i, e, m) \<in> measure (\<lambda>(r, i, _, _). length (rt_timers r) - i)"
    using earlier_child_range(1)[of i "rt_timers r"] by simp
qed simp

declare sift_up_hole.simps [simp del] sift_down_hole.simps [simp del]

definition heap_sift_down :: "'c reactor_timers \<Rightarrow> nat \<Rightarrow> 'c reactor_timers \<times> nat" where
  "heap_sift_down r i = sift_down_hole r i (rt_timers r ! i) 0"

definition heap_remove_at :: "'c reactor_timers \<Rightarrow> nat \<Rightarrow> 'c reactor_timers \<times> nat" where
  "heap_remove_at r pos =
     (let l = length (rt_timers r) - 1;
          r1 = r\<lparr>rt_timers := take l (rt_timers r)\<rparr>
      in
      if pos = l then (r1, 0)
      else
        let r2 = timer_place r1 pos (rt_timers r ! l) in
        case heap_sift_down r2 pos of (r3, moves) \<Rightarrow>
          (case (if moves = 0 then heap_sift_up r3 pos else (r3, moves)) of (r4, moves1) \<Rightarrow> (r4, moves1 + 1)))"

definition timer_slot_alloc :: "bool \<Rightarrow> 'c reactor_timers \<Rightarrow> (nat \<times> 'c reactor_timers) option" where
  \<comment> \<open>whether \<open>realloc\<close> would succeed\<close>
  "timer_slot_alloc mem_ok r =
     (case rt_free_slot r of
        Some s \<Rightarrow>
          Some (s, r\<lparr>rt_free_slot := ts_next_free (rt_slots r ! s), rt_slots := (rt_slots r)[s := (rt_slots r ! s)\<lparr>ts_in_use := True, ts_next_free := None\<rparr>]\<rparr>)
      | None \<Rightarrow>
          if length (rt_slots r) \<ge> TIMER_MAX_SLOTS then None
          else
            Option.bind
              (if length (rt_slots r) = rt_slots_cap r
               then let new_cap = (if rt_slots_cap r = 0 then 8 else rt_slots_cap r * 2);
                        new_cap = (if new_cap > TIMER_MAX_SLOTS then TIMER_MAX_SLOTS else new_cap)
                    in if mem_ok then Some (r\<lparr>rt_slots_cap := new_cap\<rparr>) else None
               else Some r)
              (\<lambda>r1. Some (length (rt_slots r1),
                 r1\<lparr>rt_slots := rt_slots r1 @ [\<lparr>ts_heap_pos = 0, ts_gen = 0, ts_next_free = None, ts_in_use = True\<rparr>]\<rparr>)))"

definition timer_slot_free :: "'c reactor_timers \<Rightarrow> nat \<Rightarrow> 'c reactor_timers" where
  "timer_slot_free r s =
     (let sl = (rt_slots r ! s)\<lparr>ts_in_use := False\<rparr> in
      if ts_gen sl < TIMER_GEN_MAX
      then r\<lparr>rt_slots := (rt_slots r)[s := sl\<lparr>ts_gen := ts_gen sl + 1, ts_next_free := rt_free_slot r\<rparr>], rt_free_slot := Some s\<rparr>
      else r\<lparr>rt_slots := (rt_slots r)[s := sl]\<rparr>)"

definition timer_heap_ensure_capacity :: "bool \<Rightarrow> 'c reactor_timers \<Rightarrow> 'c reactor_timers option" where
  "timer_heap_ensure_capacity mem_ok r =
     (if length (rt_timers r) < rt_timer_cap r then Some r
      else if mem_ok then Some (r\<lparr>rt_timer_cap := (if rt_timer_cap r = 0 then 8 else rt_timer_cap r * 2)\<rparr>)
      else None)"

definition timer_handle :: "u64 \<Rightarrow> nat \<Rightarrow> u64" where
  "timer_handle gen slot = push_bit TIMER_SLOT_BITS gen OR (of_nat slot + 1)"

definition cloak_reactor_timers_create :: "'c reactor_timers" where
  "cloak_reactor_timers_create = \<lparr>rt_timers = [], rt_timer_cap = 0, rt_slots = [], rt_slots_cap = 0, rt_free_slot = None, rt_cancel_probe_steps = 0\<rparr>"

definition cloak_reactor_add_timer :: "bool \<Rightarrow> bool \<Rightarrow> u64 \<Rightarrow> u64 \<Rightarrow> 'c option \<Rightarrow> 'c reactor_timers \<Rightarrow> u64 \<times> 'c reactor_timers" where
  \<comment> \<open>whether the two arrays can grow, and the clock\<close>
  "cloak_reactor_add_timer heap_mem slots_mem now delay_ms cb_opt r =
     (case cb_opt of
        None \<Rightarrow> (CLOAK_TIMER_INVALID, r)
      | Some cb \<Rightarrow>
          (case timer_heap_ensure_capacity heap_mem r of
             None \<Rightarrow> (CLOAK_TIMER_INVALID, r)
           | Some r1 \<Rightarrow>
               (case timer_slot_alloc slots_mem r1 of
                  None \<Rightarrow> (CLOAK_TIMER_INVALID, r1)
                | Some (slot, r2) \<Rightarrow>
                    let e = \<lparr>te_deadline_ms = now + delay_ms, te_id = timer_handle (ts_gen (rt_slots r2 ! slot)) slot, te_slot = slot, te_cb = cb\<rparr>;
                        idx = length (rt_timers r2);
                        r3 = timer_place (r2\<lparr>rt_timers := rt_timers r2 @ [e]\<rparr>) idx e
                    in (te_id e, fst (heap_sift_up r3 idx)))))"

definition cloak_reactor_cancel_timer :: "u64 \<Rightarrow> 'c reactor_timers \<Rightarrow> 'c reactor_timers" where
  "cloak_reactor_cancel_timer tid r =
     (if tid = CLOAK_TIMER_INVALID then r
      else
        let r1 = r\<lparr>rt_cancel_probe_steps := rt_cancel_probe_steps r + 1\<rparr>;
            low = unat (tid AND TIMER_SLOT_MASK)
        in
        if low = 0 then r1
        else
          let slot = low - 1 in
          if slot \<ge> length (rt_slots r1) then r1
          else
            let s = rt_slots r1 ! slot in
            if \<not> ts_in_use s \<or> ts_gen s \<noteq> drop_bit TIMER_SLOT_BITS tid then r1
            else
              (case heap_remove_at r1 (ts_heap_pos s) of (r2, n) \<Rightarrow>
                 timer_slot_free (r2\<lparr>rt_cancel_probe_steps := rt_cancel_probe_steps r2 + of_nat n\<rparr>) slot))"

definition cloak_reactor_pending_timers :: "'c reactor_timers \<Rightarrow> nat" where
  "cloak_reactor_pending_timers r = length (rt_timers r)"

definition cloak_reactor_cancel_probe_steps :: "'c reactor_timers \<Rightarrow> u64" where
  "cloak_reactor_cancel_probe_steps r = rt_cancel_probe_steps r"

definition expire_one :: "u64 \<Rightarrow> 'c reactor_timers \<Rightarrow> ('c timer_entry \<times> 'c reactor_timers) option" where
  \<comment> \<open>one turn of the loop of \<open>process_expired_timers\<close>, up to the callback; \<^const>\<open>None\<close> ends the loop\<close>
  "expire_one now r =
     (if rt_timers r = [] then None
      else if te_deadline_ms (rt_timers r ! 0) > now then None
      else let fired = rt_timers r ! 0 in Some (fired, timer_slot_free (fst (heap_remove_at r 0)) (te_slot fired)))"

partial_function (option) process_expired_timers ::
  "('c \<Rightarrow> 'c reactor_timers \<times> 'w \<Rightarrow> bool \<times> 'c reactor_timers \<times> 'w) \<Rightarrow> u64 \<Rightarrow> bool \<Rightarrow> 'c reactor_timers \<times> 'w \<Rightarrow> ('c reactor_timers \<times> 'w) option" where
  \<comment> \<open>a callback may add and cancel timers and stop the reactor, which it says; one that keeps adding timers that are due keeps the loop going\<close>
  "process_expired_timers cb now stopped st =
     (if stopped then Some st
      else
        (case expire_one now (fst st) of
           None \<Rightarrow> Some st
         | Some (fired, r1) \<Rightarrow> (case cb (te_cb fired) (r1, snd st) of (stop, st1) \<Rightarrow> process_expired_timers cb now stop st1)))"

definition compute_timeout_ms :: "u64 \<Rightarrow> 'c reactor_timers \<Rightarrow> int" where
  "compute_timeout_ms now r =
     (if rt_timers r = [] then - 1
      else if te_deadline_ms (rt_timers r ! 0) \<le> now then 0
      else let diff = te_deadline_ms (rt_timers r ! 0) - now in if uint diff > 2147483647 then 2147483647 else uint diff)"

definition effective_timeout_ms :: "int \<Rightarrow> int \<Rightarrow> int" where
  "effective_timeout_ms timer_timeout_ms caller_timeout_ms =
     (if timer_timeout_ms < 0 then caller_timeout_ms
      else if caller_timeout_ms < 0 then timer_timeout_ms
      else if timer_timeout_ms < caller_timeout_ms then timer_timeout_ms else caller_timeout_ms)"

section \<open>The hole-moving loops\<close>

abbreviation (input) due :: "'c timer_entry \<Rightarrow> u64" where "due \<equiv> te_deadline_ms"

definition placed :: "timer_slot list \<Rightarrow> 'c timer_entry list \<Rightarrow> nat option \<Rightarrow> bool" where
  \<comment> \<open>the slots know where their timers are, but for the one that is being moved\<close>
  "placed sl ts hole \<longleftrightarrow> distinct (map te_slot ts) \<and> (\<forall>j<length ts. te_slot (ts ! j) < length sl \<and> (Some j \<noteq> hole \<longrightarrow> ts_heap_pos (sl ! te_slot (ts ! j)) = j))"

definition same_slots :: "timer_slot list \<Rightarrow> timer_slot list \<Rightarrow> bool" where
  \<comment> \<open>equal but for the positions\<close>
  "same_slots sl1 sl \<longleftrightarrow> map (\<lambda>s. s\<lparr>ts_heap_pos := 0\<rparr>) sl1 = map (\<lambda>s. s\<lparr>ts_heap_pos := 0\<rparr>) sl"

lemma same_slots_simps [simp]: "same_slots sl sl" "same_slots (sl[i := (sl ! i)\<lparr>ts_heap_pos := p\<rparr>]) sl"
proof -
  show "same_slots sl sl" by (simp add: same_slots_def)
  have "(map (\<lambda>s. s\<lparr>ts_heap_pos := 0\<rparr>) sl)[i := (sl ! i)\<lparr>ts_heap_pos := 0\<rparr>] = map (\<lambda>s. s\<lparr>ts_heap_pos := 0\<rparr>) sl"
    by (cases "i < length sl") (simp_all add: list_update_same_conv list_update_beyond)
  then show "same_slots (sl[i := (sl ! i)\<lparr>ts_heap_pos := p\<rparr>]) sl" by (simp add: same_slots_def map_update)
qed

lemma same_slots_trans: "same_slots sl2 sl1 \<Longrightarrow> same_slots sl1 sl \<Longrightarrow> same_slots sl2 sl"
  by (simp add: same_slots_def)

lemma same_slotsD:
  assumes "same_slots sl1 sl"
  shows "length sl1 = length sl" "i < length sl \<Longrightarrow> ts_gen (sl1 ! i) = ts_gen (sl ! i) \<and> ts_next_free (sl1 ! i) = ts_next_free (sl ! i) \<and> ts_in_use (sl1 ! i) = ts_in_use (sl ! i)"
proof -
  show l: "length sl1 = length sl" using assms map_eq_imp_length_eq unfolding same_slots_def by blast
  assume i: "i < length sl"
  have "(map (\<lambda>s. s\<lparr>ts_heap_pos := 0\<rparr>) sl1) ! i = (map (\<lambda>s. s\<lparr>ts_heap_pos := 0\<rparr>) sl) ! i" using assms by (simp add: same_slots_def)
  then have "(sl1 ! i)\<lparr>ts_heap_pos := 0\<rparr> = (sl ! i)\<lparr>ts_heap_pos := 0\<rparr>" using i l by simp
  then show "ts_gen (sl1 ! i) = ts_gen (sl ! i) \<and> ts_next_free (sl1 ! i) = ts_next_free (sl ! i) \<and> ts_in_use (sl1 ! i) = ts_in_use (sl ! i)"
    by (cases "sl1 ! i"; cases "sl ! i") simp
qed

definition moved :: "'c reactor_timers \<Rightarrow> 'c reactor_timers \<Rightarrow> 'c timer_entry list \<Rightarrow> bool" where
  \<comment> \<open>the heap is now that list, the slots know it, and nothing else has changed\<close>
  "moved r r1 ts \<longleftrightarrow> rt_timers r1 = ts \<and> placed (rt_slots r1) ts None \<and> same_slots (rt_slots r1) (rt_slots r)
     \<and> rt_timer_cap r1 = rt_timer_cap r \<and> rt_slots_cap r1 = rt_slots_cap r \<and> rt_free_slot r1 = rt_free_slot r \<and> rt_cancel_probe_steps r1 = rt_cancel_probe_steps r"

lemma moved_trans: "moved r1 r2 ts2 \<Longrightarrow> moved r r1 ts1 \<Longrightarrow> moved r r2 ts2"
  unfolding moved_def by (auto intro: same_slots_trans)

lemma place_moved:
  assumes p: "placed (rt_slots r) ((rt_timers r)[i := e]) (Some i)" and i: "i < length (rt_timers r)"
  shows "moved r (timer_place r i e) ((rt_timers r)[i := e])"
proof -
  let ?ts = "(rt_timers r)[i := e]" and ?sl = "(rt_slots r)[te_slot e := (rt_slots r ! te_slot e)\<lparr>ts_heap_pos := i\<rparr>]"
  have d: "distinct (map te_slot ?ts)" using p by (simp add: placed_def)
  have e: "te_slot e < length (rt_slots r)" using p i unfolding placed_def by (metis length_list_update nth_list_update_eq)
  have "placed ?sl ?ts None"
    unfolding placed_def
  proof (intro conjI allI impI)
    fix j assume j: "j < length ?ts"
    show "te_slot (?ts ! j) < length ?sl" using p j by (simp add: placed_def)
    show "ts_heap_pos (?sl ! te_slot (?ts ! j)) = j"
    proof (cases "j = i")
      case True
      then show ?thesis using i e by simp
    next
      case False
      then have "te_slot (?ts ! j) \<noteq> te_slot (?ts ! i)" using d j i nth_eq_iff_index_eq[OF d, of j i] by simp
      then show ?thesis using p j False i by (simp add: placed_def)
    qed
  qed (rule d)
  then show ?thesis by (simp add: moved_def timer_place_def)
qed

lemma swap_hole:
  assumes i: "i < length ts" and q: "q < length ts" "q \<noteq> i"
  shows "swap_at (ts[i := e]) q i = (ts[i := ts ! q])[q := e]" "swap_at (ts[i := e]) i q = (ts[i := ts ! q])[q := e]"
  using assms by (auto simp: swap_at_def list_eq_iff_nth_eq nth_list_update)

lemma place_hole:
  \<comment> \<open>an element goes into the hole, and the hole is where it was\<close>
  assumes p: "placed (rt_slots r) ((rt_timers r)[i := e]) (Some i)" and i: "i < length (rt_timers r)" and q: "q < length (rt_timers r)" "q \<noteq> i"
  shows "placed (rt_slots (timer_place r i (rt_timers r ! q))) ((rt_timers (timer_place r i (rt_timers r ! q)))[q := e]) (Some q)"
proof -
  let ?ts = "(rt_timers r)[i := e]" and ?x = "rt_timers r ! q"
  let ?us = "((rt_timers r)[i := ?x])[q := e]" and ?sl = "(rt_slots r)[te_slot ?x := (rt_slots r ! te_slot ?x)\<lparr>ts_heap_pos := i\<rparr>]"
  have us: "?us = swap_at ?ts q i" using swap_hole[OF i q] by simp
  have m: "mset ?us = mset ?ts" unfolding us using i q by simp
  then have "mset (map te_slot ?us) = mset (map te_slot ?ts)" by (metis mset_map)
  then have d: "distinct (map te_slot ?us)" using p mset_eq_imp_distinct_iff unfolding placed_def by blast
  have d0: "distinct (map te_slot ?ts)" using p by (simp add: placed_def)
  have "placed ?sl ?us (Some q)"
    unfolding placed_def
  proof (intro conjI allI impI)
    fix j assume j: "j < length ?us"
    have "?us ! j \<in> set ?ts" using j nth_mem[of j ?us] mset_eq_setD[OF m] by auto
    then obtain k where "k < length ?ts" "?ts ! k = ?us ! j" by (auto simp: in_set_conv_nth)
    then show "te_slot (?us ! j) < length ?sl" using p unfolding placed_def by (metis length_list_update)
    assume jq: "Some j \<noteq> Some q"
    show "ts_heap_pos (?sl ! te_slot (?us ! j)) = j"
    proof (cases "j = i")
      case True
      have "te_slot ?x < length (rt_slots r)" using p q unfolding placed_def by (metis length_list_update nth_list_update_neq)
      then show ?thesis using True jq i by simp
    next
      case False
      then have x: "?us ! j = rt_timers r ! j" "?ts ! j = rt_timers r ! j" "?ts ! q = ?x" using jq q by simp_all
      have "te_slot (?ts ! j) \<noteq> te_slot (?ts ! q)" using nth_eq_iff_index_eq[OF d0, of j q] j q jq by simp
      then show ?thesis using x p j False unfolding placed_def by simp
    qed
  qed (rule d)
  then show ?thesis by (simp add: timer_place_def)
qed

lemma moved_place: "moved (timer_place r i x) r1 ts \<Longrightarrow> moved r r1 ts"
  unfolding moved_def by (auto simp: timer_place_def intro: same_slots_trans)

lemma sift_up_hole_ok:
  "placed (rt_slots r) ((rt_timers r)[i := e]) (Some i) \<Longrightarrow> i < length (rt_timers r) \<Longrightarrow>
    moved r (fst (sift_up_hole r i e m)) (sift_up due ((rt_timers r)[i := e]) i)"
proof (induction r i e m rule: sift_up_hole.induct)
  case (1 r i e m)
  let ?ts = "(rt_timers r)[i := e]" and ?p = "(i - 1) div 2"
  show ?case
  proof (cases "i = 0 \<or> due (rt_timers r ! ?p) \<le> due e")
    case True
    have "due (?ts ! parent i) \<le> due (?ts ! i)" if "0 < i" using True that 1(3) by (auto simp: parent_def)
    then have "sift_up due ?ts i = ?ts" by (simp add: sift_up.simps[of _ _ i])
    moreover have "fst (sift_up_hole r i e m) = timer_place r i e" using True by (auto simp: sift_up_hole.simps[of r i e m] Let_def)
    ultimately show ?thesis using place_moved[OF 1(2,3)] by simp
  next
    case False
    then have i: "0 < i" and p: "?p < length (rt_timers r)" "?p \<noteq> i" using 1(3) by auto
    let ?r = "timer_place r i (rt_timers r ! ?p)"
    have "moved ?r (fst (sift_up_hole ?r ?p e (m + 1))) (sift_up due ((rt_timers ?r)[?p := e]) ?p)"
      by (rule 1(1)[OF i refl _ place_hole[OF 1(2,3) p]]) (use False p in auto)
    moreover have "sift_up_hole r i e m = sift_up_hole ?r ?p e (m + 1)" using False by (simp add: sift_up_hole.simps[of r i e m] Let_def)
    moreover have "sift_up due ?ts i = sift_up due ((rt_timers ?r)[?p := e]) ?p"
      using False i p 1(3) swap_hole(1)[OF 1(3) p] by (simp add: sift_up.simps[of _ ?ts i] parent_def timer_place_def)
    ultimately show ?thesis using moved_place by metis
  qed
qed

lemma smallest_is_earlier:
  assumes "i < length ts"
  shows "smallest_child due (ts[i := e]) i
    = (if 2 * i + 1 \<ge> length ts then i else if due (ts ! earlier_child ts i) \<ge> due e then i else earlier_child ts i)"
  using assms by (auto simp: smallest_child_def earlier_child_def Let_def)

lemma sift_down_hole_ok:
  "placed (rt_slots r) ((rt_timers r)[i := e]) (Some i) \<Longrightarrow> i < length (rt_timers r) \<Longrightarrow>
    moved r (fst (sift_down_hole r i e m)) (sift_down due ((rt_timers r)[i := e]) i) \<and> m \<le> snd (sift_down_hole r i e m)
    \<and> (snd (sift_down_hole r i e m) = m \<longleftrightarrow> smallest_child due ((rt_timers r)[i := e]) i = i)"
proof (induction r i e m rule: sift_down_hole.induct)
  case (1 r i e m)
  let ?ts = "(rt_timers r)[i := e]" and ?c = "earlier_child (rt_timers r) i"
  note sm = smallest_is_earlier[OF 1(3), of e]
  show ?case
  proof (cases "2 * i + 1 \<ge> length (rt_timers r) \<or> due (rt_timers r ! ?c) \<ge> due e")
    case True
    then have s: "smallest_child due ?ts i = i" using sm by auto
    then have "sift_down due ?ts i = ?ts" by (simp add: sift_down.simps[of _ ?ts i] Let_def)
    moreover have "sift_down_hole r i e m = (timer_place r i e, m)" using True by (auto simp: sift_down_hole.simps[of r i e m] Let_def)
    ultimately show ?thesis using place_moved[OF 1(2,3)] s by simp
  next
    case False
    then have c: "?c < length (rt_timers r)" "?c \<noteq> i" using earlier_child_range[of i "rt_timers r"] by auto
    have s: "smallest_child due ?ts i = ?c" using sm False by auto
    let ?r = "timer_place r i (rt_timers r ! ?c)"
    have ih: "moved ?r (fst (sift_down_hole ?r ?c e (m + 1))) (sift_down due ((rt_timers ?r)[?c := e]) ?c) \<and> m + 1 \<le> snd (sift_down_hole ?r ?c e (m + 1))"
      using 1(1)[OF _ refl _ place_hole[OF 1(2,3) c]] False c by auto
    moreover have "sift_down_hole r i e m = sift_down_hole ?r ?c e (m + 1)" using False by (simp add: sift_down_hole.simps[of r i e m] Let_def)
    moreover have "sift_down due ?ts i = sift_down due ((rt_timers ?r)[?c := e]) ?c"
      using s c swap_hole(2)[OF 1(3) c] by (simp add: sift_down.simps[of _ ?ts i] Let_def timer_place_def)
    ultimately show ?thesis using moved_place[of r i "rt_timers r ! ?c"] s c(2) by (metis add_leD1 not_add_less1 less_add_one linorder_not_le)
  qed
qed

section \<open>Removal from anywhere in the heap\<close>

lemma sift_up_heap: "heap_ok key xs \<Longrightarrow> i < length xs \<Longrightarrow> sift_up key xs i = xs"
  by (simp add: sift_up.simps[of key xs i] heap_ok_def)

lemma remove_heap:
  fixes key :: "'a \<Rightarrow> 'k::linorder"
  assumes h: "heap_ok key xs" and k: "pos < length xs - 1"
  defines "ys \<equiv> (butlast xs)[pos := last xs]"
  shows "heap_ok key (if smallest_child key ys pos = pos then sift_up key (sift_down key ys pos) pos else sift_down key ys pos)"
proof -
  have len: "length ys = length xs - 1" by (simp add: ys_def)
  have nth: "ys ! j = (if j = pos then last xs else xs ! j)" if "j < length ys" for j using that len by (simp add: ys_def nth_butlast nth_list_update)
  have order: "key (xs ! parent j) \<le> key (xs ! j)" if "0 < j" "j < length ys" for j using h that len by (simp add: heap_ok_def)
  have pl: "parent j < length ys" if "0 < j" "j < length ys" for j using parent_less[OF that(1)] that(2) by simp
  have thru: "key (ys ! parent pos) \<le> key (ys ! j)" if "parent j = pos" "0 < pos" "0 < j" "j < length ys" for j
  proof -
    have "parent pos \<noteq> pos" "j \<noteq> pos" "pos < length ys" using parent_less[OF that(2)] parent_less[OF that(3)] that pl by auto
    then have "ys ! parent pos = xs ! parent pos" "ys ! j = xs ! j" using nth[OF pl[OF that(2)]] nth[OF that(4)] by simp_all
    then show ?thesis using order[OF that(3,4)] order[OF that(2) \<open>pos < length ys\<close>] that(1) by (metis order_trans)
  qed
  show ?thesis
  proof (cases "pos = 0 \<or> key (ys ! parent pos) \<le> key (ys ! pos)")
    case True
    have "heap_down key ys pos"
      unfolding heap_down_def
    proof (intro allI impI conjI)
      fix j assume j: "0 < j" "j < length ys"
      show "key (ys ! parent j) \<le> key (ys ! j)" if "parent j \<noteq> pos"
      proof (cases "j = pos")
        case True
        then show ?thesis using \<open>pos = 0 \<or> key (ys ! parent pos) \<le> key (ys ! pos)\<close> j by auto
      next
        case False
        then show ?thesis using order[OF j] nth[OF pl[OF j]] nth[OF j(2)] that by simp
      qed
      show "parent j = pos \<Longrightarrow> 0 < pos \<Longrightarrow> key (ys ! parent pos) \<le> key (ys ! j)" using thru j by simp
    qed
    then have ok: "heap_ok key (sift_down key ys pos)" by (rule heap_ok_sift_down)
    then show ?thesis using sift_up_heap[OF ok, of pos] k len by simp
  next
    case False
    then have pos: "0 < pos" "key (ys ! pos) < key (ys ! parent pos)" by auto
    have below: "key (ys ! pos) \<le> key (ys ! j)" if "0 < j" "j < length ys" "parent j = pos" for j using thru[OF that(3) pos(1) that(1,2)] pos(2) by simp
    have s: "smallest_child key ys pos = pos"
    proof (rule ccontr)
      assume n: "smallest_child key ys pos \<noteq> pos"
      then have c: "smallest_child key ys pos < length ys" "0 < smallest_child key ys pos" "parent (smallest_child key ys pos) = pos" using smallest_child_cases[of key ys pos] by auto
      show False using smallest_child_le(2)[OF c(2,1,3) n] below[OF c(2,1,3)] by simp
    qed
    have "heap_up key ys pos"
      unfolding heap_up_def
    proof (intro allI impI conjI)
      fix j assume j: "0 < j" "j < length ys"
      show "key (ys ! parent j) \<le> key (ys ! j)" if "j \<noteq> pos"
        using below[OF j] order[OF j] nth[OF pl[OF j]] nth[OF j(2)] that by (cases "parent j = pos") simp_all
      show "parent j = pos \<Longrightarrow> 0 < pos \<Longrightarrow> key (ys ! parent pos) \<le> key (ys ! j)" using thru j by simp
    qed
    then have "heap_ok key (sift_up key ys pos)" using k len by (intro heap_ok_sift_up) simp_all
    moreover have "sift_down key ys pos = ys" using s by (simp add: sift_down.simps[of key ys pos] Let_def)
    ultimately show ?thesis using s by simp
  qed
qed

lemma placed_hole: "placed sl ts None \<Longrightarrow> placed sl ts h"
  by (simp add: placed_def)

lemma placed_fill:
  assumes "placed (rt_slots r) (rt_timers r) None" "i < length (rt_timers r)"
  shows "placed (rt_slots r) ((rt_timers r)[i := rt_timers r ! i]) (Some i)"
  using assms(1) by (simp add: placed_hole)

lemma heap_sift_up_ok: "placed (rt_slots r) (rt_timers r) None \<Longrightarrow> i < length (rt_timers r) \<Longrightarrow> moved r (fst (heap_sift_up r i)) (sift_up due (rt_timers r) i)"
  using sift_up_hole_ok[OF placed_fill, of r i 0] by (simp add: heap_sift_up_def)

lemma heap_sift_down_ok:
  "placed (rt_slots r) (rt_timers r) None \<Longrightarrow> i < length (rt_timers r) \<Longrightarrow>
    moved r (fst (heap_sift_down r i)) (sift_down due (rt_timers r) i) \<and> (snd (heap_sift_down r i) = 0 \<longleftrightarrow> smallest_child due (rt_timers r) i = i)"
  using sift_down_hole_ok[OF placed_fill, of r i 0] by (simp add: heap_sift_down_def)

lemma moved_timers: "moved (r\<lparr>rt_timers := xs\<rparr>) r1 ts = moved r r1 ts"
  by (simp add: moved_def)

lemma mset_fill_last:
  assumes "pos < length xs - 1"
  shows "mset ((butlast xs)[pos := last xs]) = mset xs - {#xs ! pos#}"
proof -
  have xs: "xs = butlast xs @ [last xs]" using assms by (cases xs rule: rev_cases) auto
  have "mset ((butlast xs)[pos := last xs]) = add_mset (last xs) (mset (butlast xs) - {#xs ! pos#})" using assms by (simp add: mset_update nth_butlast)
  moreover have "xs ! pos \<in># mset (butlast xs)" using assms by (metis length_butlast nth_butlast nth_mem set_mset_mset)
  ultimately show ?thesis by (subst (3) xs) simp
qed

lemma placed_sub:
  assumes p: "placed sl ts None" and k: "pos < length ts - 1"
  shows "placed sl ((butlast ts)[pos := last ts]) (Some pos)"
proof -
  let ?us = "(butlast ts)[pos := last ts]"
  have "mset (map te_slot ?us) = mset (map te_slot ts) - {#te_slot (ts ! pos)#}"
    using mset_fill_last[OF k] k by (simp add: image_mset_Diff)
  then have "mset (map te_slot ts) = mset (te_slot (ts ! pos) # map te_slot ?us)" using k by (simp add: multiset_eq_iff)
  then have d: "distinct (map te_slot ?us)" using p mset_eq_imp_distinct_iff[of "map te_slot ts"] unfolding placed_def by (metis distinct.simps(2))
  have "te_slot (?us ! j) < length sl \<and> (Some j \<noteq> Some pos \<longrightarrow> ts_heap_pos (sl ! te_slot (?us ! j)) = j)" if j: "j < length ?us" for j
  proof -
    have "last ts = ts ! (length ts - 1)" using k by (intro last_conv_nth) auto
    then have "?us ! j = (if j = pos then ts ! (length ts - 1) else ts ! j)" using j by (simp add: nth_butlast nth_list_update)
    then show ?thesis using p j k by (auto simp: placed_def)
  qed
  then show ?thesis using d by (simp add: placed_def)
qed

lemma heap_remove_at_ok:
  assumes h: "heap_ok due (rt_timers r)" and p: "placed (rt_slots r) (rt_timers r) None" and k: "pos < length (rt_timers r)"
  obtains ts where "moved r (fst (heap_remove_at r pos)) ts" "heap_ok due ts" "mset (rt_timers r) = add_mset (rt_timers r ! pos) (mset ts)"
proof (cases "pos = length (rt_timers r) - 1")
  case True
  let ?ts = "butlast (rt_timers r)"
  have ne: "rt_timers r \<noteq> []" using k by auto
  have m: "moved r (fst (heap_remove_at r pos)) ?ts"
    using True p unfolding moved_def placed_def by (auto simp: heap_remove_at_def Let_def butlast_conv_take nth_butlast distinct_take simp flip: take_map)
  have h1: "heap_ok due ?ts" unfolding heap_ok_def
  proof (intro allI impI)
    fix i assume i: "0 < i" "i < length ?ts"
    then show "due (?ts ! parent i) \<le> due (?ts ! i)" using h parent_less[OF i(1)] unfolding heap_ok_def by (simp add: nth_butlast)
  qed
  have "mset (?ts @ [rt_timers r ! pos]) = mset (rt_timers r)" using True ne by (simp only: last_conv_nth[symmetric] append_butlast_last_id not_False_eq_True)
  then have "mset (rt_timers r) = add_mset (rt_timers r ! pos) (mset ?ts)" by simp
  then show thesis using that m h1 by blast
next
  case False
  then have k1: "pos < length (rt_timers r) - 1" using k by simp
  let ?r1 = "r\<lparr>rt_timers := butlast (rt_timers r)\<rparr>"
  define ys where "ys = (butlast (rt_timers r))[pos := last (rt_timers r)]"
  define r2 where "r2 = timer_place ?r1 pos (last (rt_timers r))"
  have m2: "moved r r2 ys" using place_moved[of ?r1 pos "last (rt_timers r)"] placed_sub[OF p k1] k1 by (simp add: r2_def ys_def moved_timers)
  then have t2: "rt_timers r2 = ys" "placed (rt_slots r2) (rt_timers r2) None" by (auto simp: moved_def)
  have l2: "pos < length (rt_timers r2)" using k1 t2(1) by (simp add: ys_def)
  obtain r3 n where d: "heap_sift_down r2 pos = (r3, n)" by (cases "heap_sift_down r2 pos")
  have m3: "moved r2 r3 (sift_down due ys pos)" "n = 0 \<longleftrightarrow> smallest_child due ys pos = pos" using heap_sift_down_ok[OF t2(2) l2] d t2(1) by auto
  have t3: "rt_timers r3 = sift_down due ys pos" "placed (rt_slots r3) (rt_timers r3) None" using m3 by (auto simp: moved_def)
  have m4: "moved r3 (fst (heap_sift_up r3 pos)) (sift_up due (sift_down due ys pos) pos)" using heap_sift_up_ok[OF t3(2), of pos] t3(1) l2 t2(1) by simp
  let ?zs = "if smallest_child due ys pos = pos then sift_up due (sift_down due ys pos) pos else sift_down due ys pos"
  have "last (rt_timers r) = rt_timers r ! (length (rt_timers r) - 1)" using k by (intro last_conv_nth) auto
  then have "fst (heap_remove_at r pos) = (if n = 0 then fst (heap_sift_up r3 pos) else r3)"
    using False d by (simp add: heap_remove_at_def Let_def butlast_conv_take r2_def split: prod.splits)
  then have m: "moved r (fst (heap_remove_at r pos)) ?zs" using moved_trans[OF m3(1) m2] moved_trans[OF m4 moved_trans[OF m3(1) m2]] m3(2) by auto
  have "heap_ok due ?zs" using remove_heap[OF h k1] unfolding ys_def .
  moreover have "mset ?zs = mset ys" using l2 t2(1) by (simp add: mset_sift_up mset_sift_down)
  then have "mset (rt_timers r) = add_mset (rt_timers r ! pos) (mset ?zs)" using mset_fill_last[OF k1] k by (simp add: ys_def)
  ultimately show thesis using that m by blast
qed

section \<open>The cost of a removal\<close>

lemma sift_up_hole_cost: "\<exists>k. snd (sift_up_hole r i e m) = m + k \<and> 2 ^ k \<le> i + 1"
proof (induction r i e m rule: sift_up_hole.induct)
  case (1 r i e m)
  let ?p = "(i - 1) div 2"
  show ?case
  proof (cases "i = 0 \<or> due (rt_timers r ! ?p) \<le> due e")
    case True
    then show ?thesis by (intro exI[of _ 0]) (auto simp: sift_up_hole.simps[of r i e m] Let_def)
  next
    case False
    then obtain k where k: "snd (sift_up_hole (timer_place r i (rt_timers r ! ?p)) ?p e (m + 1)) = m + 1 + k" "2 ^ k \<le> ?p + 1" using 1 by auto
    have "2 * (?p + 1) \<le> i + 1" using False by auto
    then have "2 ^ Suc k \<le> i + 1" using k(2) by simp
    moreover have "snd (sift_up_hole r i e m) = m + Suc k" using False k(1) by (simp add: sift_up_hole.simps[of r i e m] Let_def)
    ultimately show ?thesis by blast
  qed
qed

lemma sift_down_hole_cost: "i < length (rt_timers r) \<Longrightarrow> \<exists>k. snd (sift_down_hole r i e m) = m + k \<and> (i + 1) * 2 ^ k \<le> length (rt_timers r)"
proof (induction r i e m rule: sift_down_hole.induct)
  case (1 r i e m)
  let ?c = "earlier_child (rt_timers r) i"
  show ?case
  proof (cases "2 * i + 1 \<ge> length (rt_timers r) \<or> due (rt_timers r ! ?c) \<ge> due e")
    case True
    then show ?thesis using 1(2) by (intro exI[of _ 0]) (auto simp: sift_down_hole.simps[of r i e m] Let_def)
  next
    case False
    let ?r = "timer_place r i (rt_timers r ! ?c)"
    have "?c < length (rt_timers ?r)" using earlier_child_range(2)[of i "rt_timers r"] False by simp
    then obtain k where k: "snd (sift_down_hole ?r ?c e (m + 1)) = m + 1 + k" "(?c + 1) * 2 ^ k \<le> length (rt_timers r)" using 1(1)[OF _ refl] False by auto
    have "2 * (i + 1) \<le> ?c + 1" by (simp add: earlier_child_def Let_def)
    then have "2 * (i + 1) * 2 ^ k \<le> (?c + 1) * 2 ^ k" by (rule mult_right_mono) simp
    then have "(i + 1) * 2 ^ Suc k \<le> length (rt_timers r)" using k(2) by simp
    moreover have "snd (sift_down_hole r i e m) = m + Suc k" using False k(1) by (simp add: sift_down_hole.simps[of r i e m] Let_def)
    ultimately show ?thesis by blast
  qed
qed

lemma heap_remove_at_cost:
  assumes "pos < length (rt_timers r)"
  shows "2 ^ snd (heap_remove_at r pos) \<le> 2 * length (rt_timers r)"
proof (cases "pos = length (rt_timers r) - 1")
  case True
  then show ?thesis using assms by (cases "rt_timers r") (simp_all add: heap_remove_at_def Let_def)
next
  case False
  let ?l = "length (rt_timers r) - 1"
  let ?r2 = "timer_place (r\<lparr>rt_timers := take ?l (rt_timers r)\<rparr>) pos (rt_timers r ! ?l)"
  have pos: "pos < length (rt_timers ?r2)" "pos + 1 \<le> length (rt_timers r)" using assms False by auto
  obtain r3 n where d: "heap_sift_down ?r2 pos = (r3, n)" by (cases "heap_sift_down ?r2 pos")
  have "(pos + 1) * 2 ^ n \<le> length (rt_timers ?r2)" using sift_down_hole_cost[OF pos(1), of "rt_timers ?r2 ! pos" 0] d by (auto simp: heap_sift_down_def)
  then have n: "2 ^ n \<le> length (rt_timers r)" using le_add2[of "2 ^ n" "pos * 2 ^ n"] by simp
  obtain r4 u where s: "heap_sift_up r3 pos = (r4, u)" by (cases "heap_sift_up r3 pos")
  have "2 ^ u \<le> pos + 1" using sift_up_hole_cost[of r3 pos "rt_timers r3 ! pos" 0] s by (auto simp: heap_sift_up_def)
  then have u: "2 ^ u \<le> length (rt_timers r)" using pos(2) by simp
  have "snd (heap_remove_at r pos) = (if n = 0 then u else n) + 1" using False d s by (simp add: heap_remove_at_def Let_def)
  then show ?thesis using n u by simp
qed

section \<open>Handles\<close>

lemma timer_consts: "TIMER_SLOT_MASK = mask 20" "TIMER_MAX_SLOTS = 1048575" "TIMER_GEN_MAX = mask 44" "TIMER_SLOT_BITS = 20"
  by (simp_all add: TIMER_SLOT_MASK_def TIMER_MAX_SLOTS_def TIMER_GEN_MAX_def TIMER_SLOT_BITS_def mask_eq_exp_minus_1 push_bit_eq_mult)

lemma take_bit_small: "unat (w :: u64) < 2 ^ n \<Longrightarrow> take_bit n w = w"
  by (rule unsigned_word_eqI[where ?'a = nat]) (simp add: unsigned_take_bit_eq take_bit_nat_eq_self)

lemma handle_decode:
  assumes g: "gen \<le> TIMER_GEN_MAX" and s: "slot < TIMER_MAX_SLOTS"
  shows "unat (timer_handle gen slot AND TIMER_SLOT_MASK) = slot + 1" "drop_bit TIMER_SLOT_BITS (timer_handle gen slot) = gen" "timer_handle gen slot \<noteq> 0"
proof -
  let ?w = "of_nat slot + 1 :: u64"
  have u: "unat ?w = slot + 1" using s by (simp add: timer_consts unat_word_ariths unat_of_nat)
  have w: "take_bit 20 ?w = ?w" using u s by (intro take_bit_small) (simp add: timer_consts)
  have g44: "take_bit 44 gen = gen" using g by (intro take_bit_small) (simp add: timer_consts mask_eq_exp_minus_1 word_le_nat_alt)
  have "timer_handle gen slot AND TIMER_SLOT_MASK = take_bit 20 (push_bit 20 gen OR ?w)" by (simp add: timer_handle_def timer_consts take_bit_eq_mask)
  also have "\<dots> = ?w" using w by (simp add: take_bit_push_bit)
  finally have low: "timer_handle gen slot AND TIMER_SLOT_MASK = ?w" .
  then show l: "unat (timer_handle gen slot AND TIMER_SLOT_MASK) = slot + 1" using u by simp
  then show "timer_handle gen slot \<noteq> 0" by (auto simp: timer_handle_def)
  have "drop_bit 20 ?w = 0" using w by (metis drop_bit_take_bit take_bit_0 diff_self_eq_0)
  moreover have "drop_bit 20 (push_bit 20 gen) = take_bit 44 gen" by (rule bit_word_eqI) (simp add: bit_simps)
  ultimately show "drop_bit TIMER_SLOT_BITS (timer_handle gen slot) = gen" using g44 by (simp add: timer_handle_def timer_consts)
qed

lemma handle_encode:
  assumes "unat (tid AND TIMER_SLOT_MASK) \<noteq> 0"
  shows "timer_handle (drop_bit TIMER_SLOT_BITS tid) (unat (tid AND TIMER_SLOT_MASK) - 1) = tid"
proof -
  have "(of_nat (unat (tid AND TIMER_SLOT_MASK) - 1) :: u64) + 1 = of_nat (unat (tid AND TIMER_SLOT_MASK) - 1 + 1)" by simp
  also have "\<dots> = tid AND TIMER_SLOT_MASK" using assms by (simp del: of_nat_add of_nat_Suc)
  finally have "timer_handle (drop_bit TIMER_SLOT_BITS tid) (unat (tid AND TIMER_SLOT_MASK) - 1) = push_bit 20 (drop_bit 20 tid) OR take_bit 20 tid"
    by (simp add: timer_handle_def timer_consts take_bit_eq_mask)
  also have "\<dots> = tid" by (rule bit_word_eqI) (auto simp: bit_simps)
  finally show ?thesis .
qed

lemma handle_inj:
  assumes "timer_handle g s = timer_handle g1 s1" "g \<le> TIMER_GEN_MAX" "g1 \<le> TIMER_GEN_MAX" "s < TIMER_MAX_SLOTS" "s1 < TIMER_MAX_SLOTS"
  shows "g = g1 \<and> s = s1"
  using handle_decode(1,2)[OF assms(2,4)] handle_decode(1,2)[OF assms(3,5)] assms(1) by (metis add_right_cancel)

section \<open>The slot table\<close>

primrec free_chain :: "timer_slot list \<Rightarrow> nat option \<Rightarrow> nat list \<Rightarrow> bool" where
  "free_chain sl h [] \<longleftrightarrow> h = None"
| "free_chain sl h (s # fs) \<longleftrightarrow> h = Some s \<and> s < length sl \<and> \<not> ts_in_use (sl ! s) \<and> free_chain sl (ts_next_free (sl ! s)) fs"

lemma free_chain_update: "s \<notin> set fs \<Longrightarrow> free_chain (sl[s := x]) h fs = free_chain sl h fs"
  by (induction fs arbitrary: h) auto

lemma free_chain_append: "free_chain sl h fs \<Longrightarrow> free_chain (sl @ [x]) h fs"
  by (induction fs arbitrary: h) (auto simp: nth_append)

lemma free_chain_same: "same_slots sl1 sl \<Longrightarrow> free_chain sl1 h fs = free_chain sl h fs"
  by (induction fs arbitrary: h) (use same_slotsD in auto)

lemma free_chainD: "free_chain sl h fs \<Longrightarrow> s \<in> set fs \<Longrightarrow> s < length sl \<and> \<not> ts_in_use (sl ! s)"
  by (induction fs arbitrary: h) auto

definition timer_slots_ok :: "timer_slot list \<Rightarrow> nat option \<Rightarrow> 'c timer_entry set \<Rightarrow> nat list \<Rightarrow> u64 set \<Rightarrow> bool" where
  \<comment> \<open>the slots in use are those of the pending timers, the free ones are chained, and every handle issued so far is of a generation that its slot has had\<close>
  "timer_slots_ok sl h E fs U \<longleftrightarrow> length sl \<le> TIMER_MAX_SLOTS
     \<and> (\<forall>s<length sl. ts_gen (sl ! s) \<le> TIMER_GEN_MAX \<and> (ts_in_use (sl ! s) \<longleftrightarrow> s \<in> te_slot ` E))
     \<and> (\<forall>e\<in>E. te_slot e < length sl \<and> te_id e = timer_handle (ts_gen (sl ! te_slot e)) (te_slot e))
     \<and> free_chain sl h fs \<and> distinct fs
     \<and> (\<forall>t\<in>U. \<exists>g s. t = timer_handle g s \<and> s < length sl \<and> g \<le> ts_gen (sl ! s) \<and> (s \<in> set fs \<longrightarrow> g < ts_gen (sl ! s)))"

lemma timer_slots_okD:
  assumes "timer_slots_ok sl h E fs U"
  shows "length sl \<le> TIMER_MAX_SLOTS" "s < length sl \<Longrightarrow> ts_gen (sl ! s) \<le> TIMER_GEN_MAX" "s < length sl \<Longrightarrow> ts_in_use (sl ! s) \<longleftrightarrow> s \<in> te_slot ` E"
    "e \<in> E \<Longrightarrow> te_slot e < length sl" "e \<in> E \<Longrightarrow> te_id e = timer_handle (ts_gen (sl ! te_slot e)) (te_slot e)"
    "free_chain sl h fs" "distinct fs"
    "t \<in> U \<Longrightarrow> \<exists>g s. t = timer_handle g s \<and> s < length sl \<and> g \<le> ts_gen (sl ! s) \<and> (s \<in> set fs \<longrightarrow> g < ts_gen (sl ! s))"
  using assms unfolding timer_slots_ok_def by blast+

lemma timer_slots_ok_same:
  assumes "timer_slots_ok sl h E fs U" and same: "same_slots sl1 sl"
  shows "timer_slots_ok sl1 h E fs U"
proof -
  have g: "ts_gen (sl1 ! s) = ts_gen (sl ! s)" "ts_in_use (sl1 ! s) = ts_in_use (sl ! s)" if "s < length sl" for s using same_slotsD(2)[OF same that] by auto
  show ?thesis using assms(1) unfolding timer_slots_ok_def by (simp add: free_chain_same[OF same] same_slotsD(1)[OF same] g cong: conj_cong)
qed

lemma timer_slots_ok_ids:
  assumes "timer_slots_ok sl h E fs U" "e \<in> E" "e1 \<in> E" "te_id e = te_id e1"
  shows "te_slot e = te_slot e1"
proof -
  have s: "te_slot e < length sl" "te_slot e1 < length sl" "length sl \<le> TIMER_MAX_SLOTS" using assms by (auto simp: timer_slots_ok_def)
  have g: "ts_gen (sl ! te_slot e) \<le> TIMER_GEN_MAX" "ts_gen (sl ! te_slot e1) \<le> TIMER_GEN_MAX" using assms(1) s by (auto simp: timer_slots_ok_def)
  have "timer_handle (ts_gen (sl ! te_slot e)) (te_slot e) = timer_handle (ts_gen (sl ! te_slot e1)) (te_slot e1)" using assms by (simp add: timer_slots_ok_def)
  then show ?thesis using handle_inj[OF _ g] s by simp
qed

lemma timer_slots_ok_release:
  assumes ok: "timer_slots_ok sl h E fs U" and e: "e \<in> E" and inj: "inj_on te_slot E"
    and x: "\<not> ts_in_use x" "ts_gen x \<le> TIMER_GEN_MAX" "ts_gen (sl ! te_slot e) \<le> ts_gen x"
    and c: "fs1 = fs \<and> h1 = h \<or> fs1 = te_slot e # fs \<and> h1 = Some (te_slot e) \<and> ts_next_free x = h \<and> ts_gen (sl ! te_slot e) < ts_gen x"
  shows "timer_slots_ok (sl[te_slot e := x]) h1 (E - {e}) fs1 U"
proof -
  let ?s = "te_slot e" and ?sl = "sl[te_slot e := x]"
  have s: "?s < length sl" "ts_in_use (sl ! ?s)" using timer_slots_okD(3,4)[OF ok] e by auto
  have nfs: "?s \<notin> set fs" using s free_chainD[OF timer_slots_okD(6)[OF ok]] by blast
  have other: "te_slot a \<noteq> ?s" if "a \<in> E - {e}" for a using inj e that unfolding inj_on_def by blast
  have busy: "t \<in> te_slot ` (E - {e}) \<longleftrightarrow> t \<in> te_slot ` E \<and> t \<noteq> ?s" for t using inj_on_image_set_diff[OF inj, of E "{e}"] e by simp
  have 1: "ts_gen (?sl ! t) \<le> TIMER_GEN_MAX \<and> (ts_in_use (?sl ! t) \<longleftrightarrow> t \<in> te_slot ` (E - {e}))" if "t < length ?sl" for t
    using timer_slots_okD(2,3)[OF ok, of t] that x s unfolding busy by (cases "t = ?s") simp_all
  have 2: "te_slot a < length ?sl \<and> te_id a = timer_handle (ts_gen (?sl ! te_slot a)) (te_slot a)" if "a \<in> E - {e}" for a
    using timer_slots_okD(4,5)[OF ok, of a] that other[OF that] by simp
  note fc = timer_slots_okD(6,7)[OF ok]
  have 3: "free_chain ?sl h1 fs1" "distinct fs1" using fc c nfs s x(1) by (auto simp: free_chain_update)
  have 4: "\<exists>g t. u = timer_handle g t \<and> t < length ?sl \<and> g \<le> ts_gen (?sl ! t) \<and> (t \<in> set fs1 \<longrightarrow> g < ts_gen (?sl ! t))" if u: "u \<in> U" for u
  proof -
    obtain g t where gt: "u = timer_handle g t" "t < length sl" "g \<le> ts_gen (sl ! t)" "t \<in> set fs \<longrightarrow> g < ts_gen (sl ! t)" using timer_slots_okD(8)[OF ok u] by blast
    have "g \<le> ts_gen (?sl ! t) \<and> (t \<in> set fs1 \<longrightarrow> g < ts_gen (?sl ! t))" using gt c nfs x(3) s by (cases "t = ?s") auto
    then show ?thesis using gt by auto
  qed
  have "length ?sl \<le> TIMER_MAX_SLOTS" using timer_slots_okD(1)[OF ok] by simp
  then show ?thesis using 1 2 3 4 unfolding timer_slots_ok_def by blast
qed

lemma slot_free_ok:
  assumes ok: "timer_slots_ok (rt_slots r) (rt_free_slot r) E fs U" and e: "e \<in> E" and inj: "inj_on te_slot E"
  obtains fs1 where "timer_slots_ok (rt_slots (timer_slot_free r (te_slot e))) (rt_free_slot (timer_slot_free r (te_slot e))) (E - {e}) fs1 U"
proof (cases "ts_gen (rt_slots r ! te_slot e) < TIMER_GEN_MAX")
  case True
  then have g: "ts_gen (rt_slots r ! te_slot e) < ts_gen (rt_slots r ! te_slot e) + 1" "ts_gen (rt_slots r ! te_slot e) + 1 \<le> TIMER_GEN_MAX"
    by uint_arith+
  show thesis by (rule that[of "te_slot e # fs"]) (use timer_slots_ok_release[OF ok e inj] g True in \<open>simp add: timer_slot_free_def Let_def\<close>)
next
  case False
  have "ts_gen (rt_slots r ! te_slot e) \<le> TIMER_GEN_MAX" using timer_slots_okD(2,4)[OF ok] e by blast
  then show thesis using False by (intro that[of fs]) (use timer_slots_ok_release[OF ok e inj, of _ fs "rt_free_slot r"] in \<open>simp add: timer_slot_free_def Let_def\<close>)
qed

lemma timer_slots_ok_take:
  assumes ok: "timer_slots_ok sl (Some s) E fs U" and x: "ts_in_use x" "ts_gen x = ts_gen (sl ! s)" and e: "te_slot e = s" "te_id e = timer_handle (ts_gen x) s"
  shows "s < length sl" "s \<notin> te_slot ` E" "te_id e \<notin> U" "timer_slots_ok (sl[s := x]) (ts_next_free (sl ! s)) (insert e E) (tl fs) (insert (te_id e) U)"
proof -
  let ?sl = "sl[s := x]"
  obtain fs1 where fs: "fs = s # fs1" using timer_slots_okD(6)[OF ok] by (cases fs) auto
  have c: "s < length sl" "\<not> ts_in_use (sl ! s)" "free_chain sl (ts_next_free (sl ! s)) fs1" "s \<notin> set fs1" "distinct fs1" using timer_slots_okD(6,7)[OF ok] fs by auto
  then show s: "s < length sl" "s \<notin> te_slot ` E" using timer_slots_okD(3)[OF ok, of s] by auto
  note max = timer_slots_okD(1)[OF ok]
  show "te_id e \<notin> U"
  proof
    assume "te_id e \<in> U"
    then obtain g t where gt: "te_id e = timer_handle g t" "t < length sl" "g \<le> ts_gen (sl ! t)" "t \<in> set fs \<longrightarrow> g < ts_gen (sl ! t)" using timer_slots_okD(8)[OF ok] by blast
    then have "ts_gen x = g \<and> s = t" using timer_slots_okD(2)[OF ok] s(1) max x(2) e(2) by (intro handle_inj) (auto intro: order_trans)
    then show False using gt(4) fs x(2) by auto
  qed
  have 1: "ts_gen (?sl ! t) \<le> TIMER_GEN_MAX \<and> (ts_in_use (?sl ! t) \<longleftrightarrow> t \<in> te_slot ` insert e E)" if "t < length ?sl" for t
    using timer_slots_okD(2,3)[OF ok, of t] that x e s by (cases "t = s") simp_all
  have 2: "te_slot a < length ?sl \<and> te_id a = timer_handle (ts_gen (?sl ! te_slot a)) (te_slot a)" if "a \<in> insert e E" for a
  proof (cases "a = e")
    case False
    then have a: "a \<in> E" using that by simp
    then have "te_slot a \<noteq> s" using s(2) by blast
    then show ?thesis using timer_slots_okD(4,5)[OF ok a] by simp
  qed (use e s in simp)
  have 3: "free_chain ?sl (ts_next_free (sl ! s)) fs1" using c by (simp add: free_chain_update)
  have 4: "\<exists>g t. u = timer_handle g t \<and> t < length ?sl \<and> g \<le> ts_gen (?sl ! t) \<and> (t \<in> set fs1 \<longrightarrow> g < ts_gen (?sl ! t))" if u: "u \<in> insert (te_id e) U" for u
  proof (cases "u = te_id e")
    case True
    then show ?thesis using e(2) s(1) c(4) by (intro exI[of _ "ts_gen x"] exI[of _ s]) simp
  next
    case False
    then obtain g t where gt: "u = timer_handle g t" "t < length sl" "g \<le> ts_gen (sl ! t)" "t \<in> set fs \<longrightarrow> g < ts_gen (sl ! t)" using timer_slots_okD(8)[OF ok] u by blast
    then show ?thesis using fs x(2) by (intro exI[of _ g] exI[of _ t]) (cases "t = s"; simp)
  qed
  have "length ?sl \<le> TIMER_MAX_SLOTS" using max by simp
  then show "timer_slots_ok ?sl (ts_next_free (sl ! s)) (insert e E) (tl fs) (insert (te_id e) U)" using 1 2 3 4 c(5) fs unfolding timer_slots_ok_def by auto
qed

lemma timer_slots_ok_new:
  assumes ok: "timer_slots_ok sl h E fs U" and l: "length sl < TIMER_MAX_SLOTS" and x: "ts_in_use x" "ts_gen x \<le> TIMER_GEN_MAX"
    and e: "te_slot e = length sl" "te_id e = timer_handle (ts_gen x) (length sl)"
  shows "length sl \<notin> te_slot ` E" "te_id e \<notin> U" "timer_slots_ok (sl @ [x]) h (insert e E) fs (insert (te_id e) U)"
proof -
  let ?sl = "sl @ [x]"
  show n: "length sl \<notin> te_slot ` E" using timer_slots_okD(4)[OF ok] by (metis image_iff less_irrefl)
  show "te_id e \<notin> U"
  proof
    assume "te_id e \<in> U"
    then obtain g t where gt: "te_id e = timer_handle g t" "t < length sl" "g \<le> ts_gen (sl ! t)" using timer_slots_okD(8)[OF ok] by blast
    then have "ts_gen x = g \<and> length sl = t" using timer_slots_okD(2)[OF ok] l x(2) e(2) by (intro handle_inj) (auto intro: order_trans)
    then show False using gt(2) by simp
  qed
  have 1: "ts_gen (?sl ! t) \<le> TIMER_GEN_MAX \<and> (ts_in_use (?sl ! t) \<longleftrightarrow> t \<in> te_slot ` insert e E)" if "t < length ?sl" for t
    using timer_slots_okD(2,3)[OF ok, of t] that x e n by (cases "t = length sl") (simp_all add: nth_append)
  have 2: "te_slot a < length ?sl \<and> te_id a = timer_handle (ts_gen (?sl ! te_slot a)) (te_slot a)" if "a \<in> insert e E" for a
    using timer_slots_okD(4,5)[OF ok, of a] that e by (cases "a = e") (simp_all add: nth_append)
  have 3: "free_chain ?sl h fs" "distinct fs" using timer_slots_okD(6,7)[OF ok] by (simp_all add: free_chain_append)
  have nf: "length sl \<notin> set fs" using free_chainD[OF timer_slots_okD(6)[OF ok]] by blast
  have 4: "\<exists>g t. u = timer_handle g t \<and> t < length ?sl \<and> g \<le> ts_gen (?sl ! t) \<and> (t \<in> set fs \<longrightarrow> g < ts_gen (?sl ! t))" if u: "u \<in> insert (te_id e) U" for u
  proof (cases "u = te_id e")
    case True
    then show ?thesis using e(2) nf by (intro exI[of _ "ts_gen x"] exI[of _ "length sl"]) simp
  next
    case False
    then obtain g t where gt: "u = timer_handle g t" "t < length sl" "g \<le> ts_gen (sl ! t)" "t \<in> set fs \<longrightarrow> g < ts_gen (sl ! t)" using timer_slots_okD(8)[OF ok] u by blast
    then show ?thesis by (intro exI[of _ g] exI[of _ t]) (simp add: nth_append)
  qed
  have "length ?sl \<le> TIMER_MAX_SLOTS" using l by simp
  then show "timer_slots_ok ?sl h (insert e E) fs (insert (te_id e) U)" using 1 2 3 4 unfolding timer_slots_ok_def by blast
qed

lemma slot_alloc_cases:
  assumes "timer_slot_alloc mem_ok r = Some (slot, r1)"
  obtains (reused) "rt_free_slot r = Some slot" "rt_slots r1 = (rt_slots r)[slot := (rt_slots r ! slot)\<lparr>ts_in_use := True, ts_next_free := None\<rparr>]"
      "rt_free_slot r1 = ts_next_free (rt_slots r ! slot)" "rt_timers r1 = rt_timers r"
    | (fresh) "slot = length (rt_slots r)" "length (rt_slots r) < TIMER_MAX_SLOTS"
      "rt_slots r1 = rt_slots r @ [\<lparr>ts_heap_pos = 0, ts_gen = 0, ts_next_free = None, ts_in_use = True\<rparr>]" "rt_free_slot r1 = rt_free_slot r" "rt_timers r1 = rt_timers r"
proof (cases "rt_free_slot r")
  case None
  then have "length (rt_slots r) < TIMER_MAX_SLOTS" using assms by (auto simp: timer_slot_alloc_def split: if_splits)
  then show thesis using fresh None assms by (auto simp: timer_slot_alloc_def Let_def split: if_splits)
next
  case (Some s)
  then show thesis using reused assms by (auto simp: timer_slot_alloc_def)
qed

lemma slot_alloc_ok:
  fixes e :: "'c timer_entry"
  assumes ok: "timer_slots_ok (rt_slots r) (rt_free_slot r) E fs U" and a: "timer_slot_alloc mem_ok r = Some (slot, r1)"
    and e: "te_slot e = slot" "te_id e = timer_handle (ts_gen (rt_slots r1 ! slot)) slot"
  shows "slot < length (rt_slots r1)" "slot \<notin> te_slot ` E" "rt_timers r1 = rt_timers r"
    "\<forall>s<length (rt_slots r). s < length (rt_slots r1) \<and> ts_heap_pos (rt_slots r1 ! s) = ts_heap_pos (rt_slots r ! s)"
    "te_id e \<notin> U" "te_id e \<noteq> 0"
    "\<exists>fs1. timer_slots_ok (rt_slots r1) (rt_free_slot r1) (insert e E) fs1 (insert (te_id e) U)"
proof -
  have "slot < length (rt_slots r1) \<and> slot \<notin> te_slot ` E \<and> rt_timers r1 = rt_timers r
    \<and> (\<forall>s<length (rt_slots r). s < length (rt_slots r1) \<and> ts_heap_pos (rt_slots r1 ! s) = ts_heap_pos (rt_slots r ! s))
    \<and> te_id e \<notin> U \<and> (\<exists>fs1. timer_slots_ok (rt_slots r1) (rt_free_slot r1) (insert e E) fs1 (insert (te_id e) U))"
    using a
  proof (cases rule: slot_alloc_cases)
    case reused
    let ?x = "(rt_slots r ! slot)\<lparr>ts_in_use := True, ts_next_free := None\<rparr>"
    have okr: "timer_slots_ok (rt_slots r) (Some slot) E fs U" using ok reused(1) by simp
    have l: "slot < length (rt_slots r)" using timer_slots_okD(6)[OF okr] by (cases fs) auto
    then have x: "ts_in_use ?x" "ts_gen ?x = ts_gen (rt_slots r ! slot)" "te_id e = timer_handle (ts_gen ?x) slot" using e(2) reused(2) by auto
    note t = timer_slots_ok_take[OF okr x(1,2) e(1) x(3)]
    show ?thesis using t reused(2-) by (auto simp: nth_list_update)
  next
    case fresh
    let ?x = "\<lparr>ts_heap_pos = 0, ts_gen = 0, ts_next_free = None, ts_in_use = True\<rparr>"
    have x: "ts_in_use ?x" "ts_gen ?x \<le> TIMER_GEN_MAX" "te_slot e = length (rt_slots r)" "te_id e = timer_handle (ts_gen ?x) (length (rt_slots r))" using e fresh by auto
    note t = timer_slots_ok_new[OF ok fresh(2) x]
    show ?thesis using t fresh(1,3-) by (auto simp: nth_append)
  qed
  then show *: "slot < length (rt_slots r1)" "slot \<notin> te_slot ` E" "rt_timers r1 = rt_timers r"
    "\<forall>s<length (rt_slots r). s < length (rt_slots r1) \<and> ts_heap_pos (rt_slots r1 ! s) = ts_heap_pos (rt_slots r ! s)"
    "te_id e \<notin> U" "\<exists>fs1. timer_slots_ok (rt_slots r1) (rt_free_slot r1) (insert e E) fs1 (insert (te_id e) U)" by blast+
  then obtain fs1 where ok1: "timer_slots_ok (rt_slots r1) (rt_free_slot r1) (insert e E) fs1 (insert (te_id e) U)" by blast
  have "ts_gen (rt_slots r1 ! slot) \<le> TIMER_GEN_MAX" "slot < TIMER_MAX_SLOTS" using timer_slots_okD(1,2)[OF ok1] *(1) by (blast, force)
  then show "te_id e \<noteq> 0" using handle_decode(3) e(2) by simp
qed

section \<open>The timers as a table\<close>

definition timer_table :: "'c timer_entry list \<Rightarrow> u64 \<rightharpoonup> u64 \<times> 'c" where
  "timer_table ts = map_of (map (\<lambda>e. (te_id e, te_deadline_ms e, te_cb e)) ts)"

lemma timer_table_set:
  assumes "distinct (map te_id ts)"
  shows "timer_table ts t = Some (d, c) \<longleftrightarrow> (\<exists>e\<in>set ts. te_id e = t \<and> te_deadline_ms e = d \<and> te_cb e = c)"
  using assms unfolding timer_table_def by (subst map_of_eq_Some_iff) (auto simp: comp_def)

lemma timer_table_perm: "distinct (map te_id ts) \<Longrightarrow> mset us = mset ts \<Longrightarrow> timer_table us = timer_table ts"
proof -
  assume d: "distinct (map te_id ts)" and m: "mset us = mset ts"
  have "mset (map te_id us) = mset (map te_id ts)" using m by simp
  then have "distinct (map te_id us)" using d mset_eq_imp_distinct_iff by blast
  then show ?thesis using d mset_eq_setD[OF m] unfolding timer_table_def by (subst map_of_inject_set) (auto simp: comp_def)
qed

lemma timer_table_Cons: "timer_table (e # ts) = (timer_table ts)(te_id e \<mapsto> (te_deadline_ms e, te_cb e))"
  by (simp add: timer_table_def)

lemma timer_table_None: "te_id e \<notin> te_id ` set ts \<Longrightarrow> timer_table ts (te_id e) = None"
  by (auto simp: timer_table_def map_of_eq_None_iff)

definition timers_inv :: "'c reactor_timers \<Rightarrow> nat list \<Rightarrow> u64 set \<Rightarrow> bool" where
  "timers_inv r fs U \<longleftrightarrow> heap_ok due (rt_timers r) \<and> placed (rt_slots r) (rt_timers r) None \<and> timer_slots_ok (rt_slots r) (rt_free_slot r) (set (rt_timers r)) fs U"

lemma timers_inv_inj: "timers_inv r fs U \<Longrightarrow> inj_on te_slot (set (rt_timers r))"
  by (simp add: timers_inv_def placed_def distinct_map)

lemma timers_inv_ids:
  assumes "timers_inv r fs U"
  shows "distinct (map te_id (rt_timers r))"
proof -
  have d: "distinct (rt_timers r)" using assms by (simp add: timers_inv_def placed_def distinct_map)
  moreover have "inj_on te_id (set (rt_timers r))" using timers_inv_inj[OF assms] timer_slots_ok_ids assms unfolding inj_on_def timers_inv_def by metis
  ultimately show ?thesis by (simp add: distinct_map)
qed

lemma slot_free_slots [simp]:
  "length (rt_slots (timer_slot_free r s)) = length (rt_slots r)" "ts_heap_pos (rt_slots (timer_slot_free r s) ! i) = ts_heap_pos (rt_slots r ! i)" "rt_timers (timer_slot_free r s) = rt_timers r"
  by (cases "i = s \<and> s < length (rt_slots r)"; auto simp: timer_slot_free_def Let_def nth_list_update list_update_beyond)+

lemma removed_inv:
  \<comment> \<open>the entry is taken from the heap, and then its slot is given back\<close>
  fixes n :: u64
  assumes inv: "timers_inv r fs U" and k: "pos < length (rt_timers r)"
  defines "e \<equiv> rt_timers r ! pos"
  defines "r1 \<equiv> timer_slot_free ((fst (heap_remove_at r pos))\<lparr>rt_cancel_probe_steps := n\<rparr>) (te_slot e)"
  obtains fs1 where "timers_inv r1 fs1 U" "timer_table (rt_timers r1) = (timer_table (rt_timers r))(te_id e := None)" "length (rt_timers r) = Suc (length (rt_timers r1))"
proof -
  have i: "heap_ok due (rt_timers r)" "placed (rt_slots r) (rt_timers r) None" "timer_slots_ok (rt_slots r) (rt_free_slot r) (set (rt_timers r)) fs U" using inv by (auto simp: timers_inv_def)
  obtain ts where ts: "moved r (fst (heap_remove_at r pos)) ts" "heap_ok due ts" "mset (rt_timers r) = mset (e # ts)"
    using heap_remove_at_ok[OF i(1,2) k] by (metis e_def mset.simps(2))
  let ?r = "(fst (heap_remove_at r pos))\<lparr>rt_cancel_probe_steps := n\<rparr>"
  have rt: "rt_timers r1 = ts" using ts(1) by (simp add: r1_def timer_slot_free_def Let_def moved_def)
  have ids: "distinct (map te_id (e # ts))" "distinct (map te_slot (e # ts))"
    using timers_inv_ids[OF inv] i(2) ts(3) mset_eq_imp_distinct_iff[of "map te_id (rt_timers r)" "map te_id (e # ts)"] mset_eq_imp_distinct_iff[of "map te_slot (rt_timers r)" "map te_slot (e # ts)"]
    by (simp_all add: placed_def)
  have st: "set (rt_timers r) = insert e (set ts)" "e \<notin> set ts" using mset_eq_setD[OF ts(3)] ids(1) by auto
  have m: "rt_timers ?r = ts" "placed (rt_slots ?r) ts None" "same_slots (rt_slots ?r) (rt_slots r)" "rt_free_slot ?r = rt_free_slot r" using ts(1) by (auto simp: moved_def)
  have ok: "timer_slots_ok (rt_slots ?r) (rt_free_slot ?r) (set (rt_timers r)) fs U" using timer_slots_ok_same[OF i(3) m(3)] m(4) by simp
  obtain fs1 where ok1: "timer_slots_ok (rt_slots r1) (rt_free_slot r1) (set (rt_timers r) - {e}) fs1 U"
    using slot_free_ok[OF ok _ timers_inv_inj[OF inv], of e] st(1) unfolding r1_def by blast
  have "placed (rt_slots r1) ts None"
    using m(2) unfolding placed_def r1_def by simp
  then have "timers_inv r1 fs1 U" using ok1 ts(2) rt st by (simp add: timers_inv_def)
  moreover have "timer_table (rt_timers r) = timer_table (e # ts)" using timer_table_perm[OF ids(1)] ts(3) by blast
  then have "timer_table (rt_timers r1) = (timer_table (rt_timers r))(te_id e := None)" using rt ids(1) timer_table_None[of e ts] by (auto simp: timer_table_Cons)
  moreover have "length (rt_timers r) = Suc (length (rt_timers r1))" using mset_eq_length[OF ts(3)] rt by simp
  ultimately show thesis by (rule that)
qed

lemma placed_append:
  assumes p: "placed sl ts None" and sl: "\<forall>s<length sl. s < length sl1 \<and> ts_heap_pos (sl1 ! s) = ts_heap_pos (sl ! s)" and e: "te_slot e < length sl1" "te_slot e \<notin> te_slot ` set ts"
  shows "placed sl1 (ts @ [e]) (Some (length ts))"
proof -
  have "te_slot ((ts @ [e]) ! j) < length sl1 \<and> (Some j \<noteq> Some (length ts) \<longrightarrow> ts_heap_pos (sl1 ! te_slot ((ts @ [e]) ! j)) = j)" if j: "j < length (ts @ [e])" for j
    using p sl e(1) j by (cases "j = length ts") (simp_all add: placed_def nth_append)
  moreover have "distinct (map te_slot (ts @ [e]))" using p e(2) by (simp add: placed_def)
  ultimately show ?thesis unfolding placed_def by blast
qed

lemma added_inv:
  assumes inv: "timers_inv r fs U" and add: "cloak_reactor_add_timer hm sm now delay_ms cb r = (tid, r1)" "tid \<noteq> CLOAK_TIMER_INVALID"
  obtains c fs1 where "cb = Some c" "tid \<notin> U" "timers_inv r1 fs1 (insert tid U)"
    "timer_table (rt_timers r1) = (timer_table (rt_timers r))(tid \<mapsto> (now + delay_ms, c))" "length (rt_timers r1) = Suc (length (rt_timers r))"
proof -
  obtain c ra slot rb where c: "cb = Some c" "timer_heap_ensure_capacity hm r = Some ra" "timer_slot_alloc sm ra = Some (slot, rb)"
    using add by (auto simp: cloak_reactor_add_timer_def split: option.splits)
  define e where "e = \<lparr>te_deadline_ms = now + delay_ms, te_id = timer_handle (ts_gen (rt_slots rb ! slot)) slot, te_slot = slot, te_cb = c\<rparr>"
  have ra: "rt_timers ra = rt_timers r" "rt_slots ra = rt_slots r" "rt_free_slot ra = rt_free_slot r" using c(2) by (auto simp: timer_heap_ensure_capacity_def split: if_splits)
  have i: "heap_ok due (rt_timers r)" "placed (rt_slots r) (rt_timers r) None" "timer_slots_ok (rt_slots ra) (rt_free_slot ra) (set (rt_timers r)) fs U" using inv ra by (auto simp: timers_inv_def)
  have es: "te_slot e = slot" "te_id e = timer_handle (ts_gen (rt_slots rb ! slot)) slot" by (simp_all add: e_def)
  note al = slot_alloc_ok[OF i(3) c(3) es]
  let ?rc = "rb\<lparr>rt_timers := rt_timers rb @ [e]\<rparr>" and ?idx = "length (rt_timers rb)"
  let ?rd = "timer_place ?rc ?idx e"
  have p: "placed (rt_slots ?rc) (rt_timers ?rc) (Some ?idx)" using placed_append[OF i(2), of "rt_slots rb" e] al ra es by simp
  have m: "moved ?rc ?rd (rt_timers ?rc)" using place_moved[of ?rc ?idx e] p by simp
  then have pd: "placed (rt_slots ?rd) (rt_timers ?rd) None" "rt_timers ?rd = rt_timers r @ [e]" using al(3) ra by (simp_all add: moved_def)
  have r1: "r1 = fst (heap_sift_up ?rd ?idx)" "tid = te_id e" using add(1) c by (auto simp: cloak_reactor_add_timer_def Let_def e_def)
  have "moved ?rd r1 (bin_push due e (rt_timers r))" using heap_sift_up_ok[OF pd(1), of ?idx] pd(2) r1 al(3) ra by (simp add: bin_push_def)
  then have m1: "moved ?rc r1 (bin_push due e (rt_timers r))" using m by (rule moved_trans)
  then have t1: "rt_timers r1 = bin_push due e (rt_timers r)" by (simp add: moved_def)
  have ms: "mset (rt_timers r1) = mset (e # rt_timers r)" using t1 by simp
  obtain fs1 where "timer_slots_ok (rt_slots rb) (rt_free_slot rb) (insert e (set (rt_timers r))) fs1 (insert tid U)" using al(7) r1(2) by blast
  then have "timer_slots_ok (rt_slots r1) (rt_free_slot rb) (insert e (set (rt_timers r))) fs1 (insert tid U)" using timer_slots_ok_same m1 by (auto simp: moved_def)
  then have inv1: "timers_inv r1 fs1 (insert tid U)" using m1 bin_push_ok[OF i(1)] t1 mset_eq_setD[OF ms] by (simp add: timers_inv_def moved_def)
  have "distinct (map te_id (e # rt_timers r))"
    using timers_inv_ids[OF inv1] ms mset_eq_imp_distinct_iff[of "map te_id (rt_timers r1)" "map te_id (e # rt_timers r)"] by simp
  then have "timer_table (rt_timers r1) = timer_table (e # rt_timers r)" using timer_table_perm ms by blast
  then show thesis using that[OF c(1) _ inv1] al(5) r1(2) mset_eq_length[OF ms] by (simp add: timer_table_Cons e_def)
qed

lemma refused_inv:
  assumes inv: "timers_inv r fs U" and add: "cloak_reactor_add_timer hm sm now delay_ms cb r = (CLOAK_TIMER_INVALID, r1)"
  shows "timers_inv r1 fs U" "rt_timers r1 = rt_timers r"
proof -
  have "rt_timers r1 = rt_timers r \<and> rt_slots r1 = rt_slots r \<and> rt_free_slot r1 = rt_free_slot r"
  proof (cases "\<exists>c ra slot rb. cb = Some c \<and> timer_heap_ensure_capacity hm r = Some ra \<and> timer_slot_alloc sm ra = Some (slot, rb)")
    case True
    then obtain c ra slot rb where c: "cb = Some c" "timer_heap_ensure_capacity hm r = Some ra" "timer_slot_alloc sm ra = Some (slot, rb)" by blast
    have "timer_slots_ok (rt_slots ra) (rt_free_slot ra) (set (rt_timers r)) fs U" using inv c(2) by (auto simp: timers_inv_def timer_heap_ensure_capacity_def split: if_splits)
    from slot_alloc_ok(6)[OF this c(3), of "\<lparr>te_deadline_ms = now, te_id = timer_handle (ts_gen (rt_slots rb ! slot)) slot, te_slot = slot, te_cb = c\<rparr>"]
    have "fst (cloak_reactor_add_timer hm sm now delay_ms cb r) \<noteq> CLOAK_TIMER_INVALID" using c by (simp add: cloak_reactor_add_timer_def Let_def CLOAK_TIMER_INVALID_def)
    then show ?thesis using add by simp
  next
    case False
    then show ?thesis using add by (auto simp: cloak_reactor_add_timer_def timer_heap_ensure_capacity_def split: option.splits if_splits)
  qed
  then show "timers_inv r1 fs U" "rt_timers r1 = rt_timers r" using inv by (simp_all add: timers_inv_def)
qed

definition live_handle :: "u64 \<Rightarrow> 'c reactor_timers \<Rightarrow> bool" where
  \<comment> \<open>the handle passes the tests of \<open>cancel\<close>\<close>
  "live_handle tid r \<longleftrightarrow> unat (tid AND TIMER_SLOT_MASK) \<noteq> 0 \<and> unat (tid AND TIMER_SLOT_MASK) - 1 < length (rt_slots r)
     \<and> ts_in_use (rt_slots r ! (unat (tid AND TIMER_SLOT_MASK) - 1)) \<and> ts_gen (rt_slots r ! (unat (tid AND TIMER_SLOT_MASK) - 1)) = drop_bit TIMER_SLOT_BITS tid"

lemma pending_live:
  assumes inv: "timers_inv r fs U" and e: "e \<in> set (rt_timers r)"
  shows "live_handle (te_id e) r" "te_id e \<noteq> CLOAK_TIMER_INVALID"
proof -
  have ok: "timer_slots_ok (rt_slots r) (rt_free_slot r) (set (rt_timers r)) fs U" using inv by (simp add: timers_inv_def)
  note s = timer_slots_okD(4,5)[OF ok e]
  have "ts_gen (rt_slots r ! te_slot e) \<le> TIMER_GEN_MAX" "te_slot e < TIMER_MAX_SLOTS" using timer_slots_okD(1,2)[OF ok] s(1) by auto
  from handle_decode[OF this] show "live_handle (te_id e) r" "te_id e \<noteq> CLOAK_TIMER_INVALID"
    using s timer_slots_okD(3)[OF ok s(1)] e by (auto simp: live_handle_def CLOAK_TIMER_INVALID_def)
qed

lemma live_pending:
  assumes inv: "timers_inv r fs U" and l: "live_handle tid r"
  defines "pos \<equiv> ts_heap_pos (rt_slots r ! (unat (tid AND TIMER_SLOT_MASK) - 1))"
  shows "pos < length (rt_timers r)" "te_id (rt_timers r ! pos) = tid" "te_slot (rt_timers r ! pos) = unat (tid AND TIMER_SLOT_MASK) - 1"
proof -
  let ?s = "unat (tid AND TIMER_SLOT_MASK) - 1"
  have ok: "timer_slots_ok (rt_slots r) (rt_free_slot r) (set (rt_timers r)) fs U" and p: "placed (rt_slots r) (rt_timers r) None" using inv by (auto simp: timers_inv_def)
  have "?s \<in> te_slot ` set (rt_timers r)" using timer_slots_okD(3)[OF ok, of ?s] l by (simp add: live_handle_def)
  then obtain j where j: "j < length (rt_timers r)" "te_slot (rt_timers r ! j) = ?s" by (auto simp: in_set_conv_nth)
  then have "pos = j" using p by (auto simp: placed_def pos_def)
  then show "pos < length (rt_timers r)" "te_slot (rt_timers r ! pos) = ?s" using j by auto
  have "te_id (rt_timers r ! j) = timer_handle (drop_bit TIMER_SLOT_BITS tid) ?s" using timer_slots_okD(5)[OF ok, of "rt_timers r ! j"] j l by (simp add: live_handle_def)
  then show "te_id (rt_timers r ! pos) = tid" using handle_encode l \<open>pos = j\<close> by (simp add: live_handle_def)
qed

lemma cancelled_inv:
  assumes inv: "timers_inv r fs U"
  obtains fs1 where "timers_inv (cloak_reactor_cancel_timer tid r) fs1 U"
    "timer_table (rt_timers (cloak_reactor_cancel_timer tid r)) = (timer_table (rt_timers r))(tid := None)"
    "live_handle tid r \<or> rt_timers (cloak_reactor_cancel_timer tid r) = rt_timers r"
proof (cases "tid \<noteq> CLOAK_TIMER_INVALID \<and> live_handle tid r")
  case True
  let ?r = "r\<lparr>rt_cancel_probe_steps := rt_cancel_probe_steps r + 1\<rparr>" and ?s = "unat (tid AND TIMER_SLOT_MASK) - 1"
  let ?pos = "ts_heap_pos (rt_slots r ! ?s)"
  have inv1: "timers_inv ?r fs U" using inv by (simp add: timers_inv_def)
  note l = live_pending[OF inv conjunct2[OF True]]
  have lr: "?pos < length (rt_timers ?r)" using l(1) by simp
  obtain r2 k where h: "heap_remove_at ?r ?pos = (r2, k)" by (cases "heap_remove_at ?r ?pos")
  let ?n = "rt_cancel_probe_steps r2 + of_nat k"
  have "cloak_reactor_cancel_timer tid r = timer_slot_free ((fst (heap_remove_at ?r ?pos))\<lparr>rt_cancel_probe_steps := ?n\<rparr>) ?s"
    using True h by (simp add: cloak_reactor_cancel_timer_def live_handle_def Let_def)
  then show thesis using removed_inv[OF inv1 lr, of ?n] that l True by auto
next
  case False
  have same: "rt_timers (cloak_reactor_cancel_timer tid r) = rt_timers r \<and> rt_slots (cloak_reactor_cancel_timer tid r) = rt_slots r \<and> rt_free_slot (cloak_reactor_cancel_timer tid r) = rt_free_slot r"
    using False by (auto simp: cloak_reactor_cancel_timer_def live_handle_def Let_def)
  have "tid \<notin> te_id ` set (rt_timers r)" using pending_live[OF inv] False by blast
  then have "timer_table (rt_timers r) tid = None" by (auto simp: timer_table_def map_of_eq_None_iff)
  then have "timer_table (rt_timers r) = (timer_table (rt_timers r))(tid := None)" by (simp add: fun_upd_idem)
  then show thesis using that[of fs] same inv by (simp add: timers_inv_def)
qed

lemma fired_inv:
  assumes inv: "timers_inv r fs U" and x: "expire_one now r = Some (e, r1)"
  obtains fs1 where "timers_inv r1 fs1 U" "timer_table (rt_timers r1) = (timer_table (rt_timers r))(te_id e := None)" "length (rt_timers r) = Suc (length (rt_timers r1))"
proof -
  have e: "e = rt_timers r ! 0" "0 < length (rt_timers r)" "r1 = timer_slot_free (fst (heap_remove_at r 0)) (te_slot e)" using x by (auto simp: expire_one_def Let_def split: if_splits)
  then have "r1 = timer_slot_free ((fst (heap_remove_at r 0))\<lparr>rt_cancel_probe_steps := rt_cancel_probe_steps (fst (heap_remove_at r 0))\<rparr>) (te_slot (rt_timers r ! 0))" by simp
  then show thesis using removed_inv[OF inv e(2), of "rt_cancel_probe_steps (fst (heap_remove_at r 0))"] that e(1) by auto
qed

lemma expire_due:
  assumes inv: "timers_inv r fs U"
  shows "expire_one now r = None \<longleftrightarrow> (\<forall>e\<in>set (rt_timers r). now < te_deadline_ms e)"
    "expire_one now r = Some (e, r1) \<Longrightarrow> e \<in> set (rt_timers r) \<and> te_deadline_ms e \<le> now \<and> (\<forall>a\<in>set (rt_timers r). te_deadline_ms e \<le> te_deadline_ms a)"
proof -
  have least: "te_deadline_ms (rt_timers r ! 0) \<le> te_deadline_ms a" if "a \<in> set (rt_timers r)" for a
    using inv heap_ok_root that unfolding timers_inv_def by (metis in_set_conv_nth)
  have z: "rt_timers r ! 0 \<in> set (rt_timers r)" if "rt_timers r \<noteq> []" using that by simp
  show "expire_one now r = None \<longleftrightarrow> (\<forall>e\<in>set (rt_timers r). now < te_deadline_ms e)"
    using least z by (cases "rt_timers r = []") (auto simp: expire_one_def Let_def intro: order_less_le_trans)
  show "expire_one now r = Some (e, r1) \<Longrightarrow> e \<in> set (rt_timers r) \<and> te_deadline_ms e \<le> now \<and> (\<forall>a\<in>set (rt_timers r). te_deadline_ms e \<le> te_deadline_ms a)"
    using least z by (auto simp: expire_one_def Let_def split: if_splits)
qed

inductive timers_run :: "'c reactor_timers \<Rightarrow> (u64 \<rightharpoonup> u64 \<times> 'c) \<Rightarrow> u64 set \<Rightarrow> bool" where
  \<comment> \<open>the timers, beside the table that the calls so far stand for and the handles they have returned\<close>
  run_create: "timers_run cloak_reactor_timers_create Map.empty {}"
| run_add: "timers_run r P U \<Longrightarrow> cloak_reactor_add_timer hm sm now delay_ms (Some c) r = (tid, r1) \<Longrightarrow> tid \<noteq> CLOAK_TIMER_INVALID \<Longrightarrow>
    timers_run r1 (P(tid \<mapsto> (now + delay_ms, c))) (insert tid U)"
| run_refused: "timers_run r P U \<Longrightarrow> cloak_reactor_add_timer hm sm now delay_ms cb r = (CLOAK_TIMER_INVALID, r1) \<Longrightarrow> timers_run r1 P U"
| run_cancel: "timers_run r P U \<Longrightarrow> timers_run (cloak_reactor_cancel_timer tid r) (P(tid := None)) U"
| run_fire: "timers_run r P U \<Longrightarrow> expire_one now r = Some (e, r1) \<Longrightarrow> timers_run r1 (P(te_id e := None)) U"

lemma timers_run_inv: "timers_run r P U \<Longrightarrow> (\<exists>fs. timers_inv r fs U) \<and> timer_table (rt_timers r) = P \<and> dom P \<subseteq> U"
proof (induction rule: timers_run.induct)
  case run_create
  then show ?case by (auto simp: timers_inv_def cloak_reactor_timers_create_def heap_ok_def placed_def timer_slots_ok_def timer_table_def intro: exI[of _ "[]"])
next
  case (run_add r P U hm sm now delay_ms c tid r1)
  then obtain fs where inv: "timers_inv r fs U" by blast
  from added_inv[OF inv run_add(2,3)] show ?case using run_add(4) by fastforce
next
  case (run_refused r P U hm sm now delay_ms cb r1)
  then show ?case using refused_inv by metis
next
  case (run_cancel r P U tid)
  then obtain fs where inv: "timers_inv r fs U" by blast
  obtain fs1 where "timers_inv (cloak_reactor_cancel_timer tid r) fs1 U" "timer_table (rt_timers (cloak_reactor_cancel_timer tid r)) = (timer_table (rt_timers r))(tid := None)"
    using cancelled_inv[OF inv] by blast
  then show ?case using run_cancel(2) dom_fun_upd[of P tid None] by (metis subset_trans Diff_subset)
next
  case (run_fire r P U now e r1)
  then obtain fs where inv: "timers_inv r fs U" by blast
  from fired_inv[OF inv run_fire(2)] show ?case using run_fire(3) dom_fun_upd[of P "te_id e" None] by (metis subset_trans Diff_subset)
qed

lemma table_card: "timers_inv r fs U \<Longrightarrow> card (dom (timer_table (rt_timers r))) = cloak_reactor_pending_timers r"
  using distinct_card[OF timers_inv_ids] by (fastforce simp: timer_table_def dom_map_of_conv_image_fst image_image cloak_reactor_pending_timers_def)

lemma add_accepted:
  assumes inv: "timers_inv r fs U"
  shows "fst (cloak_reactor_add_timer True True now delay_ms (Some c) r) = CLOAK_TIMER_INVALID \<longleftrightarrow> rt_free_slot r = None \<and> TIMER_MAX_SLOTS \<le> length (rt_slots r)"
proof -
  obtain ra where ra: "timer_heap_ensure_capacity True r = Some ra" "rt_slots ra = rt_slots r" "rt_free_slot ra = rt_free_slot r"
    by (cases "length (rt_timers r) < rt_timer_cap r") (simp_all add: timer_heap_ensure_capacity_def)
  have ok: "timer_slots_ok (rt_slots ra) (rt_free_slot ra) (set (rt_timers r)) fs U" using inv ra by (simp add: timers_inv_def)
  have none: "timer_slot_alloc True ra = None \<longleftrightarrow> rt_free_slot r = None \<and> TIMER_MAX_SLOTS \<le> length (rt_slots r)"
    using ra by (auto simp: timer_slot_alloc_def Let_def split: option.splits)
  show ?thesis
  proof (cases "timer_slot_alloc True ra")
    case None
    then show ?thesis using ra(1) none by (simp add: cloak_reactor_add_timer_def)
  next
    case (Some x)
    obtain slot rb where x: "x = (slot, rb)" by (cases x)
    from slot_alloc_ok(6)[OF ok Some[unfolded x], of "\<lparr>te_deadline_ms = now, te_id = timer_handle (ts_gen (rt_slots rb ! slot)) slot, te_slot = slot, te_cb = c\<rparr>"]
    show ?thesis using ra(1) Some none x by (simp add: cloak_reactor_add_timer_def Let_def CLOAK_TIMER_INVALID_def)
  qed
qed

lemma cancel_cost:
  assumes inv: "timers_inv r fs U"
  shows "\<exists>k. cloak_reactor_cancel_probe_steps (cloak_reactor_cancel_timer tid r) = cloak_reactor_cancel_probe_steps r + of_nat k \<and> 2 ^ k \<le> 4 * max 1 (cloak_reactor_pending_timers r)"
proof (cases "tid \<noteq> CLOAK_TIMER_INVALID \<and> live_handle tid r")
  case True
  let ?r = "r\<lparr>rt_cancel_probe_steps := rt_cancel_probe_steps r + 1\<rparr>" and ?s = "unat (tid AND TIMER_SLOT_MASK) - 1"
  let ?pos = "ts_heap_pos (rt_slots r ! ?s)"
  obtain r2 k where h: "heap_remove_at ?r ?pos = (r2, k)" by (cases "heap_remove_at ?r ?pos")
  have p: "?pos < length (rt_timers ?r)" using live_pending(1)[OF inv conjunct2[OF True]] by simp
  have "timers_inv ?r fs U" using inv by (simp add: timers_inv_def)
  then obtain ts where "moved ?r r2 ts" using heap_remove_at_ok[OF _ _ p] h unfolding timers_inv_def by (metis fst_conv)
  then have "rt_cancel_probe_steps r2 = rt_cancel_probe_steps r + 1" by (simp add: moved_def)
  then have "rt_cancel_probe_steps (cloak_reactor_cancel_timer tid r) = rt_cancel_probe_steps r + of_nat (Suc k)"
    using True h by (simp add: cloak_reactor_cancel_timer_def live_handle_def Let_def timer_slot_free_def)
  moreover have "2 ^ Suc k \<le> 4 * max 1 (length (rt_timers r))" using heap_remove_at_cost[OF p] h by simp
  ultimately show ?thesis unfolding cloak_reactor_cancel_probe_steps_def cloak_reactor_pending_timers_def by blast
next
  case False
  then have "rt_cancel_probe_steps (cloak_reactor_cancel_timer tid r) = rt_cancel_probe_steps r + of_nat (if tid = CLOAK_TIMER_INVALID then 0 else 1)"
    by (auto simp: cloak_reactor_cancel_timer_def live_handle_def Let_def)
  then show ?thesis unfolding cloak_reactor_cancel_probe_steps_def by (intro exI conjI) (assumption, simp)
qed

definition due_ids :: "u64 \<Rightarrow> 'c reactor_timers \<Rightarrow> u64 set" where
  "due_ids now r = {t. \<exists>d c. timer_table (rt_timers r) t = Some (d, c) \<and> d \<le> now}"

lemma due_ids_finite: "finite (due_ids now r)"
proof -
  have "due_ids now r \<subseteq> dom (timer_table (rt_timers r))" by (auto simp: due_ids_def)
  then show ?thesis by (rule finite_subset) (simp add: timer_table_def finite_dom_map_of)
qed

lemma fired_due:
  assumes inv: "timers_inv r fs U" and x: "expire_one now r = Some (e, r1)"
  shows "due_ids now r1 = due_ids now r - {te_id e}" "te_id e \<in> due_ids now r"
proof -
  obtain fs1 where t: "timer_table (rt_timers r1) = (timer_table (rt_timers r))(te_id e := None)" using fired_inv[OF inv x] by blast
  show "due_ids now r1 = due_ids now r - {te_id e}" unfolding due_ids_def t by (auto split: if_splits)
  show "te_id e \<in> due_ids now r" using expire_due(2)[OF inv x] timer_table_set[OF timers_inv_ids[OF inv]] unfolding due_ids_def by blast
qed

lemma expired_timers_all_fire:
  \<comment> \<open>as long as no callback arms a timer that is due at once, the loop returns; unless one stops the reactor, nothing is due then\<close>
  assumes keeps: "\<forall>c r w stop r1 w1. J r w \<and> cb c (r, w) = (stop, r1, w1) \<longrightarrow> J r1 w1 \<and> due_ids now r1 \<subseteq> due_ids now r"
    and turn: "\<forall>r w e r1. J r w \<and> expire_one now r = Some (e, r1) \<longrightarrow> J r1 w"
    and inv: "\<forall>r w. J r w \<longrightarrow> (\<exists>fs U. timers_inv r fs U)"
    and start: "J r w"
  shows "\<exists>r1 w1. process_expired_timers cb now False (r, w) = Some (r1, w1) \<and> J r1 w1 \<and> ((\<forall>c st. \<not> fst (cb c st)) \<longrightarrow> due_ids now r1 = {})"
  using start
proof (induction "card (due_ids now r)" arbitrary: r w rule: less_induct)
  case less
  obtain fs U where iv: "timers_inv r fs U" using inv less(2) by blast
  show ?case
  proof (cases "expire_one now r")
    case None
    then have "due_ids now r = {}" using expire_due(1)[OF iv] timer_table_set[OF timers_inv_ids[OF iv]] by (fastforce simp: due_ids_def)
    then show ?thesis using None less(2) by (simp add: process_expired_timers.simps[of cb now False])
  next
    case (Some x)
    obtain e r1 where x: "expire_one now r = Some (e, r1)" using Some by (cases x) simp
    obtain stop r2 w2 where c: "cb (te_cb e) (r1, w) = (stop, r2, w2)" by (cases "cb (te_cb e) (r1, w)") auto
    have step: "process_expired_timers cb now False (r, w) = process_expired_timers cb now stop (r2, w2)" using x c by (simp add: process_expired_timers.simps[of cb now False])
    have j1: "J r1 w" using turn less(2) x by blast
    then have j2: "J r2 w2" and sub: "due_ids now r2 \<subseteq> due_ids now r1" using keeps c by blast+
    have "due_ids now r2 \<subset> due_ids now r" using sub fired_due[OF iv x] by blast
    then have "card (due_ids now r2) < card (due_ids now r)" by (rule psubset_card_mono[OF due_ids_finite])
    note ih = less(1)[OF this j2]
    show ?thesis
    proof (cases stop)
      case True
      then have "fst (cb (te_cb e) (r1, w))" using c by simp
      then show ?thesis using step True j2 by (auto simp: process_expired_timers.simps[of cb now True])
    next
      case False
      then show ?thesis using step ih by simp
    qed
  qed
qed

lemma timeout_reaches_deadline:
  \<comment> \<open>the wait that \<open>epoll_wait\<close> is given never outlasts the earliest timer, nor the caller's bound\<close>
  assumes inv: "timers_inv r fs U" and e: "e \<in> set (rt_timers r)"
  shows "0 \<le> compute_timeout_ms now r" "compute_timeout_ms now r \<le> max 0 (uint (te_deadline_ms e) - uint now)"
    "effective_timeout_ms (compute_timeout_ms now r) caller \<le> compute_timeout_ms now r" "0 \<le> caller \<Longrightarrow> effective_timeout_ms (compute_timeout_ms now r) caller \<le> caller"
proof -
  have least: "te_deadline_ms (rt_timers r ! 0) \<le> te_deadline_ms e" using inv heap_ok_root e unfolding timers_inv_def by (metis in_set_conv_nth)
  have ne: "rt_timers r \<noteq> []" using e by auto
  have d: "uint (te_deadline_ms (rt_timers r ! 0) - now) = uint (te_deadline_ms (rt_timers r ! 0)) - uint now" if "now \<le> te_deadline_ms (rt_timers r ! 0)"
    using that by (simp add: uint_minus_simple_alt)
  show z: "0 \<le> compute_timeout_ms now r" using ne by (simp add: compute_timeout_ms_def Let_def)
  show "compute_timeout_ms now r \<le> max 0 (uint (te_deadline_ms e) - uint now)"
    using ne d least by (auto simp: compute_timeout_ms_def Let_def word_le_def not_le)
  show "effective_timeout_ms (compute_timeout_ms now r) caller \<le> compute_timeout_ms now r" "0 \<le> caller \<Longrightarrow> effective_timeout_ms (compute_timeout_ms now r) caller \<le> caller"
    using z by (auto simp: effective_timeout_ms_def)
qed

section \<open>What the timers promise\<close>

text \<open>
  C13: After any sequence of adding, refused adding, cancelling and firing, the heap and the slots hold exactly the table those calls stand for: one entry with its deadline and callback per handle that was
  returned and has neither fired nor been cancelled. A handle that is returned was never returned before, and with memory one is returned unless every slot is taken or retired. Cancelling a handle that is
  not pending, be it fired, cancelled or made up, leaves the timers as they are, and a cancel looks at and moves at most two elements more than the logarithm of the number of pending timers. The loop stops exactly when no pending deadline has come, and otherwise takes a timer whose deadline is the least.
\<close>

theorem timers_are_a_table:
  assumes "timers_run r P U"
  shows "timer_table (rt_timers r) = P \<and> cloak_reactor_pending_timers r = card (dom P) \<and> dom P \<subseteq> U
    \<and> (\<forall>hm sm now delay_ms cb tid r1. cloak_reactor_add_timer hm sm now delay_ms cb r = (tid, r1) \<longrightarrow> tid = CLOAK_TIMER_INVALID \<or> tid \<notin> U)
    \<and> (\<forall>now delay_ms c. fst (cloak_reactor_add_timer True True now delay_ms (Some c) r) = CLOAK_TIMER_INVALID \<longleftrightarrow> rt_free_slot r = None \<and> TIMER_MAX_SLOTS \<le> length (rt_slots r))
    \<and> (\<forall>tid. P tid = None \<longrightarrow> rt_timers (cloak_reactor_cancel_timer tid r) = rt_timers r)
    \<and> (\<forall>tid. \<exists>k. cloak_reactor_cancel_probe_steps (cloak_reactor_cancel_timer tid r) = cloak_reactor_cancel_probe_steps r + of_nat k \<and> 2 ^ k \<le> 4 * max 1 (card (dom P)))
    \<and> (\<forall>now. expire_one now r = None \<longleftrightarrow> (\<forall>t d c. P t = Some (d, c) \<longrightarrow> now < d))
    \<and> (\<forall>now e r1. expire_one now r = Some (e, r1) \<longrightarrow>
         P (te_id e) = Some (te_deadline_ms e, te_cb e) \<and> te_deadline_ms e \<le> now \<and> (\<forall>t d c. P t = Some (d, c) \<longrightarrow> te_deadline_ms e \<le> d))"
proof -
  obtain fs where inv: "timers_inv r fs U" and P: "timer_table (rt_timers r) = P" and U: "dom P \<subseteq> U" using timers_run_inv[OF assms] by blast
  have entry: "P t = Some (d, c) \<longleftrightarrow> (\<exists>e\<in>set (rt_timers r). te_id e = t \<and> te_deadline_ms e = d \<and> te_cb e = c)" for t d c
    using timer_table_set[OF timers_inv_ids[OF inv]] P by simp
  have dead: "rt_timers (cloak_reactor_cancel_timer tid r) = rt_timers r" if n: "P tid = None" for tid
  proof -
    have "\<not> live_handle tid r" using live_pending[OF inv] entry n by (metis nth_mem option.distinct(1))
    then show ?thesis using cancelled_inv[OF inv, of tid] by blast
  qed
  have none: "expire_one now r = None \<longleftrightarrow> (\<forall>t d c. P t = Some (d, c) \<longrightarrow> now < d)" for now unfolding expire_due(1)[OF inv] entry by blast
  have fired: "P (te_id e) = Some (te_deadline_ms e, te_cb e) \<and> te_deadline_ms e \<le> now \<and> (\<forall>t d c. P t = Some (d, c) \<longrightarrow> te_deadline_ms e \<le> d)"
    if "expire_one now r = Some (e, r1)" for now e r1 using expire_due(2)[OF inv that] unfolding entry by blast
  have fresh: "tid = CLOAK_TIMER_INVALID \<or> tid \<notin> U" if "cloak_reactor_add_timer hm sm now delay_ms cb r = (tid, r1)" for hm sm now delay_ms cb tid r1
    using added_inv[OF inv that] by blast
  have n: "cloak_reactor_pending_timers r = card (dom P)" using table_card[OF inv] P by simp
  have cost: "\<exists>k. cloak_reactor_cancel_probe_steps (cloak_reactor_cancel_timer tid r) = cloak_reactor_cancel_probe_steps r + of_nat k \<and> 2 ^ k \<le> 4 * max 1 (card (dom P))" for tid
    using cancel_cost[OF inv, of tid] unfolding n .
  show ?thesis using P U n cost fresh add_accepted[OF inv] dead none fired by blast
qed

definition sample_timers :: "string reactor_timers" where
  "sample_timers = snd (cloak_reactor_add_timer True True 5 20 (Some ''soon'') (snd (cloak_reactor_add_timer True True 5 100 (Some ''later'') cloak_reactor_timers_create)))"

lemma sample_timers_run: "timers_run sample_timers [1 \<mapsto> (105, ''later''), 2 \<mapsto> (25, ''soon'')] {1, 2}"
proof -
  let ?r1 = "snd (cloak_reactor_add_timer True True 5 100 (Some ''later'') cloak_reactor_timers_create)"
  have ids: "fst (cloak_reactor_add_timer True True 5 100 (Some ''later'') cloak_reactor_timers_create) = 1" "fst (cloak_reactor_add_timer True True 5 20 (Some ''soon'') ?r1) = 2"
    by (simp_all add: cloak_reactor_add_timer_def timer_heap_ensure_capacity_def timer_slot_alloc_def cloak_reactor_timers_create_def timer_consts timer_handle_def Let_def
      timer_place_def heap_sift_up_def sift_up_hole.simps)
  have 1: "timers_run ?r1 [1 \<mapsto> (105, ''later'')] {1}"
    using timers_run.run_add[OF timers_run.run_create, of True True 5 100 "''later''" 1 ?r1] ids(1) by (simp add: prod_eq_iff CLOAK_TIMER_INVALID_def)
  show ?thesis using timers_run.run_add[OF 1, of True True 5 20 "''soon''" 2 sample_timers] ids(2) by (simp add: prod_eq_iff CLOAK_TIMER_INVALID_def sample_timers_def insert_commute)
qed

theorem timers_are_a_table_witness:
  "cloak_reactor_pending_timers sample_timers = 2 \<and> (\<exists>e r1. expire_one 30 sample_timers = Some (e, r1) \<and> te_id e = 2 \<and> te_cb e = ''soon'')
    \<and> expire_one 10 sample_timers = None \<and> rt_timers (cloak_reactor_cancel_timer 3 sample_timers) = rt_timers sample_timers"
proof -
  let ?P = "[1 \<mapsto> (105, ''later''), 2 \<mapsto> (25, ''soon'')] :: u64 \<rightharpoonup> u64 \<times> string"
  note t = timers_are_a_table[OF sample_timers_run]
  have "dom ?P = {1, 2}" by auto
  then have "cloak_reactor_pending_timers sample_timers = 2" using t by simp
  moreover have "expire_one 10 sample_timers = None" using t by (auto split: if_splits)
  moreover have "?P 2 = Some (25, ''soon'') \<and> \<not> (30 :: u64) < 25" by simp
  then have "expire_one 30 sample_timers \<noteq> None" using t by blast
  then obtain e r1 where e: "expire_one 30 sample_timers = Some (e, r1)" by auto
  then have "?P (te_id e) = Some (te_deadline_ms e, te_cb e)" "te_deadline_ms e \<le> 30" using t by blast+
  then have "te_id e = 2 \<and> te_cb e = ''soon''" by (auto split: if_splits)
  moreover have "?P 3 = None" by simp
  then have "rt_timers (cloak_reactor_cancel_timer 3 sample_timers) = rt_timers sample_timers" using t by blast
  ultimately show ?thesis using e by blast
qed

end
