(* ===== verification/ReactorLoop.thy ===== *)
theory ReactorLoop
  imports Reactor IntrusiveChain
begin

unbundle bit_operations_syntax

text \<open>
  The descriptors and the loop of \<open>libcloak-common/src/reactor.c\<close>: a watcher per registered descriptor, removed watchers on a list until the turn's batch is over, and the turn itself with the timers of \<open>Reactor\<close>.
  Watchers are cells of a heap; reading a cell that has been freed, or freeing it again, has the value \<^const>\<open>None\<close>. The kernel's interest list is part of the state, \<open>epoll_wait\<close>, the clock and the callbacks are
  parameters: \<open>epoll_wait\<close> reports pointers of the interest list, and a callback does what it does to the reactor through the reactor's own functions.
\<close>

section \<open>State\<close>

definition CLOAK_REACTOR_READABLE :: u32 where "CLOAK_REACTOR_READABLE = 1"
definition CLOAK_REACTOR_WRITABLE :: u32 where "CLOAK_REACTOR_WRITABLE = 2"

definition EPOLLIN :: u32 where "EPOLLIN = 1"
definition EPOLLOUT :: u32 where "EPOLLOUT = 4"
definition EPOLLERR :: u32 where "EPOLLERR = 8"
definition EPOLLHUP :: u32 where "EPOLLHUP = 16"
definition EPOLLET :: u32 where "EPOLLET = push_bit 31 1"

record 'k watcher =
  wt_fd :: int
  wt_events :: u32
  wt_cb :: 'k
  wt_dead :: bool
  wt_dead_next :: "addr option"

record 'k reactor_fds =
  rf_heap :: "addr \<Rightarrow> 'k watcher option"
  rf_watchers :: "addr option list"  \<comment> \<open>\<open>watchers_cap\<close> is its length\<close>
  rf_dead_list :: "addr option"
  rf_stopped :: bool
  rf_epoll :: "int \<Rightarrow> (u32 \<times> addr) option"  \<comment> \<open>the kernel's interest list: events and \<open>data.ptr\<close>\<close>

type_synonym ('c, 'k, 'w) reactor_state = "'c reactor_timers \<times> 'k reactor_fds \<times> 'w"

datatype epoll_answer = Wait_events "(addr \<times> u32) list" | Wait_eintr | Wait_error

section \<open>Operations\<close>

definition to_epoll_events :: "u32 \<Rightarrow> u32" where
  "to_epoll_events events =
     (let e = EPOLLET;
          e = (if events AND CLOAK_REACTOR_READABLE \<noteq> 0 then e OR EPOLLIN else e)
      in if events AND CLOAK_REACTOR_WRITABLE \<noteq> 0 then e OR EPOLLOUT else e)"

function grow_cap :: "nat \<Rightarrow> nat \<Rightarrow> nat" where
  \<comment> \<open>the doubling loop of \<open>ensure_capacity\<close>; it starts at a positive capacity\<close>
  "grow_cap new_cap fd = (if new_cap \<noteq> 0 \<and> new_cap \<le> fd then grow_cap (new_cap * 2) fd else new_cap)"
  by pat_completeness auto

termination by (relation "measure (\<lambda>(n, fd). Suc fd - n)") auto

declare grow_cap.simps [simp del]

definition ensure_capacity :: "bool \<Rightarrow> nat \<Rightarrow> 'k reactor_fds \<Rightarrow> 'k reactor_fds option" where
  "ensure_capacity mem_ok fd r =
     (if fd < length (rf_watchers r) then Some r
      else
        let new_cap = grow_cap (if length (rf_watchers r) = 0 then 16 else length (rf_watchers r) * 2) fd in
        if mem_ok then Some (r\<lparr>rf_watchers := rf_watchers r @ replicate (new_cap - length (rf_watchers r)) None\<rparr>)
        else None)"

definition cloak_reactor_fds_create :: "'k reactor_fds" where
  "cloak_reactor_fds_create = \<lparr>rf_heap = Map.empty, rf_watchers = [], rf_dead_list = None, rf_stopped = False, rf_epoll = Map.empty\<rparr>"

definition cloak_reactor_add_fd :: "bool \<Rightarrow> bool \<Rightarrow> addr option \<Rightarrow> bool \<Rightarrow> int \<Rightarrow> u32 \<Rightarrow> 'k option \<Rightarrow> 'k reactor_fds \<Rightarrow> int \<times> 'k reactor_fds" where
  \<comment> \<open>the answers of \<open>fcntl\<close>, \<open>realloc\<close>, \<open>malloc\<close> and \<open>epoll_ctl\<close>\<close>
  "cloak_reactor_add_fd fcntl_ok mem_ok cell ctl_ok fd events cb_opt r =
     (case cb_opt of
        None \<Rightarrow> (- 1, r)
      | Some cb \<Rightarrow>
          if fd < 0 then (- 1, r)
          else if \<not> fcntl_ok then (- 1, r)
          else
            (case ensure_capacity mem_ok (nat fd) r of
               None \<Rightarrow> (- 1, r)
             | Some r1 \<Rightarrow>
                 if rf_watchers r1 ! nat fd \<noteq> None then (- 1, r1)
                 else
                   (case cell of
                      None \<Rightarrow> (- 1, r1)
                    | Some w \<Rightarrow>
                        if \<not> ctl_ok then (- 1, r1)
                        else
                          (0, r1\<lparr>rf_heap := (rf_heap r1)(w \<mapsto> \<lparr>wt_fd = fd, wt_events = events, wt_cb = cb, wt_dead = False, wt_dead_next = None\<rparr>),
                                 rf_epoll := (rf_epoll r1)(fd \<mapsto> (to_epoll_events events, w)),
                                 rf_watchers := (rf_watchers r1)[nat fd := Some w]\<rparr>))))"

definition watcher_of :: "int \<Rightarrow> 'k reactor_fds \<Rightarrow> addr option" where
  "watcher_of fd r = (if fd < 0 \<or> nat fd \<ge> length (rf_watchers r) then None else rf_watchers r ! nat fd)"

definition cloak_reactor_mod_fd :: "bool \<Rightarrow> int \<Rightarrow> u32 \<Rightarrow> 'k reactor_fds \<Rightarrow> (int \<times> 'k reactor_fds) option" where
  "cloak_reactor_mod_fd ctl_ok fd events r =
     (case watcher_of fd r of
        None \<Rightarrow> Some (- 1, r)
      | Some a \<Rightarrow>
          Option.bind (rf_heap r a) (\<lambda>w.
            let r1 = r\<lparr>rf_heap := (rf_heap r)(a \<mapsto> w\<lparr>wt_events := events\<rparr>)\<rparr> in
            if \<not> ctl_ok then Some (- 1, r1)
            else Some (0, r1\<lparr>rf_epoll := (rf_epoll r1)(fd \<mapsto> (to_epoll_events events, a))\<rparr>)))"

definition cloak_reactor_remove_fd :: "int \<Rightarrow> 'k reactor_fds \<Rightarrow> (int \<times> 'k reactor_fds) option" where
  "cloak_reactor_remove_fd fd r =
     (case watcher_of fd r of
        None \<Rightarrow> Some (- 1, r)
      | Some a \<Rightarrow>
          Option.bind (rf_heap r a) (\<lambda>w.
            Some (0, r\<lparr>rf_epoll := (rf_epoll r)(fd := None), rf_watchers := (rf_watchers r)[nat fd := None],
                       rf_heap := (rf_heap r)(a \<mapsto> w\<lparr>wt_dead := True, wt_dead_next := rf_dead_list r\<rparr>), rf_dead_list := Some a\<rparr>)))"

definition cloak_reactor_stop :: "'k reactor_fds \<Rightarrow> 'k reactor_fds" where
  "cloak_reactor_stop r = r\<lparr>rf_stopped := True\<rparr>"

definition fired_events :: "u32 \<Rightarrow> u32" where
  "fired_events m =
     (let fired = 0;
          fired = (if m AND (EPOLLIN OR EPOLLHUP OR EPOLLERR) \<noteq> 0 then fired OR CLOAK_REACTOR_READABLE else fired)
      in if m AND EPOLLOUT \<noteq> 0 then fired OR CLOAK_REACTOR_WRITABLE else fired)"

fun dispatch_loop :: "('k \<Rightarrow> int \<Rightarrow> u32 \<Rightarrow> ('c, 'k, 'w) reactor_state \<Rightarrow> ('c, 'k, 'w) reactor_state) \<Rightarrow> (addr \<times> u32) list \<Rightarrow> nat \<Rightarrow>
  ('c, 'k, 'w) reactor_state \<Rightarrow> (nat \<times> ('c, 'k, 'w) reactor_state) option" where
  "dispatch_loop cb [] n st = Some (n, st)"
| "dispatch_loop cb ((a, m) # evs) n st =
     (if rf_stopped (fst (snd st)) then Some (n, st)
      else
        Option.bind (rf_heap (fst (snd st)) a) (\<lambda>w.
          if wt_dead w then dispatch_loop cb evs n st
          else
            let fired = fired_events m in
            if fired \<noteq> 0 then dispatch_loop cb evs (n + 1) (cb (wt_cb w) (wt_fd w) fired st)
            else dispatch_loop cb evs n st))"

partial_function (option) free_dead_list :: "(addr \<Rightarrow> 'k watcher option) \<Rightarrow> addr option \<Rightarrow> (addr \<Rightarrow> 'k watcher option) option" where
  "free_dead_list h d = (case d of None \<Rightarrow> Some h | Some a \<Rightarrow> Option.bind (h a) (\<lambda>w. free_dead_list (h(a := None)) (wt_dead_next w)))"

definition fire_timer :: "('c \<Rightarrow> ('c, 'k, 'w) reactor_state \<Rightarrow> ('c, 'k, 'w) reactor_state) \<Rightarrow> 'c \<Rightarrow> ('c, 'k, 'w) reactor_state \<Rightarrow> bool \<times> ('c, 'k, 'w) reactor_state" where
  \<comment> \<open>the callback, and the flag that the loop reads next\<close>
  "fire_timer cb c st = (let st1 = cb c st in (rf_stopped (fst (snd st1)), st1))"

definition cloak_reactor_run_once ::
  "('w \<Rightarrow> u64) \<Rightarrow> (int \<Rightarrow> (int \<Rightarrow> (u32 \<times> addr) option) \<Rightarrow> 'w \<Rightarrow> epoll_answer \<times> 'w) \<Rightarrow>
   ('k \<Rightarrow> int \<Rightarrow> u32 \<Rightarrow> ('c, 'k, 'w) reactor_state \<Rightarrow> ('c, 'k, 'w) reactor_state) \<Rightarrow> ('c \<Rightarrow> ('c, 'k, 'w) reactor_state \<Rightarrow> ('c, 'k, 'w) reactor_state) \<Rightarrow>
   int \<Rightarrow> ('c, 'k, 'w) reactor_state \<Rightarrow> (int \<times> ('c, 'k, 'w) reactor_state) option" where
  "cloak_reactor_run_once clock epoll_wait fd_cb timer_cb timeout_ms st =
     (case st of (rt, rf, w) \<Rightarrow>
      (case epoll_wait (effective_timeout_ms (compute_timeout_ms (clock w) rt) timeout_ms) (rf_epoll rf) w of
         (Wait_eintr, w1) \<Rightarrow> Some (0, rt, rf, w1)
       | (Wait_error, w1) \<Rightarrow> Some (- 1, rt, rf, w1)
       | (Wait_events evs, w1) \<Rightarrow>
           Option.bind (dispatch_loop fd_cb evs 0 (rt, rf, w1)) (\<lambda>(dispatched, rt2, rf2, w2).
           Option.bind (free_dead_list (rf_heap rf2) (rf_dead_list rf2)) (\<lambda>h.
             let st3 = (rt2, rf2\<lparr>rf_heap := h, rf_dead_list := None\<rparr>, w2) in
             Option.bind (if \<not> rf_stopped rf2 then process_expired_timers (fire_timer timer_cb) (clock w2) False st3 else Some st3) (\<lambda>st4.
               Some (int dispatched, st4))))))"

partial_function (option) run_turns ::
  "(('c, 'k, 'w) reactor_state \<Rightarrow> (int \<times> ('c, 'k, 'w) reactor_state) option) \<Rightarrow> ('c, 'k, 'w) reactor_state \<Rightarrow> ('c, 'k, 'w) reactor_state option" where
  \<comment> \<open>the loop of \<open>cloak_reactor_run\<close>, over one turn\<close>
  "run_turns turn st =
     (if rf_stopped (fst (snd st)) then Some st
      else Option.bind (turn st) (\<lambda>(n, st1). if n < 0 then Some st1 else run_turns turn st1))"

definition cloak_reactor_run where
  "cloak_reactor_run clock epoll_wait fd_cb timer_cb st =
     (case st of (rt, rf, w) \<Rightarrow> run_turns (cloak_reactor_run_once clock epoll_wait fd_cb timer_cb (- 1)) (rt, rf\<lparr>rf_stopped := False\<rparr>, w))"

fun free_watchers :: "addr option list \<Rightarrow> (addr \<Rightarrow> 'k watcher option) \<Rightarrow> (addr \<Rightarrow> 'k watcher option) option" where
  "free_watchers [] h = Some h"
| "free_watchers (None # ws) h = free_watchers ws h"
| "free_watchers (Some a # ws) h = Option.bind (h a) (\<lambda>_. free_watchers ws (h(a := None)))"

definition cloak_reactor_destroy :: "'k reactor_fds \<Rightarrow> (addr \<Rightarrow> 'k watcher option) option" where
  \<comment> \<open>the cells that are left\<close>
  "cloak_reactor_destroy r = Option.bind (free_watchers (rf_watchers r) (rf_heap r)) (\<lambda>h. free_dead_list h (rf_dead_list r))"

section \<open>Watchers, the dead list and the kernel's list\<close>

primrec dead_chain :: "(addr \<Rightarrow> 'k watcher option) \<Rightarrow> addr option \<Rightarrow> addr list \<Rightarrow> bool" where
  "dead_chain h d [] \<longleftrightarrow> d = None"
| "dead_chain h d (a # ds) \<longleftrightarrow> d = Some a \<and> (\<exists>w. h a = Some w \<and> wt_dead w \<and> dead_chain h (wt_dead_next w) ds)"

lemma dead_chain_upd [simp]: "a \<notin> set ds \<Longrightarrow> dead_chain (h(a := x)) d ds = dead_chain h d ds"
  by (induction ds arbitrary: d) auto

lemma dead_chainD: "dead_chain h d ds \<Longrightarrow> a \<in> set ds \<Longrightarrow> \<exists>w. h a = Some w \<and> wt_dead w"
  by (induction ds arbitrary: d) auto

lemma free_dead_ok: "dead_chain h d ds \<Longrightarrow> distinct ds \<Longrightarrow> free_dead_list h d = Some (h |` (- set ds))"
proof (induction ds arbitrary: h d)
  case Nil
  then show ?case by (simp add: free_dead_list.simps)
next
  case (Cons a ds)
  then obtain w where w: "d = Some a" "h a = Some w" "dead_chain h (wt_dead_next w) ds" by auto
  have "a \<notin> set ds" "distinct ds" using Cons.prems(2) by simp_all
  then have "free_dead_list (h(a := None)) (wt_dead_next w) = Some ((h(a := None)) |` (- set ds))" using Cons.IH dead_chain_upd w(3) by blast
  moreover have "(h(a := None)) |` (- set ds) = h |` (- set (a # ds))" by (auto simp: restrict_map_def)
  ultimately show ?case using w by (simp add: free_dead_list.simps[of h "Some a"])
qed

definition fds_inv :: "'k reactor_fds \<Rightarrow> addr list \<Rightarrow> bool" where
  \<comment> \<open>the cells are the removed watchers, which are chained and marked, and the watchers of the table, which the kernel knows\<close>
  "fds_inv r ds \<longleftrightarrow> dead_chain (rf_heap r) (rf_dead_list r) ds \<and> distinct ds \<and> dom (rf_heap r) = set ds \<union> {a. \<exists>fd. watcher_of fd r = Some a}
     \<and> (\<forall>fd a. watcher_of fd r = Some a \<longrightarrow> (\<exists>w. rf_heap r a = Some w \<and> wt_fd w = fd \<and> \<not> wt_dead w))
     \<and> (\<forall>fd. map_option snd (rf_epoll r fd) = watcher_of fd r)"

lemma watcher_of_in: "watcher_of fd r = Some a \<Longrightarrow> Some a \<in> set (rf_watchers r)"
  by (metis linorder_not_le nth_mem option.distinct(1) watcher_of_def)

lemma watcher_of_ex: "Some a \<in> set (rf_watchers r) \<Longrightarrow> \<exists>fd. watcher_of fd r = Some a"
  unfolding in_set_conv_nth watcher_of_def by (metis nat_int not_le of_nat_less_0_iff)

lemma fds_invD:
  assumes "fds_inv r ds"
  shows "dead_chain (rf_heap r) (rf_dead_list r) ds" "distinct ds" "dom (rf_heap r) = set ds \<union> {a. \<exists>fd. watcher_of fd r = Some a}"
    "watcher_of fd r = Some a \<Longrightarrow> \<exists>w. rf_heap r a = Some w \<and> wt_fd w = fd \<and> \<not> wt_dead w" "map_option snd (rf_epoll r fd) = watcher_of fd r"
  using assms unfolding fds_inv_def by blast+

lemma fds_inv_create: "fds_inv cloak_reactor_fds_create []"
  by (simp add: fds_inv_def cloak_reactor_fds_create_def watcher_of_def)

lemma fds_inv_stop: "fds_inv (r\<lparr>rf_stopped := b\<rparr>) ds = fds_inv r ds"
  by (simp add: fds_inv_def watcher_of_def)

lemma grow_cap_enough: "0 < n \<Longrightarrow> fd < grow_cap n fd"
  by (induction n fd rule: grow_cap.induct) (subst grow_cap.simps, auto)

lemma ensure_capacity_ok:
  assumes "ensure_capacity mem_ok fd r = Some r1"
  shows "fd < length (rf_watchers r1)" "watcher_of f r1 = watcher_of f r" "fds_inv r1 ds = fds_inv r ds" "rf_heap r1 = rf_heap r"
proof -
  have "0 < (if length (rf_watchers r) = 0 then 16 else length (rf_watchers r) * 2)" by simp
  from grow_cap_enough[OF this, of fd] show "fd < length (rf_watchers r1)" using assms by (auto simp: ensure_capacity_def Let_def split: if_splits)
  obtain n where r1: "r1 = r\<lparr>rf_watchers := rf_watchers r @ replicate n None\<rparr>"
    using assms by (auto simp: ensure_capacity_def Let_def split: if_splits intro: that[of 0])
  have w: "watcher_of g r1 = watcher_of g r" for g by (auto simp: r1 watcher_of_def nth_append)
  then show "watcher_of f r1 = watcher_of f r" .
  show "rf_heap r1 = rf_heap r" using r1 by simp
  show "fds_inv r1 ds = fds_inv r ds" using w unfolding fds_inv_def by (simp add: r1)
qed

lemma add_fd_ok:
  assumes inv: "fds_inv r ds" and fresh: "\<forall>a. cell = Some a \<longrightarrow> rf_heap r a = None"
    and add: "cloak_reactor_add_fd fc mem cell ctl fd events cb r = (n, r1)"
  shows "fds_inv r1 ds \<and> dom (rf_heap r) \<subseteq> dom (rf_heap r1)"
proof (cases "n = 0")
  case False
  then have "r1 = r \<or> ensure_capacity mem (nat fd) r = Some r1" using add by (auto simp: cloak_reactor_add_fd_def split: option.splits if_splits)
  then show ?thesis using inv ensure_capacity_ok(3,4)[of mem "nat fd" r r1] by auto
next
  case True
  obtain k r0 a where k: "cb = Some k" "0 \<le> fd" "ensure_capacity mem (nat fd) r = Some r0" "rf_watchers r0 ! nat fd = None" "cell = Some a"
    and r1: "r1 = r0\<lparr>rf_heap := (rf_heap r0)(a \<mapsto> \<lparr>wt_fd = fd, wt_events = events, wt_cb = k, wt_dead = False, wt_dead_next = None\<rparr>),
      rf_epoll := (rf_epoll r0)(fd \<mapsto> (to_epoll_events events, a)), rf_watchers := (rf_watchers r0)[nat fd := Some a]\<rparr>"
    using add True by (auto simp: cloak_reactor_add_fd_def split: option.splits if_splits)
  note cap = ensure_capacity_ok[OF k(3)]
  have inv0: "fds_inv r0 ds" using inv cap(3) by simp
  note i = fds_invD[OF inv0]
  have a: "rf_heap r0 a = None" using fresh k(5) cap(4) by simp
  have nds: "a \<notin> set ds" using dead_chainD[OF i(1)] a by force
  have none: "watcher_of fd r0 = None" using k(2,4) cap(1) by (simp add: watcher_of_def)
  have w: "watcher_of f r1 = (if f = fd then Some a else watcher_of f r0)" for f
    using cap(1) k(2) by (auto simp: watcher_of_def r1 nth_list_update nat_eq_iff)
  have "{b. \<exists>f. watcher_of f r1 = Some b} = insert a {b. \<exists>f. watcher_of f r0 = Some b}" using none unfolding w by (auto split: if_splits) (metis option.distinct(1))
  then have "dom (rf_heap r1) = set ds \<union> {b. \<exists>f. watcher_of f r1 = Some b}" using i(3) by (simp add: r1)
  moreover have "\<exists>x. rf_heap r1 b = Some x \<and> wt_fd x = f \<and> \<not> wt_dead x" if "watcher_of f r1 = Some b" for f b
    using that i(4)[of f b] a unfolding w by (auto simp: r1 split: if_splits)
  moreover have "map_option snd (rf_epoll r1 f) = watcher_of f r1" for f using i(5)[of f] unfolding w by (simp add: r1)
  moreover have "dead_chain (rf_heap r1) (rf_dead_list r1) ds" using i(1) nds by (simp add: r1)
  ultimately have "fds_inv r1 ds" using i(2) unfolding fds_inv_def by blast
  then show ?thesis using cap(4) by (auto simp: r1)
qed

lemma watcher_inj: "fds_inv r ds \<Longrightarrow> watcher_of f r = Some a \<Longrightarrow> watcher_of g r = Some a \<Longrightarrow> f = g"
  using fds_invD(4) by (metis option.inject)

lemma watcher_not_dead: "fds_inv r ds \<Longrightarrow> watcher_of f r = Some a \<Longrightarrow> a \<notin> set ds"
  using fds_invD(4) dead_chainD[OF fds_invD(1)] by (metis option.inject)

lemma mod_fd_ok:
  assumes inv: "fds_inv r ds"
  obtains n r1 where "cloak_reactor_mod_fd ctl fd events r = Some (n, r1)" "fds_inv r1 ds" "dom (rf_heap r1) = dom (rf_heap r)"
proof (cases "watcher_of fd r")
  case None
  then show thesis using that inv by (simp add: cloak_reactor_mod_fd_def)
next
  case (Some a)
  note i = fds_invD[OF inv]
  obtain w where w: "rf_heap r a = Some w" "wt_fd w = fd" "\<not> wt_dead w" using i(4)[OF Some] by blast
  have nds: "a \<notin> set ds" using watcher_not_dead[OF inv Some] .
  define r1 where "r1 = r\<lparr>rf_heap := (rf_heap r)(a \<mapsto> w\<lparr>wt_events := events\<rparr>)\<rparr>"
  define r2 where "r2 = (if ctl then r1\<lparr>rf_epoll := (rf_epoll r1)(fd \<mapsto> (to_epoll_events events, a))\<rparr> else r1)"
  have c: "cloak_reactor_mod_fd ctl fd events r = Some (if ctl then 0 else - 1, r2)" using Some w by (simp add: cloak_reactor_mod_fd_def Let_def r1_def r2_def)
  have same: "watcher_of f r2 = watcher_of f r" for f by (simp add: watcher_of_def r2_def r1_def)
  have h: "rf_heap r2 = (rf_heap r)(a \<mapsto> w\<lparr>wt_events := events\<rparr>)" "rf_dead_list r2 = rf_dead_list r" by (simp_all add: r2_def r1_def)
  have d: "dom (rf_heap r2) = dom (rf_heap r)" using w(1) by (auto simp: h)
  have "\<exists>x. rf_heap r2 b = Some x \<and> wt_fd x = f \<and> \<not> wt_dead x" if "watcher_of f r2 = Some b" for f b
    using that i(4)[of f b] w unfolding same by (auto simp: h)
  moreover have "map_option snd (rf_epoll r2 f) = watcher_of f r2" for f using i(5)[of f] Some unfolding same by (auto simp: r2_def r1_def)
  ultimately have "fds_inv r2 ds" using i(1,2,3) nds d unfolding fds_inv_def same h by simp
  then show thesis using that c d by blast
qed

lemma remove_fd_ok:
  assumes inv: "fds_inv r ds"
  obtains n r1 ds1 where "cloak_reactor_remove_fd fd r = Some (n, r1)" "fds_inv r1 ds1" "dom (rf_heap r1) = dom (rf_heap r)"
proof (cases "watcher_of fd r")
  case None
  then show thesis using that inv by (simp add: cloak_reactor_remove_fd_def)
next
  case (Some a)
  note i = fds_invD[OF inv]
  obtain w where w: "rf_heap r a = Some w" using i(4)[OF Some] by blast
  have nds: "a \<notin> set ds" using watcher_not_dead[OF inv Some] .
  define r1 where "r1 = r\<lparr>rf_epoll := (rf_epoll r)(fd := None), rf_watchers := (rf_watchers r)[nat fd := None],
    rf_heap := (rf_heap r)(a \<mapsto> w\<lparr>wt_dead := True, wt_dead_next := rf_dead_list r\<rparr>), rf_dead_list := Some a\<rparr>"
  have c: "cloak_reactor_remove_fd fd r = Some (0, r1)" using Some w by (simp add: cloak_reactor_remove_fd_def r1_def)
  have fd: "0 \<le> fd" "nat fd < length (rf_watchers r)" using Some by (auto simp: watcher_of_def split: if_splits)
  have wo: "watcher_of f r1 = (if f = fd then None else watcher_of f r)" for f using fd by (auto simp: watcher_of_def r1_def nth_list_update nat_eq_iff)
  have d: "dom (rf_heap r1) = dom (rf_heap r)" using w by (auto simp: r1_def)
  have "insert a {b. \<exists>f. watcher_of f r1 = Some b} = {b. \<exists>f. watcher_of f r = Some b}" using Some unfolding wo by (auto split: if_splits) (metis option.inject)
  then have "dom (rf_heap r1) = set (a # ds) \<union> {b. \<exists>f. watcher_of f r1 = Some b}" using i(3) unfolding d by auto
  moreover have "\<exists>x. rf_heap r1 b = Some x \<and> wt_fd x = f \<and> \<not> wt_dead x" if "watcher_of f r1 = Some b" for f b
    using that i(4)[of f b] watcher_inj[OF inv Some, of f] unfolding wo by (auto simp: r1_def split: if_splits)
  moreover have "map_option snd (rf_epoll r1 f) = watcher_of f r1" for f using i(5)[of f] unfolding wo by (simp add: r1_def)
  moreover have "dead_chain (rf_heap r1) (rf_dead_list r1) (a # ds)" using i(1) nds by (simp add: r1_def)
  moreover have "distinct (a # ds)" using i(2) nds by simp
  ultimately have "fds_inv r1 (a # ds)" unfolding fds_inv_def by blast
  then show thesis using that c d by blast
qed

section \<open>Calls, turns and what they keep\<close>

definition reactor_inv :: "('c, 'k, 'w) reactor_state \<Rightarrow> bool" where
  "reactor_inv st \<longleftrightarrow> (\<exists>fs U. timers_inv (fst st) fs U) \<and> (\<exists>ds. fds_inv (fst (snd st)) ds)"

inductive reactor_calls :: "('c, 'k, 'w) reactor_state \<Rightarrow> ('c, 'k, 'w) reactor_state \<Rightarrow> bool" where
  \<comment> \<open>what a caller can do to the reactor between two turns or in a callback, whatever it does to its own world\<close>
  calls_none: "reactor_calls st st"
| calls_add_fd: "reactor_calls st (rt, rf, w) \<Longrightarrow> \<forall>a. cell = Some a \<longrightarrow> rf_heap rf a = None \<Longrightarrow>
    cloak_reactor_add_fd fc mem cell ctl fd events cb rf = (n, rf1) \<Longrightarrow> reactor_calls st (rt, rf1, w1)"
| calls_mod_fd: "reactor_calls st (rt, rf, w) \<Longrightarrow> cloak_reactor_mod_fd ctl fd events rf = Some (n, rf1) \<Longrightarrow> reactor_calls st (rt, rf1, w1)"
| calls_remove_fd: "reactor_calls st (rt, rf, w) \<Longrightarrow> cloak_reactor_remove_fd fd rf = Some (n, rf1) \<Longrightarrow> reactor_calls st (rt, rf1, w1)"
| calls_stop: "reactor_calls st (rt, rf, w) \<Longrightarrow> reactor_calls st (rt, cloak_reactor_stop rf, w1)"
| calls_add_timer: "reactor_calls st (rt, rf, w) \<Longrightarrow> cloak_reactor_add_timer hm sm now delay_ms tcb rt = (tid, rt1) \<Longrightarrow> reactor_calls st (rt1, rf, w1)"
| calls_cancel_timer: "reactor_calls st (rt, rf, w) \<Longrightarrow> reactor_calls st (cloak_reactor_cancel_timer tid rt, rf, w1)"
| calls_world: "reactor_calls st (rt, rf, w) \<Longrightarrow> reactor_calls st (rt, rf, w1)"

abbreviation (input) cells :: "('c, 'k, 'w) reactor_state \<Rightarrow> addr set" where "cells st \<equiv> dom (rf_heap (fst (snd st)))"

lemma add_timer_inv:
  assumes "timers_inv rt fs U" "cloak_reactor_add_timer hm sm now delay_ms cb rt = (tid, rt1)"
  shows "\<exists>fs U. timers_inv rt1 fs U"
proof (cases "tid = CLOAK_TIMER_INVALID")
  case True
  then show ?thesis using refused_inv(1) assms by blast
next
  case False
  then show ?thesis using added_inv[OF assms(1,2)] by blast
qed

lemma calls_keep: "reactor_calls st st1 \<Longrightarrow> reactor_inv st \<Longrightarrow> reactor_inv st1 \<and> cells st \<subseteq> cells st1"
proof (induction rule: reactor_calls.induct)
  case (calls_add_fd st rt rf w cell fc mem ctl fd events cb n rf1 w1)
  then obtain ds where inv: "fds_inv rf ds" and rest: "\<exists>fs U. timers_inv rt fs U" "cells st \<subseteq> dom (rf_heap rf)" by (auto simp: reactor_inv_def)
  then show ?case using add_fd_ok[OF inv calls_add_fd(2,3)] by (auto simp: reactor_inv_def)
next
  case (calls_mod_fd st rt rf w ctl fd events n rf1 w1)
  then obtain ds where inv: "fds_inv rf ds" and rest: "\<exists>fs U. timers_inv rt fs U" "cells st \<subseteq> dom (rf_heap rf)" by (auto simp: reactor_inv_def)
  obtain n2 r2 where "cloak_reactor_mod_fd ctl fd events rf = Some (n2, r2)" "fds_inv r2 ds" "dom (rf_heap r2) = dom (rf_heap rf)" by (rule mod_fd_ok[OF inv])
  then show ?case using calls_mod_fd(2) rest by (auto simp: reactor_inv_def)
next
  case (calls_remove_fd st rt rf w fd n rf1 w1)
  then obtain ds where inv: "fds_inv rf ds" and rest: "\<exists>fs U. timers_inv rt fs U" "cells st \<subseteq> dom (rf_heap rf)" by (auto simp: reactor_inv_def)
  obtain n2 r2 ds2 where "cloak_reactor_remove_fd fd rf = Some (n2, r2)" "fds_inv r2 ds2" "dom (rf_heap r2) = dom (rf_heap rf)" by (rule remove_fd_ok[OF inv])
  then show ?case using calls_remove_fd(2) rest by (auto simp: reactor_inv_def)
next
  case (calls_add_timer st rt rf w hm sm now delay_ms tcb tid rt1 w1)
  then have i: "\<exists>fs U. timers_inv rt fs U" and rest: "\<exists>ds. fds_inv rf ds" "cells st \<subseteq> dom (rf_heap rf)" by (auto simp: reactor_inv_def)
  then have "\<exists>fs U. timers_inv rt1 fs U" using add_timer_inv calls_add_timer(2) by blast
  then show ?case using rest by (simp add: reactor_inv_def)
next
  case (calls_cancel_timer st rt rf w tid w1)
  then obtain fs U where i: "timers_inv rt fs U" and rest: "\<exists>ds. fds_inv rf ds" "cells st \<subseteq> dom (rf_heap rf)" by (auto simp: reactor_inv_def)
  then have "\<exists>fs U. timers_inv (cloak_reactor_cancel_timer tid rt) fs U" using cancelled_inv[OF i, of tid] by blast
  then show ?case using rest by (simp add: reactor_inv_def)
qed (auto simp: reactor_inv_def fds_inv_stop cloak_reactor_stop_def)

definition registered :: "addr \<Rightarrow> 'k reactor_fds \<Rightarrow> int option" where
  \<comment> \<open>the descriptor whose watcher that is, if it is still registered\<close>
  "registered a r = find (\<lambda>fd. watcher_of fd r = Some a) (map int [0..<length (rf_watchers r)])"

lemma registered_conv:
  assumes inv: "fds_inv r ds" and w: "rf_heap r a = Some w"
  shows "registered a r = (if wt_dead w then None else Some (wt_fd w))"
proof (cases "\<exists>fd. watcher_of fd r = Some a")
  case True
  then obtain fd where fd: "watcher_of fd r = Some a" by blast
  then have f: "wt_fd w = fd" "\<not> wt_dead w" using fds_invD(4)[OF inv fd] w by auto
  have "fd \<in> set (map int [0..<length (rf_watchers r)])" using fd by (auto simp: watcher_of_def split: if_splits intro!: image_eqI[of _ _ "nat fd"])
  then have "registered a r \<noteq> None" using fd by (auto simp: registered_def find_None_iff)
  then obtain g where g: "registered a r = Some g" by blast
  then have "watcher_of g r = Some a" by (auto simp: registered_def find_Some_iff)
  then show ?thesis using g f watcher_inj[OF inv fd] by simp
next
  case False
  then have "a \<in> set ds" using fds_invD(3)[OF inv] w by blast
  then have "wt_dead w" using dead_chainD[OF fds_invD(1)[OF inv]] w by fastforce
  moreover have "registered a r = None" using False by (auto simp: registered_def find_None_iff)
  ultimately show ?thesis by simp
qed

fun dispatch_registered :: "('k \<Rightarrow> int \<Rightarrow> u32 \<Rightarrow> ('c, 'k, 'w) reactor_state \<Rightarrow> ('c, 'k, 'w) reactor_state) \<Rightarrow> (addr \<times> u32) list \<Rightarrow> nat \<Rightarrow>
  ('c, 'k, 'w) reactor_state \<Rightarrow> nat \<times> ('c, 'k, 'w) reactor_state" where
  \<comment> \<open>the batch as it is meant: an event is for the registration it was reported for, if that is still there when its turn comes\<close>
  "dispatch_registered cb [] n st = (n, st)"
| "dispatch_registered cb ((a, m) # evs) n st =
     (if rf_stopped (fst (snd st)) then (n, st)
      else
        case registered a (fst (snd st)) of
          None \<Rightarrow> dispatch_registered cb evs n st
        | Some fd \<Rightarrow>
            if fired_events m \<noteq> 0 then dispatch_registered cb evs (n + 1) (cb (wt_cb (the (rf_heap (fst (snd st)) a))) fd (fired_events m) st)
            else dispatch_registered cb evs n st)"

lemma dispatch_ok:
  assumes cb: "\<forall>k fd m st. reactor_calls st (cb k fd m st)"
  shows "reactor_inv st \<Longrightarrow> \<forall>(a, m)\<in>set evs. a \<in> cells st \<Longrightarrow>
    dispatch_loop cb evs n st = Some (dispatch_registered cb evs n st) \<and> reactor_inv (snd (dispatch_registered cb evs n st))"
proof (induction evs arbitrary: n st)
  case Nil
  then show ?case by simp
next
  case (Cons e evs)
  obtain a m where e: "e = (a, m)" by (cases e)
  let ?rf = "fst (snd st)"
  obtain w where w: "rf_heap ?rf a = Some w" using Cons.prems(2) e by auto
  obtain ds where inv: "fds_inv ?rf ds" using Cons.prems(1) by (auto simp: reactor_inv_def)
  note reg = registered_conv[OF inv w]
  have rest: "\<forall>(a, m)\<in>set evs. a \<in> cells st" using Cons.prems(2) by simp
  let ?st1 = "cb (wt_cb w) (wt_fd w) (fired_events m) st"
  have k: "reactor_inv ?st1" "cells st \<subseteq> cells ?st1" using calls_keep cb Cons.prems(1) by blast+
  have "\<forall>(a, m)\<in>set evs. a \<in> cells ?st1" using rest k(2) by blast
  then have ih1: "dispatch_loop cb evs (n + 1) ?st1 = Some (dispatch_registered cb evs (n + 1) ?st1) \<and> reactor_inv (snd (dispatch_registered cb evs (n + 1) ?st1))"
    by (rule Cons.IH[OF k(1)])
  have ih0: "dispatch_loop cb evs n st = Some (dispatch_registered cb evs n st) \<and> reactor_inv (snd (dispatch_registered cb evs n st))"
    using Cons.prems(1) rest by (rule Cons.IH)
  show ?case using e w reg ih1 ih0 Cons.prems(1) by (simp add: Let_def)
qed

section \<open>A turn\<close>

definition epoll_sound :: "(int \<Rightarrow> (int \<Rightarrow> (u32 \<times> addr) option) \<Rightarrow> 'w \<Rightarrow> epoll_answer \<times> 'w) \<Rightarrow> bool" where
  \<comment> \<open>\<open>epoll_wait\<close> reports what the interest list holds\<close>
  "epoll_sound epoll_wait \<longleftrightarrow> (\<forall>t il w evs w1. epoll_wait t il w = (Wait_events evs, w1) \<longrightarrow> (\<forall>(a, m)\<in>set evs. \<exists>fd ev. il fd = Some (ev, a)))"

definition fd_cb_ok :: "('k \<Rightarrow> int \<Rightarrow> u32 \<Rightarrow> ('c, 'k, 'w) reactor_state \<Rightarrow> ('c, 'k, 'w) reactor_state) \<Rightarrow> bool" where
  "fd_cb_ok cb \<longleftrightarrow> (\<forall>k fd m st. reactor_calls st (cb k fd m st))"

definition timer_cb_ok :: "('w \<Rightarrow> u64) \<Rightarrow> ('c \<Rightarrow> ('c, 'k, 'w) reactor_state \<Rightarrow> ('c, 'k, 'w) reactor_state) \<Rightarrow> bool" where
  \<comment> \<open>it too goes through the reactor's functions, the clock does not run backwards, and it arms no timer that is due at once\<close>
  "timer_cb_ok clock cb \<longleftrightarrow> (\<forall>c st now. reactor_calls st (cb c st)
     \<and> (now \<le> clock (snd (snd st)) \<longrightarrow> now \<le> clock (snd (snd (cb c st))) \<and> due_ids now (fst (cb c st)) \<subseteq> due_ids now (fst st)))"

inductive reactor_reach ::
  "('w \<Rightarrow> u64) \<Rightarrow> (int \<Rightarrow> (int \<Rightarrow> (u32 \<times> addr) option) \<Rightarrow> 'w \<Rightarrow> epoll_answer \<times> 'w) \<Rightarrow>
   ('k \<Rightarrow> int \<Rightarrow> u32 \<Rightarrow> ('c, 'k, 'w) reactor_state \<Rightarrow> ('c, 'k, 'w) reactor_state) \<Rightarrow> ('c \<Rightarrow> ('c, 'k, 'w) reactor_state \<Rightarrow> ('c, 'k, 'w) reactor_state) \<Rightarrow>
   ('c, 'k, 'w) reactor_state \<Rightarrow> bool" for clock epoll_wait fd_cb timer_cb where
  reach_create: "reactor_reach clock epoll_wait fd_cb timer_cb (cloak_reactor_timers_create, cloak_reactor_fds_create, w)"
| reach_calls: "reactor_reach clock epoll_wait fd_cb timer_cb st \<Longrightarrow> reactor_calls st st1 \<Longrightarrow> reactor_reach clock epoll_wait fd_cb timer_cb st1"
| reach_turn: "reactor_reach clock epoll_wait fd_cb timer_cb st \<Longrightarrow> cloak_reactor_run_once clock epoll_wait fd_cb timer_cb timeout_ms st = Some (n, st1) \<Longrightarrow>
    reactor_reach clock epoll_wait fd_cb timer_cb st1"

lemma free_dead_inv:
  assumes inv: "fds_inv r ds"
  shows "free_dead_list (rf_heap r) (rf_dead_list r) = Some (rf_heap r |` (- set ds))" "fds_inv (r\<lparr>rf_heap := rf_heap r |` (- set ds), rf_dead_list := None\<rparr>) []"
proof -
  let ?r = "r\<lparr>rf_heap := rf_heap r |` (- set ds), rf_dead_list := None\<rparr>"
  note i = fds_invD[OF inv]
  show "free_dead_list (rf_heap r) (rf_dead_list r) = Some (rf_heap r |` (- set ds))" by (rule free_dead_ok[OF i(1,2)])
  have same: "watcher_of f ?r = watcher_of f r" for f by (simp add: watcher_of_def)
  have "dom (rf_heap ?r) = {a. \<exists>f. watcher_of f r = Some a}" using i(3) watcher_not_dead[OF inv] by auto
  moreover have "\<exists>w. rf_heap ?r a = Some w \<and> wt_fd w = f \<and> \<not> wt_dead w" if "watcher_of f r = Some a" for f a
    using i(4)[OF that] watcher_not_dead[OF inv that] by (simp add: restrict_map_def)
  ultimately show "fds_inv ?r []" using i(5) unfolding fds_inv_def same by simp
qed

lemma timers_keep:
  fixes rf :: "'k reactor_fds" and w :: 'w
  assumes cb: "timer_cb_ok clock cb" and inv: "reactor_inv (rt, rf, w)"
  shows "\<exists>st1. process_expired_timers (fire_timer cb) (clock w) False (rt, rf, w) = Some st1 \<and> reactor_inv st1"
proof -
  let ?J = "\<lambda>r (x :: 'k reactor_fds \<times> 'w). reactor_inv (r, x) \<and> clock w \<le> clock (snd x)"
  have "\<exists>r1 w1. process_expired_timers (fire_timer cb) (clock w) False (rt, rf, w) = Some (r1, w1) \<and> ?J r1 w1 \<and> ((\<forall>c st. \<not> fst (fire_timer cb c st)) \<longrightarrow> due_ids (clock w) r1 = {})"
  proof (rule expired_timers_all_fire[of ?J])
    show "\<forall>c r x stop r1 x1. ?J r x \<and> fire_timer cb c (r, x) = (stop, r1, x1) \<longrightarrow> ?J r1 x1 \<and> due_ids (clock w) r1 \<subseteq> due_ids (clock w) r"
    proof (intro allI impI)
      fix c r x stop r1 x1 assume h: "?J r x \<and> fire_timer cb c (r, x) = (stop, r1, x1)"
      then have c: "cb c (r, x) = (r1, x1)" by (simp add: fire_timer_def Let_def)
      have "reactor_calls (r, x) (r1, x1)" using cb c unfolding timer_cb_ok_def by metis
      then have "reactor_inv (r1, x1)" using calls_keep h by blast
      moreover have "clock w \<le> clock (snd x1) \<and> due_ids (clock w) r1 \<subseteq> due_ids (clock w) r" using cb h c unfolding timer_cb_ok_def by (metis fst_conv snd_conv)
      ultimately show "?J r1 x1 \<and> due_ids (clock w) r1 \<subseteq> due_ids (clock w) r" by blast
    qed
    show "\<forall>r x e r1. ?J r x \<and> expire_one (clock w) r = Some (e, r1) \<longrightarrow> ?J r1 x"
    proof (intro allI impI)
      fix r x e r1 assume h: "?J r x \<and> expire_one (clock w) r = Some (e, r1)"
      then obtain fs U where "timers_inv r fs U" by (auto simp: reactor_inv_def)
      then have "\<exists>fs U. timers_inv r1 fs U" using fired_inv h by metis
      then show "?J r1 x" using h by (simp add: reactor_inv_def)
    qed
  qed (use inv in \<open>auto simp: reactor_inv_def\<close>)
  then show ?thesis by blast
qed

lemma free_watchers_ok:
  assumes "\<forall>i j a. i < length ws \<longrightarrow> j < length ws \<longrightarrow> ws ! i = Some a \<longrightarrow> ws ! j = Some a \<longrightarrow> i = j" "\<forall>a. Some a \<in> set ws \<longrightarrow> h a \<noteq> None"
  shows "free_watchers ws h = Some (h |` (- {a. Some a \<in> set ws}))"
  using assms
proof (induction ws h rule: free_watchers.induct)
  case (1 h)
  then show ?case by simp
next
  case (2 ws h)
  have "\<forall>i j a. i < length ws \<longrightarrow> j < length ws \<longrightarrow> ws ! i = Some a \<longrightarrow> ws ! j = Some a \<longrightarrow> i = j" using 2(2) by (metis Suc_inject Suc_mono length_Cons nth_Cons_Suc)
  then show ?case using 2(1,3) by simp
next
  case (3 a ws h)
  have d: "\<forall>i j a. i < length ws \<longrightarrow> j < length ws \<longrightarrow> ws ! i = Some a \<longrightarrow> ws ! j = Some a \<longrightarrow> i = j" using 3(2) by (metis Suc_inject Suc_mono length_Cons nth_Cons_Suc)
  have n: "Some a \<notin> set ws"
  proof
    assume "Some a \<in> set ws"
    then obtain i where "i < length ws" "ws ! i = Some a" by (auto simp: in_set_conv_nth)
    then show False using 3(2)[rule_format, of 0 "Suc i" a] by simp
  qed
  have "\<forall>b. Some b \<in> set ws \<longrightarrow> (h(a := None)) b \<noteq> None" using 3(3) n by auto
  moreover obtain w where w: "h a = Some w" using 3(3) by auto
  ultimately have "free_watchers ws (h(a := None)) = Some ((h(a := None)) |` (- {b. Some b \<in> set ws}))" using 3(1)[OF w d] by blast
  moreover have "(h(a := None)) |` (- {b. Some b \<in> set ws}) = h |` (- {b. Some b \<in> set (Some a # ws)})" by (auto simp: restrict_map_def)
  ultimately show ?case using w by simp
qed

lemma dead_chain_restrict: "set ds \<inter> A = {} \<Longrightarrow> dead_chain (h |` (- A)) d ds = dead_chain h d ds"
  by (induction ds arbitrary: d) (auto simp: restrict_map_def)

lemma destroy_frees_all:
  assumes inv: "fds_inv r ds"
  shows "cloak_reactor_destroy r = Some Map.empty"
proof -
  let ?A = "{a. Some a \<in> set (rf_watchers r)}"
  note i = fds_invD[OF inv]
  have A: "?A = {a. \<exists>f. watcher_of f r = Some a}" using watcher_of_in watcher_of_ex by blast
  have "\<forall>i j a. i < length (rf_watchers r) \<longrightarrow> j < length (rf_watchers r) \<longrightarrow> rf_watchers r ! i = Some a \<longrightarrow> rf_watchers r ! j = Some a \<longrightarrow> i = j"
  proof (intro allI impI)
    fix i j a assume "i < length (rf_watchers r)" "j < length (rf_watchers r)" "rf_watchers r ! i = Some a" "rf_watchers r ! j = Some a"
    then have "watcher_of (int i) r = Some a" "watcher_of (int j) r = Some a" by (simp_all add: watcher_of_def)
    then show "i = j" using watcher_inj[OF inv] by force
  qed
  moreover have "\<forall>a. Some a \<in> set (rf_watchers r) \<longrightarrow> rf_heap r a \<noteq> None" using i(3) A by blast
  ultimately have w: "free_watchers (rf_watchers r) (rf_heap r) = Some (rf_heap r |` (- ?A))" by (rule free_watchers_ok)
  have "set ds \<inter> ?A = {}" using watcher_not_dead[OF inv] A by blast
  then have "dead_chain (rf_heap r |` (- ?A)) (rf_dead_list r) ds" using dead_chain_restrict i(1) by blast
  from free_dead_ok[OF this i(2)] have f: "free_dead_list (rf_heap r |` (- ?A)) (rf_dead_list r) = Some ((rf_heap r |` (- ?A)) |` (- set ds))" .
  have "(rf_heap r |` (- ?A)) |` (- set ds) = Map.empty"
  proof
    fix a
    show "((rf_heap r |` (- ?A)) |` (- set ds)) a = Map.empty a" using i(3) A by (cases "rf_heap r a") (auto simp: restrict_map_def)
  qed
  then show ?thesis using w f by (simp add: cloak_reactor_destroy_def)
qed

lemma turn_ok:
  assumes e: "epoll_sound epoll_wait" and f: "fd_cb_ok fd_cb" and t: "timer_cb_ok clock timer_cb" and inv: "reactor_inv st"
  shows "\<exists>n st1. cloak_reactor_run_once clock epoll_wait fd_cb timer_cb timeout_ms st = Some (n, st1) \<and> reactor_inv st1"
proof -
  obtain rt rf w where st: "st = (rt, rf, w)" by (cases st)
  let ?wait = "epoll_wait (effective_timeout_ms (compute_timeout_ms (clock w) rt) timeout_ms) (rf_epoll rf) w"
  obtain ans w1 where a: "?wait = (ans, w1)" by (cases ?wait)
  have inv1: "reactor_inv (rt, rf, w1)" using inv st by (simp add: reactor_inv_def)
  show ?thesis
  proof (cases ans)
    case (Wait_events evs)
    obtain ds where fi: "fds_inv rf ds" using inv1 by (auto simp: reactor_inv_def)
    have ev: "\<exists>fd ev. rf_epoll rf fd = Some (ev, b)" if "(b, m) \<in> set evs" for b m using e a Wait_events that unfolding epoll_sound_def by blast
    have "b \<in> dom (rf_heap rf)" if bm: "(b, m) \<in> set evs" for b m
    proof -
      obtain fd x where "rf_epoll rf fd = Some (x, b)" using ev[OF bm] by blast
      then have "watcher_of fd rf = Some b" using fds_invD(5)[OF fi, of fd] by simp
      then show ?thesis using fds_invD(4)[OF fi] by blast
    qed
    then have "\<forall>(b, m)\<in>set evs. b \<in> cells (rt, rf, w1)" by auto
    from dispatch_ok[OF f[unfolded fd_cb_ok_def] inv1 this, of 0]
    obtain n rt2 rf2 w2 where d: "dispatch_loop fd_cb evs 0 (rt, rf, w1) = Some (n, rt2, rf2, w2)" "reactor_inv (rt2, rf2, w2)"
      by (cases "dispatch_registered fd_cb evs 0 (rt, rf, w1)") auto
    obtain ds2 where fi2: "fds_inv rf2 ds2" using d(2) by (auto simp: reactor_inv_def)
    define rf3 where "rf3 = rf2\<lparr>rf_heap := rf_heap rf2 |` (- set ds2), rf_dead_list := None\<rparr>"
    have inv3: "reactor_inv (rt2, rf3, w2)" using free_dead_inv(2)[OF fi2] d(2) by (auto simp: reactor_inv_def rf3_def)
    obtain st4 where s4: "(if \<not> rf_stopped rf2 then process_expired_timers (fire_timer timer_cb) (clock w2) False (rt2, rf3, w2) else Some (rt2, rf3, w2)) = Some st4" "reactor_inv st4"
      using timers_keep[OF t inv3] inv3 by (cases "rf_stopped rf2") auto
    have "cloak_reactor_run_once clock epoll_wait fd_cb timer_cb timeout_ms st = Some (int n, st4)"
      using st a Wait_events d(1) free_dead_inv(1)[OF fi2] s4(1)[unfolded rf3_def] by (cases "rf_stopped rf2") (simp_all add: cloak_reactor_run_once_def Let_def)
    then show ?thesis using s4(2) by blast
  qed (use st a inv1 in \<open>simp_all add: cloak_reactor_run_once_def\<close>)
qed

lemma reactor_reach_inv:
  assumes "reactor_reach clock epoll_wait fd_cb timer_cb st" "epoll_sound epoll_wait" "fd_cb_ok fd_cb" "timer_cb_ok clock timer_cb"
  shows "reactor_inv st"
  using assms(1)
proof (induction rule: reactor_reach.induct)
  case (reach_create w)
  then show ?case using fds_inv_create timers_run_inv[OF timers_run.run_create] by (auto simp: reactor_inv_def)
next
  case (reach_calls st st1)
  then show ?case using calls_keep by blast
next
  case (reach_turn st timeout_ms n st1)
  then show ?case using turn_ok[OF assms(2,3,4) reach_turn(3), of timeout_ms] by auto
qed


definition sample_wait :: "int \<Rightarrow> (int \<Rightarrow> (u32 \<times> addr) option) \<Rightarrow> unit \<Rightarrow> epoll_answer \<times> unit" where
  "sample_wait t il w = (Wait_events (List.map_filter (\<lambda>fd. map_option (\<lambda>(e, a). (a, e)) (il fd)) [4, 5]), w)"

definition sample_cb :: "int \<Rightarrow> int \<Rightarrow> u32 \<Rightarrow> (nat, int, unit) reactor_state \<Rightarrow> (nat, int, unit) reactor_state" where
  \<comment> \<open>the callback removes the other descriptor\<close>
  "sample_cb k fd m st = (case st of (rt, rf, w) \<Rightarrow> case cloak_reactor_remove_fd k rf of None \<Rightarrow> st | Some (n, rf1) \<Rightarrow> (rt, rf1, w))"

definition sample_fds :: "int reactor_fds" where
  "sample_fds = snd (cloak_reactor_add_fd True True (Some 8) True 5 1 (Some 4) (snd (cloak_reactor_add_fd True True (Some 7) True 4 1 (Some 5) cloak_reactor_fds_create)))"

lemma sample_assumptions: "epoll_sound sample_wait" "fd_cb_ok sample_cb" "timer_cb_ok (\<lambda>_. 50) (\<lambda>c st. st)"
proof -
  show "epoll_sound sample_wait" unfolding epoll_sound_def sample_wait_def by (auto simp: map_filter_simps split: option.splits)
  show "fd_cb_ok sample_cb" unfolding fd_cb_ok_def sample_cb_def by (auto split: option.splits prod.splits intro: calls_none calls_remove_fd[OF calls_none])
  show "timer_cb_ok (\<lambda>_. 50) (\<lambda>c st. st)" by (simp add: timer_cb_ok_def calls_none)
qed

lemma sample_grow: "grow_cap 16 4 = 16" "ensure_capacity True 4 cloak_reactor_fds_create = Some (cloak_reactor_fds_create\<lparr>rf_watchers := replicate 16 None\<rparr>)"
  by (simp_all add: grow_cap.simps ensure_capacity_def cloak_reactor_fds_create_def)

lemma sample_fds_eq:
  "cloak_reactor_add_fd True True (Some 7) True 4 1 (Some 5) cloak_reactor_fds_create = (0, \<lparr>rf_heap = [7 \<mapsto> \<lparr>wt_fd = 4, wt_events = 1, wt_cb = 5, wt_dead = False, wt_dead_next = None\<rparr>],
     rf_watchers = (replicate 16 None)[4 := Some 7], rf_dead_list = None, rf_stopped = False, rf_epoll = [4 \<mapsto> (to_epoll_events 1, 7)]\<rparr>)"
  "sample_fds = \<lparr>rf_heap = [7 \<mapsto> \<lparr>wt_fd = 4, wt_events = 1, wt_cb = 5, wt_dead = False, wt_dead_next = None\<rparr>, 8 \<mapsto> \<lparr>wt_fd = 5, wt_events = 1, wt_cb = 4, wt_dead = False, wt_dead_next = None\<rparr>],
     rf_watchers = (replicate 16 None)[4 := Some 7, 5 := Some 8], rf_dead_list = None, rf_stopped = False, rf_epoll = [4 \<mapsto> (to_epoll_events 1, 7), 5 \<mapsto> (to_epoll_events 1, 8)]\<rparr>"
proof -
  show 1: "cloak_reactor_add_fd True True (Some 7) True 4 1 (Some 5) cloak_reactor_fds_create = (0, \<lparr>rf_heap = [7 \<mapsto> \<lparr>wt_fd = 4, wt_events = 1, wt_cb = 5, wt_dead = False, wt_dead_next = None\<rparr>],
     rf_watchers = (replicate 16 None)[4 := Some 7], rf_dead_list = None, rf_stopped = False, rf_epoll = [4 \<mapsto> (to_epoll_events 1, 7)]\<rparr>)"
    by (simp add: cloak_reactor_add_fd_def sample_grow) (simp add: cloak_reactor_fds_create_def)
  show "sample_fds = \<lparr>rf_heap = [7 \<mapsto> \<lparr>wt_fd = 4, wt_events = 1, wt_cb = 5, wt_dead = False, wt_dead_next = None\<rparr>, 8 \<mapsto> \<lparr>wt_fd = 5, wt_events = 1, wt_cb = 4, wt_dead = False, wt_dead_next = None\<rparr>],
     rf_watchers = (replicate 16 None)[4 := Some 7, 5 := Some 8], rf_dead_list = None, rf_stopped = False, rf_epoll = [4 \<mapsto> (to_epoll_events 1, 7), 5 \<mapsto> (to_epoll_events 1, 8)]\<rparr>"
    unfolding sample_fds_def 1 by (simp add: cloak_reactor_add_fd_def ensure_capacity_def)
qed

lemma sample_reached: "reactor_reach (\<lambda>_. 50) sample_wait sample_cb (\<lambda>c st. st) (cloak_reactor_timers_create, sample_fds, ())"
proof -
  let ?rf1 = "snd (cloak_reactor_add_fd True True (Some 7) True 4 1 (Some 5) cloak_reactor_fds_create) :: int reactor_fds"
  have "reactor_calls (cloak_reactor_timers_create :: nat reactor_timers, cloak_reactor_fds_create, ()) (cloak_reactor_timers_create, ?rf1, ())"
    by (rule calls_add_fd[OF calls_none _ surjective_pairing]) (simp add: cloak_reactor_fds_create_def)
  from calls_add_fd[OF this _ surjective_pairing, of "Some 8" True True True 5 1 "Some 4" "()"]
  have "reactor_calls (cloak_reactor_timers_create :: nat reactor_timers, cloak_reactor_fds_create, ()) (cloak_reactor_timers_create, sample_fds, ())"
    by (simp add: sample_fds_def sample_fds_eq(1))
  then show ?thesis by (rule reach_calls[OF reach_create])
qed

lemma sample_registered: "registered 7 sample_fds = Some 4" "registered 8 sample_fds = Some 5"
  by (simp_all add: sample_fds_eq(2) registered_def watcher_of_def upt_rec)


end
